(* ===== verification/Prelude.thy ===== *)
theory Prelude
  imports Main "HOL-Library.Word" "HOL-Library.List_Lexorder" "HOL-Library.Char_ord"
begin

text \<open>
  Shared vocabulary of the development: results as sums, the JSON values of
  serde_json that the crates read, byte strings with the bytewise order of
  Rust's \<open>str\<close> (and of SQLite's BINARY collation), and the list lemmas the
  components use.  Rust's \<open>Result<T, E>\<close> is \<open>'e + 't\<close> with \<open>Inl\<close> for
  \<open>Err\<close>; the \<open>?\<close> operator is \<open>res_bind\<close>.
\<close>

unbundle bit_operations_syntax

named_theorems res_simps \<open>evaluation of results\<close>
named_theorems inv_intros \<open>preservation of the component invariants\<close>

section \<open>Results\<close>

definition res_bind :: "'e + 'a \<Rightarrow> ('a \<Rightarrow> 'e + 'b) \<Rightarrow> 'e + 'b" where
  "res_bind r f = (case r of Inl e \<Rightarrow> Inl e | Inr a \<Rightarrow> f a)"

lemma res_bind_simps [simp, res_simps]:
  "res_bind (Inl e) f = Inl e"
  "res_bind (Inr a) f = f a"
  by (simp_all add: res_bind_def)

lemma res_bind_eq_Inr:
  "res_bind r f = Inr b \<longleftrightarrow> (\<exists>a. r = Inr a \<and> f a = Inr b)"
  by (cases r) auto

lemma res_bind_eq_Inl:
  "res_bind r f = Inl e \<longleftrightarrow> r = Inl e \<or> (\<exists>a. r = Inr a \<and> f a = Inl e)"
  by (cases r) auto

lemma res_bind_cong [fundef_cong]:
  "r = r' \<Longrightarrow> (\<And>a. r' = Inr a \<Longrightarrow> f a = g a) \<Longrightarrow> res_bind r f = res_bind r' g"
  by (cases r) auto

lemma res_bind_assoc: "res_bind (res_bind r f) g = res_bind r (\<lambda>a. res_bind (f a) g)"
  by (cases r) auto

definition ok_or :: "'e \<Rightarrow> 'a option \<Rightarrow> 'e + 'a" where
  "ok_or e x = (case x of None \<Rightarrow> Inl e | Some a \<Rightarrow> Inr a)"

lemma ok_or_simps [simp, res_simps]: "ok_or e None = Inl e" "ok_or e (Some a) = Inr a"
  by (simp_all add: ok_or_def)

lemma ok_or_eq_Inr [simp]: "ok_or e x = Inr a \<longleftrightarrow> x = Some a"
  by (cases x) auto

definition unwrap_or :: "'a \<Rightarrow> 'a option \<Rightarrow> 'a" where
  "unwrap_or d x = (case x of None \<Rightarrow> d | Some a \<Rightarrow> a)"

lemma unwrap_or_simps [simp, res_simps]: "unwrap_or d None = d" "unwrap_or d (Some a) = a"
  by (simp_all add: unwrap_or_def)

section \<open>JSON values\<close>

text \<open>
  serde_json's \<open>Value\<close>.  A number is an integer or a float; no component
  computes with the float, so it keeps its text.  An object is the list of its
  entries, looked up by the first one with the key.
\<close>

datatype json =
    JNull
  | JBool bool
  | JInt int
  | JFloat string
  | JStr string
  | JArr "json list"
  | JObj "(string \<times> json) list"

fun jget :: "json \<Rightarrow> string \<Rightarrow> json option" where
  "jget (JObj kvs) k = map_of kvs k"
| "jget _ k = None"

fun jas_bool :: "json \<Rightarrow> bool option" where
  "jas_bool (JBool b) = Some b"
| "jas_bool _ = None"

fun jas_u64 :: "json \<Rightarrow> nat option" where
  "jas_u64 (JInt i) = (if 0 \<le> i \<and> i < 2 ^ 64 then Some (nat i) else None)"
| "jas_u64 _ = None"

fun jas_i64 :: "json \<Rightarrow> int option" where
  "jas_i64 (JInt i) = (if - (2 ^ 63) \<le> i \<and> i < 2 ^ 63 then Some i else None)"
| "jas_i64 _ = None"

fun jas_str :: "json \<Rightarrow> string option" where
  "jas_str (JStr s) = Some s"
| "jas_str _ = None"

fun jas_arr :: "json \<Rightarrow> json list option" where
  "jas_arr (JArr xs) = Some xs"
| "jas_arr _ = None"

section \<open>Bytes\<close>

type_synonym byte = "8 word"
type_synonym bytes = "byte list"

text \<open>Bytes written into a file at an offset; a gap before it is filled with zeros.\<close>

definition write_at :: "nat \<Rightarrow> bytes \<Rightarrow> bytes \<Rightarrow> bytes" where
  "write_at off bs d = take off (d @ replicate (off - length d) 0) @ bs @ drop (off + length bs) d"

text \<open>\<open>u32::to_be_bytes\<close> and \<open>u32::from_be_bytes\<close>.\<close>

definition u32_to_be :: "32 word \<Rightarrow> bytes" where
  "u32_to_be w = [ucast (drop_bit 24 w), ucast (drop_bit 16 w), ucast (drop_bit 8 w), ucast w]"

definition u32_from_be :: "byte \<Rightarrow> byte \<Rightarrow> byte \<Rightarrow> byte \<Rightarrow> 32 word" where
  "u32_from_be a b c d =
     push_bit 24 (ucast a) OR push_bit 16 (ucast b) OR push_bit 8 (ucast c) OR ucast d"

lemma length_u32_to_be [simp]: "length (u32_to_be w) = 4"
  by (simp add: u32_to_be_def)

lemma byte_bit_beyond [simp]: "8 \<le> k \<Longrightarrow> \<not> bit (b :: byte) k"
  by (auto dest: bit_imp_le_length)

lemma u32_be_roundtrip:
  "u32_from_be (ucast (drop_bit 24 w)) (ucast (drop_bit 16 w)) (ucast (drop_bit 8 w)) (ucast w) = w"
proof (rule bit_word_eqI)
  fix n assume n: "n < LENGTH(32)"
  consider "n < 8" | "8 \<le> n" "n < 16" | "16 \<le> n" "n < 24" | "24 \<le> n" "n < 32"
    using n by fastforce
  then show "bit (u32_from_be (ucast (drop_bit 24 w)) (ucast (drop_bit 16 w))
      (ucast (drop_bit 8 w)) (ucast w)) n = bit w n"
    by cases (auto simp: u32_from_be_def bit_simps)
qed

lemma u32_to_from_be: "u32_to_be (u32_from_be a b c d) = [a, b, c, d]"
  unfolding u32_to_be_def u32_from_be_def
  by (auto intro!: bit_word_eqI simp: bit_simps)

text \<open>\<open>u64::to_le_bytes\<close> and \<open>u64::from_le_bytes\<close>, for any number of bytes.\<close>

fun le_bytes :: "nat \<Rightarrow> 64 word \<Rightarrow> bytes" where
  "le_bytes 0 w = []"
| "le_bytes (Suc n) w = ucast w # le_bytes n (drop_bit 8 w)"

fun le_word :: "bytes \<Rightarrow> 64 word" where
  "le_word [] = 0"
| "le_word (b # bs) = ucast b OR push_bit 8 (le_word bs)"

lemma length_le_bytes [simp]: "length (le_bytes n w) = n"
  by (induction n arbitrary: w) auto

lemma le_word_le_bytes: "le_word (le_bytes n w) = take_bit (8 * n) w"
proof (induction n arbitrary: w)
  case 0
  then show ?case by simp
next
  case (Suc n)
  show ?case
  proof (rule bit_word_eqI)
    fix k assume k: "k < LENGTH(64)"
    show "bit (le_word (le_bytes (Suc n) w)) k = bit (take_bit (8 * Suc n) w) k"
      using k by (cases "k < 8") (auto simp: Suc.IH bit_simps not_less)
  qed
qed

lemma le_u64_roundtrip [simp]: "le_word (le_bytes 8 w) = w"
  using take_bit_length_eq [of w] by (simp add: le_word_le_bytes)

lemma byte_mod [simp]: "(of_nat (unat (w :: byte) mod 256) :: byte) = w"
proof -
  have "unat w < 2 ^ LENGTH(8)" by (rule unsigned_less)
  then show ?thesis by simp
qed

lemma unat_of_nat_small: "n < 2 ^ LENGTH('a) \<Longrightarrow> unat (of_nat n :: 'a :: len word) = n"
  by (simp add: unat_of_nat)

lemma of_nat64_inj:
  assumes "i < 2 ^ 64" and "j < 2 ^ 64"
  shows "(of_nat i :: 64 word) = of_nat j \<longleftrightarrow> i = j"
proof -
  have "i < 2 ^ LENGTH(64)" "j < 2 ^ LENGTH(64)" using assms by simp_all
  then show ?thesis using unat_of_nat_small [where 'a = 64] by metis
qed

section \<open>Machine integers\<close>

text \<open>
  \<open>i64\<close> values are integers; where an operation can leave the range, release
  builds wrap around (\<open>wrap_i64\<close>) and \<open>as i64\<close> from a float saturates.
\<close>

definition wrap_i64 :: "int \<Rightarrow> int" where
  "wrap_i64 i = (i + 2 ^ 63) mod 2 ^ 64 - 2 ^ 63"

definition sat_i64 :: "int \<Rightarrow> int" where
  "sat_i64 i = max (- (2 ^ 63)) (min (2 ^ 63 - 1) i)"

lemma wrap_i64_id: "- (2 ^ 63) \<le> i \<Longrightarrow> i < 2 ^ 63 \<Longrightarrow> wrap_i64 i = i"
  by (simp add: wrap_i64_def)

lemma wrap_i64_range: "- (2 ^ 63) \<le> wrap_i64 i \<and> wrap_i64 i < 2 ^ 63"
  using pos_mod_bound [of "2 ^ 64" "i + 2 ^ 63"] pos_mod_sign [of "2 ^ 64" "i + 2 ^ 63"]
  by (simp add: wrap_i64_def)

section \<open>Lists\<close>

lemma sorted_map_filter:
  "sorted (map f xs) \<Longrightarrow> sorted (map f (filter P xs))"
  by (induction xs) auto

lemma filter_insort_key:
  "sorted (map f xs) \<Longrightarrow>
   filter P (insort_key f x xs) = (if P x then insort_key f x (filter P xs) else filter P xs)"
  by (cases "P x") (simp_all add: filter_insort filter_insort_triv)

lemma filter_sort_key: "filter P (sort_key f xs) = sort_key f (filter P xs)"
  by (induction xs) (auto simp: filter_insort_key)

lemma sorted_map_le_last: "sorted (map f xs) \<Longrightarrow> x \<in> set xs \<Longrightarrow> f x \<le> f (last xs)"
  by (cases xs rule: rev_cases) (auto simp: sorted_append)

lemma length_filter_mono:
  "(\<And>x. x \<in> set xs \<Longrightarrow> P x \<Longrightarrow> Q x) \<Longrightarrow> length (filter P xs) \<le> length (filter Q xs)"
  by (induction xs) (auto intro: le_SucI)

lemma map_of_filter_key:
  "P k \<Longrightarrow> map_of (filter (\<lambda>(k, v). P k) kvs) k = map_of kvs k"
  by (induction kvs) auto

lemma distinct_map_inj_eq:
  "distinct (map f xs) \<Longrightarrow> x \<in> set xs \<Longrightarrow> y \<in> set xs \<Longrightarrow> f x = f y \<Longrightarrow> x = y"
  by (auto simp: distinct_map inj_on_def)

lemma takeWhile_append_stop:
  "(\<forall>x\<in>set xs. P x) \<Longrightarrow> \<not> P y \<Longrightarrow> takeWhile P (xs @ y # ys) = xs"
  by (induction xs) auto

lemma dropWhile_append_stop:
  "(\<forall>x\<in>set xs. P x) \<Longrightarrow> \<not> P y \<Longrightarrow> dropWhile P (xs @ y # ys) = y # ys"
  by (induction xs) auto

section \<open>Remainders\<close>

lemma mod_eq_int: "x mod m = y mod m \<longleftrightarrow> int m dvd int x - int y"
  by (metis mod_eq_dvd_iff of_nat_eq_iff of_nat_mod)

lemma mod_add_cancel: "(k + a) mod m = (k + b) mod (m :: nat) \<longleftrightarrow> a mod m = b mod m"
  unfolding mod_eq_int by simp

end
