(* ===== verification/Sync_Oplog.thy ===== *)
theory Sync_Oplog
  imports Prelude "HOL-Library.Product_Lexorder"
begin

text \<open>
  The change log of crates/sync-core/src/oplog.rs: five SQLite tables behind one
  connection.  A table is the list of its rows in rowid order; the SQL text of
  each method is translated into list operations (\<open>ORDER BY k, rowid\<close> is the
  stable \<open>sort_key k\<close>, \<open>INSERT OR IGNORE\<close> tests the primary key, an upsert
  with \<open>MAX\<close> keeps the larger value).  Failures of SQLite itself
  (\<open>SyncError::Db\<close>) are outside the model, and a JSON column is the value it
  encodes.  Where SQL leaves the order of equal keys open
  (\<open>latest_for\<close>) the model takes the earlier row; the results below that
  depend on the choice assume that no two rows tie.
\<close>

section \<open>Rows\<close>

record op_entry =
  op_id :: string
  op_entity :: string
  op_entity_id :: string
  op_ts :: int
  op_device :: string
  op_value :: json

definition deleted_key :: string where
  "deleted_key = ''deleted''"

definition op_is_delete :: "op_entry \<Rightarrow> bool" where
  "op_is_delete e = unwrap_or False (Option.bind (jget (op_value e) deleted_key) jas_bool)"

record conflict_entry =
  ce_id :: string
  ce_entity :: string
  ce_entity_id :: string
  ce_lost_ts :: int
  ce_lost_device :: string
  ce_winner_device :: string
  ce_winner_ts :: int
  ce_lost_value :: json
  ce_recorded_ms :: int

definition conflict_is_delete :: "conflict_entry \<Rightarrow> bool" where
  "conflict_is_delete e = unwrap_or False (Option.bind (jget (ce_lost_value e) deleted_key) jas_bool)"

record sync_run =
  run_id :: int
  run_ts_ms :: int
  run_peer :: string
  run_role :: string
  run_pushed :: nat
  run_pulled_applied :: nat
  run_pulled_lost :: nat
  run_conflicts :: nat
  run_duration_ms :: int
  run_error :: "string option"

section \<open>Tables\<close>

type_synonym cursor_table = "(string \<times> int) list"

record op_log =
  ol_rows :: "op_entry list"
  ol_cursors :: cursor_table
  ol_push_cursors :: cursor_table
  ol_conflicts :: "conflict_entry list"
  ol_runs :: "sync_run list"

definition op_log_empty :: op_log where
  "op_log_empty = \<lparr>ol_rows = [], ol_cursors = [], ol_push_cursors = [], ol_conflicts = [], ol_runs = []\<rparr>"

definition append_op :: "op_log \<Rightarrow> op_entry \<Rightarrow> op_log" where
  "append_op l e =
     (if op_id e \<in> set (map op_id (ol_rows l)) then l else l\<lparr>ol_rows := ol_rows l @ [e]\<rparr>)"

definition ops_of_device :: "op_log \<Rightarrow> string \<Rightarrow> int \<Rightarrow> nat \<Rightarrow> op_entry list" where
  "ops_of_device l device since_ts limit =
     take limit (sort_key op_ts (filter (\<lambda>e. op_device e = device \<and> since_ts < op_ts e) (ol_rows l)))"

text \<open>\<open>ORDER BY ts DESC, device DESC LIMIT 1\<close>: the row no other row beats.\<close>

definition op_newer :: "op_entry \<Rightarrow> op_entry \<Rightarrow> bool" where
  "op_newer a b \<longleftrightarrow> op_ts b < op_ts a \<or> op_ts a = op_ts b \<and> op_device b < op_device a"

fun newest :: "op_entry list \<Rightarrow> op_entry option" where
  "newest [] = None"
| "newest (e # es) =
     (case newest es of None \<Rightarrow> Some e | Some m \<Rightarrow> if op_newer m e then Some m else Some e)"

definition latest_for :: "op_log \<Rightarrow> string \<Rightarrow> string \<Rightarrow> op_entry option" where
  "latest_for l entity entity_id =
     newest (filter (\<lambda>e. op_entity e = entity \<and> op_entity_id e = entity_id) (ol_rows l))"

fun upsert_max :: "string \<Rightarrow> int \<Rightarrow> cursor_table \<Rightarrow> cursor_table" where
  "upsert_max d ts [] = [(d, ts)]"
| "upsert_max d ts ((d', t) # cs) =
     (if d' = d then (d', max t ts) # cs else (d', t) # upsert_max d ts cs)"

definition cursor :: "op_log \<Rightarrow> string \<Rightarrow> int" where
  "cursor l device = unwrap_or 0 (map_of (ol_cursors l) device)"

definition set_cursor :: "op_log \<Rightarrow> string \<Rightarrow> int \<Rightarrow> op_log" where
  "set_cursor l device ts = l\<lparr>ol_cursors := upsert_max device ts (ol_cursors l)\<rparr>"

definition push_cursor :: "op_log \<Rightarrow> string \<Rightarrow> int" where
  "push_cursor l device = unwrap_or 0 (map_of (ol_push_cursors l) device)"

definition set_push_cursor :: "op_log \<Rightarrow> string \<Rightarrow> int \<Rightarrow> op_log" where
  "set_push_cursor l device ts = l\<lparr>ol_push_cursors := upsert_max device ts (ol_push_cursors l)\<rparr>"

definition count_ops_after :: "op_log \<Rightarrow> string \<Rightarrow> int \<Rightarrow> nat" where
  "count_ops_after l device ts =
     length (filter (\<lambda>e. op_device e = device \<and> ts < op_ts e) (ol_rows l))"

definition all_cursors :: "op_log \<Rightarrow> cursor_table" where
  "all_cursors l = sort_key fst (ol_cursors l)"

definition all_push_cursors :: "op_log \<Rightarrow> cursor_table" where
  "all_push_cursors l = sort_key fst (ol_push_cursors l)"

definition op_count :: "op_log \<Rightarrow> nat" where
  "op_count l = length (ol_rows l)"

definition record_conflict :: "op_log \<Rightarrow> conflict_entry \<Rightarrow> op_log" where
  "record_conflict l e =
     (if ce_id e \<in> set (map ce_id (ol_conflicts l)) then l
      else l\<lparr>ol_conflicts := ol_conflicts l @ [e]\<rparr>)"

text \<open>SQLite: a negative \<open>LIMIT\<close> is no limit, a negative \<open>OFFSET\<close> is zero.\<close>

definition sql_page :: "int \<Rightarrow> int \<Rightarrow> 'a list \<Rightarrow> 'a list" where
  "sql_page limit offset xs =
     (let ys = drop (nat offset) xs in if limit < 0 then ys else take (nat limit) ys)"

definition conflicts :: "op_log \<Rightarrow> int \<Rightarrow> int \<Rightarrow> conflict_entry list" where
  "conflicts l limit offset =
     sql_page limit offset (sort_key (\<lambda>e. (- ce_recorded_ms e, ce_id e)) (ol_conflicts l))"

definition find_conflict :: "op_log \<Rightarrow> string \<Rightarrow> conflict_entry option" where
  "find_conflict l cid = find (\<lambda>e. ce_id e = cid) (ol_conflicts l)"

definition prune_conflicts_before :: "op_log \<Rightarrow> int \<Rightarrow> op_log \<times> nat" where
  "prune_conflicts_before l cutoff_ms =
     (l\<lparr>ol_conflicts := filter (\<lambda>e. \<not> ce_recorded_ms e < cutoff_ms) (ol_conflicts l)\<rparr>,
      length (filter (\<lambda>e. ce_recorded_ms e < cutoff_ms) (ol_conflicts l)))"

text \<open>\<open>AUTOINCREMENT\<close>: rows of \<open>sync_run\<close> are never deleted, so the next id is the row count plus one.\<close>

definition record_run :: "op_log \<Rightarrow> sync_run \<Rightarrow> op_log" where
  "record_run l r = l\<lparr>ol_runs := ol_runs l @ [r\<lparr>run_id := int (length (ol_runs l)) + 1\<rparr>]\<rparr>"

definition runs :: "op_log \<Rightarrow> int \<Rightarrow> sync_run list" where
  "runs l limit = sql_page limit 0 (sort_key (\<lambda>r. - run_id r) (ol_runs l))"

definition last_run_per_peer :: "op_log \<Rightarrow> string \<Rightarrow> sync_run option" where
  "last_run_per_peer l =
     map_of (map (\<lambda>r. (run_peer r, r))
       (filter (\<lambda>r. list_all (\<lambda>q. run_peer q = run_peer r \<longrightarrow> run_id q \<le> run_id r) (ol_runs l))
         (ol_runs l)))"


section \<open>The order of changes\<close>

lemma op_newer_irrefl [simp]: "\<not> op_newer a a"
  by (simp add: op_newer_def)

lemma op_newer_asym: "op_newer a b \<Longrightarrow> \<not> op_newer b a"
  by (auto simp: op_newer_def)

lemma op_newer_trans: "op_newer a b \<Longrightarrow> op_newer b c \<Longrightarrow> op_newer a c"
  by (auto simp: op_newer_def)

lemma op_newer_negtrans: "\<not> op_newer a b \<Longrightarrow> \<not> op_newer b c \<Longrightarrow> \<not> op_newer a c"
  by (auto simp: op_newer_def not_less)

lemma op_newer_total:
  "\<not> op_newer a b \<Longrightarrow> \<not> op_newer b a \<Longrightarrow> op_ts a = op_ts b \<and> op_device a = op_device b"
  by (auto simp: op_newer_def)

lemma newest_append:
  "newest (xs @ [e]) =
     (case newest xs of None \<Rightarrow> Some e | Some m \<Rightarrow> if op_newer e m then Some e else Some m)"
proof (induction xs)
  case Nil
  then show ?case by simp
next
  case (Cons x xs)
  then show ?case
    by (auto split: option.splits dest: op_newer_trans op_newer_negtrans op_newer_asym)
qed

lemma newest_None [simp]: "newest xs = None \<longleftrightarrow> xs = []"
  by (cases xs) (auto split: option.splits)

lemma newest_mem: "newest xs = Some m \<Longrightarrow> m \<in> set xs"
  by (induction xs arbitrary: m) (auto split: option.splits if_splits)

lemma newest_unbeaten: "newest xs = Some m \<Longrightarrow> x \<in> set xs \<Longrightarrow> \<not> op_newer x m"
proof (induction xs arbitrary: m rule: rev_induct)
  case Nil
  then show ?case by simp
next
  case (snoc y ys)
  then show ?case
    by (auto simp: newest_append split: option.splits if_splits
        dest: op_newer_trans op_newer_negtrans op_newer_asym)
qed

section \<open>Cursor tables\<close>

text \<open>
  Both cursor tables keep the contract a session relies on: a cursor never goes
  back, devices do not disturb each other, and the order in which the
  acknowledgements of one device arrive does not matter.
\<close>

locale cursor_store =
  fixes get :: "'l \<Rightarrow> string \<Rightarrow> int"
    and put :: "'l \<Rightarrow> string \<Rightarrow> int \<Rightarrow> 'l"
    and known :: "'l \<Rightarrow> string \<Rightarrow> bool"
  assumes get_put_same: "get (put l d t) d = (if known l d then max (get l d) t else t)"
    and get_put_other: "d' \<noteq> d \<Longrightarrow> get (put l d t) d' = get l d'"
    and known_put: "known (put l d t) d' \<longleftrightarrow> d' = d \<or> known l d'"
    and get_unknown: "\<not> known l d \<Longrightarrow> get l d = 0"
begin

lemma get_put: "0 \<le> t \<Longrightarrow> get (put l d t) d' = (if d' = d then max (get l d) t else get l d')"
  by (auto simp: get_put_same get_put_other get_unknown)

lemma never_back: "0 \<le> t \<Longrightarrow> get l d' \<le> get (put l d t) d'"
  by (simp add: get_put)

lemma put_idem: "0 \<le> t \<Longrightarrow> get (put (put l d t) d t) = get (put l d t)"
  by (rule ext) (simp add: get_put)

lemma put_commute:
  "0 \<le> t \<Longrightarrow> 0 \<le> u \<Longrightarrow> get (put (put l d t) e u) = get (put (put l e u) d t)"
  by (rule ext) (simp add: get_put max.left_commute max.commute)

lemma run_max:
  "\<forall>t\<in>set ts. 0 \<le> t \<Longrightarrow>
   get (fold (\<lambda>t l. put l d t) ts l) d = foldr max ts (get l d)"
proof (induction ts arbitrary: l)
  case Nil
  then show ?case by simp
next
  case (Cons t ts)
  have "foldr max ts (max (get l d) t) = max t (foldr max ts (get l d))"
    by (induction ts) (auto simp: max.left_commute max.commute)
  with Cons show ?case by (simp add: get_put)
qed

end

lemma map_of_upsert_max:
  "map_of (upsert_max d ts cs) d' =
     (if d' = d then Some (case map_of cs d of None \<Rightarrow> ts | Some t \<Rightarrow> max t ts) else map_of cs d')"
  by (induction cs) auto

lemma keys_upsert_max: "set (map fst (upsert_max d ts cs)) = insert d (set (map fst cs))"
  by (induction d ts cs rule: upsert_max.induct) (simp_all add: insert_commute insert_absorb2)

lemma distinct_upsert_max:
  "distinct (map fst cs) \<Longrightarrow> distinct (map fst (upsert_max d ts cs))"
proof (induction d ts cs rule: upsert_max.induct)
  case (2 d ts d' t cs)
  then show ?case using keys_upsert_max [of d ts cs] by (auto simp del: set_map)
qed simp

interpretation inbound: cursor_store cursor set_cursor "\<lambda>l d. map_of (ol_cursors l) d \<noteq> None"
  by unfold_locales
    (auto simp: cursor_def set_cursor_def map_of_upsert_max split: option.splits)

interpretation outbound: cursor_store push_cursor set_push_cursor
    "\<lambda>l d. map_of (ol_push_cursors l) d \<noteq> None"
  by unfold_locales
    (auto simp: push_cursor_def set_push_cursor_def map_of_upsert_max split: option.splits)

section \<open>The log as a last-writer-wins store\<close>

text \<open>
  What the conflict resolution asks of the log: \<open>latest\<close> returns the newest
  entry appended so far for a key, and appending an entry whose id is already
  there changes nothing.
\<close>

definition op_key :: "op_entry \<Rightarrow> string \<times> string" where
  "op_key e = (op_entity e, op_entity_id e)"

locale lww_log =
  fixes latest :: "'l \<Rightarrow> string \<times> string \<Rightarrow> op_entry option"
    and append :: "'l \<Rightarrow> op_entry \<Rightarrow> 'l"
    and entries :: "'l \<Rightarrow> op_entry set"
  assumes latest_append: "op_id e \<notin> op_id ` entries l \<Longrightarrow> latest (append l e) k =
      (if op_key e \<noteq> k then latest l k
       else case latest l k of None \<Rightarrow> Some e | Some m \<Rightarrow> if op_newer e m then Some e else Some m)"
    and append_known: "op_id e \<in> op_id ` entries l \<Longrightarrow> append l e = l"
    and entries_append: "op_id e \<notin> op_id ` entries l \<Longrightarrow> entries (append l e) = insert e (entries l)"
    and latest_None: "latest l k = None \<longleftrightarrow> (\<forall>e\<in>entries l. op_key e \<noteq> k)"
    and latest_Some: "latest l k = Some m \<Longrightarrow> m \<in> entries l \<and> op_key m = k"
    and latest_unbeaten: "latest l k = Some m \<Longrightarrow> e \<in> entries l \<Longrightarrow> op_key e = k \<Longrightarrow> \<not> op_newer e m"

definition latest_of_key :: "op_log \<Rightarrow> string \<times> string \<Rightarrow> op_entry option" where
  "latest_of_key l k = latest_for l (fst k) (snd k)"

lemma latest_of_key_eq:
  "latest_of_key l k = newest (filter (\<lambda>e. op_key e = k) (ol_rows l))"
  by (cases k) (simp add: latest_of_key_def latest_for_def op_key_def)

interpretation oplog: lww_log latest_of_key append_op "\<lambda>l. set (ol_rows l)"
proof unfold_locales
  fix l k m e
  show "op_id e \<notin> op_id ` set (ol_rows l) \<Longrightarrow> latest_of_key (append_op l e) k =
      (if op_key e \<noteq> k then latest_of_key l k
       else case latest_of_key l k of None \<Rightarrow> Some e
            | Some m \<Rightarrow> if op_newer e m then Some e else Some m)"
    by (simp add: latest_of_key_eq append_op_def newest_append)
  show "op_id e \<in> op_id ` set (ol_rows l) \<Longrightarrow> append_op l e = l"
    by (simp add: append_op_def)
  show "op_id e \<notin> op_id ` set (ol_rows l) \<Longrightarrow>
      set (ol_rows (append_op l e)) = insert e (set (ol_rows l))"
    by (simp add: append_op_def)
  show "latest_of_key l k = None \<longleftrightarrow> (\<forall>e\<in>set (ol_rows l). op_key e \<noteq> k)"
    by (simp add: latest_of_key_eq filter_empty_conv)
  show "latest_of_key l k = Some m \<Longrightarrow> m \<in> set (ol_rows l) \<and> op_key m = k"
    by (auto simp: latest_of_key_eq dest: newest_mem)
  show "latest_of_key l k = Some m \<Longrightarrow> e \<in> set (ol_rows l) \<Longrightarrow> op_key e = k \<Longrightarrow> \<not> op_newer e m"
    by (auto simp: latest_of_key_eq dest: newest_unbeaten)
qed

section \<open>Queries of one device\<close>

lemma ops_of_device_mem:
  "e \<in> set (ops_of_device l d s n) \<Longrightarrow> e \<in> set (ol_rows l) \<and> op_device e = d \<and> s < op_ts e"
  by (auto simp: ops_of_device_def dest: in_set_takeD)

lemma ops_of_device_sorted: "sorted (map op_ts (ops_of_device l d s n))"
  by (simp add: ops_of_device_def take_map [symmetric] sorted_wrt_take)

lemma ops_of_device_length: "length (ops_of_device l d s n) = min n (count_ops_after l d s)"
  by (simp add: ops_of_device_def count_ops_after_def)

lemma ops_of_device_complete:
  "count_ops_after l d s \<le> n \<Longrightarrow>
   set (ops_of_device l d s n) = {e \<in> set (ol_rows l). op_device e = d \<and> s < op_ts e}"
  by (simp add: ops_of_device_def count_ops_after_def)

lemma count_ops_after_antimono: "s \<le> t \<Longrightarrow> count_ops_after l d t \<le> count_ops_after l d s"
  unfolding count_ops_after_def by (rule length_filter_mono) auto

section \<open>The order of changes\<close>

text \<open>The stamp that decides between two changes of an entity, with its linear order.\<close>

datatype op_stamp = Op_Stamp (stamp_ts: int) (stamp_device: string)

instantiation op_stamp :: linorder
begin

definition less_op_stamp :: "op_stamp \<Rightarrow> op_stamp \<Rightarrow> bool" where
  "less_op_stamp a b \<longleftrightarrow>
     stamp_ts a < stamp_ts b \<or> stamp_ts a = stamp_ts b \<and> stamp_device a < stamp_device b"

definition less_eq_op_stamp :: "op_stamp \<Rightarrow> op_stamp \<Rightarrow> bool" where
  "less_eq_op_stamp a b \<longleftrightarrow>
     stamp_ts a < stamp_ts b \<or> stamp_ts a = stamp_ts b \<and> stamp_device a \<le> stamp_device b"

instance
  by standard (auto simp: less_op_stamp_def less_eq_op_stamp_def intro: op_stamp.expand)

end

definition stamp_of :: "op_entry \<Rightarrow> op_stamp" where
  "stamp_of e = Op_Stamp (op_ts e) (op_device e)"

lemma op_newer_stamp: "op_newer a b \<longleftrightarrow> stamp_of b < stamp_of a"
  by (auto simp: op_newer_def stamp_of_def less_op_stamp_def)

lemma unbeaten_stamp: "\<not> op_newer e m \<longleftrightarrow> stamp_of e \<le> stamp_of m"
  by (simp add: op_newer_stamp not_less)

text \<open>The log's answer for an entity is the last writer: \<open>latest_for\<close> finds nothing exactly when no
  change of the entity is recorded, and otherwise a recorded change of that entity whose timestamp,
  with ties broken by the device, is the greatest of all.\<close>

lemma latest_for_is_last_writer:
  "case latest_for l entity entity_id of
     None \<Rightarrow> \<not> (\<exists>e\<in>set (ol_rows l). op_entity e = entity \<and> op_entity_id e = entity_id)
   | Some m \<Rightarrow> m \<in> set (ol_rows l) \<and> op_entity m = entity \<and> op_entity_id m = entity_id
       \<and> stamp_of m = Max (stamp_of ` {e \<in> set (ol_rows l). op_entity e = entity \<and> op_entity_id e = entity_id})"
proof (cases "latest_for l entity entity_id")
  case None
  then have "latest_of_key l (entity, entity_id) = None" by (simp add: latest_of_key_def)
  then show ?thesis using None by (auto simp: oplog.latest_None op_key_def)
next
  case (Some m)
  then have m: "latest_of_key l (entity, entity_id) = Some m" by (simp add: latest_of_key_def)
  let ?S = "{e \<in> set (ol_rows l). op_entity e = entity \<and> op_entity_id e = entity_id}"
  have in_S: "m \<in> ?S" using oplog.latest_Some [OF m] by (simp add: op_key_def)
  have "stamp_of e \<le> stamp_of m" if "e \<in> ?S" for e
    using oplog.latest_unbeaten [OF m, of e] that by (simp add: op_key_def unbeaten_stamp)
  then have "stamp_of m = Max (stamp_of ` ?S)"
    using in_S by (intro Max_eqI [symmetric]) auto
  with Some in_S show ?thesis by simp
qed

end
