(* ===== verification/Str.thy ===== *)
theory Str
  imports Prelude "HOL-Library.Sublist"
begin

text \<open>
  The operations of Rust's \<open>str\<close> that the crates use.  A \<open>str\<close> is its UTF-8
  bytes, one \<open>char\<close> per byte; every separator the code searches for is ASCII, so
  searching the bytes is searching the characters.  \<open>trim\<close> removes Unicode white
  space, whose encodings \<open>ws_seqs\<close> lists.
\<close>

section \<open>White space\<close>

definition ws_seqs :: "string list" where
  "ws_seqs =
     [[CHR 0x09], [CHR 0x0A], [CHR 0x0B], [CHR 0x0C], [CHR 0x0D], [CHR 0x20],
      [CHR 0xC2, CHR 0x85], [CHR 0xC2, CHR 0xA0], [CHR 0xE1, CHR 0x9A, CHR 0x80],
      [CHR 0xE2, CHR 0x80, CHR 0x80], [CHR 0xE2, CHR 0x80, CHR 0x81],
      [CHR 0xE2, CHR 0x80, CHR 0x82], [CHR 0xE2, CHR 0x80, CHR 0x83],
      [CHR 0xE2, CHR 0x80, CHR 0x84], [CHR 0xE2, CHR 0x80, CHR 0x85],
      [CHR 0xE2, CHR 0x80, CHR 0x86], [CHR 0xE2, CHR 0x80, CHR 0x87],
      [CHR 0xE2, CHR 0x80, CHR 0x88], [CHR 0xE2, CHR 0x80, CHR 0x89],
      [CHR 0xE2, CHR 0x80, CHR 0x8A], [CHR 0xE2, CHR 0x80, CHR 0xA8],
      [CHR 0xE2, CHR 0x80, CHR 0xA9], [CHR 0xE2, CHR 0x80, CHR 0xAF],
      [CHR 0xE2, CHR 0x81, CHR 0x9F], [CHR 0xE3, CHR 0x80, CHR 0x80]]"

fun strip_first :: "string list \<Rightarrow> string \<Rightarrow> string option" where
  "strip_first [] s = None"
| "strip_first (w # ws) s =
     (if w \<noteq> [] \<and> prefix w s then Some (drop (length w) s) else strip_first ws s)"

lemma strip_first_shorter: "strip_first ws s = Some t \<Longrightarrow> length t < length s"
  by (induction ws) (auto split: if_splits simp: prefix_def)

lemma strip_first_suffix: "strip_first ws s = Some t \<Longrightarrow> suffix t s"
  by (induction ws) (auto split: if_splits simp: suffix_drop)

function strip_all :: "string list \<Rightarrow> string \<Rightarrow> string" where
  "strip_all ws s = (case strip_first ws s of None \<Rightarrow> s | Some t \<Rightarrow> strip_all ws t)"
  by pat_completeness auto
termination
  by (relation "measure (\<lambda>(ws, s). length s)") (auto dest: strip_first_shorter)

declare strip_all.simps [simp del]

definition trim_start :: "string \<Rightarrow> string" where
  "trim_start s = strip_all ws_seqs s"

definition trim_end :: "string \<Rightarrow> string" where
  "trim_end s = rev (strip_all (map rev ws_seqs) (rev s))"

definition str_trim :: "string \<Rightarrow> string" where
  "str_trim s = trim_end (trim_start s)"

lemma strip_all_fix: "strip_first ws (strip_all ws s) = None"
proof (induction ws s rule: strip_all.induct)
  case (1 ws s)
  then show ?case
    by (cases "strip_first ws s") (simp_all add: strip_all.simps [of ws s])
qed

lemma strip_all_id: "strip_first ws s = None \<Longrightarrow> strip_all ws s = s"
  by (simp add: strip_all.simps)

lemma strip_all_idem [simp]: "strip_all ws (strip_all ws s) = strip_all ws s"
  by (rule strip_all_id) (rule strip_all_fix)

lemma strip_all_suffix: "suffix (strip_all ws s) s"
proof (induction ws s rule: strip_all.induct)
  case (1 ws s)
  then show ?case
    by (cases "strip_first ws s")
      (auto simp: strip_all.simps [of ws s] dest: strip_first_suffix intro: suffix_order.trans)
qed

lemma strip_first_None: "strip_first ws s = None \<longleftrightarrow> (\<forall>w\<in>set ws. w \<noteq> [] \<longrightarrow> \<not> prefix w s)"
  by (induction ws) auto

lemma strip_all_None: "strip_first ws s = None \<longleftrightarrow> strip_all ws s = s"
  using strip_all_fix [of ws s] by (auto simp: strip_all_id)

lemma trim_end_prefix: "prefix (trim_end s) s"
  using strip_all_suffix [of "map rev ws_seqs" "rev s"] by (simp add: trim_end_def suffix_to_prefix)

lemma str_trim_idem [simp]: "str_trim (str_trim s) = str_trim s"
proof -
  let ?t = "trim_start s"
  have "strip_first ws_seqs (trim_end ?t) = None"
    using strip_all_fix [of ws_seqs s] trim_end_prefix [of ?t]
    by (auto simp: strip_first_None trim_start_def dest: prefix_order.trans)
  then have "trim_start (str_trim s) = str_trim s"
    by (simp add: str_trim_def trim_start_def strip_all_id)
  then show ?thesis by (simp add: str_trim_def trim_end_def)
qed

text \<open>A map on characters that fixes the white space commutes with trimming.\<close>

lemma strip_all_map:
  assumes "\<And>w s. w \<in> set ws \<Longrightarrow> prefix w (map f s) \<longleftrightarrow> prefix w s"
  shows "strip_all ws (map f s) = map f (strip_all ws s)"
  using assms
proof (induction ws s rule: strip_all.induct)
  case (1 ws s)
  have first: "strip_first vs (map f s) = map_option (map f) (strip_first vs s)"
    if "set vs \<subseteq> set ws" for vs
    using that by (induction vs) (simp_all add: 1 drop_map)
  with 1 show ?case
    by (cases "strip_first ws s") (simp_all add: strip_all.simps [of ws s] strip_all.simps [of ws "map f s"])
qed

section \<open>Case\<close>

definition ascii_lower :: "char \<Rightarrow> char" where
  "ascii_lower c = (if CHR ''A'' \<le> c \<and> c \<le> CHR ''Z'' then char_of (of_char c + (32::nat)) else c)"

definition to_ascii_lowercase :: "string \<Rightarrow> string" where
  "to_ascii_lowercase s = map ascii_lower s"

definition eq_ignore_ascii_case :: "string \<Rightarrow> string \<Rightarrow> bool" where
  "eq_ignore_ascii_case s t \<longleftrightarrow> to_ascii_lowercase s = to_ascii_lowercase t"

lemma length_to_ascii_lowercase [simp]: "length (to_ascii_lowercase s) = length s"
  by (simp add: to_ascii_lowercase_def)

section \<open>Searching and splitting\<close>

definition starts_with :: "string \<Rightarrow> string \<Rightarrow> bool" where
  "starts_with s p \<longleftrightarrow> prefix p s"

definition ends_with :: "string \<Rightarrow> string \<Rightarrow> bool" where
  "ends_with s p \<longleftrightarrow> suffix p s"

fun str_contains :: "string \<Rightarrow> string \<Rightarrow> bool" where
  "str_contains [] p = (p = [])"
| "str_contains (c # s) p = (prefix p (c # s) \<or> str_contains s p)"

definition strip_prefix_of :: "string \<Rightarrow> string \<Rightarrow> string option" where
  "strip_prefix_of s p = (if prefix p s then Some (drop (length p) s) else None)"

definition strip_suffix_of :: "string \<Rightarrow> string \<Rightarrow> string option" where
  "strip_suffix_of s p = (if suffix p s then Some (take (length s - length p) s) else None)"

text \<open>\<open>split\<close> with a set of ASCII characters: always at least one piece.\<close>

fun split_on :: "(char \<Rightarrow> bool) \<Rightarrow> string \<Rightarrow> string list" where
  "split_on p [] = [[]]"
| "split_on p (c # s) =
     (if p c then [] # split_on p s
      else case split_on p s of [] \<Rightarrow> [[c]] | x # xs \<Rightarrow> (c # x) # xs)"

fun join_with :: "string \<Rightarrow> string list \<Rightarrow> string" where
  "join_with sep [] = []"
| "join_with sep [x] = x"
| "join_with sep (x # y # xs) = x @ sep @ join_with sep (y # xs)"

text \<open>\<open>split_once\<close> at the first occurrence of a character.\<close>

fun split_once_char :: "char \<Rightarrow> string \<Rightarrow> (string \<times> string) option" where
  "split_once_char c [] = None"
| "split_once_char c (x # s) =
     (if x = c then Some ([], s)
      else map_option (\<lambda>(a, b). (x # a, b)) (split_once_char c s))"

lemma split_on_nonempty [simp]: "split_on p s \<noteq> []"
  by (induction s) (auto split: list.splits)

lemma split_on_pieces: "x \<in> set (split_on p s) \<Longrightarrow> c \<in> set x \<Longrightarrow> \<not> p c"
  by (induction s arbitrary: x) (fastforce split: list.splits if_splits)+

lemma split_on_id: "(\<forall>c\<in>set s. \<not> p c) \<Longrightarrow> split_on p s = [s]"
  by (induction s) auto

lemma split_on_append_sep:
  "(\<forall>c\<in>set x. \<not> p c) \<Longrightarrow> p d \<Longrightarrow> split_on p (x @ d # s) = x # split_on p s"
  by (induction x) auto

lemma split_on_join:
  assumes "xs \<noteq> []" and "p d" and "\<forall>x\<in>set xs. \<forall>c\<in>set x. \<not> p c"
  shows "split_on p (join_with [d] xs) = xs"
  using assms
  by (induction "[d]" xs rule: join_with.induct) (auto simp: split_on_id split_on_append_sep)

lemma join_split_char: "join_with [d] (split_on (\<lambda>c. c = d) s) = s"
proof (induction s)
  case Nil
  then show ?case by simp
next
  case (Cons c s)
  obtain x xs where sp: "split_on (\<lambda>c. c = d) s = x # xs"
    using split_on_nonempty [of "\<lambda>c. c = d" s] by (cases "split_on (\<lambda>c. c = d) s") auto
  with Cons show ?case by (cases xs) auto
qed

lemma split_once_char_SomeD:
  "split_once_char c s = Some (a, b) \<Longrightarrow> s = a @ c # b \<and> c \<notin> set a"
  by (induction s arbitrary: a) (auto split: if_splits)

lemma split_once_char_append: "c \<notin> set a \<Longrightarrow> split_once_char c (a @ c # b) = Some (a, b)"
  by (induction a) auto

lemma split_once_char_None [simp]: "split_once_char c s = None \<longleftrightarrow> c \<notin> set s"
  by (induction s) auto

section \<open>Decimal numbers\<close>

definition is_digit :: "char \<Rightarrow> bool" where
  "is_digit c \<longleftrightarrow> CHR ''0'' \<le> c \<and> c \<le> CHR ''9''"

definition digit_val :: "char \<Rightarrow> nat" where
  "digit_val c = of_char c - 48"

definition digit_char :: "nat \<Rightarrow> char" where
  "digit_char n = char_of (48 + n)"

fun show_nat :: "nat \<Rightarrow> string" where
  "show_nat n = (if n < 10 then [digit_char n] else show_nat (n div 10) @ [digit_char (n mod 10)])"

declare show_nat.simps [simp del]

definition digits_val :: "string \<Rightarrow> nat" where
  "digits_val s = foldl (\<lambda>a c. 10 * a + digit_val c) 0 s"

text \<open>\<open>parse::<uN>()\<close>: an optional \<open>+\<close>, then at least one digit, within the bound.\<close>

definition parse_uint :: "nat \<Rightarrow> string \<Rightarrow> nat option" where
  "parse_uint bound s =
     (let t = (case s of [] \<Rightarrow> [] | c # r \<Rightarrow> if c = CHR ''+'' then r else s)
      in if t \<noteq> [] \<and> list_all is_digit t \<and> digits_val t < bound then Some (digits_val t) else None)"

lemma digit_char_props:
  assumes "n < 10"
  shows "is_digit (digit_char n)" "digit_val (digit_char n) = n" "digit_char n \<noteq> CHR ''+''"
proof -
  have "list_all (\<lambda>n. is_digit (digit_char n) \<and> digit_val (digit_char n) = n
      \<and> digit_char n \<noteq> CHR ''+'') [0..<10]"
    by code_simp
  with assms show "is_digit (digit_char n)" "digit_val (digit_char n) = n" "digit_char n \<noteq> CHR ''+''"
    by (auto simp: list_all_iff)
qed

lemma show_nat_props:
  "show_nat n \<noteq> [] \<and> list_all is_digit (show_nat n) \<and> digits_val (show_nat n) = n
   \<and> hd (show_nat n) \<noteq> CHR ''+''"
proof (induction n rule: show_nat.induct)
  case (1 n)
  show ?case
  proof (cases "n < 10")
    case True
    then show ?thesis
      by (simp add: show_nat.simps [of n] digits_val_def digit_char_props)
  next
    case False
    with 1 show ?thesis
      by (simp add: show_nat.simps [of n] digits_val_def digit_char_props)
  qed
qed

lemma parse_show_nat: "n < bound \<Longrightarrow> parse_uint bound (show_nat n) = Some n"
  using show_nat_props [of n] by (cases "show_nat n") (auto simp: parse_uint_def)

lemma show_nat_inj [simp]: "show_nat m = show_nat n \<longleftrightarrow> m = n"
  by (metis show_nat_props)

text \<open>\<open>{:06}\<close>\<close>

definition show6 :: "nat \<Rightarrow> string" where
  "show6 n = (let s = show_nat n in replicate (6 - length s) (CHR ''0'') @ s)"

lemma show_nat_length: "n < 10 ^ k \<Longrightarrow> 0 < k \<Longrightarrow> length (show_nat n) \<le> k"
proof (induction k arbitrary: n)
  case (Suc k)
  show ?case
  proof (cases "n < 10")
    case False
    then have "0 < k" using Suc.prems(1) by (cases k) auto
    moreover have "n div 10 < 10 ^ k" using Suc.prems(1) by (simp add: less_mult_imp_div_less mult.commute)
    ultimately show ?thesis using Suc.IH [of "n div 10"] False by (simp add: show_nat.simps [of n])
  qed (simp add: show_nat.simps [of n])
qed simp

lemma show_nat_digits: "list_all is_digit (show_nat n)"
  using show_nat_props [of n] by simp

lemma show6_digits: "n < 1000000 \<Longrightarrow> length (show6 n) = 6 \<and> list_all is_digit (show6 n)"
proof -
  assume "n < 1000000"
  then have "length (show_nat n) \<le> 6" using show_nat_length [of n 6] by simp
  moreover have "is_digit (CHR ''0'')" by code_simp
  ultimately show ?thesis
    using show_nat_digits [of n] by (auto simp: show6_def Let_def list_all_iff)
qed

section \<open>Bytes and hexadecimal digits\<close>

definition str_bytes :: "string \<Rightarrow> bytes" where
  "str_bytes s = map (\<lambda>c. of_nat (of_char c)) s"

lemma str_bytes_inj [simp]: "str_bytes s = str_bytes t \<longleftrightarrow> s = t"
proof -
  have "inj (\<lambda>c :: char. of_nat (of_char c) :: byte)"
  proof (rule injI)
    fix c d :: char
    assume eq: "(of_nat (of_char c) :: byte) = of_nat (of_char d)"
    have "unat (of_nat (of_char c) :: byte) = of_char c" for c :: char
      by (simp add: unat_of_nat nat_of_char_less_256 [unfolded of_char_def])
    with eq have "(of_char c :: nat) = of_char d" by metis
    then show "c = d" by (simp only: of_char_eq_iff)
  qed
  then show ?thesis by (auto simp: str_bytes_def inj_map_eq_map)
qed

definition hex_digit :: "nat \<Rightarrow> char" where
  "hex_digit n = (if n < 10 then char_of (48 + n) else char_of (87 + n))"

definition hex_byte :: "byte \<Rightarrow> string" where
  "hex_byte b = [hex_digit (unat b div 16), hex_digit (unat b mod 16)]"

definition hex_lower :: "bytes \<Rightarrow> string" where
  "hex_lower bs = concat (map hex_byte bs)"

lemma hex_digit_inj: "m < 16 \<Longrightarrow> n < 16 \<Longrightarrow> hex_digit m = hex_digit n \<Longrightarrow> m = n"
proof -
  assume lt: "m < 16" "n < 16" and eq: "hex_digit m = hex_digit n"
  have code: "of_char (hex_digit k) = (if k < 10 then 48 + k else 87 + k)" if "k < 16" for k :: nat
    using that by (simp add: hex_digit_def)
  have "(if m < 10 then 48 + m else 87 + m) = (if n < 10 then 48 + n else 87 + n)"
    using eq code [OF lt(1)] code [OF lt(2)] by simp
  with lt show "m = n" by (simp split: if_splits)
qed

lemma hex_byte_inj: "hex_byte a = hex_byte b \<Longrightarrow> a = b"
proof -
  assume eq: "hex_byte a = hex_byte b"
  have lt: "unat x div 16 < 16" for x :: byte
    using unsigned_less [of x] by (simp add: div_less_iff_less_mult)
  have "unat a div 16 = unat b div 16" "unat a mod 16 = unat b mod 16"
    using eq hex_digit_inj [OF lt lt] hex_digit_inj [of "unat a mod 16" "unat b mod 16"] by (simp_all add: hex_byte_def)
  then have "unat a = unat b" by (metis div_mult_mod_eq)
  then show "a = b" by (simp add: word_unat_eq_iff)
qed

lemma hex_lower_inj: "hex_lower xs = hex_lower ys \<Longrightarrow> xs = ys"
proof (induction xs arbitrary: ys)
  case Nil
  then show ?case by (cases ys) (simp_all add: hex_lower_def hex_byte_def)
next
  case (Cons x xs)
  then obtain y ys' where ys: "ys = y # ys'" by (cases ys) (auto simp: hex_lower_def hex_byte_def)
  with Cons.prems have "hex_byte x = hex_byte y" "hex_lower xs = hex_lower ys'"
    by (simp_all add: hex_lower_def hex_byte_def)
  with Cons.IH hex_byte_inj ys show ?case by blast
qed

section \<open>Characters of a string\<close>

definition utf8_len :: "char \<Rightarrow> nat" where
  "utf8_len c =
     (let b = (of_char c :: nat)
      in if b \<le> 0x7F then 1 else if 0xC0 \<le> b \<and> b \<le> 0xDF then 2 else if 0xE0 \<le> b \<and> b \<le> 0xEF then 3 else 4)"

lemma utf8_len_pos [simp]: "0 < utf8_len c"
  by (simp add: utf8_len_def Let_def)

function chars_of :: "string \<Rightarrow> string list" where
  "chars_of [] = []"
| "chars_of (c # s) = (c # take (utf8_len c - 1) s) # chars_of (drop (utf8_len c - 1) s)"
  by pat_completeness auto
termination chars_of by (relation "measure length") auto

text \<open>One character, encoded in as many bytes as its first byte announces.\<close>

fun one_char :: "string \<Rightarrow> bool" where
  "one_char [] = False"
| "one_char (c # s) = (length s = utf8_len c - 1)"

definition whole_chars :: "string \<Rightarrow> bool" where
  "whole_chars s \<longleftrightarrow> list_all one_char (chars_of s)"

lemma chars_of_one: "one_char c \<Longrightarrow> chars_of (c @ s) = c # chars_of s"
  by (cases c) auto

lemma chars_of_concat: "list_all one_char cs \<Longrightarrow> chars_of (concat cs) = cs"
  by (induction cs) (auto simp: chars_of_one)

lemma concat_chars_of [simp]: "concat (chars_of s) = s"
  by (induction s rule: chars_of.induct) auto

lemma one_char_prefix: "one_char c \<Longrightarrow> one_char b \<Longrightarrow> prefix c b \<longleftrightarrow> c = b"
  by (cases c; cases b) (auto simp: prefix_def)

lemma whole_chars_append: "one_char c \<Longrightarrow> whole_chars (c @ s) \<longleftrightarrow> whole_chars s"
  by (simp add: whole_chars_def chars_of_one)

end
