(* ===== verification/Sync_Engine.thy ===== *)
theory Sync_Engine
  imports Sync_Oplog Str
begin

text \<open>
  Conflict resolution, crates/sync-core/src/engine.rs: last writer wins by
  timestamp, ties broken by the device id, and the deterministic id of a
  recorded conflict.  The data set a change is written to is an applier
  (\<open>trait ChangeApplier\<close>): three functions on a state of any type.  A failing
  applier may still have changed that state, so it is returned in both cases.
  SHA-256 and the generator of operation ids are parameters.
\<close>

datatype sync_error =
    SyncDb string
  | SyncNet string
  | SyncProto string
  | SyncPeer string
  | SyncApply string
  | SyncEntity string
  | SyncConfig string
  | SyncNotReady string

fun sync_error_code :: "sync_error \<Rightarrow> string" where
  "sync_error_code (SyncDb _) = ''SYNC_DB_001''"
| "sync_error_code (SyncNet _) = ''SYNC_NET_001''"
| "sync_error_code (SyncProto _) = ''SYNC_PROTO_001''"
| "sync_error_code (SyncPeer _) = ''SYNC_PEER_001''"
| "sync_error_code (SyncApply _) = ''SYNC_APPLY_001''"
| "sync_error_code (SyncEntity _) = ''SYNC_ENTITY_001''"
| "sync_error_code (SyncConfig _) = ''SYNC_CONFIG_001''"
| "sync_error_code (SyncNotReady _) = ''SYNC_STATE_001''"

record 'd applier =
  ap_snapshot :: "'d \<Rightarrow> string \<Rightarrow> string \<Rightarrow> sync_error + json option"
  ap_upsert :: "'d \<Rightarrow> string \<Rightarrow> string \<Rightarrow> json \<Rightarrow> (sync_error + unit) \<times> 'd"
  ap_delete :: "'d \<Rightarrow> string \<Rightarrow> string \<Rightarrow> (sync_error + unit) \<times> 'd"

datatype apply_outcome = Applied | LostLww | Noop

record push_batch =
  pb_ops :: "op_entry list"
  pb_more :: bool

definition plan_push :: "op_entry list \<Rightarrow> nat \<Rightarrow> push_batch" where
  "plan_push raw limit = \<lparr>pb_ops = raw, pb_more = (0 < limit \<and> length raw = limit)\<rparr>"

section \<open>Recorded conflicts\<close>

text \<open>The bytes that are hashed, in the order of the \<open>update\<close> calls.\<close>

definition conflict_preimage :: "string \<Rightarrow> string \<Rightarrow> int \<Rightarrow> string \<Rightarrow> bytes" where
  "conflict_preimage entity entity_id lost_ts lost_device =
     str_bytes entity @ [0] @ str_bytes entity_id @ [0] @ le_bytes 8 (word_of_int lost_ts) @ [0]
     @ str_bytes lost_device"

definition conflict_id :: "(bytes \<Rightarrow> bytes) \<Rightarrow> string \<Rightarrow> string \<Rightarrow> int \<Rightarrow> string \<Rightarrow> string" where
  "conflict_id sha256 entity entity_id lost_ts lost_device =
     concat (map hex_byte (take 16 (sha256 (conflict_preimage entity entity_id lost_ts lost_device))))"

definition conflict_of ::
    "(bytes \<Rightarrow> bytes) \<Rightarrow> op_entry \<Rightarrow> op_entry option \<Rightarrow> int \<Rightarrow> conflict_entry" where
  "conflict_of sha256 lost winner recorded_ms =
     \<lparr>ce_id = conflict_id sha256 (op_entity lost) (op_entity_id lost) (op_ts lost) (op_device lost),
      ce_entity = op_entity lost, ce_entity_id = op_entity_id lost,
      ce_lost_ts = op_ts lost, ce_lost_device = op_device lost,
      ce_winner_device = unwrap_or [] (map_option op_device winner),
      ce_winner_ts = unwrap_or 0 (map_option op_ts winner),
      ce_lost_value = op_value lost, ce_recorded_ms = recorded_ms\<rparr>"

section \<open>Local and remote changes\<close>

definition record_local ::
    "op_log \<Rightarrow> string \<Rightarrow> string \<Rightarrow> string \<Rightarrow> json \<Rightarrow> string \<Rightarrow> int \<Rightarrow> op_entry \<times> op_log" where
  "record_local log new_id entity entity_id value device now_ms =
     (let e = \<lparr>op_id = new_id, op_entity = entity, op_entity_id = entity_id, op_ts = now_ms,
               op_device = device, op_value = value\<rparr>
      in (e, append_op log e))"

definition apply_remote ::
    "'d applier \<Rightarrow> op_log \<Rightarrow> 'd \<Rightarrow> op_entry \<Rightarrow> (sync_error + apply_outcome) \<times> op_log \<times> 'd" where
  "apply_remote ap log d incoming =
     (let win =
        (case (if op_is_delete incoming
               then ap_delete ap d (op_entity incoming) (op_entity_id incoming)
               else ap_upsert ap d (op_entity incoming) (op_entity_id incoming) (op_value incoming)) of
           (Inl e, d') \<Rightarrow> (Inl (SyncApply (sync_error_code e)), log, d')
         | (Inr _, d') \<Rightarrow> (Inr Applied, append_op log incoming, d'))
      in case latest_for log (op_entity incoming) (op_entity_id incoming) of
           None \<Rightarrow> win
         | Some local \<Rightarrow>
             if op_id local = op_id incoming then (Inr Noop, log, d)
             else if op_ts incoming < op_ts local then (Inr LostLww, log, d)
             else if op_ts local = op_ts incoming \<and> op_device incoming \<le> op_device local
               then (Inr LostLww, log, d)
             else win)"

lemma apply_remote_eq:
  "apply_remote ap log d e =
     (case latest_of_key log (op_key e) of
        Some m \<Rightarrow>
          if op_id m = op_id e then (Inr Noop, log, d)
          else if \<not> op_newer e m then (Inr LostLww, log, d)
          else (case (if op_is_delete e then ap_delete ap d (op_entity e) (op_entity_id e)
                      else ap_upsert ap d (op_entity e) (op_entity_id e) (op_value e)) of
                  (Inl x, d') \<Rightarrow> (Inl (SyncApply (sync_error_code x)), log, d')
                | (Inr _, d') \<Rightarrow> (Inr Applied, append_op log e, d'))
      | None \<Rightarrow>
          (case (if op_is_delete e then ap_delete ap d (op_entity e) (op_entity_id e)
                 else ap_upsert ap d (op_entity e) (op_entity_id e) (op_value e)) of
             (Inl x, d') \<Rightarrow> (Inl (SyncApply (sync_error_code x)), log, d')
           | (Inr _, d') \<Rightarrow> (Inr Applied, append_op log e, d')))"
  unfolding apply_remote_def latest_of_key_def op_key_def Let_def
  by (auto simp: op_newer_def not_less split: option.splits)

text \<open>A run of remote changes; \<open>None\<close> when one of them failed to apply.\<close>

fun apply_all :: "'d applier \<Rightarrow> op_log \<times> 'd \<Rightarrow> op_entry list \<Rightarrow> (op_log \<times> 'd) option" where
  "apply_all ap s [] = Some s"
| "apply_all ap (log, d) (e # es) =
     (case apply_remote ap log d e of (Inl _, _) \<Rightarrow> None | (Inr _, s) \<Rightarrow> apply_all ap s es)"

section \<open>Replicas agree on the newest change\<close>

text \<open>
  A set of changes is consistent when an id names one change and no two changes
  of one entity carry the same timestamp and device.
\<close>

definition consistent_ops :: "op_entry set \<Rightarrow> bool" where
  "consistent_ops S \<longleftrightarrow> (\<forall>a\<in>S. \<forall>b\<in>S.
     (op_id a = op_id b \<longrightarrow> a = b) \<and>
     (op_key a = op_key b \<and> op_ts a = op_ts b \<and> op_device a = op_device b \<longrightarrow> a = b))"

lemma consistent_ops_subset: "consistent_ops S \<Longrightarrow> T \<subseteq> S \<Longrightarrow> consistent_ops T"
  by (auto simp: consistent_ops_def)

lemma consistent_idD: "consistent_ops S \<Longrightarrow> a \<in> S \<Longrightarrow> b \<in> S \<Longrightarrow> op_id a = op_id b \<Longrightarrow> a = b"
  by (auto simp: consistent_ops_def)

lemma consistent_tieD:
  "consistent_ops S \<Longrightarrow> a \<in> S \<Longrightarrow> b \<in> S \<Longrightarrow> op_key a = op_key b \<Longrightarrow>
   \<not> op_newer a b \<Longrightarrow> \<not> op_newer b a \<Longrightarrow> a = b"
  using op_newer_total [of a b] by (auto simp: consistent_ops_def)

context lww_log
begin

text \<open>\<open>tracks l S\<close>: the log knows exactly the newest change of every entity in \<open>S\<close>.\<close>

definition tracks :: "'l \<Rightarrow> op_entry set \<Rightarrow> bool" where
  "tracks l S \<longleftrightarrow> entries l \<subseteq> S \<and>
     (\<forall>e\<in>S. \<exists>m. latest l (op_key e) = Some m \<and> \<not> op_newer e m)"

lemma tracks_latest:
  "tracks l S \<Longrightarrow> latest l k = Some m \<Longrightarrow>
     m \<in> S \<and> op_key m = k \<and> (\<forall>e\<in>S. op_key e = k \<longrightarrow> \<not> op_newer e m)"
  using latest_Some [of l k m] by (fastforce simp: tracks_def)

lemma tracks_None: "tracks l S \<Longrightarrow> latest l k = None \<Longrightarrow> e \<in> S \<Longrightarrow> op_key e \<noteq> k"
  by (force simp: tracks_def)

lemma tracks_unique:
  assumes "consistent_ops S" and "tracks l S" and "tracks l' S"
  shows "latest l k = latest l' k"
proof (cases "latest l k")
  case None
  with assms show ?thesis
    using tracks_None [of l S k] tracks_latest [of l' S k] by (cases "latest l' k") auto
next
  case (Some m)
  note m = tracks_latest [OF assms(2) Some]
  show ?thesis
  proof (cases "latest l' k")
    case None
    with m show ?thesis using tracks_None [OF assms(3) None] by auto
  next
    case (Some m')
    note m' = tracks_latest [OF assms(3) Some]
    have "m = m'" using consistent_tieD [OF assms(1), of m m'] m m' by auto
    with Some \<open>latest l k = Some m\<close> show ?thesis by simp
  qed
qed

lemma tracks_keep:
  "tracks l S \<Longrightarrow> latest l (op_key e) = Some m \<Longrightarrow> \<not> op_newer e m \<Longrightarrow> tracks l (insert e S)"
  by (auto simp: tracks_def)

lemma tracks_append:
  assumes "consistent_ops (insert e S)" and "tracks l S"
    and newest: "\<And>m. latest l (op_key e) = Some m \<Longrightarrow> op_newer e m"
  shows "tracks (append l e) (insert e S) \<and> latest (append l e) (op_key e) = Some e"
proof -
  have new: "op_id e \<notin> op_id ` entries l"
  proof
    assume "op_id e \<in> op_id ` entries l"
    then obtain a where a: "a \<in> entries l" "op_id a = op_id e" by auto
    then have "a = e"
      using assms(1,2) consistent_idD [OF assms(1), of a e] by (auto simp: tracks_def)
    with a have "e \<in> entries l" by simp
    then show False
      using newest latest_unbeaten [of l "op_key e" _ e] latest_None [of l "op_key e"]
      by (cases "latest l (op_key e)") auto
  qed
  have at: "latest (append l e) k = (if op_key e \<noteq> k then latest l k else Some e)" for k
    using latest_append [OF new, of k] newest by (auto split: option.splits)
  have beats: "\<not> op_newer a e" if "a \<in> S" "op_key a = op_key e" for a
  proof -
    from tracks_None [OF assms(2), of "op_key e" a] that
    obtain m where m: "latest l (op_key e) = Some m" by (cases "latest l (op_key e)") simp_all
    have "\<not> op_newer a m" using tracks_latest [OF assms(2) m] that by blast
    with newest [OF m] show ?thesis by (blast dest: op_newer_trans)
  qed
  have "tracks (append l e) (insert e S)"
    unfolding tracks_def entries_append [OF new]
  proof (intro conjI ballI)
    show "insert e (entries l) \<subseteq> insert e S" using assms(2) by (auto simp: tracks_def)
    fix a assume a: "a \<in> insert e S"
    show "\<exists>m. latest (append l e) (op_key a) = Some m \<and> \<not> op_newer a m"
    proof (cases "op_key a = op_key e")
      case True
      with a beats [of a] show ?thesis by (auto simp: at)
    next
      case False
      with a have "a \<in> S" by auto
      with assms(2) have "\<exists>m. latest l (op_key a) = Some m \<and> \<not> op_newer a m"
        unfolding tracks_def by blast
      with False show ?thesis by (simp add: at)
    qed
  qed
  then show ?thesis by (simp add: at)
qed

end


section \<open>The data set follows the log\<close>

text \<open>
  What the engine relies on when it writes a change through: a successful upsert
  or delete changes the entry of that key and nothing else.  \<open>view\<close> reads the
  data set, \<open>proj\<close> is the part of a snapshot it keeps, \<open>good\<close> are the keys it
  serves and \<open>sane\<close> is the condition of the environment under which it is reliable.
\<close>

locale dataset_applier =
  fixes ap :: "'d applier"
    and view :: "'d \<Rightarrow> string \<times> string \<Rightarrow> 'v option"
    and proj :: "json \<Rightarrow> 'v"
    and good :: "string \<times> string \<Rightarrow> bool"
    and sane :: "'d \<Rightarrow> bool"
  assumes upsert_view: "sane d \<Longrightarrow> good (e, i) \<Longrightarrow> ap_upsert ap d e i v = (Inr (), d') \<Longrightarrow>
      view d' = (view d)((e, i) \<mapsto> proj v) \<and> sane d'"
    and delete_view: "sane d \<Longrightarrow> good (e, i) \<Longrightarrow> ap_delete ap d e i = (Inr (), d') \<Longrightarrow>
      view d' = (view d)((e, i) := None) \<and> sane d'"
begin

definition content :: "op_entry \<Rightarrow> 'v option" where
  "content m = (if op_is_delete m then None else Some (proj (op_value m)))"

definition agrees :: "(string \<times> string \<Rightarrow> 'v option) \<Rightarrow> op_log \<Rightarrow> 'd \<Rightarrow> bool" where
  "agrees base log d \<longleftrightarrow>
     (\<forall>k. view d k = (case latest_of_key log k of None \<Rightarrow> base k | Some m \<Rightarrow> content m))"

lemma write_through:
  assumes "(if op_is_delete e then ap_delete ap d (op_entity e) (op_entity_id e)
            else ap_upsert ap d (op_entity e) (op_entity_id e) (op_value e)) = (Inr u, d')"
    and "sane d" and "good (op_key e)"
  shows "view d' = (view d)(op_key e := content e) \<and> sane d'"
  using assms upsert_view [of d "op_entity e" "op_entity_id e" "op_value e" d']
    delete_view [of d "op_entity e" "op_entity_id e" d']
  by (auto simp: op_key_def content_def split: if_splits)

lemma apply_remote_step:
  assumes "apply_remote ap log d e = (Inr r, log', d')"
    and "oplog.tracks log S" and "consistent_ops (insert e S)"
    and "agrees base log d" and "sane d" and "good (op_key e)"
  shows "oplog.tracks log' (insert e S) \<and> agrees base log' d' \<and> sane d'"
proof -
  note wins = oplog.tracks_append [OF assms(3,2)]
  have applied: "oplog.tracks log' (insert e S) \<and> agrees base log' d' \<and> sane d'"
    if newest: "\<And>m. latest_of_key log (op_key e) = Some m \<Longrightarrow> op_newer e m"
      and w: "(if op_is_delete e then ap_delete ap d (op_entity e) (op_entity_id e)
            else ap_upsert ap d (op_entity e) (op_entity_id e) (op_value e)) = (Inr u, d')"
      and l: "log' = append_op log e" for u
  proof -
    note v = write_through [OF w assms(5,6)]
    have known: "latest_of_key log' k = (if k = op_key e then Some e else latest_of_key log k)" for k
    proof (cases "op_id e \<in> op_id ` set (ol_rows log)")
      case True
      then have "log' = log" by (simp add: l append_op_def)
      with wins [OF newest] l show ?thesis by simp
    next
      case False
      with wins [OF newest] l show ?thesis
        using oplog.latest_append [OF False, of k] by auto
    qed
    show ?thesis
      using wins [OF newest] v assms(4) by (auto simp: l [symmetric] agrees_def known)
  qed
  show ?thesis
  proof (cases "latest_of_key log (op_key e)")
    case None
    with assms(1) applied show ?thesis
      by (auto simp: apply_remote_eq split: prod.splits sum.splits)
  next
    case (Some m)
    consider "op_id m = op_id e" | "op_id m \<noteq> op_id e" "\<not> op_newer e m"
      | "op_id m \<noteq> op_id e" "op_newer e m"
      by blast
    then show ?thesis
    proof cases
      case 1
      then have "e = m"
        using assms(2,3) oplog.tracks_latest [OF assms(2) Some] by (auto simp: consistent_ops_def)
      with 1 assms Some show ?thesis
        using oplog.tracks_keep [OF assms(2) Some] by (auto simp: apply_remote_eq)
    next
      case 2
      with assms Some show ?thesis
        using oplog.tracks_keep [OF assms(2) Some] by (auto simp: apply_remote_eq)
    next
      case 3
      with assms(1) Some applied show ?thesis
        by (auto simp: apply_remote_eq split: prod.splits sum.splits if_splits)
    qed
  qed
qed

lemma apply_all_run:
  assumes "apply_all ap (log, d) es = Some (log', d')"
    and "oplog.tracks log S" and "consistent_ops (S \<union> set es)"
    and "agrees base log d" and "sane d" and "\<forall>e\<in>set es. good (op_key e)"
  shows "oplog.tracks log' (S \<union> set es) \<and> agrees base log' d' \<and> sane d'"
  using assms
proof (induction es arbitrary: log d S)
  case Nil
  then show ?case by simp
next
  case (Cons e es)
  from Cons.prems(1) obtain r log1 d1 where r: "apply_remote ap log d e = (Inr r, log1, d1)"
    and rest: "apply_all ap (log1, d1) es = Some (log', d')"
    by (auto split: prod.splits sum.splits)
  have c: "consistent_ops (insert e S)"
    using Cons.prems(3) by (rule consistent_ops_subset) auto
  have "oplog.tracks log1 (insert e S) \<and> agrees base log1 d1 \<and> sane d1"
    using apply_remote_step [OF r Cons.prems(2) c Cons.prems(4,5)] Cons.prems(6) by simp
  then have "oplog.tracks log' (insert e S \<union> set es) \<and> agrees base log' d' \<and> sane d'"
    using Cons.IH [OF rest, of "insert e S"] Cons.prems(3,6) by simp
  then show ?case by simp
qed

lemma replicas_agree:
  assumes "apply_all ap (log, d) es = Some (log1, d1)"
    and "apply_all ap (log, d) fs = Some (log2, d2)"
    and "set es = set fs" and "oplog.tracks log S" and "consistent_ops (S \<union> set es)"
    and "agrees base log d" and "sane d" and "\<forall>e\<in>set es. good (op_key e)"
  shows "view d1 = view d2"
proof -
  have 1: "oplog.tracks log1 (S \<union> set es)" "agrees base log1 d1"
    using apply_all_run [OF assms(1,4,5,6,7,8)] by auto
  have 2: "oplog.tracks log2 (S \<union> set es)" "agrees base log2 d2"
    using apply_all_run [OF assms(2,4), unfolded assms(3) [symmetric]] assms(5-8) by auto
  show ?thesis
    using 1(2) 2(2) oplog.tracks_unique [OF assms(5) 1(1) 2(1)]
    by (auto simp: agrees_def)
qed

end

lemma tracks_empty [simp]: "oplog.tracks op_log_empty {}"
  by (simp add: oplog.tracks_def op_log_empty_def)

lemma latest_empty [simp]: "latest_of_key op_log_empty k = None"
  by (simp add: latest_of_key_eq op_log_empty_def)

section \<open>The preimage of a conflict id\<close>

lemma split_at_zero:
  assumes "0 \<notin> set xs" and "0 \<notin> set ys" and "xs @ [0] @ u = ys @ [0] @ (v :: bytes)"
  shows "xs = ys \<and> u = v"
proof -
  have "takeWhile (\<lambda>b. b \<noteq> 0) (xs @ [0] @ u) = xs" "takeWhile (\<lambda>b. b \<noteq> 0) (ys @ [0] @ v) = ys"
    using assms(1,2) by (simp_all add: takeWhile_append)
  with assms(3) have "xs = ys" by simp
  with assms(3) show ?thesis by simp
qed

lemma le_bytes_inj: "le_bytes 8 v = le_bytes 8 w \<Longrightarrow> v = w"
  by (metis le_u64_roundtrip)

lemma word_of_int_inj64:
  assumes "- (2 ^ 63) \<le> i" "i < 2 ^ 63" "- (2 ^ 63) \<le> j" "j < 2 ^ 63"
    and "(word_of_int i :: 64 word) = word_of_int j"
  shows "i = j"
proof -
  have "(i - j) mod 2 ^ 64 = 0"
    using assms(5) by (simp add: word_of_int_eq_iff take_bit_eq_mod mod_eq_dvd_iff)
  then obtain k where k: "i - j = 2 ^ 64 * k" by (auto simp: mod_eq_0_iff_dvd dvd_def)
  then have "- 1 < k" "k < 1" using assms(1-4) by auto
  then show ?thesis using k by simp
qed

text \<open>Different lost changes have different conflict preimages: for names without the zero byte and
  64-bit timestamps, the bytes that are hashed into a conflict id determine the entity, its
  identifier, the timestamp and the device, so two different losers share a row of the conflict log
  only if the truncated hash collides.\<close>

lemma conflict_preimage_injective:
  assumes "0 \<notin> set (str_bytes entity)" and "0 \<notin> set (str_bytes entity_id)"
    and "0 \<notin> set (str_bytes entity')" and "0 \<notin> set (str_bytes entity_id')"
    and "- (2 ^ 63) \<le> ts" "ts < 2 ^ 63" "- (2 ^ 63) \<le> ts'" "ts' < 2 ^ 63"
    and "conflict_preimage entity entity_id ts device = conflict_preimage entity' entity_id' ts' device'"
  shows "entity = entity' \<and> entity_id = entity_id' \<and> ts = ts' \<and> device = device'"
proof -
  note pre = assms(9) [unfolded conflict_preimage_def]
  have 1: "str_bytes entity = str_bytes entity'"
    and r1: "str_bytes entity_id @ [0] @ le_bytes 8 (word_of_int ts) @ [0] @ str_bytes device
      = str_bytes entity_id' @ [0] @ le_bytes 8 (word_of_int ts') @ [0] @ str_bytes device'"
    using split_at_zero [OF assms(1,3) pre] by blast+
  have 2: "str_bytes entity_id = str_bytes entity_id'"
    and r2: "le_bytes 8 (word_of_int ts) @ [0] @ str_bytes device = le_bytes 8 (word_of_int ts') @ [0] @ str_bytes device'"
    using split_at_zero [OF assms(2,4) r1] by blast+
  have "le_bytes 8 (word_of_int ts) = le_bytes 8 (word_of_int ts')" "str_bytes device = str_bytes device'"
    using r2 by (simp_all add: append_eq_append_conv)
  then show ?thesis
    using 1 2 word_of_int_inj64 [OF assms(5-8)] le_bytes_inj by simp
qed

lemma conflict_preimage_injective_witness:
  "conflict_preimage ''note'' ''a.md'' 5 ''d'' \<noteq> conflict_preimage ''note'' ''a.md'' 6 ''d''"
proof
  assume eq: "conflict_preimage ''note'' ''a.md'' 5 ''d'' = conflict_preimage ''note'' ''a.md'' 6 ''d''"
  have "0 \<notin> set (str_bytes ''note'')" "0 \<notin> set (str_bytes ''a.md'')" by code_simp+
  from conflict_preimage_injective [OF this this _ _ _ _ eq] show False by simp
qed

end
