(* ===== verification/Notes_Review.thy ===== *)
theory Notes_Review
  imports Str Complex_Main
begin

text \<open>
  Spaced repetition, crates/notes-core/src/review.rs: the SM-2 grading step, the
  statistics of the review page and the card table.  Times are milliseconds and
  intervals are days, both \<open>i64\<close>; grading multiplies them, so it wraps there.  Ease factors are \<open>f64\<close>: the model computes
  them as rationals with a rounding function \<open>fl\<close> after every operation, which
  is how IEEE arithmetic is defined on finite values; nothing is assumed of \<open>fl\<close>
  beyond what a lemma names.
\<close>

section \<open>Cards\<close>

record card =
  card_id :: string
  card_note_path :: "string option"
  card_front :: string
  card_back :: string
  card_ef :: rat
  card_interval_days :: int
  card_reps :: int
  card_due_ms :: int

record review_stats =
  rs_total :: nat
  rs_due_today :: nat
  rs_by_bucket :: "nat list"
  rs_streak_days :: int

datatype note_error =
    NoteBadPath string
  | NoteNotFound string
  | NoteBadState string
  | NoteDriver string
  | NoteReview string

definition day_ms :: int where
  "day_ms = 86400000"

section \<open>Statistics\<close>

definition card_bucket :: "card \<Rightarrow> nat" where
  "card_bucket c =
     (if card_reps c = 0 then 0 else if card_interval_days c < 7 then 1
      else if card_interval_days c \<le> 30 then 2 else 3)"

text \<open>
  The \<open>while\<close> loop walks back one day at a time through a finite set of days;
  it stops because every step leaves fewer days at or before \<open>d\<close>.
\<close>

function streak_from :: "int list \<Rightarrow> int \<Rightarrow> int" where
  "streak_from days d = (if d \<in> set days then 1 + streak_from days (d - 1) else 0)"
  by pat_completeness auto
termination
proof (relation "measure (\<lambda>(days, d). length (filter (\<lambda>x. x \<le> d) days))", goal_cases)
  case 1
  show ?case by simp
next
  case (2 days d)
  have "length (filter (\<lambda>x. x \<le> d - 1) days) < length (filter (\<lambda>x. x \<le> d) days)"
    using 2
  proof (induction days)
    case Nil
    then show ?case by simp
  next
    case (Cons x xs)
    have "length (filter (\<lambda>x. x \<le> d - 1) xs) \<le> length (filter (\<lambda>x. x \<le> d) xs)"
      by (rule length_filter_mono) simp
    with Cons show ?case by auto
  qed
  then show ?case by simp
qed

declare streak_from.simps [simp del]

definition stats_from_cards :: "card list \<Rightarrow> int \<Rightarrow> review_stats" where
  "stats_from_cards cards now_ms =
     (let today = now_ms div day_ms;
          due_today = length (filter (\<lambda>c. card_due_ms c < (today + 1) * day_ms) cards);
          buckets = map (\<lambda>b. length (filter (\<lambda>c. card_bucket c = b) cards)) [0, 1, 2, 3];
          due_days = map (\<lambda>c. card_due_ms c div day_ms) cards;
          d = (if today \<in> set due_days then today else today - 1)
      in \<lparr>rs_total = length cards, rs_due_today = due_today, rs_by_bucket = buckets,
          rs_streak_days = streak_from due_days d\<rparr>)"

section \<open>Grading\<close>

text \<open>\<open>f64::round\<close>: half away from zero.\<close>

definition round_half_away :: "rat \<Rightarrow> int" where
  "round_half_away x = (if 0 \<le> x then \<lfloor>x + 1/2\<rfloor> else \<lceil>x - 1/2\<rceil>)"

definition grade :: "(rat \<Rightarrow> rat) \<Rightarrow> card \<Rightarrow> nat \<Rightarrow> int \<Rightarrow> note_error + card" where
  "grade fl c quality now_ms =
     (if 5 < quality then Inl (NoteReview ''quality'')
      else
        let q = of_nat quality :: rat;
            gap = fl (5 - q);
            ef0 = fl (card_ef c + fl (fl (1/10) - fl (gap * fl (fl (8/100) + fl (gap * fl (2/100))))));
            ef = (if ef0 < fl (13/10) then fl (13/10) else ef0);
            (reps, interval) =
              (if q < 3 then (0, 1)
               else let reps = wrap_i64 (card_reps c + 1);
                        interval = (if reps = 1 then 1 else if reps = 2 then 6
                          else max (sat_i64 (round_half_away (fl (fl (of_int (card_interval_days c)) * ef)))) 1)
                    in (reps, interval))
        in Inr (c\<lparr>card_ef := ef, card_reps := reps, card_interval_days := interval,
                  card_due_ms := wrap_i64 (now_ms + wrap_i64 (interval * day_ms))\<rparr>))"

section \<open>The card table\<close>

type_synonym card_store = "card list"

definition card_create ::
    "card_store \<Rightarrow> string \<Rightarrow> string \<Rightarrow> string \<Rightarrow> string option \<Rightarrow> int \<Rightarrow> note_error + (card \<times> card_store)" where
  "card_create cs new_id front back note_path now_ms =
     (let front = str_trim front in
      if front = [] then Inl (NoteReview ''front'')
      else let c = \<lparr>card_id = new_id, card_note_path = note_path, card_front = front,
                    card_back = str_trim back, card_ef = 5/2, card_interval_days = 0,
                    card_reps = 0, card_due_ms = now_ms\<rparr>
           in Inr (c, cs @ [c]))"

definition card_delete :: "card_store \<Rightarrow> string \<Rightarrow> bool \<times> card_store" where
  "card_delete cs cid =
     (let cs' = filter (\<lambda>c. card_id c \<noteq> cid) cs in (length cs' < length cs, cs'))"

definition card_list :: "card_store \<Rightarrow> card list" where
  "card_list cs = sort_key card_due_ms cs"

definition card_queue :: "card_store \<Rightarrow> int \<Rightarrow> card list" where
  "card_queue cs now_ms = sort_key card_due_ms (filter (\<lambda>c. card_due_ms c \<le> now_ms) cs)"

definition card_get :: "card_store \<Rightarrow> string \<Rightarrow> card option" where
  "card_get cs cid = find (\<lambda>c. card_id c = cid) cs"

definition card_save :: "card_store \<Rightarrow> card \<Rightarrow> card_store" where
  "card_save cs k =
     map (\<lambda>c. if card_id c = card_id k
              then c\<lparr>card_ef := card_ef k, card_interval_days := card_interval_days k,
                     card_reps := card_reps k, card_due_ms := card_due_ms k\<rparr>
              else c) cs"

definition card_detach_note :: "card_store \<Rightarrow> string \<Rightarrow> card_store" where
  "card_detach_note cs path =
     map (\<lambda>c. if card_note_path c = Some path then c\<lparr>card_note_path := None\<rparr> else c) cs"

text \<open>\<open>NoteLibrary::grade_card\<close> (library.rs): load, grade, write back.\<close>

definition grade_card ::
    "(rat \<Rightarrow> rat) \<Rightarrow> card_store \<Rightarrow> string \<Rightarrow> nat \<Rightarrow> int \<Rightarrow> note_error + (card \<times> card_store)" where
  "grade_card fl cs cid quality now_ms =
     res_bind (ok_or (NoteNotFound cid) (card_get cs cid)) (\<lambda>c.
     res_bind (grade fl c quality now_ms) (\<lambda>g. Inr (g, card_save cs g)))"


section \<open>Correctness\<close>

lemma streak_from_nonneg: "0 \<le> streak_from days d"
proof (induction days d rule: streak_from.induct)
  case (1 days d)
  then show ?case by (subst streak_from.simps) auto
qed

lemma streak_from_days: "0 \<le> k \<Longrightarrow> k < streak_from days d \<Longrightarrow> d - k \<in> set days"
proof (induction days d arbitrary: k rule: streak_from.induct)
  case (1 days d)
  show ?case
  proof (cases "d \<in> set days")
    case True
    with 1 have "k - 1 < streak_from days (d - 1)"
      by (subst (asm) streak_from.simps) simp
    with True 1 show ?thesis
      by (cases "k = 0") (auto dest: 1(1) [of "k - 1"] simp: algebra_simps)
  next
    case False
    with 1 show ?thesis by (subst (asm) streak_from.simps) simp
  qed
qed

lemma streak_from_stop: "d - streak_from days d \<notin> set days"
proof (induction days d rule: streak_from.induct)
  case (1 days d)
  then show ?case
    by (cases "d \<in> set days") (simp_all add: streak_from.simps [of days d] algebra_simps)
qed

lemma card_bucket_less: "card_bucket c < 4"
  by (simp add: card_bucket_def)

text \<open>The review statistics are consistent: every card falls into exactly one of the four
  buckets, and the streak is the longest run of consecutive days with due cards that ends today,
  or yesterday when today has none.\<close>

lemma stats_from_cards_correct:
  "let st = stats_from_cards cards now_ms;
       days = (\<lambda>c. card_due_ms c div day_ms) ` set cards;
       today = now_ms div day_ms;
       start = (if today \<in> days then today else today - 1)
   in sum_list (rs_by_bucket st) = rs_total st
    \<and> rs_due_today st \<le> rs_total st
    \<and> {k. 0 \<le> k \<and> k < rs_streak_days st} \<subseteq> {k. start - k \<in> days}
    \<and> start - rs_streak_days st \<notin> days"
proof -
  let ?ds = "map (\<lambda>c. card_due_ms c div day_ms) cards"
  let ?today = "now_ms div day_ms"
  let ?start = "if ?today \<in> set ?ds then ?today else ?today - 1"
  have buckets: "sum_list (map (\<lambda>b. length (filter (\<lambda>c. card_bucket c = b) cs)) [0, 1, 2, 3])
      = length cs" for cs
  proof (induction cs)
    case Nil
    then show ?case by simp
  next
    case (Cons c cs)
    then show ?case using card_bucket_less [of c] by auto
  qed
  show ?thesis
    using buckets [of cards] streak_from_days [of _ ?ds ?start] streak_from_stop [of ?start ?ds]
    unfolding stats_from_cards_def Let_def set_map by auto
qed

lemma grade_cases:
  assumes "grade fl c quality now_ms = Inr g"
  shows "quality \<le> 5" and "fl (13/10) \<le> card_ef g" and "1 \<le> card_interval_days g"
    and "card_due_ms g = wrap_i64 (now_ms + wrap_i64 (card_interval_days g * day_ms))"
    and "card_id g = card_id c" and "card_note_path g = card_note_path c"
    and "card_front g = card_front c" and "card_back g = card_back c"
    and "quality < 3 \<Longrightarrow> card_reps g = 0 \<and> card_interval_days g = 1"
    and "3 \<le> quality \<Longrightarrow> card_reps g = wrap_i64 (card_reps c + 1)"
  using assms
  by (auto simp: grade_def Let_def not_less of_nat_less_iff [where 'a = rat, of _ 3, simplified]
      split: if_splits)

lemma day_ms_pos: "0 < day_ms"
  by (simp add: day_ms_def)

text \<open>Grading a card with a quality of 0 to 5 keeps the scheduling invariant whatever the
  rounding of the floating-point operations does: the ease factor never falls below the rounded
  1.3, the interval is at least one day, a failed review restarts the card, and as long as the
  due date fits an i64 the card is due at least a day after the review.\<close>

lemma grade_schedules_ahead:
  assumes "grade fl c quality now_ms = Inr g"
    and "- (2 ^ 63) \<le> now_ms" and "now_ms + card_interval_days g * day_ms < 2 ^ 63"
    and "0 \<le> now_ms"
  shows "fl (13/10) \<le> card_ef g \<and> 1 \<le> card_interval_days g
    \<and> now_ms + day_ms \<le> card_due_ms g
    \<and> (quality < 3 \<longrightarrow> card_reps g = 0 \<and> card_due_ms g = now_ms + day_ms)"
proof -
  note g = grade_cases [OF assms(1)]
  have step: "day_ms \<le> card_interval_days g * day_ms" "0 \<le> card_interval_days g * day_ms"
    using g(3) day_ms_pos by (simp_all add: mult_le_cancel_right1)
  have "wrap_i64 (card_interval_days g * day_ms) = card_interval_days g * day_ms"
    using step assms by (intro wrap_i64_id) auto
  moreover have "wrap_i64 (now_ms + card_interval_days g * day_ms) = now_ms + card_interval_days g * day_ms"
    using step assms by (intro wrap_i64_id) auto
  ultimately have "card_due_ms g = now_ms + card_interval_days g * day_ms"
    using g(4) by simp
  with step g show ?thesis by auto
qed

definition demo_card :: card where
  "demo_card = \<lparr>card_id = ''c1'', card_note_path = None, card_front = ''q'', card_back = ''a'',
     card_ef = 5/2, card_interval_days = 6, card_reps = 2, card_due_ms = 0\<rparr>"

lemma grade_schedules_ahead_witness:
  "\<exists>g. grade id demo_card 2 1000 = Inr g \<and> 1000 + day_ms \<le> card_due_ms g"
proof -
  obtain g where g: "grade id demo_card 2 1000 = Inr g"
    by (simp add: grade_def demo_card_def Let_def)
  have i: "card_interval_days g = 1" using grade_cases(9) [OF g] by simp
  show ?thesis
    using g grade_schedules_ahead [OF g] by (simp add: i day_ms_def)
qed

text \<open>Without that bound the due date is wrong: an easy card whose interval has grown to
  6 * 10^10 days is scheduled more than a hundred million years in the past, because the product with
  the milliseconds of a day wraps.\<close>

lemma grade_due_wraps:
  "\<exists>g. grade id (demo_card\<lparr>card_interval_days := 6 * 10 ^ 10\<rparr>) 5 0 = Inr g
     \<and> card_interval_days g = 156 * 10 ^ 9 \<and> card_due_ms g < 0"
proof -
  have "\<lfloor>312000000001 / 2 :: rat\<rfloor> = 156000000000" by (rule floor_unique) simp_all
  then show ?thesis
    by (simp add: grade_def demo_card_def Let_def round_half_away_def sat_i64_def wrap_i64_def day_ms_def)
qed

end
