(* ===== verification/Notes_Library.thy ===== *)
theory Notes_Library
  imports Notes_Review
begin

text \<open>
  The note library of crates/notes-core/src/library.rs as far as the other crates
  use it: path normalisation and the four operations on one note.  The files
  under the library root and the index are maps from normalised paths; a file's
  content is its UTF-8 text.  The storage driver is a port (its implementations
  are outside this crate), so each of its calls may fail: \<open>nl_driver_ok\<close> says for
  which paths reading, writing and removing succeed.  What one index row holds is
  computed by \<open>row_of\<close>, a parameter here.  Failures of SQLite are not modelled.
\<close>

section \<open>Paths\<close>

text \<open>One path segment; \<open>is_last\<close> is \<open>i + 1 == segs.len()\<close>.\<close>

definition seg_ok :: "bool \<Rightarrow> string \<Rightarrow> bool" where
  "seg_ok is_last seg \<longleftrightarrow>
     seg \<noteq> [] \<and> seg \<noteq> ''.'' \<and> seg \<noteq> ''..'' \<and> CHR '':'' \<notin> set seg
     \<and> \<not> (is_last \<and> (last seg = CHR ''.'' \<or> last seg = CHR '' ''))"

fun segs_ok :: "string list \<Rightarrow> bool" where
  "segs_ok [] = True"
| "segs_ok [s] = seg_ok True s"
| "segs_ok (s # t # ss) = (seg_ok False s \<and> segs_ok (t # ss))"

definition is_sep :: "char \<Rightarrow> bool" where
  "is_sep c \<longleftrightarrow> c = CHR ''/'' \<or> c = CHR 0x5C"

definition norm_rel :: "string \<Rightarrow> note_error + string" where
  "norm_rel rel =
     (let raw = str_trim rel in
      if raw = [] then Inl (NoteBadPath rel)
      else let segs = split_on is_sep raw in
           if segs_ok segs then Inr (join_with ''/'' segs) else Inl (NoteBadPath rel))"

definition require_md :: "string \<Rightarrow> note_error + unit" where
  "require_md rel =
     (if ends_with (to_ascii_lowercase rel) ''.md'' then Inr () else Inl (NoteBadPath rel))"

section \<open>Operations\<close>

record driver_env =
  drv_read_ok :: "string \<Rightarrow> bool"
  drv_write_ok :: "string \<Rightarrow> bool"
  drv_remove_ok :: "string \<Rightarrow> bool"

record 'm note_lib =
  nl_files :: "string \<Rightarrow> string option"
  nl_index :: "(string \<times> 'm) list"
  nl_cards :: card_store
  nl_driver :: driver_env

type_synonym 'm row_of = "string \<Rightarrow> string \<Rightarrow> string list \<Rightarrow> 'm"

definition nl_paths :: "'m note_lib \<Rightarrow> string list" where
  "nl_paths l = map fst (nl_index l)"

definition universe_with :: "'m note_lib \<Rightarrow> string \<Rightarrow> string list" where
  "universe_with l extra =
     (if extra \<in> set (nl_paths l) then nl_paths l else sort (nl_paths l @ [extra]))"

definition nl_read_text :: "'m note_lib \<Rightarrow> string \<Rightarrow> note_error + string" where
  "nl_read_text l rel =
     (if drv_read_ok (nl_driver l) rel then ok_or (NoteDriver rel) (nl_files l rel)
      else Inl (NoteDriver rel))"

definition nl_write_text :: "'m note_lib \<Rightarrow> string \<Rightarrow> string \<Rightarrow> note_error + 'm note_lib" where
  "nl_write_text l rel content =
     (if drv_write_ok (nl_driver l) rel
      then Inr (l\<lparr>nl_files := (nl_files l)(rel \<mapsto> content)\<rparr>) else Inl (NoteDriver rel))"

fun index_upsert :: "string \<Rightarrow> 'm \<Rightarrow> (string \<times> 'm) list \<Rightarrow> (string \<times> 'm) list" where
  "index_upsert k v [] = [(k, v)]"
| "index_upsert k v ((k', v') # r) = (if k' = k then (k, v) # r else (k', v') # index_upsert k v r)"

definition index_one ::
    "'m row_of \<Rightarrow> 'm note_lib \<Rightarrow> string \<Rightarrow> string list \<Rightarrow> note_error + 'm note_lib" where
  "index_one row_of l rel universe =
     res_bind (require_md rel) (\<lambda>_.
     res_bind (nl_read_text l rel) (\<lambda>content.
       Inr (l\<lparr>nl_index := index_upsert rel (row_of rel content universe) (nl_index l)\<rparr>)))"

definition nl_create ::
    "'m row_of \<Rightarrow> 'm note_lib \<Rightarrow> string \<Rightarrow> string \<Rightarrow> (note_error + 'm) \<times> 'm note_lib" where
  "nl_create row_of l rel content =
     (case res_bind (norm_rel rel) (\<lambda>r. res_bind (require_md r) (\<lambda>_. Inr r)) of
        Inl e \<Rightarrow> (Inl e, l)
      | Inr r \<Rightarrow>
          if nl_files l r \<noteq> None then (Inl (NoteBadState r), l)
          else case nl_write_text l r content of
                 Inl e \<Rightarrow> (Inl e, l)
               | Inr l1 \<Rightarrow>
                   (case index_one row_of l1 r (universe_with l1 r) of
                      Inl e \<Rightarrow> (Inl e, l1)
                    | Inr l2 \<Rightarrow> (ok_or (NoteBadState r) (map_of (nl_index l2) r), l2)))"

definition nl_read :: "'m note_lib \<Rightarrow> string \<Rightarrow> note_error + (string \<times> 'm)" where
  "nl_read l rel =
     res_bind (norm_rel rel) (\<lambda>r.
     res_bind (require_md r) (\<lambda>_.
     res_bind (ok_or (NoteNotFound r) (map_of (nl_index l) r)) (\<lambda>meta.
     res_bind (nl_read_text l r) (\<lambda>content. Inr (content, meta)))))"

definition nl_write ::
    "'m row_of \<Rightarrow> 'm note_lib \<Rightarrow> string \<Rightarrow> string \<Rightarrow> (note_error + unit) \<times> 'm note_lib" where
  "nl_write row_of l rel content =
     (case res_bind (norm_rel rel) (\<lambda>r. res_bind (require_md r) (\<lambda>_. Inr r)) of
        Inl e \<Rightarrow> (Inl e, l)
      | Inr r \<Rightarrow>
          if nl_files l r = None then (Inl (NoteNotFound r), l)
          else case nl_write_text l r content of
                 Inl e \<Rightarrow> (Inl e, l)
               | Inr l1 \<Rightarrow>
                   (case index_one row_of l1 r (universe_with l1 r) of
                      Inl e \<Rightarrow> (Inl e, l1)
                    | Inr l2 \<Rightarrow> (Inr (), l2)))"

definition nl_delete :: "'m note_lib \<Rightarrow> string \<Rightarrow> (note_error + unit) \<times> 'm note_lib" where
  "nl_delete l rel =
     (case res_bind (norm_rel rel) (\<lambda>r. res_bind (require_md r) (\<lambda>_. Inr r)) of
        Inl e \<Rightarrow> (Inl e, l)
      | Inr r \<Rightarrow>
          if nl_files l r = None then (Inl (NoteNotFound r), l)
          else if \<not> drv_remove_ok (nl_driver l) r then (Inl (NoteDriver r), l)
          else (Inr (), l\<lparr>nl_files := (nl_files l)(r := None),
                          nl_index := filter (\<lambda>p. fst p \<noteq> r) (nl_index l),
                          nl_cards := card_detach_note (nl_cards l) r\<rparr>))"

section \<open>Normal paths\<close>

text \<open>A normal path: what \<open>norm_rel\<close> returns, and what it maps to itself.\<close>

lemma segs_ok_mem: "segs_ok ss \<Longrightarrow> s \<in> set ss \<Longrightarrow> seg_ok False s"
  by (induction ss rule: segs_ok.induct) (auto simp: seg_ok_def)

lemma split_sep_pieces:
  "s \<in> set (split_on is_sep raw) \<Longrightarrow> CHR ''/'' \<notin> set s \<and> CHR 0x5C \<notin> set s"
  using split_on_pieces [of s is_sep raw] by (auto simp: is_sep_def)

definition slash :: "char \<Rightarrow> char" where
  "slash c = (if c = CHR 0x5C then CHR ''/'' else c)"

lemma slash_simps: "is_sep c \<Longrightarrow> slash c = CHR ''/''" "\<not> is_sep c \<Longrightarrow> slash c = c"
  by (auto simp: slash_def is_sep_def)

lemma join_split_sep: "join_with ''/'' (split_on is_sep s) = map slash s"
proof (induction s)
  case Nil
  then show ?case by simp
next
  case (Cons c s)
  obtain x xs where sp: "split_on is_sep s = x # xs"
    using split_on_nonempty [of is_sep s] by (cases "split_on is_sep s") auto
  with Cons show ?case by (cases xs; cases "is_sep c") (simp_all add: slash_simps)
qed

lemma split_map_slash: "split_on is_sep (map slash s) = split_on is_sep s"
  by (induction s) (auto simp: is_sep_def slash_def)

lemma prefix_map_slash:
  "set w \<inter> {CHR ''/'', CHR 0x5C} = {} \<Longrightarrow> prefix w (map slash s) \<longleftrightarrow> prefix w s"
proof (induction w arbitrary: s)
  case Nil
  then show ?case by simp
next
  case (Cons c w)
  then show ?case by (cases s) (auto simp: slash_def)
qed

lemma ws_seqs_no_sep: "w \<in> set ws_seqs \<Longrightarrow> set w \<inter> {CHR ''/'', CHR 0x5C} = {}"
proof -
  have "list_all (\<lambda>w. CHR ''/'' \<notin> set w \<and> CHR 0x5C \<notin> set w) ws_seqs" by (simp add: ws_seqs_def)
  then show "w \<in> set ws_seqs \<Longrightarrow> set w \<inter> {CHR ''/'', CHR 0x5C} = {}"
    unfolding list_all_iff by blast
qed

lemma ws_rev_no_sep:
  assumes "w \<in> set (map rev ws_seqs)"
  shows "set w \<inter> {CHR ''/'', CHR 0x5C} = {}"
proof -
  obtain v where v: "v \<in> set ws_seqs" "w = rev v"
    using assms unfolding set_map by blast
  show ?thesis using ws_seqs_no_sep [OF v(1)] unfolding v(2) set_rev .
qed

lemma str_trim_map_slash: "str_trim (map slash s) = map slash (str_trim s)"
proof -
  have "strip_all ws_seqs (map slash s) = map slash (strip_all ws_seqs s)" for s
    by (rule strip_all_map) (rule prefix_map_slash, erule ws_seqs_no_sep)
  moreover have "strip_all (map rev ws_seqs) (map slash s) = map slash (strip_all (map rev ws_seqs) s)" for s
    by (rule strip_all_map) (rule prefix_map_slash, erule ws_rev_no_sep)
  ultimately show ?thesis
    by (simp add: str_trim_def trim_start_def trim_end_def rev_map)
qed

lemma norm_rel_eq:
  "norm_rel rel =
     (if str_trim rel \<noteq> [] \<and> segs_ok (split_on is_sep (str_trim rel))
      then Inr (map slash (str_trim rel)) else Inl (NoteBadPath rel))"
  by (simp add: norm_rel_def join_split_sep Let_def)

lemma norm_rel_idem: "norm_rel rel = Inr p \<Longrightarrow> norm_rel p = Inr p"
proof -
  assume "norm_rel rel = Inr p"
  then have p: "p = map slash (str_trim rel)" "str_trim rel \<noteq> []"
    "segs_ok (split_on is_sep (str_trim rel))"
    by (auto simp: norm_rel_eq split: if_splits)
  then have "str_trim p = map slash (str_trim rel)" by (simp add: str_trim_map_slash)
  moreover have "map slash (map slash (str_trim rel)) = map slash (str_trim rel)"
    by (simp add: slash_def)
  ultimately show "norm_rel p = Inr p" using p by (simp add: norm_rel_eq split_map_slash)
qed

text \<open>C30. The path check of the note library confines every path it accepts to the library: the
  result is a non-empty list of segments joined by slashes, none of them empty, \<open>.\<close> or
  \<open>..\<close>, none with a colon, a slash or a backslash in it.\<close>

theorem norm_rel_confined:
  assumes "norm_rel rel = Inr p"
  shows "\<exists>segs. segs \<noteq> [] \<and> p = join_with ''/'' segs
    \<and> (\<forall>s\<in>set segs. s \<noteq> [] \<and> s \<noteq> ''.'' \<and> s \<noteq> ''..''
         \<and> set s \<inter> {CHR '':'', CHR ''/'', CHR 0x5C} = {})"
proof -
  from assms have ok: "segs_ok (split_on is_sep (str_trim rel))"
    and p: "p = join_with ''/'' (split_on is_sep (str_trim rel))"
    by (auto simp: norm_rel_def Let_def split: if_splits)
  have "\<forall>s\<in>set (split_on is_sep (str_trim rel)). s \<noteq> [] \<and> s \<noteq> ''.'' \<and> s \<noteq> ''..''
      \<and> set s \<inter> {CHR '':'', CHR ''/'', CHR 0x5C} = {}"
    using segs_ok_mem [OF ok] split_sep_pieces [of _ "str_trim rel"] by (auto simp: seg_ok_def)
  then show ?thesis using p split_on_nonempty by blast
qed

theorem norm_rel_confined_witness:
  "\<exists>segs. segs \<noteq> [] \<and> ''a/b.md'' = join_with ''/'' segs
    \<and> (\<forall>s\<in>set segs. s \<noteq> [] \<and> s \<noteq> ''.'' \<and> s \<noteq> ''..''
         \<and> set s \<inter> {CHR '':'', CHR ''/'', CHR 0x5C} = {})"
proof -
  have "norm_rel [CHR '' '', CHR ''a'', CHR 0x5C, CHR ''b'', CHR ''.'', CHR ''m'', CHR ''d''] = Inr ''a/b.md''"
    by code_simp
  then show ?thesis by (rule norm_rel_confined)
qed


section \<open>The operations on one note\<close>

text \<open>What the operations do to the files, whatever the driver answers.\<close>

lemma index_one_files [simp]:
  "index_one row_of l rel u = Inr l' \<Longrightarrow> nl_files l' = nl_files l \<and> nl_driver l' = nl_driver l"
  by (auto simp: index_one_def res_bind_eq_Inr)

lemma map_of_index_upsert: "map_of (index_upsert k v r) k' = (if k' = k then Some v else map_of r k')"
  by (induction k v r rule: index_upsert.induct) auto

lemma nl_write_text_files:
  "nl_write_text l r c = Inr l' \<Longrightarrow> nl_files l' = (nl_files l)(r \<mapsto> c) \<and> nl_driver l' = nl_driver l"
  by (auto simp: nl_write_text_def split: if_splits)

lemma nl_create_ok:
  assumes "nl_create row_of l rel c = (Inr m, l')" and "norm_rel rel = Inr r"
  shows "nl_files l r = None \<and> nl_files l' = (nl_files l)(r \<mapsto> c) \<and> nl_driver l' = nl_driver l"
  using assms
  by (auto simp: nl_create_def res_bind_eq_Inr split: sum.splits if_splits
      dest!: nl_write_text_files)

lemma nl_write_ok:
  assumes "nl_write row_of l rel c = (Inr u, l')" and "norm_rel rel = Inr r"
  shows "nl_files l' = (nl_files l)(r \<mapsto> c) \<and> nl_driver l' = nl_driver l"
  using assms
  by (auto simp: nl_write_def res_bind_eq_Inr split: sum.splits if_splits
      dest!: nl_write_text_files)

lemma nl_delete_ok:
  assumes "nl_delete l rel = (Inr u, l')" and "norm_rel rel = Inr r"
  shows "nl_files l' = (nl_files l)(r := None) \<and> nl_driver l' = nl_driver l"
  using assms by (auto simp: nl_delete_def res_bind_eq_Inr split: sum.splits if_splits)

lemma nl_delete_driver: "nl_driver (snd (nl_delete l rel)) = nl_driver l"
  by (auto simp: nl_delete_def split: sum.splits)

lemma nl_delete_files:
  assumes "norm_rel rel = Inr r" and "require_md r = Inr ()" and "drv_remove_ok (nl_driver l) r"
  shows "nl_files (snd (nl_delete l rel)) = (nl_files l)(r := None)"
  using assms by (auto simp: nl_delete_def)


section \<open>A healthy library\<close>

text \<open>
  When the driver answers every call and the index lists exactly the files, the
  operations on Markdown paths succeed and keep it so.
\<close>

definition lib_ok :: "'m note_lib \<Rightarrow> bool" where
  "lib_ok l \<longleftrightarrow>
     (\<forall>p. drv_read_ok (nl_driver l) p \<and> drv_write_ok (nl_driver l) p \<and> drv_remove_ok (nl_driver l) p)
     \<and> (\<forall>p. nl_files l p = None \<longleftrightarrow> map_of (nl_index l) p = None)"

lemma lib_okD:
  assumes "lib_ok l"
  shows "drv_read_ok (nl_driver l) p" "drv_write_ok (nl_driver l) p" "drv_remove_ok (nl_driver l) p"
    and "nl_files l p = None \<longleftrightarrow> map_of (nl_index l) p = None"
  using assms by (simp_all add: lib_ok_def)

lemma nl_read_text_written:
  "drv_read_ok (nl_driver l) r \<Longrightarrow>
   nl_read_text (l\<lparr>nl_files := (nl_files l)(r \<mapsto> c)\<rparr>) r = Inr c"
  by (simp add: nl_read_text_def)

lemma index_one_healthy:
  assumes "lib_ok l" and "require_md r = Inr ()"
  shows "index_one row_of (l\<lparr>nl_files := (nl_files l)(r \<mapsto> c)\<rparr>) r u
    = Inr (l\<lparr>nl_files := (nl_files l)(r \<mapsto> c), nl_index := index_upsert r (row_of r c u) (nl_index l)\<rparr>)"
  by (simp only: index_one_def assms(2) nl_read_text_written [OF lib_okD(1) [OF assms(1)]] res_bind_simps)
    simp

lemma lib_ok_store:
  assumes "lib_ok l"
  shows "lib_ok (l\<lparr>nl_files := (nl_files l)(r \<mapsto> c), nl_index := index_upsert r m (nl_index l)\<rparr>)"
  using lib_okD [OF assms] by (simp add: lib_ok_def map_of_index_upsert)

lemma nl_write_healthy:
  assumes "lib_ok l" and "require_md r = Inr ()" and "norm_rel r = Inr r" and "nl_files l r \<noteq> None"
  shows "\<exists>l'. nl_write row_of l r c = (Inr (), l') \<and> lib_ok l'"
proof -
  have w: "drv_write_ok (nl_driver l) r" by (rule lib_okD(2) [OF assms(1)])
  then show ?thesis
    using assms(2-4) w lib_ok_store [OF assms(1)]
    by (simp add: nl_write_def nl_write_text_def index_one_healthy [OF assms(1,2)])
qed

lemma nl_create_healthy:
  assumes "lib_ok l" and "require_md r = Inr ()" and "norm_rel r = Inr r" and "nl_files l r = None"
  shows "\<exists>m l'. nl_create row_of l r c = (Inr m, l') \<and> lib_ok l'"
proof -
  have w: "drv_write_ok (nl_driver l) r" by (rule lib_okD(2) [OF assms(1)])
  then show ?thesis
    using assms(2-4) w lib_ok_store [OF assms(1)]
    by (simp add: nl_create_def nl_write_text_def map_of_index_upsert index_one_healthy [OF assms(1,2)])
qed

lemma nl_read_healthy:
  assumes "lib_ok l" and "require_md r = Inr ()" and "norm_rel r = Inr r"
  shows "(\<exists>x. nl_read l r = Inr x) \<longleftrightarrow> nl_files l r \<noteq> None"
  using assms(2,3) lib_okD(1,4) [OF assms(1), of r]
  by (cases "nl_files l r"; cases "map_of (nl_index l) r")
    (simp_all add: nl_read_def nl_read_text_def)

lemma map_of_filter_ne:
  "map_of (filter (\<lambda>p. fst p \<noteq> r) xs) k = (if k = r then None else map_of xs k)"
  by (induction xs) auto

lemma nl_delete_healthy:
  assumes "lib_ok l" and "require_md r = Inr ()" and "norm_rel r = Inr r"
  shows "lib_ok (snd (nl_delete l r))"
  using assms lib_okD [OF assms(1)] by (simp add: nl_delete_def lib_ok_def map_of_filter_ne)

end
