(* ===== verification/Sync_Datasets.thy ===== *)
theory Sync_Datasets
  imports Sync_Engine Notes_Library
begin

text \<open>
  The data sets that may be synchronised (crates/sync-core/src/module.rs) and the
  one applier the host installs, the projection of the note library
  (src-tauri/src/state.rs).  The library is absent until the notes module is
  initialised.  With the applier's contract discharged for the note library, the
  convergence of replicas becomes a statement about note files.
\<close>

section \<open>The white list\<close>

record entity_spec =
  es_id :: string
  es_label :: string

definition entity_note :: string where
  "entity_note = ''note''"

definition sync_entities :: "entity_spec list" where
  "sync_entities = [\<lparr>es_id = entity_note, es_label = ''notes''\<rparr>]"

definition is_sync_entity :: "string \<Rightarrow> bool" where
  "is_sync_entity entity = list_ex (\<lambda>s. es_id s = entity) sync_entities"

definition sync_entity_ids :: "string list" where
  "sync_entity_ids = map es_id sync_entities"

definition require_sync_entity :: "string \<Rightarrow> sync_error + unit" where
  "require_sync_entity entity =
     (if is_sync_entity entity then Inr () else Inl (SyncEntity entity))"

section \<open>The notes applier\<close>

definition notes_serve :: "string \<Rightarrow> sync_error + unit" where
  "notes_serve entity =
     (if entity = entity_note \<and> is_sync_entity entity then Inr () else Inl (SyncEntity entity))"

definition notes_snapshot ::
    "('m \<Rightarrow> string) \<Rightarrow> 'm note_lib option \<Rightarrow> string \<Rightarrow> string \<Rightarrow> sync_error + json option" where
  "notes_snapshot title_of d entity entity_id =
     res_bind (notes_serve entity) (\<lambda>_.
       case d of
         None \<Rightarrow> Inr None
       | Some lib \<Rightarrow>
           (case nl_read lib entity_id of
              Inr (content, meta) \<Rightarrow>
                Inr (Some (JObj [(''content'', JStr content), (''title'', JStr (title_of meta))]))
            | Inl _ \<Rightarrow> Inr None))"

definition snapshot_content :: "json \<Rightarrow> string" where
  "snapshot_content value = unwrap_or [] (Option.bind (jget value ''content'') jas_str)"

definition notes_upsert ::
    "'m row_of \<Rightarrow> 'm note_lib option \<Rightarrow> string \<Rightarrow> string \<Rightarrow> json
       \<Rightarrow> (sync_error + unit) \<times> 'm note_lib option" where
  "notes_upsert row_of d entity entity_id value =
     (case notes_serve entity of
        Inl e \<Rightarrow> (Inl e, d)
      | Inr _ \<Rightarrow>
          (case d of
             None \<Rightarrow> (Inl (SyncNotReady ''notes''), d)
           | Some lib \<Rightarrow>
               let content = snapshot_content value in
               (case nl_read lib entity_id of
                  Inr _ \<Rightarrow>
                    (case nl_write row_of lib entity_id content of
                       (Inl _, lib') \<Rightarrow> (Inl (SyncApply entity_id), Some lib')
                     | (Inr _, lib') \<Rightarrow> (Inr (), Some lib'))
                | Inl _ \<Rightarrow>
                    (case nl_create row_of lib entity_id content of
                       (Inl _, lib') \<Rightarrow> (Inl (SyncApply entity_id), Some lib')
                     | (Inr _, lib') \<Rightarrow> (Inr (), Some lib')))))"

definition notes_delete ::
    "'m note_lib option \<Rightarrow> string \<Rightarrow> string \<Rightarrow> (sync_error + unit) \<times> 'm note_lib option" where
  "notes_delete d entity entity_id =
     (case notes_serve entity of
        Inl e \<Rightarrow> (Inl e, d)
      | Inr _ \<Rightarrow>
          (case d of
             None \<Rightarrow> (Inl (SyncNotReady ''notes''), d)
           | Some lib \<Rightarrow> (Inr (), Some (snd (nl_delete lib entity_id)))))"

definition notes_applier :: "'m row_of \<Rightarrow> ('m \<Rightarrow> string) \<Rightarrow> 'm note_lib option applier" where
  "notes_applier row_of title_of =
     \<lparr>ap_snapshot = notes_snapshot title_of, ap_upsert = notes_upsert row_of, ap_delete = notes_delete\<rparr>"

section \<open>The applier keeps its contract\<close>

definition notes_view :: "'m note_lib option \<Rightarrow> string \<times> string \<Rightarrow> string option" where
  "notes_view d k =
     (case d of None \<Rightarrow> None | Some lib \<Rightarrow> if fst k = entity_note then nl_files lib (snd k) else None)"

text \<open>An entity id that is a normalised path of a Markdown file.\<close>

definition note_key :: "string \<times> string \<Rightarrow> bool" where
  "note_key k \<longleftrightarrow> fst k = entity_note \<and> norm_rel (snd k) = Inr (snd k) \<and> require_md (snd k) = Inr ()"

definition removable :: "'m note_lib option \<Rightarrow> bool" where
  "removable d \<longleftrightarrow> (case d of None \<Rightarrow> True | Some lib \<Rightarrow> \<forall>p. drv_remove_ok (nl_driver lib) p)"

lemma notes_upsert_view:
  assumes "note_key (e, i)" and "notes_upsert row_of d e i v = (Inr (), d')" and "removable d"
  shows "notes_view d' = (notes_view d)((e, i) \<mapsto> snapshot_content v) \<and> removable d'"
proof -
  have n: "norm_rel i = Inr i" and e: "e = entity_note" using assms(1) by (auto simp: note_key_def)
  obtain lib where d: "d = Some lib"
    using assms(2) by (cases d) (auto simp: notes_upsert_def split: sum.splits)
  have "\<exists>lib'. d' = Some lib' \<and> nl_files lib' = (nl_files lib)(i \<mapsto> snapshot_content v)
      \<and> nl_driver lib' = nl_driver lib"
    using assms(2) unfolding notes_upsert_def d Let_def
    by (auto split: sum.splits prod.splits dest!: nl_write_ok [OF _ n] nl_create_ok [OF _ n])
  then show ?thesis using assms(3) d e by (auto simp: notes_view_def removable_def fun_eq_iff)
qed

lemma notes_delete_view:
  assumes "note_key (e, i)" and "notes_delete d e i = (Inr (), d')" and "removable d"
  shows "notes_view d' = (notes_view d)((e, i) := None) \<and> removable d'"
proof -
  have n: "norm_rel i = Inr i" "require_md i = Inr ()" and e: "e = entity_note"
    using assms(1) by (auto simp: note_key_def)
  obtain lib where d: "d = Some lib"
    using assms(2) by (cases d) (auto simp: notes_delete_def split: sum.splits)
  have "d' = Some (snd (nl_delete lib i))"
    using assms(2) unfolding notes_delete_def d by (auto split: sum.splits)
  then show ?thesis
    using assms(3) d e nl_delete_files [OF n, of lib] nl_delete_driver [of lib i]
    by (auto simp: notes_view_def removable_def fun_eq_iff)
qed

interpretation note_set: dataset_applier "notes_applier row_of title_of" notes_view snapshot_content
    note_key removable
  for row_of :: "'m row_of" and title_of :: "'m \<Rightarrow> string"
  by unfold_locales
    (simp_all add: notes_applier_def notes_upsert_view notes_delete_view)

text \<open>A healthy library accepts every change of a Markdown path and stays healthy.\<close>

definition notes_ok :: "'m note_lib option \<Rightarrow> bool" where
  "notes_ok d \<longleftrightarrow> (case d of None \<Rightarrow> False | Some lib \<Rightarrow> lib_ok lib)"

lemma notes_ok_removable: "notes_ok d \<Longrightarrow> removable d"
  by (auto simp: notes_ok_def removable_def lib_ok_def split: option.splits)

lemma serve_note [simp]: "notes_serve entity_note = Inr ()"
  by (simp add: notes_serve_def is_sync_entity_def sync_entities_def)

lemma notes_upsert_ok:
  assumes "notes_ok d" and "note_key (e, i)"
  shows "\<exists>d'. notes_upsert row_of d e i v = (Inr (), d') \<and> notes_ok d'"
proof -
  obtain lib where d: "d = Some lib" "lib_ok lib"
    using assms(1) by (auto simp: notes_ok_def split: option.splits)
  have k: "e = entity_note" "require_md i = Inr ()" "norm_rel i = Inr i"
    using assms(2) by (auto simp: note_key_def)
  show ?thesis
  proof (cases "nl_files lib i = None")
    case True
    then have "\<exists>x. nl_read lib i = Inl x"
      using nl_read_healthy [OF d(2) k(2,3)] by (cases "nl_read lib i") auto
    then show ?thesis
      using nl_create_healthy [OF d(2) k(2,3) True, of row_of "snapshot_content v"] d(1) k(1)
      by (auto simp: notes_upsert_def notes_ok_def)
  next
    case False
    then have "\<exists>x. nl_read lib i = Inr x"
      using nl_read_healthy [OF d(2) k(2,3)] by auto
    then show ?thesis
      using nl_write_healthy [OF d(2) k(2,3) False, of row_of "snapshot_content v"] d(1) k(1)
      by (auto simp: notes_upsert_def notes_ok_def)
  qed
qed

lemma notes_delete_ok:
  assumes "notes_ok d" and "note_key (e, i)"
  shows "\<exists>d'. notes_delete d e i = (Inr (), d') \<and> notes_ok d'"
  using assms nl_delete_healthy [of _ i]
  by (auto simp: notes_delete_def notes_ok_def note_key_def split: option.splits)

lemma apply_remote_notes_ok:
  assumes "notes_ok d" and "note_key (op_key e)"
  shows "\<exists>r l' d'. apply_remote (notes_applier row_of title_of) l d e = (Inr r, l', d') \<and> notes_ok d'"
proof -
  have k: "note_key (op_entity e, op_entity_id e)" using assms(2) by (simp add: op_key_def)
  obtain d1 where d1: "notes_delete d (op_entity e) (op_entity_id e) = (Inr (), d1)" "notes_ok d1"
    using notes_delete_ok [OF assms(1) k] by blast
  obtain d2 where d2: "notes_upsert row_of d (op_entity e) (op_entity_id e) (op_value e) = (Inr (), d2)"
    "notes_ok d2"
    using notes_upsert_ok [OF assms(1) k] by blast
  show ?thesis
    using d1 d2 assms(1)
    by (cases "latest_of_key l (op_key e)") (simp_all add: apply_remote_eq notes_applier_def)
qed

section \<open>Convergence\<close>

text \<open>C2. Strong eventual consistency of synchronised notes: two devices that start with the same
  notes and an empty log, and apply the same set of remote changes in any order and with any
  repetitions, end with the same note files, whenever no application fails, every change names a
  normalised Markdown path, files can be removed, and no two different changes of a note carry the
  same timestamp and device.\<close>

theorem notes_replicas_converge:
  assumes "apply_all (notes_applier row_of title_of) (op_log_empty, d) es = Some (log1, d1)"
    and "apply_all (notes_applier row_of title_of) (op_log_empty, d) fs = Some (log2, d2)"
    and "set es = set fs" and "consistent_ops (set es)"
    and "\<forall>e\<in>set es. note_key (op_key e)" and "removable d"
  shows "notes_view d1 = notes_view d2"
proof -
  have "note_set.agrees (notes_view d) op_log_empty d" by (simp add: note_set.agrees_def)
  then show ?thesis
    using note_set.replicas_agree [OF assms(1-3) tracks_empty] assms(4-6) by simp
qed

definition demo_note_op :: "string \<Rightarrow> int \<Rightarrow> string \<Rightarrow> string \<Rightarrow> op_entry" where
  "demo_note_op oid ts device text =
     \<lparr>op_id = oid, op_entity = entity_note, op_entity_id = ''a.md'', op_ts = ts, op_device = device,
      op_value = JObj [(''content'', JStr text)]\<rparr>"

definition demo_lib :: "unit note_lib" where
  "demo_lib = \<lparr>nl_files = Map.empty, nl_index = [], nl_cards = [],
     nl_driver = \<lparr>drv_read_ok = (\<lambda>_. True), drv_write_ok = (\<lambda>_. True), drv_remove_ok = (\<lambda>_. True)\<rparr>\<rparr>"

definition demo_applier :: "unit note_lib option applier" where
  "demo_applier = notes_applier (\<lambda>_ _ _. ()) (\<lambda>_. [])"

definition demo_run :: "op_entry list \<Rightarrow> (op_log \<times> unit note_lib option) option" where
  "demo_run es = apply_all demo_applier (op_log_empty, Some demo_lib) es"


theorem notes_replicas_converge_witness:
  "let a = demo_note_op ''1'' 10 ''devA'' ''x''; b = demo_note_op ''2'' 20 ''devB'' ''y'';
       final = (\<lambda>r. notes_view (snd (the r)) (entity_note, ''a.md''))
   in demo_run [a, b] \<noteq> None \<and> demo_run [b, a, b] \<noteq> None
      \<and> final (demo_run [a, b]) = final (demo_run [b, a, b])
      \<and> final (demo_run [a, b]) = Some ''y''"
proof -
  let ?a = "demo_note_op ''1'' 10 ''devA'' ''x''" and ?b = "demo_note_op ''2'' 20 ''devB'' ''y''"
  have key: "note_key (entity_note, ''a.md'')" by code_simp
  have r1: "demo_run [?a, ?b] \<noteq> None" and r2: "demo_run [?b, ?a, ?b] \<noteq> None"
    and v: "notes_view (snd (the (demo_run [?a, ?b]))) (entity_note, ''a.md'') = Some ''y''"
    by code_simp+
  obtain l1 d1 l2 d2 where 1: "demo_run [?a, ?b] = Some (l1, d1)"
    and 2: "demo_run [?b, ?a, ?b] = Some (l2, d2)"
    using r1 r2 by auto
  have "notes_view d1 = notes_view d2"
    using 1 2 unfolding demo_run_def demo_applier_def
    by (rule notes_replicas_converge)
      (auto simp: consistent_ops_def key op_key_def demo_note_op_def removable_def demo_lib_def
         entity_note_def [symmetric] key [unfolded entity_note_def])
  with 1 2 r1 r2 v show ?thesis by simp
qed

end
