(* ===== verification/Sync_Session.thy ===== *)
theory Sync_Session
  imports Sync_Datasets
begin

text \<open>
  One synchronisation session, crates/sync-core/src/module.rs: the application of
  a batch of remote changes with its cursor, the two sides of the protocol, the
  accounting of a run, and the recording of local changes.  The initiator talks
  to an abstract channel (one write and one read function over a channel state);
  the responder, which awaits one message at a time, is the step machine of those
  awaits, so that it can itself be the initiator's channel.  The clock is a
  parameter where it is read.  The u32 counters of a session are natural numbers.
\<close>

section \<open>Configuration\<close>

record sync_config =
  cfg_auto_sync :: bool
  cfg_quiet_period_ms :: nat
  cfg_conflict_keep_days :: nat

definition quiet_period_min_ms :: nat where
  "quiet_period_min_ms = 5000"

definition sync_config_default :: sync_config where
  "sync_config_default = \<lparr>cfg_auto_sync = False, cfg_quiet_period_ms = 60000, cfg_conflict_keep_days = 30\<rparr>"

definition sync_merged :: "sync_config \<Rightarrow> json \<Rightarrow> sync_error + sync_config" where
  "sync_merged cfg values =
     res_bind (case jget values ''auto_sync'' of
         None \<Rightarrow> Inr cfg
       | Some v \<Rightarrow> (case jas_bool v of
             None \<Rightarrow> Inl (SyncConfig ''auto_sync'')
           | Some b \<Rightarrow> Inr (cfg\<lparr>cfg_auto_sync := b\<rparr>)))
     (\<lambda>next. res_bind (case jget values ''quiet_period_ms'' of
         None \<Rightarrow> Inr next
       | Some v \<Rightarrow> (case jas_u64 v of
             None \<Rightarrow> Inl (SyncConfig ''quiet_period_ms'')
           | Some n \<Rightarrow> if n < quiet_period_min_ms then Inl (SyncConfig ''quiet_period_ms'')
                       else Inr (next\<lparr>cfg_quiet_period_ms := n\<rparr>)))
     (\<lambda>next. case jget values ''conflict_keep_days'' of
         None \<Rightarrow> Inr next
       | Some v \<Rightarrow> (case jas_u64 v of
             None \<Rightarrow> Inl (SyncConfig ''conflict_keep_days'')
           | Some n \<Rightarrow> if n = 0 then Inl (SyncConfig ''conflict_keep_days'')
                       else Inr (next\<lparr>cfg_conflict_keep_days := n\<rparr>))))"

text \<open>\<open>now_ms() - keep_days as i64 * DAY_MS\<close> of \<open>run_due\<close> and \<open>apply_config\<close>.\<close>

definition keep_cutoff :: "int \<Rightarrow> nat \<Rightarrow> int" where
  "keep_cutoff now_ms keep_days =
     wrap_i64 (now_ms - wrap_i64 (wrap_i64 (int keep_days) * day_ms))"

text \<open>
  \<open>apply_config\<close> over the running configuration and the log (absent before
  \<open>init\<close>): the new configuration is stored, then old conflicts are pruned.
\<close>

definition sync_apply_config ::
    "int \<Rightarrow> sync_config \<times> op_log option \<Rightarrow> json \<Rightarrow> (sync_error + unit) \<times> (sync_config \<times> op_log option)" where
  "sync_apply_config now_ms s values =
     (case sync_merged (fst s) values of
        Inl e \<Rightarrow> (Inl e, s)
      | Inr next \<Rightarrow>
          (Inr (), next,
           map_option (\<lambda>olog. fst (prune_conflicts_before olog (keep_cutoff now_ms (cfg_conflict_keep_days next))))
             (snd s)))"

section \<open>Addresses\<close>

text \<open>\<open>AutoSync::addr_for\<close>: typed address, discovery, last good address, or an error.\<close>

definition addr_for ::
    "(string \<Rightarrow> string option) option \<Rightarrow> (string \<Rightarrow> string option) \<Rightarrow> string \<Rightarrow> string \<Rightarrow> string option
       \<Rightarrow> sync_error + string" where
  "addr_for resolver last_addr device_id display manual =
     (case Option.bind (map_option str_trim manual) (\<lambda>a. if a \<noteq> [] then Some a else None) of
        Some addr \<Rightarrow> Inr addr
      | None \<Rightarrow>
          (case Option.bind resolver (\<lambda>r. r device_id) of
             Some addr \<Rightarrow> Inr addr
           | None \<Rightarrow>
               (case last_addr device_id of
                  Some addr \<Rightarrow> Inr addr
                | None \<Rightarrow> Inl (SyncPeer display))))"

section \<open>The session context\<close>

record 'd sync_ctx =
  sc_self :: string
  sc_log :: op_log
  sc_appliers :: "(string \<times> 'd applier) list"
  sc_data :: 'd
  sc_conflict_events :: "(string \<times> op_entry) list"

record sync_summary =
  sm_pushed :: nat
  sm_pulled_applied :: nat
  sm_pulled_lost :: nat
  sm_conflicts :: nat

definition summary_default :: sync_summary where
  "summary_default = \<lparr>sm_pushed = 0, sm_pulled_applied = 0, sm_pulled_lost = 0, sm_conflicts = 0\<rparr>"

definition applier_for :: "'d sync_ctx \<Rightarrow> string \<Rightarrow> sync_error + 'd applier" where
  "applier_for ctx entity = ok_or (SyncEntity entity) (map_of (sc_appliers ctx) entity)"

text \<open>What the code reads from its surroundings while it applies a change.\<close>

record host_env =
  env_sha256 :: "bytes \<Rightarrow> bytes"
  env_clock :: "op_entry \<Rightarrow> int"

definition note_lost :: "host_env \<Rightarrow> 'd sync_ctx \<Rightarrow> op_entry \<Rightarrow> 'd sync_ctx" where
  "note_lost env ctx e =
     (let winner = latest_for (sc_log ctx) (op_entity e) (op_entity_id e);
          entry = conflict_of (env_sha256 env) e winner (env_clock env e)
      in ctx\<lparr>sc_log := record_conflict (sc_log ctx) entry,
             sc_conflict_events := sc_conflict_events ctx @ [(ce_id entry, e)]\<rparr>)"

definition settle_cursor :: "'d sync_ctx \<Rightarrow> string \<Rightarrow> int \<Rightarrow> 'd sync_ctx" where
  "settle_cursor ctx peer_key last_ok_ts =
     (if 0 < last_ok_ts then ctx\<lparr>sc_log := set_cursor (sc_log ctx) peer_key last_ok_ts\<rparr> else ctx)"

text \<open>
  The loop of \<open>apply_ops\<close>; the accumulator is \<open>(applied, lost, conflicts, last_ok_ts)\<close>.
  A missing applier returns at once, without settling the cursor.
\<close>

fun apply_ops_loop ::
    "host_env \<Rightarrow> string \<Rightarrow> nat \<times> nat \<times> nat \<times> int \<Rightarrow> 'd sync_ctx \<Rightarrow> op_entry list
       \<Rightarrow> (sync_error + nat \<times> nat \<times> nat) \<times> 'd sync_ctx" where
  "apply_ops_loop env peer_key (applied, lost, confl, last_ok) ctx [] =
     (Inr (applied, lost, confl), settle_cursor ctx peer_key last_ok)"
| "apply_ops_loop env peer_key (applied, lost, confl, last_ok) ctx (e # es) =
     (case applier_for ctx (op_entity e) of
        Inl x \<Rightarrow> (Inl x, ctx)
      | Inr ap \<Rightarrow>
          (case apply_remote ap (sc_log ctx) (sc_data ctx) e of
             (Inr Applied, olog', d') \<Rightarrow>
               apply_ops_loop env peer_key (applied + 1, lost, confl, max last_ok (op_ts e))
                 (ctx\<lparr>sc_log := olog', sc_data := d'\<rparr>) es
           | (Inr LostLww, olog', d') \<Rightarrow>
               apply_ops_loop env peer_key (applied, lost + 1, confl + 1, max last_ok (op_ts e))
                 (note_lost env (ctx\<lparr>sc_log := olog', sc_data := d'\<rparr>) e) es
           | (Inr Noop, olog', d') \<Rightarrow>
               apply_ops_loop env peer_key (applied, lost, confl, max last_ok (op_ts e))
                 (ctx\<lparr>sc_log := olog', sc_data := d'\<rparr>) es
           | (Inl x, olog', d') \<Rightarrow>
               (Inl x, settle_cursor (ctx\<lparr>sc_log := olog', sc_data := d'\<rparr>) peer_key last_ok)))"

definition apply_ops ::
    "host_env \<Rightarrow> 'd sync_ctx \<Rightarrow> op_entry list \<Rightarrow> string
       \<Rightarrow> (sync_error + nat \<times> nat \<times> nat) \<times> 'd sync_ctx" where
  "apply_ops env ctx ops peer_key = apply_ops_loop env peer_key (0, 0, 0, 0) ctx ops"

section \<open>The protocol\<close>

datatype sync_msg =
    Push "op_entry list" bool
  | Pull int
  | Ack int nat nat
  | ErrMsg string

definition batch_limit :: nat where
  "batch_limit = 512"

text \<open>\<open>ops.iter().map(|o| o.ts).max().unwrap_or(0)\<close>\<close>

definition max_ts :: "op_entry list \<Rightarrow> int" where
  "max_ts ops = (case ops of [] \<Rightarrow> 0 | e # es \<Rightarrow> foldl max (op_ts e) (map op_ts es))"

record 'p channel =
  ch_write :: "'p \<Rightarrow> sync_msg \<Rightarrow> (sync_error + unit) \<times> 'p"
  ch_read :: "'p \<Rightarrow> (sync_error + sync_msg) \<times> 'p"

text \<open>
  The push loop of \<open>run_initiator\<close>.  It ends because the cursor strictly grows
  towards the newest timestamp of the log: a batch is only followed by another one
  when it was full (so some change is newer than the cursor) and the peer's answer
  moved the cursor forward.
\<close>

definition newest_ts :: "op_log \<Rightarrow> int" where
  "newest_ts l = foldr (\<lambda>e m. max (op_ts e) m) (ol_rows l) 0"

lemma newest_ts_ge: "e \<in> set (ol_rows l) \<Longrightarrow> op_ts e \<le> newest_ts l"
proof -
  have "e \<in> set xs \<Longrightarrow> op_ts e \<le> foldr (\<lambda>e m. max (op_ts e) m) xs (0 :: int)" for xs
    by (induction xs) auto
  then show "e \<in> set (ol_rows l) \<Longrightarrow> op_ts e \<le> newest_ts l" by (simp add: newest_ts_def)
qed

function push_loop ::
    "'p channel \<Rightarrow> nat \<Rightarrow> string \<Rightarrow> string \<Rightarrow> int \<Rightarrow> op_log \<Rightarrow> sync_summary \<Rightarrow> 'p
       \<Rightarrow> (sync_error + unit) \<times> op_log \<times> sync_summary \<times> 'p" where
  "push_loop ch limit self_device peer_key cur olog sm p =
     (let raw = ops_of_device olog self_device cur limit;
          batch = plan_push raw limit;
          sm' = sm\<lparr>sm_pushed := sm_pushed sm + length (pb_ops batch)\<rparr>
      in case ch_write ch p (Push (pb_ops batch) (pb_more batch)) of
           (Inl e, p1) \<Rightarrow> (Inl e, olog, sm', p1)
         | (Inr _, p1) \<Rightarrow>
             (case ch_read ch p1 of
                (Inl e, p2) \<Rightarrow> (Inl e, olog, sm', p2)
              | (Inr (ErrMsg msg), p2) \<Rightarrow> (Inl (SyncProto msg), olog, sm', p2)
              | (Inr (Ack until_ts _ _), p2) \<Rightarrow>
                  (let olog' = set_push_cursor olog peer_key until_ts in
                   if until_ts \<le> cur \<or> \<not> pb_more batch then (Inr (), olog', sm', p2)
                   else push_loop ch limit self_device peer_key (push_cursor olog' peer_key) olog' sm' p2)
              | (Inr _, p2) \<Rightarrow> (Inl (SyncProto ''push''), olog, sm', p2)))"
  by pat_completeness auto
termination
proof (relation "measure (\<lambda>(ch, limit, self, peer, cur, olog, sm, p). nat (newest_ts olog - cur))",
    goal_cases)
  case 1
  show ?case by simp
next
  case (2 ch limit self peer cur olog sm p raw batch sm' x p1 a p2 b m until ap lo olog')
  have more: "cur < until" "pb_more batch" using 2 by auto
  then have "raw \<noteq> []" using 2 by (auto simp: plan_push_def)
  then obtain e where "e \<in> set raw" by (cases raw) auto
  then have e: "e \<in> set (ol_rows olog)" "cur < op_ts e" using 2 ops_of_device_mem by auto
  have "newest_ts olog' = newest_ts olog" using 2 by (simp add: newest_ts_def set_push_cursor_def)
  moreover have "until \<le> push_cursor olog' peer"
    using 2 by (simp add: outbound.get_put_same)
  ultimately show ?case using more e newest_ts_ge [OF e(1)] by simp
qed

declare push_loop.simps [simp del]


definition run_initiator ::
    "host_env \<Rightarrow> 'p channel \<Rightarrow> nat \<Rightarrow> 'd sync_ctx \<Rightarrow> string \<Rightarrow> sync_summary \<Rightarrow> 'p
       \<Rightarrow> (sync_error + unit) \<times> 'd sync_ctx \<times> sync_summary \<times> 'p" where
  "run_initiator env ch limit ctx peer_key sm p =
     (if sc_appliers ctx = [] then (Inl (SyncNotReady ''appliers''), ctx, sm, p)
      else case push_loop ch limit (sc_self ctx) peer_key (push_cursor (sc_log ctx) peer_key)
                  (sc_log ctx) sm p of
        (Inl e, olog1, sm1, p1) \<Rightarrow> (Inl e, ctx\<lparr>sc_log := olog1\<rparr>, sm1, p1)
      | (Inr _, olog1, sm1, p1) \<Rightarrow>
          (let ctx1 = ctx\<lparr>sc_log := olog1\<rparr>; since = cursor olog1 peer_key in
           case ch_write ch p1 (Pull since) of
             (Inl e, p2) \<Rightarrow> (Inl e, ctx1, sm1, p2)
           | (Inr _, p2) \<Rightarrow>
               (case ch_read ch p2 of
                  (Inl e, p3) \<Rightarrow> (Inl e, ctx1, sm1, p3)
                | (Inr (Push ops _), p3) \<Rightarrow>
                    (case apply_ops env ctx1 ops peer_key of
                       (Inl e, ctx2) \<Rightarrow> (Inl e, ctx2, sm1, p3)
                     | (Inr (applied, lost, confl), ctx2) \<Rightarrow>
                         (let sm2 = sm1\<lparr>sm_pulled_applied := sm_pulled_applied sm1 + applied,
                                        sm_pulled_lost := sm_pulled_lost sm1 + lost,
                                        sm_conflicts := sm_conflicts sm1 + confl\<rparr>
                          in case ch_write ch p3 (Ack (max_ts ops) applied lost) of
                               (Inl e, p4) \<Rightarrow> (Inl e, ctx2, sm2, p4)
                             | (Inr _, p4) \<Rightarrow> (Inr (), ctx2, sm2, p4)))
                | (Inr (ErrMsg msg), p3) \<Rightarrow> (Inl (SyncProto msg), ctx1, sm1, p3)
                | (Inr _, p3) \<Rightarrow> (Inl (SyncProto ''pull''), ctx1, sm1, p3))))"

text \<open>
  \<open>run_responder\<close>: the three places where it waits for a message, and its two
  ends.  One step takes the message read at such a place and returns the messages
  it writes before it waits again.
\<close>

datatype resp_phase = AwaitPush | AwaitPull | AwaitAck | RespDone | RespFailed sync_error

record 'd responder =
  rp_phase :: resp_phase
  rp_ctx :: "'d sync_ctx"
  rp_summary :: sync_summary

definition responder_step ::
    "host_env \<Rightarrow> nat \<Rightarrow> string \<Rightarrow> 'd responder \<Rightarrow> sync_msg \<Rightarrow> 'd responder \<times> sync_msg list" where
  "responder_step env limit peer_key r m =
     (let ctx = rp_ctx r; sm = rp_summary r in
      case rp_phase r of
        AwaitPush \<Rightarrow>
          (case m of
             Push ops mo \<Rightarrow>
               (case apply_ops env ctx ops peer_key of
                  (Inl e, ctx1) \<Rightarrow> (r\<lparr>rp_phase := RespFailed e, rp_ctx := ctx1\<rparr>, [])
                | (Inr (applied, lost, confl), ctx1) \<Rightarrow>
                    (r\<lparr>rp_phase := (if mo then AwaitPush else AwaitPull), rp_ctx := ctx1,
                       rp_summary := sm\<lparr>sm_pulled_applied := sm_pulled_applied sm + applied,
                                        sm_pulled_lost := sm_pulled_lost sm + lost,
                                        sm_conflicts := sm_conflicts sm + confl\<rparr>\<rparr>,
                     [Ack (max_ts ops) applied lost]))
           | ErrMsg msg \<Rightarrow> (r\<lparr>rp_phase := RespFailed (SyncProto msg)\<rparr>, [])
           | _ \<Rightarrow> (r\<lparr>rp_phase := RespFailed (SyncProto ''first'')\<rparr>, []))
      | AwaitPull \<Rightarrow>
          (case m of
             Pull since_ts \<Rightarrow>
               (let ops = ops_of_device (sc_log ctx) (sc_self ctx) since_ts limit in
                (r\<lparr>rp_phase := AwaitAck,
                   rp_summary := sm\<lparr>sm_pushed := sm_pushed sm + length ops\<rparr>\<rparr>, [Push ops False]))
           | _ \<Rightarrow> (r\<lparr>rp_phase := RespFailed (SyncProto ''second'')\<rparr>, []))
      | AwaitAck \<Rightarrow>
          (case m of
             Ack until_ts _ _ \<Rightarrow>
               (r\<lparr>rp_phase := RespDone,
                  rp_ctx := ctx\<lparr>sc_log := set_push_cursor (sc_log ctx) peer_key until_ts\<rparr>\<rparr>, [])
           | ErrMsg msg \<Rightarrow> (r\<lparr>rp_phase := RespFailed (SyncProto msg)\<rparr>, [])
           | _ \<Rightarrow> (r\<lparr>rp_phase := RespFailed (SyncProto ''ack'')\<rparr>, []))
      | _ \<Rightarrow> (r, []))"

text \<open>
  The responder at the other end of a connection, as the channel of the
  initiator: what it writes waits in a queue; a finished responder has closed the
  connection.
\<close>

type_synonym 'd resp_chan = "'d responder \<times> sync_msg list"

definition resp_write ::
    "host_env \<Rightarrow> nat \<Rightarrow> string \<Rightarrow> 'd resp_chan \<Rightarrow> sync_msg \<Rightarrow> (sync_error + unit) \<times> 'd resp_chan" where
  "resp_write env limit peer_key p m =
     (case rp_phase (fst p) of
        RespDone \<Rightarrow> (Inl (SyncNet ''closed''), p)
      | RespFailed _ \<Rightarrow> (Inl (SyncNet ''closed''), p)
      | _ \<Rightarrow> (let (r, out) = responder_step env limit peer_key (fst p) m in (Inr (), r, snd p @ out)))"

definition resp_read :: "'d resp_chan \<Rightarrow> (sync_error + sync_msg) \<times> 'd resp_chan" where
  "resp_read p =
     (case snd p of [] \<Rightarrow> (Inl (SyncNet ''eof''), p) | m # ms \<Rightarrow> (Inr m, fst p, ms))"

definition resp_channel :: "host_env \<Rightarrow> nat \<Rightarrow> string \<Rightarrow> 'd resp_chan channel" where
  "resp_channel env limit peer_key =
     \<lparr>ch_write = resp_write env limit peer_key, ch_read = resp_read\<rparr>"

definition responder_init :: "'d sync_ctx \<Rightarrow> 'd responder" where
  "responder_init ctx = \<lparr>rp_phase = AwaitPush, rp_ctx = ctx, rp_summary = summary_default\<rparr>"

section \<open>Accounting\<close>

definition role_initiator :: string where "role_initiator = ''initiator''"
definition role_responder :: string where "role_responder = ''responder''"

definition finish_run ::
    "op_log \<Rightarrow> string \<Rightarrow> string \<Rightarrow> int \<Rightarrow> int \<Rightarrow> sync_summary \<Rightarrow> sync_error option \<Rightarrow> op_log" where
  "finish_run olog peer role started_ms ended_ms sm err =
     record_run olog
       \<lparr>run_id = 0, run_ts_ms = started_ms, run_peer = peer, run_role = role,
        run_pushed = sm_pushed sm, run_pulled_applied = sm_pulled_applied sm,
        run_pulled_lost = sm_pulled_lost sm, run_conflicts = sm_conflicts sm,
        run_duration_ms = max (ended_ms - started_ms) 0,
        run_error = map_option sync_error_code err\<rparr>"

text \<open>
  \<open>sync_attempt\<close>: \<open>connect\<close> stands for \<open>initiate\<close> up to the handshake (dialling,
  the Hello exchange, and the check of the peer's identity); every outcome is
  recorded as one run.
\<close>

definition sync_attempt ::
    "host_env \<Rightarrow> 'p channel \<Rightarrow> (sync_error + string \<times> 'p) \<Rightarrow> (string \<Rightarrow> bool) \<Rightarrow> 'd sync_ctx \<Rightarrow> string
       \<Rightarrow> int \<Rightarrow> int \<Rightarrow> (sync_error + sync_summary) \<times> 'd sync_ctx" where
  "sync_attempt env ch connect is_paired ctx device_id started_ms ended_ms =
     (let (outcome, ctx1, sm) =
        (if \<not> is_paired device_id then (Inl (SyncPeer device_id), ctx, summary_default)
         else case connect of
                Inl e \<Rightarrow> (Inl e, ctx, summary_default)
              | Inr (peer, p) \<Rightarrow>
                  if peer \<noteq> device_id then (Inl (SyncPeer peer), ctx, summary_default)
                  else (case run_initiator env ch batch_limit ctx peer summary_default p of
                          (res, ctx1, sm, _) \<Rightarrow> (res, ctx1, sm)))
      in (case outcome of Inl e \<Rightarrow> Inl e | Inr _ \<Rightarrow> Inr sm,
          ctx1\<lparr>sc_log := finish_run (sc_log ctx1) device_id role_initiator started_ms ended_ms sm
            (case outcome of Inl e \<Rightarrow> Some e | Inr _ \<Rightarrow> None)\<rparr>))"

section \<open>Local changes\<close>

definition change_actions :: "string list" where
  "change_actions = [''create'', ''write'', ''delete'', ''rename'']"

record change_record =
  cr_entity :: string
  cr_path :: string
  cr_action :: string

definition change_records_of_event :: "json \<Rightarrow> change_record list option" where
  "change_records_of_event payload =
     Option.bind (Option.bind (jget payload ''action'') jas_str) (\<lambda>action.
     if action \<notin> set change_actions then None else
     Option.bind (Option.bind (jget payload ''path'') jas_str) (\<lambda>path.
     let entity = unwrap_or entity_note (Option.bind (jget payload ''entity'') jas_str) in
     if action = ''rename''
     then Option.bind (Option.bind (jget payload ''old_path'') jas_str) (\<lambda>old_path.
            Some [\<lparr>cr_entity = entity, cr_path = old_path, cr_action = ''delete''\<rparr>,
                  \<lparr>cr_entity = entity, cr_path = path, cr_action = ''write''\<rparr>])
     else Some [\<lparr>cr_entity = entity, cr_path = path, cr_action = action\<rparr>]))"

definition record_change_with ::
    "'d sync_ctx \<Rightarrow> string \<Rightarrow> string \<Rightarrow> string \<Rightarrow> string \<Rightarrow> int \<Rightarrow> (sync_error + unit) \<times> 'd sync_ctx" where
  "record_change_with ctx new_id entity path action now_ms =
     (case res_bind (applier_for ctx entity) (\<lambda>ap.
             if action = ''delete'' then Inr (JObj [(deleted_key, JBool True)])
             else res_bind (ap_snapshot ap (sc_data ctx) entity path)
                    (\<lambda>snap. ok_or (SyncEntity path) snap)) of
        Inl e \<Rightarrow> (Inl e, ctx)
      | Inr value \<Rightarrow>
          (Inr (), ctx\<lparr>sc_log := snd (record_local (sc_log ctx) new_id entity path value (sc_self ctx) now_ms)\<rparr>))"

text \<open>The records of one event, in order, stopping at the first that cannot be recorded.\<close>

fun record_changes ::
    "'d sync_ctx \<Rightarrow> string list \<Rightarrow> int \<Rightarrow> change_record list \<Rightarrow> (sync_error + unit) \<times> 'd sync_ctx" where
  "record_changes ctx ids now_ms [] = (Inr (), ctx)"
| "record_changes ctx ids now_ms (r # rs) =
     (case record_change_with ctx (case ids of [] \<Rightarrow> [] | i # _ \<Rightarrow> i) (cr_entity r) (cr_path r)
             (cr_action r) now_ms of
        (Inl e, ctx1) \<Rightarrow> (Inl e, ctx1)
      | (Inr _, ctx1) \<Rightarrow> record_changes ctx1 (tl ids) now_ms rs)"

definition record_change_event ::
    "'d sync_ctx \<Rightarrow> string list \<Rightarrow> int \<Rightarrow> json \<Rightarrow> (sync_error + nat) \<times> 'd sync_ctx" where
  "record_change_event ctx ids now_ms payload =
     (case (case Option.bind (jget payload ''entity'') jas_str of
              Some entity \<Rightarrow> require_sync_entity entity | None \<Rightarrow> Inr ()) of
        Inl e \<Rightarrow> (Inl e, ctx)
      | Inr _ \<Rightarrow>
          (case change_records_of_event payload of
             None \<Rightarrow> (Inr 0, ctx)
           | Some rs \<Rightarrow>
               (case record_changes ctx ids now_ms rs of
                  (Inl e, ctx1) \<Rightarrow> (Inl e, ctx1)
                | (Inr _, ctx1) \<Rightarrow> (Inr (length rs), ctx1))))"

definition restore_conflict_with ::
    "'d sync_ctx \<Rightarrow> string \<Rightarrow> string \<Rightarrow> int \<Rightarrow> (sync_error + op_entry) \<times> 'd sync_ctx" where
  "restore_conflict_with ctx new_id cid now_ms =
     (case find_conflict (sc_log ctx) cid of
        None \<Rightarrow> (Inl (SyncApply cid), ctx)
      | Some entry \<Rightarrow>
          (case applier_for ctx (ce_entity entry) of
             Inl e \<Rightarrow> (Inl e, ctx)
           | Inr ap \<Rightarrow>
               (case (if conflict_is_delete entry
                      then ap_delete ap (sc_data ctx) (ce_entity entry) (ce_entity_id entry)
                      else ap_upsert ap (sc_data ctx) (ce_entity entry) (ce_entity_id entry)
                             (ce_lost_value entry)) of
                  (Inl e, d') \<Rightarrow> (Inl e, ctx\<lparr>sc_data := d'\<rparr>)
                | (Inr _, d') \<Rightarrow>
                    (let (op, olog') = record_local (sc_log ctx) new_id (ce_entity entry)
                           (ce_entity_id entry) (ce_lost_value entry) (sc_self ctx) now_ms
                     in (Inr op, ctx\<lparr>sc_data := d', sc_log := olog'\<rparr>)))))"

end
