(* ===== verification/Sync_Protocol.thy ===== *)
theory Sync_Protocol
  imports Sync_Session
begin

text \<open>
  What a session achieves.  \<open>honest_peer\<close> is the contract the push loop needs of
  the other side: it answers a batch with the newest timestamp of that batch and
  takes every change of it into account.  The responder of \<open>Sync_Session\<close> keeps
  the contract, so the loop's completeness is a fact about two devices.
\<close>

section \<open>Batches\<close>

lemma max_ts_sorted: "xs \<noteq> [] \<Longrightarrow> sorted (map op_ts xs) \<Longrightarrow> max_ts xs = op_ts (last xs)"
proof -
  have "sorted (map op_ts (e # es)) \<Longrightarrow> foldl max (op_ts e) (map op_ts es) = op_ts (last (e # es))" for e es
    by (induction es arbitrary: e) (auto simp: max_absorb2)
  from this [of "hd xs" "tl xs"]
  show "xs \<noteq> [] \<Longrightarrow> sorted (map op_ts xs) \<Longrightarrow> max_ts xs = op_ts (last xs)"
    by (cases xs) (simp_all only: max_ts_def list.case list.sel)
qed

lemma filter_after_last:
  assumes "sorted_wrt (<) (map f (ys @ zs))" and "ys \<noteq> []"
  shows "filter (\<lambda>e. f (last ys) < (f e :: int)) (ys @ zs) = zs"
proof -
  have "\<forall>e\<in>set ys. f e \<le> f (last ys)"
  proof -
    obtain us u where ys: "ys = us @ [u]" using assms(2) by (cases ys rule: rev_cases) auto
    show ?thesis using assms(1) by (auto simp: ys sorted_wrt_append)
  qed
  moreover have "\<forall>e\<in>set zs. f (last ys) < f e"
    using assms last_in_set [OF assms(2)] by (auto simp: sorted_wrt_append)
  ultimately have "filter (\<lambda>e. f (last ys) < f e) ys = []" "filter (\<lambda>e. f (last ys) < f e) zs = zs"
    by (auto simp: filter_empty_conv filter_id_conv)
  then show ?thesis by simp
qed

definition pending :: "op_log \<Rightarrow> string \<Rightarrow> int \<Rightarrow> op_entry list" where
  "pending l device ts = sort_key op_ts (filter (\<lambda>e. op_device e = device \<and> ts < op_ts e) (ol_rows l))"

lemma ops_of_device_pending: "ops_of_device l d ts n = take n (pending l d ts)"
  by (simp add: ops_of_device_def pending_def)

lemma pending_sorted: "sorted (map op_ts (pending l d ts))"
  by (simp add: pending_def)

lemma pending_later: "s \<le> t \<Longrightarrow> pending l d t = filter (\<lambda>e. t < op_ts e) (pending l d s)"
  by (auto simp: pending_def filter_sort_key intro!: arg_cong [where f = "sort_key op_ts"] filter_cong)

lemma rows_set_push [simp]: "ol_rows (set_push_cursor l p t) = ol_rows l"
  by (simp add: set_push_cursor_def)

lemma pending_set_push [simp]: "pending (set_push_cursor l p t) d s = pending l d s"
  by (simp add: pending_def set_push_cursor_def)

lemma cursor_set_push [simp]: "cursor (set_push_cursor l p t) d = cursor l d"
  by (simp add: cursor_def set_push_cursor_def)

section \<open>The push loop against an honest peer\<close>

locale honest_peer =
  fixes ch :: "'p channel"
    and absorbed :: "'p \<Rightarrow> op_entry set \<Rightarrow> bool"
    and ready :: "'p \<Rightarrow> bool"
    and closed :: "'p \<Rightarrow> bool"
    and okop :: "op_entry \<Rightarrow> bool"
  assumes answers: "ready p \<Longrightarrow> absorbed p S \<Longrightarrow> \<forall>e\<in>set ops. okop e \<Longrightarrow>
    \<exists>p1 p2 a l. ch_write ch p (Push ops mo) = (Inr (), p1)
      \<and> ch_read ch p1 = (Inr (Ack (max_ts ops) a l), p2)
      \<and> absorbed p2 (S \<union> set ops) \<and> (if mo then ready p2 else closed p2)"
begin

lemma push_loop_complete:
  assumes "ready p" and "absorbed p S" and "0 < limit" and "0 \<le> cur" and "push_cursor olog peer = cur"
    and "\<forall>e\<in>set (pending olog self cur). okop e" and "distinct (map op_ts (pending olog self cur))"
  shows "\<exists>olog' sm' p'. push_loop ch limit self peer cur olog sm p = (Inr (), olog', sm', p')
    \<and> absorbed p' (S \<union> set (pending olog self cur)) \<and> closed p'
    \<and> ol_rows olog' = ol_rows olog \<and> (\<forall>d. cursor olog' d = cursor olog d)
    \<and> pending olog' self (push_cursor olog' peer) = []
    \<and> sm_pushed sm' = sm_pushed sm + length (pending olog self cur)"
  using assms
proof (induction "nat (newest_ts olog - cur)" arbitrary: cur olog sm p S rule: less_induct)
  case less
  let ?all = "pending olog self cur"
  define raw where "raw = take limit ?all"
  define mo where "mo = (length raw = limit)"
  have okraw: "\<forall>e\<in>set raw. okop e" using less.prems(6) by (auto simp: raw_def dest: in_set_takeD)
  obtain p1 p2 a l where w: "ch_write ch p (Push raw mo) = (Inr (), p1)"
    and r: "ch_read ch p1 = (Inr (Ack (max_ts raw) a l), p2)"
    and ab: "absorbed p2 (S \<union> set raw)" and rd: "if mo then ready p2 else closed p2"
    using answers [OF less.prems(1,2) okraw, of mo] by blast
  let ?olog' = "set_push_cursor olog peer (max_ts raw)"
  let ?sm' = "sm\<lparr>sm_pushed := sm_pushed sm + length raw\<rparr>"
  have unfold: "push_loop ch limit self peer cur olog sm p =
      (if max_ts raw \<le> cur \<or> \<not> mo then (Inr (), ?olog', ?sm', p2)
       else push_loop ch limit self peer (push_cursor ?olog' peer) ?olog' ?sm' p2)"
    using less.prems(3)
    by (subst push_loop.simps)
      (simp add: ops_of_device_pending raw_def [symmetric] plan_push_def mo_def [symmetric] w r Let_def)
  have strict: "sorted_wrt (<) (map op_ts ?all)"
    using less.prems(7) pending_sorted strict_sorted_iff by blast
  have rawsorted: "sorted (map op_ts raw)"
    using pending_sorted [of olog self cur] by (simp add: raw_def take_map [symmetric] sorted_wrt_take)
  have rawnew: "cur < op_ts e" if "e \<in> set raw" for e
    using that by (auto simp: raw_def pending_def dest: in_set_takeD)
  have nonneg: "0 \<le> max_ts raw"
    using rawnew [of "last raw"] max_ts_sorted [OF _ rawsorted] less.prems(4)
    by (cases "raw = []") (auto simp: max_ts_def [of "[]"])
  have step: "push_cursor ?olog' peer = max cur (max_ts raw)"
    using nonneg less.prems(5) by (simp add: outbound.get_put)
  have last_pending: "pending olog self (max cur (max_ts xs)) = []" if "xs = ?all" for xs
  proof -
    have "op_ts e \<le> max_ts xs" if e: "e \<in> set xs" for e
    proof -
      have "xs \<noteq> []" using e by auto
      moreover have "op_ts e \<le> op_ts (last xs)"
        using e pending_sorted [of olog self cur] \<open>xs = ?all\<close> by (simp add: sorted_map_le_last)
      ultimately show ?thesis using max_ts_sorted [of xs] pending_sorted \<open>xs = ?all\<close> by simp
    qed
    then show ?thesis
      using pending_later [of cur "max cur (max_ts xs)" olog self] \<open>xs = ?all\<close>
      by (force simp: filter_empty_conv)
  qed
  show ?case
  proof (cases mo)
    case False
    then have all: "raw = ?all" using less.prems(3) by (auto simp: mo_def raw_def min_def split: if_splits)
    have "pending olog self (push_cursor ?olog' peer) = []"
      using last_pending [OF all] by (simp add: step)
    then show ?thesis using ab all rd \<open>\<not> mo\<close> by (simp add: unfold)
  next
    case True
    then have ne: "raw \<noteq> []" using less.prems(3) by (auto simp: mo_def)
    have all: "?all = raw @ drop limit ?all" by (simp add: raw_def)
    have mx: "max_ts raw = op_ts (last raw)" "cur < op_ts (last raw)"
      using max_ts_sorted [OF ne rawsorted] rawnew ne by auto
    then have nxt: "push_cursor ?olog' peer = op_ts (last raw)" using step by simp
    have rest: "pending olog self (op_ts (last raw)) = drop limit ?all"
      using filter_after_last [of op_ts raw "drop limit ?all"] strict ne all mx(2)
        pending_later [of cur "op_ts (last raw)" olog self] by simp
    have mem: "last raw \<in> set (ol_rows olog)"
      using last_in_set [OF ne] by (auto simp: raw_def pending_def dest: in_set_takeD)
    have nts: "newest_ts ?olog' = newest_ts olog" by (simp add: newest_ts_def set_push_cursor_def)
    have shrink: "nat (newest_ts ?olog' - op_ts (last raw)) < nat (newest_ts olog - cur)"
      using mx(2) newest_ts_ge [OF mem] by (simp add: nts)
    have "\<forall>e\<in>set (drop limit ?all). okop e" "distinct (map op_ts (drop limit ?all))"
      using less.prems(6,7) by (auto dest: in_set_dropD simp flip: drop_map)
    then have "\<exists>olog'' sm'' p''.
        push_loop ch limit self peer (op_ts (last raw)) ?olog' ?sm' p2 = (Inr (), olog'', sm'', p'')
        \<and> absorbed p'' (S \<union> set raw \<union> set (drop limit ?all)) \<and> closed p'' \<and> ol_rows olog'' = ol_rows ?olog'
        \<and> (\<forall>d. cursor olog'' d = cursor ?olog' d)
        \<and> pending olog'' self (push_cursor olog'' peer) = []
        \<and> sm_pushed sm'' = sm_pushed ?sm' + length (drop limit ?all)"
      using less.hyps [OF shrink, of p2 "S \<union> set raw" ?sm'] rd True ab less.prems(3,4) nxt mx
      by (simp add: rest)
    then obtain olog'' sm'' p'' where
      run: "push_loop ch limit self peer (op_ts (last raw)) ?olog' ?sm' p2 = (Inr (), olog'', sm'', p'')"
      and ab': "absorbed p'' (S \<union> set raw \<union> set (drop limit ?all))" "closed p''"
      and fin: "ol_rows olog'' = ol_rows olog" "\<forall>d. cursor olog'' d = cursor olog d"
        "pending olog'' self (push_cursor olog'' peer) = []"
      and sm'': "sm_pushed sm'' = sm_pushed ?sm' + length (drop limit ?all)"
      by auto
    have sets: "S \<union> set raw \<union> set (drop limit ?all) = S \<union> set ?all"
      unfolding raw_def by (metis append_take_drop_id set_append Un_assoc)
    have len: "length raw + length (drop limit ?all) = length ?all"
      unfolding raw_def by (metis append_take_drop_id length_append)
    have "push_loop ch limit self peer cur olog sm p = (Inr (), olog'', sm'', p'')"
      using True mx run nxt by (simp add: unfold)
    moreover have "sm_pushed sm'' = sm_pushed sm + length ?all"
      using sm'' len by simp
    ultimately show ?thesis using ab' fin unfolding sets by blast
  qed
qed

end


section \<open>The responder is an honest peer\<close>

lemma tracks_rows: "ol_rows l = ol_rows l' \<Longrightarrow> oplog.tracks l S \<longleftrightarrow> oplog.tracks l' S"
  by (simp add: oplog.tracks_def latest_of_key_eq)

lemma agrees_rows: "ol_rows l = ol_rows l' \<Longrightarrow> note_set.agrees base l d \<longleftrightarrow> note_set.agrees base l' d"
  by (simp add: note_set.agrees_def latest_of_key_eq)

lemma rows_record_conflict [simp]: "ol_rows (record_conflict l c) = ol_rows l"
  by (simp add: record_conflict_def)

lemma settle_cursor_frame [simp]:
  "ol_rows (sc_log (settle_cursor ctx p t)) = ol_rows (sc_log ctx)"
  "sc_data (settle_cursor ctx p t) = sc_data ctx"
  "sc_appliers (settle_cursor ctx p t) = sc_appliers ctx"
  "sc_self (settle_cursor ctx p t) = sc_self ctx"
  by (simp_all add: settle_cursor_def set_cursor_def)

lemma note_lost_frame [simp]:
  "ol_rows (sc_log (note_lost env ctx e)) = ol_rows (sc_log ctx)"
  "sc_data (note_lost env ctx e) = sc_data ctx"
  "sc_appliers (note_lost env ctx e) = sc_appliers ctx"
  "sc_self (note_lost env ctx e) = sc_self ctx"
  by (simp_all add: note_lost_def Let_def)

text \<open>What a device that serves notes keeps during a batch.\<close>

definition serves_notes :: "'m row_of \<Rightarrow> ('m \<Rightarrow> string) \<Rightarrow> 'm note_lib option sync_ctx \<Rightarrow> bool" where
  "serves_notes row_of title_of ctx \<longleftrightarrow>
     sc_appliers ctx = [(entity_note, notes_applier row_of title_of)] \<and> notes_ok (sc_data ctx)"

definition has_merged ::
    "(string \<times> string \<Rightarrow> string option) \<Rightarrow> 'm note_lib option sync_ctx \<Rightarrow> op_entry set \<Rightarrow> bool" where
  "has_merged base ctx S \<longleftrightarrow>
     oplog.tracks (sc_log ctx) S \<and> note_set.agrees base (sc_log ctx) (sc_data ctx)"

definition own_rows :: "string \<Rightarrow> op_log \<Rightarrow> op_entry list" where
  "own_rows dev l = filter (\<lambda>e. op_device e = dev) (ol_rows l)"

lemma own_rows_frame [simp]:
  "own_rows dev (sc_log (settle_cursor ctx p t)) = own_rows dev (sc_log ctx)"
  "own_rows dev (sc_log (note_lost env ctx e)) = own_rows dev (sc_log ctx)"
  by (simp_all add: own_rows_def)

lemma pending_own_rows: "own_rows dev l = own_rows dev l' \<Longrightarrow> pending l dev s = pending l' dev s"
proof -
  have "filter (\<lambda>e. op_device e = dev \<and> s < op_ts e) (ol_rows l)
      = filter (\<lambda>e. s < op_ts e) (own_rows dev l)" for l
    by (simp add: own_rows_def conj_commute)
  then show "own_rows dev l = own_rows dev l' \<Longrightarrow> pending l dev s = pending l' dev s"
    by (simp add: pending_def)
qed

lemma apply_remote_own_rows:
  "apply_remote ap l d e = (r, l', d') \<Longrightarrow> op_device e \<noteq> dev \<Longrightarrow> own_rows dev l' = own_rows dev l"
  by (auto simp: own_rows_def apply_remote_eq append_op_def
      split: option.splits if_splits prod.splits sum.splits)

lemma apply_ops_loop_merges:
  assumes "serves_notes row_of title_of ctx" and "has_merged base ctx S"
    and "consistent_ops (S \<union> set ops)" and "\<forall>e\<in>set ops. note_key (op_key e)"
  shows "\<exists>res ctx'. apply_ops_loop env peer (a, l, c, t) ctx ops = (Inr res, ctx')
    \<and> serves_notes row_of title_of ctx' \<and> has_merged base ctx' (S \<union> set ops)
    \<and> sc_self ctx' = sc_self ctx \<and> ((\<forall>e\<in>set ops. op_device e \<noteq> dev) \<longrightarrow> own_rows dev (sc_log ctx') = own_rows dev (sc_log ctx))"
  using assms
proof (induction ops arbitrary: ctx S a l c t)
  case Nil
  then show ?case
    by (simp add: serves_notes_def has_merged_def tracks_rows [OF settle_cursor_frame(1)]
        agrees_rows [OF settle_cursor_frame(1)])
next
  case (Cons e ops)
  let ?ap = "notes_applier row_of title_of"
  have key: "note_key (op_key e)" "op_entity e = entity_note"
    using Cons.prems(4) by (auto simp: note_key_def op_key_def)
  have ok: "notes_ok (sc_data ctx)" and ap: "applier_for ctx (op_entity e) = Inr ?ap"
    using Cons.prems(1) key(2) by (auto simp: serves_notes_def applier_for_def)
  obtain r olog' d' where r: "apply_remote ?ap (sc_log ctx) (sc_data ctx) e = (Inr r, olog', d')"
    and ok': "notes_ok d'"
    using apply_remote_notes_ok [OF ok key(1)] by blast
  have grow: "op_device e \<noteq> dev \<longrightarrow> own_rows dev olog' = own_rows dev (sc_log ctx)"
    using apply_remote_own_rows [OF r] by blast
  have c: "consistent_ops (insert e S)" using Cons.prems(3) by (rule consistent_ops_subset) auto
  let ?ctx = "ctx\<lparr>sc_log := olog', sc_data := d'\<rparr>"
  have m: "oplog.tracks olog' (insert e S)" "note_set.agrees base olog' d'"
    using note_set.apply_remote_step [OF r _ c] Cons.prems(2) key(1) notes_ok_removable [OF ok]
    by (auto simp: has_merged_def)
  have s1: "serves_notes row_of title_of ?ctx" "has_merged base ?ctx (insert e S)"
    using Cons.prems(1) ok' m by (auto simp: serves_notes_def has_merged_def)
  have s2: "serves_notes row_of title_of (note_lost env ?ctx e)"
    "has_merged base (note_lost env ?ctx e) (insert e S)"
    using s1 by (simp_all add: serves_notes_def has_merged_def tracks_rows [OF note_lost_frame(1)]
        agrees_rows [OF note_lost_frame(1)])
  have cons': "consistent_ops (insert e S \<union> set ops)" "\<forall>e\<in>set ops. note_key (op_key e)"
    using Cons.prems(3,4) by simp_all
  have u: "S \<union> set (e # ops) = insert e S \<union> set ops" by simp
  show ?case
  proof (cases r)
    case LostLww
    with Cons.IH [OF s2 cons', of a "l + 1" "c + 1" "max t (op_ts e)"] show ?thesis
      using grow unfolding u by (fastforce simp: ap r)
  next
    case Applied
    with Cons.IH [OF s1 cons', of "a + 1" l c "max t (op_ts e)"] show ?thesis
      using grow unfolding u by (fastforce simp: ap r)
  next
    case Noop
    with Cons.IH [OF s1 cons', of a l c "max t (op_ts e)"] show ?thesis
      using grow unfolding u by (fastforce simp: ap r)
  qed
qed

definition resp_absorbed ::
    "op_entry set \<Rightarrow> 'm note_lib option sync_ctx \<Rightarrow> (string \<times> string \<Rightarrow> string option)
       \<Rightarrow> 'm note_lib option resp_chan \<Rightarrow> op_entry set \<Rightarrow> bool" where
  "resp_absorbed U ctx0 base p S \<longleftrightarrow>
     S \<subseteq> U \<and> has_merged base (rp_ctx (fst p)) S \<and> sc_self (rp_ctx (fst p)) = sc_self ctx0
     \<and> own_rows (sc_self ctx0) (sc_log (rp_ctx (fst p))) = own_rows (sc_self ctx0) (sc_log ctx0)"

definition resp_in_phase ::
    "resp_phase \<Rightarrow> op_entry set \<Rightarrow> 'm row_of \<Rightarrow> ('m \<Rightarrow> string) \<Rightarrow> 'm note_lib option resp_chan \<Rightarrow> bool" where
  "resp_in_phase ph U row_of title_of p \<longleftrightarrow>
     consistent_ops U \<and> rp_phase (fst p) = ph \<and> snd p = []
     \<and> serves_notes row_of title_of (rp_ctx (fst p))"

interpretation resp: honest_peer "resp_channel env limit peer_key" "resp_absorbed U ctx0 base"
    "resp_in_phase AwaitPush U row_of title_of" "resp_in_phase AwaitPull U row_of title_of"
    "\<lambda>e. e \<in> U \<and> note_key (op_key e) \<and> op_device e \<noteq> sc_self ctx0"
  for env limit peer_key U ctx0 base and row_of :: "'m row_of" and title_of
proof unfold_locales
  fix p :: "'m note_lib option resp_chan" and S ops mo
  assume a: "resp_in_phase AwaitPush U row_of title_of p" "resp_absorbed U ctx0 base p S"
    "\<forall>e\<in>set ops. e \<in> U \<and> note_key (op_key e) \<and> op_device e \<noteq> sc_self ctx0"
  obtain r q where p: "p = (r, q)" by (cases p)
  have c: "consistent_ops (S \<union> set ops)"
  proof (rule consistent_ops_subset)
    show "consistent_ops U" using a(1) unfolding resp_in_phase_def by blast
    show "S \<union> set ops \<subseteq> U" using a(2,3) unfolding resp_absorbed_def by blast
  qed
  have start: "serves_notes row_of title_of (rp_ctx r)" "has_merged base (rp_ctx r) S"
    "\<forall>e\<in>set ops. note_key (op_key e)"
    using a unfolding resp_in_phase_def resp_absorbed_def p fst_conv by blast+
  obtain res ctx' where run0: "apply_ops env (rp_ctx r) ops peer_key = (Inr res, ctx')"
    and s: "serves_notes row_of title_of ctx'" "has_merged base ctx' (S \<union> set ops)"
      "sc_self ctx' = sc_self (rp_ctx r)"
      "own_rows (sc_self ctx0) (sc_log ctx') = own_rows (sc_self ctx0) (sc_log (rp_ctx r))"
    using apply_ops_loop_merges [OF start(1,2) c start(3), where dev = "sc_self ctx0"] a(3)
    unfolding apply_ops_def by blast
  obtain ap lo co where run: "apply_ops env (rp_ctx r) ops peer_key = (Inr (ap, lo, co), ctx')"
    using run0 by (cases res) auto
  have ph: "rp_phase r = AwaitPush" "q = []"
    using a(1) unfolding resp_in_phase_def p fst_conv snd_conv by blast+
  define r' where "r' = fst (responder_step env limit peer_key r (Push ops mo))"
  have step: "responder_step env limit peer_key r (Push ops mo) = (r', [Ack (max_ts ops) ap lo])"
    and r': "rp_ctx r' = ctx'" "rp_phase r' = (if mo then AwaitPush else AwaitPull)"
    by (simp_all add: r'_def responder_step_def ph run Let_def)
  have "ch_write (resp_channel env limit peer_key) p (Push ops mo) = (Inr (), r', [Ack (max_ts ops) ap lo])"
    using step by (simp add: resp_channel_def resp_write_def p ph)
  moreover have "ch_read (resp_channel env limit peer_key) (r', [Ack (max_ts ops) ap lo])
      = (Inr (Ack (max_ts ops) ap lo), r', [])"
    by (simp add: resp_channel_def resp_read_def)
  moreover have "resp_absorbed U ctx0 base (r', []) (S \<union> set ops)"
    using a(2,3) s unfolding resp_absorbed_def r' p fst_conv by fastforce
  moreover have "if mo then resp_in_phase AwaitPush U row_of title_of (r', [])
      else resp_in_phase AwaitPull U row_of title_of (r', [])"
    using a(1) s(1) by (simp add: resp_in_phase_def r')
  ultimately show "\<exists>p1 p2 aa l. ch_write (resp_channel env limit peer_key) p (Push ops mo) = (Inr (), p1)
      \<and> ch_read (resp_channel env limit peer_key) p1 = (Inr (Ack (max_ts ops) aa l), p2)
      \<and> resp_absorbed U ctx0 base p2 (S \<union> set ops)
      \<and> (if mo then resp_in_phase AwaitPush U row_of title_of p2
         else resp_in_phase AwaitPull U row_of title_of p2)"
    by blast
qed


section \<open>A whole session\<close>

lemma pending_device: "e \<in> set (pending l d s) \<Longrightarrow> op_device e = d \<and> e \<in> set (ol_rows l)"
  by (auto simp: pending_def)

lemma merged_views_agree:
  assumes "has_merged base c S" and "has_merged base c' S" and "consistent_ops S"
  shows "notes_view (sc_data c) = notes_view (sc_data c')"
  using assms oplog.tracks_unique [OF assms(3), of "sc_log c" "sc_log c'"]
  by (auto simp: has_merged_def note_set.agrees_def)

text \<open>C1. A complete session leaves both devices with the same notes.  The devices have different ids, and
  each holds the notes of one common base with a set of changes of \<open>.md\<close> notes merged into it (notes that
  differ without a recorded change are not reached: nothing records what was there before
  synchronising began); in the two sets no change has the id, or the note, timestamp and device, of
  another.  The changes a side lacks are the other side's own ones newer than the cursors, those to push
  carry distinct timestamps, those to pull fit one batch, the push cursor is not negative, and both
  note libraries are healthy.  Then the initiator's run against the responder succeeds, and afterwards
  both devices have merged the union and their note files are equal.\<close>

theorem session_converges:
  fixes ctxA ctxB :: "'m note_lib option sync_ctx"
  assumes "serves_notes row_of title_of ctxA" and "serves_notes row_of title_of ctxB"
    and "has_merged base ctxA SA" and "has_merged base ctxB SB"
    and "sc_self ctxA \<noteq> sc_self ctxB"
    and "consistent_ops (SA \<union> SB)" and "\<forall>e\<in>SA \<union> SB. note_key (op_key e)"
    and "0 \<le> push_cursor (sc_log ctxA) (sc_self ctxB)"
    and "SA \<subseteq> SB \<union> set (pending (sc_log ctxA) (sc_self ctxA) (push_cursor (sc_log ctxA) (sc_self ctxB)))"
    and "SB \<subseteq> SA \<union> set (pending (sc_log ctxB) (sc_self ctxB) (cursor (sc_log ctxA) (sc_self ctxB)))"
    and "distinct (map op_ts (pending (sc_log ctxA) (sc_self ctxA) (push_cursor (sc_log ctxA) (sc_self ctxB))))"
    and "length (pending (sc_log ctxB) (sc_self ctxB) (cursor (sc_log ctxA) (sc_self ctxB))) \<le> batch_limit"
  shows "\<exists>ctxA' sm' r'.
    run_initiator env (resp_channel env batch_limit (sc_self ctxA)) batch_limit ctxA (sc_self ctxB)
      summary_default (responder_init ctxB, []) = (Inr (), ctxA', sm', r', [])
    \<and> rp_phase r' = RespDone
    \<and> has_merged base ctxA' (SA \<union> SB) \<and> has_merged base (rp_ctx r') (SA \<union> SB)
    \<and> notes_view (sc_data ctxA') = notes_view (sc_data (rp_ctx r'))"
proof -
  let ?a = "sc_self ctxA" and ?b = "sc_self ctxB" and ?U = "SA \<union> SB"
  let ?ch = "resp_channel env batch_limit ?a"
  let ?P = "pending (sc_log ctxA) ?a (push_cursor (sc_log ctxA) ?b)"
  let ?Q = "pending (sc_log ctxB) ?b (cursor (sc_log ctxA) ?b)"
  have rowsA: "set (ol_rows (sc_log ctxA)) \<subseteq> SA" and rowsB: "set (ol_rows (sc_log ctxB)) \<subseteq> SB"
    using assms(3,4) by (simp_all add: has_merged_def oplog.tracks_def)
  have PQ: "set ?P \<subseteq> SA" "set ?Q \<subseteq> SB"
    using rowsA rowsB pending_device by blast+
  then have U: "SB \<union> set ?P = ?U" "SA \<union> set ?Q = ?U"
    using assms(9,10) by blast+
  have start: "resp_in_phase AwaitPush ?U row_of title_of (responder_init ctxB, [])"
    "resp_absorbed ?U ctxB base (responder_init ctxB, []) SB"
    using assms(2,4,6) by (auto simp: resp_in_phase_def resp_absorbed_def responder_init_def)
  have okP: "\<forall>e\<in>set ?P. e \<in> ?U \<and> note_key (op_key e) \<and> op_device e \<noteq> ?b"
  proof
    fix e assume e: "e \<in> set ?P"
    then have "e \<in> ?U" using PQ(1) by blast
    moreover have "op_device e = ?a" using e by (simp add: pending_def)
    ultimately show "e \<in> ?U \<and> note_key (op_key e) \<and> op_device e \<noteq> ?b"
      using assms(5,7) by auto
  qed
  have lim: "0 < batch_limit" by (simp add: batch_limit_def)
  obtain logA' sm1 p1 where
    push: "push_loop ?ch batch_limit ?a ?b (push_cursor (sc_log ctxA) ?b) (sc_log ctxA)
      summary_default (responder_init ctxB, []) = (Inr (), logA', sm1, p1)"
    and ab: "resp_absorbed ?U ctxB base p1 (SB \<union> set ?P)"
    and ph: "resp_in_phase AwaitPull ?U row_of title_of p1"
    and logA': "ol_rows logA' = ol_rows (sc_log ctxA)" "\<forall>d. cursor logA' d = cursor (sc_log ctxA) d"
    using resp.push_loop_complete [OF start lim assms(8) refl okP assms(11),
        where sm = summary_default and env = env and peer_key = ?a and limita = batch_limit]
    by (elim exE conjE)
  obtain r1 where p1: "p1 = (r1, [])" and r1: "rp_phase r1 = AwaitPull"
    using ph unfolding resp_in_phase_def by (cases p1) auto
  have b1: "has_merged base (rp_ctx r1) ?U" "sc_self (rp_ctx r1) = ?b"
    "pending (sc_log (rp_ctx r1)) ?b s = pending (sc_log ctxB) ?b s" for s
    using ab U(1) pending_own_rows [of ?b "sc_log (rp_ctx r1)" "sc_log ctxB" s]
    by (simp_all add: resp_absorbed_def p1)
  let ?c1 = "ctxA\<lparr>sc_log := logA'\<rparr>"
  have served: "ops_of_device (sc_log (rp_ctx r1)) ?b (cursor logA' ?b) batch_limit = ?Q"
    using assms(12) by (simp add: ops_of_device_pending b1 logA')
  have a1: "serves_notes row_of title_of ?c1" "has_merged base ?c1 SA"
    using assms(1,3)
    by (simp_all add: serves_notes_def has_merged_def tracks_rows [OF logA'(1)] agrees_rows [OF logA'(1)])
  have cQ: "consistent_ops (SA \<union> set ?Q)" "\<forall>e\<in>set ?Q. note_key (op_key e)"
    using assms(6,7) PQ(2) U(2) by auto
  obtain res ctxA' where pull: "apply_ops env ?c1 ?Q ?b = (Inr res, ctxA')"
    and a2: "has_merged base ctxA' (SA \<union> set ?Q)"
    using apply_ops_loop_merges [OF a1 cQ] unfolding apply_ops_def by blast
  obtain ap lo co where res: "res = (ap, lo, co)" by (cases res)
  let ?r2 = "r1\<lparr>rp_phase := AwaitAck,
      rp_summary := rp_summary r1\<lparr>sm_pushed := sm_pushed (rp_summary r1) + length ?Q\<rparr>\<rparr>"
  let ?r3 = "?r2\<lparr>rp_phase := RespDone,
      rp_ctx := rp_ctx r1\<lparr>sc_log := set_push_cursor (sc_log (rp_ctx r1)) ?a (max_ts ?Q)\<rparr>\<rparr>"
  have w1: "ch_write ?ch p1 (Pull (cursor logA' ?b)) = (Inr (), ?r2, [Push ?Q False])"
    by (simp add: resp_channel_def resp_write_def responder_step_def p1 r1 b1 served Let_def)
  have rd: "ch_read ?ch (?r2, [Push ?Q False]) = (Inr (Push ?Q False), ?r2, [])"
    by (simp add: resp_channel_def resp_read_def)
  have w2: "ch_write ?ch (?r2, []) (Ack (max_ts ?Q) ap lo) = (Inr (), ?r3, [])"
    by (simp add: resp_channel_def resp_write_def responder_step_def Let_def)
  have some: "sc_appliers ctxA \<noteq> []" using assms(1) by (simp add: serves_notes_def)
  have run: "\<exists>sm'. run_initiator env ?ch batch_limit ctxA ?b summary_default (responder_init ctxB, [])
      = (Inr (), ctxA', sm', ?r3, [])"
    using some by (simp add: run_initiator_def push Let_def w1 rd pull res w2)
  have b3: "has_merged base (rp_ctx ?r3) ?U"
    using b1(1) by (simp add: has_merged_def tracks_rows [OF rows_set_push] agrees_rows [OF rows_set_push])
  have "has_merged base ctxA' ?U" using a2 U(2) by simp
  with run b3 merged_views_agree [OF this b3 assms(6)] show ?thesis
    by (intro exI [of _ ctxA'] exI [of _ ?r3]) auto
qed

definition demo_device :: "string \<Rightarrow> op_entry \<Rightarrow> unit note_lib option sync_ctx" where
  "demo_device self e =
     \<lparr>sc_self = self, sc_log = append_op op_log_empty e,
      sc_appliers = [(entity_note, demo_applier)],
      sc_data = snd (notes_upsert (\<lambda>_ _ _. ()) (Some demo_lib) entity_note ''a.md'' (op_value e)),
      sc_conflict_events = []\<rparr>"

definition demo_env :: host_env where
  "demo_env = \<lparr>env_sha256 = (\<lambda>b. replicate 32 0), env_clock = (\<lambda>_. 0)\<rparr>"

lemma demo_keys:
  "note_key (entity_note, ''a.md'')" "op_key (demo_note_op i t d x) = (entity_note, ''a.md'')"
  by code_simp (simp add: op_key_def demo_note_op_def)

lemma demo_device_serves: "serves_notes (\<lambda>_ _ _. ()) (\<lambda>_. []) (demo_device self (demo_note_op i t d x))"
proof -
  let ?v = "op_value (demo_note_op i t d x)"
  have "notes_ok (Some demo_lib)" by (simp add: notes_ok_def lib_ok_def demo_lib_def)
  then obtain d' where "notes_upsert (\<lambda>_ _ _. ()) (Some demo_lib) entity_note ''a.md'' ?v = (Inr (), d')"
    "notes_ok d'"
    using notes_upsert_ok [OF _ demo_keys(1)] by blast
  then show ?thesis by (simp add: serves_notes_def demo_device_def demo_applier_def)
qed

lemma demo_device_merged:
  "has_merged (\<lambda>_. None) (demo_device self (demo_note_op i t d x)) {demo_note_op i t d x}"
proof -
  let ?e = "demo_note_op i t d x"
  have ok: "notes_ok (Some demo_lib)" by (simp add: notes_ok_def lib_ok_def demo_lib_def)
  obtain d' where up: "notes_upsert (\<lambda>_ _ _. ()) (Some demo_lib) entity_note ''a.md'' (op_value ?e) = (Inr (), d')"
    using notes_upsert_ok [OF ok demo_keys(1)] by blast
  have view: "notes_view d' = (notes_view (Some demo_lib))((entity_note, ''a.md'') \<mapsto> snapshot_content (op_value ?e))"
    using notes_upsert_view [OF demo_keys(1) up notes_ok_removable [OF ok]] by blast
  have empty: "notes_view (Some demo_lib) k = None" for k
    by (simp add: notes_view_def demo_lib_def)
  have log: "latest_of_key (append_op op_log_empty ?e) k
      = (if k = (entity_note, ''a.md'') then Some ?e else None)" for k
    by (auto simp: latest_of_key_eq demo_keys append_op_def op_log_empty_def)
  have "note_set.content ?e = Some (snapshot_content (op_value ?e))"
    by (simp add: note_set.content_def op_is_delete_def demo_note_op_def)
  moreover have "set (ol_rows (append_op op_log_empty ?e)) = {?e}"
    by (simp add: append_op_def op_log_empty_def)
  ultimately show ?thesis
    by (simp add: has_merged_def oplog.tracks_def note_set.agrees_def log view empty demo_device_def up
        demo_keys op_newer_def)
qed

theorem session_converges_witness:
  "let a = demo_device ''devA'' (demo_note_op ''1'' 10 ''devA'' ''x'');
       b = demo_device ''devB'' (demo_note_op ''2'' 20 ''devB'' ''y'')
   in \<exists>a' sm r. run_initiator demo_env (resp_channel demo_env batch_limit ''devA'') batch_limit a ''devB''
        summary_default (responder_init b, []) = (Inr (), a', sm, r, [])
      \<and> notes_view (sc_data a') = notes_view (sc_data (rp_ctx r))"
proof -
  let ?x = "demo_note_op ''1'' 10 ''devA'' ''x''" and ?y = "demo_note_op ''2'' 20 ''devB'' ''y''"
  let ?a = "demo_device ''devA'' ?x" and ?b = "demo_device ''devB'' ?y"
  have self: "sc_self ?a = ''devA''" "sc_self ?b = ''devB''" by (simp_all add: demo_device_def)
  have cur: "push_cursor (sc_log ?a) ''devB'' = 0" "cursor (sc_log ?a) ''devB'' = 0" by code_simp+
  have pend: "pending (sc_log ?a) ''devA'' 0 = [?x]" "pending (sc_log ?b) ''devB'' 0 = [?y]"
    by code_simp+
  have con: "consistent_ops ({?x} \<union> {?y})"
    by (auto simp: consistent_ops_def demo_note_op_def)
  have len: "(1::nat) \<le> batch_limit" by (simp add: batch_limit_def)
  have run: "\<exists>a' sm r. run_initiator demo_env (resp_channel demo_env batch_limit ''devA'') batch_limit ?a ''devB''
        summary_default (responder_init ?b, []) = (Inr (), a', sm, r, [])
      \<and> rp_phase r = RespDone \<and> has_merged (\<lambda>_. None) a' ({?x} \<union> {?y})
      \<and> has_merged (\<lambda>_. None) (rp_ctx r) ({?x} \<union> {?y})
      \<and> notes_view (sc_data a') = notes_view (sc_data (rp_ctx r))"
    by (rule session_converges [OF demo_device_serves demo_device_serves demo_device_merged
        demo_device_merged _ con, of "''devA''" "''devB''" demo_env, unfolded self cur pend])
      (use len in \<open>simp_all add: demo_keys\<close>)
  then show ?thesis unfolding Let_def by blast
qed

section \<open>What goes wrong at the limits\<close>

text \<open>A peer that records the batches it is sent and acknowledges each with its newest timestamp.\<close>

definition recorder :: "op_entry list list channel" where
  "recorder =
     \<lparr>ch_write = (\<lambda>p m. case m of Push ops _ \<Rightarrow> (Inr (), p @ [ops]) | _ \<Rightarrow> (Inl (SyncProto []), p)),
      ch_read = (\<lambda>p. (Inr (Ack (max_ts (last p)) 0 0), p))\<rparr>"

lemma max_ts_const: "es \<noteq> [] \<Longrightarrow> \<forall>e\<in>set es. op_ts e = ts \<Longrightarrow> max_ts es = ts"
  using max_ts_sorted [of es] last_in_set [of es] by (simp add: sorted_map sorted_wrt_iff_nth_less)

text \<open>A batch boundary inside one millisecond loses changes: when more than a batch of pending changes
  carry the same timestamp, the push loop sends one batch of them, reports success, and leaves the
  rest behind the cursor, so that no later run ever sends them.\<close>

lemma equal_timestamps_left_behind:
  assumes "0 < limit" and "limit < length (pending l dev cur)" and "\<forall>e\<in>set (pending l dev cur). op_ts e = ts"
    and "cur < ts" and "0 \<le> ts" and "push_cursor l peer = cur"
  shows "\<exists>l' sm' . push_loop recorder limit dev peer cur l sm [] = (Inr (), l', sm', [take limit (pending l dev cur), []])
    \<and> ops_of_device l' dev (push_cursor l' peer) limit = []"
proof -
  let ?p = "pending l dev cur" and ?l1 = "set_push_cursor l peer ts"
  have ne: "take limit ?p \<noteq> []" using assms(1,2) by auto
  have mx: "max_ts (take limit ?p) = ts"
    using assms(3) by (intro max_ts_const [OF ne]) (auto dest: in_set_takeD)
  have cur1: "push_cursor ?l1 peer = ts" using assms(4-6) by (simp add: outbound.get_put)
  have p1: "pending l dev ts = []"
    using pending_later [of cur ts l dev] assms(3,4) by (simp add: filter_empty_conv)
  have len: "length (take limit ?p) = limit" using assms(2) by simp
  have second: "push_loop recorder limit dev peer ts ?l1 sm' [take limit ?p]
      = (Inr (), set_push_cursor ?l1 peer 0, sm'\<lparr>sm_pushed := sm_pushed sm' + 0\<rparr>, [take limit ?p, []])" for sm'
    using assms(1,5)
    by (subst push_loop.simps)
      (simp add: ops_of_device_pending p1 plan_push_def recorder_def max_ts_def [of "[]"] Let_def)
  have cur2: "push_cursor (set_push_cursor ?l1 peer 0) peer = ts"
    using assms(5) cur1 by (simp add: outbound.get_put)
  have "\<exists>l' sm'. push_loop recorder limit dev peer cur l sm [] = (Inr (), l', sm', [take limit ?p, []])
      \<and> l' = set_push_cursor ?l1 peer 0"
    using assms(1,2,4)
    by (subst push_loop.simps)
      (simp add: ops_of_device_pending plan_push_def len min_def recorder_def mx Let_def cur1
        second [unfolded recorder_def])
  then show ?thesis by (auto simp: cur2 ops_of_device_pending p1)
qed

lemma equal_timestamps_left_behind_witness:
  "let mk = (\<lambda>i. demo_note_op i 10 ''devA'' i); l = op_log_empty\<lparr>ol_rows := [mk ''1'', mk ''2'', mk ''3'']\<rparr>
   in \<exists>l' sm'. push_loop recorder 2 ''devA'' ''devB'' 0 l summary_default [] = (Inr (), l', sm', [[mk ''1'', mk ''2''], []])
      \<and> ops_of_device l' ''devA'' (push_cursor l' ''devB'') 2 = []"
proof -
  let ?o = "\<lambda>i. demo_note_op i 10 ''devA'' i"
  let ?l = "op_log_empty\<lparr>ol_rows := [?o ''1'', ?o ''2'', ?o ''3'']\<rparr>"
  have p: "pending ?l ''devA'' 0 = [?o ''1'', ?o ''2'', ?o ''3'']" by code_simp
  have ts: "op_ts (?o i) = 10" for i by (simp add: demo_note_op_def)
  have "push_cursor ?l ''devB'' = 0" by code_simp
  then show ?thesis
    using equal_timestamps_left_behind [of 2 ?l "''devA''" 0 10 "''devB''" summary_default]
    unfolding Let_def p by (simp add: ts numeral_2_eq_2)
qed

text \<open>The longest retention keeps nothing: a retention of \<open>2 ^ 64 - 1\<close> days passes validation, its
  conversion to milliseconds wraps to minus one day, and applying the configuration deletes every
  recorded conflict at once.\<close>

lemma longest_retention_prunes_all:
  assumes "0 \<le> now_ms" and "now_ms < 2 ^ 62" and "\<forall>c\<in>set (ol_conflicts l). ce_recorded_ms c \<le> now_ms"
  shows "\<exists>cfg'. sync_apply_config now_ms (cfg, Some l) (JObj [(''conflict_keep_days'', JInt (2 ^ 64 - 1))])
    = (Inr (), cfg', Some (l\<lparr>ol_conflicts := []\<rparr>)) \<and> cfg_conflict_keep_days cfg' = 2 ^ 64 - 1"
proof -
  have "\<exists>cfg'. sync_merged cfg (JObj [(''conflict_keep_days'', JInt (2 ^ 64 - 1))]) = Inr cfg'
      \<and> cfg_conflict_keep_days cfg' = 2 ^ 64 - 1"
    by (simp add: sync_merged_def Let_def)
  moreover have "keep_cutoff now_ms (2 ^ 64 - 1) = now_ms + day_ms"
    using assms(1,2) by (simp add: keep_cutoff_def wrap_i64_def day_ms_def)
  moreover have "filter (\<lambda>e. \<not> ce_recorded_ms e < now_ms + day_ms) (ol_conflicts l) = []"
    using assms(3) by (auto simp: filter_empty_conv day_ms_def)
  ultimately show ?thesis
    by (auto simp: sync_apply_config_def prune_conflicts_before_def)
qed

lemma longest_retention_prunes_all_witness:
  "let c = \<lparr>ce_id = ''1'', ce_entity = entity_note, ce_entity_id = ''a.md'', ce_lost_ts = 1, ce_lost_device = ''d'',
         ce_winner_device = ''e'', ce_winner_ts = 2, ce_lost_value = JNull, ce_recorded_ms = 5000\<rparr>
   in \<exists>cfg'. sync_apply_config 5000 (sync_config_default, Some (op_log_empty\<lparr>ol_conflicts := [c]\<rparr>))
          (JObj [(''conflict_keep_days'', JInt (2 ^ 64 - 1))]) = (Inr (), cfg', Some op_log_empty)"
proof -
  let ?c = "\<lparr>ce_id = ''1'', ce_entity = entity_note, ce_entity_id = ''a.md'', ce_lost_ts = 1, ce_lost_device = ''d'',
         ce_winner_device = ''e'', ce_winner_ts = 2, ce_lost_value = JNull, ce_recorded_ms = 5000\<rparr>"
  have "op_log_empty\<lparr>ol_conflicts := [?c]\<rparr>\<lparr>ol_conflicts := []\<rparr> = op_log_empty" by (simp add: op_log_empty_def)
  then show ?thesis
    using longest_retention_prunes_all [of 5000 "op_log_empty\<lparr>ol_conflicts := [?c]\<rparr>" sync_config_default]
    unfolding Let_def by auto
qed

end
