(* ===== verification/Host_Wire.thy ===== *)
theory Host_Wire
  imports Prelude
begin

text \<open>
  The wire protocol shared by the devices (\<open>crates/host-core/src/wire.rs\<close>): frames with a length
  prefix, the decoder for a byte buffer and the reader for a byte stream, the key pair of the two
  directions and the frame cipher with its message counter.  The AEAD, HKDF and SHA-256 primitives
  are arguments.  A module error is its code.
\<close>

section \<open>Message types and frames\<close>

datatype msg_type =
    Hello | InputEvent | ClipData | FileChunk | FileMeta | AckMsg | Ping
  | PairRequest | PairAccept | PairReject | ControlTake | ControlRelease

fun msg_byte :: "msg_type \<Rightarrow> byte" where
  "msg_byte Hello = 0x01"
| "msg_byte InputEvent = 0x02"
| "msg_byte ClipData = 0x03"
| "msg_byte FileChunk = 0x04"
| "msg_byte FileMeta = 0x05"
| "msg_byte AckMsg = 0x06"
| "msg_byte Ping = 0x07"
| "msg_byte PairRequest = 0x08"
| "msg_byte PairAccept = 0x09"
| "msg_byte PairReject = 0x0A"
| "msg_byte ControlTake = 0x0B"
| "msg_byte ControlRelease = 0x0C"

definition msg_from_u8 :: "byte \<Rightarrow> msg_type option" where
  "msg_from_u8 v =
     (if v = 0x01 then Some Hello else if v = 0x02 then Some InputEvent
      else if v = 0x03 then Some ClipData else if v = 0x04 then Some FileChunk
      else if v = 0x05 then Some FileMeta else if v = 0x06 then Some AckMsg
      else if v = 0x07 then Some Ping else if v = 0x08 then Some PairRequest
      else if v = 0x09 then Some PairAccept else if v = 0x0A then Some PairReject
      else if v = 0x0B then Some ControlTake else if v = 0x0C then Some ControlRelease
      else None)"

lemma msg_from_byte [simp]: "msg_from_u8 (msg_byte t) = Some t"
  by (cases t) (simp_all add: msg_from_u8_def)

lemma msg_from_u8_Some: "msg_from_u8 v = Some t \<Longrightarrow> v = msg_byte t"
  by (auto simp: msg_from_u8_def split: if_splits)

record frame =
  fr_type :: msg_type
  fr_flags :: byte
  fr_payload :: bytes

definition header_len :: nat where "header_len = 2"
definition max_payload :: nat where "max_payload = 4 * 1024 * 1024"

datatype wire_error =
    Kvm001 | Kvm002 | Kvm003 | Kvm004 | Kvm005 | Kvm006 | Kvm007 | Kvm008 | Kvm009
  | Kvm010 | Kvm011 | Kvm012 | Kvm013

section \<open>Encoding and decoding\<close>

text \<open>The length prefix at the head of a buffer of at least four bytes.\<close>

definition frame_len :: "bytes \<Rightarrow> 32 word" where
  "frame_len b = u32_from_be (b ! 0) (b ! 1) (b ! 2) (b ! 3)"

definition encode_frame :: "frame \<Rightarrow> bytes" where
  "encode_frame f =
     u32_to_be (of_nat (header_len + length (fr_payload f)))
       @ [msg_byte (fr_type f), fr_flags f] @ fr_payload f"

definition decode_frame :: "bytes \<Rightarrow> wire_error + (frame \<times> nat) option" where
  "decode_frame buf =
     (if length buf < 4 then Inr None
      else
        let len = unat (frame_len buf) in
        if len < header_len then Inl Kvm001
        else if header_len + max_payload < len then Inl Kvm002
        else
          let total = 4 + len in
          if length buf < total then Inr None
          else
            res_bind (ok_or Kvm003 (msg_from_u8 (buf ! 4)))
              (\<lambda>t. Inr (Some (\<lparr>fr_type = t, fr_flags = buf ! 5,
                   fr_payload = drop 6 (take total buf)\<rparr>, total))))"

text \<open>A stream is the bytes that arrive before it ends; \<open>read_exact\<close> fails when they run out.\<close>

definition read_exact :: "nat \<Rightarrow> bytes \<Rightarrow> wire_error + bytes \<times> bytes" where
  "read_exact n s = (if length s < n then Inl Kvm006 else Inr (take n s, drop n s))"

definition read_frame :: "bytes \<Rightarrow> wire_error + frame \<times> bytes" where
  "read_frame s =
     res_bind (read_exact 4 s) (\<lambda>(b, s1).
       let len = unat (frame_len b) in
       if len < header_len \<or> header_len + max_payload < len then Inl Kvm002
       else
         res_bind (read_exact len s1) (\<lambda>(rest, s2).
           res_bind (ok_or Kvm003 (msg_from_u8 (rest ! 0))) (\<lambda>t.
             Inr (\<lparr>fr_type = t, fr_flags = rest ! 1, fr_payload = drop 2 rest\<rparr>, s2))))"

text \<open>\<open>write_frame\<close> appends the encoding to what was sent.\<close>

definition write_frame :: "bytes \<Rightarrow> frame \<Rightarrow> bytes" where
  "write_frame out f = out @ encode_frame f"

definition payload_fits :: "frame \<Rightarrow> bool" where
  "payload_fits f \<longleftrightarrow> length (fr_payload f) \<le> max_payload"

lemma length_encode [simp]: "length (encode_frame f) = 6 + length (fr_payload f)"
  by (simp add: encode_frame_def)

lemma frame_len_unat:
  assumes "n \<le> max_payload"
  shows "unat (of_nat (header_len + n) :: 32 word) = header_len + n"
proof (rule unat_of_nat_small)
  have "header_len + n < 2 ^ 32" using assms by (simp add: header_len_def max_payload_def)
  then show "header_len + n < 2 ^ LENGTH(32)" by simp
qed

lemma frame_len_be [simp]: "frame_len (u32_to_be w @ r) = w"
  by (simp add: frame_len_def u32_to_be_def u32_be_roundtrip numeral_2_eq_2 numeral_3_eq_3)

lemma frame_len_be' [simp]: "frame_len (u32_to_be w) = w"
  using frame_len_be [of w "[]"] by simp

lemma frame_len_take [simp]: "4 \<le> n \<Longrightarrow> frame_len (take n b) = frame_len b"
  by (simp add: frame_len_def)

lemma frame_len_encode [simp]: "frame_len (encode_frame f) = of_nat (header_len + length (fr_payload f))"
  by (simp add: encode_frame_def)

lemma encode_nth_45: "encode_frame f ! 4 = msg_byte (fr_type f)" "encode_frame f ! 5 = fr_flags f"
  by (simp_all add: encode_frame_def nth_append)

lemma drop_encode: "drop 6 (encode_frame f) = fr_payload f"
  by (simp add: encode_frame_def)

text \<open>What the decoder and the reader see at the head of a buffer that starts with a frame.\<close>

lemma read_frame_encode:
  assumes "payload_fits f"
  shows "read_frame (encode_frame f @ rest) = Inr (f, rest)"
proof -
  let ?n = "length (fr_payload f)"
  let ?w = "of_nat (header_len + ?n) :: 32 word"
  have n: "unat ?w = header_len + ?n"
    using assms by (simp only: frame_len_unat payload_fits_def)
  have e: "encode_frame f @ rest = u32_to_be ?w @ msg_byte (fr_type f) # fr_flags f # fr_payload f @ rest"
    by (simp add: encode_frame_def)
  have s: "header_len + ?n = Suc (Suc ?n)" by (simp add: header_len_def)
  have lim: "\<not> (header_len + ?n < header_len \<or> header_len + max_payload < header_len + ?n)"
    using assms by (simp add: payload_fits_def)
  show ?thesis
    unfolding e read_frame_def read_exact_def
    using lim by (simp add: Let_def n del: of_nat_add) (simp add: s header_len_def)
qed

lemma decode_read:
  assumes "read_frame buf = Inr (f, rest)"
  shows "decode_frame buf = Inr (Some (f, length buf - length rest)) \<and> buf = take (length buf - length rest) buf @ rest"
proof -
  define len where "len = unat (frame_len buf)"
  obtain t where 4: "4 \<le> length buf" and ok: "header_len \<le> len" "len \<le> header_len + max_payload"
    and tot: "4 + len \<le> length buf"
    and t: "msg_from_u8 (take len (drop 4 buf) ! 0) = Some t"
    and f: "f = \<lparr>fr_type = t, fr_flags = take len (drop 4 buf) ! 1,
      fr_payload = drop 2 (take len (drop 4 buf))\<rparr>"
    and rest: "rest = drop len (drop 4 buf)"
    using assms
    by (auto simp: read_frame_def read_exact_def res_bind_eq_Inr Let_def len_def split: if_splits)
  have nth: "take len (drop 4 buf) ! 0 = buf ! 4" "take len (drop 4 buf) ! 1 = buf ! 5"
    using tot ok by (auto simp: header_len_def)
  have pay: "drop 2 (take len (drop 4 buf)) = drop 6 (take (4 + len) buf)"
    by (simp add: take_drop add.commute)
  have n: "length buf - length rest = 4 + len" using tot rest by simp
  have "decode_frame buf = Inr (Some (\<lparr>fr_type = t, fr_flags = buf ! 5,
      fr_payload = drop 6 (take (4 + len) buf)\<rparr>, 4 + len))"
    using 4 ok tot t nth by (simp add: decode_frame_def Let_def len_def [symmetric])
  moreover have "buf = take (4 + len) buf @ rest" using rest by (simp add: add.commute)
  ultimately show ?thesis unfolding n f nth pay by blast
qed

text \<open>Frames survive the wire: the stream reader and the buffer decoder both recover exactly the
  frame that was encoded and leave or report exactly the bytes after it, for every payload within the
  limit and whatever follows.\<close>

lemma frame_roundtrip:
  assumes "payload_fits f"
  shows "read_frame (write_frame [] f @ rest) = Inr (f, rest)
    \<and> decode_frame (write_frame [] f @ rest) = Inr (Some (f, length (encode_frame f)))"
  using read_frame_encode [OF assms, of rest] decode_read [OF read_frame_encode [OF assms, of rest]]
  by (simp add: write_frame_def)

lemma frame_roundtrip_witness:
  "let f = \<lparr>fr_type = Ping, fr_flags = 3, fr_payload = [7, 8]\<rparr>
   in read_frame (write_frame [] f @ [9]) = Inr (f, [9])"
  using frame_roundtrip [of "\<lparr>fr_type = Ping, fr_flags = 3, fr_payload = [7, 8]\<rparr>" "[9]"]
  by (simp add: payload_fits_def max_payload_def)

text \<open>Half frames wait: the decoder asks for more data on every proper prefix of a frame, and
  never reports an error there.\<close>

lemma half_frame_waits:
  assumes "payload_fits f" and "n < length (encode_frame f)"
  shows "decode_frame (take n (encode_frame f)) = Inr None"
proof (cases "n < 4")
  case False
  let ?buf = "take n (encode_frame f)" and ?l = "header_len + length (fr_payload f)"
  have len: "unat (of_nat ?l :: 32 word) = ?l"
    using assms(1) by (simp only: frame_len_unat payload_fits_def)
  then have "unat (frame_len ?buf) = ?l" using False by (simp del: of_nat_add)
  then show ?thesis
    using False assms by (simp add: decode_frame_def Let_def header_len_def payload_fits_def)
qed (use assms(2) in \<open>simp add: decode_frame_def\<close>)

lemma half_frame_waits_witness:
  "decode_frame (take 6 (encode_frame \<lparr>fr_type = FileChunk, fr_flags = 0, fr_payload = [1]\<rparr>)) = Inr None"
  by (rule half_frame_waits) (simp_all add: payload_fits_def max_payload_def)

section \<open>The frame cipher\<close>

record aead =
  aead_encrypt :: "bytes \<Rightarrow> bytes \<Rightarrow> bytes \<Rightarrow> bytes option"
  aead_decrypt :: "bytes \<Rightarrow> bytes \<Rightarrow> bytes \<Rightarrow> bytes option"

record frame_cipher =
  fc_key :: bytes
  fc_counter :: "64 word"

definition cipher_new :: "bytes \<Rightarrow> frame_cipher" where
  "cipher_new key = \<lparr>fc_key = key, fc_counter = 0\<rparr>"

definition counter_nonce :: "64 word \<Rightarrow> bytes" where
  "counter_nonce c = replicate 4 0 @ le_bytes 8 c"

definition next_nonce :: "frame_cipher \<Rightarrow> bytes \<times> frame_cipher" where
  "next_nonce c = (counter_nonce (fc_counter c), c\<lparr>fc_counter := fc_counter c + 1\<rparr>)"

definition seal :: "aead \<Rightarrow> frame_cipher \<Rightarrow> bytes \<Rightarrow> (wire_error + bytes \<times> bytes) \<times> frame_cipher" where
  "seal ae c plaintext =
     (case next_nonce c of (n, c1) \<Rightarrow>
        (res_bind (ok_or Kvm004 (aead_encrypt ae (fc_key c) n plaintext)) (\<lambda>ct. Inr (n, ct)), c1))"

definition open_frame ::
    "aead \<Rightarrow> frame_cipher \<Rightarrow> bytes \<Rightarrow> bytes \<Rightarrow> (wire_error + bytes) \<times> frame_cipher" where
  "open_frame ae c nonce ciphertext =
     (if le_word (drop 4 nonce) \<noteq> fc_counter c then (Inl Kvm012, c)
      else
        (case aead_decrypt ae (fc_key c) nonce ciphertext of
           None \<Rightarrow> (Inl Kvm005, c)
         | Some pt \<Rightarrow> (Inr pt, c\<lparr>fc_counter := fc_counter c + 1\<rparr>)))"

lemma length_counter_nonce [simp]: "length (counter_nonce c) = 12"
  by (simp add: counter_nonce_def)

lemma nonce_counter [simp]: "le_word (drop 4 (counter_nonce c)) = c"
  by (simp add: counter_nonce_def)

lemma counter_nonce_inj: "counter_nonce c = counter_nonce d \<Longrightarrow> c = d"
  by (metis nonce_counter)

text \<open>Messages in sequence.\<close>

fun seal_all :: "aead \<Rightarrow> frame_cipher \<Rightarrow> bytes list \<Rightarrow> (bytes \<times> bytes) list option" where
  "seal_all ae c [] = Some []"
| "seal_all ae c (m # ms) =
     (case seal ae c m of
        (Inl _, _) \<Rightarrow> None
      | (Inr p, c1) \<Rightarrow> map_option ((#) p) (seal_all ae c1 ms))"

fun open_all :: "aead \<Rightarrow> frame_cipher \<Rightarrow> (bytes \<times> bytes) list \<Rightarrow> (wire_error + bytes) list" where
  "open_all ae c [] = []"
| "open_all ae c ((n, ct) # ps) = (case open_frame ae c n ct of (r, c1) \<Rightarrow> r # open_all ae c1 ps)"

lemma seal_all_nonces:
  "seal_all ae c ms = Some ps \<Longrightarrow>
     map fst ps = map (\<lambda>i. counter_nonce (fc_counter c + of_nat i)) [0..<length ms]"
proof (induction ms arbitrary: c ps)
  case (Cons m ms)
  then obtain p c1 qs where p: "seal ae c m = (Inr p, c1)" "seal_all ae c1 ms = Some qs" "ps = p # qs"
    by (auto split: prod.splits sum.splits)
  then have 1: "fst p = counter_nonce (fc_counter c)" "fc_counter c1 = fc_counter c + 1"
    by (auto simp: seal_def next_nonce_def res_bind_eq_Inr)
  have "map fst qs = map (\<lambda>i. counter_nonce (fc_counter c + of_nat (Suc i))) [0..<length ms]"
    using Cons.IH [OF p(2)] 1(2) by (simp add: ac_simps)
  then have "map fst ps = map (\<lambda>i. counter_nonce (fc_counter c + of_nat i)) (0 # map Suc [0..<length ms])"
    using 1(1) p(3) by (simp add: comp_def)
  then show ?case by (simp only: map_Suc_upt upt_conv_Cons [symmetric] zero_less_Suc list.size add_0_right
        add_Suc_right)
qed simp

text \<open>No nonce is used twice under a key: sealing any number of messages up to \<open>2 ^ 64\<close> with one
  cipher uses pairwise different nonces.\<close>

lemma nonces_never_repeat:
  assumes "seal_all ae c ms = Some ps" and "length ms \<le> 2 ^ 64"
  shows "distinct (map fst ps)"
proof -
  have "inj_on (\<lambda>i. counter_nonce (fc_counter c + of_nat i)) {0..<length ms}"
  proof (rule inj_onI)
    fix i j assume ij: "i \<in> {0..<length ms}" "j \<in> {0..<length ms}"
      and eq: "counter_nonce (fc_counter c + of_nat i) = counter_nonce (fc_counter c + of_nat j)"
    have "i < 2 ^ 64" "j < 2 ^ 64" using ij assms(2) by auto
    then show "i = j" using counter_nonce_inj [OF eq] of_nat64_inj [of i j] by simp
  qed
  then show ?thesis by (simp add: seal_all_nonces [OF assms(1)] distinct_map)
qed

text \<open>An AEAD that decrypts what it encrypted, and a toy one for the concrete runs.\<close>

definition aead_ok :: "aead \<Rightarrow> bool" where
  "aead_ok ae \<longleftrightarrow>
     (\<forall>k n m ct. aead_encrypt ae k n m = Some ct \<longrightarrow>
        aead_decrypt ae k n ct = Some m \<and> length ct = length m + 16)"

definition demo_tag :: "bytes \<Rightarrow> bytes \<Rightarrow> bytes" where
  "demo_tag k n = take 16 (n @ k @ replicate 16 0)"

definition demo_aead :: aead where
  "demo_aead =
     \<lparr>aead_encrypt = (\<lambda>k n m. Some (demo_tag k n @ m)),
      aead_decrypt = (\<lambda>k n ct. if take 16 ct = demo_tag k n then Some (drop 16 ct) else None)\<rparr>"

lemma length_demo_tag [simp]: "length (demo_tag k n) = 16"
  by (simp add: demo_tag_def min_def)

lemma demo_aead_ok: "aead_ok demo_aead"
  by (simp add: aead_ok_def demo_aead_def)

lemma nonces_never_repeat_witness:
  "map fst (the (seal_all demo_aead (cipher_new [1, 2]) [[1], [2], [3]]))
     = [counter_nonce 0, counter_nonce 1, counter_nonce 2]
   \<and> distinct (map fst (the (seal_all demo_aead (cipher_new [1, 2]) [[1], [2], [3]])))"
proof -
  have "seal_all demo_aead (cipher_new [1, 2]) [[1], [2], [3]]
      = Some (the (seal_all demo_aead (cipher_new [1, 2]) [[1], [2], [3]]))"
    by (simp add: seal_def next_nonce_def demo_aead_def)
  from nonces_never_repeat [OF this] seal_all_nonces [OF this] show ?thesis
    by (simp add: cipher_new_def)
qed

text \<open>C3. A receiver accepts the sender's messages in their order and nothing else: after the first
  \<open>n\<close> sealed messages it opens exactly the next one; any other sealed message, replayed or ahead,
  is refused with the sequence error and leaves the receiver where it was.\<close>

theorem only_next_message_opens:
  assumes "aead_ok ae" and "seal_all ae c ms = Some ps" and "length ms \<le> 2 ^ 64"
    and "fc_key d = fc_key c" and "fc_counter d = fc_counter c + of_nat n"
    and "n < length ms" and "i < length ms"
  shows "open_frame ae d (fst (ps ! i)) (snd (ps ! i)) =
    (if i = n then (Inr (ms ! i), d\<lparr>fc_counter := fc_counter d + 1\<rparr>) else (Inl Kvm012, d))"
proof -
  have *: "seal_all ae c ms = Some ps \<Longrightarrow> i < length ms \<Longrightarrow>
      length ps = length ms \<and> aead_encrypt ae (fc_key c) (counter_nonce (fc_counter c + of_nat i)) (ms ! i) = Some (snd (ps ! i))"
    for c i ms ps
  proof (induction ms arbitrary: c ps i)
    case (Cons m ms)
    from Cons.prems(1) obtain p c1 qs where p: "seal ae c m = (Inr p, c1)"
      "seal_all ae c1 ms = Some qs" "ps = p # qs"
      by (auto split: prod.splits sum.splits)
    then have 1: "aead_encrypt ae (fc_key c) (counter_nonce (fc_counter c)) m = Some (snd p)"
      "fc_counter c1 = fc_counter c + 1" "fc_key c1 = fc_key c"
      by (auto simp: seal_def next_nonce_def res_bind_eq_Inr)
    have len: "length qs = length ms"
      using arg_cong [OF seal_all_nonces [OF p(2)], of length] by simp
    show ?case
    proof (cases i)
      case (Suc j)
      with Cons.IH [OF p(2), of j] Cons.prems(2) 1 p(3) len show ?thesis by (simp add: add.assoc)
    qed (use 1 p(3) len in simp)
  qed simp
  have lens: "length ps = length ms"
    using arg_cong [OF seal_all_nonces [OF assms(2)], of length] by simp
  have n: "fst (ps ! i) = counter_nonce (fc_counter c + of_nat i)"
    using arg_cong [OF seal_all_nonces [OF assms(2)], of "\<lambda>xs. xs ! i"] assms(7) lens by simp
  have "(of_nat i :: 64 word) = of_nat n \<longleftrightarrow> i = n"
    using assms(3,6,7) by (intro of_nat64_inj) auto
  moreover have "aead_decrypt ae (fc_key d) (counter_nonce (fc_counter c + of_nat i)) (snd (ps ! i)) = Some (ms ! i)"
    using assms(1,4) * [OF assms(2,7)] by (simp add: aead_ok_def)
  ultimately show ?thesis unfolding open_frame_def n nonce_counter assms(5) by auto
qed

theorem only_next_message_opens_witness:
  "let ps = the (seal_all demo_aead (cipher_new [1]) [[7], [8]])
   in open_all demo_aead (cipher_new [1]) [ps ! 0, ps ! 0, ps ! 1] = [Inr [7], Inl Kvm012, Inr [8]]"
proof -
  let ?c = "cipher_new [1]"
  define ps where "ps = the (seal_all demo_aead ?c [[7], [8]])"
  have ps: "seal_all demo_aead ?c [[7], [8]] = Some ps"
    by (simp add: ps_def seal_def next_nonce_def demo_aead_def)
  note o = only_next_message_opens [OF demo_aead_ok ps]
  have "open_frame demo_aead ?c (fst (ps ! 0)) (snd (ps ! 0)) = (Inr [7], ?c\<lparr>fc_counter := 1\<rparr>)"
    using o [of ?c 0 0] by (simp add: cipher_new_def)
  moreover have "open_frame demo_aead (?c\<lparr>fc_counter := 1\<rparr>) (fst (ps ! 0)) (snd (ps ! 0)) = (Inl Kvm012, ?c\<lparr>fc_counter := 1\<rparr>)"
    using o [of "?c\<lparr>fc_counter := 1\<rparr>" 1 0] by (simp add: cipher_new_def)
  moreover have "open_frame demo_aead (?c\<lparr>fc_counter := 1\<rparr>) (fst (ps ! 1)) (snd (ps ! 1)) = (Inr [8], ?c\<lparr>fc_counter := 1 + 1\<rparr>)"
    using o [of "?c\<lparr>fc_counter := 1\<rparr>" 1 1] by (simp add: cipher_new_def)
  ultimately have "open_all demo_aead ?c [ps ! 0, ps ! 0, ps ! 1] = [Inr [7], Inl Kvm012, Inr [8]]"
    by (cases "ps ! 0"; cases "ps ! 1") simp
  then show ?thesis by (simp add: ps_def Let_def)
qed

section \<open>Directional keys\<close>

record directional_keys =
  dk_i2r :: bytes
  dk_r2i :: bytes

record key_kdf =
  kdf_sha256 :: "bytes \<Rightarrow> bytes"
  kdf_hkdf :: "bytes \<Rightarrow> bytes \<Rightarrow> string \<Rightarrow> bytes"

definition derive_directional_keys :: "key_kdf \<Rightarrow> bytes \<Rightarrow> bytes \<Rightarrow> directional_keys" where
  "derive_directional_keys kdf shared salt_material =
     (let salt = kdf_sha256 kdf salt_material in
      \<lparr>dk_i2r = kdf_hkdf kdf salt shared ''nexusforge-kvm-v2/initiator'',
       dk_r2i = kdf_hkdf kdf salt shared ''nexusforge-kvm-v2/responder''\<rparr>)"

text \<open>The receiving and the sending key of a side.\<close>

definition directional_pair :: "directional_keys \<Rightarrow> bool \<Rightarrow> bytes \<times> bytes" where
  "directional_pair keys initiator =
     (if initiator then (dk_r2i keys, dk_i2r keys) else (dk_i2r keys, dk_r2i keys))"

definition proto_ver :: nat where "proto_ver = 2"

lemma directional_pair_swap [simp]: "prod.swap (directional_pair k i) = directional_pair k (\<not> i)"
  by (simp add: directional_pair_def)

end
