(* ===== verification/Host_Device.thy ===== *)
theory Host_Device
  imports Str "HOL-Library.AList" "HOL-Library.Multiset"
begin

text \<open>
  The trust root of a device (\<open>crates/host-core/src/device.rs\<close>): its identity file with the
  fail-closed loading rule, and the table of paired devices with its file.  X25519, SHA-256, the
  JSON and base64 codecs and the DPAPI port are arguments, a file's contents a type parameter; the directory is the state of its files
  with what the file system answers.
\<close>

section \<open>The identity file\<close>

record device_identity =
  di_device_id :: string
  di_device_name :: string
  di_fingerprint :: string
  di_secret :: bytes

record persisted_identity =
  pi_device_id :: string
  pi_device_name :: string
  pi_secret_b64 :: string
  pi_protected :: bool

record crypto_port =
  cp_protect :: "bytes \<Rightarrow> string + bytes"
  cp_unprotect :: "bytes \<Rightarrow> string + bytes"

record 'f host_codecs =
  hc_pub_of :: "bytes \<Rightarrow> bytes"
  hc_sha256 :: "bytes \<Rightarrow> bytes"
  hc_b64_encode :: "bytes \<Rightarrow> string"
  hc_b64_decode :: "string \<Rightarrow> bytes option"
  hc_identity_json :: "persisted_identity \<Rightarrow> 'f"
  hc_identity_parse :: "'f \<Rightarrow> string + persisted_identity"

definition key_len :: nat where "key_len = 32"
definition fingerprint_hex :: nat where "fingerprint_hex = 32"

definition fingerprint :: "'f host_codecs \<Rightarrow> bytes \<Rightarrow> string" where
  "fingerprint hc pubkey = take fingerprint_hex (hex_lower (hc_sha256 hc pubkey))"

definition from_secret :: "'f host_codecs \<Rightarrow> bytes \<Rightarrow> string \<Rightarrow> string \<Rightarrow> device_identity" where
  "from_secret hc secret device_name uuid =
     \<lparr>di_device_id = uuid, di_device_name = device_name,
      di_fingerprint = fingerprint hc (hc_pub_of hc secret), di_secret = secret\<rparr>"

definition serialize_identity ::
    "'f host_codecs \<Rightarrow> device_identity \<Rightarrow> crypto_port option \<Rightarrow> string + 'f" where
  "serialize_identity hc i crypto =
     res_bind
       (case crypto of
          Some port \<Rightarrow> res_bind (cp_protect port (di_secret i)) (\<lambda>s. Inr (hc_b64_encode hc s, True))
        | None \<Rightarrow> Inr (hc_b64_encode hc (di_secret i), False))
       (\<lambda>(b, prot). Inr (hc_identity_json hc
          \<lparr>pi_device_id = di_device_id i, pi_device_name = di_device_name i, pi_secret_b64 = b,
           pi_protected = prot\<rparr>))"

definition key_of_bytes :: "string \<Rightarrow> bytes \<Rightarrow> string + bytes" where
  "key_of_bytes e b = (if length b = key_len then Inr b else Inl e)"

definition deserialize_identity ::
    "'f host_codecs \<Rightarrow> 'f \<Rightarrow> crypto_port option \<Rightarrow> string + device_identity" where
  "deserialize_identity hc bs crypto =
     res_bind (hc_identity_parse hc bs) (\<lambda>p.
       res_bind (ok_or ''base64'' (hc_b64_decode hc (pi_secret_b64 p))) (\<lambda>raw.
         res_bind
           (if pi_protected p
            then res_bind (ok_or ''crypto port'' crypto) (\<lambda>port.
                   res_bind (cp_unprotect port raw) (key_of_bytes ''DPAPI length''))
            else key_of_bytes ''key length'' raw)
           (\<lambda>secret. Inr
              \<lparr>di_device_id = pi_device_id p, di_device_name = pi_device_name p,
               di_fingerprint = fingerprint hc (hc_pub_of hc secret), di_secret = secret\<rparr>)))"

text \<open>The directory: the identity file, what was put aside, and what the file system allows.\<close>

record 'f identity_dir =
  id_file :: "'f option"
  id_corrupt :: "'f option"
  id_read_ok :: bool
  id_rename_ok :: bool
  id_write_ok :: bool

definition load_or_create ::
    "'f host_codecs \<Rightarrow> crypto_port option \<Rightarrow> device_identity \<Rightarrow> 'f identity_dir
       \<Rightarrow> (string + device_identity) \<times> 'f identity_dir" where
  "load_or_create hc crypto generated dir =
     (if \<not> id_read_ok dir then (Inl ''read failed'', dir)
      else
        (case id_file dir of
           Some bs \<Rightarrow>
             (case deserialize_identity hc bs crypto of
                Inr i \<Rightarrow> (Inr i, dir)
              | Inl e \<Rightarrow>
                  if id_rename_ok dir
                  then (Inl ''quarantined'', dir\<lparr>id_file := None, id_corrupt := Some bs\<rparr>)
                  else (Inl ''quarantine failed'', dir))
         | None \<Rightarrow>
             (case serialize_identity hc generated crypto of
                Inl e \<Rightarrow> (Inl e, dir)
              | Inr bs \<Rightarrow>
                  if id_write_ok dir then (Inr generated, dir\<lparr>id_file := Some bs\<rparr>)
                  else (Inl ''write failed'', dir))))"

text \<open>What the codecs promise.\<close>

definition codecs_ok :: "'f host_codecs \<Rightarrow> bool" where
  "codecs_ok hc \<longleftrightarrow>
     (\<forall>b. hc_b64_decode hc (hc_b64_encode hc b) = Some b)
     \<and> (\<forall>p. hc_identity_parse hc (hc_identity_json hc p) = Inr p)"

definition port_ok :: "crypto_port option \<Rightarrow> bool" where
  "port_ok crypto \<longleftrightarrow>
     (case crypto of None \<Rightarrow> True
      | Some port \<Rightarrow> \<forall>b c. cp_protect port b = Inr c \<longrightarrow> cp_unprotect port c = Inr b)"

lemma identity_roundtrip:
  assumes "codecs_ok hc" and "port_ok crypto" and "serialize_identity hc i crypto = Inr bs"
    and "length (di_secret i) = key_len"
    and "di_fingerprint i = fingerprint hc (hc_pub_of hc (di_secret i))"
  shows "deserialize_identity hc bs crypto = Inr i"
proof (cases crypto)
  case None
  with assms show ?thesis
    by (auto simp: serialize_identity_def deserialize_identity_def codecs_ok_def key_of_bytes_def)
next
  case (Some port)
  obtain c where c: "cp_protect port (di_secret i) = Inr c"
    and bs: "bs = hc_identity_json hc \<lparr>pi_device_id = di_device_id i, pi_device_name = di_device_name i,
      pi_secret_b64 = hc_b64_encode hc c, pi_protected = True\<rparr>"
    using assms(3) Some by (auto simp: serialize_identity_def res_bind_eq_Inr)
  have "cp_unprotect port c = Inr (di_secret i)" using assms(2) Some c by (simp add: port_ok_def)
  then show ?thesis
    using assms(1,4,5) Some by (simp add: bs deserialize_identity_def codecs_ok_def key_of_bytes_def)
qed

text \<open>An identity is created once: when the first start finds no identity file and creates one,
  every later start with the same protection port loads that same identity, whatever new one it
  would generate, and leaves the file alone.\<close>

lemma identity_created_once:
  assumes "codecs_ok hc" and "port_ok crypto" and "id_file dir = None" and "length secret = key_len"
    and "load_or_create hc crypto (from_secret hc secret nm uuid) dir = (Inr i, dir')"
  shows "load_or_create hc crypto g dir' = (Inr i, dir')"
proof -
  have id: "id_read_ok dir" and i: "i = from_secret hc secret nm uuid"
    and bs: "\<exists>bs. serialize_identity hc i crypto = Inr bs \<and> dir' = dir\<lparr>id_file := Some bs\<rparr>"
    using assms(3,5) by (auto simp: load_or_create_def split: if_splits sum.splits)
  then obtain bs where bs: "serialize_identity hc i crypto = Inr bs" "dir' = dir\<lparr>id_file := Some bs\<rparr>"
    by blast
  have "deserialize_identity hc bs crypto = Inr i"
    using assms(4) i by (intro identity_roundtrip [OF assms(1,2) bs(1)]) (simp_all add: from_secret_def)
  then show ?thesis by (simp add: load_or_create_def bs(2) id)
qed

definition demo_codecs :: "persisted_identity option host_codecs" where
  "demo_codecs =
     \<lparr>hc_pub_of = (\<lambda>s. s), hc_sha256 = (\<lambda>b. b),
      hc_b64_encode = map (\<lambda>w. char_of (unat w)), hc_b64_decode = (\<lambda>s. Some (str_bytes s)),
      hc_identity_json = Some, hc_identity_parse = ok_or ''bad json''\<rparr>"

lemma demo_codecs_ok: "codecs_ok demo_codecs"
  by (simp add: codecs_ok_def demo_codecs_def str_bytes_def comp_def)

definition demo_dir :: "persisted_identity option identity_dir" where
  "demo_dir = \<lparr>id_file = None, id_corrupt = None, id_read_ok = True, id_rename_ok = True, id_write_ok = True\<rparr>"

lemma identity_created_once_witness:
  "let a = from_secret demo_codecs (replicate 32 5) ''pc'' ''u1'';
       b = from_secret demo_codecs (replicate 32 9) ''pc'' ''u2''
   in fst (load_or_create demo_codecs None b (snd (load_or_create demo_codecs None a demo_dir))) = Inr a"
proof -
  let ?a = "from_secret demo_codecs (replicate 32 5) ''pc'' ''u1''"
  let ?r = "load_or_create demo_codecs None ?a demo_dir"
  have r: "?r = (Inr ?a, snd ?r)"
    by (simp add: load_or_create_def demo_dir_def serialize_identity_def)
  show ?thesis
    using identity_created_once [OF demo_codecs_ok _ _ _ r] unfolding Let_def
    by (simp add: port_ok_def demo_dir_def key_len_def)
qed

text \<open>The fail-closed rule lasts for one start only: when the identity file cannot be decoded, the
  first start refuses and moves the file aside, so the next start finds no file and silently creates
  a different identity, which is what the rule is there to prevent.\<close>

lemma second_start_replaces_identity:
  assumes "id_file dir = Some bs" and "deserialize_identity hc bs crypto = Inl e"
    and "id_read_ok dir" and "id_rename_ok dir" and "id_write_ok dir"
    and "serialize_identity hc g crypto = Inr bs'"
  shows "\<exists>dir1. load_or_create hc crypto g0 dir = (Inl ''quarantined'', dir1)
    \<and> load_or_create hc crypto g dir1 = (Inr g, dir1\<lparr>id_file := Some bs'\<rparr>)"
  using assms by (simp add: load_or_create_def)

lemma second_start_replaces_identity_witness:
  "let g = from_secret demo_codecs (replicate 32 9) ''pc'' ''u2'';
       broken = demo_dir\<lparr>id_file := Some None\<rparr>
   in fst (load_or_create demo_codecs None g broken) = Inl ''quarantined''
      \<and> fst (load_or_create demo_codecs None g (snd (load_or_create demo_codecs None g broken))) = Inr g"
proof -
  let ?g = "from_secret demo_codecs (replicate 32 9) ''pc'' ''u2''"
  let ?broken = "demo_dir\<lparr>id_file := Some None\<rparr>"
  have "deserialize_identity demo_codecs None None = Inl ''bad json''"
    by (simp add: deserialize_identity_def demo_codecs_def)
  moreover obtain bs where "serialize_identity demo_codecs ?g None = Inr bs"
    by (simp add: serialize_identity_def)
  ultimately show ?thesis
    using second_start_replaces_identity [of ?broken None demo_codecs None "''bad json''" ?g bs ?g]
    unfolding Let_def by (auto simp: demo_dir_def)
qed

section \<open>Paired devices\<close>

record paired_peer =
  pp_device_id :: string
  pp_device_name :: string
  pp_fingerprint :: string
  pp_pubkey_b64 :: string
  pp_paired_at :: nat

text \<open>The table is an association list with one entry per device; the file holds the peers.\<close>

record pair_store =
  ps_peers :: "(string \<times> paired_peer) list"
  ps_file :: "paired_peer list option"
  ps_write_ok :: bool

definition pairs_from :: "paired_peer list \<Rightarrow> (string \<times> paired_peer) list" where
  "pairs_from ps = foldl (\<lambda>m p. AList.update (pp_device_id p) p m) [] ps"

definition pair_load :: "paired_peer list option \<Rightarrow> bool \<Rightarrow> pair_store" where
  "pair_load file wr =
     \<lparr>ps_peers = (case file of None \<Rightarrow> [] | Some ps \<Rightarrow> pairs_from ps), ps_file = file, ps_write_ok = wr\<rparr>"

definition is_paired :: "pair_store \<Rightarrow> string \<Rightarrow> bool" where
  "is_paired s d \<longleftrightarrow> map_of (ps_peers s) d \<noteq> None"

definition pair_get :: "pair_store \<Rightarrow> string \<Rightarrow> paired_peer option" where
  "pair_get s d = map_of (ps_peers s) d"

definition verify_fingerprint :: "pair_store \<Rightarrow> string \<Rightarrow> string \<Rightarrow> bool" where
  "verify_fingerprint s d f \<longleftrightarrow>
     unwrap_or False (map_option (\<lambda>p. pp_fingerprint p = f) (pair_get s d))"

definition pair_all :: "pair_store \<Rightarrow> paired_peer list" where
  "pair_all s = sort_key pp_device_id (map snd (ps_peers s))"

definition pair_persist :: "pair_store \<Rightarrow> (string + unit) \<times> pair_store" where
  "pair_persist s =
     (if ps_write_ok s then (Inr (), s\<lparr>ps_file := Some (pair_all s)\<rparr>) else (Inl ''KVM_PAIR_002'', s))"

definition pair_upsert :: "pair_store \<Rightarrow> paired_peer \<Rightarrow> (string + unit) \<times> pair_store" where
  "pair_upsert s p = pair_persist (s\<lparr>ps_peers := AList.update (pp_device_id p) p (ps_peers s)\<rparr>)"

definition pair_remove :: "pair_store \<Rightarrow> string \<Rightarrow> (string + bool) \<times> pair_store" where
  "pair_remove s d =
     (let removed = (map_of (ps_peers s) d \<noteq> None);
          s1 = s\<lparr>ps_peers := AList.delete d (ps_peers s)\<rparr>
      in if removed
         then (case pair_persist s1 of (Inl e, s2) \<Rightarrow> (Inl e, s2) | (Inr _, s2) \<Rightarrow> (Inr True, s2))
         else (Inr False, s1))"

definition pairs_wf :: "pair_store \<Rightarrow> bool" where
  "pairs_wf s \<longleftrightarrow> distinct (map fst (ps_peers s)) \<and> (\<forall>(d, p)\<in>set (ps_peers s). pp_device_id p = d)"

lemma set_update: "set (AList.update k v al) \<subseteq> insert (k, v) (set al)"
  by (induction al) auto

lemma pairs_from_keys:
  "distinct (map fst m) \<Longrightarrow> \<forall>(d, p)\<in>set m. pp_device_id p = d \<Longrightarrow>
     (let r = foldl (\<lambda>m p. AList.update (pp_device_id p) p m) m ps in
       distinct (map fst r) \<and> (\<forall>(d, p)\<in>set r. pp_device_id p = d))"
proof (induction ps arbitrary: m)
  case (Cons p ps)
  show ?case
    using Cons.IH [of "AList.update (pp_device_id p) p m"] Cons.prems set_update [of "pp_device_id p" p m]
    by (fastforce simp: distinct_update)
qed simp

lemma pairs_wf_load [inv_intros]: "pairs_wf (pair_load file wr)"
  using pairs_from_keys [of "[]"]
  by (auto simp: pairs_wf_def pair_load_def pairs_from_def Let_def split: option.split)

lemma pairs_wf_upsert [inv_intros]: "pairs_wf s \<Longrightarrow> pairs_wf (snd (pair_upsert s p))"
  using set_update [of "pp_device_id p" p "ps_peers s"]
  by (fastforce simp: pairs_wf_def pair_upsert_def pair_persist_def distinct_update)

lemma set_delete: "set (AList.delete k al) \<subseteq> set al"
  by (auto simp: AList.delete_eq)

lemma pairs_wf_remove [inv_intros]: "pairs_wf s \<Longrightarrow> pairs_wf (snd (pair_remove s d))"
  using set_delete [of d "ps_peers s"]
  by (auto simp: pairs_wf_def pair_remove_def pair_persist_def Let_def distinct_delete)

lemma map_of_pairs_from:
  "map_of (foldl (\<lambda>m p. AList.update (pp_device_id p) p m) m ps)
     = map_of m ++ map_of (rev (map (\<lambda>p. (pp_device_id p, p)) ps))"
  by (induction ps arbitrary: m) (auto simp: update_conv' fun_eq_iff map_add_def split: option.splits)

lemma map_of_same_set:
  "distinct (map fst xs) \<Longrightarrow> distinct (map fst ys) \<Longrightarrow> set xs = set ys \<Longrightarrow> map_of xs = map_of ys"
  by (simp add: map_of_inject_set)

lemma reload_same:
  assumes "pairs_wf s"
  shows "map_of (pairs_from (pair_all s)) = map_of (ps_peers s)"
proof -
  let ?tag = "\<lambda>p. (pp_device_id p, p)"
  have id: "map ?tag (map snd (ps_peers s)) = ps_peers s"
    using assms by (auto simp: pairs_wf_def comp_def intro!: map_idI)
  have set: "set (rev (map ?tag (pair_all s))) = set (ps_peers s)"
    using arg_cong [OF id, of set] by (simp add: pair_all_def image_image)
  have "mset (map fst (rev (map ?tag (pair_all s)))) = mset (map fst (map ?tag (map snd (ps_peers s))))"
    by (simp only: pair_all_def mset_map mset_rev mset_sort)
  then have "mset (map fst (rev (map ?tag (pair_all s)))) = mset (map fst (ps_peers s))"
    unfolding id .
  then have "distinct (map fst (rev (map ?tag (pair_all s))))"
    using assms mset_eq_imp_distinct_iff unfolding pairs_wf_def by blast
  then show ?thesis
    using assms set map_of_same_set [of "rev (map ?tag (pair_all s))" "ps_peers s"]
    by (simp add: pairs_from_def map_of_pairs_from pairs_wf_def)
qed

text \<open>Pairings survive a restart: after a pairing is recorded or removed successfully, a reload of
  the file finds exactly the pairings of the running table, with the new one present and verified by
  its fingerprint, or the removed one gone.\<close>

lemma pairings_survive_restart:
  assumes "pairs_wf s"
  shows "(\<forall>p s'. pair_upsert s p = (Inr (), s') \<longrightarrow>
      pair_get (pair_load (ps_file s') w) = (pair_get s)(pp_device_id p \<mapsto> p)
      \<and> verify_fingerprint (pair_load (ps_file s') w) (pp_device_id p) (pp_fingerprint p))
    \<and> (\<forall>d s'. pair_remove s d = (Inr True, s') \<longrightarrow>
      pair_get (pair_load (ps_file s') w) = (pair_get s)(d := None))"
proof (intro conjI allI impI)
  fix p s' assume u: "pair_upsert s p = (Inr (), s')"
  have wf: "pairs_wf s'" using pairs_wf_upsert [OF assms, of p] u by simp
  have s': "ps_file s' = Some (pair_all s')" "ps_peers s' = AList.update (pp_device_id p) p (ps_peers s)"
    using u by (auto simp: pair_upsert_def pair_persist_def pair_all_def split: if_splits)
  then show "pair_get (pair_load (ps_file s') w) = (pair_get s)(pp_device_id p \<mapsto> p)"
    using reload_same [OF wf] by (simp add: pair_get_def [abs_def] pair_load_def update_conv')
  then show "verify_fingerprint (pair_load (ps_file s') w) (pp_device_id p) (pp_fingerprint p)"
    by (simp add: verify_fingerprint_def)
next
  fix d s' assume r: "pair_remove s d = (Inr True, s')"
  have wf: "pairs_wf s'" using pairs_wf_remove [OF assms, of d] r by simp
  have "ps_file s' = Some (pair_all s')" "ps_peers s' = AList.delete d (ps_peers s)"
    using r by (auto simp: pair_remove_def pair_persist_def pair_all_def Let_def split: if_splits)
  then show "pair_get (pair_load (ps_file s') w) = (pair_get s)(d := None)"
    using reload_same [OF wf] by (simp add: pair_get_def [abs_def] pair_load_def delete_conv')
qed

definition demo_peer :: "string \<Rightarrow> paired_peer" where
  "demo_peer d =
     \<lparr>pp_device_id = d, pp_device_name = ''n'', pp_fingerprint = ''f'' @ d, pp_pubkey_b64 = ''k'' @ d,
      pp_paired_at = 0\<rparr>"

lemma pairings_survive_restart_witness:
  "let s1 = snd (pair_upsert (pair_load None True) (demo_peer ''b''));
       s2 = snd (pair_upsert s1 (demo_peer ''a''));
       s3 = snd (pair_remove s2 ''b'')
   in verify_fingerprint (pair_load (ps_file s2) True) ''a'' ''fa''
      \<and> pair_get (pair_load (ps_file s3) True) ''b'' = None"
proof -
  let ?s1 = "snd (pair_upsert (pair_load None True) (demo_peer ''b''))"
  let ?s2 = "snd (pair_upsert ?s1 (demo_peer ''a''))"
  have wf: "pairs_wf ?s1" "pairs_wf ?s2" by (intro inv_intros)+
  have "pair_upsert ?s1 (demo_peer ''a'') = (Inr (), ?s2)"
    by (simp add: pair_upsert_def pair_persist_def pair_load_def)
  moreover have "pair_remove ?s2 ''b'' = (Inr True, snd (pair_remove ?s2 ''b''))"
    by (simp add: pair_remove_def pair_upsert_def pair_persist_def pair_load_def demo_peer_def)
  ultimately show ?thesis
    using pairings_survive_restart [OF wf(1), of True] pairings_survive_restart [OF wf(2), of True]
    unfolding Let_def by (fastforce simp: demo_peer_def)
qed

end
