(* ===== verification/Secure_Session.thy ===== *)
theory Secure_Session
  imports Host_Wire Host_Device Sync_Session
begin

text \<open>
  Authenticated sessions between paired devices: the handshake and the encrypted frames of the
  keyboard and mouse sharing (\<open>crates/kvm-core/src/session.rs\<close>), the encrypted messages of the
  synchronisation (\<open>crates/sync-core/src/transport.rs\<close>), and the registry of accepted sessions
  with its handles.  X25519, the key derivation and the JSON and base64 codecs are arguments.
\<close>

section \<open>Handshake\<close>

record hello_payload =
  hp_device_id :: string
  hp_device_name :: string
  hp_fingerprint :: string
  hp_eph_pubkey_b64 :: string
  hp_proto_ver :: nat

record session_crypto =
  sx_dh :: "bytes \<Rightarrow> bytes \<Rightarrow> bytes option"
  sx_pub_of :: "bytes \<Rightarrow> bytes"
  sx_kdf :: key_kdf
  sx_b64_encode :: "bytes \<Rightarrow> string"
  sx_b64_decode :: "string \<Rightarrow> bytes option"
  sx_hello_json :: "hello_payload \<Rightarrow> bytes"
  sx_hello_parse :: "bytes \<Rightarrow> hello_payload option"

definition parse_hello :: "session_crypto \<Rightarrow> frame \<Rightarrow> wire_error + hello_payload" where
  "parse_hello sx f =
     (if fr_type f \<noteq> Hello then Inl Kvm010
      else
        res_bind (ok_or Kvm010 (sx_hello_parse sx (fr_payload f)))
          (\<lambda>h. if hp_proto_ver h \<noteq> proto_ver then Inl Kvm013 else Inr h))"

definition pubkey_of_b64 :: "session_crypto \<Rightarrow> string \<Rightarrow> wire_error + bytes" where
  "pubkey_of_b64 sx s =
     res_bind (ok_or Kvm011 (sx_b64_decode sx s))
       (\<lambda>raw. if length raw = key_len then Inr raw else Inl Kvm011)"

definition verify_peer ::
    "session_crypto \<Rightarrow> pair_store \<Rightarrow> hello_payload \<Rightarrow> wire_error + paired_peer \<times> bytes" where
  "verify_peer sx store h =
     res_bind (ok_or Kvm007 (pair_get store (hp_device_id h))) (\<lambda>peer.
       if pp_fingerprint peer \<noteq> hp_fingerprint h then Inl Kvm008
       else res_bind (pubkey_of_b64 sx (pp_pubkey_b64 peer)) (\<lambda>k. Inr (peer, k)))"

definition own_hello :: "session_crypto \<Rightarrow> device_identity \<Rightarrow> bytes \<Rightarrow> frame" where
  "own_hello sx i eph_pub =
     \<lparr>fr_type = Hello, fr_flags = 0,
      fr_payload = sx_hello_json sx
        \<lparr>hp_device_id = di_device_id i, hp_device_name = di_device_name i,
         hp_fingerprint = di_fingerprint i, hp_eph_pubkey_b64 = sx_b64_encode sx eph_pub,
         hp_proto_ver = proto_ver\<rparr>\<rparr>"

definition session_keys_from ::
    "session_crypto \<Rightarrow> device_identity \<Rightarrow> bytes \<Rightarrow> bytes \<Rightarrow> string \<Rightarrow> wire_error + directional_keys" where
  "session_keys_from sx i peer_static dh2 peer_fingerprint =
     res_bind (ok_or Kvm011 (sx_dh sx (di_secret i) peer_static)) (\<lambda>dh1.
       Inr (derive_directional_keys (sx_kdf sx) (dh1 @ dh2)
              (concat (map str_bytes (sort [di_fingerprint i, peer_fingerprint])))))"

definition ephemeral_dh2 :: "session_crypto \<Rightarrow> bytes \<Rightarrow> bytes \<Rightarrow> wire_error + bytes" where
  "ephemeral_dh2 sx eph peer_eph = ok_or Kvm011 (sx_dh sx eph peer_eph)"

text \<open>The keys of a side once it holds the other side's hello.\<close>

definition session_ciphers ::
    "session_crypto \<Rightarrow> device_identity \<Rightarrow> bytes \<Rightarrow> bool \<Rightarrow> paired_peer \<Rightarrow> bytes \<Rightarrow> bytes
       \<Rightarrow> wire_error + frame_cipher \<times> frame_cipher \<times> paired_peer" where
  "session_ciphers sx i eph initiator peer peer_static peer_eph =
     res_bind (ephemeral_dh2 sx eph peer_eph) (\<lambda>dh2.
       res_bind (session_keys_from sx i peer_static dh2 (pp_fingerprint peer)) (\<lambda>keys.
         case directional_pair keys initiator of
           (rx, tx) \<Rightarrow> Inr (cipher_new rx, cipher_new tx, peer)))"

text \<open>The server's handshake on the first frame: its reply, if it sends one, and the outcome.\<close>

definition server_handshake ::
    "session_crypto \<Rightarrow> device_identity \<Rightarrow> pair_store \<Rightarrow> bytes \<Rightarrow> frame
       \<Rightarrow> frame option \<times> (wire_error + frame_cipher \<times> frame_cipher \<times> paired_peer)" where
  "server_handshake sx i store eph first =
     (case res_bind (parse_hello sx first) (\<lambda>h.
             res_bind (verify_peer sx store h) (\<lambda>(peer, peer_static).
               res_bind (pubkey_of_b64 sx (hp_eph_pubkey_b64 h)) (\<lambda>peer_eph.
                 Inr (peer, peer_static, peer_eph)))) of
        Inl e \<Rightarrow> (None, Inl e)
      | Inr (peer, peer_static, peer_eph) \<Rightarrow>
          (Some (own_hello sx i (sx_pub_of sx eph)),
           session_ciphers sx i eph False peer peer_static peer_eph))"

text \<open>The client sends its hello and finishes on the server's reply.\<close>

definition client_finish ::
    "session_crypto \<Rightarrow> device_identity \<Rightarrow> pair_store \<Rightarrow> bytes \<Rightarrow> frame
       \<Rightarrow> wire_error + frame_cipher \<times> frame_cipher \<times> paired_peer" where
  "client_finish sx i store eph reply =
     res_bind (parse_hello sx reply) (\<lambda>h.
       res_bind (verify_peer sx store h) (\<lambda>(peer, peer_static).
         res_bind (pubkey_of_b64 sx (hp_eph_pubkey_b64 h)) (\<lambda>peer_eph.
           session_ciphers sx i eph True peer peer_static peer_eph)))"

text \<open>The whole exchange over a reliable stream.\<close>

definition handshake ::
    "session_crypto \<Rightarrow> device_identity \<Rightarrow> pair_store \<Rightarrow> bytes \<Rightarrow> device_identity \<Rightarrow> pair_store \<Rightarrow> bytes
       \<Rightarrow> (wire_error + frame_cipher \<times> frame_cipher \<times> paired_peer)
          \<times> (wire_error + frame_cipher \<times> frame_cipher \<times> paired_peer)" where
  "handshake sx client cstore ceph server sstore seph =
     (case server_handshake sx server sstore seph (own_hello sx client (sx_pub_of sx ceph)) of
        (None, r) \<Rightarrow> (Inl Kvm006, r)
      | (Some reply, r) \<Rightarrow> (client_finish sx client cstore ceph reply, r))"

text \<open>What the primitives promise: Diffie-Hellman commutes, keys have 32 bytes, codecs invert.\<close>

definition crypto_ok :: "session_crypto \<Rightarrow> bool" where
  "crypto_ok sx \<longleftrightarrow>
     (\<forall>a b. sx_dh sx a (sx_pub_of sx b) = sx_dh sx b (sx_pub_of sx a))
     \<and> (\<forall>a. length (sx_pub_of sx a) = key_len)
     \<and> (\<forall>b. sx_b64_decode sx (sx_b64_encode sx b) = Some b)
     \<and> (\<forall>h. sx_hello_parse sx (sx_hello_json sx h) = Some h)"

text \<open>A store that holds the pairing record of a device.\<close>

definition knows :: "session_crypto \<Rightarrow> pair_store \<Rightarrow> device_identity \<Rightarrow> bool" where
  "knows sx store i \<longleftrightarrow>
     (\<exists>p. pair_get store (di_device_id i) = Some p \<and> pp_fingerprint p = di_fingerprint i
        \<and> pp_pubkey_b64 p = sx_b64_encode sx (sx_pub_of sx (di_secret i)))"

lemma parse_own_hello [simp]:
  "crypto_ok sx \<Longrightarrow> parse_hello sx (own_hello sx i k) = Inr
     \<lparr>hp_device_id = di_device_id i, hp_device_name = di_device_name i,
      hp_fingerprint = di_fingerprint i, hp_eph_pubkey_b64 = sx_b64_encode sx k, hp_proto_ver = proto_ver\<rparr>"
  by (simp add: parse_hello_def own_hello_def crypto_ok_def)

lemma pubkey_roundtrip [simp]:
  "crypto_ok sx \<Longrightarrow> pubkey_of_b64 sx (sx_b64_encode sx (sx_pub_of sx a)) = Inr (sx_pub_of sx a)"
  by (simp add: pubkey_of_b64_def crypto_ok_def)

lemma sort_pair_commute: "sort [a, b] = sort [b, a :: string]"
  by (rule properties_for_sort) (auto simp: insort_key.simps add_mset_commute)

text \<open>C9. Paired devices agree on the session: when each side's store holds the other's record and the
  Diffie-Hellman results are usable, the handshake succeeds on both sides, the client's receiving
  cipher is the server's sending cipher and the reverse, and each side learns the other's record.\<close>

theorem handshake_agrees:
  assumes "crypto_ok sx" and "knows sx cstore server" and "knows sx sstore client"
    and "sx_dh sx (di_secret client) (sx_pub_of sx (di_secret server)) \<noteq> None"
    and "sx_dh sx ceph (sx_pub_of sx seph) \<noteq> None"
  shows "\<exists>a b ps pc. handshake sx client cstore ceph server sstore seph = (Inr (a, b, ps), Inr (b, a, pc))
    \<and> pair_get cstore (di_device_id server) = Some ps \<and> pair_get sstore (di_device_id client) = Some pc
    \<and> fc_counter a = 0 \<and> fc_counter b = 0"
proof -
  obtain ps where ps: "pair_get cstore (di_device_id server) = Some ps" "pp_fingerprint ps = di_fingerprint server"
    "pp_pubkey_b64 ps = sx_b64_encode sx (sx_pub_of sx (di_secret server))"
    using assms(2) by (auto simp: knows_def)
  obtain pc where pc: "pair_get sstore (di_device_id client) = Some pc" "pp_fingerprint pc = di_fingerprint client"
    "pp_pubkey_b64 pc = sx_b64_encode sx (sx_pub_of sx (di_secret client))"
    using assms(3) by (auto simp: knows_def)
  obtain dh1 dh2 where dh: "sx_dh sx (di_secret client) (sx_pub_of sx (di_secret server)) = Some dh1"
    "sx_dh sx ceph (sx_pub_of sx seph) = Some dh2"
    using assms(4,5) by auto
  have comm: "sx_dh sx a (sx_pub_of sx b) = sx_dh sx b (sx_pub_of sx a)" for a b
    using assms(1) by (simp add: crypto_ok_def)
  define keys where "keys = derive_directional_keys (sx_kdf sx) (dh1 @ dh2)
    (concat (map str_bytes (sort [di_fingerprint client, di_fingerprint server])))"
  have "session_ciphers sx client ceph True ps (sx_pub_of sx (di_secret server)) (sx_pub_of sx seph)
      = Inr (cipher_new (dk_r2i keys), cipher_new (dk_i2r keys), ps)"
    by (simp add: session_ciphers_def ephemeral_dh2_def session_keys_from_def dh ps(2) keys_def
        directional_pair_def)
  moreover have "session_ciphers sx server seph False pc (sx_pub_of sx (di_secret client)) (sx_pub_of sx ceph)
      = Inr (cipher_new (dk_i2r keys), cipher_new (dk_r2i keys), pc)"
    unfolding session_ciphers_def ephemeral_dh2_def session_keys_from_def pc(2)
      comm [of seph] comm [of "di_secret server"] dh keys_def
      sort_pair_commute [of "di_fingerprint server"]
    by (simp add: directional_pair_def)
  ultimately have "handshake sx client cstore ceph server sstore seph =
      (Inr (cipher_new (dk_r2i keys), cipher_new (dk_i2r keys), ps),
       Inr (cipher_new (dk_i2r keys), cipher_new (dk_r2i keys), pc))"
    using assms(1) ps pc
    by (simp add: handshake_def server_handshake_def client_finish_def verify_peer_def)
  then show ?thesis using ps(1) pc(1) by (auto simp: cipher_new_def)
qed

lemma session_ciphers_peer:
  "session_ciphers sx i eph ini peer k pe = Inr (rx, tx, p) \<Longrightarrow>
     p = peer \<and> (\<exists>dh1. sx_dh sx (di_secret i) k = Some dh1)"
  by (auto simp: session_ciphers_def session_keys_from_def directional_pair_def res_bind_eq_Inr
      split: prod.splits if_splits)

text \<open>Nobody else gets in: a server that completes a handshake does so with a device of its pairing
  table, which presented that device's identifier and fingerprint and the current protocol version,
  and uses the public key of the pairing record.\<close>

lemma only_paired_devices_admitted:
  assumes "server_handshake sx i store eph first = (reply, Inr (rx, tx, peer))"
  shows "\<exists>h k dh1. fr_type first = Hello \<and> sx_hello_parse sx (fr_payload first) = Some h
    \<and> hp_proto_ver h = proto_ver \<and> pair_get store (hp_device_id h) = Some peer
    \<and> verify_fingerprint store (hp_device_id h) (hp_fingerprint h)
    \<and> sx_b64_decode sx (pp_pubkey_b64 peer) = Some k \<and> sx_dh sx (di_secret i) k = Some dh1"
proof -
  have "\<exists>h k pe. fr_type first = Hello \<and> sx_hello_parse sx (fr_payload first) = Some h
    \<and> hp_proto_ver h = proto_ver \<and> pair_get store (hp_device_id h) = Some peer
    \<and> pp_fingerprint peer = hp_fingerprint h
    \<and> sx_b64_decode sx (pp_pubkey_b64 peer) = Some k \<and> (\<exists>dh1. sx_dh sx (di_secret i) k = Some dh1)"
    using assms
    by (auto simp: server_handshake_def parse_hello_def verify_peer_def pubkey_of_b64_def
        res_bind_eq_Inr split: sum.splits prod.splits if_splits dest!: session_ciphers_peer)
  then show ?thesis by (auto simp: verify_fingerprint_def)
qed

text \<open>A concrete instance of the primitives for the examples: strings are escaped and terminated,
  the shared secret is the sum of the public keys.\<close>

fun demo_enc_str :: "string \<Rightarrow> bytes" where
  "demo_enc_str [] = [0]"
| "demo_enc_str (c # s) = 1 # of_nat (of_char c) # demo_enc_str s"

fun demo_dec_str :: "bytes \<Rightarrow> (string \<times> bytes) option" where
  "demo_dec_str (m # b # r) =
     (if m = 0 then Some ([], b # r)
      else map_option (\<lambda>(s, r'). (char_of (unat b) # s, r')) (demo_dec_str r))"
| "demo_dec_str [m] = (if m = 0 then Some ([], []) else None)"
| "demo_dec_str [] = None"

lemma demo_str_roundtrip [simp]: "demo_dec_str (demo_enc_str s @ r) = Some (s, r)"
proof (induction s)
  case Nil
  then show ?case by (cases r) simp_all
next
  case (Cons c s)
  have "unat (of_nat (of_char c) :: byte) = of_char c"
    by (rule unat_of_nat_small) (use nat_of_char_less_256 [of c] in simp)
  with Cons show ?case by simp
qed

definition demo_hello_json :: "hello_payload \<Rightarrow> bytes" where
  "demo_hello_json h =
     demo_enc_str (hp_device_id h) @ demo_enc_str (hp_device_name h) @ demo_enc_str (hp_fingerprint h)
     @ demo_enc_str (hp_eph_pubkey_b64 h) @ demo_enc_str (replicate (hp_proto_ver h) (CHR ''x'')) @ []"

definition demo_hello_parse :: "bytes \<Rightarrow> hello_payload option" where
  "demo_hello_parse bs =
     Option.bind (demo_dec_str bs) (\<lambda>(a, r). Option.bind (demo_dec_str r) (\<lambda>(b, r).
       Option.bind (demo_dec_str r) (\<lambda>(c, r). Option.bind (demo_dec_str r) (\<lambda>(d, r).
         Option.bind (demo_dec_str r) (\<lambda>(e, r). Some
           \<lparr>hp_device_id = a, hp_device_name = b, hp_fingerprint = c, hp_eph_pubkey_b64 = d,
            hp_proto_ver = length e\<rparr>)))))"

definition demo_pub :: "bytes \<Rightarrow> bytes" where
  "demo_pub b = take 32 (b @ replicate 32 0)"

definition demo_crypto :: session_crypto where
  "demo_crypto =
     \<lparr>sx_dh = (\<lambda>a k. Some (map2 (+) (demo_pub a) k)), sx_pub_of = demo_pub,
      sx_kdf = \<lparr>kdf_sha256 = (\<lambda>b. b), kdf_hkdf = (\<lambda>salt ikm info. salt @ ikm @ str_bytes info)\<rparr>,
      sx_b64_encode = map (\<lambda>w. char_of (unat w)), sx_b64_decode = (\<lambda>s. Some (str_bytes s)),
      sx_hello_json = demo_hello_json, sx_hello_parse = demo_hello_parse\<rparr>"

lemma length_demo_pub [simp]: "length (demo_pub b) = 32"
  by (simp add: demo_pub_def)

lemma demo_crypto_ok: "crypto_ok demo_crypto"
proof -
  have "demo_hello_parse (demo_hello_json h) = Some h" for h
    by (simp add: demo_hello_parse_def demo_hello_json_def del: append_Nil2)
  moreover have "map2 (+) (demo_pub a) (demo_pub b) = map2 (+) (demo_pub b) (demo_pub a)" for a b
    by (rule nth_equalityI) (simp_all add: add.commute)
  ultimately show ?thesis
    by (simp add: crypto_ok_def demo_crypto_def key_len_def str_bytes_def comp_def)
qed

definition demo_identity :: "string \<Rightarrow> byte \<Rightarrow> device_identity" where
  "demo_identity d b = \<lparr>di_device_id = d, di_device_name = d, di_fingerprint = ''f'' @ d, di_secret = [b]\<rparr>"

definition demo_store :: "device_identity \<Rightarrow> pair_store" where
  "demo_store i = snd (pair_upsert (pair_load None True)
     \<lparr>pp_device_id = di_device_id i, pp_device_name = di_device_name i, pp_fingerprint = di_fingerprint i,
      pp_pubkey_b64 = sx_b64_encode demo_crypto (sx_pub_of demo_crypto (di_secret i)), pp_paired_at = 0\<rparr>)"

lemma demo_store_knows: "knows demo_crypto (demo_store i) i"
  by (simp add: knows_def demo_store_def pair_upsert_def pair_persist_def pair_load_def pair_get_def)

theorem handshake_agrees_witness:
  "let a = demo_identity ''A'' 3; b = demo_identity ''B'' 4
   in \<exists>x y ps pc. handshake demo_crypto a (demo_store b) [1] b (demo_store a) [2]
        = (Inr (x, y, ps), Inr (y, x, pc)) \<and> pp_device_id ps = ''B'' \<and> pp_device_id pc = ''A''"
proof -
  let ?a = "demo_identity ''A'' 3" and ?b = "demo_identity ''B'' 4"
  have "sx_dh demo_crypto k l \<noteq> None" for k l by (simp add: demo_crypto_def)
  from handshake_agrees [OF demo_crypto_ok demo_store_knows demo_store_knows this this, of ?a ?b "[1]" "[2]"]
  show ?thesis unfolding Let_def
    by (auto simp: demo_store_def pair_upsert_def pair_persist_def pair_load_def pair_get_def demo_identity_def)
qed

lemma only_paired_devices_admitted_witness:
  "let a = demo_identity ''A'' 3; b = demo_identity ''B'' 4
   in \<exists>rx tx peer. server_handshake demo_crypto b (demo_store a) [2]
          (own_hello demo_crypto a (demo_pub [1])) = (Some (own_hello demo_crypto b (demo_pub [2])), Inr (rx, tx, peer))
        \<and> verify_fingerprint (demo_store a) ''A'' ''fA''"
proof -
  let ?a = "demo_identity ''A'' 3" and ?b = "demo_identity ''B'' 4"
  let ?first = "own_hello demo_crypto ?a (sx_pub_of demo_crypto [1])"
  obtain p where p: "pair_get (demo_store ?a) (di_device_id ?a) = Some p"
    "pp_fingerprint p = di_fingerprint ?a"
    "pp_pubkey_b64 p = sx_b64_encode demo_crypto (sx_pub_of demo_crypto (di_secret ?a))"
    using demo_store_knows [of ?a] unfolding knows_def by blast
  have dh: "sx_dh demo_crypto k l = Some (map2 (+) (demo_pub k) l)" for k l
    by (simp add: demo_crypto_def)
  obtain rx tx where s: "server_handshake demo_crypto ?b (demo_store ?a) [2] ?first
      = (Some (own_hello demo_crypto ?b (sx_pub_of demo_crypto [2])), Inr (rx, tx, p))"
    by (simp add: server_handshake_def demo_crypto_ok verify_peer_def p session_ciphers_def
        ephemeral_dh2_def session_keys_from_def dh directional_pair_def)
  have pub: "sx_pub_of demo_crypto = demo_pub" by (simp add: demo_crypto_def)
  have "sx_hello_parse demo_crypto (fr_payload ?first) = Some \<lparr>hp_device_id = ''A'', hp_device_name = ''A'',
      hp_fingerprint = ''fA'', hp_eph_pubkey_b64 = sx_b64_encode demo_crypto (demo_pub [1]), hp_proto_ver = proto_ver\<rparr>"
    using demo_crypto_ok by (simp add: own_hello_def crypto_ok_def demo_identity_def pub)
  with only_paired_devices_admitted [OF s] have "verify_fingerprint (demo_store ?a) ''A'' ''fA''" by auto
  with s show ?thesis unfolding Let_def pub by blast
qed

section \<open>Encrypted frames\<close>

definition nonce_len :: nat where "nonce_len = 12"
definition tag_len :: nat where "tag_len = 16"

definition write_encrypted_frame ::
    "aead \<Rightarrow> frame_cipher \<Rightarrow> frame \<Rightarrow> (wire_error + bytes) \<times> frame_cipher" where
  "write_encrypted_frame ae c f =
     (case seal ae c (fr_payload f) of
        (Inl e, c1) \<Rightarrow> (Inl e, c1)
      | (Inr (nonce, ct), c1) \<Rightarrow>
          (Inr (write_frame [] \<lparr>fr_type = fr_type f, fr_flags = fr_flags f, fr_payload = nonce @ ct\<rparr>), c1))"

definition read_encrypted_frame ::
    "aead \<Rightarrow> frame_cipher \<Rightarrow> bytes \<Rightarrow> (wire_error + frame \<times> bytes) \<times> frame_cipher" where
  "read_encrypted_frame ae c s =
     (case read_frame s of
        Inl e \<Rightarrow> (Inl e, c)
      | Inr (f, rest) \<Rightarrow>
          if length (fr_payload f) < nonce_len + tag_len then (Inl Kvm005, c)
          else
            (case open_frame ae c (take nonce_len (fr_payload f)) (drop nonce_len (fr_payload f)) of
               (Inl e, c1) \<Rightarrow> (Inl e, c1)
             | (Inr pt, c1) \<Rightarrow>
                 (Inr (\<lparr>fr_type = fr_type f, fr_flags = fr_flags f, fr_payload = pt\<rparr>, rest), c1)))"

section \<open>Messages of the synchronisation\<close>

record msg_codec =
  mc_encode :: "sync_msg \<Rightarrow> bytes"
  mc_decode :: "bytes \<Rightarrow> sync_msg option"

definition write_msg ::
    "aead \<Rightarrow> msg_codec \<Rightarrow> frame_cipher \<Rightarrow> sync_msg \<Rightarrow> (sync_error + bytes) \<times> frame_cipher" where
  "write_msg ae mc c m =
     (case seal ae c (mc_encode mc m) of
        (Inl e, c1) \<Rightarrow> (Inl (SyncNet ''seal''), c1)
      | (Inr (nonce, ct), c1) \<Rightarrow>
          let body = nonce @ ct in (Inr (u32_to_be (of_nat (length body)) @ body), c1))"

definition read_msg ::
    "aead \<Rightarrow> msg_codec \<Rightarrow> frame_cipher \<Rightarrow> bytes \<Rightarrow> (sync_error + sync_msg \<times> bytes) \<times> frame_cipher" where
  "read_msg ae mc c s =
     (case read_exact 4 s of
        Inl _ \<Rightarrow> (Inl (SyncNet ''eof''), c)
      | Inr (b, s1) \<Rightarrow>
          let len = unat (frame_len b) in
          if len < 12 + 16 \<or> 4 * 1024 * 1024 < len then (Inl (SyncProto ''length''), c)
          else
            (case read_exact len s1 of
               Inl _ \<Rightarrow> (Inl (SyncNet ''eof''), c)
             | Inr (body, s2) \<Rightarrow>
                 (case open_frame ae c (take 12 body) (drop 12 body) of
                    (Inl _, c1) \<Rightarrow> (Inl (SyncNet ''open''), c1)
                  | (Inr plain, c1) \<Rightarrow>
                      (case mc_decode mc plain of
                         None \<Rightarrow> (Inl (SyncProto ''payload''), c1)
                       | Some m \<Rightarrow> (Inr (m, s2), c1)))))"

section \<open>What a stream of sealed messages delivers\<close>

text \<open>The contract the sessions rely on: a message that is sent is the next one received, whatever
  follows it on the stream, as long as the two ends are in step.\<close>

fun send_all :: "('tx \<Rightarrow> 'm \<Rightarrow> ('e + bytes) \<times> 'tx) \<Rightarrow> 'tx \<Rightarrow> 'm list \<Rightarrow> (bytes \<times> 'tx) option" where
  "send_all send tx [] = Some ([], tx)"
| "send_all send tx (m # ms) =
     (case send tx m of
        (Inl _, _) \<Rightarrow> None
      | (Inr w, tx1) \<Rightarrow>
          (case send_all send tx1 ms of None \<Rightarrow> None | Some (ws, tx2) \<Rightarrow> Some (w @ ws, tx2)))"

fun recv_all ::
    "('rx \<Rightarrow> bytes \<Rightarrow> ('e + 'm \<times> bytes) \<times> 'rx) \<Rightarrow> 'rx \<Rightarrow> bytes \<Rightarrow> nat \<Rightarrow> ('m list \<times> bytes \<times> 'rx) option" where
  "recv_all recv rx s 0 = Some ([], s, rx)"
| "recv_all recv rx s (Suc n) =
     (case recv rx s of
        (Inl _, _) \<Rightarrow> None
      | (Inr (m, s1), rx1) \<Rightarrow> map_option (\<lambda>(ms, r). (m # ms, r)) (recv_all recv rx1 s1 n))"

locale message_stream =
  fixes send :: "'tx \<Rightarrow> 'm \<Rightarrow> ('e + bytes) \<times> 'tx"
    and recv :: "'rx \<Rightarrow> bytes \<Rightarrow> ('d + 'm \<times> bytes) \<times> 'rx"
    and in_step :: "'tx \<Rightarrow> 'rx \<Rightarrow> bool"
    and fits :: "'m \<Rightarrow> bool"
  assumes deliver: "in_step tx rx \<Longrightarrow> fits m \<Longrightarrow> send tx m = (Inr w, tx') \<Longrightarrow>
    \<exists>rx'. recv rx (w @ rest) = (Inr (m, rest), rx') \<and> in_step tx' rx'"
begin

lemma stream_delivers:
  assumes "in_step tx rx" and "\<forall>m\<in>set ms. fits m" and "send_all send tx ms = Some (w, tx')"
  shows "\<exists>rx'. recv_all recv rx (w @ rest) (length ms) = Some (ms, rest, rx') \<and> in_step tx' rx'"
  using assms
proof (induction ms arbitrary: tx rx w)
  case (Cons m ms)
  obtain w1 tx1 ws where 1: "send tx m = (Inr w1, tx1)" "send_all send tx1 ms = Some (ws, tx')" "w = w1 @ ws"
    using Cons.prems(3) by (auto split: prod.splits sum.splits option.splits)
  obtain rx1 where 2: "recv rx (w1 @ ws @ rest) = (Inr (m, ws @ rest), rx1)" "in_step tx1 rx1"
    using deliver [OF Cons.prems(1) _ 1(1), of "ws @ rest"] Cons.prems(2) by auto
  from Cons.IH [OF 2(2) _ 1(2)] Cons.prems(2) obtain rx'
    where "recv_all recv rx1 (ws @ rest) (length ms) = Some (ms, rest, rx')" "in_step tx' rx'"
    by auto
  then show ?case using 1(3) 2(1) by simp
qed simp

end

definition ciphers_in_step :: "aead \<Rightarrow> frame_cipher \<Rightarrow> frame_cipher \<Rightarrow> bool" where
  "ciphers_in_step ae tx rx \<longleftrightarrow> aead_ok ae \<and> tx = rx"

lemma seal_open:
  assumes "ciphers_in_step ae tx rx" and "seal ae tx m = (Inr (nonce, ct), tx')"
  shows "length nonce = 12" and "length ct = length m + 16"
    and "open_frame ae rx nonce ct = (Inr m, tx')" and "ciphers_in_step ae tx' tx'"
proof -
  have n: "nonce = counter_nonce (fc_counter tx)" "tx' = tx\<lparr>fc_counter := fc_counter tx + 1\<rparr>"
    and e: "aead_encrypt ae (fc_key tx) nonce m = Some ct"
    using assms(2) by (auto simp: seal_def next_nonce_def res_bind_eq_Inr)
  have ok: "aead_ok ae" "rx = tx" using assms(1) by (simp_all add: ciphers_in_step_def)
  from ok(1) e have "aead_decrypt ae (fc_key tx) nonce ct = Some m" "length ct = length m + 16"
    by (simp_all add: aead_ok_def)
  then show "length nonce = 12" "length ct = length m + 16"
    "open_frame ae rx nonce ct = (Inr m, tx')" "ciphers_in_step ae tx' tx'"
    using ok n by (simp_all add: open_frame_def ciphers_in_step_def)
qed

definition frame_fits :: "frame \<Rightarrow> bool" where
  "frame_fits f \<longleftrightarrow> length (fr_payload f) + 28 \<le> max_payload"

definition msg_fits :: "msg_codec \<Rightarrow> sync_msg \<Rightarrow> bool" where
  "msg_fits mc m \<longleftrightarrow> mc_decode mc (mc_encode mc m) = Some m \<and> length (mc_encode mc m) + 28 \<le> 4 * 1024 * 1024"

interpretation kvm: message_stream "write_encrypted_frame ae" "read_encrypted_frame ae" "ciphers_in_step ae" frame_fits
  for ae
proof unfold_locales
  fix tx rx m w tx' rest
  assume a: "ciphers_in_step ae tx rx" "frame_fits m" "write_encrypted_frame ae tx m = (Inr w, tx')"
  obtain nonce ct where s: "seal ae tx (fr_payload m) = (Inr (nonce, ct), tx')"
    and w: "w = write_frame [] \<lparr>fr_type = fr_type m, fr_flags = fr_flags m, fr_payload = nonce @ ct\<rparr>"
    using a(3) by (auto simp: write_encrypted_frame_def split: prod.splits sum.splits)
  note o = seal_open [OF a(1) s]
  let ?f = "\<lparr>fr_type = fr_type m, fr_flags = fr_flags m, fr_payload = nonce @ ct\<rparr>"
  have "payload_fits ?f" using a(2) o(1,2) by (simp add: payload_fits_def frame_fits_def)
  then have "read_frame (w @ rest) = Inr (?f, rest)"
    using read_frame_encode [of ?f rest] by (simp add: w write_frame_def)
  then have "read_encrypted_frame ae rx (w @ rest) = (Inr (m, rest), tx')"
    using o by (simp add: read_encrypted_frame_def nonce_len_def tag_len_def)
  then show "\<exists>rx'. read_encrypted_frame ae rx (w @ rest) = (Inr (m, rest), rx') \<and> ciphers_in_step ae tx' rx'"
    using o(4) by blast
qed

lemma read_msg_written:
  assumes "ciphers_in_step ae tx rx" and "write_msg ae mc tx m = (Inr w, tx')"
    and "length (mc_encode mc m) < 2 ^ 31"
  shows "read_msg ae mc rx (w @ rest) =
    (if 4 * 1024 * 1024 < length (mc_encode mc m) + 28 then (Inl (SyncProto ''length''), rx)
     else case mc_decode mc (mc_encode mc m) of
        None \<Rightarrow> (Inl (SyncProto ''payload''), tx') | Some m' \<Rightarrow> (Inr (m', rest), tx'))"
proof -
  obtain nonce ct where s: "seal ae tx (mc_encode mc m) = (Inr (nonce, ct), tx')"
    and w: "w = u32_to_be (of_nat (length (nonce @ ct))) @ nonce @ ct"
    using assms(2) by (auto simp: write_msg_def Let_def split: prod.splits sum.splits)
  note o = seal_open [OF assms(1) s]
  have n: "length (nonce @ ct) = length (mc_encode mc m) + 28" using o(1,2) by simp
  have "length (nonce @ ct) < 2 ^ LENGTH(32)" using n assms(3) by simp
  then have u: "unat (of_nat (length (nonce @ ct)) :: 32 word) = length (mc_encode mc m) + 28"
    using n by (simp only: unat_of_nat_small)
  show ?thesis
    unfolding w read_msg_def read_exact_def
    using o(1,2,3) by (simp add: Let_def u del: length_append of_nat_add)
      (simp add: n split: option.split)
qed

interpretation sync: message_stream "write_msg ae mc" "read_msg ae mc" "ciphers_in_step ae" "msg_fits mc"
  for ae mc
proof unfold_locales
  fix tx rx m w tx' rest
  assume a: "ciphers_in_step ae tx rx" "msg_fits mc m" "write_msg ae mc tx m = (Inr w, tx')"
  obtain nonce ct where s: "seal ae tx (mc_encode mc m) = (Inr (nonce, ct), tx')"
    using a(3) by (auto simp: write_msg_def split: prod.splits sum.splits)
  show "\<exists>rx'. read_msg ae mc rx (w @ rest) = (Inr (m, rest), rx') \<and> ciphers_in_step ae tx' rx'"
    using read_msg_written [OF a(1,3), of rest] a(2) seal_open(4) [OF a(1) s] by (simp add: msg_fits_def)
qed

text \<open>C32. Encrypted frames arrive: whatever sequence of frames a session's writer sends, none of them larger
  than the reader's limit of 4 MiB once sealed (the writer itself does not check this), the other side's
  reader receives exactly these frames, in order, with their types and flags, and nothing of what
  follows is consumed; afterwards both ends are in step again.\<close>

theorem encrypted_frames_arrive:
  assumes "aead_ok ae" and "\<forall>f\<in>set fs. frame_fits f"
    and "send_all (write_encrypted_frame ae) (cipher_new key) fs = Some (w, tx)"
  shows "recv_all (read_encrypted_frame ae) (cipher_new key) (w @ rest) (length fs) = Some (fs, rest, tx)"
  using kvm.stream_delivers [of ae "cipher_new key" "cipher_new key" fs w tx rest] assms
  by (auto simp: ciphers_in_step_def)

theorem encrypted_frames_arrive_witness:
  "let f = \<lparr>fr_type = Ping, fr_flags = 0, fr_payload = []\<rparr>; g = \<lparr>fr_type = ClipData, fr_flags = 1, fr_payload = [5]\<rparr>;
       w = fst (the (send_all (write_encrypted_frame demo_aead) (cipher_new [9]) [f, g]))
   in map_option fst (recv_all (read_encrypted_frame demo_aead) (cipher_new [9]) (w @ [1, 2]) 2) = Some [f, g]"
proof -
  let ?f = "\<lparr>fr_type = Ping, fr_flags = 0, fr_payload = []\<rparr>"
  let ?g = "\<lparr>fr_type = ClipData, fr_flags = 1, fr_payload = [5]\<rparr>"
  obtain w tx where w: "send_all (write_encrypted_frame demo_aead) (cipher_new [9]) [?f, ?g] = Some (w, tx)"
    by (simp add: write_encrypted_frame_def seal_def next_nonce_def demo_aead_def)
  have "recv_all (read_encrypted_frame demo_aead) (cipher_new [9]) (w @ [1, 2]) (length [?f, ?g])
      = Some ([?f, ?g], [1, 2], tx)"
    by (rule encrypted_frames_arrive [OF demo_aead_ok _ w]) (simp add: frame_fits_def max_payload_def)
  then have "recv_all (read_encrypted_frame demo_aead) (cipher_new [9]) (w @ [1, 2]) 2
      = Some ([?f, ?g], [1, 2], tx)"
    unfolding numeral_2_eq_2 list.size add_0_right add_Suc_right .
  then show ?thesis unfolding Let_def w option.sel fst_conv by (simp only: option.map fst_conv)
qed

text \<open>A message of more than 4194276 bytes of JSON can be sent but never received: the sender
  reports success, the receiver refuses it by its length. A batch of up to 512 changes has no bound
  on its size, so a batch of large notes fails in this way at every attempt.\<close>

lemma large_message_refused:
  assumes "aead_ok ae" and "write_msg ae mc c m = (Inr w, c')"
    and "4 * 1024 * 1024 - 28 < length (mc_encode mc m)" and "length (mc_encode mc m) < 2 ^ 31"
  shows "read_msg ae mc c (w @ rest) = (Inl (SyncProto ''length''), c)"
proof -
  have "ciphers_in_step ae c c" using assms(1) by (simp add: ciphers_in_step_def)
  from read_msg_written [OF this assms(2,4)] assms(3) show ?thesis by simp
qed

definition demo_big_codec :: msg_codec where
  "demo_big_codec = \<lparr>mc_encode = (\<lambda>m. replicate (5 * 1024 * 1024) 0), mc_decode = (\<lambda>b. Some (Pull 0))\<rparr>"

lemma large_message_refused_witness:
  "\<exists>w c'. write_msg demo_aead demo_big_codec (cipher_new []) (Push [] False) = (Inr w, c')
     \<and> read_msg demo_aead demo_big_codec (cipher_new []) w = (Inl (SyncProto ''length''), cipher_new [])"
proof -
  obtain w c' where w: "write_msg demo_aead demo_big_codec (cipher_new []) (Push [] False) = (Inr w, c')"
    by (simp add: write_msg_def seal_def next_nonce_def demo_aead_def Let_def)
  have len: "length (mc_encode demo_big_codec (Push [] False)) = 5 * 1024 * 1024"
    by (simp add: demo_big_codec_def)
  have "read_msg demo_aead demo_big_codec (cipher_new []) (w @ []) = (Inl (SyncProto ''length''), cipher_new [])"
    by (rule large_message_refused [OF demo_aead_ok w]) (simp_all only: len, simp_all)
  with w show ?thesis by auto
qed

text \<open>The frame header is not authenticated: a frame whose type or flags were altered on the way is
  accepted with the altered header, since only the payload is sealed.\<close>

lemma altered_header_accepted:
  assumes "aead_ok ae" and "seal ae c pt = (Inr (nonce, ct), c')" and "length pt + 28 \<le> max_payload"
  shows "read_encrypted_frame ae c
      (encode_frame \<lparr>fr_type = any_type, fr_flags = any_flags, fr_payload = nonce @ ct\<rparr> @ rest)
    = (Inr (\<lparr>fr_type = any_type, fr_flags = any_flags, fr_payload = pt\<rparr>, rest), c')"
proof -
  have st: "ciphers_in_step ae c c" using assms(1) by (simp add: ciphers_in_step_def)
  note o = seal_open [OF st assms(2)]
  have "payload_fits \<lparr>fr_type = any_type, fr_flags = any_flags, fr_payload = nonce @ ct\<rparr>"
    using o(1,2) assms(3) by (simp add: payload_fits_def)
  from read_frame_encode [OF this, of rest] o show ?thesis
    by (simp add: read_encrypted_frame_def nonce_len_def tag_len_def)
qed

lemma altered_header_accepted_witness:
  "let c = cipher_new [9]; p = (case fst (seal demo_aead c [5]) of Inr p \<Rightarrow> p)
   in fst (read_encrypted_frame demo_aead c (encode_frame
        \<lparr>fr_type = ControlTake, fr_flags = 7, fr_payload = fst p @ snd p\<rparr>))
      = Inr (\<lparr>fr_type = ControlTake, fr_flags = 7, fr_payload = [5]\<rparr>, [])"
proof -
  obtain nonce ct c' where s: "seal demo_aead (cipher_new [9]) [5] = (Inr (nonce, ct), c')"
    by (simp add: seal_def next_nonce_def demo_aead_def)
  from altered_header_accepted [OF demo_aead_ok s, of ControlTake 7 "[]"] show ?thesis
    by (simp add: s Let_def max_payload_def)
qed

section \<open>The registry of accepted sessions\<close>

text \<open>Sessions are numbered.  A handle is a copy of the session's sender; dropping the last copy
  signals close.  The reader of a session runs until the close signal or a read error, and then
  removes its device from the registry.\<close>

record session_registry =
  sr_entry :: "string \<Rightarrow> nat option"
  sr_device :: "nat \<Rightarrow> string"
  sr_handles :: "nat \<Rightarrow> nat"
  sr_closed :: "nat set"
  sr_running :: "nat set"

definition registry_empty :: session_registry where
  "registry_empty =
     \<lparr>sr_entry = Map.empty, sr_device = (\<lambda>_. []), sr_handles = (\<lambda>_. 0), sr_closed = {}, sr_running = {}\<rparr>"

definition close_session :: "session_registry \<Rightarrow> nat \<Rightarrow> session_registry" where
  "close_session r k = r\<lparr>sr_closed := insert k (sr_closed r)\<rparr>"

definition drop_handle :: "session_registry \<Rightarrow> nat \<Rightarrow> session_registry" where
  "drop_handle r k =
     (let r1 = (if sr_handles r k = 1 then close_session r k else r)
      in r1\<lparr>sr_handles := (sr_handles r)(k := sr_handles r k - 1)\<rparr>)"

definition drop_entry :: "session_registry \<Rightarrow> nat option \<Rightarrow> session_registry" where
  "drop_entry r old = (case old of None \<Rightarrow> r | Some j \<Rightarrow> drop_handle r j)"

text \<open>An accepted session is spawned and its handle inserted; a replaced handle is dropped.\<close>

definition establish :: "session_registry \<Rightarrow> nat \<Rightarrow> string \<Rightarrow> session_registry" where
  "establish r k dev =
     drop_entry
       (r\<lparr>sr_device := (sr_device r)(k := dev), sr_handles := (sr_handles r)(k := 1),
          sr_running := insert k (sr_running r), sr_entry := (sr_entry r)(dev \<mapsto> k)\<rparr>)
       (sr_entry r dev)"

definition get_handle :: "session_registry \<Rightarrow> string \<Rightarrow> nat option \<times> session_registry" where
  "get_handle r dev =
     (case sr_entry r dev of
        None \<Rightarrow> (None, r)
      | Some k \<Rightarrow> (Some k, r\<lparr>sr_handles := (sr_handles r)(k := sr_handles r k + 1)\<rparr>))"

definition reader_exit :: "session_registry \<Rightarrow> nat \<Rightarrow> session_registry" where
  "reader_exit r k =
     drop_entry
       (r\<lparr>sr_running := sr_running r - {k}, sr_entry := (sr_entry r)(sr_device r k := None)\<rparr>)
       (sr_entry r (sr_device r k))"

definition registry_refs :: "session_registry \<Rightarrow> nat \<Rightarrow> nat" where
  "registry_refs r k = (if sr_entry r (sr_device r k) = Some k then 1 else 0)"

inductive sr_step :: "session_registry \<Rightarrow> session_registry \<Rightarrow> bool" where
  accept: "k \<notin> sr_running r \<Longrightarrow> sr_handles r k = 0 \<Longrightarrow> k \<notin> ran (sr_entry r) \<Longrightarrow> sr_step r (establish r k dev)"
| clone: "sr_step r (snd (get_handle r dev))"
| drop: "registry_refs r k < sr_handles r k \<Longrightarrow> sr_step r (drop_handle r k)"
| close: "sr_step r (close_session r k)"
| exit: "k \<in> sr_running r \<Longrightarrow> sr_step r (reader_exit r k)"

inductive_cases sr_stepE: "sr_step r r'"

definition registry_wf :: "session_registry \<Rightarrow> bool" where
  "registry_wf r \<longleftrightarrow>
     (\<forall>dev k. sr_entry r dev = Some k \<longrightarrow> sr_device r k = dev \<and> 0 < sr_handles r k)
     \<and> (\<forall>k\<in>sr_running r. sr_handles r k = 0 \<longrightarrow> k \<in> sr_closed r)"

lemma drop_handle_frame [simp]:
  "sr_entry (drop_handle r k) = sr_entry r" "sr_device (drop_handle r k) = sr_device r"
  "sr_running (drop_handle r k) = sr_running r"
  "sr_handles (drop_handle r k) = (sr_handles r)(k := sr_handles r k - 1)"
  "sr_closed (drop_handle r k) = (if sr_handles r k = 1 then insert k (sr_closed r) else sr_closed r)"
  by (simp_all add: drop_handle_def close_session_def Let_def)

lemma drop_entry_frame [simp]:
  "sr_entry (drop_entry r old) = sr_entry r" "sr_device (drop_entry r old) = sr_device r"
  "sr_running (drop_entry r old) = sr_running r"
  by (simp_all add: drop_entry_def split: option.split)

lemma drop_entry_handles:
  "sr_handles (drop_entry r old) k = (if old = Some k then sr_handles r k - 1 else sr_handles r k)"
  "k \<in> sr_closed (drop_entry r old) \<longleftrightarrow> k \<in> sr_closed r \<or> (old = Some k \<and> sr_handles r k = 1)"
  by (auto simp: drop_entry_def split: option.split)

lemma registry_wf_entry: "registry_wf r \<Longrightarrow> sr_entry r dev = Some k \<Longrightarrow> sr_device r k = dev \<and> 0 < sr_handles r k"
  by (simp add: registry_wf_def)

lemma registry_wf_establish:
  assumes wf: "registry_wf r" and new: "sr_handles r k = 0" "k \<notin> ran (sr_entry r)"
  shows "registry_wf (establish r k dev)"
  unfolding registry_wf_def
proof (intro conjI allI ballI impI)
  fix d j assume e: "sr_entry (establish r k dev) d = Some j"
  have "sr_entry r d' \<noteq> Some k" for d' using new(2) by (auto simp: ran_def)
  moreover have "sr_entry r dev \<noteq> Some j" if "d \<noteq> dev"
    using e that registry_wf_entry [OF wf, of dev j] registry_wf_entry [OF wf, of d j]
    by (auto simp: establish_def)
  ultimately show "sr_device (establish r k dev) j = d" "0 < sr_handles (establish r k dev) j"
    using e registry_wf_entry [OF wf, of d j]
    by (auto simp: establish_def drop_entry_handles split: if_splits)
next
  fix j assume "j \<in> sr_running (establish r k dev)" "sr_handles (establish r k dev) j = 0"
  moreover have "sr_entry r dev \<noteq> Some k" using new(2) by (auto simp: ran_def)
  ultimately show "j \<in> sr_closed (establish r k dev)"
    using wf registry_wf_entry [OF wf, of dev j]
    by (auto simp: establish_def drop_entry_handles registry_wf_def split: if_splits)
qed

lemma registry_wf_exit:
  assumes wf: "registry_wf r"
  shows "registry_wf (reader_exit r k)"
  unfolding registry_wf_def
proof (intro conjI allI ballI impI)
  fix d j assume e: "sr_entry (reader_exit r k) d = Some j"
  then have d: "sr_entry r d = Some j" "d \<noteq> sr_device r k" by (auto simp: reader_exit_def split: if_splits)
  then have "sr_entry r (sr_device r k) \<noteq> Some j"
    using registry_wf_entry [OF wf, of d j] registry_wf_entry [OF wf, of "sr_device r k" j] by auto
  then show "sr_device (reader_exit r k) j = d" "0 < sr_handles (reader_exit r k) j"
    using d registry_wf_entry [OF wf, of d j] by (auto simp: reader_exit_def drop_entry_handles)
next
  fix j assume "j \<in> sr_running (reader_exit r k)" "sr_handles (reader_exit r k) j = 0"
  then show "j \<in> sr_closed (reader_exit r k)"
    using wf registry_wf_entry [OF wf, of "sr_device r k" j]
    by (auto simp: reader_exit_def drop_entry_handles registry_wf_def split: if_splits)
qed

lemma registry_wf_step: "sr_step r r' \<Longrightarrow> registry_wf r \<Longrightarrow> registry_wf r'"
proof (induction rule: sr_step.induct)
  case (accept k r dev)
  then show ?case by (intro registry_wf_establish)
next
  case (clone r dev)
  then show ?case by (auto simp: registry_wf_def get_handle_def split: option.splits)
next
  case (drop r k)
  then show ?case by (auto simp: registry_wf_def registry_refs_def split: if_splits)
next
  case (close r k)
  then show ?case by (auto simp: registry_wf_def close_session_def)
next
  case (exit k r)
  then show ?case by (intro registry_wf_exit)
qed

lemma no_orphan: "sr_step\<^sup>*\<^sup>* registry_empty r \<Longrightarrow> registry_wf r"
proof (induction rule: rtranclp_induct)
  case base
  then show ?case by (simp add: registry_wf_def registry_empty_def)
qed (rule registry_wf_step)

text \<open>C34. No session outlives its handles: in every state the server can reach by accepting sessions,
  copying, dropping and closing handles and ending readers, a registered device maps to its own
  session with a live handle, and a session that still runs without any handle was told to close.\<close>

theorem no_orphan_sessions:
  assumes "sr_step\<^sup>*\<^sup>* registry_empty r"
  shows "(\<forall>dev k. sr_entry r dev = Some k \<longrightarrow> sr_device r k = dev \<and> 0 < sr_handles r k)
    \<and> (\<forall>k\<in>sr_running r. sr_handles r k = 0 \<longrightarrow> k \<in> sr_closed r)"
  using no_orphan [OF assms] by (simp add: registry_wf_def)

definition demo_registry :: session_registry where
  "demo_registry = establish registry_empty 1 ''peer''"

lemma demo_registry_reachable: "sr_step\<^sup>*\<^sup>* registry_empty demo_registry"
  unfolding demo_registry_def
  by (intro r_into_rtranclp sr_step.accept) (simp_all add: registry_empty_def)

theorem no_orphan_sessions_witness:
  "sr_entry demo_registry ''peer'' = Some 1 \<and> sr_device demo_registry 1 = ''peer'' \<and> 0 < sr_handles demo_registry 1"
proof -
  have "sr_entry demo_registry ''peer'' = Some 1"
    by (simp add: demo_registry_def establish_def)
  with no_orphan_sessions [OF demo_registry_reachable] show ?thesis by blast
qed

text \<open>A device that reconnects loses its new session: accepting a second session of a device whose
  first one is held by the registry only tells the first one to close, and when the first one's
  reader ends it removes the device's entry, which by now is the second session, so the second one
  is told to close too and the device has none.\<close>

lemma reconnect_closes_new_session:
  assumes "sr_step\<^sup>*\<^sup>* registry_empty r" and "sr_entry r dev = Some j" and "sr_handles r j = 1"
    and "j \<in> sr_running r" and "k \<notin> sr_running r" and "sr_handles r k = 0" and "k \<notin> ran (sr_entry r)"
  shows "let r1 = establish r k dev; r2 = reader_exit r1 j in
    sr_step r r1 \<and> j \<in> sr_closed r1 \<and> k \<notin> sr_closed r1 - sr_closed r \<and> sr_step r1 r2
    \<and> sr_entry r2 dev = None \<and> k \<in> sr_closed r2"
proof -
  have "sr_entry r dev' \<noteq> Some k" for dev' using assms(7) by (auto simp: ran_def)
  then have jk: "j \<noteq> k" using assms(2) by auto
  have "registry_wf r" using no_orphan assms(1) by blast
  then have dj: "sr_device r j = dev" using assms(2) registry_wf_entry by blast
  have "sr_step r (establish r k dev)" using assms(5-7) by (rule sr_step.accept)
  moreover have "sr_step (establish r k dev) (reader_exit (establish r k dev) j)"
    using assms(4) by (intro sr_step.exit) (simp add: establish_def)
  moreover have "j \<in> sr_closed (establish r k dev)" "k \<in> sr_closed (establish r k dev) \<longrightarrow> k \<in> sr_closed r"
    "sr_handles (establish r k dev) k = 1" "sr_entry (establish r k dev) dev = Some k"
    "sr_device (establish r k dev) j = dev"
    using assms(2,3) jk dj by (auto simp: establish_def drop_entry_handles)
  ultimately show ?thesis by (simp add: reader_exit_def drop_entry_handles)
qed

lemma reconnect_closes_new_session_witness:
  "sr_entry (reader_exit (establish demo_registry 2 ''peer'') 1) ''peer'' = None
   \<and> 2 \<in> sr_closed (reader_exit (establish demo_registry 2 ''peer'') 1)"
proof -
  have "sr_entry demo_registry ''peer'' = Some 1" "sr_handles demo_registry 1 = 1" "1 \<in> sr_running demo_registry"
    "2 \<notin> sr_running demo_registry" "sr_handles demo_registry 2 = 0" "2 \<notin> ran (sr_entry demo_registry)"
    by (auto simp: demo_registry_def establish_def registry_empty_def drop_entry_def ran_def)
  from reconnect_closes_new_session [OF demo_registry_reachable this] show ?thesis
    by (simp add: Let_def)
qed

end
