(* ===== verification/Kvm_Edge.thy ===== *)
theory Kvm_Edge
  imports Prelude "HOL-Library.Signed_Division"
begin

text \<open>
  Edge switching of the shared keyboard and mouse (\<open>crates/kvm-core/src/edge.rs\<close>) and the
  alignment of the lock keys (\<open>locksync.rs\<close>).  The state machine of the controlling device is
  \<open>on_local_event\<close>, run by the input hook; sessions release control and configuration replaces the
  edge table from outside.  Coordinates are unbounded integers here and 32 bits wide in the source, which
  computes the products in 64 bits; on desktops within \<open>desktop_ok\<close> no sum leaves the 32 bits
  (\<open>edge_sums_fit\<close>, \<open>peer_pixels_fit\<close>), so the two agree there.
  Instants are milliseconds, given by the caller.  The edge table is the list of its entries in the
  order the hash map yields them.
\<close>

section \<open>Data\<close>

datatype edge = Left | Right | Up | Down

record screen_rect =
  sr_x :: int
  sr_y :: int
  sr_w :: int
  sr_h :: int

datatype raw_input =
    KeyDown nat nat
  | KeyUp nat nat
  | MouseMove int int
  | MouseDown nat int int
  | MouseUp nat int int
  | Wheel int int int bool

datatype decision = Passthrough | SwitchTo string | Forward | Suppress

datatype control_state = Idle | Controlling string edge

record edge_switch =
  es_tolerance :: int
  es_cooldown :: nat
  es_edges :: "(string \<times> edge) list"
  es_state :: control_state
  es_last_switch :: "nat option"
  es_armed :: bool
  es_forwarded :: "int \<times> int"
  es_pressed :: "nat set"

section \<open>Operations\<close>

definition corner_edge :: "int \<Rightarrow> int \<Rightarrow> int \<Rightarrow> int \<Rightarrow> edge" where
  "corner_edge x y w h =
     (let dx = min x (w - 1 - x); dy = min y (h - 1 - y) in
      if dx \<le> dy then (if x \<le> w - 1 - x then Left else Right)
      else if y \<le> h - 1 - y then Up else Down)"

definition es_new :: "(string \<times> edge) list \<Rightarrow> edge_switch" where
  "es_new edges =
     \<lparr>es_tolerance = 2, es_cooldown = 100, es_edges = edges, es_state = Idle, es_last_switch = None,
      es_armed = False, es_forwarded = (0, 0), es_pressed = {}\<rparr>"

definition set_edges :: "edge_switch \<Rightarrow> (string \<times> edge) list \<Rightarrow> edge_switch" where
  "set_edges s edges = s\<lparr>es_edges := edges\<rparr>"

definition controlling_device :: "edge_switch \<Rightarrow> string option" where
  "controlling_device s = (case es_state s of Idle \<Rightarrow> None | Controlling d _ \<Rightarrow> Some d)"

definition clamp :: "int \<Rightarrow> int \<Rightarrow> int \<Rightarrow> int" where
  "clamp lo hi v = max lo (min hi v)"

definition normalize :: "int \<Rightarrow> screen_rect \<Rightarrow> int" where
  "normalize x own = clamp 0 65535 (((x - sr_x own) * 65536) sdiv (max (sr_w own) 1))"

definition normalize_y :: "edge_switch \<Rightarrow> raw_input \<Rightarrow> screen_rect \<Rightarrow> int" where
  "normalize_y s ev own =
     (case ev of
        MouseMove _ y \<Rightarrow> clamp 0 65535 (((y - sr_y own) * 65536) sdiv (max (sr_h own) 1))
      | _ \<Rightarrow> snd (es_forwarded s))"

definition to_peer_px :: "int \<Rightarrow> screen_rect \<Rightarrow> bool \<Rightarrow> int" where
  "to_peer_px a peer horizontal =
     (let extent = (if horizontal then max (sr_w peer) 1 else max (sr_h peer) 1);
          origin = (if horizontal then sr_x peer else sr_y peer)
      in (a * extent) sdiv 65536 + origin)"

definition cooldown_elapsed :: "edge_switch \<Rightarrow> nat \<Rightarrow> bool" where
  "cooldown_elapsed s now =
     (case es_last_switch s of None \<Rightarrow> True | Some t \<Rightarrow> es_cooldown s \<le> now - t)"

definition shift_keys :: "nat set" where "shift_keys = {0x10, 0xA0, 0xA1}"
definition ctrl_keys :: "nat set" where "ctrl_keys = {0x11, 0xA2, 0xA3}"
definition alt_keys :: "nat set" where "alt_keys = {0x12, 0xA4, 0xA5}"
definition vk_q :: nat where "vk_q = 0x51"

definition release_combo_pressed :: "edge_switch \<Rightarrow> bool" where
  "release_combo_pressed s \<longleftrightarrow>
     shift_keys \<inter> es_pressed s \<noteq> {} \<and> ctrl_keys \<inter> es_pressed s \<noteq> {}
     \<and> alt_keys \<inter> es_pressed s \<noteq> {} \<and> vk_q \<in> es_pressed s"

definition force_release :: "edge_switch \<Rightarrow> nat \<Rightarrow> edge_switch" where
  "force_release s now = s\<lparr>es_state := Idle, es_armed := False, es_last_switch := Some now\<rparr>"

definition track_keys :: "edge_switch \<Rightarrow> raw_input \<Rightarrow> edge_switch" where
  "track_keys s ev =
     (case ev of
        KeyDown vk _ \<Rightarrow> s\<lparr>es_pressed := insert vk (es_pressed s)\<rparr>
      | KeyUp vk _ \<Rightarrow> s\<lparr>es_pressed := es_pressed s - {vk}\<rparr>
      | _ \<Rightarrow> s)"

definition edge_hits :: "int \<Rightarrow> screen_rect \<Rightarrow> int \<Rightarrow> int \<Rightarrow> bool \<times> bool \<times> bool \<times> bool" where
  "edge_hits tol own x y =
     (x \<le> sr_x own + tol, sr_x own + sr_w own - 1 - tol \<le> x,
      y \<le> sr_y own + tol, sr_y own + sr_h own - 1 - tol \<le> y)"

definition hit_edge :: "int \<Rightarrow> screen_rect \<Rightarrow> int \<Rightarrow> int \<Rightarrow> edge option" where
  "hit_edge tol own x y =
     (case edge_hits tol own x y of (l, r, u, d) \<Rightarrow>
        let v_edge = (if l then Some Left else if r then Some Right else None);
            h_edge = (if u then Some Up else if d then Some Down else None)
        in (case (v_edge, h_edge) of
              (Some e, None) \<Rightarrow> Some e
            | (None, Some e) \<Rightarrow> Some e
            | (Some _, Some _) \<Rightarrow>
                Some (corner_edge (x - sr_x own) (y - sr_y own) (max (sr_w own) 1) (max (sr_h own) 1))
            | (None, None) \<Rightarrow> None))"

definition on_local_event ::
    "edge_switch \<Rightarrow> nat \<Rightarrow> raw_input \<Rightarrow> screen_rect \<Rightarrow> decision \<times> edge_switch" where
  "on_local_event s0 now ev own =
     (let s = track_keys s0 ev in
      case es_state s of
        Controlling _ _ \<Rightarrow>
          if release_combo_pressed s then (Suppress, force_release s now)
          else (Forward,
                case ev of
                  MouseMove x _ \<Rightarrow> s\<lparr>es_forwarded := (normalize x own, normalize_y s ev own)\<rparr>
                | _ \<Rightarrow> s)
      | Idle \<Rightarrow>
          (case ev of
             MouseMove x y \<Rightarrow>
               let tol = es_tolerance s;
                   s1 = (if edge_hits tol own x y = (False, False, False, False)
                         then s\<lparr>es_armed := True\<rparr> else s)
               in (case hit_edge tol own x y of
                     None \<Rightarrow> (Passthrough, s1)
                   | Some e \<Rightarrow>
                       if \<not> es_armed s1 \<or> \<not> cooldown_elapsed s1 now then (Passthrough, s1)
                       else
                         (case find (\<lambda>p. snd p = e) (es_edges s1) of
                            None \<Rightarrow> (Passthrough, s1)
                          | Some (d, _) \<Rightarrow>
                              (SwitchTo d,
                               s1\<lparr>es_state := Controlling d e, es_last_switch := Some now,
                                 es_armed := False\<rparr>)))
           | _ \<Rightarrow> (Passthrough, s)))"

definition should_release :: "edge_switch \<Rightarrow> screen_rect \<Rightarrow> bool" where
  "should_release s peer =
     (case es_state s of
        Idle \<Rightarrow> False
      | Controlling _ e \<Rightarrow>
          if sr_w peer \<le> 0 \<or> sr_h peer \<le> 0 then False
          else
            let tol = es_tolerance s;
                px = to_peer_px (fst (es_forwarded s)) peer True;
                py = to_peer_px (snd (es_forwarded s)) peer False
            in (case e of
                  Right \<Rightarrow> px \<le> sr_x peer + tol
                | Left \<Rightarrow> sr_x peer + sr_w peer - 1 - tol \<le> px
                | Up \<Rightarrow> sr_y peer + sr_h peer - 1 - tol \<le> py
                | Down \<Rightarrow> py \<le> sr_y peer + tol))"

section \<open>The width of the coordinates\<close>

definition fits32 :: "int \<Rightarrow> bool" where
  "fits32 v \<longleftrightarrow> - (2 ^ 31) \<le> v \<and> v < 2 ^ 31"

definition desktop_ok :: "screen_rect \<Rightarrow> bool" where
  "desktop_ok r \<longleftrightarrow>
     \<bar>sr_x r\<bar> \<le> 2 ^ 29 \<and> \<bar>sr_y r\<bar> \<le> 2 ^ 29 \<and> 0 < sr_w r \<and> sr_w r \<le> 2 ^ 29 \<and> 0 < sr_h r \<and> sr_h r \<le> 2 ^ 29"

text \<open>The sums of \<open>on_local_event\<close> and of \<open>should_release\<close>.\<close>

lemma edge_sums_fit:
  assumes "desktop_ok own" "0 \<le> tol" "tol \<le> 2 ^ 29" "\<bar>x\<bar> \<le> 2 ^ 29" "\<bar>y\<bar> \<le> 2 ^ 29"
  shows "list_all fits32
    [x - sr_x own, sr_w own - 1 - (x - sr_x own), sr_x own + sr_w own, sr_x own + tol, sr_x own + sr_w own - 1 - tol,
     y - sr_y own, sr_h own - 1 - (y - sr_y own), sr_y own + sr_h own, sr_y own + tol, sr_y own + sr_h own - 1 - tol]"
  using assms by (simp add: fits32_def desktop_ok_def) arith

lemma normalized_fits: "0 \<le> normalize x own \<and> normalize x own \<le> 65535"
  by (simp add: normalize_def clamp_def)

lemma peer_pixels_fit:
  assumes "desktop_ok peer" "0 \<le> a" "a \<le> 65535"
  shows "sr_x peer \<le> to_peer_px a peer True \<and> to_peer_px a peer True < sr_x peer + sr_w peer"
    and "sr_y peer \<le> to_peer_px a peer False \<and> to_peer_px a peer False < sr_y peer + sr_h peer"
proof -
  have div: "0 \<le> (a * n) sdiv 65536 \<and> (a * n) sdiv 65536 < n" if "0 < n" for n :: int
  proof -
    have "a * n \<le> 65535 * n" using assms(3) that by (intro mult_right_mono) simp_all
    then have "a * n < 65536 * n" using that by linarith
    moreover have "(a * n) sdiv 65536 = (a * n) div 65536"
      using assms(2) that by (simp add: signed_divide_int_def sgn_if)
    moreover have "0 \<le> a * n" using assms(2) that by simp
    ultimately show ?thesis by (simp add: pos_imp_zdiv_nonneg_iff)
  qed
  show "sr_x peer \<le> to_peer_px a peer True \<and> to_peer_px a peer True < sr_x peer + sr_w peer"
    using div [of "sr_w peer"] assms(1) max_absorb1 [of 1 "sr_w peer"] by (simp add: to_peer_px_def desktop_ok_def Let_def)
  show "sr_y peer \<le> to_peer_px a peer False \<and> to_peer_px a peer False < sr_y peer + sr_h peer"
    using div [of "sr_h peer"] assms(1) max_absorb1 [of 1 "sr_h peer"] by (simp add: to_peer_px_def desktop_ok_def Let_def)
qed

section \<open>The machine: events, releases and edge updates\<close>

datatype es_label = LocalEv nat raw_input decision | ReleaseAt nat | NewEdges

inductive es_step :: "screen_rect \<Rightarrow> edge_switch \<Rightarrow> es_label \<Rightarrow> edge_switch \<Rightarrow> bool" for own where
  local: "on_local_event s now ev own = (d, s') \<Longrightarrow> es_step own s (LocalEv now ev d) s'"
| release: "es_step own s (ReleaseAt now) (force_release s now)"
| edges: "es_step own s NewEdges (set_edges s m)"

text \<open>Reachable states with the labels so far, the latest first.\<close>

inductive es_reach :: "screen_rect \<Rightarrow> edge_switch \<Rightarrow> es_label list \<Rightarrow> bool" for own where
  start: "es_reach own (es_new m) []"
| step: "es_reach own s tr \<Longrightarrow> es_step own s l s' \<Longrightarrow> es_reach own s' (l # tr)"

inductive_cases es_stepE: "es_step own s l s'"
inductive_simps es_step_local: "es_step own s (LocalEv now ev d) s'"
inductive_simps es_step_release: "es_step own s (ReleaseAt now) s'"
inductive_simps es_step_edges: "es_step own s NewEdges s'"

text \<open>The labels that hand control over or back.\<close>

fun handover :: "es_label \<Rightarrow> nat option" where
  "handover (LocalEv t _ (SwitchTo _)) = Some t"
| "handover (LocalEv t _ Suppress) = Some t"
| "handover (LocalEv _ _ _) = None"
| "handover (ReleaseAt t) = Some t"
| "handover NewEdges = None"

fun last_handover :: "es_label list \<Rightarrow> nat option" where
  "last_handover [] = None"
| "last_handover (l # tr) = (case handover l of Some t \<Rightarrow> Some t | None \<Rightarrow> last_handover tr)"

fun interior :: "int \<Rightarrow> screen_rect \<Rightarrow> raw_input \<Rightarrow> bool" where
  "interior tol own (MouseMove x y) \<longleftrightarrow> edge_hits tol own x y = (False, False, False, False)"
| "interior tol own _ \<longleftrightarrow> False"

fun left_bands_since :: "int \<Rightarrow> screen_rect \<Rightarrow> es_label list \<Rightarrow> bool" where
  "left_bands_since tol own [] \<longleftrightarrow> False"
| "left_bands_since tol own (l # tr) \<longleftrightarrow>
     handover l = None \<and>
     ((case l of LocalEv _ ev Passthrough \<Rightarrow> interior tol own ev | _ \<Rightarrow> False)
      \<or> left_bands_since tol own tr)"

lemmas es_op_defs = force_release_def set_edges_def track_keys_def

lemma track_keys_frame [simp]:
  "es_state (track_keys s ev) = es_state s" "es_armed (track_keys s ev) = es_armed s"
  "es_last_switch (track_keys s ev) = es_last_switch s" "es_tolerance (track_keys s ev) = es_tolerance s"
  "es_cooldown (track_keys s ev) = es_cooldown s" "es_edges (track_keys s ev) = es_edges s"
  by (simp_all add: track_keys_def split: raw_input.split)

lemma no_hit_no_edge: "edge_hits tol own x y = (False, False, False, False) \<Longrightarrow> hit_edge tol own x y = None"
  by (simp add: hit_edge_def)

lemma cooldown_track [simp]: "cooldown_elapsed (track_keys s ev) now = cooldown_elapsed s now"
  by (simp add: cooldown_elapsed_def split: option.split)

text \<open>One event, by the decision taken.\<close>

lemma local_forward:
  "on_local_event s now ev own = (Forward, s') \<Longrightarrow>
     es_state s' = es_state s \<and> es_armed s' = es_armed s \<and> es_last_switch s' = es_last_switch s
     \<and> es_state s \<noteq> Idle \<and> es_tolerance s' = es_tolerance s \<and> es_cooldown s' = es_cooldown s"
  by (auto simp: on_local_event_def Let_def split: control_state.splits raw_input.splits if_splits
      option.splits)

lemma local_suppress:
  "on_local_event s now ev own = (Suppress, s') \<Longrightarrow>
     es_state s \<noteq> Idle \<and> s' = force_release (track_keys s ev) now"
  by (auto simp: on_local_event_def Let_def split: control_state.splits raw_input.splits if_splits
      option.splits)

lemma local_passthrough:
  "on_local_event s now ev own = (Passthrough, s') \<Longrightarrow>
     es_state s = Idle \<and> es_state s' = Idle \<and> es_last_switch s' = es_last_switch s
     \<and> (es_armed s' \<longleftrightarrow> es_armed s \<or> interior (es_tolerance s) own ev)
     \<and> es_tolerance s' = es_tolerance s \<and> es_cooldown s' = es_cooldown s"
  by (auto simp: on_local_event_def Let_def split: control_state.splits raw_input.splits if_splits
      option.splits)

lemma local_switch:
  assumes "on_local_event s now ev own = (SwitchTo d, s')"
  obtains x y e where "ev = MouseMove x y" and "es_state s = Idle" and "es_armed s"
    and "cooldown_elapsed s now" and "hit_edge (es_tolerance s) own x y = Some e"
    and "(d, e) \<in> set (es_edges s)"
    and "s' = s\<lparr>es_state := Controlling d e, es_last_switch := Some now, es_armed := False\<rparr>"
proof -
  obtain x y where ev: "ev = MouseMove x y" and idle: "es_state s = Idle"
    using assms by (auto simp: on_local_event_def Let_def split: control_state.splits raw_input.splits
        if_splits)
  have tk: "track_keys s ev = s" by (simp add: track_keys_def ev)
  obtain e where e: "hit_edge (es_tolerance s) own x y = Some e"
    using assms tk by (auto simp: on_local_event_def Let_def ev idle split: option.splits)
  then have h: "edge_hits (es_tolerance s) own x y \<noteq> (False, False, False, False)"
    using no_hit_no_edge by fastforce
  have "es_armed s" "cooldown_elapsed s now"
    using assms tk e h by (auto simp: on_local_event_def Let_def ev idle split: if_splits)
  moreover obtain p where p: "find (\<lambda>p. snd p = e) (es_edges s) = Some p"
    using assms tk e h by (auto simp: on_local_event_def Let_def ev idle split: option.splits if_splits)
  moreover have "p \<in> set (es_edges s) \<and> snd p = e"
    using p by (auto simp: find_Some_iff)
  moreover have "fst p = d"
    "s' = s\<lparr>es_state := Controlling d e, es_last_switch := Some now, es_armed := False\<rparr>"
    using assms tk e h calculation
    by (auto simp: on_local_event_def Let_def ev idle split: if_splits prod.splits)
  ultimately show thesis using that [OF ev idle _ _ e] by (cases p) auto
qed

text \<open>What every reachable state satisfies.\<close>

definition es_inv :: "screen_rect \<Rightarrow> edge_switch \<Rightarrow> es_label list \<Rightarrow> bool" where
  "es_inv own s tr \<longleftrightarrow>
     es_tolerance s = 2 \<and> es_cooldown s = 100 \<and> es_last_switch s = last_handover tr
     \<and> (es_armed s \<longrightarrow> es_state s = Idle \<and> left_bands_since 2 own tr)
     \<and> (es_state s \<noteq> Idle \<longrightarrow> es_last_switch s \<noteq> None)"

lemma es_inv_step:
  assumes "es_step own s l s'" and "es_inv own s tr"
  shows "es_inv own s' (l # tr)"
  using assms(1)
proof (cases rule: es_step.cases)
  case (local now ev d)
  show ?thesis
  proof (cases d)
    case Passthrough
    with local have "on_local_event s now ev own = (Passthrough, s')" by simp
    from local_passthrough [OF this] show ?thesis
      using assms(2) local(1) Passthrough by (auto simp: es_inv_def)
  next
    case (SwitchTo dev)
    with local have "on_local_event s now ev own = (SwitchTo dev, s')" by simp
    then obtain x y e where
      "s' = s\<lparr>es_state := Controlling dev e, es_last_switch := Some now, es_armed := False\<rparr>"
      by (rule local_switch)
    then show ?thesis using assms(2) local(1) SwitchTo by (simp add: es_inv_def)
  next
    case Forward
    with local have "on_local_event s now ev own = (Forward, s')" by simp
    from local_forward [OF this] show ?thesis
      using assms(2) local(1) Forward by (cases "last_handover tr") (auto simp: es_inv_def)
  next
    case Suppress
    with local have "on_local_event s now ev own = (Suppress, s')" by simp
    from local_suppress [OF this] show ?thesis
      using assms(2) local(1) Suppress by (simp add: es_inv_def force_release_def)
  qed
qed (use assms(2) in \<open>cases "last_handover tr"; auto simp: es_inv_def es_op_defs\<close>)+

lemma es_reach_inv: "es_reach own s tr \<Longrightarrow> es_inv own s tr"
proof (induction rule: es_reach.induct)
  case (start m)
  then show ?case by (simp add: es_inv_def es_new_def)
qed (rule es_inv_step)

section \<open>Properties\<close>

text \<open>C4. No ping-pong at an edge: in every reachable state of the controlling device, a switch to a
  peer happens only when nothing is controlled, the mouse was seen strictly inside all four edge
  bands after the last hand-over (switch, hotkey or forced release), at least 100 ms passed since
  that hand-over, and the peer is configured for the edge that was hit.\<close>

theorem switch_not_ping_pong:
  assumes "es_reach own s tr" and "on_local_event s now ev own = (SwitchTo d, s')"
  shows "es_state s = Idle \<and> left_bands_since 2 own tr
    \<and> (case last_handover tr of None \<Rightarrow> True | Some t \<Rightarrow> 100 \<le> now - t)
    \<and> (\<exists>x y e. ev = MouseMove x y \<and> hit_edge 2 own x y = Some e \<and> (d, e) \<in> set (es_edges s)
         \<and> es_state s' = Controlling d e)"
proof -
  have inv: "es_inv own s tr" using assms(1) by (rule es_reach_inv)
  from assms(2) obtain x y e where "ev = MouseMove x y" "es_state s = Idle" "es_armed s"
    "cooldown_elapsed s now" "hit_edge (es_tolerance s) own x y = Some e" "(d, e) \<in> set (es_edges s)"
    "s' = s\<lparr>es_state := Controlling d e, es_last_switch := Some now, es_armed := False\<rparr>"
    by (rule local_switch)
  then show ?thesis using inv by (auto simp: es_inv_def cooldown_elapsed_def split: option.splits)
qed

definition demo_screen :: screen_rect where
  "demo_screen = \<lparr>sr_x = 0, sr_y = 0, sr_w = 1920, sr_h = 1080\<rparr>"

theorem switch_not_ping_pong_witness:
  "let own = demo_screen; s0 = es_new [(''peer'', Right)];
       s1 = snd (on_local_event s0 0 (MouseMove 900 500) own)
   in fst (on_local_event s1 5 (MouseMove 1919 500) own) = SwitchTo ''peer''
      \<and> left_bands_since 2 own [LocalEv 0 (MouseMove 900 500) Passthrough]"
proof -
  let ?own = demo_screen and ?s0 = "es_new [(''peer'', Right)]"
  let ?r = "on_local_event ?s0 0 (MouseMove 900 500) ?own"
  have p: "?r = (Passthrough, snd ?r)" by (rule prod_eqI) (simp_all, code_simp)
  have "es_reach ?own (snd ?r) [LocalEv 0 (MouseMove 900 500) Passthrough]"
    using es_reach.step [OF es_reach.start es_step.local [OF p]] .
  moreover have "fst (on_local_event (snd ?r) 5 (MouseMove 1919 500) ?own) = SwitchTo ''peer''"
    by code_simp
  ultimately show ?thesis
    using switch_not_ping_pong [of ?own "snd ?r" _ 5 "MouseMove 1919 500" "''peer''"
        "snd (on_local_event (snd ?r) 5 (MouseMove 1919 500) ?own)"]
    unfolding Let_def by (metis prod.collapse)
qed

text \<open>Events in sequence.\<close>

fun es_run :: "edge_switch \<Rightarrow> screen_rect \<Rightarrow> (nat \<times> raw_input) list \<Rightarrow> decision list \<times> edge_switch" where
  "es_run s own [] = ([], s)"
| "es_run s own ((t, ev) # evs) =
     (case on_local_event s t ev own of (d, s1) \<Rightarrow>
      case es_run s1 own evs of (ds, s2) \<Rightarrow> (d # ds, s2))"

lemma es_run_snd [simp]:
  "snd (es_run s own ((t, ev) # evs)) = snd (es_run (snd (on_local_event s t ev own)) own evs)"
  by (simp split: prod.split)

declare es_run.simps(2) [simp del]

lemma idle_keydown:
  "es_state s = Idle \<Longrightarrow> on_local_event s t (KeyDown v sc) own = (Passthrough, track_keys s (KeyDown v sc))"
  by (simp add: on_local_event_def Let_def)

lemma idle_keys_stay:
  "es_state s = Idle \<Longrightarrow> es_state (snd (es_run s own (map (\<lambda>(t, v). (t, KeyDown v (sc v))) ks))) = Idle"
proof (induction ks arbitrary: s)
  case (Cons k ks)
  obtain t v where k: "k = (t, v)" by (cases k)
  have "es_state (track_keys s (KeyDown v (sc v))) = Idle" using Cons.prems by simp
  from Cons.IH [OF this] show ?case using Cons.prems by (simp add: k idle_keydown)
qed simp

lemma controlling_keydown:
  "es_state s = Controlling d e \<Longrightarrow> on_local_event s t (KeyDown v sc) own =
     (let s1 = s\<lparr>es_pressed := insert v (es_pressed s)\<rparr> in
      if release_combo_pressed s1 then (Suppress, force_release s1 t) else (Forward, s1))"
  by (simp add: on_local_event_def Let_def track_keys_def)

lemma keys_release_or_collect:
  assumes "es_state s = Controlling d e" and "\<not> release_combo_pressed s"
  shows "let s' = snd (es_run s own (map (\<lambda>(t, v). (t, KeyDown v (sc v))) ks)) in
    es_state s' = Idle \<or> (\<not> release_combo_pressed s' \<and> es_pressed s' = es_pressed s \<union> snd ` set ks)"
  using assms
proof (induction ks arbitrary: s)
  case (Cons k ks)
  obtain t v where k: "k = (t, v)" by (cases k)
  let ?s1 = "s\<lparr>es_pressed := insert v (es_pressed s)\<rparr>"
  show ?case
  proof (cases "release_combo_pressed ?s1")
    case True
    have "es_state (force_release ?s1 t) = Idle" by (simp add: force_release_def)
    from idle_keys_stay [OF this] show ?thesis
      by (simp add: k controlling_keydown [OF Cons.prems(1)] True Let_def)
  next
    case False
    have "es_state ?s1 = Controlling d e" using Cons.prems(1) by simp
    from Cons.IH [OF this False] show ?thesis
      by (auto simp: k controlling_keydown [OF Cons.prems(1)] False Let_def)
  qed
qed simp

text \<open>C38. The release hotkey always works: while a device is controlled, pressing Shift, Ctrl, Alt
  (any of their generic, left or right codes) and Q, in any order, with any other keys between them
  and at any times, brings control back to the local machine.\<close>

theorem hotkey_always_releases:
  assumes "es_state s = Controlling d e" and "\<not> release_combo_pressed s"
    and "shift_keys \<inter> snd ` set ks \<noteq> {}" and "ctrl_keys \<inter> snd ` set ks \<noteq> {}"
    and "alt_keys \<inter> snd ` set ks \<noteq> {}" and "vk_q \<in> snd ` set ks"
  shows "es_state (snd (es_run s own (map (\<lambda>(t, v). (t, KeyDown v (sc v))) ks))) = Idle"
  using keys_release_or_collect [OF assms(1,2), of own sc ks] assms(3-6)
  unfolding Let_def release_combo_pressed_def by blast

theorem hotkey_always_releases_witness:
  "let s = (es_new [])\<lparr>es_state := Controlling ''peer'' Left\<rparr>
   in es_state (snd (es_run s demo_screen (map (\<lambda>(t, v). (t, KeyDown v 0))
        [(1, 0x51), (2, 0xA4), (3, 0x41), (4, 0xA1), (5, 0x11)]))) = Idle"
  unfolding Let_def
  by (rule hotkey_always_releases [where d = "''peer''" and e = Left and sc = "\<lambda>_. 0"])
    (simp_all add: es_new_def release_combo_pressed_def shift_keys_def ctrl_keys_def alt_keys_def vk_q_def)

text \<open>While a device is controlled nothing reaches the local machine: every event is forwarded,
  or swallowed as the last key of the release hotkey; control never moves to another device without
  a release between.\<close>

lemma controlled_input_never_local:
  assumes "es_state s = Controlling d e"
  shows "case on_local_event s now ev own of
      (Forward, s') \<Rightarrow> es_state s' = Controlling d e \<and> \<not> release_combo_pressed (track_keys s ev)
    | (Suppress, s') \<Rightarrow> es_state s' = Idle \<and> release_combo_pressed (track_keys s ev)
    | _ \<Rightarrow> False"
  using assms
  by (auto simp: on_local_event_def Let_def force_release_def split: raw_input.split)

lemma controlled_input_never_local_witness:
  "fst (on_local_event ((es_new [])\<lparr>es_state := Controlling ''peer'' Up\<rparr>) 3 (MouseDown 0 5 5) demo_screen)
     \<notin> {Passthrough, SwitchTo ''peer''}"
proof -
  let ?s = "(es_new [])\<lparr>es_state := Controlling ''peer'' Up\<rparr>"
  have "es_state ?s = Controlling ''peer'' Up" by simp
  from controlled_input_never_local [OF this, where now = 3 and ev = "MouseDown 0 5 5" and own = demo_screen] show ?thesis
    by (auto split: prod.splits decision.splits)
qed

text \<open>Going back over the opposite edge.\<close>

lemma sdiv_pos: "0 \<le> a \<Longrightarrow> 0 < b \<Longrightarrow> a sdiv b = (a::int) div b"
  by (cases "a = 0") (simp_all add: signed_divide_int_def)

lemma normalize_low: "x \<le> sr_x own \<Longrightarrow> normalize x own = 0"
proof -
  assume "x \<le> sr_x own"
  moreover have "0 \<le> (sr_x own - x) * 65536 div (max (sr_w own) 1)" if "x \<le> sr_x own"
    using that by (simp add: pos_imp_zdiv_nonneg_iff)
  moreover have "((x - sr_x own) * 65536) sdiv (max (sr_w own) 1)
      = - ((sr_x own - x) * 65536 div (max (sr_w own) 1))" if "x < sr_x own"
    using that by (simp add: signed_divide_int_def sgn_if abs_if algebra_simps)
  ultimately show ?thesis
    by (cases "x = sr_x own") (auto simp: normalize_def clamp_def)
qed

lemma div_bounds:
  fixes a b :: int
  assumes "0 < b"
  shows "b * (a div b) \<le> a" and "a < b * (a div b) + b"
  using mult_div_mod_eq [of b a] pos_mod_bound [OF assms, of a] pos_mod_sign [OF assms, of a]
  by linarith+

text \<open>A coordinate at the far edge of one side reaches the far edge of the other, within the
  tolerance, unless the other side is more than twice as large.\<close>

lemma far_edge_reached:
  assumes "0 < w" and "w - 1 \<le> v" and "0 < pw" and "pw \<le> 2 * w" and "pw \<le> 65536"
  shows "pw - 3 \<le> (clamp 0 65535 ((v * 65536) sdiv w) * pw) sdiv (65536 :: int)"
proof -
  let ?n = "clamp 0 65535 ((v * 65536) sdiv w)"
  let ?q = "(w - 1) * 65536 div w"
  have "?q \<le> v * 65536 div w" using assms(1,2) by (intro zdiv_mono1) auto
  moreover have "?q \<le> 65535"
  proof (rule ccontr)
    assume "\<not> ?q \<le> 65535"
    then have "w * 65536 \<le> w * ?q" using assms(1) by (intro mult_left_mono) auto
    then show False using div_bounds(1) [OF assms(1), of "(w - 1) * 65536"] assms(1) by (simp only: left_diff_distrib)
  qed
  moreover have "(v * 65536) sdiv w = v * 65536 div w"
    using assms(1,2) by (simp add: sdiv_pos)
  ultimately have n: "?q \<le> ?n" "0 \<le> ?n" by (auto simp: clamp_def)
  have "(w - 1) * 65536 < w * ?q + w" by (rule div_bounds(2) [OF assms(1)])
  then have "w * 65535 - 65536 < w * ?q" by (simp add: algebra_simps)
  moreover have "w * ?q \<le> w * ?n" using n(1) assms(1) by (intro mult_left_mono) auto
  ultimately have "w * 65535 - 65536 < w * ?n" by linarith
  then have "pw * (w * 65535 - 65536) \<le> pw * (w * ?n)"
    using assms(3) by (intro mult_left_mono) auto
  then have "w * (pw * 65535) - pw * 65536 \<le> w * (?n * pw)" by (simp add: algebra_simps)
  moreover have "pw * 65536 \<le> w * 131072" using assms(4) by simp
  ultimately have "w * (pw * 65535 - 131072) \<le> w * (?n * pw)" by (simp add: algebra_simps)
  then have "pw * 65535 - 131072 \<le> ?n * pw" using assms(1) by (rule mult_left_le_imp_le)
  then have "(pw - 3) * 65536 \<le> ?n * pw" using assms(5) by (simp add: algebra_simps)
  then have "(pw - 3) * 65536 div 65536 \<le> ?n * pw div 65536" by (intro zdiv_mono1) auto
  moreover have "(?n * pw) sdiv 65536 = ?n * pw div 65536"
    using n(2) assms(3) by (simp add: sdiv_pos)
  ultimately show ?thesis by simp
qed

lemma normalize_y_low:
  "y \<le> sr_y own \<Longrightarrow> normalize_y s (MouseMove x y) own = 0"
  using normalize_low [of y "own\<lparr>sr_x := sr_y own, sr_w := sr_h own\<rparr>"]
  by (simp add: normalize_y_def normalize_def)

text \<open>Moving back releases: while a device is controlled through an edge, a forwarded mouse move
  at or beyond the opposite edge of the local screen makes \<open>should_release\<close> hold for the peer's
  screen; for the far edges (Left and Up) this needs a peer at most twice as large as the local
  screen and at most 65536 pixels.\<close>

lemma edge_back_releases:
  assumes "es_state s = Controlling d e" and "\<not> release_combo_pressed s" and "es_tolerance s = 2"
    and "0 < sr_w own" and "0 < sr_h own" and "0 < sr_w peer" and "0 < sr_h peer"
    and "case e of
        Right \<Rightarrow> x \<le> sr_x own
      | Down \<Rightarrow> y \<le> sr_y own
      | Left \<Rightarrow> sr_x own + sr_w own - 1 \<le> x \<and> sr_w peer \<le> 2 * sr_w own \<and> sr_w peer \<le> 65536
      | Up \<Rightarrow> sr_y own + sr_h own - 1 \<le> y \<and> sr_h peer \<le> 2 * sr_h own \<and> sr_h peer \<le> 65536"
  shows "should_release (snd (on_local_event s now (MouseMove x y) own)) peer"
proof -
  let ?s' = "s\<lparr>es_forwarded := (normalize x own, normalize_y s (MouseMove x y) own)\<rparr>"
  have s': "snd (on_local_event s now (MouseMove x y) own) = ?s'"
    using assms(1,2) by (simp add: on_local_event_def track_keys_def)
  have mx: "max (sr_w own) 1 = sr_w own" "max (sr_h own) 1 = sr_h own"
    "max (sr_w peer) 1 = sr_w peer" "max (sr_h peer) 1 = sr_h peer"
    using assms(4-7) by auto
  show ?thesis
  proof (cases e)
    case Right
    then show ?thesis
      using assms unfolding s' by (simp add: should_release_def to_peer_px_def normalize_low sdiv_pos)
  next
    case Down
    then show ?thesis
      using assms unfolding s' by (simp add: should_release_def to_peer_px_def normalize_y_low sdiv_pos)
  next
    case Left
    then show ?thesis
      using assms far_edge_reached [of "sr_w own" "x - sr_x own" "sr_w peer"] unfolding s'
      by (simp add: should_release_def to_peer_px_def normalize_def mx)
  next
    case Up
    then show ?thesis
      using assms far_edge_reached [of "sr_h own" "y - sr_y own" "sr_h peer"] unfolding s'
      by (simp add: should_release_def to_peer_px_def normalize_y_def mx)
  qed
qed

lemma edge_back_releases_witness:
  "should_release (snd (on_local_event ((es_new [])\<lparr>es_state := Controlling ''peer'' Left\<rparr>) 9
      (MouseMove 1919 700) demo_screen)) \<lparr>sr_x = 0, sr_y = 0, sr_w = 3840, sr_h = 2160\<rparr>"
  by (rule edge_back_releases [where d = "''peer''" and e = Left])
    (simp_all add: es_new_def release_combo_pressed_def demo_screen_def)

text \<open>A fresh take-over through the right edge already counts as moved back: \<open>last_forwarded\<close>
  starts at the origin and is not reset by a switch, so \<open>should_release\<close> holds before any move was
  forwarded.\<close>

lemma fresh_switch_counts_as_moved_back:
  assumes "on_local_event s now ev own = (SwitchTo d, s')" and "es_state s' = Controlling d Right"
    and "es_forwarded s = (0, 0)" and "es_tolerance s = 2" and "0 < sr_w peer" and "0 < sr_h peer"
  shows "should_release s' peer"
proof -
  obtain x y e where "s' = s\<lparr>es_state := Controlling d e, es_last_switch := Some now, es_armed := False\<rparr>"
    using assms(1) by (rule local_switch)
  then show ?thesis
    using assms(2-6) by (simp add: should_release_def to_peer_px_def sdiv_pos)
qed

lemma fresh_switch_counts_as_moved_back_witness:
  "let s1 = snd (on_local_event (es_new [(''peer'', Right)]) 0 (MouseMove 900 500) demo_screen)
   in should_release (snd (on_local_event s1 5 (MouseMove 1919 500) demo_screen)) demo_screen"
proof -
  let ?s1 = "snd (on_local_event (es_new [(''peer'', Right)]) 0 (MouseMove 900 500) demo_screen)"
  let ?r = "on_local_event ?s1 5 (MouseMove 1919 500) demo_screen"
  have r: "?r = (SwitchTo ''peer'', snd ?r)" by (rule prod_eqI) (simp_all, code_simp)
  have st: "es_state (snd ?r) = Controlling ''peer'' Right" "es_forwarded ?s1 = (0, 0)" "es_tolerance ?s1 = 2"
    by code_simp+
  show ?thesis
    using fresh_switch_counts_as_moved_back [OF r st, of demo_screen] unfolding Let_def
    by (simp add: demo_screen_def)
qed

section \<open>Lock keys\<close>

datatype lock_key = Caps | Num | Scroll

record lock_states =
  ls_caps :: bool
  ls_num :: bool
  ls_scroll :: bool

definition lock_diff :: "lock_states \<Rightarrow> lock_states \<Rightarrow> (lock_key \<times> bool) list" where
  "lock_diff l r =
     (if ls_caps l \<noteq> ls_caps r then [(Caps, ls_caps r)] else [])
     @ (if ls_num l \<noteq> ls_num r then [(Num, ls_num r)] else [])
     @ (if ls_scroll l \<noteq> ls_scroll r then [(Scroll, ls_scroll r)] else [])"

text \<open>The LED driver: reading the states, and applying one with its read-back check.\<close>

record 'h led_port =
  led_read :: "'h \<Rightarrow> lock_states"
  led_apply :: "lock_key \<Rightarrow> bool \<Rightarrow> 'h \<Rightarrow> (string + unit) \<times> 'h"

definition sync_toward :: "'h led_port \<Rightarrow> lock_states \<Rightarrow> 'h \<Rightarrow> (lock_key \<times> bool \<times> string) list \<times> 'h" where
  "sync_toward led remote h =
     foldl (\<lambda>(warned, h) (k, on).
        case led_apply led k on h of
          (Inl e, h') \<Rightarrow> (warned @ [(k, on, e)], h')
        | (Inr _, h') \<Rightarrow> (warned, h'))
       ([], h) (lock_diff (led_read led h) remote)"

fun set_lock :: "lock_key \<Rightarrow> bool \<Rightarrow> lock_states \<Rightarrow> lock_states" where
  "set_lock Caps on s = s\<lparr>ls_caps := on\<rparr>"
| "set_lock Num on s = s\<lparr>ls_num := on\<rparr>"
| "set_lock Scroll on s = s\<lparr>ls_scroll := on\<rparr>"

text \<open>When the driver sets exactly the requested lamp and its read-back check passes, a
  synchronisation leaves the local lock keys equal to the remote ones with no warning, and a second
  one does nothing.\<close>

lemma locks_aligned:
  assumes "\<And>k on h. \<exists>h'. led_apply led k on h = (Inr (), h') \<and> led_read led h' = set_lock k on (led_read led h)"
  shows "\<exists>h'. sync_toward led remote h = ([], h') \<and> led_read led h' = remote
    \<and> sync_toward led remote h' = ([], h')"
proof -
  have *: "\<exists>h'. foldl (\<lambda>(warned, h) (k, on).
        case led_apply led k on h of
          (Inl e, h') \<Rightarrow> (warned @ [(k, on, e)], h')
        | (Inr _, h') \<Rightarrow> (warned, h')) ([], h) ops = ([], h')
      \<and> led_read led h' = foldl (\<lambda>s (k, on). set_lock k on s) (led_read led h) ops" for ops h
  proof (induction ops arbitrary: h)
    case (Cons op ops)
    obtain k on where op: "op = (k, on)" by (cases op)
    obtain h1 where "led_apply led k on h = (Inr (), h1)" "led_read led h1 = set_lock k on (led_read led h)"
      using assms by blast
    with Cons.IH [of h1] show ?case by (simp add: op)
  qed simp
  have settle: "foldl (\<lambda>s (k, on). set_lock k on s) l (lock_diff l remote) = remote" for l :: lock_states
    by (cases l, cases remote) (simp add: lock_diff_def)
  have "lock_diff l l = []" for l by (simp add: lock_diff_def)
  with * [of h "lock_diff (led_read led h) remote"] settle show ?thesis
    by (auto simp: sync_toward_def)
qed

definition demo_led :: "lock_states led_port" where
  "demo_led = \<lparr>led_read = (\<lambda>s. s), led_apply = (\<lambda>k on s. (Inr (), set_lock k on s))\<rparr>"

lemma locks_aligned_witness:
  "\<exists>h'. sync_toward demo_led \<lparr>ls_caps = True, ls_num = False, ls_scroll = True\<rparr>
      \<lparr>ls_caps = False, ls_num = True, ls_scroll = True\<rparr> = ([], h')
    \<and> h' = \<lparr>ls_caps = True, ls_num = False, ls_scroll = True\<rparr>"
  using locks_aligned [of demo_led "\<lparr>ls_caps = True, ls_num = False, ls_scroll = True\<rparr>"
      "\<lparr>ls_caps = False, ls_num = True, ls_scroll = True\<rparr>"]
  by (auto simp: demo_led_def)

end
