(* ===== verification/Kvm_Pairing.thy ===== *)
theory Kvm_Pairing
  imports Secure_Session Kvm_Edge
begin

text \<open>
  Pairing of two devices (\<open>crates/kvm-core/src/pairing.rs\<close>): the one-time code with its limits, the
  throttle per source address, the exchange of public keys and what is stored.  Instants are
  milliseconds; random numbers, the clock and the JSON codecs are arguments.  The time limit around
  the exchange is not modelled.
\<close>

section \<open>One-time codes\<close>

definition code_ttl :: nat where "code_ttl = 120000"
definition max_attempts :: nat where "max_attempts = 5"

record active_code =
  ac_code :: string
  ac_expires :: nat
  ac_attempts :: nat
  ac_used :: bool

datatype code_error = Mismatch | Expired | Consumed

definition code_issue :: "nat \<Rightarrow> nat \<Rightarrow> (string \<times> nat) \<times> active_code option" where
  "code_issue now rnd =
     (let code = show6 (rnd mod 1000000) in
      ((code, code_ttl),
       Some \<lparr>ac_code = code, ac_expires = now + code_ttl, ac_attempts = 0, ac_used = False\<rparr>))"

definition code_validate ::
    "string \<Rightarrow> nat \<Rightarrow> active_code option \<Rightarrow> (code_error + unit) \<times> active_code option" where
  "code_validate code now st =
     (case st of
        None \<Rightarrow> (Inl Mismatch, None)
      | Some a \<Rightarrow>
          if ac_used a then (Inl Consumed, st)
          else if ac_expires a \<le> now then (Inl Expired, None)
          else if max_attempts \<le> ac_attempts a then (Inl Consumed, None)
          else if ac_code a \<noteq> code then
            (let n = ac_attempts a + 1 in
             if max_attempts \<le> n then (Inl Consumed, None)
             else (Inl Mismatch, Some (a\<lparr>ac_attempts := n\<rparr>)))
          else (Inr (), Some (a\<lparr>ac_used := True\<rparr>)))"

definition has_active :: "nat \<Rightarrow> active_code option \<Rightarrow> bool" where
  "has_active now st = unwrap_or False (map_option (\<lambda>a. \<not> ac_used a \<and> now < ac_expires a) st)"

text \<open>Runs of the manager, with their events, the latest first.\<close>

datatype code_event = Issued nat nat | Tried "code_error + unit"

inductive code_run :: "active_code option \<Rightarrow> code_event list \<Rightarrow> bool" where
  code_start: "code_run None []"
| code_issued: "code_run st tr \<Longrightarrow> code_run (snd (code_issue now rnd)) (Issued now rnd # tr)"
| code_tried: "code_run st tr \<Longrightarrow> code_validate code now st = (r, st') \<Longrightarrow> code_run st' (Tried r # tr)"

fun last_issue :: "code_event list \<Rightarrow> (nat \<times> nat) option" where
  "last_issue [] = None"
| "last_issue (Issued t n # tr) = Some (t, n)"
| "last_issue (Tried r # tr) = last_issue tr"

fun tries_since :: "code_event list \<Rightarrow> (code_error + unit) list" where
  "tries_since [] = []"
| "tries_since (Issued t n # tr) = []"
| "tries_since (Tried r # tr) = r # tries_since tr"

lemma code_run_state:
  assumes "code_run st tr" and "st = Some a"
  shows "\<exists>t0 rnd. last_issue tr = Some (t0, rnd) \<and> ac_code a = show6 (rnd mod 1000000) \<and> ac_expires a = t0 + code_ttl
    \<and> (if ac_used a then Inr () \<in> set (tries_since tr)
       else Inr () \<notin> set (tries_since tr) \<and> length (tries_since tr) = ac_attempts a \<and> ac_attempts a < max_attempts)"
  using assms
proof (induction arbitrary: a rule: code_run.induct)
  case (code_issued st tr now rnd)
  then show ?case by (auto simp: code_issue_def Let_def max_attempts_def)
next
  case (code_tried st tr code now r st')
  have "st \<noteq> None" using code_tried.hyps(2) code_tried.prems by (auto simp: code_validate_def split: option.splits)
  then obtain b where b: "st = Some b" by blast
  then show ?case using code_tried by (auto simp: code_validate_def Let_def split: if_splits)
qed simp

text \<open>C6. A pairing code is good for one pairing, two minutes and five guesses: in any run of issued codes and
  attempts, an attempt that succeeds gives the code issued last, less than 120 seconds ago, no attempt
  since then succeeded, and fewer than five failed.\<close>

theorem code_accepted_once:
  assumes "code_run st tr" and "code_validate code now st = (Inr (), st')"
  shows "\<exists>t0 rnd. last_issue tr = Some (t0, rnd) \<and> code = show6 (rnd mod 1000000) \<and> now < t0 + code_ttl
    \<and> Inr () \<notin> set (tries_since tr) \<and> length (tries_since tr) < 5"
proof -
  obtain a where a: "st = Some a" using assms(2) by (cases st) (auto simp: code_validate_def)
  then have "\<not> ac_used a" "\<not> ac_expires a \<le> now" "ac_code a = code"
    using assms(2) by (auto simp: code_validate_def Let_def split: if_splits)
  then show ?thesis using code_run_state [OF assms(1) a] by (auto simp: max_attempts_def)
qed

theorem code_accepted_once_witness:
  "\<exists>st tr st'. code_run st tr \<and> code_validate ''000042'' 119999 st = (Inr (), st') \<and> tries_since tr = [Inl Mismatch]
     \<and> (\<exists>t0 rnd. last_issue tr = Some (t0, rnd) \<and> 119999 < t0 + code_ttl)"
proof -
  let ?st = "snd (code_validate ''000041'' 5 (snd (code_issue 0 42)))"
  have s0: "code_run (snd (code_issue 0 42)) [Issued 0 42]" by (rule code_issued [OF code_start])
  have bad: "code_validate ''000041'' 5 (snd (code_issue 0 42)) = (Inl Mismatch, ?st)"
    and code: "show6 42 = ''000042''"
    by (simp_all add: code_issue_def code_validate_def max_attempts_def code_ttl_def Let_def) code_simp+
  have run: "code_run ?st [Tried (Inl Mismatch), Issued 0 42]" using code_tried [OF s0 bad] .
  obtain st' where ok: "code_validate ''000042'' 119999 ?st = (Inr (), st')"
    using code by (simp add: code_issue_def code_validate_def max_attempts_def code_ttl_def Let_def)
  show ?thesis using code_accepted_once [OF run ok] run ok by (intro exI [of _ ?st] exI [of _ "[Tried (Inl Mismatch), Issued 0 42]"] exI [of _ st']) auto
qed

section \<open>The throttle\<close>

definition max_ip_attempts :: nat where "max_ip_attempts = 6"
definition ip_block :: nat where "ip_block = 60000"

record ip_record =
  ip_failures :: nat
  ip_blocked_until :: "nat option"

type_synonym 'a throttle = "'a \<Rightarrow> ip_record option"

definition ip_blocked :: "nat \<Rightarrow> 'a option \<Rightarrow> 'a throttle \<Rightarrow> bool \<times> 'a throttle" where
  "ip_blocked now ip th =
     (case ip of
        None \<Rightarrow> (False, th)
      | Some a \<Rightarrow>
          (case th a of
             None \<Rightarrow> (False, th)
           | Some rec \<Rightarrow>
               (case ip_blocked_until rec of
                  None \<Rightarrow> (False, th)
                | Some until \<Rightarrow> if now < until then (True, th) else (False, th(a := None)))))"

definition note_code_failure :: "nat \<Rightarrow> 'a option \<Rightarrow> 'a throttle \<Rightarrow> 'a throttle" where
  "note_code_failure now ip th =
     (case ip of
        None \<Rightarrow> th
      | Some a \<Rightarrow>
          let r0 = unwrap_or \<lparr>ip_failures = 0, ip_blocked_until = None\<rparr> (th a);
              r1 = (case ip_blocked_until r0 of
                      Some until \<Rightarrow> if until \<le> now then \<lparr>ip_failures = 0, ip_blocked_until = None\<rparr> else r0
                    | None \<Rightarrow> r0);
              r2 = r1\<lparr>ip_failures := ip_failures r1 + 1\<rparr>
          in th(a \<mapsto> (if max_ip_attempts \<le> ip_failures r2 then r2\<lparr>ip_blocked_until := Some (now + ip_block)\<rparr> else r2)))"

definition clear_ip_failures :: "'a option \<Rightarrow> 'a throttle \<Rightarrow> 'a throttle" where
  "clear_ip_failures ip th = (case ip of None \<Rightarrow> th | Some a \<Rightarrow> th(a := None))"









section \<open>The exchange\<close>

record pair_request =
  pq_device_id :: string
  pq_device_name :: string
  pq_pubkey_b64 :: string
  pq_fingerprint :: string
  pq_code :: string

record pair_reply =
  pr_device_id :: string
  pr_device_name :: string
  pr_pubkey_b64 :: string
  pr_fingerprint :: string
  pr_reason :: "string option"
  pr_locks :: "lock_states option"

record pair_codecs =
  pc_request_json :: "pair_request \<Rightarrow> bytes"
  pc_request_parse :: "bytes \<Rightarrow> pair_request option"
  pc_reply_json :: "pair_reply \<Rightarrow> bytes"
  pc_reply_parse :: "bytes \<Rightarrow> pair_reply option"

definition verify_binding :: "'f host_codecs \<Rightarrow> bytes \<Rightarrow> string \<Rightarrow> bool" where
  "verify_binding hc pubkey fp \<longleftrightarrow> length pubkey = key_len \<and> fingerprint hc pubkey = fp"

record 'a pairing_service =
  sv_identity :: device_identity
  sv_codes :: "active_code option"
  sv_store :: pair_store
  sv_throttle :: "'a throttle"

definition pair_reply_frame ::
    "'f host_codecs \<Rightarrow> pair_codecs \<Rightarrow> device_identity \<Rightarrow> msg_type \<Rightarrow> string option \<Rightarrow> lock_states option \<Rightarrow> frame" where
  "pair_reply_frame hc pc i ty reason locks =
     \<lparr>fr_type = ty, fr_flags = 0, fr_payload = pc_reply_json pc
        \<lparr>pr_device_id = di_device_id i, pr_device_name = di_device_name i,
         pr_pubkey_b64 = hc_b64_encode hc (hc_pub_of hc (di_secret i)), pr_fingerprint = di_fingerprint i,
         pr_reason = reason, pr_locks = locks\<rparr>\<rparr>"

text \<open>
  \<open>handle_pair_conn\<close>: the frame written back, the peer returned to the caller, the service afterwards.
  \<open>locks\<close> is the state of the lamps, \<open>write_ok\<close> whether the last frame can be written.
\<close>

definition handle_pair_conn ::
    "'f host_codecs \<Rightarrow> pair_codecs \<Rightarrow> 'a pairing_service \<Rightarrow> nat \<Rightarrow> nat \<Rightarrow> 'a option \<Rightarrow> lock_states option \<Rightarrow> bool \<Rightarrow> frame
       \<Rightarrow> frame option \<times> paired_peer option \<times> 'a pairing_service" where
  "handle_pair_conn hc pc sv now unix_ms ip locks write_ok first =
     (let i = sv_identity sv; reject = (\<lambda>why. Some (pair_reply_frame hc pc i PairReject (Some why) None)) in
      if fr_type first \<noteq> PairRequest then (None, None, sv)
      else case pc_request_parse pc (fr_payload first) of
        None \<Rightarrow> (None, None, sv)
      | Some req \<Rightarrow>
          if pq_device_id req = di_device_id i then (reject ''self'', None, sv)
          else case hc_b64_decode hc (pq_pubkey_b64 req) of
            None \<Rightarrow> (reject ''fingerprint'', None, sv)
          | Some pubkey \<Rightarrow>
              if \<not> verify_binding hc pubkey (pq_fingerprint req) then (reject ''fingerprint'', None, sv)
              else case ip_blocked now ip (sv_throttle sv) of
                (True, th1) \<Rightarrow> (reject ''throttled'', None, sv\<lparr>sv_throttle := th1\<rparr>)
              | (False, th1) \<Rightarrow>
                  (case code_validate (pq_code req) now (sv_codes sv) of
                     (Inl e, codes1) \<Rightarrow>
                       (reject ''code'', None,
                        sv\<lparr>sv_codes := codes1, sv_throttle := note_code_failure now ip th1\<rparr>)
                   | (Inr _, codes1) \<Rightarrow>
                       let peer = \<lparr>pp_device_id = pq_device_id req, pp_device_name = pq_device_name req,
                             pp_fingerprint = pq_fingerprint req, pp_pubkey_b64 = pq_pubkey_b64 req, pp_paired_at = unix_ms\<rparr>;
                           sv1 = sv\<lparr>sv_codes := codes1, sv_throttle := clear_ip_failures ip th1\<rparr>
                       in case pair_upsert (sv_store sv) peer of
                            (Inl _, store1) \<Rightarrow> (reject ''busy'', None, sv1\<lparr>sv_store := store1\<rparr>)
                          | (Inr _, store1) \<Rightarrow>
                              if write_ok
                              then (Some (pair_reply_frame hc pc i PairAccept None locks), Some peer, sv1\<lparr>sv_store := store1\<rparr>)
                              else (None, None, sv1\<lparr>sv_store := store1\<rparr>)))"

text \<open>The initiator: its request, and what it does with the reply; errors are the last digit of the code.\<close>

definition pair_request_frame :: "'f host_codecs \<Rightarrow> pair_codecs \<Rightarrow> device_identity \<Rightarrow> string \<Rightarrow> frame" where
  "pair_request_frame hc pc i code =
     \<lparr>fr_type = PairRequest, fr_flags = 0, fr_payload = pc_request_json pc
        \<lparr>pq_device_id = di_device_id i, pq_device_name = di_device_name i,
         pq_pubkey_b64 = hc_b64_encode hc (hc_pub_of hc (di_secret i)), pq_fingerprint = di_fingerprint i,
         pq_code = code\<rparr>\<rparr>"

datatype pair_error = KvmPair002 | KvmPair003 | KvmPair004 | KvmPair005 string | KvmPair007

definition pair_finish ::
    "'f host_codecs \<Rightarrow> pair_codecs \<Rightarrow> pair_store \<Rightarrow> nat \<Rightarrow> 'h led_port option \<Rightarrow> frame \<Rightarrow> 'h
       \<Rightarrow> (pair_error + paired_peer) \<times> pair_store \<times> 'h" where
  "pair_finish hc pc store unix_ms led f h =
     (case pc_reply_parse pc (fr_payload f) of
        None \<Rightarrow> (Inl KvmPair004, store, h)
      | Some reply \<Rightarrow>
          if fr_type f = PairReject then (Inl (KvmPair005 (unwrap_or ''unknown'' (pr_reason reply))), store, h)
          else if fr_type f \<noteq> PairAccept then (Inl KvmPair004, store, h)
          else case hc_b64_decode hc (pr_pubkey_b64 reply) of
            None \<Rightarrow> (Inl KvmPair004, store, h)
          | Some pubkey \<Rightarrow>
              if \<not> verify_binding hc pubkey (pr_fingerprint reply) then (Inl KvmPair007, store, h)
              else
                let h1 = (case (pr_locks reply, led) of
                            (Some remote, Some port) \<Rightarrow> snd (sync_toward port remote h) | _ \<Rightarrow> h);
                    peer = \<lparr>pp_device_id = pr_device_id reply, pp_device_name = pr_device_name reply,
                      pp_fingerprint = pr_fingerprint reply, pp_pubkey_b64 = pr_pubkey_b64 reply, pp_paired_at = unix_ms\<rparr>
                in case pair_upsert store peer of
                     (Inl _, store1) \<Rightarrow> (Inl KvmPair002, store1, h1)
                   | (Inr _, store1) \<Rightarrow> (Inr peer, store1, h1))"

text \<open>\<open>pair_with\<close> against a service at the other end of a stream that works; a closed stream is an error.\<close>

definition pair_with ::
    "'f host_codecs \<Rightarrow> pair_codecs \<Rightarrow> device_identity \<Rightarrow> pair_store \<Rightarrow> nat \<Rightarrow> 'h led_port option \<Rightarrow> 'h
       \<Rightarrow> (frame \<Rightarrow> frame option \<times> paired_peer option \<times> 'a pairing_service) \<Rightarrow> string
       \<Rightarrow> (pair_error + paired_peer) \<times> pair_store \<times> 'h \<times> paired_peer option \<times> 'a pairing_service" where
  "pair_with hc pc i store unix_ms led h serve code =
     (case serve (pair_request_frame hc pc i code) of
        (None, r, sv) \<Rightarrow> (Inl KvmPair003, store, h, r, sv)
      | (Some reply, r, sv) \<Rightarrow>
          (case pair_finish hc pc store unix_ms led reply h of (res, store1, h1) \<Rightarrow> (res, store1, h1, r, sv)))"

definition unpair :: "'a pairing_service \<Rightarrow> string \<Rightarrow> (string + bool) \<times> 'a pairing_service" where
  "unpair sv device_id =
     (case pair_remove (sv_store sv) device_id of (r, store1) \<Rightarrow> (r, sv\<lparr>sv_store := store1\<rparr>))"

definition pair_codecs_ok :: "'f host_codecs \<Rightarrow> pair_codecs \<Rightarrow> bool" where
  "pair_codecs_ok hc pc \<longleftrightarrow>
     (\<forall>b. hc_b64_decode hc (hc_b64_encode hc b) = Some b) \<and> (\<forall>s. length (hc_pub_of hc s) = key_len)
     \<and> (\<forall>q. pc_request_parse pc (pc_request_json pc q) = Some q)
     \<and> (\<forall>r. pc_reply_parse pc (pc_reply_json pc r) = Some r)"

text \<open>An identity as the program makes it.\<close>

definition proper :: "'f host_codecs \<Rightarrow> device_identity \<Rightarrow> bool" where
  "proper hc i \<longleftrightarrow> di_fingerprint i = fingerprint hc (hc_pub_of hc (di_secret i))"

lemma pair_upsert_get:
  "pair_upsert s p = (r, s') \<Longrightarrow> pair_get s' = (pair_get s)(pp_device_id p \<mapsto> p)"
  by (auto simp: pair_upsert_def pair_persist_def pair_get_def update_conv' fun_eq_iff split: if_splits)

lemma pair_upsert_ok: "ps_write_ok s \<Longrightarrow> \<exists>s'. pair_upsert s p = (Inr (), s')"
  by (simp add: pair_upsert_def pair_persist_def)

text \<open>C36. Pairing prepares sessions: when the initiator sends the code the responder shows, in time and from an
  address that is not blocked, and both can store, both sides report success, the responder's code is
  used up, and afterwards each side's store knows the other in the sense the session handshake
  needs.\<close>

theorem pairing_enables_sessions:
  assumes "pair_codecs_ok hc pc" and "proper hc client" and "proper hc server" and "sv_identity sv = server"
    and "di_device_id client \<noteq> di_device_id server" and "fst (ip_blocked now ip (sv_throttle sv)) = False"
    and "sv_codes sv = Some a" and "\<not> ac_used a" and "now < ac_expires a" and "ac_attempts a < max_attempts"
    and "ps_write_ok (sv_store sv)" and "ps_write_ok store"
    and "sx_b64_encode sx = hc_b64_encode hc" and "sx_pub_of sx = hc_pub_of hc"
  shows "case pair_with hc pc client store t led h
      (handle_pair_conn hc pc sv now t' ip locks True) (ac_code a) of (res, store1, h1, r, sv1) \<Rightarrow>
    (\<exists>ps pc'. res = Inr ps \<and> pp_device_id ps = di_device_id server \<and> r = Some pc' \<and> pp_device_id pc' = di_device_id client)
    \<and> knows sx store1 server \<and> knows sx (sv_store sv1) client
    \<and> (\<forall>code now'. \<exists>e. fst (code_validate code now' (sv_codes sv1)) = Inl e)"
proof -
  let ?key = "\<lambda>i. hc_b64_encode hc (hc_pub_of hc (di_secret i))"
  let ?client = "\<lparr>pp_device_id = di_device_id client, pp_device_name = di_device_name client,
      pp_fingerprint = di_fingerprint client, pp_pubkey_b64 = ?key client, pp_paired_at = t'\<rparr>"
  let ?server = "\<lparr>pp_device_id = di_device_id server, pp_device_name = di_device_name server,
      pp_fingerprint = di_fingerprint server, pp_pubkey_b64 = ?key server, pp_paired_at = t\<rparr>"
  obtain th where th: "ip_blocked now ip (sv_throttle sv) = (False, th)"
    using assms(6) by (cases "ip_blocked now ip (sv_throttle sv)") auto
  have code: "code_validate (ac_code a) now (sv_codes sv) = (Inr (), Some (a\<lparr>ac_used := True\<rparr>))"
    using assms(7-10) by (simp add: code_validate_def)
  obtain s1 where s1: "pair_upsert (sv_store sv) ?client = (Inr (), s1)" using pair_upsert_ok [OF assms(11)] by blast
  obtain s2 where s2: "pair_upsert store ?server = (Inr (), s2)" using pair_upsert_ok [OF assms(12)] by blast
  have bind: "verify_binding hc (hc_pub_of hc (di_secret i)) (di_fingerprint i)" if "proper hc i" for i
    using assms(1) that by (simp add: verify_binding_def pair_codecs_ok_def proper_def)
  have serve: "handle_pair_conn hc pc sv now t' ip locks True (pair_request_frame hc pc client (ac_code a))
    = (Some (pair_reply_frame hc pc server PairAccept None locks), Some ?client,
       sv\<lparr>sv_codes := Some (a\<lparr>ac_used := True\<rparr>), sv_throttle := clear_ip_failures ip th, sv_store := s1\<rparr>)"
    using assms(1,4,5) bind [OF assms(2)] th code s1
    by (simp add: handle_pair_conn_def pair_request_frame_def pair_codecs_ok_def Let_def)
  have fin: "\<exists>h1. pair_finish hc pc store t led (pair_reply_frame hc pc server PairAccept None locks) h = (Inr ?server, s2, h1)"
    using assms(1) bind [OF assms(3)] s2
    by (simp add: pair_finish_def pair_reply_frame_def pair_codecs_ok_def Let_def)
  have "knows sx s1 client" "knows sx s2 server"
    using pair_upsert_get [OF s1] pair_upsert_get [OF s2] assms(13,14) by (simp_all add: knows_def)
  moreover have "\<exists>e. fst (code_validate c n (Some (a\<lparr>ac_used := True\<rparr>))) = Inl e" for c n
    by (simp add: code_validate_def)
  ultimately show ?thesis using serve fin by (auto simp: pair_with_def)
qed

section \<open>A service under attack\<close>














text \<open>The check of the address and the counting of a failure take the lock apart from each other, and every
  connection is a task of its own: connections that are checked before the first of them is counted all
  pass, with one failure short of the limit as with none.\<close>

lemma parallel_connections_pass:
  assumes "sv_throttle sv a = Some \<lparr>ip_failures = 5, ip_blocked_until = None\<rparr>"
  shows "fold (\<lambda>now (passed, th). case ip_blocked now (Some a) th of (b, th1) \<Rightarrow> (if b then passed else passed + 1, th1)) ts (n, sv_throttle sv)
    = (n + length ts, sv_throttle sv)"
  using assms by (induction ts arbitrary: n) (simp_all add: ip_blocked_def)

text \<open>Only the holder of the code is stored: whatever frame arrives, when the responder's store changes, the
  frame was a request with the code that was valid at that moment, from another device whose address
  was not blocked and whose public key has the fingerprint it claims, and only the entry of that device
  changes.\<close>

lemma only_code_holder_stored:
  assumes "handle_pair_conn hc pc sv now t ip locks write_ok f = (reply, r, sv')"
    and "sv_store sv' \<noteq> sv_store sv"
  shows "\<exists>req pubkey. fr_type f = PairRequest \<and> pc_request_parse pc (fr_payload f) = Some req
    \<and> fst (code_validate (pq_code req) now (sv_codes sv)) = Inr ()
    \<and> pq_device_id req \<noteq> di_device_id (sv_identity sv) \<and> \<not> fst (ip_blocked now ip (sv_throttle sv))
    \<and> hc_b64_decode hc (pq_pubkey_b64 req) = Some pubkey \<and> verify_binding hc pubkey (pq_fingerprint req)
    \<and> (\<forall>d. d \<noteq> pq_device_id req \<longrightarrow> pair_get (sv_store sv') d = pair_get (sv_store sv) d)"
  using assms
  by (auto simp: handle_pair_conn_def Let_def dest!: pair_upsert_get
      split: if_splits option.splits prod.splits sum.splits bool.splits)

text \<open>A refused pairing may hold anyway: when the responder cannot write its table, it answers \<open>busy\<close> and
  reports no peer, but the peer is already in the table in memory, so the session handshake admits
  it until the program ends.\<close>

lemma busy_reply_still_pairs:
  assumes "pair_codecs_ok hc pc" and "proper hc client" and "di_device_id client \<noteq> di_device_id (sv_identity sv)"
    and "fst (ip_blocked now ip (sv_throttle sv)) = False" and "\<not> ps_write_ok (sv_store sv)"
    and "code_validate code now (sv_codes sv) = (Inr (), codes1)"
    and "sx_b64_encode sx = hc_b64_encode hc" and "sx_pub_of sx = hc_pub_of hc"
  shows "\<exists>sv'. handle_pair_conn hc pc sv now t ip locks True (pair_request_frame hc pc client code)
      = (Some (pair_reply_frame hc pc (sv_identity sv) PairReject (Some ''busy'') None), None, sv')
    \<and> knows sx (sv_store sv') client \<and> ps_file (sv_store sv') = ps_file (sv_store sv)"
proof -
  obtain th where th: "ip_blocked now ip (sv_throttle sv) = (False, th)"
    using assms(4) by (cases "ip_blocked now ip (sv_throttle sv)") auto
  have bind: "verify_binding hc (hc_pub_of hc (di_secret client)) (di_fingerprint client)"
    using assms(1,2) by (simp add: verify_binding_def pair_codecs_ok_def proper_def)
  show ?thesis
    using assms(1,3,5-8) th bind
    by (auto simp: handle_pair_conn_def pair_request_frame_def pair_codecs_ok_def Let_def pair_upsert_def pair_persist_def
        knows_def pair_get_def update_conv')
qed

section \<open>A concrete pair of devices\<close>

fun demo_dec_strs :: "nat \<Rightarrow> bytes \<Rightarrow> string list option" where
  "demo_dec_strs 0 bs = Some []"
| "demo_dec_strs (Suc n) bs =
     Option.bind (demo_dec_str bs) (\<lambda>(s, r). map_option ((#) s) (demo_dec_strs n r))"

lemma demo_dec_strs_enc [simp]: "demo_dec_strs (length ss) (concat (map demo_enc_str ss)) = Some ss"
  by (induction ss) simp_all

definition demo_opt :: "string option \<Rightarrow> string" where
  "demo_opt x = (case x of None \<Rightarrow> [] | Some s \<Rightarrow> CHR ''s'' # s)"

definition demo_unopt :: "string \<Rightarrow> string option" where
  "demo_unopt s = (case s of [] \<Rightarrow> None | _ # r \<Rightarrow> Some r)"

definition demo_flags :: "lock_states \<Rightarrow> string" where
  "demo_flags l = map (\<lambda>b. if b then CHR ''1'' else CHR ''0'') [ls_caps l, ls_num l, ls_scroll l]"

definition demo_unflags :: "string \<Rightarrow> lock_states" where
  "demo_unflags s = \<lparr>ls_caps = s ! 0 = CHR ''1'', ls_num = s ! 1 = CHR ''1'', ls_scroll = s ! 2 = CHR ''1''\<rparr>"

definition demo_pair_codecs :: pair_codecs where
  "demo_pair_codecs =
     \<lparr>pc_request_json = (\<lambda>q. concat (map demo_enc_str
        [pq_device_id q, pq_device_name q, pq_pubkey_b64 q, pq_fingerprint q, pq_code q])),
      pc_request_parse = (\<lambda>bs. case demo_dec_strs 5 bs of Some [a, b, c, d, e] \<Rightarrow>
          Some \<lparr>pq_device_id = a, pq_device_name = b, pq_pubkey_b64 = c, pq_fingerprint = d, pq_code = e\<rparr> | _ \<Rightarrow> None),
      pc_reply_json = (\<lambda>r. concat (map demo_enc_str
        [pr_device_id r, pr_device_name r, pr_pubkey_b64 r, pr_fingerprint r, demo_opt (pr_reason r),
         demo_opt (map_option demo_flags (pr_locks r))])),
      pc_reply_parse = (\<lambda>bs. case demo_dec_strs 6 bs of Some [a, b, c, d, e, f] \<Rightarrow>
          Some \<lparr>pr_device_id = a, pr_device_name = b, pr_pubkey_b64 = c, pr_fingerprint = d, pr_reason = demo_unopt e,
            pr_locks = map_option demo_unflags (demo_unopt f)\<rparr> | _ \<Rightarrow> None)\<rparr>"

definition demo_host :: "unit host_codecs" where
  "demo_host = \<lparr>hc_pub_of = demo_pub, hc_sha256 = (\<lambda>b. b), hc_b64_encode = sx_b64_encode demo_crypto,
     hc_b64_decode = sx_b64_decode demo_crypto, hc_identity_json = (\<lambda>_. ()), hc_identity_parse = (\<lambda>_. Inl [])\<rparr>"

lemma demo_pair_codecs_ok: "pair_codecs_ok demo_host demo_pair_codecs"
proof -
  have five: "demo_dec_strs 5 (concat (map demo_enc_str [a, b, c, d, e])) = Some [a, b, c, d, e]" for a b c d e
  proof -
    have "length [a, b, c, d, e] = 5" by simp
    then show ?thesis by (metis demo_dec_strs_enc)
  qed
  have six: "demo_dec_strs 6 (concat (map demo_enc_str [a, b, c, d, e, f])) = Some [a, b, c, d, e, f]" for a b c d e f
  proof -
    have "length [a, b, c, d, e, f] = 6" by simp
    then show ?thesis by (metis demo_dec_strs_enc)
  qed
  have opt: "demo_unopt (demo_opt x) = x" for x by (cases x) (simp_all add: demo_opt_def demo_unopt_def)
  have flags: "demo_unflags (demo_flags l) = l" for l by (cases l) (simp add: demo_unflags_def demo_flags_def)
  have parse: "pc_request_parse demo_pair_codecs (pc_request_json demo_pair_codecs q) = Some q" for q
    using five [of "pq_device_id q" "pq_device_name q" "pq_pubkey_b64 q" "pq_fingerprint q" "pq_code q"]
    by (simp add: demo_pair_codecs_def)
  have reply: "pc_reply_parse demo_pair_codecs (pc_reply_json demo_pair_codecs r) = Some r" for r
    using six [of "pr_device_id r" "pr_device_name r" "pr_pubkey_b64 r" "pr_fingerprint r" "demo_opt (pr_reason r)"
        "demo_opt (map_option demo_flags (pr_locks r))"]
    by (simp add: demo_pair_codecs_def opt option.map_comp comp_def flags option.map_ident)
  show ?thesis
    using parse reply demo_crypto_ok
    by (simp add: pair_codecs_ok_def crypto_ok_def demo_host_def demo_crypto_def key_len_def)
qed

definition demo_device :: "string \<Rightarrow> byte \<Rightarrow> device_identity" where
  "demo_device d b = from_secret demo_host [b] d d"

lemma demo_device_proper: "proper demo_host (demo_device d b)"
  by (simp add: proper_def demo_device_def from_secret_def)

definition demo_service :: "bool \<Rightarrow> unit pairing_service" where
  "demo_service wr = \<lparr>sv_identity = demo_device ''B'' 4, sv_codes = snd (code_issue 0 42), sv_store = pair_load None wr,
     sv_throttle = (\<lambda>_. None)\<rparr>"

lemma demo_service_code: "sv_codes (demo_service wr) = Some \<lparr>ac_code = ''000042'', ac_expires = 120000, ac_attempts = 0, ac_used = False\<rparr>"
proof -
  have "show6 42 = ''000042''" by code_simp
  then show ?thesis by (simp add: demo_service_def code_issue_def code_ttl_def Let_def)
qed

theorem pairing_enables_sessions_witness:
  "\<exists>res store1 h1 r sv1. pair_with demo_host demo_pair_codecs (demo_device ''A'' 3) (pair_load None True) 7 (None :: unit led_port option) ()
       (handle_pair_conn demo_host demo_pair_codecs (demo_service True) 10 8 (Some ()) None True) ''000042''
      = (Inr res, store1, h1, r, sv1)
     \<and> knows demo_crypto store1 (demo_device ''B'' 4) \<and> knows demo_crypto (sv_store sv1) (demo_device ''A'' 3)"
proof -
  let ?a = "\<lparr>ac_code = ''000042'', ac_expires = 120000, ac_attempts = 0, ac_used = False\<rparr>"
  have "case pair_with demo_host demo_pair_codecs (demo_device ''A'' 3) (pair_load None True) 7 (None :: unit led_port option) ()
      (handle_pair_conn demo_host demo_pair_codecs (demo_service True) 10 8 (Some ()) None True) (ac_code ?a) of (res, store1, h1, r, sv1) \<Rightarrow>
    (\<exists>ps pc'. res = Inr ps \<and> pp_device_id ps = di_device_id (demo_device ''B'' 4) \<and> r = Some pc' \<and> pp_device_id pc' = di_device_id (demo_device ''A'' 3))
    \<and> knows demo_crypto store1 (demo_device ''B'' 4) \<and> knows demo_crypto (sv_store sv1) (demo_device ''A'' 3)
    \<and> (\<forall>code now'. \<exists>e. fst (code_validate code now' (sv_codes sv1)) = Inl e)"
    by (rule pairing_enables_sessions [OF demo_pair_codecs_ok demo_device_proper demo_device_proper])
      (simp_all add: demo_service_code, simp_all add: demo_service_def demo_device_def from_secret_def ip_blocked_def pair_load_def max_attempts_def
        demo_host_def demo_crypto_def)
  then show ?thesis by (auto split: prod.splits)
qed

lemma busy_reply_still_pairs_witness:
  "\<exists>sv'. handle_pair_conn demo_host demo_pair_codecs (demo_service False) 10 8 (Some ()) None True
        (pair_request_frame demo_host demo_pair_codecs (demo_device ''A'' 3) ''000042'')
      = (Some (pair_reply_frame demo_host demo_pair_codecs (demo_device ''B'' 4) PairReject (Some ''busy'') None), None, sv')
    \<and> knows demo_crypto (sv_store sv') (demo_device ''A'' 3)"
proof -
  have v: "code_validate ''000042'' 10 (sv_codes (demo_service False))
      = (Inr (), Some \<lparr>ac_code = ''000042'', ac_expires = 120000, ac_attempts = 0, ac_used = True\<rparr>)"
    by (simp add: demo_service_code code_validate_def max_attempts_def)
  have i: "sv_identity (demo_service False) = demo_device ''B'' 4" by (simp add: demo_service_def)
  have "\<exists>sv'. handle_pair_conn demo_host demo_pair_codecs (demo_service False) 10 8 (Some ()) None True
        (pair_request_frame demo_host demo_pair_codecs (demo_device ''A'' 3) ''000042'')
      = (Some (pair_reply_frame demo_host demo_pair_codecs (sv_identity (demo_service False)) PairReject (Some ''busy'') None), None, sv')
    \<and> knows demo_crypto (sv_store sv') (demo_device ''A'' 3) \<and> ps_file (sv_store sv') = ps_file (sv_store (demo_service False))"
    by (rule busy_reply_still_pairs [OF demo_pair_codecs_ok demo_device_proper _ _ _ v])
      (simp_all add: demo_service_def demo_device_def from_secret_def ip_blocked_def pair_load_def demo_host_def demo_crypto_def)
  then show ?thesis unfolding i by blast
qed

lemma only_code_holder_stored_witness:
  "\<exists>reply r sv' (req :: pair_request). handle_pair_conn demo_host demo_pair_codecs (demo_service True) 10 8 (Some ()) None True
        (pair_request_frame demo_host demo_pair_codecs (demo_device ''A'' 3) ''000042'') = (reply, r, sv')
     \<and> sv_store sv' \<noteq> sv_store (demo_service True)
     \<and> fst (code_validate (pq_code req) 10 (sv_codes (demo_service True))) = Inr ()"
proof -
  let ?x = "handle_pair_conn demo_host demo_pair_codecs (demo_service True) 10 8 (Some ()) None True
        (pair_request_frame demo_host demo_pair_codecs (demo_device ''A'' 3) ''000042'')"
  obtain reply r sv' where x: "?x = (reply, r, sv')" by (cases ?x)
  have v: "verify_binding demo_host (hc_pub_of demo_host (di_secret (demo_device ''A'' 3))) (di_fingerprint (demo_device ''A'' 3))"
    using demo_pair_codecs_ok demo_device_proper [of "''A''" 3] by (simp add: verify_binding_def pair_codecs_ok_def proper_def)
  have c: "code_validate ''000042'' 10 (sv_codes (demo_service True))
      = (Inr (), Some \<lparr>ac_code = ''000042'', ac_expires = 120000, ac_attempts = 0, ac_used = True\<rparr>)"
    by (simp add: demo_service_code code_validate_def max_attempts_def)
  have th: "ip_blocked 10 (Some ()) (sv_throttle (demo_service True)) = (False, \<lambda>_. None)"
    and st: "sv_store (demo_service True) = pair_load None True"
    and ids: "di_device_id (demo_device ''A'' 3) \<noteq> di_device_id (sv_identity (demo_service True))"
    by (simp_all add: demo_service_def ip_blocked_def demo_device_def from_secret_def)
  have up: "pair_upsert (pair_load None True) p = (Inr (), s) \<Longrightarrow> s \<noteq> pair_load None True" for p s
    by (auto simp: pair_upsert_def pair_persist_def pair_load_def)
  have ok: "\<exists>s. pair_upsert (pair_load None True) p = (Inr (), s)" for p
    by (rule pair_upsert_ok) (simp add: pair_load_def)
  let ?p = "\<lparr>pp_device_id = di_device_id (demo_device ''A'' 3), pp_device_name = di_device_name (demo_device ''A'' 3),
      pp_fingerprint = di_fingerprint (demo_device ''A'' 3),
      pp_pubkey_b64 = hc_b64_encode demo_host (hc_pub_of demo_host (di_secret (demo_device ''A'' 3))), pp_paired_at = 8\<rparr>"
  obtain s where s: "pair_upsert (pair_load None True) ?p = (Inr (), s)" using ok by blast
  have "sv_store (snd (snd ?x)) = s"
    using v c th st ids s demo_pair_codecs_ok
    by (simp add: handle_pair_conn_def pair_request_frame_def pair_codecs_ok_def Let_def)
  then have ne: "sv_store sv' \<noteq> sv_store (demo_service True)" using x up [OF s] st by simp
  obtain req :: pair_request where "fst (code_validate (pq_code req) 10 (sv_codes (demo_service True))) = Inr ()"
    using only_code_holder_stored [OF x ne] by (elim exE conjE) (rule that, assumption)
  with x ne show ?thesis by (intro exI conjI)
qed



end
