(* ===== verification/Win_Path.thy ===== *)
theory Win_Path
  imports Str
begin

text \<open>
  Paths of the standard library on Windows, the one platform of the program: the prefix of a path
  (drive, share, device, verbatim), its last component (\<open>Path::file_name\<close>), the stem and extension
  of a name, and \<open>Path::join\<close>.  A verbatim path (\<open>\\?\\<close>) is split at backslashes only.
\<close>

section \<open>Prefixes\<close>

definition bslash :: char where "bslash = CHR 0x5C"

definition path_sep :: "bool \<Rightarrow> char \<Rightarrow> bool" where
  "path_sep verbatim c \<longleftrightarrow> c = bslash \<or> \<not> verbatim \<and> c = CHR ''/''"

definition is_letter :: "char \<Rightarrow> bool" where
  "is_letter c \<longleftrightarrow> list_ex (\<lambda>(lo, hi). lo \<le> c \<and> c \<le> hi) [(CHR ''a'', CHR ''z''), (CHR ''A'', CHR ''Z'')]"

fun has_drive :: "string \<Rightarrow> bool" where
  "has_drive (d # c # _) \<longleftrightarrow> is_letter d \<and> c = CHR '':''"
| "has_drive _ \<longleftrightarrow> False"

datatype path_prefix =
    NoPrefix | Disk | UNC string string | DeviceNS string
  | Verbatim string | VerbatimUNC string string | VerbatimDisk

text \<open>\<open>parse_next_component\<close>: up to the first separator, and what follows it.\<close>

definition next_component :: "bool \<Rightarrow> string \<Rightarrow> string \<times> string" where
  "next_component verbatim s =
     (takeWhile (\<lambda>c. \<not> path_sep verbatim c) s, drop 1 (dropWhile (\<lambda>c. \<not> path_sep verbatim c) s))"

definition drive_exact :: "string \<Rightarrow> bool" where
  "drive_exact s \<longleftrightarrow> has_drive s \<and> (case drop 2 s of [] \<Rightarrow> True | c # _ \<Rightarrow> path_sep False c)"

text \<open>\<open>parse_prefix\<close>; a verbatim prefix must be written with backslashes.\<close>

definition parse_prefix :: "string \<Rightarrow> path_prefix" where
  "parse_prefix s =
     (let t = map (\<lambda>c. if c = CHR ''/'' then bslash else c) (take 8 s); r = drop 2 s in
      if take 2 t \<noteq> [bslash, bslash] then (if has_drive s then Disk else NoPrefix)
      else if take 4 s = [bslash, bslash, CHR ''?'', bslash] then
        (if drop 4 t = ''UNC'' @ [bslash] then
           (let (server, r1) = next_component True (drop 8 s) in
            VerbatimUNC server (fst (next_component True r1)))
         else if drive_exact (drop 4 s) then VerbatimDisk
         else Verbatim (fst (next_component True (drop 4 s))))
      else if take 2 (drop 2 t) = [CHR ''.'', bslash] then DeviceNS (fst (next_component False (drop 4 s)))
      else
        (let (server, r1) = next_component False r; share = fst (next_component False r1) in
         if server \<noteq> [] \<and> share \<noteq> [] then UNC server share else NoPrefix))"

definition joint_len :: "string \<Rightarrow> nat" where
  "joint_len s = (if s = [] then 0 else 1 + length s)"

fun prefix_len :: "path_prefix \<Rightarrow> nat" where
  "prefix_len NoPrefix = 0"
| "prefix_len Disk = 2"
| "prefix_len (UNC x y) = 2 + length x + joint_len y"
| "prefix_len (DeviceNS x) = 4 + length x"
| "prefix_len (Verbatim x) = 4 + length x"
| "prefix_len (VerbatimUNC x y) = 8 + length x + joint_len y"
| "prefix_len VerbatimDisk = 6"

fun verbatim :: "path_prefix \<Rightarrow> bool" where
  "verbatim (Verbatim _) \<longleftrightarrow> True"
| "verbatim (VerbatimUNC _ _) \<longleftrightarrow> True"
| "verbatim VerbatimDisk \<longleftrightarrow> True"
| "verbatim _ \<longleftrightarrow> False"

section \<open>Names\<close>

text \<open>\<open>Path::file_name\<close>: the last component, unless it is \<open>..\<close> (or a verbatim \<open>.\<close>).\<close>

definition path_components :: "string \<Rightarrow> string list" where
  "path_components s =
     (let p = parse_prefix s in
      filter (\<lambda>c. c \<noteq> [] \<and> (verbatim p \<or> c \<noteq> ''.''))
        (split_on (path_sep (verbatim p)) (drop (prefix_len p) s)))"

definition path_file_name :: "string \<Rightarrow> string option" where
  "path_file_name s =
     (case rev (path_components s) of
        [] \<Rightarrow> None
      | c # _ \<Rightarrow> if c = ''.'' \<or> c = ''..'' then None else Some c)"

text \<open>\<open>rsplit_file_at_dot\<close>: the name before its last dot and what follows it.\<close>

definition stem_and_ext :: "string \<Rightarrow> string \<times> string option" where
  "stem_and_ext name =
     (let trail = rev (takeWhile (\<lambda>c. c \<noteq> CHR ''.'') (rev name));
          lead = rev (drop 1 (dropWhile (\<lambda>c. c \<noteq> CHR ''.'') (rev name)))
      in if name = ''..'' \<or> CHR ''.'' \<notin> set name \<or> lead = [] then (name, None)
         else (lead, Some trail))"

section \<open>Joining\<close>

text \<open>
  \<open>root.join(s)\<close> for a root that is not verbatim and does not end in a separator: a path with a
  prefix of its own replaces the root, one that starts at a root keeps only the root's prefix.
\<close>

definition path_join :: "string \<Rightarrow> string \<Rightarrow> string" where
  "path_join root s =
     (if parse_prefix s \<noteq> NoPrefix then s
      else case s of
        c # _ \<Rightarrow> if path_sep False c then take (prefix_len (parse_prefix root)) root @ s
                 else root @ [bslash] @ s
      | [] \<Rightarrow> root @ [bslash])"

text \<open>A name that stays in the directory it is joined to.\<close>

definition plain_name :: "string \<Rightarrow> bool" where
  "plain_name s \<longleftrightarrow> s \<noteq> [] \<and> s \<noteq> ''.'' \<and> s \<noteq> ''..'' \<and> bslash \<notin> set s \<and> CHR ''/'' \<notin> set s \<and> \<not> has_drive s"

lemma parse_prefix_plain: "plain_name s \<Longrightarrow> parse_prefix s = NoPrefix"
  by (cases s; cases "tl s") (auto simp: plain_name_def parse_prefix_def bslash_def Let_def split: if_splits)

lemma path_join_plain: "plain_name s \<Longrightarrow> path_join root s = root @ [bslash] @ s"
  by (cases s) (auto simp: path_join_def parse_prefix_plain path_sep_def plain_name_def)

lemma path_components_plain: "plain_name s \<Longrightarrow> path_components s = [s]"
proof -
  assume s: "plain_name s"
  then have "split_on (path_sep False) s = [s]"
    by (intro split_on_id) (auto simp: path_sep_def plain_name_def)
  with s show "path_components s = [s]"
    by (simp add: path_components_def parse_prefix_plain) (simp add: plain_name_def)
qed

lemma path_file_name_plain: "plain_name s \<Longrightarrow> path_file_name s = Some s"
  by (simp add: path_file_name_def path_components_plain) (auto simp: plain_name_def)

text \<open>What \<open>file_name\<close> returns for a path that is not verbatim has no separator; it may still have a
  drive of its own.\<close>

lemma path_file_name_seps:
  assumes "path_file_name s = Some n"
  shows "n \<noteq> [] \<and> n \<noteq> ''.'' \<and> n \<noteq> ''..'' \<and> bslash \<notin> set n \<and> (verbatim (parse_prefix s) \<or> CHR ''/'' \<notin> set n)"
proof -
  have n: "n \<in> set (path_components s)" "n \<noteq> ''.''" "n \<noteq> ''..''"
    using assms by (auto simp: path_file_name_def split: list.splits if_splits dest!: arg_cong [of "rev _" _ set])
  then have sp: "n \<in> set (split_on (path_sep (verbatim (parse_prefix s))) (drop (prefix_len (parse_prefix s)) s))" "n \<noteq> []"
    by (auto simp: path_components_def Let_def)
  show ?thesis using n(2,3) sp(2) split_on_pieces [OF sp(1)] by (auto simp: path_sep_def)
qed

lemma path_file_name_plainI:
  "path_file_name s = Some n \<Longrightarrow> \<not> verbatim (parse_prefix s) \<Longrightarrow> \<not> has_drive n \<Longrightarrow> plain_name n"
  using path_file_name_seps [of s n] by (auto simp: plain_name_def)

end
