(* ===== verification/Kvm_Transfer.thy ===== *)
theory Kvm_Transfer
  imports Host_Wire Win_Path
begin

text \<open>
  Files sent between paired devices (\<open>crates/kvm-core/src/transfer.rs\<close> and the frame handlers of
  \<open>module.rs\<close>): the sender cuts a file into chunks, the receiver writes them at their offsets into a
  part file, checks the hash of the whole and moves it to a free name.  The hash and the JSON codec
  are arguments.  Files live at places; \<open>fp_resolve\<close> is the system's resolution of a path, and a
  port says what the system answers during one call.  The receiver's handlers run one at a time.
\<close>

section \<open>Payloads\<close>

definition chunk_size :: nat where "chunk_size = 4 * 1024 * 1024 - 4096"

record file_meta =
  fm_transfer_id :: string
  fm_name :: string
  fm_size :: nat
  fm_sha256 :: string
  fm_chunk_size :: nat
  fm_total_chunks :: nat

datatype transfer_error =
    T001 | T007 | T008 | T009 | T010 | T011 | T012 | T013 | T014 | T015 | T016 | T017 | T018
  | T020 | T021 | T022 | T023 | T024 | T025 | SessionGone

record ack_payload =
  ak_transfer_id :: string
  ak_ok :: bool
  ak_error :: "transfer_error option"

definition chunk_header :: nat where "chunk_header = 40"

definition encode_chunk :: "bytes \<Rightarrow> 64 word \<Rightarrow> bytes \<Rightarrow> bytes" where
  "encode_chunk sha index data = sha @ rev (le_bytes 8 index) @ data"

definition decode_chunk :: "bytes \<Rightarrow> transfer_error + bytes \<times> 64 word \<times> bytes" where
  "decode_chunk payload =
     (if length payload < chunk_header then Inl T001
      else Inr (take 32 payload, le_word (rev (take 8 (drop 32 payload))), drop chunk_header payload))"

definition chunk_frame :: "bytes \<Rightarrow> nat \<Rightarrow> bytes \<Rightarrow> frame" where
  "chunk_frame sha index data =
     \<lparr>fr_type = FileChunk, fr_flags = 0, fr_payload = encode_chunk sha (of_nat index) data\<rparr>"

lemma decode_encode_chunk:
  "length sha = 32 \<Longrightarrow> decode_chunk (encode_chunk sha i data) = Inr (sha, i, data)"
  by (simp add: decode_chunk_def encode_chunk_def chunk_header_def)

section \<open>The sender\<close>

text \<open>
  What the sender sees of the file: its path, its length, its bytes when they are hashed and when they
  are sent, and how many bytes a plain \<open>read\<close> returns when so many fit the buffer (it may be fewer).
\<close>

record source_file =
  sf_path :: string
  sf_len :: "nat option"
  sf_hashed :: "bytes option"
  sf_sent :: "bytes option"
  sf_read :: "nat \<Rightarrow> nat"

definition div_ceil :: "nat \<Rightarrow> nat \<Rightarrow> nat" where
  "div_ceil a b = (if a mod b = 0 then a div b else a div b + 1)"

fun send_chunks ::
    "(nat \<Rightarrow> nat) \<Rightarrow> (frame \<Rightarrow> bool) \<Rightarrow> bytes \<Rightarrow> nat \<Rightarrow> nat list \<Rightarrow> bytes \<Rightarrow> (transfer_error + unit) \<times> frame list" where
  "send_chunks rd accepts sha tot [] rest = (Inr (), [])"
| "send_chunks rd accepts sha tot (index # is) rest =
     (let is_last = (index + 1 = tot);
          n = (if is_last then rd (min chunk_size (length rest)) else chunk_size)
      in if \<not> is_last \<and> length rest < chunk_size then (Inl T008, [])
         else if n = 0 then (Inl T009, [])
         else
           let f = chunk_frame sha index (take n rest) in
           if \<not> accepts f then (Inl SessionGone, [])
           else apsnd ((#) f) (send_chunks rd accepts sha tot is (drop n rest)))"

definition file_meta_of :: "(bytes \<Rightarrow> bytes) \<Rightarrow> string \<Rightarrow> nat \<Rightarrow> bytes \<Rightarrow> file_meta" where
  "file_meta_of sha name len hashed =
     (let h = hex_lower (sha hashed) in
      \<lparr>fm_transfer_id = h, fm_name = name, fm_size = len, fm_sha256 = h, fm_chunk_size = chunk_size,
       fm_total_chunks = div_ceil len chunk_size\<rparr>)"

definition meta_frame :: "(file_meta \<Rightarrow> bytes) \<Rightarrow> file_meta \<Rightarrow> frame" where
  "meta_frame enc m = \<lparr>fr_type = FileMeta, fr_flags = 0, fr_payload = enc m\<rparr>"

definition send_file ::
    "(bytes \<Rightarrow> bytes) \<Rightarrow> (file_meta \<Rightarrow> bytes) \<Rightarrow> (frame \<Rightarrow> bool) \<Rightarrow> source_file
       \<Rightarrow> (transfer_error + string) \<times> frame list" where
  "send_file sha enc accepts src =
     (case (path_file_name (sf_path src), sf_len src, sf_hashed src) of
        (None, _, _) \<Rightarrow> (Inl T007, [])
      | (Some name, Some len, Some hashed) \<Rightarrow>
          (let m = file_meta_of sha name len hashed; f = meta_frame enc m in
           if \<not> accepts f then (Inl SessionGone, [])
           else if len = 0 then (Inr (fm_transfer_id m), [f])
           else
             (case sf_sent src of
                None \<Rightarrow> (Inl T008, [f])
              | Some body \<Rightarrow>
                  (case send_chunks (sf_read src) accepts (sha hashed) (fm_total_chunks m)
                          [0..<fm_total_chunks m] body of
                     (Inl e, fs) \<Rightarrow> (Inl e, f # fs)
                   | (Inr _, fs) \<Rightarrow> (Inr (fm_transfer_id m), f # fs))))
      | _ \<Rightarrow> (Inl T008, []))"

section \<open>The receiver\<close>

record 'p file_port =
  fp_resolve :: "string \<Rightarrow> 'p"
  fp_root_ok :: bool
  fp_open_ok :: "'p \<Rightarrow> bool"
  fp_resize_ok :: bool
  fp_written :: "nat option"
  fp_read_ok :: bool
  fp_rename_ok :: bool

record 'p incoming =
  in_meta :: file_meta
  in_file :: 'p
  in_received :: "nat set"

record 'p transfer_manager =
  tm_root :: string
  tm_fs :: "'p \<Rightarrow> bytes option"
  tm_table :: "string \<Rightarrow> 'p incoming option"

datatype meta_outcome = MetaAccepted nat nat | MetaCompleted string
datatype chunk_outcome = ChunkInProgress nat nat | ChunkCompleted string

definition part_path :: "string \<Rightarrow> string \<Rightarrow> string" where
  "part_path root transfer_id = path_join root (transfer_id @ ''.part'')"

definition validate_meta :: "file_meta \<Rightarrow> transfer_error + unit" where
  "validate_meta m =
     (if 8 * 1024 * 1024 * 1024 < fm_size m then Inl T020
      else if fm_size m = 0 then (if fm_total_chunks m \<noteq> 0 then Inl T022 else Inr ())
      else if fm_chunk_size m = 0 \<or> chunk_size < fm_chunk_size m then Inl T021
      else if fm_total_chunks m = 0 \<or> fm_total_chunks m \<noteq> div_ceil (fm_size m) (fm_chunk_size m) then Inl T022
      else Inr ())"

definition numbered :: "string \<Rightarrow> nat \<Rightarrow> string" where
  "numbered safe n =
     (let (stem, ext) = (case path_file_name safe of None \<Rightarrow> (safe, None) | Some f \<Rightarrow> stem_and_ext f);
          base = stem @ '' ('' @ show_nat n @ '')''
      in case ext of None \<Rightarrow> base | Some e \<Rightarrow> base @ ''.'' @ e)"

definition claim_final_path :: "'p file_port \<Rightarrow> 'p transfer_manager \<Rightarrow> string \<Rightarrow> transfer_error + string" where
  "claim_final_path port tm name =
     (case path_file_name name of
        None \<Rightarrow> Inl T018
      | Some safe \<Rightarrow>
          (case find (\<lambda>p. tm_fs tm (fp_resolve port p) = None)
                  (map (path_join (tm_root tm)) (safe # map (numbered safe) [1..<1000])) of
             None \<Rightarrow> Inl T018
           | Some p \<Rightarrow> Inr p))"

definition set_len :: "nat \<Rightarrow> bytes \<Rightarrow> bytes" where
  "set_len n d = take n d @ replicate (n - length d) 0"

definition on_meta ::
    "'p file_port \<Rightarrow> 'p transfer_manager \<Rightarrow> file_meta \<Rightarrow> (transfer_error + meta_outcome) \<times> 'p transfer_manager" where
  "on_meta port tm m =
     (if fm_sha256 m \<noteq> fm_transfer_id m then (Inl T010, tm)
      else case validate_meta m of
        Inl e \<Rightarrow> (Inl e, tm)
      | Inr _ \<Rightarrow>
          if \<not> fp_root_ok port then (Inl T011, tm)
          else if fm_size m = 0 then
            (case claim_final_path port tm (fm_name m) of
               Inl e \<Rightarrow> (Inl e, tm)
             | Inr p \<Rightarrow>
                 if \<not> fp_open_ok port (fp_resolve port p) then (Inl T011, tm)
                 else (Inr (MetaCompleted p), tm\<lparr>tm_fs := (tm_fs tm)(fp_resolve port p \<mapsto> [])\<rparr>))
          else
            (case tm_table tm (fm_transfer_id m) of
               Some i \<Rightarrow> (Inr (MetaAccepted (card (in_received i)) (fm_total_chunks (in_meta i))), tm)
             | None \<Rightarrow>
                 let q = fp_resolve port (part_path (tm_root tm) (fm_transfer_id m)) in
                 if \<not> fp_open_ok port q then (Inl T011, tm)
                 else
                   let old = (case tm_fs tm q of None \<Rightarrow> [] | Some d \<Rightarrow> d) in
                   if \<not> fp_resize_ok port then (Inl T011, tm\<lparr>tm_fs := (tm_fs tm)(q \<mapsto> old)\<rparr>)
                   else
                     (Inr (MetaAccepted 0 (fm_total_chunks m)),
                      tm\<lparr>tm_fs := (tm_fs tm)(q \<mapsto> set_len (fm_size m) old),
                         tm_table := (tm_table tm)(fm_transfer_id m \<mapsto>
                           \<lparr>in_meta = m, in_file = q, in_received = {}\<rparr>)\<rparr>)))"

text \<open>\<open>finalize\<close>: out of the table, hash, claim a name, move.\<close>

definition finalize ::
    "(bytes \<Rightarrow> bytes) \<Rightarrow> 'p file_port \<Rightarrow> 'p transfer_manager \<Rightarrow> string
       \<Rightarrow> (transfer_error + string) \<times> 'p transfer_manager" where
  "finalize sha port tm transfer_id =
     (case tm_table tm transfer_id of
        None \<Rightarrow> (Inl T012, tm)
      | Some i \<Rightarrow>
          let tm1 = tm\<lparr>tm_table := (tm_table tm)(transfer_id := None)\<rparr>;
              q = fp_resolve port (part_path (tm_root tm) transfer_id)
          in case (if fp_read_ok port then tm_fs tm1 q else None) of
               None \<Rightarrow> (Inl T015, tm1)
             | Some d \<Rightarrow>
                 if hex_lower (sha d) \<noteq> transfer_id
                 then (Inl T016, tm1\<lparr>tm_fs := (tm_fs tm1)(q := None)\<rparr>)
                 else
                   (case claim_final_path port tm1 (fm_name (in_meta i)) of
                      Inl e \<Rightarrow> (Inl e, tm1)
                    | Inr p \<Rightarrow>
                        if \<not> fp_rename_ok port then (Inl T017, tm1)
                        else (Inr p, tm1\<lparr>tm_fs := (tm_fs tm1)(q := None, fp_resolve port p \<mapsto> d)\<rparr>)))"

text \<open>
  A new chunk of an incoming file: its index is entered first, then its bounds are checked and its data
  written; \<open>fp_written\<close> is the number of bytes written before a failure.
\<close>

definition accept_chunk ::
    "'p file_port \<Rightarrow> 'p transfer_manager \<Rightarrow> string \<Rightarrow> 'p incoming \<Rightarrow> nat \<Rightarrow> bytes
       \<Rightarrow> (transfer_error + unit) \<times> 'p transfer_manager" where
  "accept_chunk port tm tid i index data =
     (let tm1 = tm\<lparr>tm_table := (tm_table tm)(tid \<mapsto> i\<lparr>in_received := insert index (in_received i)\<rparr>)\<rparr>;
          off = index * fm_chunk_size (in_meta i);
          old = (case tm_fs tm (in_file i) of None \<Rightarrow> [] | Some d \<Rightarrow> d)
      in if fm_chunk_size (in_meta i) < length data then (Inl T013, tm1)
         else if 2 ^ 64 \<le> off then (Inl T024, tm1)
         else if fm_size (in_meta i) < off + length data then (Inl T025, tm1)
         else
           (case fp_written port of
              Some k \<Rightarrow> (Inl T014, tm1\<lparr>tm_fs := (tm_fs tm)(in_file i \<mapsto> write_at off (take k data) old)\<rparr>)
            | None \<Rightarrow> (Inr (), tm1\<lparr>tm_fs := (tm_fs tm)(in_file i \<mapsto> write_at off data old)\<rparr>)))"

definition on_chunk ::
    "(bytes \<Rightarrow> bytes) \<Rightarrow> 'p file_port \<Rightarrow> 'p transfer_manager \<Rightarrow> bytes
       \<Rightarrow> (transfer_error + chunk_outcome) \<times> 'p transfer_manager" where
  "on_chunk sha port tm payload =
     (case decode_chunk payload of
        Inl e \<Rightarrow> (Inl e, tm)
      | Inr (digest, index, data) \<Rightarrow>
          let tid = hex_lower digest in
          (case tm_table tm tid of
             None \<Rightarrow> (Inl T012, tm)
           | Some i \<Rightarrow>
               if fm_total_chunks (in_meta i) \<le> unat index then (Inl T023, tm)
               else
                 (case (if unat index \<in> in_received i then (Inr (), tm)
                        else accept_chunk port tm tid i (unat index) data) of
                    (Inl e, tm1) \<Rightarrow> (Inl e, tm1)
                  | (Inr _, tm1) \<Rightarrow>
                      let got = card (insert (unat index) (in_received i)) in
                      if got = fm_total_chunks (in_meta i)
                      then (case finalize sha port tm1 tid of
                              (Inl e, tm2) \<Rightarrow> (Inl e, tm2)
                            | (Inr p, tm2) \<Rightarrow> (Inr (ChunkCompleted p), tm2))
                      else (Inr (ChunkInProgress got (fm_total_chunks (in_meta i))), tm1))))"

text \<open>
  The handlers of the session's frames: the acknowledgement sent back, if any.  A failing \<open>FileMeta\<close> is
  only logged.
\<close>

definition handle_file_frame ::
    "(bytes \<Rightarrow> bytes) \<Rightarrow> (bytes \<Rightarrow> file_meta option) \<Rightarrow> 'p file_port \<Rightarrow> 'p transfer_manager \<Rightarrow> frame
       \<Rightarrow> ack_payload list \<times> 'p transfer_manager" where
  "handle_file_frame sha dec port tm f =
     (case fr_type f of
        FileMeta \<Rightarrow>
          (case dec (fr_payload f) of
             None \<Rightarrow> ([], tm)
           | Some m \<Rightarrow>
               (case on_meta port tm m of
                  (Inr (MetaCompleted _), tm1) \<Rightarrow> ([\<lparr>ak_transfer_id = fm_transfer_id m, ak_ok = True, ak_error = None\<rparr>], tm1)
                | (_, tm1) \<Rightarrow> ([], tm1)))
      | FileChunk \<Rightarrow>
          (let tid = (if 32 \<le> length (fr_payload f) then hex_lower (take 32 (fr_payload f)) else []) in
           case on_chunk sha port tm (fr_payload f) of
             (Inl e, tm1) \<Rightarrow> ([\<lparr>ak_transfer_id = tid, ak_ok = False, ak_error = Some e\<rparr>], tm1)
           | (Inr (ChunkCompleted _), tm1) \<Rightarrow> ([\<lparr>ak_transfer_id = tid, ak_ok = True, ak_error = None\<rparr>], tm1)
           | (Inr _, tm1) \<Rightarrow> ([], tm1))
      | _ \<Rightarrow> ([], tm))"

fun run_file_frames ::
    "(bytes \<Rightarrow> bytes) \<Rightarrow> (bytes \<Rightarrow> file_meta option) \<Rightarrow> 'p file_port \<Rightarrow> 'p transfer_manager \<Rightarrow> frame list
       \<Rightarrow> ack_payload list \<times> 'p transfer_manager" where
  "run_file_frames sha dec port tm [] = ([], tm)"
| "run_file_frames sha dec port tm (f # fs) =
     (let (as, tm1) = handle_file_frame sha dec port tm f in
      apfst ((@) as) (run_file_frames sha dec port tm1 fs))"

section \<open>Chunks of a file\<close>

definition chunk_data :: "bytes \<Rightarrow> nat \<Rightarrow> bytes" where
  "chunk_data c i = take chunk_size (drop (i * chunk_size) c)"

lemma chunk_size_pos [simp]: "0 < chunk_size"
  by (simp add: chunk_size_def)

lemma div_ceil_bounds:
  assumes "0 < b"
  shows "a \<le> div_ceil a b * b" and "i < div_ceil a b \<Longrightarrow> i * b < a" and "i + 1 < div_ceil a b \<Longrightarrow> (i + 1) * b < a"
proof -
  have lt: "j * b < a" if "j < div_ceil a b" for j
  proof (cases "a mod b = 0")
    case True
    then have "a = (a div b) * b" by (metis add.right_neutral div_mult_mod_eq)
    moreover have "j * b < (a div b) * b" using that True assms by (simp add: div_ceil_def)
    ultimately show ?thesis by simp
  next
    case False
    then have "j * b \<le> (a div b) * b" using that by (simp add: div_ceil_def)
    also have "\<dots> < a" using False div_mult_mod_eq [of a b] by linarith
    finally show ?thesis .
  qed
  show "i < div_ceil a b \<Longrightarrow> i * b < a" by (rule lt)
  show "i + 1 < div_ceil a b \<Longrightarrow> (i + 1) * b < a" by (rule lt)
  show "a \<le> div_ceil a b * b"
  proof (cases "a mod b = 0")
    case True
    then show ?thesis using div_mult_mod_eq [of a b] by (simp add: div_ceil_def)
  next
    case False
    have "a \<le> (a div b) * b + b"
      using div_mult_mod_eq [of a b] mod_less_divisor [OF assms, of a] by linarith
    then show ?thesis using False by (simp add: div_ceil_def algebra_simps)
  qed
qed

lemma div_ceil_eq_0 [simp]: "0 < b \<Longrightarrow> div_ceil a b = 0 \<longleftrightarrow> a = 0"
  using div_ceil_bounds(1) [of b a] by (cases "a = 0") (auto simp: div_ceil_def)

lemma div_ceil_le: "0 < b \<Longrightarrow> div_ceil a b \<le> a"
  using div_ceil_bounds(2) [of b "a" a] by (metis le_less_linear mult.right_neutral mult_le_mono2 not_less Suc_leI One_nat_def order.refl)

lemma div_less_div_ceil: "0 < b \<Longrightarrow> k < a \<Longrightarrow> k div b < div_ceil a b"
  using div_ceil_bounds(1) [of b a] by (simp add: less_mult_imp_div_less)

lemma send_chunks_full:
  assumes "0 < length c" and "k \<le> div_ceil (length c) chunk_size"
  shows "send_chunks (\<lambda>n. n) (\<lambda>_. True) sha (div_ceil (length c) chunk_size) [k..<div_ceil (length c) chunk_size]
      (drop (k * chunk_size) c)
    = (Inr (), map (\<lambda>i. chunk_frame sha i (chunk_data c i)) [k..<div_ceil (length c) chunk_size])"
  using assms(2)
proof (induction k rule: inc_induct)
  case (step k)
  let ?t = "div_ceil (length c) chunk_size"
  have k: "k < ?t" using step by simp
  have rest: "drop ((Suc k) * chunk_size) c = drop chunk_size (drop (k * chunk_size) c)" by simp
  have upt: "[k..<?t] = k # [Suc k..<?t]" using k by (rule upt_conv_Cons)
  show ?case
  proof (cases "k + 1 = ?t")
    case True
    have lt: "k * chunk_size < length c" using k by (rule div_ceil_bounds(2) [OF chunk_size_pos])
    have "length c \<le> (k + 1) * chunk_size"
      unfolding True by (rule div_ceil_bounds(1)) simp
    then have ge: "length c - k * chunk_size \<le> chunk_size" by simp
    have up: "[Suc k..<?t] = []" using True by simp
    show ?thesis using True lt ge by (simp add: upt up Let_def chunk_data_def)
  next
    case False
    then have "(k + 1) * chunk_size < length c" using k by (intro div_ceil_bounds(3)) auto
    then have ge: "\<not> length c - k * chunk_size < chunk_size" by simp
    show ?thesis
      using step.IH False ge by (simp add: upt Let_def chunk_data_def add.commute)
  qed
qed simp

section \<open>Writing chunks\<close>

lemma length_set_len [simp]: "length (set_len n d) = n"
  by (simp add: set_len_def)

lemma write_at_props:
  assumes "off + length bs \<le> length d"
  shows "length (write_at off bs d) = length d"
    and "k < length d \<Longrightarrow> write_at off bs d ! k = (if off \<le> k \<and> k < off + length bs then bs ! (k - off) else d ! k)"
  using assms by (auto simp: write_at_def nth_append)

definition receiving :: "'p \<Rightarrow> file_meta \<Rightarrow> bytes \<Rightarrow> nat set \<Rightarrow> 'p transfer_manager \<Rightarrow> bool" where
  "receiving q m c R tm \<longleftrightarrow>
     tm_table tm (fm_transfer_id m) = Some \<lparr>in_meta = m, in_file = q, in_received = R\<rparr>
     \<and> (\<exists>d. tm_fs tm q = Some d \<and> length d = length c
          \<and> (\<forall>k<length c. k div chunk_size \<in> R \<longrightarrow> d ! k = c ! k))"

lemma div_eq_iff: "0 < b \<Longrightarrow> k div b = i \<longleftrightarrow> i * b \<le> k \<and> k < i * b + (b :: nat)"
  by (metis add.commute div_nat_eqI less_mult_imp_div_less mult.commute mult_Suc mult_le_mono1 div_times_less_eq_dividend le_refl dividend_less_times_div add_mult_distrib2 mult_Suc_right)

lemma write_chunk_agrees:
  assumes "length d = length c" and "\<forall>k<length c. k div chunk_size \<in> R \<longrightarrow> d ! k = c ! k"
    and "i * chunk_size < length c"
  shows "length (write_at (i * chunk_size) (chunk_data c i) d) = length c"
    and "\<forall>k<length c. k div chunk_size \<in> insert i R \<longrightarrow> write_at (i * chunk_size) (chunk_data c i) d ! k = c ! k"
proof -
  have fits: "i * chunk_size + length (chunk_data c i) \<le> length d"
    using assms(1,3) by (simp add: chunk_data_def)
  show "length (write_at (i * chunk_size) (chunk_data c i) d) = length c"
    using write_at_props(1) [OF fits] assms(1) by simp
  show "\<forall>k<length c. k div chunk_size \<in> insert i R \<longrightarrow> write_at (i * chunk_size) (chunk_data c i) d ! k = c ! k"
  proof (intro allI impI)
    fix k assume k: "k < length c" "k div chunk_size \<in> insert i R"
    show "write_at (i * chunk_size) (chunk_data c i) d ! k = c ! k"
    proof (cases "i * chunk_size \<le> k \<and> k < i * chunk_size + length (chunk_data c i)")
      case True
      then show ?thesis
        using write_at_props(2) [OF fits, of k] k(1) assms(1) by (auto simp: chunk_data_def)
    next
      case False
      have "k div chunk_size \<noteq> i"
        using False k(1) by (auto simp: div_eq_iff chunk_data_def)
      then have "d ! k = c ! k" using k assms(2) by simp
      then show ?thesis using write_at_props(2) [OF fits, of k] False k(1) assms(1) by auto
    qed
  qed
qed

section \<open>Delivery\<close>

definition healthy :: "'p file_port \<Rightarrow> bool" where
  "healthy port \<longleftrightarrow> fp_root_ok port \<and> (\<forall>q. fp_open_ok port q) \<and> fp_resize_ok port \<and> fp_written port = None
     \<and> fp_read_ok port \<and> fp_rename_ok port"

lemma on_chunk_step:
  fixes m c i R sha tm port
  defines "r \<equiv> on_chunk sha port tm (encode_chunk (sha c) (of_nat i) (chunk_data c i))"
  assumes r: "receiving q m c R tm" and m: "m = file_meta_of sha name (length c) c" and port: "fp_written port = None"
    and i: "i < fm_total_chunks m" and len: "length (sha c) = 32" "length c < 2 ^ 64"
  obtains tm1 where "receiving q m c (insert i R) tm1"
    and "\<forall>x. x \<noteq> q \<longrightarrow> tm_fs tm1 x = tm_fs tm x" and "tm_root tm1 = tm_root tm"
    and "\<forall>t. t \<noteq> fm_transfer_id m \<longrightarrow> tm_table tm1 t = tm_table tm t"
    and "r = (if card (insert i R) = fm_total_chunks m
        then (case finalize sha port tm1 (fm_transfer_id m) of
                (Inl e, tm2) \<Rightarrow> (Inl e, tm2) | (Inr p, tm2) \<Rightarrow> (Inr (ChunkCompleted p), tm2))
        else (Inr (ChunkInProgress (card (insert i R)) (fm_total_chunks m)), tm1))"
proof -
  have tot: "fm_total_chunks m = div_ceil (length c) chunk_size" and tid: "fm_transfer_id m = hex_lower (sha c)"
    and sz: "fm_size m = length c" "fm_chunk_size m = chunk_size"
    by (simp_all add: m file_meta_of_def Let_def)
  have off: "i * chunk_size < length c" using i unfolding tot by (rule div_ceil_bounds(2) [OF chunk_size_pos])
  have "div_ceil (length c) chunk_size \<le> length c" by (rule div_ceil_le) simp
  then have u: "unat (of_nat i :: 64 word) = i" using i len(2) by (intro unat_of_nat_small) (simp add: tot)
  let ?i = "\<lparr>in_meta = m, in_file = q, in_received = R\<rparr>"
  obtain d where d: "tm_table tm (fm_transfer_id m) = Some ?i" "tm_fs tm q = Some d" "length d = length c"
    "\<forall>k<length c. k div chunk_size \<in> R \<longrightarrow> d ! k = c ! k"
    using r unfolding receiving_def by blast
  have fit: "length (chunk_data c i) \<le> chunk_size" "i * chunk_size + length (chunk_data c i) \<le> length c"
    using off by (simp_all add: chunk_data_def)
  have dec: "decode_chunk (encode_chunk (sha c) (of_nat i) (chunk_data c i)) = Inr (sha c, of_nat i, chunk_data c i)"
    using len(1) by (rule decode_encode_chunk)
  let ?tm = "tm\<lparr>tm_table := (tm_table tm)(fm_transfer_id m \<mapsto> ?i\<lparr>in_received := insert i R\<rparr>),
      tm_fs := (tm_fs tm)(q \<mapsto> write_at (i * chunk_size) (chunk_data c i) d)\<rparr>"
  define tm1 where "tm1 = (if i \<in> R then tm else ?tm)"
  have acc: "(if i \<in> R then (Inr (), tm) else accept_chunk port tm (hex_lower (sha c)) ?i i (chunk_data c i)) = (Inr (), tm1)"
    using fit off len(2) d(2) port by (simp add: accept_chunk_def Let_def tm1_def sz tid)
  have rec: "receiving q m c (insert i R) tm1"
  proof (cases "i \<in> R")
    case True
    then show ?thesis using r by (simp add: tm1_def insert_absorb)
  next
    case False
    then show ?thesis using write_chunk_agrees [OF d(3,4) off] by (simp add: tm1_def receiving_def)
  qed
  have res: "r = (if card (insert i R) = fm_total_chunks m
        then (case finalize sha port tm1 (fm_transfer_id m) of
                (Inl e, tm2) \<Rightarrow> (Inl e, tm2) | (Inr p, tm2) \<Rightarrow> (Inr (ChunkCompleted p), tm2))
        else (Inr (ChunkInProgress (card (insert i R)) (fm_total_chunks m)), tm1))"
    using acc i d(1) unfolding r_def on_chunk_def dec by (cases "i \<in> R") (simp_all add: Let_def u tid)
  show ?thesis
    by (rule that [OF rec _ _ _ res]) (simp_all add: tm1_def)
qed

lemma receiving_done:
  assumes "receiving q m c {..<div_ceil (length c) chunk_size} tm"
  shows "tm_fs tm q = Some c"
proof -
  obtain d where d: "tm_fs tm q = Some d" "length d = length c"
    "\<forall>k<length c. k div chunk_size \<in> {..<div_ceil (length c) chunk_size} \<longrightarrow> d ! k = c ! k"
    using assms unfolding receiving_def by blast
  have "d = c"
    using d(2,3) by (intro nth_equalityI) (auto simp: div_less_div_ceil)
  with d(1) show ?thesis by simp
qed

lemma finalize_done:
  assumes "receiving q m c {..<div_ceil (length c) chunk_size} tm" and "healthy port"
    and "fm_transfer_id m = hex_lower (sha c)" and "fm_name m = name" and "plain_name name"
    and "q = fp_resolve port (part_path (tm_root tm) (fm_transfer_id m))"
    and "p = path_join (tm_root tm) name" and "tm_fs tm (fp_resolve port p) = None"
  shows "finalize sha port tm (fm_transfer_id m) =
    (Inr p, tm\<lparr>tm_table := (tm_table tm)(fm_transfer_id m := None),
        tm_fs := (tm_fs tm)(q := None, fp_resolve port p \<mapsto> c)\<rparr>)"
proof -
  have "claim_final_path port (tm\<lparr>tm_table := (tm_table tm)(fm_transfer_id m := None)\<rparr>) name = Inr p"
    using assms(5,7,8) by (simp add: claim_final_path_def path_file_name_plain)
  then show ?thesis
    using assms(1,2,4) receiving_done [OF assms(1)]
    by (simp add: finalize_def receiving_def healthy_def Let_def flip: assms(3,6))
qed

lemma run_chunks:
  fixes c sha port
  defines "t \<equiv> div_ceil (length c) chunk_size"
  assumes m: "m = file_meta_of sha name (length c) c" and port: "healthy port" and name: "plain_name name"
    and len: "length (sha c) = 32" "length c < 2 ^ 64"
  shows "receiving q m c R tm \<Longrightarrow> R \<union> set is = {..<t} \<Longrightarrow> R \<union> set (butlast is) \<noteq> {..<t} \<Longrightarrow>
     q = fp_resolve port (part_path (tm_root tm) (fm_transfer_id m)) \<Longrightarrow> p = path_join (tm_root tm) name \<Longrightarrow>
     tm_fs tm (fp_resolve port p) = None \<Longrightarrow>
     \<exists>tm'. run_file_frames sha dec port tm (map (\<lambda>i. chunk_frame (sha c) i (chunk_data c i)) is)
        = ([\<lparr>ak_transfer_id = fm_transfer_id m, ak_ok = True, ak_error = None\<rparr>], tm')
       \<and> tm_fs tm' (fp_resolve port p) = Some c \<and> tm_fs tm' q = None
       \<and> (\<forall>x. x \<noteq> q \<and> x \<noteq> fp_resolve port p \<longrightarrow> tm_fs tm' x = tm_fs tm x)
       \<and> tm_table tm' = (tm_table tm)(fm_transfer_id m := None)"
proof (induction "is" arbitrary: R tm)
  case (Cons i js)
  have tot: "fm_total_chunks m = t" and tid: "fm_transfer_id m = hex_lower (sha c)" and nm: "fm_name m = name"
    by (simp_all add: m file_meta_of_def Let_def t_def)
  have i: "i < fm_total_chunks m" using Cons.prems(2) tot by auto
  have w: "fp_written port = None" using port by (simp add: healthy_def)
  let ?pl = "encode_chunk (sha c) (of_nat i) (chunk_data c i)"
  obtain tm1 where tm1: "receiving q m c (insert i R) tm1" "\<forall>x. x \<noteq> q \<longrightarrow> tm_fs tm1 x = tm_fs tm x"
    "tm_root tm1 = tm_root tm" "\<forall>s. s \<noteq> fm_transfer_id m \<longrightarrow> tm_table tm1 s = tm_table tm s"
    and oc: "on_chunk sha port tm ?pl = (if card (insert i R) = fm_total_chunks m
        then (case finalize sha port tm1 (fm_transfer_id m) of
                (Inl e, tm2) \<Rightarrow> (Inl e, tm2) | (Inr p, tm2) \<Rightarrow> (Inr (ChunkCompleted p), tm2))
        else (Inr (ChunkInProgress (card (insert i R)) (fm_total_chunks m)), tm1))"
    using on_chunk_step [OF Cons.prems(1) m w i len] by blast
  have idl: "take 32 ?pl = sha c" "32 \<le> length ?pl" using len(1) by (simp_all add: encode_chunk_def)
  have sub: "insert i R \<subseteq> {..<t}" using Cons.prems(2) by auto
  have free: "tm_fs tm1 (fp_resolve port p) = None"
  proof -
    have "fp_resolve port p \<noteq> q" using Cons.prems(1,6) by (auto simp: receiving_def)
    then show ?thesis using tm1(2) Cons.prems(6) by simp
  qed
  show ?case
  proof (cases js)
    case Nil
    then have all: "insert i R = {..<t}" using Cons.prems(2) by auto
    have fin: "finalize sha port tm1 (fm_transfer_id m) = (Inr p, tm1\<lparr>tm_table := (tm_table tm1)(fm_transfer_id m := None),
        tm_fs := (tm_fs tm1)(q := None, fp_resolve port p \<mapsto> c)\<rparr>)"
      by (rule finalize_done [where sha = sha and c = c and name = name])
        (use tm1(1,3) all Cons.prems(4,5) free port tid nm name in \<open>simp_all add: t_def\<close>)
    have ne: "q \<noteq> fp_resolve port p" using tm1(1) free by (auto simp: receiving_def)
    let ?tm2 = "tm1\<lparr>tm_table := (tm_table tm1)(fm_transfer_id m := None),
        tm_fs := (tm_fs tm1)(q := None, fp_resolve port p \<mapsto> c)\<rparr>"
    have "on_chunk sha port tm ?pl = (Inr (ChunkCompleted p), ?tm2)"
      using oc fin by (simp add: all tot)
    then have hf: "handle_file_frame sha dec port tm (chunk_frame (sha c) i (chunk_data c i))
        = ([\<lparr>ak_transfer_id = fm_transfer_id m, ak_ok = True, ak_error = None\<rparr>], ?tm2)"
      by (simp add: handle_file_frame_def chunk_frame_def idl tid)
    have tab: "(tm_table tm1)(fm_transfer_id m := None) = (tm_table tm)(fm_transfer_id m := None)"
      using tm1(4) by (intro ext) simp
    show ?thesis
      by (rule exI [of _ ?tm2]) (use hf tab ne tm1(2) Nil in simp)
  next
    case (Cons j ks)
    have bl: "R \<union> set (butlast (i # js)) = insert i R \<union> set (butlast js)" using Cons by simp
    have "set (butlast js) \<subseteq> {..<t}" using Cons.prems(2) by (auto dest: in_set_butlastD)
    then have "insert i R \<noteq> {..<t}" using Cons.prems(3) bl by blast
    then have "card (insert i R) \<noteq> t"
      using sub card_subset_eq [of "{..<t}" "insert i R"] by auto
    then have oc': "on_chunk sha port tm ?pl = (Inr (ChunkInProgress (card (insert i R)) t), tm1)"
      using oc by (simp add: tot)
    have all: "insert i R \<union> set js = {..<t}" using Cons.prems(2) by simp
    have more: "insert i R \<union> set (butlast js) \<noteq> {..<t}" using Cons.prems(3) unfolding bl .
    obtain tm' where tm': "run_file_frames sha dec port tm1 (map (\<lambda>i. chunk_frame (sha c) i (chunk_data c i)) js)
        = ([\<lparr>ak_transfer_id = fm_transfer_id m, ak_ok = True, ak_error = None\<rparr>], tm')"
      "tm_fs tm' (fp_resolve port p) = Some c" "tm_fs tm' q = None"
      "\<forall>x. x \<noteq> q \<and> x \<noteq> fp_resolve port p \<longrightarrow> tm_fs tm' x = tm_fs tm1 x"
      "tm_table tm' = (tm_table tm1)(fm_transfer_id m := None)"
      using Cons.IH [OF tm1(1) all more] Cons.prems(4,5) free unfolding tm1(3) by blast
    have "handle_file_frame sha dec port tm (chunk_frame (sha c) i (chunk_data c i)) = ([], tm1)"
      using oc' by (simp add: handle_file_frame_def chunk_frame_def Let_def)
    moreover have "(tm_table tm1)(fm_transfer_id m := None) = (tm_table tm)(fm_transfer_id m := None)"
      using tm1(4) by (intro ext) simp
    ultimately show ?thesis
      using tm' tm1(2) by (intro exI [of _ tm']) simp
  qed
qed simp

lemma send_file_frames:
  assumes "path_file_name (sf_path src) = Some name" and "sf_len src = Some (length c)" and "sf_hashed src = Some c"
    and "sf_sent src = Some c" and "sf_read src = (\<lambda>n. n)" and "c \<noteq> []"
  shows "send_file sha enc (\<lambda>_. True) src = (Inr (hex_lower (sha c)),
    meta_frame enc (file_meta_of sha name (length c) c)
      # map (\<lambda>i. chunk_frame (sha c) i (chunk_data c i)) [0..<div_ceil (length c) chunk_size])"
  using assms send_chunks_full [of c 0 "sha c"]
  by (simp add: send_file_def Let_def file_meta_of_def)

lemma on_meta_starts:
  assumes m: "m = file_meta_of sha name (length c) c" and port: "healthy port" and "c \<noteq> []"
    and "length c \<le> 8 * 1024 * 1024 * 1024" and "tm_table tm (fm_transfer_id m) = None"
    and "q = fp_resolve port (part_path (tm_root tm) (fm_transfer_id m))"
  obtains tm1 where "on_meta port tm m = (Inr (MetaAccepted 0 (fm_total_chunks m)), tm1)"
    and "receiving q m c {} tm1" and "tm_root tm1 = tm_root tm" and "\<forall>x. x \<noteq> q \<longrightarrow> tm_fs tm1 x = tm_fs tm x"
    and "tm_table tm1 = (tm_table tm)(fm_transfer_id m \<mapsto> \<lparr>in_meta = m, in_file = q, in_received = {}\<rparr>)"
proof -
  let ?old = "case tm_fs tm q of None \<Rightarrow> [] | Some d \<Rightarrow> d"
  let ?tm1 = "tm\<lparr>tm_fs := (tm_fs tm)(q \<mapsto> set_len (length c) ?old),
      tm_table := (tm_table tm)(fm_transfer_id m \<mapsto> \<lparr>in_meta = m, in_file = q, in_received = {}\<rparr>)\<rparr>"
  have fields: "fm_sha256 m = fm_transfer_id m" "fm_size m = length c" "fm_chunk_size m = chunk_size"
    "fm_total_chunks m = div_ceil (length c) chunk_size"
    by (simp_all add: m file_meta_of_def Let_def)
  then have v: "validate_meta m = Inr ()"
    using assms(3,4) div_ceil_eq_0 [OF chunk_size_pos, of "length c"] by (simp add: validate_meta_def chunk_size_def)
  have "on_meta port tm m = (Inr (MetaAccepted 0 (fm_total_chunks m)), ?tm1)"
    using port assms(3,5) by (simp add: on_meta_def v fields(1,2) healthy_def Let_def flip: assms(6))
  moreover have "receiving q m c {} ?tm1" by (simp add: receiving_def)
  ultimately show ?thesis using that by simp
qed

text \<open>C5. Files arrive.  A file that is not empty and has at most 8 GiB, with a plain name (no separator, no drive,
  not a dot or two), is sent under that name: the sender reads the file it hashed, with reads that fill the
  buffer; the description of the file survives its coding, and the hash has 32 bytes.  On the receiver
  the disk is healthy, the name is free in the receiving directory and is not that of the part file, and no
  transfer with the same id is under way.  Then the receiver moves exactly that file to the name it was
  sent with and acknowledges it, whatever order the chunks come in and however often they are repeated,
  as soon as the last missing chunk is there; no other file changes and the part file is gone.\<close>

theorem transfer_delivers:
  assumes "path_file_name (sf_path src) = Some name" and "plain_name name"
    and "sf_len src = Some (length c)" and "sf_hashed src = Some c" and "sf_sent src = Some c"
    and "sf_read src = (\<lambda>n. n)" and "c \<noteq> []" and "length c \<le> 8 * 1024 * 1024 * 1024"
    and "length (sha c) = 32" and "dec (enc (file_meta_of sha name (length c) c)) = Some (file_meta_of sha name (length c) c)"
    and "healthy port" and "tm_table tm (hex_lower (sha c)) = None"
    and "q = fp_resolve port (part_path (tm_root tm) (hex_lower (sha c)))"
    and "p = fp_resolve port (path_join (tm_root tm) name)" and "tm_fs tm p = None" and "p \<noteq> q"
    and "send_file sha enc (\<lambda>_. True) src = (Inr tid, meta # chunks)"
    and "set arrived = set chunks" and "set (butlast arrived) \<noteq> set chunks"
  shows "case run_file_frames sha dec port tm (meta # arrived) of (acks, tm') \<Rightarrow>
    acks = [\<lparr>ak_transfer_id = tid, ak_ok = True, ak_error = None\<rparr>]
    \<and> tm_fs tm' = (tm_fs tm)(q := None, p \<mapsto> c) \<and> tm_table tm' = tm_table tm"
proof -
  let ?m = "file_meta_of sha name (length c) c" and ?t = "div_ceil (length c) chunk_size"
  let ?f = "\<lambda>i. chunk_frame (sha c) i (chunk_data c i)"
  have meta: "meta = meta_frame enc ?m" and tid: "tid = hex_lower (sha c)" and chunks: "chunks = map ?f [0..<?t]"
    using assms(17) send_file_frames [OF assms(1,3-7), of sha enc] by auto
  have idm: "fm_transfer_id ?m = hex_lower (sha c)" by (simp add: file_meta_of_def Let_def)
  have small: "length c < 2 ^ 64" using assms(8) by simp
  have "?t \<le> length c" by (rule div_ceil_le) simp
  then have inj: "inj_on ?f {..<?t}"
    using small assms(9) of_nat64_inj
    by (intro inj_onI) (auto simp: chunk_frame_def dest!: arg_cong [of "encode_chunk _ _ _" _ decode_chunk] simp: decode_encode_chunk)
  have "set arrived \<subseteq> ?f ` {..<?t}" using assms(18) by (auto simp: chunks)
  then have "\<exists>is. set is \<subseteq> {..<?t} \<and> arrived = map ?f is"
  proof (induction arrived)
    case (Cons a as)
    then obtain i "is" where "i < ?t" "a = ?f i" "set is \<subseteq> {..<?t}" "as = map ?f is" by auto
    then show ?case by (intro exI [of _ "i # is"]) auto
  qed simp
  then obtain "is" where "is": "set is \<subseteq> {..<?t}" "arrived = map ?f is" by blast
  have "?f ` set is = ?f ` {..<?t}" using assms(18) by (simp add: "is"(2) chunks lessThan_atLeast0)
  then have all: "{} \<union> set is = {..<?t}" using inj_on_image_eq_iff [OF inj "is"(1)] by simp
  have bl: "{} \<union> set (butlast is) \<noteq> {..<?t}"
    using assms(19) by (auto simp: "is"(2) chunks lessThan_atLeast0 simp flip: map_butlast)
  obtain tm1 where tm1: "on_meta port tm ?m = (Inr (MetaAccepted 0 (fm_total_chunks ?m)), tm1)"
    "receiving q ?m c {} tm1" "tm_root tm1 = tm_root tm" "\<forall>x. x \<noteq> q \<longrightarrow> tm_fs tm1 x = tm_fs tm x"
    "tm_table tm1 = (tm_table tm)(fm_transfer_id ?m \<mapsto> \<lparr>in_meta = ?m, in_file = q, in_received = {}\<rparr>)"
    by (rule on_meta_starts [where m = ?m and name = name and sha = sha and c = c and port = port and tm = tm and q = q])
      (use assms(7,8,11-13) in \<open>simp_all add: idm\<close>)
  have "tm_fs tm1 p = None" using tm1(4) assms(15,16) by simp
  then obtain tm' where tm': "run_file_frames sha dec port tm1 arrived = ([\<lparr>ak_transfer_id = tid, ak_ok = True, ak_error = None\<rparr>], tm')"
    "tm_fs tm' p = Some c" "tm_fs tm' q = None" "\<forall>x. x \<noteq> q \<and> x \<noteq> p \<longrightarrow> tm_fs tm' x = tm_fs tm1 x"
    "tm_table tm' = (tm_table tm1)(fm_transfer_id ?m := None)"
    using run_chunks [OF refl assms(11,2,9) small tm1(2) all bl _ refl, where dec = dec] assms(13,14)
    by (auto simp: tm1(3) idm "is"(2) tid)
  have "handle_file_frame sha dec port tm meta = ([], tm1)"
    using tm1(1) assms(10) by (simp add: handle_file_frame_def meta meta_frame_def)
  moreover have "tm_fs tm' = (tm_fs tm)(q := None, p \<mapsto> c)"
    using tm'(2-4) tm1(4) by (intro ext) simp
  moreover have "tm_table tm' = tm_table tm"
    using tm'(5) tm1(5) assms(12) by (intro ext) (simp add: idm)
  ultimately show ?thesis using tm'(1) by simp
qed

definition demo_port :: "string file_port" where
  "demo_port = \<lparr>fp_resolve = (\<lambda>p. p), fp_root_ok = True, fp_open_ok = (\<lambda>_. True), fp_resize_ok = True,
     fp_written = None, fp_read_ok = True, fp_rename_ok = True\<rparr>"

definition demo_sha :: "bytes \<Rightarrow> bytes" where
  "demo_sha bs = take 32 (of_nat (length bs) # bs @ replicate 32 0)"

definition demo_manager :: "string transfer_manager" where
  "demo_manager = \<lparr>tm_root = ''C:/in'', tm_fs = (\<lambda>_. None), tm_table = (\<lambda>_. None)\<rparr>"

definition demo_source :: "(nat \<Rightarrow> nat) \<Rightarrow> source_file" where
  "demo_source rd = \<lparr>sf_path = ''C:/docs/a.txt'', sf_len = Some 3, sf_hashed = Some [1, 2, 3],
     sf_sent = Some [1, 2, 3], sf_read = rd\<rparr>"

lemma demo_port_healthy: "healthy demo_port"
  by (simp add: healthy_def demo_port_def)

theorem transfer_delivers_witness:
  "\<exists>meta chunk tm'. send_file demo_sha (\<lambda>_. []) (\<lambda>_. True) (demo_source (\<lambda>n. n))
        = (Inr (hex_lower (demo_sha [1, 2, 3])), [meta, chunk])
     \<and> run_file_frames demo_sha (\<lambda>_. Some (file_meta_of demo_sha ''a.txt'' 3 [1, 2, 3])) demo_port demo_manager [meta, chunk]
        = ([\<lparr>ak_transfer_id = hex_lower (demo_sha [1, 2, 3]), ak_ok = True, ak_error = None\<rparr>], tm')
     \<and> tm_fs tm' (path_join ''C:/in'' ''a.txt'') = Some [1, 2, 3]"
proof -
  let ?c = "[1, 2, 3] :: bytes" and ?src = "demo_source (\<lambda>n. n)"
  have name: "path_file_name (sf_path ?src) = Some ''a.txt''" unfolding demo_source_def by code_simp
  have fields: "sf_len ?src = Some (length ?c)" "sf_hashed ?src = Some ?c" "sf_sent ?src = Some ?c" "sf_read ?src = (\<lambda>n. n)"
    by (simp_all add: demo_source_def)
  have plain: "plain_name ''a.txt''" by code_simp
  have one: "div_ceil (Suc (Suc (Suc 0))) chunk_size = 1" by (simp add: div_ceil_def chunk_size_def)
  obtain meta chunk where fs: "send_file demo_sha (\<lambda>_. []) (\<lambda>_. True) ?src = (Inr (hex_lower (demo_sha ?c)), [meta, chunk])"
    using send_file_frames [OF name fields(1-4), of demo_sha "\<lambda>_. []"] by (simp add: one)
  have ne: "path_join ''C:/in'' ''a.txt'' \<noteq> part_path ''C:/in'' (hex_lower (demo_sha ?c))" by code_simp
  have "case run_file_frames demo_sha (\<lambda>_. Some (file_meta_of demo_sha ''a.txt'' 3 ?c)) demo_port demo_manager (meta # [chunk]) of (acks, tm') \<Rightarrow>
      acks = [\<lparr>ak_transfer_id = hex_lower (demo_sha ?c), ak_ok = True, ak_error = None\<rparr>]
      \<and> tm_fs tm' = (tm_fs demo_manager)(part_path ''C:/in'' (hex_lower (demo_sha ?c)) := None, path_join ''C:/in'' ''a.txt'' \<mapsto> ?c)
      \<and> tm_table tm' = tm_table demo_manager"
    by (rule transfer_delivers [OF name plain fields, where enc = "\<lambda>_. []" and chunks = "[chunk]"])
      (use fs ne demo_port_healthy in \<open>simp_all add: demo_manager_def demo_port_def demo_sha_def numeral_3_eq_3\<close>)
  then show ?thesis using fs
    by (cases "run_file_frames demo_sha (\<lambda>_. Some (file_meta_of demo_sha ''a.txt'' 3 ?c)) demo_port demo_manager [meta, chunk]") auto
qed

section \<open>What is received\<close>

lemma claim_free:
  assumes "claim_final_path port tm name = Inr p"
  shows "tm_fs tm (fp_resolve port p) = None
    \<and> (\<exists>safe. path_file_name name = Some safe \<and> (p = path_join (tm_root tm) safe \<or> (\<exists>n. p = path_join (tm_root tm) (numbered safe n))))"
  using assms by (auto simp: claim_final_path_def find_Some_iff nth_Cons' split: option.splits if_splits)

lemma finalize_ok:
  assumes "finalize sha port tm tid = (Inr p, tm')"
  obtains d where "tm_fs tm (fp_resolve port (part_path (tm_root tm) tid)) = Some d" and "hex_lower (sha d) = tid"
    and "tm_fs tm (fp_resolve port p) = None"
    and "tm_fs tm' = (tm_fs tm)(fp_resolve port (part_path (tm_root tm) tid) := None, fp_resolve port p \<mapsto> d)"
  using assms
  by (auto simp: finalize_def Let_def split: option.splits if_splits sum.splits dest!: claim_free)

text \<open>C7. Nothing unverified is delivered: whatever frames came before and whatever the disk answers, when a
  chunk completes a transfer, the name was free before, the file under it hashes to the identifier of
  the transfer, and apart from it only the part file and the file being written have changed.\<close>

theorem completed_is_verified:
  assumes "on_chunk sha port tm payload = (Inr (ChunkCompleted p), tm')"
  shows "\<exists>d i. tm_fs tm' (fp_resolve port p) = Some d \<and> hex_lower (sha d) = hex_lower (take 32 payload)
    \<and> tm_fs tm (fp_resolve port p) = None \<and> tm_table tm (hex_lower (take 32 payload)) = Some i
    \<and> (\<forall>x. x \<noteq> fp_resolve port p \<and> x \<noteq> in_file i \<and> x \<noteq> fp_resolve port (part_path (tm_root tm) (hex_lower (take 32 payload)))
         \<longrightarrow> tm_fs tm' x = tm_fs tm x)"
proof -
  let ?tid = "hex_lower (take 32 payload)"
  obtain index data where dec: "decode_chunk payload = Inr (take 32 payload, index, data)"
    using assms by (auto simp: on_chunk_def decode_chunk_def split: if_splits)
  obtain i where i: "tm_table tm ?tid = Some i"
    using assms by (auto simp: on_chunk_def dec Let_def split: option.splits)
  have "\<not> fm_total_chunks (in_meta i) \<le> unat index" using assms by (auto simp: on_chunk_def dec i Let_def)
  then obtain tm1 where acc: "(if unat index \<in> in_received i then (Inr (), tm) else accept_chunk port tm ?tid i (unat index) data) = (Inr (), tm1)"
    and fin: "finalize sha port tm1 ?tid = (Inr p, tm')"
    using assms by (auto simp: on_chunk_def dec i Let_def split: sum.splits prod.splits if_splits)
  have tm1: "tm_root tm1 = tm_root tm" "\<And>x. x \<noteq> in_file i \<Longrightarrow> tm_fs tm1 x = tm_fs tm x"
    "tm1 = tm \<or> tm_fs tm1 (in_file i) \<noteq> None"
    using acc by (auto simp: accept_chunk_def Let_def split: if_splits option.splits)
  obtain d where d: "hex_lower (sha d) = ?tid" "tm_fs tm1 (fp_resolve port p) = None"
    "tm_fs tm' = (tm_fs tm1)(fp_resolve port (part_path (tm_root tm1) ?tid) := None, fp_resolve port p \<mapsto> d)"
    using finalize_ok [OF fin] by metis
  have "tm_fs tm (fp_resolve port p) = None"
    using tm1(2) [of "fp_resolve port p"] tm1(3) d(2) by (cases "fp_resolve port p = in_file i") auto
  then show ?thesis using d i tm1 by (intro exI [of _ d] exI [of _ i]) simp
qed

theorem completed_is_verified_witness:
  "let tid = hex_lower (demo_sha [1, 2, 3]); q = part_path ''C:/in'' tid;
       tm = demo_manager\<lparr>tm_fs := [q \<mapsto> [0, 0, 0]], tm_table := [tid \<mapsto>
         \<lparr>in_meta = \<lparr>fm_transfer_id = tid, fm_name = ''a.txt'', fm_size = 3, fm_sha256 = tid, fm_chunk_size = 3,
             fm_total_chunks = 1\<rparr>, in_file = q, in_received = {}\<rparr>]\<rparr>
   in \<exists>p tm'. on_chunk demo_sha demo_port tm (encode_chunk (demo_sha [1, 2, 3]) 0 [1, 2, 3]) = (Inr (ChunkCompleted p), tm')
        \<and> tm_fs tm p = None"
proof -
  define tid where "tid = hex_lower (demo_sha [1, 2, 3])"
  define q where "q = part_path ''C:/in'' tid"
  define p where "p = path_join ''C:/in'' ''a.txt''"
  define tm where "tm = demo_manager\<lparr>tm_fs := [q \<mapsto> [0, 0, 0]], tm_table := [tid \<mapsto>
      \<lparr>in_meta = \<lparr>fm_transfer_id = tid, fm_name = ''a.txt'', fm_size = 3, fm_sha256 = tid, fm_chunk_size = 3,
          fm_total_chunks = 1\<rparr>, in_file = q, in_received = {}\<rparr>]\<rparr>"
  have name: "path_file_name ''a.txt'' = Some ''a.txt''" by code_simp
  have ne: "p \<noteq> q" unfolding p_def q_def tid_def by code_simp
  have len: "length (demo_sha [1, 2, 3]) = 32" by (simp add: demo_sha_def)
  have dec: "decode_chunk (encode_chunk (demo_sha [1, 2, 3]) 0 [1, 2, 3]) = Inr (demo_sha [1, 2, 3], 0, [1, 2, 3])"
    using len by (rule decode_encode_chunk)
  have w: "write_at 0 [1, 2, 3] [0, 0, 0] = ([1, 2, 3] :: bytes)" by (simp add: write_at_def)
  have "\<exists>tm'. on_chunk demo_sha demo_port tm (encode_chunk (demo_sha [1, 2, 3]) 0 [1, 2, 3]) = (Inr (ChunkCompleted p), tm')"
    using ne
    by (simp add: on_chunk_def dec Let_def accept_chunk_def finalize_def claim_final_path_def name demo_port_def tm_def w
        demo_manager_def flip: tid_def q_def p_def)
  then obtain tm' where r: "on_chunk demo_sha demo_port tm (encode_chunk (demo_sha [1, 2, 3]) 0 [1, 2, 3]) = (Inr (ChunkCompleted p), tm')"
    by blast
  have "tm_fs tm (fp_resolve demo_port p) = None" using completed_is_verified [OF r] by blast
  then have "tm_fs tm p = None" by (simp add: demo_port_def)
  then show ?thesis using r unfolding Let_def tid_def [symmetric] q_def [symmetric] tm_def [symmetric] by blast
qed

section \<open>Names sent by the peer\<close>

lemma plain_ext:
  assumes "plain_name s" and "stem_and_ext s = (stem, ext)"
  shows "stem \<noteq> [] \<and> prefix stem s \<and> (case ext of None \<Rightarrow> True | Some e \<Rightarrow> set e \<subseteq> set s)"
proof -
  let ?r = "rev s"
  have split: "?r = takeWhile (\<lambda>c. c \<noteq> CHR ''.'') ?r @ dropWhile (\<lambda>c. c \<noteq> CHR ''.'') ?r" by simp
  obtain d where d: "dropWhile (\<lambda>c. c \<noteq> CHR ''.'') ?r = take 1 (dropWhile (\<lambda>c. c \<noteq> CHR ''.'') ?r) @ d"
    and dd: "d = drop 1 (dropWhile (\<lambda>c. c \<noteq> CHR ''.'') ?r)" by (metis append_take_drop_id)
  have "s = rev (takeWhile (\<lambda>c. c \<noteq> CHR ''.'') ?r @ take 1 (dropWhile (\<lambda>c. c \<noteq> CHR ''.'') ?r) @ d)"
    using split d by (metis rev_rev_ident)
  then have "prefix (rev d) s" by (metis append.assoc prefixI rev_append)
  moreover have "set (takeWhile (\<lambda>c. c \<noteq> CHR ''.'') ?r) \<subseteq> set s" by (auto dest: set_takeWhileD)
  ultimately show ?thesis
    using assms by (auto simp: stem_and_ext_def Let_def dd plain_name_def split: if_splits)
qed

lemma show_nat_chars: "c \<in> set (show_nat n) \<Longrightarrow> is_digit c"
  using show_nat_props [of n] by (auto simp: list_all_iff)

lemma numbered_plain:
  assumes "plain_name s"
  shows "plain_name (numbered s n)"
proof -
  obtain stem ext where se: "stem_and_ext s = (stem, ext)" by (cases "stem_and_ext s")
  note p = plain_ext [OF assms se]
  let ?t = "(case ext of None \<Rightarrow> [] | Some e \<Rightarrow> ''.'' @ e)"
  have num: "numbered s n = stem @ '' ('' @ show_nat n @ '')'' @ ?t"
    using se by (cases ext) (simp_all add: numbered_def path_file_name_plain [OF assms] Let_def)
  have dig: "bslash \<notin> set (show_nat n)" "CHR ''/'' \<notin> set (show_nat n)"
    using show_nat_chars [of bslash n] show_nat_chars [of "CHR ''/''" n] by (auto simp: is_digit_def bslash_def)
  have stem: "bslash \<notin> set stem" "CHR ''/'' \<notin> set stem" "stem \<noteq> []"
    using p assms set_mono_prefix [of stem s] by (auto simp: plain_name_def)
  have tail: "bslash \<notin> set ?t" "CHR ''/'' \<notin> set ?t"
    using p assms by (auto simp: plain_name_def bslash_def split: option.splits)
  have drive: "\<not> has_drive (numbered s n)"
  proof (cases stem)
    case (Cons a as)
    then show ?thesis
    proof (cases as)
      case (Cons b bs)
      then have "\<exists>r. s = a # b # r" using p \<open>stem = a # as\<close> by (auto simp: prefix_def)
      then show ?thesis using assms \<open>stem = a # as\<close> Cons by (auto simp: num plain_name_def)
    qed (simp add: num)
  qed (use stem in simp)
  have "length (numbered s n) \<ge> 4" using stem(3) by (cases stem) (auto simp: num)
  then have "numbered s n \<noteq> []" "numbered s n \<noteq> ''.''" "numbered s n \<noteq> ''..''" by auto
  then show ?thesis
    using drive dig stem tail by (auto simp: plain_name_def num bslash_def)
qed

text \<open>Ordinary names stay in the receiving directory: when the name sent by the peer is not a verbatim
  path and its last component has no drive of its own, the claimed path is that directory followed by
  one plain component, and it is free.\<close>

lemma received_names_confined:
  assumes "claim_final_path port tm name = Inr p" and "\<not> verbatim (parse_prefix name)"
    and "\<forall>n. path_file_name name = Some n \<longrightarrow> \<not> has_drive n"
  shows "(\<exists>n. plain_name n \<and> p = tm_root tm @ [bslash] @ n) \<and> tm_fs tm (fp_resolve port p) = None"
proof -
  obtain safe where safe: "path_file_name name = Some safe"
    "p = path_join (tm_root tm) safe \<or> (\<exists>n. p = path_join (tm_root tm) (numbered safe n))"
    and free: "tm_fs tm (fp_resolve port p) = None"
    using claim_free [OF assms(1)] by blast
  have plain: "plain_name safe" using path_file_name_plainI [OF safe(1) assms(2)] assms(3) safe(1) by blast
  then have "\<exists>n. plain_name n \<and> p = path_join (tm_root tm) n"
    using safe(2) numbered_plain by blast
  then show ?thesis using free path_join_plain by auto
qed

lemma received_names_confined_witness:
  "claim_final_path demo_port (demo_manager\<lparr>tm_fs := (\<lambda>p. if p = path_join ''C:/in'' ''b.txt'' then Some [] else None)\<rparr>)
      ''../x/b.txt'' = Inr (''C:/in'' @ [bslash] @ ''b (1).txt'')
   \<and> (\<exists>n. plain_name n \<and> ''C:/in'' @ [bslash] @ ''b (1).txt'' = ''C:/in'' @ [bslash] @ n)"
proof -
  let ?tm = "demo_manager\<lparr>tm_fs := (\<lambda>p. if p = path_join ''C:/in'' ''b.txt'' then Some [] else None)\<rparr>"
  have f: "path_file_name ''../x/b.txt'' = Some ''b.txt''" "\<not> verbatim (parse_prefix ''../x/b.txt'')" "\<not> has_drive ''b.txt''"
    by code_simp+
  have j: "path_join ''C:/in'' (numbered ''b.txt'' 1) = ''C:/in'' @ [bslash] @ ''b (1).txt''"
    "path_join ''C:/in'' ''b.txt'' \<noteq> ''C:/in'' @ [bslash] @ ''b (1).txt''"
    by code_simp+
  have c: "claim_final_path demo_port ?tm ''../x/b.txt'' = Inr (''C:/in'' @ [bslash] @ ''b (1).txt'')"
    using j upt_conv_Cons [of 1 1000]
    by (simp add: claim_final_path_def f demo_manager_def demo_port_def del: upt_rec_numeral)
  show ?thesis using received_names_confined [OF c] c f by (simp add: demo_manager_def)
qed

text \<open>C40. A peer can leave the receiving directory: the last component of \<open>x/D:evil.exe\<close> names a drive and
  replaces the directory when it is joined, and that of a verbatim name may contain slashes and
  \<open>..\<close>; and the identifier of a transfer is never checked to be a hash, so the part file is created,
  with the announced length, wherever the identifier says.\<close>

theorem peer_names_escape_root:
  assumes "healthy port" and "tm_table tm ''C:/evil'' = None"
    and "tm_fs tm (fp_resolve port ''D:evil.exe'') = None"
    and "tm_fs tm (fp_resolve port (tm_root tm @ [bslash] @ ''../../evil.exe'')) = None"
  shows "claim_final_path port tm ''x/D:evil.exe'' = Inr ''D:evil.exe''
    \<and> claim_final_path port tm ([bslash, bslash, CHR ''?'', bslash] @ ''x'' @ [bslash] @ ''../../evil.exe'')
        = Inr (tm_root tm @ [bslash] @ ''../../evil.exe'')
    \<and> (\<exists>b. tm_fs (snd (on_meta port tm \<lparr>fm_transfer_id = ''C:/evil'', fm_name = ''a'', fm_size = 1, fm_sha256 = ''C:/evil'',
           fm_chunk_size = 1, fm_total_chunks = 1\<rparr>)) (fp_resolve port ''C:/evil.part'') = Some [b])"
proof -
  have n: "path_file_name ''x/D:evil.exe'' = Some ''D:evil.exe''" by code_simp
  have v: "path_file_name ([bslash, bslash, CHR ''?'', bslash] @ ''x'' @ [bslash] @ ''../../evil.exe'') = Some ''../../evil.exe''"
    by code_simp
  have "parse_prefix ''D:evil.exe'' = Disk" "parse_prefix ''../../evil.exe'' = NoPrefix" "parse_prefix ''C:/evil.part'' = Disk"
    "\<not> path_sep False CHR ''.''"
    by code_simp+
  then have j: "path_join r ''D:evil.exe'' = ''D:evil.exe''" "path_join r ''../../evil.exe'' = r @ [bslash] @ ''../../evil.exe''"
    "part_path r ''C:/evil'' = ''C:/evil.part''" for r
    by (simp_all add: path_join_def part_path_def)
  have one: "length (set_len 1 d) = 1" for d :: bytes by simp
  then have "\<exists>b. set_len (Suc 0) d = [b]" for d :: bytes by (metis One_nat_def length_0_conv length_Suc_conv)
  moreover have "validate_meta \<lparr>fm_transfer_id = ''C:/evil'', fm_name = ''a'', fm_size = 1, fm_sha256 = ''C:/evil'',
      fm_chunk_size = 1, fm_total_chunks = 1\<rparr> = Inr ()"
    by (simp add: validate_meta_def chunk_size_def div_ceil_def)
  ultimately show ?thesis
    using assms n v j by (simp add: claim_final_path_def on_meta_def healthy_def Let_def)
qed

theorem peer_names_escape_root_witness:
  "claim_final_path demo_port demo_manager ''x/D:evil.exe'' = Inr ''D:evil.exe''"
  using peer_names_escape_root [OF demo_port_healthy, of demo_manager] by (simp add: demo_manager_def)

section \<open>Chunks that are lost\<close>

text \<open>A chunk whose write failed is lost for good: its index is entered before the data is written, so when
  the same chunk is sent again the receiver counts it, reports progress and writes nothing.\<close>

lemma failed_chunk_never_written:
  assumes "tm_table tm (hex_lower digest) = Some i" and "length digest = 32"
    and "unat index < fm_total_chunks (in_meta i)" and "unat index \<notin> in_received i"
    and "length data \<le> fm_chunk_size (in_meta i)" and "fm_size (in_meta i) < 2 ^ 64"
    and "unat index * fm_chunk_size (in_meta i) + length data \<le> fm_size (in_meta i)"
    and "card (insert (unat index) (in_received i)) \<noteq> fm_total_chunks (in_meta i)"
    and "fp_written bad = Some 0" and "fp_written good = None" and "tm_fs tm (in_file i) = Some d"
    and "unat index * fm_chunk_size (in_meta i) \<le> length d"
  shows "\<exists>tm1. on_chunk sha bad tm (encode_chunk digest index data) = (Inl T014, tm1)
    \<and> tm_fs tm1 = tm_fs tm
    \<and> on_chunk sha good tm1 (encode_chunk digest index data)
        = (Inr (ChunkInProgress (card (insert (unat index) (in_received i))) (fm_total_chunks (in_meta i))), tm1)"
proof -
  let ?tm1 = "tm\<lparr>tm_table := (tm_table tm)(hex_lower digest \<mapsto> i\<lparr>in_received := insert (unat index) (in_received i)\<rparr>)\<rparr>"
  have dec: "decode_chunk (encode_chunk digest index data) = Inr (digest, index, data)"
    using assms(2) by (rule decode_encode_chunk)
  have "write_at (unat index * fm_chunk_size (in_meta i)) [] d = d" using assms(12) by (simp add: write_at_def)
  then have "on_chunk sha bad tm (encode_chunk digest index data) = (Inl T014, ?tm1)"
    using assms(1,3-7,9,11) by (simp add: on_chunk_def dec Let_def accept_chunk_def fun_upd_idem)
  moreover have "on_chunk sha good ?tm1 (encode_chunk digest index data)
      = (Inr (ChunkInProgress (card (insert (unat index) (in_received i))) (fm_total_chunks (in_meta i))), ?tm1)"
    using assms(3,8) by (simp add: on_chunk_def dec Let_def insert_absorb)
  ultimately show ?thesis by (intro exI [of _ ?tm1]) simp
qed

lemma failed_chunk_never_written_witness:
  "let i = \<lparr>in_meta = \<lparr>fm_transfer_id = hex_lower (replicate 32 7), fm_name = ''a'', fm_size = 4, fm_sha256 = [],
              fm_chunk_size = 2, fm_total_chunks = 2\<rparr>, in_file = ''p'', in_received = {}\<rparr>;
       tm = demo_manager\<lparr>tm_table := [hex_lower (replicate 32 7) \<mapsto> i], tm_fs := [''p'' \<mapsto> [0, 0, 0, 0]]\<rparr>
   in \<exists>tm1. on_chunk demo_sha (demo_port\<lparr>fp_written := Some 0\<rparr>) tm (encode_chunk (replicate 32 7) 1 [5, 6]) = (Inl T014, tm1)
      \<and> on_chunk demo_sha demo_port tm1 (encode_chunk (replicate 32 7) 1 [5, 6]) = (Inr (ChunkInProgress 1 2), tm1)"
proof -
  let ?i = "\<lparr>in_meta = \<lparr>fm_transfer_id = hex_lower (replicate 32 7), fm_name = ''a'', fm_size = 4, fm_sha256 = [],
              fm_chunk_size = 2, fm_total_chunks = 2\<rparr>, in_file = ''p'', in_received = {}\<rparr>"
  let ?tm = "demo_manager\<lparr>tm_table := [hex_lower (replicate 32 7) \<mapsto> ?i], tm_fs := [''p'' \<mapsto> [0, 0, 0, 0]]\<rparr>"
  have "\<exists>tm1. on_chunk demo_sha (demo_port\<lparr>fp_written := Some 0\<rparr>) ?tm (encode_chunk (replicate 32 7) 1 [5, 6]) = (Inl T014, tm1)
      \<and> tm_fs tm1 = tm_fs ?tm
      \<and> on_chunk demo_sha demo_port tm1 (encode_chunk (replicate 32 7) 1 [5, 6])
        = (Inr (ChunkInProgress (card (insert (unat (1 :: 64 word)) (in_received ?i))) (fm_total_chunks (in_meta ?i))), tm1)"
    by (rule failed_chunk_never_written [where d = "[0, 0, 0, 0]"]) (simp_all add: demo_port_def)
  then show ?thesis unfolding Let_def by (elim exE conjE) (intro exI conjI, assumption, simp)
qed

text \<open>A short last read breaks a transfer: the last chunk is read with a single \<open>read\<close>, which may return
  fewer bytes than are left.  The sender then reports success for a file of one chunk, and the
  receiver finds another hash, deletes what it got and refuses the transfer.\<close>

lemma short_last_read_fails:
  assumes "path_file_name (sf_path src) = Some name"
    and "sf_len src = Some (length c)" and "sf_hashed src = Some c" and "sf_sent src = Some c"
    and "sf_read src (length c) = k" and "0 < k" and "k < length c" and "length c \<le> chunk_size"
    and "length (sha c) = 32" and "dec (enc (file_meta_of sha name (length c) c)) = Some (file_meta_of sha name (length c) c)"
    and "healthy port" and "tm_table tm (hex_lower (sha c)) = None"
    and "q = fp_resolve port (part_path (tm_root tm) (hex_lower (sha c)))" and "tm_fs tm q = None"
    and "hex_lower (sha (take k c @ replicate (length c - k) 0)) \<noteq> hex_lower (sha c)"
  shows "\<exists>meta chunk tm'. send_file sha enc (\<lambda>_. True) src = (Inr (hex_lower (sha c)), [meta, chunk])
    \<and> run_file_frames sha dec port tm [meta, chunk]
        = ([\<lparr>ak_transfer_id = hex_lower (sha c), ak_ok = False, ak_error = Some T016\<rparr>], tm')
    \<and> tm_fs tm' = tm_fs tm"
proof -
  let ?m = "file_meta_of sha name (length c) c" and ?tid = "hex_lower (sha c)"
  let ?part = "take k c @ replicate (length c - k) 0"
  let ?i = "\<lparr>in_meta = ?m, in_file = q, in_received = {}\<rparr>"
  have one: "div_ceil (length c) chunk_size = 1"
    using assms(7,8) by (cases "length c = chunk_size") (auto simp: div_ceil_def)
  have ne: "c \<noteq> []" using assms(7) by auto
  have send: "send_file sha enc (\<lambda>_. True) src = (Inr ?tid, [meta_frame enc ?m, chunk_frame (sha c) 0 (take k c)])"
    using assms(1-6,8) ne one by (simp add: send_file_def Let_def file_meta_of_def)
  have f: "fm_transfer_id ?m = ?tid" "fm_sha256 ?m = ?tid" "fm_size ?m = length c" "fm_chunk_size ?m = chunk_size" "fm_total_chunks ?m = 1"
    by (simp_all add: file_meta_of_def Let_def one)
  let ?tm1 = "tm\<lparr>tm_fs := (tm_fs tm)(q \<mapsto> replicate (length c) 0), tm_table := (tm_table tm)(?tid \<mapsto> ?i)\<rparr>"
  have v: "validate_meta ?m = Inr ()"
  proof -
    have "length c \<le> 8589934592" using assms(8) by (simp add: chunk_size_def)
    then show ?thesis using ne one by (simp add: validate_meta_def f)
  qed
  have "on_meta port tm ?m = (Inr (MetaAccepted 0 1), ?tm1)"
    using ne assms(11,12,14) by (simp add: on_meta_def v f healthy_def Let_def set_len_def flip: assms(13))
  then have h1: "handle_file_frame sha dec port tm (meta_frame enc ?m) = ([], ?tm1)"
    using assms(10) by (simp add: handle_file_frame_def meta_frame_def)
  let ?pl = "encode_chunk (sha c) 0 (take k c)"
  let ?tm2 = "tm\<lparr>tm_fs := (tm_fs tm)(q := None), tm_table := (tm_table tm)(?tid := None)\<rparr>"
  have d: "decode_chunk ?pl = Inr (sha c, 0, take k c)" using assms(9) by (rule decode_encode_chunk)
  have w: "write_at 0 (take k c) (replicate (length c) 0) = ?part"
    using assms(7) by (simp add: write_at_def)
  let ?tm3 = "tm\<lparr>tm_fs := (tm_fs tm)(q \<mapsto> ?part), tm_table := (tm_table tm)(?tid \<mapsto> ?i\<lparr>in_received := {0}\<rparr>)\<rparr>"
  have acc: "accept_chunk port ?tm1 ?tid ?i 0 (take k c) = (Inr (), ?tm3)"
    using assms(7,8,11) by (simp add: accept_chunk_def f w healthy_def Let_def)
  have fin: "finalize sha port ?tm3 ?tid = (Inl T016, ?tm2)"
    using assms(11,15) by (simp add: finalize_def healthy_def Let_def flip: assms(13))
  have "on_chunk sha port ?tm1 ?pl = (Inl T016, ?tm2)"
    using acc fin by (simp add: on_chunk_def d Let_def f)
  then have "handle_file_frame sha dec port ?tm1 (chunk_frame (sha c) 0 (take k c))
      = ([\<lparr>ak_transfer_id = ?tid, ak_ok = False, ak_error = Some T016\<rparr>], ?tm2)"
    using assms(9) by (simp add: handle_file_frame_def chunk_frame_def encode_chunk_def)
  then have "run_file_frames sha dec port tm [meta_frame enc ?m, chunk_frame (sha c) 0 (take k c)]
      = ([\<lparr>ak_transfer_id = ?tid, ak_ok = False, ak_error = Some T016\<rparr>], ?tm2)"
    by (simp add: h1)
  moreover have "tm_fs ?tm2 = tm_fs tm" using assms(14) by (simp add: fun_upd_idem)
  ultimately show ?thesis using send by blast
qed

lemma short_last_read_fails_witness:
  "\<exists>meta chunk. fst (send_file demo_sha (\<lambda>_. []) (\<lambda>_. True) (demo_source (\<lambda>n. n - 1))) = Inr (hex_lower (demo_sha [1, 2, 3]))
     \<and> fst (run_file_frames demo_sha (\<lambda>_. Some (file_meta_of demo_sha ''a.txt'' 3 [1, 2, 3])) demo_port demo_manager [meta, chunk])
        = [\<lparr>ak_transfer_id = hex_lower (demo_sha [1, 2, 3]), ak_ok = False, ak_error = Some T016\<rparr>]"
proof -
  let ?c = "[1, 2, 3] :: bytes" and ?src = "demo_source (\<lambda>n. n - 1)"
  have name: "path_file_name (sf_path ?src) = Some ''a.txt''" unfolding demo_source_def by code_simp
  have ne: "hex_lower (demo_sha (take 2 ?c @ replicate (length ?c - 2) 0)) \<noteq> hex_lower (demo_sha ?c)" by code_simp
  have "\<exists>meta chunk tm'. send_file demo_sha (\<lambda>_. []) (\<lambda>_. True) ?src = (Inr (hex_lower (demo_sha ?c)), [meta, chunk])
    \<and> run_file_frames demo_sha (\<lambda>_. Some (file_meta_of demo_sha ''a.txt'' 3 ?c)) demo_port demo_manager [meta, chunk]
        = ([\<lparr>ak_transfer_id = hex_lower (demo_sha ?c), ak_ok = False, ak_error = Some T016\<rparr>], tm')
    \<and> tm_fs tm' = tm_fs demo_manager"
    by (rule short_last_read_fails [OF name, where k = 2])
      (use ne demo_port_healthy in \<open>simp_all add: demo_source_def demo_manager_def demo_sha_def chunk_size_def numeral_3_eq_3 numeral_2_eq_2\<close>)
  then show ?thesis by (metis fst_conv)
qed

end
