(* ===== verification/Host_Hotkey.thy ===== *)
theory Host_Hotkey
  imports Str
begin

text \<open>
  Global hotkeys (\<open>crates/host-core/src/hotkey.rs\<close>): who owns a key combination, what is registered
  under a binding's identifier, and which callback the operating system's event fires.  The system's
  port has a state of its own; a callback is a value.  The order in which a hash map yields its keys
  is an argument.
\<close>

section \<open>Combinations\<close>

fun show_hex :: "nat \<Rightarrow> string" where
  "show_hex n = (if n < 16 then [hex_digit n] else show_hex (n div 16) @ [hex_digit (n mod 16)])"

declare show_hex.simps [simp del]

definition hex_pad :: "nat \<Rightarrow> nat \<Rightarrow> string" where
  "hex_pad w n = (let s = show_hex n in replicate (w - length s) (CHR ''0'') @ s)"

definition combo :: "nat \<Rightarrow> nat \<Rightarrow> string" where
  "combo modifiers vk = hex_pad 8 modifiers @ ''+'' @ hex_pad 4 vk"

section \<open>The manager\<close>

record hotkey_binding =
  hb_id :: string
  hb_label :: string
  hb_modifiers :: nat
  hb_vk :: nat

record hotkey_owner =
  ho_module :: string
  ho_priority :: nat
  ho_binding :: hotkey_binding

record registration =
  hr_combo :: string
  hr_os_id :: "nat option"

record 'f hotkey_manager =
  hm_by_combo :: "string \<Rightarrow> hotkey_owner option"
  hm_by_id :: "string \<Rightarrow> registration option"
  hm_os_map :: "nat \<Rightarrow> 'f option"
  hm_next_os_id :: nat

record 'w hotkey_port =
  wp_register :: "nat \<Rightarrow> nat \<Rightarrow> nat \<Rightarrow> 'w \<Rightarrow> (string + unit) \<times> 'w"
  wp_unregister :: "nat \<Rightarrow> 'w \<Rightarrow> (string + unit) \<times> 'w"

datatype hotkey_error = HotkeyTaken string | HotkeyOs string | PortError string

definition hotkey_new :: "'f hotkey_manager" where
  "hotkey_new = \<lparr>hm_by_combo = Map.empty, hm_by_id = Map.empty, hm_os_map = Map.empty, hm_next_os_id = 1\<rparr>"

definition hotkey_unregister ::
    "'w hotkey_port option \<Rightarrow> string \<Rightarrow> 'f hotkey_manager \<times> 'w \<Rightarrow> (hotkey_error + unit) \<times> 'f hotkey_manager \<times> 'w" where
  "hotkey_unregister port bid = (\<lambda>(m, w).
     case hm_by_id m bid of
       None \<Rightarrow> (Inr (), m, w)
     | Some r \<Rightarrow>
         let m1 = m\<lparr>hm_by_id := (hm_by_id m)(bid := None), hm_by_combo := (hm_by_combo m)(hr_combo r := None)\<rparr>
         in case hr_os_id r of
              None \<Rightarrow> (Inr (), m1, w)
            | Some k \<Rightarrow>
                let m2 = m1\<lparr>hm_os_map := (hm_os_map m)(k := None)\<rparr>
                in case port of
                     None \<Rightarrow> (Inr (), m2, w)
                   | Some p \<Rightarrow>
                       (case wp_unregister p k w of
                          (Inl e, w1) \<Rightarrow> (Inl (PortError e), m2, w1)
                        | (Inr _, w1) \<Rightarrow> (Inr (), m2, w1)))"

text \<open>The system part of a registration: the identifier it was given, if there is a port.\<close>

definition os_register ::
    "'w hotkey_port option \<Rightarrow> hotkey_binding \<Rightarrow> 'f \<Rightarrow> 'f hotkey_manager \<times> 'w
       \<Rightarrow> (hotkey_error + nat option) \<times> 'f hotkey_manager \<times> 'w" where
  "os_register port b fire = (\<lambda>(m, w).
     case port of
       None \<Rightarrow> (Inr None, m, w)
     | Some p \<Rightarrow>
         let k = hm_next_os_id m; m1 = m\<lparr>hm_next_os_id := k + 1\<rparr>
         in case wp_register p k (hb_modifiers b) (hb_vk b) w of
              (Inl e, w1) \<Rightarrow> (Inl (HotkeyOs e), m1, w1)
            | (Inr _, w1) \<Rightarrow> (Inr (Some k), m1\<lparr>hm_os_map := (hm_os_map m1)(k \<mapsto> fire)\<rparr>, w1))"

definition hotkey_register ::
    "'w hotkey_port option \<Rightarrow> string \<Rightarrow> nat \<Rightarrow> hotkey_binding \<Rightarrow> 'f \<Rightarrow> 'f hotkey_manager \<times> 'w
       \<Rightarrow> (hotkey_error + unit) \<times> 'f hotkey_manager \<times> 'w" where
  "hotkey_register port module priority b fire s0 =
     (let c = combo (hb_modifiers b) (hb_vk b) in
      case (case hm_by_id (fst s0) (hb_id b) of
              Some old \<Rightarrow> if hr_combo old \<noteq> c then hotkey_unregister port (hb_id b) s0 else (Inr (), s0)
            | None \<Rightarrow> (Inr (), s0)) of
        (Inl e, s1) \<Rightarrow> (Inl e, s1)
      | (Inr _, s1) \<Rightarrow>
          (case (case hm_by_combo (fst s1) c of
                   Some ex \<Rightarrow>
                     if ho_priority ex \<le> priority then (Inl (HotkeyTaken (ho_module ex)), s1)
                     else hotkey_unregister port (hb_id (ho_binding ex)) s1
                 | None \<Rightarrow> (Inr (), s1)) of
             (Inl e, s2) \<Rightarrow> (Inl e, s2)
           | (Inr _, s2) \<Rightarrow>
               (case os_register port b fire s2 of
                  (Inl e, s3) \<Rightarrow> (Inl e, s3)
                | (Inr slot, m, w) \<Rightarrow>
                    (Inr (),
                     m\<lparr>hm_by_combo := (hm_by_combo m)(c \<mapsto> \<lparr>ho_module = module, ho_priority = priority, ho_binding = b\<rparr>),
                       hm_by_id := (hm_by_id m)(hb_id b \<mapsto> \<lparr>hr_combo = c, hr_os_id = slot\<rparr>)\<rparr>,
                     w))))"

fun unregister_each ::
    "'w hotkey_port option \<Rightarrow> string list \<Rightarrow> 'f hotkey_manager \<times> 'w \<Rightarrow> nat \<times> 'f hotkey_manager \<times> 'w" where
  "unregister_each port [] s = (0, s)"
| "unregister_each port (i # is) s =
     (case hotkey_unregister port i s of
        (r, s1) \<Rightarrow> (case unregister_each port is s1 of (n, s2) \<Rightarrow> ((case r of Inl _ \<Rightarrow> n | Inr _ \<Rightarrow> n + 1), s2)))"

definition unregister_module ::
    "'w hotkey_port option \<Rightarrow> string list \<Rightarrow> string \<Rightarrow> 'f hotkey_manager \<times> 'w \<Rightarrow> nat \<times> 'f hotkey_manager \<times> 'w" where
  "unregister_module port keys module s =
     unregister_each port
       (filter (\<lambda>i. case hm_by_id (fst s) i of
            None \<Rightarrow> False
          | Some r \<Rightarrow> unwrap_or False (map_option (\<lambda>ow. ho_module ow = module) (hm_by_combo (fst s) (hr_combo r)))) keys)
       s"

definition owner_of :: "nat \<Rightarrow> nat \<Rightarrow> 'f hotkey_manager \<Rightarrow> (string \<times> string) option" where
  "owner_of modifiers vk m =
     map_option (\<lambda>ow. (ho_module ow, hb_label (ho_binding ow))) (hm_by_combo m (combo modifiers vk))"

section \<open>The tables agree\<close>

text \<open>
  The two tables are inverse to each other, a combination is the one of its binding, and the callbacks
  are exactly those of the system identifiers in use, which are distinct and already given out.
\<close>

definition hotkeys_ok :: "'f hotkey_manager \<Rightarrow> bool" where
  "hotkeys_ok m \<longleftrightarrow>
     (\<forall>i r. hm_by_id m i = Some r \<longrightarrow> (\<exists>ow. hm_by_combo m (hr_combo r) = Some ow \<and> hb_id (ho_binding ow) = i))
     \<and> (\<forall>c ow. hm_by_combo m c = Some ow \<longrightarrow>
          c = combo (hb_modifiers (ho_binding ow)) (hb_vk (ho_binding ow))
          \<and> (\<exists>r. hm_by_id m (hb_id (ho_binding ow)) = Some r \<and> hr_combo r = c))
     \<and> (\<forall>i j r s k. hm_by_id m i = Some r \<longrightarrow> hm_by_id m j = Some s \<longrightarrow> hr_os_id r = Some k \<longrightarrow> hr_os_id s = Some k \<longrightarrow> i = j)
     \<and> (\<forall>k. hm_os_map m k \<noteq> None \<longleftrightarrow> (\<exists>i r. hm_by_id m i = Some r \<and> hr_os_id r = Some k))
     \<and> (\<forall>k. hm_os_map m k \<noteq> None \<longrightarrow> k < hm_next_os_id m)"

lemma hotkeys_okI:
  assumes "\<And>i r. hm_by_id m i = Some r \<Longrightarrow> \<exists>ow. hm_by_combo m (hr_combo r) = Some ow \<and> hb_id (ho_binding ow) = i"
    and "\<And>c ow. hm_by_combo m c = Some ow \<Longrightarrow> c = combo (hb_modifiers (ho_binding ow)) (hb_vk (ho_binding ow))
          \<and> (\<exists>r. hm_by_id m (hb_id (ho_binding ow)) = Some r \<and> hr_combo r = c)"
    and "\<And>i j r s k. hm_by_id m i = Some r \<Longrightarrow> hm_by_id m j = Some s \<Longrightarrow> hr_os_id r = Some k \<Longrightarrow> hr_os_id s = Some k \<Longrightarrow> i = j"
    and "\<And>k. hm_os_map m k \<noteq> None \<longleftrightarrow> (\<exists>i r. hm_by_id m i = Some r \<and> hr_os_id r = Some k)"
    and "\<And>k. hm_os_map m k \<noteq> None \<Longrightarrow> k < hm_next_os_id m"
  shows "hotkeys_ok m"
  unfolding hotkeys_ok_def using assms by blast

lemma hotkeys_okD:
  assumes "hotkeys_ok m"
  shows "hm_by_id m i = Some r \<Longrightarrow> \<exists>ow. hm_by_combo m (hr_combo r) = Some ow \<and> hb_id (ho_binding ow) = i"
    and "hm_by_combo m c = Some ow \<Longrightarrow> c = combo (hb_modifiers (ho_binding ow)) (hb_vk (ho_binding ow))
          \<and> (\<exists>r. hm_by_id m (hb_id (ho_binding ow)) = Some r \<and> hr_combo r = c)"
    and "hm_by_id m i = Some r \<Longrightarrow> hm_by_id m j = Some s \<Longrightarrow> hr_os_id r = Some k \<Longrightarrow> hr_os_id s = Some k \<Longrightarrow> i = j"
    and "hm_os_map m k \<noteq> None \<longleftrightarrow> (\<exists>i r. hm_by_id m i = Some r \<and> hr_os_id r = Some k)"
    and "hm_os_map m k \<noteq> None \<Longrightarrow> k < hm_next_os_id m"
  using assms unfolding hotkeys_ok_def by blast+

lemma hotkeys_ok_new: "hotkeys_ok hotkey_new"
  by (rule hotkeys_okI) (simp_all add: hotkey_new_def)

text \<open>What unregistering does to the tables, whatever the port answers.\<close>

definition dropped :: "string \<Rightarrow> 'f hotkey_manager \<Rightarrow> 'f hotkey_manager" where
  "dropped bid m =
     (case hm_by_id m bid of
        None \<Rightarrow> m
      | Some r \<Rightarrow> m\<lparr>hm_by_id := (hm_by_id m)(bid := None), hm_by_combo := (hm_by_combo m)(hr_combo r := None),
          hm_os_map := (case hr_os_id r of None \<Rightarrow> hm_os_map m | Some k \<Rightarrow> (hm_os_map m)(k := None))\<rparr>)"

lemma unregister_dropped: "\<exists>r w'. hotkey_unregister port bid (m, w) = (r, dropped bid m, w')"
  by (auto simp: hotkey_unregister_def dropped_def Let_def split: option.split prod.split sum.split)

lemma hotkeys_ok_dropped:
  assumes "hotkeys_ok m"
  shows "hotkeys_ok (dropped bid m)"
proof (cases "hm_by_id m bid")
  case (Some r)
  note D = hotkeys_okD [OF assms]
  obtain ow where ow: "hm_by_combo m (hr_combo r) = Some ow" "hb_id (ho_binding ow) = bid"
    using D(1) [OF Some] by blast
  have other: "hr_combo s \<noteq> hr_combo r" if "hm_by_id m i = Some s" "i \<noteq> bid" for i s
    using D(1) [OF that(1)] ow that(2) by auto
  show ?thesis
  proof (rule hotkeys_okI)
    fix i s assume "hm_by_id (dropped bid m) i = Some s"
    then have i: "hm_by_id m i = Some s" "i \<noteq> bid" by (auto simp: dropped_def Some split: if_splits)
    then show "\<exists>ow. hm_by_combo (dropped bid m) (hr_combo s) = Some ow \<and> hb_id (ho_binding ow) = i"
      using D(1) [OF i(1)] other [OF i] by (simp add: dropped_def Some)
  next
    fix c ow' assume "hm_by_combo (dropped bid m) c = Some ow'"
    then have c: "hm_by_combo m c = Some ow'" "c \<noteq> hr_combo r" by (auto simp: dropped_def Some split: if_splits)
    have "hb_id (ho_binding ow') \<noteq> bid" using D(2) [OF c(1)] Some c(2) by auto
    then show "c = combo (hb_modifiers (ho_binding ow')) (hb_vk (ho_binding ow'))
        \<and> (\<exists>r. hm_by_id (dropped bid m) (hb_id (ho_binding ow')) = Some r \<and> hr_combo r = c)"
      using D(2) [OF c(1)] by (auto simp: dropped_def Some)
  next
    fix i j s t k
    assume "hm_by_id (dropped bid m) i = Some s" "hm_by_id (dropped bid m) j = Some t" "hr_os_id s = Some k" "hr_os_id t = Some k"
    then show "i = j" using D(3) [of i s j t k] by (auto simp: dropped_def Some split: if_splits)
  next
    fix k
    show "hm_os_map (dropped bid m) k \<noteq> None \<longleftrightarrow> (\<exists>i s. hm_by_id (dropped bid m) i = Some s \<and> hr_os_id s = Some k)"
    proof (cases "hr_os_id r = Some k")
      case True
      then have "\<not> (\<exists>i s. hm_by_id (dropped bid m) i = Some s \<and> hr_os_id s = Some k)"
        using D(3) [OF Some, of _ _ k] by (auto simp: dropped_def Some split: if_splits)
      then show ?thesis using True by (simp add: dropped_def Some)
    next
      case False
      then have "hm_os_map (dropped bid m) k = hm_os_map m k"
        by (auto simp: dropped_def Some split: option.split)
      moreover have "(\<exists>i s. hm_by_id (dropped bid m) i = Some s \<and> hr_os_id s = Some k)
          \<longleftrightarrow> (\<exists>i s. hm_by_id m i = Some s \<and> hr_os_id s = Some k)"
        using False Some by (auto simp: dropped_def) (metis option.inject)
      ultimately show ?thesis using D(4) [of k] by simp
    qed
  next
    fix k assume "hm_os_map (dropped bid m) k \<noteq> None"
    then show "k < hm_next_os_id (dropped bid m)"
      using D(5) [of k] by (auto simp: dropped_def Some split: option.splits if_splits)
  qed
qed (simp add: dropped_def assms)


lemma dropped_simps:
  assumes "hotkeys_ok m"
  shows "hm_by_id (dropped bid m) i = (if i = bid then None else hm_by_id m i)"
    and "hm_next_os_id (dropped bid m) = hm_next_os_id m"
    and "(case hm_by_combo m c of Some ow \<Rightarrow> hb_id (ho_binding ow) = bid | None \<Rightarrow> False)
           \<Longrightarrow> hm_by_combo (dropped bid m) c = None"
    and "(case hm_by_combo m c of Some ow \<Rightarrow> hb_id (ho_binding ow) \<noteq> bid | None \<Rightarrow> True)
           \<Longrightarrow> hm_by_combo (dropped bid m) c = hm_by_combo m c"
proof -
  note D = hotkeys_okD [OF assms]
  show "hm_by_id (dropped bid m) i = (if i = bid then None else hm_by_id m i)"
    and "hm_next_os_id (dropped bid m) = hm_next_os_id m"
    by (auto simp: dropped_def split: option.split)
  show "hm_by_combo (dropped bid m) c = None"
    if "case hm_by_combo m c of Some ow \<Rightarrow> hb_id (ho_binding ow) = bid | None \<Rightarrow> False"
    using that D(2) [of c] by (auto simp: dropped_def split: option.splits)
  show "hm_by_combo (dropped bid m) c = hm_by_combo m c"
    if "case hm_by_combo m c of Some ow \<Rightarrow> hb_id (ho_binding ow) \<noteq> bid | None \<Rightarrow> True"
    using that D(1) [of bid] by (auto simp: dropped_def split: option.splits)
qed

text \<open>Recording a registration under an identifier and a combination that are free.\<close>

definition recorded :: "string \<Rightarrow> nat \<Rightarrow> hotkey_binding \<Rightarrow> nat option \<Rightarrow> 'f hotkey_manager \<Rightarrow> 'f hotkey_manager" where
  "recorded module priority b slot m =
     (let c = combo (hb_modifiers b) (hb_vk b)
      in m\<lparr>hm_by_combo := (hm_by_combo m)(c \<mapsto> \<lparr>ho_module = module, ho_priority = priority, ho_binding = b\<rparr>),
           hm_by_id := (hm_by_id m)(hb_id b \<mapsto> \<lparr>hr_combo = c, hr_os_id = slot\<rparr>)\<rparr>)"

lemma hotkeys_ok_recorded:
  assumes ok: "hotkeys_ok m" and free: "hm_by_id m (hb_id b) = None" "hm_by_combo m (combo (hb_modifiers b) (hb_vk b)) = None"
    and m': "slot = None \<and> m' = m \<or> slot = Some (hm_next_os_id m)
      \<and> m' = m\<lparr>hm_next_os_id := hm_next_os_id m + 1, hm_os_map := (hm_os_map m)(hm_next_os_id m \<mapsto> fire)\<rparr>"
  shows "hotkeys_ok (recorded module priority b slot m')"
proof -
  note D = hotkeys_okD [OF ok]
  let ?n = "recorded module priority b slot m'"
  have fields: "hm_by_id ?n = (hm_by_id m)(hb_id b \<mapsto> \<lparr>hr_combo = combo (hb_modifiers b) (hb_vk b), hr_os_id = slot\<rparr>)"
    "hm_by_combo ?n = (hm_by_combo m)(combo (hb_modifiers b) (hb_vk b) \<mapsto> \<lparr>ho_module = module, ho_priority = priority, ho_binding = b\<rparr>)"
    "hm_os_map ?n = (case slot of None \<Rightarrow> hm_os_map m | Some k \<Rightarrow> (hm_os_map m)(k \<mapsto> fire))"
    "hm_next_os_id ?n = (case slot of None \<Rightarrow> hm_next_os_id m | Some k \<Rightarrow> k + 1)"
    using m' by (auto simp: recorded_def Let_def)
  have used: "k < hm_next_os_id m" if "hm_by_id m i = Some r" "hr_os_id r = Some k" for i r k
    using D(4) [of k] D(5) [of k] that by blast
  have slot: "slot = None \<or> slot = Some (hm_next_os_id m)" using m' by blast
  show ?thesis
  proof (rule hotkeys_okI)
    fix i r assume "hm_by_id ?n i = Some r"
    then show "\<exists>ow. hm_by_combo ?n (hr_combo r) = Some ow \<and> hb_id (ho_binding ow) = i"
      using D(1) [of i r] free(2) by (auto simp: fields split: if_splits)
  next
    fix c ow assume "hm_by_combo ?n c = Some ow"
    then show "c = combo (hb_modifiers (ho_binding ow)) (hb_vk (ho_binding ow))
        \<and> (\<exists>r. hm_by_id ?n (hb_id (ho_binding ow)) = Some r \<and> hr_combo r = c)"
      using D(2) [of c ow] free(1) by (auto simp: fields split: if_splits)
  next
    fix i j r s k
    assume "hm_by_id ?n i = Some r" "hm_by_id ?n j = Some s" "hr_os_id r = Some k" "hr_os_id s = Some k"
    then show "i = j"
      using D(3) [of i r j s k] used [of i r k] used [of j s k] slot by (auto simp: fields split: if_splits)
  next
    fix k
    show "hm_os_map ?n k \<noteq> None \<longleftrightarrow> (\<exists>i r. hm_by_id ?n i = Some r \<and> hr_os_id r = Some k)"
      using D(4) [of k] free(1) slot by (auto simp: fields split: if_splits) (metis option.distinct(1))+
  next
    fix k assume "hm_os_map ?n k \<noteq> None"
    then show "k < hm_next_os_id ?n"
      using D(5) [of k] slot by (auto simp: fields split: if_splits)
  qed
qed

section \<open>The cases of a registration\<close>

text \<open>The state in which the combination is asked for: the binding's old combination is gone.\<close>

definition rebound :: "hotkey_binding \<Rightarrow> 'f hotkey_manager \<Rightarrow> 'f hotkey_manager" where
  "rebound b m =
     (case hm_by_id m (hb_id b) of
        Some old \<Rightarrow> if hr_combo old \<noteq> combo (hb_modifiers b) (hb_vk b) then dropped (hb_id b) m else m
      | None \<Rightarrow> m)"

lemma rebound_ok: "hotkeys_ok m \<Longrightarrow> hotkeys_ok (rebound b m)"
  by (simp add: rebound_def hotkeys_ok_dropped split: option.split)

lemma rebound_holder:
  assumes "hotkeys_ok m" "hm_by_id (rebound b m) (hb_id b) = Some r"
  shows "hr_combo r = combo (hb_modifiers b) (hb_vk b)"
  using assms by (auto simp: rebound_def dropped_simps split: option.splits if_splits)

lemma rebound_owner:
  assumes "hotkeys_ok m"
  shows "hm_by_combo (rebound b m) (combo (hb_modifiers b) (hb_vk b)) = hm_by_combo m (combo (hb_modifiers b) (hb_vk b))"
proof (cases "hm_by_id m (hb_id b)")
  case (Some old)
  have "hb_id (ho_binding ow) \<noteq> hb_id b" if "hr_combo old \<noteq> combo (hb_modifiers b) (hb_vk b)"
      "hm_by_combo m (combo (hb_modifiers b) (hb_vk b)) = Some ow" for ow
    using hotkeys_okD(2) [OF assms that(2)] Some that(1) by auto
  then show ?thesis
    using Some by (auto simp: rebound_def intro!: dropped_simps(4) [OF assms] split: option.split)
qed (simp add: rebound_def)

text \<open>The manager a registration leaves is the old one, possibly without some bindings, or has the new one recorded.\<close>

definition displaced :: "hotkey_binding \<Rightarrow> 'f hotkey_manager \<Rightarrow> 'f hotkey_manager" where
  "displaced b m =
     (case hm_by_combo (rebound b m) (combo (hb_modifiers b) (hb_vk b)) of
        Some ex \<Rightarrow> dropped (hb_id (ho_binding ex)) (rebound b m)
      | None \<Rightarrow> rebound b m)"

lemma displaced_ok: "hotkeys_ok m \<Longrightarrow> hotkeys_ok (displaced b m)"
  by (simp add: displaced_def hotkeys_ok_dropped rebound_ok split: option.split)

lemma displaced_free:
  assumes ok: "hotkeys_ok m"
  shows "hm_by_id (displaced b m) (hb_id b) = None"
    and "hm_by_combo (displaced b m) (combo (hb_modifiers b) (hb_vk b)) = None"
proof -
  note ok' = rebound_ok [OF ok, of b]
  show "hm_by_combo (displaced b m) (combo (hb_modifiers b) (hb_vk b)) = None"
    by (auto simp: displaced_def intro!: dropped_simps(3) [OF ok'] split: option.split)
  show "hm_by_id (displaced b m) (hb_id b) = None"
  proof (cases "hm_by_id (rebound b m) (hb_id b)")
    case None
    then show ?thesis by (simp add: displaced_def dropped_simps [OF ok'] split: option.split)
  next
    case (Some r)
    obtain ow where "hm_by_combo (rebound b m) (combo (hb_modifiers b) (hb_vk b)) = Some ow" "hb_id (ho_binding ow) = hb_id b"
      using hotkeys_okD(1) [OF ok' Some] rebound_holder [OF ok Some] by auto
    then show ?thesis by (simp add: displaced_def dropped_simps [OF ok'])
  qed
qed

text \<open>The three phases of a registration, with the state each leaves.\<close>

definition leave_old :: "'w hotkey_port option \<Rightarrow> hotkey_binding \<Rightarrow> 'f hotkey_manager \<times> 'w
    \<Rightarrow> (hotkey_error + unit) \<times> 'f hotkey_manager \<times> 'w" where
  "leave_old port b s0 =
     (case hm_by_id (fst s0) (hb_id b) of
        Some old \<Rightarrow> if hr_combo old \<noteq> combo (hb_modifiers b) (hb_vk b) then hotkey_unregister port (hb_id b) s0 else (Inr (), s0)
      | None \<Rightarrow> (Inr (), s0))"

definition take_over :: "'w hotkey_port option \<Rightarrow> nat \<Rightarrow> hotkey_binding \<Rightarrow> 'f hotkey_manager \<times> 'w
    \<Rightarrow> (hotkey_error + unit) \<times> 'f hotkey_manager \<times> 'w" where
  "take_over port priority b s1 =
     (case hm_by_combo (fst s1) (combo (hb_modifiers b) (hb_vk b)) of
        Some ex \<Rightarrow>
          if ho_priority ex \<le> priority then (Inl (HotkeyTaken (ho_module ex)), s1)
          else hotkey_unregister port (hb_id (ho_binding ex)) s1
      | None \<Rightarrow> (Inr (), s1))"

lemma register_phases:
  "hotkey_register port module priority b fire s0 =
     (case leave_old port b s0 of
        (Inl e, s1) \<Rightarrow> (Inl e, s1)
      | (Inr _, s1) \<Rightarrow>
          (case take_over port priority b s1 of
             (Inl e, s2) \<Rightarrow> (Inl e, s2)
           | (Inr _, s2) \<Rightarrow>
               (case os_register port b fire s2 of
                  (Inl e, s3) \<Rightarrow> (Inl e, s3)
                | (Inr slot, m, w) \<Rightarrow> (Inr (), recorded module priority b slot m, w))))"
  unfolding hotkey_register_def leave_old_def take_over_def recorded_def Let_def ..

lemma leave_old_cases:
  obtains r w' where "leave_old port b (m, w) = (r, rebound b m, w')"
  using unregister_dropped [of port "hb_id b" m w]
  by (fastforce simp: leave_old_def rebound_def split: option.split)

lemma take_over_cases:
  obtains (refused) ex where "hm_by_combo (rebound b m) (combo (hb_modifiers b) (hb_vk b)) = Some ex"
      "ho_priority ex \<le> priority" "take_over port priority b (rebound b m, w) = (Inl (HotkeyTaken (ho_module ex)), rebound b m, w)"
    | (taken) r w' where "take_over port priority b (rebound b m, w) = (r, displaced b m, w')"
        "\<And>ex. hm_by_combo (rebound b m) (combo (hb_modifiers b) (hb_vk b)) = Some ex \<Longrightarrow> priority < ho_priority ex"
proof (cases "hm_by_combo (rebound b m) (combo (hb_modifiers b) (hb_vk b))")
  case None
  then show ?thesis using that(2) by (simp add: take_over_def displaced_def)
next
  case (Some ex)
  obtain r w' where u: "hotkey_unregister port (hb_id (ho_binding ex)) (rebound b m, w) = (r, dropped (hb_id (ho_binding ex)) (rebound b m), w')"
    using unregister_dropped [of port "hb_id (ho_binding ex)" "rebound b m" w] by blast
  show ?thesis
  proof (cases "ho_priority ex \<le> priority")
    case True
    then show ?thesis using that(1) Some by (simp add: take_over_def)
  next
    case False
    then show ?thesis using that(2) Some u by (simp add: take_over_def displaced_def)
  qed
qed

lemma os_register_cases:
  obtains (refused) e w' where "os_register port b fire (m, w) = (Inl e, m\<lparr>hm_next_os_id := hm_next_os_id m + 1\<rparr>, w')"
    | (accepted) slot m' w' where "os_register port b fire (m, w) = (Inr slot, m', w')"
        "slot = None \<and> m' = m \<or> slot = Some (hm_next_os_id m)
          \<and> m' = m\<lparr>hm_next_os_id := hm_next_os_id m + 1, hm_os_map := (hm_os_map m)(hm_next_os_id m \<mapsto> fire)\<rparr>"
proof (cases port)
  case None
  then show ?thesis using accepted [of None m w] by (simp add: os_register_def)
next
  case (Some p)
  obtain r w' where r: "wp_register p (hm_next_os_id m) (hb_modifiers b) (hb_vk b) w = (r, w')" by (cases "wp_register p (hm_next_os_id m) (hb_modifiers b) (hb_vk b) w")
  show ?thesis
  proof (cases r)
    case (Inl e)
    then show ?thesis using refused Some r by (simp add: os_register_def)
  next
    case Inr
    then show ?thesis
      using Some r by (intro accepted [of "Some (hm_next_os_id m)" _ w', OF _ disjI2]) (simp_all add: os_register_def Let_def)
  qed
qed

lemma hotkeys_ok_skip_id: "hotkeys_ok m \<Longrightarrow> hotkeys_ok (m\<lparr>hm_next_os_id := hm_next_os_id m + 1\<rparr>)"
  using hotkeys_okD(5) [of m]
  by (intro hotkeys_okI) (simp_all add: hotkeys_okD(1,2) hotkeys_okD(4) [symmetric] less_SucI, metis hotkeys_okD(3))

lemma hotkeys_ok_register:
  assumes ok: "hotkeys_ok m"
  shows "hotkeys_ok (fst (snd (hotkey_register port module priority b fire (m, w))))"
proof -
  obtain r1 w1 where l: "leave_old port b (m, w) = (r1, rebound b m, w1)" by (rule leave_old_cases)
  show ?thesis
  proof (cases r1)
    case Inl
    then show ?thesis using l rebound_ok [OF ok] by (simp add: register_phases)
  next
    case r1: Inr
    show ?thesis
    proof (rule take_over_cases [of b m priority port w1])
      fix ex assume "take_over port priority b (rebound b m, w1) = (Inl (HotkeyTaken (ho_module ex)), rebound b m, w1)"
      then show ?thesis using l r1 rebound_ok [OF ok] by (simp add: register_phases)
    next
      fix r2 w2 assume t: "take_over port priority b (rebound b m, w1) = (r2, displaced b m, w2)"
      show ?thesis
      proof (cases r2)
        case Inl
        then show ?thesis using l r1 t displaced_ok [OF ok] by (simp add: register_phases)
      next
        case r2: Inr
        show ?thesis
        proof (rule os_register_cases [of port b fire "displaced b m" w2])
          fix e w3 assume "os_register port b fire (displaced b m, w2)
            = (Inl e, (displaced b m)\<lparr>hm_next_os_id := hm_next_os_id (displaced b m) + 1\<rparr>, w3)"
          then show ?thesis
            using l r1 t r2 hotkeys_ok_skip_id [OF displaced_ok [OF ok]] by (simp add: register_phases)
        next
          fix slot m' w3
          assume a: "os_register port b fire (displaced b m, w2) = (Inr slot, m', w3)"
            and m': "slot = None \<and> m' = displaced b m \<or> slot = Some (hm_next_os_id (displaced b m))
              \<and> m' = (displaced b m)\<lparr>hm_next_os_id := hm_next_os_id (displaced b m) + 1,
                    hm_os_map := (hm_os_map (displaced b m))(hm_next_os_id (displaced b m) \<mapsto> fire)\<rparr>"
          show ?thesis
            using l r1 t r2 a hotkeys_ok_recorded [OF displaced_ok [OF ok] displaced_free [OF ok] m']
            by (simp add: register_phases)
        qed
      qed
    qed
  qed
qed

lemma hotkeys_ok_unregister: "hotkeys_ok m \<Longrightarrow> hotkeys_ok (fst (snd (hotkey_unregister port bid (m, w))))"
  using unregister_dropped [of port bid m w] hotkeys_ok_dropped [of m bid] by auto

lemma hotkeys_ok_unregister_each: "hotkeys_ok (fst s) \<Longrightarrow> hotkeys_ok (fst (snd (unregister_each port is s)))"
proof (induction port "is" s rule: unregister_each.induct)
  case (2 port i "is" s)
  obtain m w where s: "s = (m, w)" by (cases s)
  obtain r w' where u: "hotkey_unregister port i s = (r, dropped i m, w')"
    using unregister_dropped [of port i m w] s by blast
  have "hotkeys_ok (dropped i m)" using 2(2) s by (simp add: hotkeys_ok_dropped)
  then show ?case
    using 2(1) [OF u [symmetric]] u by (cases "unregister_each port is (dropped i m, w')") (auto split: prod.split)
qed simp

section \<open>Any sequence of calls\<close>

datatype 'f hotkey_call =
  Register string nat hotkey_binding 'f
| Unregister string
| UnregisterModule "string list" string

fun hotkey_do :: "'w hotkey_port option \<Rightarrow> 'f hotkey_call \<Rightarrow> 'f hotkey_manager \<times> 'w \<Rightarrow> 'f hotkey_manager \<times> 'w" where
  "hotkey_do port (Register module priority b fire) s = snd (hotkey_register port module priority b fire s)"
| "hotkey_do port (Unregister bid) s = snd (hotkey_unregister port bid s)"
| "hotkey_do port (UnregisterModule keys module) s = snd (unregister_module port keys module s)"

lemma hotkey_do_ok: "hotkeys_ok (fst s) \<Longrightarrow> hotkeys_ok (fst (hotkey_do port call s))"
  by (cases s; cases call)
    (auto simp: hotkeys_ok_register hotkeys_ok_unregister unregister_module_def hotkeys_ok_unregister_each)

text \<open>C35. Whatever sequence of registrations, unregistrations and module shutdowns is made, and whatever
  the operating system answers to each, the hotkey tables stay consistent: every identifier has a
  combination owned by it, every owned combination is the one its binding spells and is registered
  under its identifier, no two bindings share a system identifier, and the callback table holds
  exactly the system identifiers in use, none of them still to be handed out.
\<close>

theorem hotkey_tables_agree:
  "hotkeys_ok (fst (fold (hotkey_do port) calls (hotkey_new, w)))"
proof -
  have "hotkeys_ok (fst s) \<Longrightarrow> hotkeys_ok (fst (fold (hotkey_do port) calls s))" for s :: "'a hotkey_manager \<times> 'b"
    by (induction calls arbitrary: s) (simp_all add: hotkey_do_ok)
  then show ?thesis by (simp add: hotkeys_ok_new)
qed

section \<open>Who gets the combination\<close>

text \<open>A port that never refuses to unregister, and one that never refuses to register.\<close>

definition unregisters :: "'w hotkey_port option \<Rightarrow> bool" where
  "unregisters port \<longleftrightarrow> (\<forall>p k w. port = Some p \<longrightarrow> fst (wp_unregister p k w) = Inr ())"

definition registers :: "'w hotkey_port option \<Rightarrow> bool" where
  "registers port \<longleftrightarrow> (\<forall>p k mo vk w. port = Some p \<longrightarrow> fst (wp_register p k mo vk w) = Inr ())"

lemma hotkey_unregister_obliging:
  assumes "unregisters port"
  obtains w' where "hotkey_unregister port bid (m, w) = (Inr (), dropped bid m, w')"
proof -
  have "fst (hotkey_unregister port bid (m, w)) = Inr ()"
    using assms by (auto simp: hotkey_unregister_def unregisters_def Let_def split: option.split prod.split sum.split)
      (metis fst_conv Inl_Inr_False)
  moreover obtain r w' where "hotkey_unregister port bid (m, w) = (r, dropped bid m, w')"
    using unregister_dropped [of port bid m w] by blast
  ultimately show ?thesis using that by auto
qed

lemma leave_old_obliging:
  assumes "unregisters port"
  obtains w' where "leave_old port b (m, w) = (Inr (), rebound b m, w')"
proof -
  obtain w' where "hotkey_unregister port (hb_id b) (m, w) = (Inr (), dropped (hb_id b) m, w')"
    using hotkey_unregister_obliging [OF assms] .
  then have "\<exists>w'. leave_old port b (m, w) = (Inr (), rebound b m, w')"
    by (simp add: leave_old_def rebound_def split: option.split)
  then show ?thesis using that by blast
qed

lemma register_refused:
  assumes "hotkeys_ok m" "unregisters port"
    and "hm_by_combo m (combo (hb_modifiers b) (hb_vk b)) = Some ex" "ho_priority ex \<le> priority"
  obtains w' where "hotkey_register port module priority b fire (m, w) = (Inl (HotkeyTaken (ho_module ex)), rebound b m, w')"
proof -
  obtain w' where "leave_old port b (m, w) = (Inr (), rebound b m, w')" using leave_old_obliging [OF assms(2)] .
  then show ?thesis
    using that [of w'] assms(3,4) rebound_owner [OF assms(1), of b] by (simp add: register_phases take_over_def)
qed

lemma register_reaches_os:
  assumes "hotkeys_ok m" "unregisters port"
    and free: "\<And>ex. hm_by_combo m (combo (hb_modifiers b) (hb_vk b)) = Some ex \<Longrightarrow> priority < ho_priority ex"
  obtains w' where "hotkey_register port module priority b fire (m, w) =
    (case os_register port b fire (displaced b m, w') of
       (Inl e, s3) \<Rightarrow> (Inl e, s3)
     | (Inr slot, m', w2) \<Rightarrow> (Inr (), recorded module priority b slot m', w2))"
proof -
  obtain w1 where l: "leave_old port b (m, w) = (Inr (), rebound b m, w1)" using leave_old_obliging [OF assms(2)] .
  have "\<exists>w'. take_over port priority b (rebound b m, w1) = (Inr (), displaced b m, w')"
  proof (cases "hm_by_combo (rebound b m) (combo (hb_modifiers b) (hb_vk b))")
    case None
    then show ?thesis by (simp add: take_over_def displaced_def)
  next
    case (Some ex)
    obtain w' where "hotkey_unregister port (hb_id (ho_binding ex)) (rebound b m, w1)
        = (Inr (), dropped (hb_id (ho_binding ex)) (rebound b m), w')"
      using hotkey_unregister_obliging [OF assms(2)] .
    then show ?thesis
      using Some free [of ex] rebound_owner [OF assms(1), of b] by (simp add: take_over_def displaced_def)
  qed
  then show ?thesis using that l by (auto simp: register_phases)
qed

lemma recorded_owner: "owner_of (hb_modifiers b) (hb_vk b) (recorded module priority b slot m) = Some (module, hb_label b)"
  by (simp add: owner_of_def recorded_def Let_def)

text \<open>Who gets a combination when the operating system obliges: a registration is refused exactly when
  the combination is owned at an equal or smaller priority number, and then the owner keeps it and is
  named in the error; otherwise it succeeds and the new binding owns the combination.
\<close>

lemma hotkey_priority_decides:
  assumes "hotkeys_ok m" "unregisters port" "registers port"
  shows "case hotkey_register port module priority b fire (m, w) of (r, m', w') \<Rightarrow>
    (if (case hm_by_combo m (combo (hb_modifiers b) (hb_vk b)) of None \<Rightarrow> False | Some ex \<Rightarrow> ho_priority ex \<le> priority)
     then r = Inl (HotkeyTaken (ho_module (the (hm_by_combo m (combo (hb_modifiers b) (hb_vk b))))))
       \<and> owner_of (hb_modifiers b) (hb_vk b) m' = owner_of (hb_modifiers b) (hb_vk b) m
     else r = Inr () \<and> owner_of (hb_modifiers b) (hb_vk b) m' = Some (module, hb_label b))"
proof (cases "\<exists>ex. hm_by_combo m (combo (hb_modifiers b) (hb_vk b)) = Some ex \<and> ho_priority ex \<le> priority")
  case True
  then obtain ex where ex: "hm_by_combo m (combo (hb_modifiers b) (hb_vk b)) = Some ex" "ho_priority ex \<le> priority" by blast
  obtain w' where "hotkey_register port module priority b fire (m, w) = (Inl (HotkeyTaken (ho_module ex)), rebound b m, w')"
    using register_refused [OF assms(1,2) ex] .
  then show ?thesis using ex rebound_owner [OF assms(1), of b] by (simp add: owner_of_def)
next
  case False
  then have free: "\<And>ex. hm_by_combo m (combo (hb_modifiers b) (hb_vk b)) = Some ex \<Longrightarrow> priority < ho_priority ex" by fastforce
  obtain w1 where reg: "hotkey_register port module priority b fire (m, w) =
    (case os_register port b fire (displaced b m, w1) of
       (Inl e, s3) \<Rightarrow> (Inl e, s3)
     | (Inr slot, m', w2) \<Rightarrow> (Inr (), recorded module priority b slot m', w2))"
    using register_reaches_os [OF assms(1,2) free] .
  have "isl (fst (os_register port b fire (displaced b m, w1))) = False"
    using assms(3) by (auto simp: os_register_def registers_def Let_def split: option.split prod.split sum.split)
      (metis fst_conv Inl_Inr_False)
  then obtain slot m' w2 where "os_register port b fire (displaced b m, w1) = (Inr slot, m', w2)"
    by (cases "os_register port b fire (displaced b m, w1)", cases "fst (os_register port b fire (displaced b m, w1))") auto
  then show ?thesis using reg False by (auto simp: recorded_owner split: option.split)
qed

definition quiet_port :: "nat set hotkey_port" where
  "quiet_port = \<lparr>wp_register = (\<lambda>k mo vk w. (Inr (), insert k w)), wp_unregister = (\<lambda>k w. (Inr (), w - {k}))\<rparr>"

lemma quiet_port_obliges: "unregisters (Some quiet_port)" "registers (Some quiet_port)"
  by (simp_all add: unregisters_def registers_def quiet_port_def)

definition demo_binding :: "string \<Rightarrow> nat \<Rightarrow> hotkey_binding" where
  "demo_binding bid vk = \<lparr>hb_id = bid, hb_label = bid, hb_modifiers = 2, hb_vk = vk\<rparr>"

definition demo_hotkeys :: "nat hotkey_manager" where
  "demo_hotkeys = recorded ''clip'' 5 (demo_binding ''b'' 66) (Some 2)
     ((recorded ''notes'' 3 (demo_binding ''a'' 65) (Some 1) (hotkey_new\<lparr>hm_next_os_id := 2, hm_os_map := [1 \<mapsto> 10]\<rparr>))
        \<lparr>hm_next_os_id := 3, hm_os_map := [1 \<mapsto> 10, 2 \<mapsto> 20]\<rparr>)"

lemma demo_combos [simp]: "combo 2 65 = ''00000002+0041''" "combo 2 66 = ''00000002+0042''" "combo 2 67 = ''00000002+0043''"
  by code_simp+

lemma demo_hotkeys_ok: "hotkeys_ok demo_hotkeys"
proof -
  have "hotkeys_ok (recorded ''notes'' 3 (demo_binding ''a'' 65) (Some 1) ((hotkey_new :: nat hotkey_manager)\<lparr>hm_next_os_id := 2, hm_os_map := [1 \<mapsto> 10]\<rparr>))"
    by (rule hotkeys_ok_recorded [OF hotkeys_ok_new, where fire = 10]) (simp_all add: hotkey_new_def demo_binding_def)
  from hotkeys_ok_recorded [OF this, of "demo_binding ''b'' 66" "Some 2" _ 20 "''clip''" 5]
  show ?thesis by (simp add: demo_hotkeys_def recorded_def hotkey_new_def demo_binding_def Let_def fun_upd_twist)
qed

lemma hotkey_priority_decides_witness:
  "case hotkey_register (Some quiet_port) ''ocr'' 1 (demo_binding ''c'' 66) 30 (demo_hotkeys, {1, 2}) of (r, m', w') \<Rightarrow>
     r = Inr () \<and> owner_of 2 66 m' = Some (''ocr'', ''c'')"
  using hotkey_priority_decides [OF demo_hotkeys_ok quiet_port_obliges,
      where module = "''ocr''" and priority = 1 and b = "demo_binding ''c'' 66" and fire = 30 and w = "{1, 2}"]
  by (simp add: demo_hotkeys_def recorded_def hotkey_new_def demo_binding_def Let_def)

section \<open>Failed registrations are not rolled back\<close>

text \<open>A binding that is moved to a combination somebody else holds is lost: the registration answers
  that the new combination is taken, but the binding's old combination was given up before that was
  looked at, so afterwards the binding is registered nowhere and its old combination has no owner.
\<close>

lemma refused_rebind_loses_old:
  assumes "hotkeys_ok m" "unregisters port"
    and "hm_by_id m (hb_id b) = Some old" "hr_combo old \<noteq> combo (hb_modifiers b) (hb_vk b)"
    and "hm_by_combo m (combo (hb_modifiers b) (hb_vk b)) = Some ex" "ho_priority ex \<le> priority"
  shows "case hotkey_register port module priority b fire (m, w) of (r, m', w') \<Rightarrow>
    r = Inl (HotkeyTaken (ho_module ex)) \<and> hm_by_id m' (hb_id b) = None \<and> hm_by_combo m' (hr_combo old) = None
      \<and> (\<forall>k. hr_os_id old = Some k \<longrightarrow> hm_os_map m' k = None)"
proof -
  obtain w' where "hotkey_register port module priority b fire (m, w) = (Inl (HotkeyTaken (ho_module ex)), rebound b m, w')"
    using register_refused [OF assms(1,2,5,6)] .
  then show ?thesis using assms(3,4) by (simp add: rebound_def dropped_def split: option.split)
qed

lemma refused_rebind_loses_old_witness:
  "case hotkey_register (Some quiet_port) ''notes'' 6 (demo_binding ''a'' 66) 10 (demo_hotkeys, {1, 2}) of (r, m', w') \<Rightarrow>
     r = Inl (HotkeyTaken ''clip'') \<and> hm_by_id m' ''a'' = None \<and> hm_by_combo m' ''00000002+0041'' = None
       \<and> hm_os_map m' 1 = None"
  using refused_rebind_loses_old [OF demo_hotkeys_ok quiet_port_obliges(1),
      where b = "demo_binding ''a'' 66" and old = "\<lparr>hr_combo = ''00000002+0041'', hr_os_id = Some 1\<rparr>"
        and ex = "\<lparr>ho_module = ''clip'', ho_priority = 5, ho_binding = demo_binding ''b'' 66\<rparr>" and priority = 6
        and module = "''notes''" and fire = 10 and w = "{1, 2}"]
  by (simp add: demo_hotkeys_def recorded_def hotkey_new_def demo_binding_def Let_def)

text \<open>A takeover the system refuses leaves the combination with no owner: the one displaced is not put back.\<close>

lemma failed_takeover_loses_displaced:
  assumes "hotkeys_ok m" "unregisters port" "port = Some p"
    and ex: "hm_by_combo m (combo (hb_modifiers b) (hb_vk b)) = Some ex" "priority < ho_priority ex"
    and refused: "\<And>k w. isl (fst (wp_register p k (hb_modifiers b) (hb_vk b) w))"
  shows "\<exists>e m' w'. hotkey_register port module priority b fire (m, w) = (Inl (HotkeyOs e), m', w')
    \<and> owner_of (hb_modifiers b) (hb_vk b) m' = None"
proof -
  obtain w1 where reg: "hotkey_register port module priority b fire (m, w) =
    (case os_register port b fire (displaced b m, w1) of
       (Inl e, s3) \<Rightarrow> (Inl e, s3)
     | (Inr slot, m', w2) \<Rightarrow> (Inr (), recorded module priority b slot m', w2))"
    using register_reaches_os [OF assms(1,2), of b priority module fire w] ex by auto
  obtain e w2 where "wp_register p (hm_next_os_id (displaced b m)) (hb_modifiers b) (hb_vk b) w1 = (Inl e, w2)"
    using refused [of "hm_next_os_id (displaced b m)" w1] by (metis prod.collapse isl_def)
  then have "os_register port b fire (displaced b m, w1)
      = (Inl (HotkeyOs e), (displaced b m)\<lparr>hm_next_os_id := hm_next_os_id (displaced b m) + 1\<rparr>, w2)"
    using assms(3) by (simp add: os_register_def Let_def)
  then show ?thesis using reg displaced_free(2) [OF assms(1), of b] by (simp add: owner_of_def)
qed

end
