(* ===== verification/File_Disk.thy ===== *)
theory File_Disk
  imports Win_Path
begin

text \<open>
  The local disk as the file module sees it: files and directories under paths, the answers of the
  operating system to each call as a port, and the conflict rules of
  \<open>crates/file-core/src/conflict.rs\<close>.  A path is the list of its components; the long form the code
  gives a path before a call names the same file and is left out.  A \<open>create_dir_all\<close> that fails
  creates nothing; links and the case of names are not modelled.
\<close>

section \<open>Files and directories\<close>

type_synonym path = "string list"

record disk =
  dk_files :: "path \<Rightarrow> bytes option"
  dk_dirs :: "path \<Rightarrow> bool"

definition dk_exists :: "disk \<Rightarrow> path \<Rightarrow> bool" where
  "dk_exists d p \<longleftrightarrow> dk_files d p \<noteq> None \<or> dk_dirs d p"

definition dk_is_file :: "disk \<Rightarrow> path \<Rightarrow> bool" where
  "dk_is_file d p \<longleftrightarrow> dk_files d p \<noteq> None"

definition dk_content :: "disk \<Rightarrow> path \<Rightarrow> bytes" where
  "dk_content d p = (case dk_files d p of None \<Rightarrow> [] | Some b \<Rightarrow> b)"

definition dk_set :: "path \<Rightarrow> bytes option \<Rightarrow> disk \<Rightarrow> disk" where
  "dk_set p x d = d\<lparr>dk_files := (dk_files d)(p := x)\<rparr>"

lemma dk_set_simps [simp]:
  "dk_files (dk_set p x d) = (dk_files d)(p := x)"
  "dk_dirs (dk_set p x d) = dk_dirs d"
  by (simp_all add: dk_set_def)

text \<open>
  The answers of the operating system.  \<open>dp_walk\<close> lists the files below a directory in the order the
  walk yields them, with whether every entry could be read; \<open>dp_read\<close> bounds a single read at an offset
  (at least one byte while there is one), or fails; \<open>dp_write\<close> gives the bytes written before a failing
  write stops; \<open>dp_keeps\<close> the entries a recursive removal could not remove, which succeeds exactly when
  \<open>dp_rmtree_ok\<close>.
\<close>

record disk_port =
  dp_walk :: "disk \<Rightarrow> path \<Rightarrow> path list \<times> bool"
  dp_open :: "path \<Rightarrow> bool"
  dp_create :: "path \<Rightarrow> bool"
  dp_mkdir :: "path \<Rightarrow> bool"
  dp_remove :: "path \<Rightarrow> bool"
  dp_read :: "path \<Rightarrow> nat \<Rightarrow> nat option"
  dp_write :: "path \<Rightarrow> nat \<Rightarrow> nat option"
  dp_rename :: "disk \<Rightarrow> path \<Rightarrow> path \<Rightarrow> bool"
  dp_keeps :: "path \<Rightarrow> path \<Rightarrow> bool"
  dp_rmtree_ok :: "path \<Rightarrow> bool"
  dp_store_ok :: bool

definition path_parent :: "path \<Rightarrow> path option" where
  "path_parent p = (if p = [] then None else Some (butlast p))"

definition file_name_of :: "path \<Rightarrow> string" where
  "file_name_of p = (if p = [] then [] else last p)"

definition child :: "path \<Rightarrow> string \<Rightarrow> path" where
  "child p n = (if n = [] then p else p @ [n])"

text \<open>Below: \<open>q\<close> is \<open>p\<close> or lies in it.\<close>

definition below :: "path \<Rightarrow> path \<Rightarrow> bool" where
  "below p q \<longleftrightarrow> take (length p) q = p"

lemma below_refl [simp]: "below p p"
  by (simp add: below_def)

lemma below_append [simp]: "below p (p @ r)"
  by (simp add: below_def)

lemma belowE: "below p q \<Longrightarrow> \<exists>r. q = p @ r"
  by (metis append_take_drop_id below_def)

text \<open>\<open>create_dir_all\<close>: every ancestor becomes a directory, unless one is a file.\<close>

definition create_dir_all :: "disk_port \<Rightarrow> path \<Rightarrow> disk \<Rightarrow> disk option" where
  "create_dir_all dp p d =
     (if \<not> dp_mkdir dp p \<or> list_ex (\<lambda>n. dk_is_file d (take n p)) [0..<Suc (length p)] then None
      else Some (d\<lparr>dk_dirs := (\<lambda>q. dk_dirs d q \<or> below q p)\<rparr>))"

definition create_file :: "disk_port \<Rightarrow> path \<Rightarrow> disk \<Rightarrow> disk option" where
  "create_file dp p d = (if \<not> dp_create dp p \<or> dk_dirs d p then None else Some (dk_set p (Some []) d))"

definition open_file :: "disk_port \<Rightarrow> path \<Rightarrow> disk \<Rightarrow> bool" where
  "open_file dp p d \<longleftrightarrow> dp_open dp p \<and> dk_is_file d p"

definition remove_file :: "disk_port \<Rightarrow> path \<Rightarrow> disk \<Rightarrow> disk option" where
  "remove_file dp p d = (if dp_remove dp p \<and> dk_is_file d p then Some (dk_set p None d) else None)"

text \<open>\<open>fs::rename\<close> moves a file or a tree; on Windows it replaces a file that is in the way.\<close>

definition rename_to :: "disk_port \<Rightarrow> path \<Rightarrow> path \<Rightarrow> disk \<Rightarrow> disk option" where
  "rename_to dp p q d =
     (if \<not> dp_rename dp d p q then None
      else Some (d\<lparr>
        dk_files := (\<lambda>x. if below q x then dk_files d (p @ drop (length q) x) else if below p x then None else dk_files d x),
        dk_dirs := (\<lambda>x. if below q x then dk_dirs d (p @ drop (length q) x) else \<not> below p x \<and> dk_dirs d x)\<rparr>))"

definition remove_dir_all :: "disk_port \<Rightarrow> path \<Rightarrow> disk \<Rightarrow> disk" where
  "remove_dir_all dp p d =
     d\<lparr>dk_files := (\<lambda>x. if below p x \<and> (dp_rmtree_ok dp p \<or> \<not> dp_keeps dp p x) then None else dk_files d x),
       dk_dirs := (\<lambda>x. dk_dirs d x \<and> \<not> (below p x \<and> (dp_rmtree_ok dp p \<or> \<not> dp_keeps dp p x)))\<rparr>"

lemma create_dir_all_files [simp]: "create_dir_all dp p d = Some d' \<Longrightarrow> dk_files d' = dk_files d"
  by (auto simp: create_dir_all_def split: if_splits)

section \<open>Conflicts\<close>

datatype conflict_policy = Ask | Skip | Overwrite | Rename

definition numbered_name :: "string \<Rightarrow> nat \<Rightarrow> string" where
  "numbered_name name n =
     (let (stem, ext) = stem_and_ext name
      in stem @ '' ('' @ show_nat n @ '')'' @ (case ext of None \<Rightarrow> '''' | Some e \<Rightarrow> ''.'' @ e))"

definition unique_name :: "nat \<Rightarrow> string \<Rightarrow> (string \<Rightarrow> bool) \<Rightarrow> string" where
  "unique_name millis name existing =
     (if \<not> existing name then name
      else case find (\<lambda>c. \<not> existing c) (map (numbered_name name) [2..<10000]) of
        Some c \<Rightarrow> c
      | None \<Rightarrow> numbered_name name millis)"

definition unique_target :: "nat \<Rightarrow> path \<Rightarrow> disk \<Rightarrow> path" where
  "unique_target millis dst d =
     (if \<not> dk_exists d dst then dst
      else let parent = (case path_parent dst of None \<Rightarrow> [''.''] | Some p \<Rightarrow> p); name = file_name_of dst
      in case find (\<lambda>c. \<not> dk_exists d (parent @ [c])) (map (numbered_name name) [2..<10000]) of
           Some c \<Rightarrow> parent @ [c]
         | None \<Rightarrow> parent @ [numbered_name name millis])"

text \<open>\<open>Inl\<close>: the conflict must be decided first; \<open>None\<close>: leave this file out.\<close>

definition resolve_target :: "nat \<Rightarrow> path \<Rightarrow> conflict_policy \<Rightarrow> disk \<Rightarrow> string + path option" where
  "resolve_target millis dst policy d =
     (case policy of
        Overwrite \<Rightarrow> Inr (Some dst)
      | Skip \<Rightarrow> if dk_exists d dst then Inr None else Inr (Some dst)
      | Rename \<Rightarrow> Inr (Some (unique_target millis dst d))
      | Ask \<Rightarrow> if dk_exists d dst then Inl ''ask'' else Inr (Some dst))"

definition conflict_pairs :: "string list \<Rightarrow> (string \<Rightarrow> bool) \<Rightarrow> path \<Rightarrow> (string \<times> path) list" where
  "conflict_pairs names existing dst = map (\<lambda>n. (n, child dst n)) (filter existing names)"

definition scan_conflicts :: "path list \<Rightarrow> path \<Rightarrow> disk \<Rightarrow> (string \<times> path) list" where
  "scan_conflicts srcs dst_dir d =
     (let names = map last (filter (\<lambda>p. p \<noteq> []) srcs);
          existing = filter (\<lambda>n. dk_exists d (child dst_dir n)) names
      in conflict_pairs names (\<lambda>n. n \<in> set existing) dst_dir)"

text \<open>
  The target a policy gives is free, except that \<open>Overwrite\<close> takes what is there and that \<open>Rename\<close> may
  give up after ten thousand names.
\<close>

definition names_left :: "path \<Rightarrow> disk \<Rightarrow> bool" where
  "names_left dst d \<longleftrightarrow>
     (\<exists>n\<in>{2..<10000}. \<not> dk_exists d ((case path_parent dst of None \<Rightarrow> [''.''] | Some p \<Rightarrow> p) @ [numbered_name (file_name_of dst) n]))"

lemma find_among_numbers:
  assumes "\<exists>n\<in>{a..<b}. P (f n)"
  obtains c where "find P (map f [a..<b]) = Some c" "P c"
proof (cases "find P (map f [a..<b])")
  case None
  then have "\<not> (\<exists>x. x \<in> set (map f [a..<b]) \<and> P x)" by (simp only: find_None_iff) blast
  then show ?thesis using assms by auto
next
  case (Some c)
  then have "P c" by (auto simp: find_Some_iff)
  then show ?thesis using Some that by blast
qed

lemma unique_target_free:
  assumes "names_left dst d"
  shows "\<not> dk_exists d (unique_target millis dst d)"
proof (cases "dk_exists d dst")
  case True
  let ?parent = "case path_parent dst of None \<Rightarrow> [''.''] | Some p \<Rightarrow> p"
  obtain c where "find (\<lambda>c. \<not> dk_exists d (?parent @ [c])) (map (numbered_name (file_name_of dst)) [2..<10000]) = Some c"
    "\<not> dk_exists d (?parent @ [c])"
    using assms unfolding names_left_def by (rule find_among_numbers)
  then show ?thesis using True unfolding unique_target_def Let_def by (simp only: if_False option.case not_True_eq_False simp_thms)
qed (simp add: unique_target_def)

lemma resolve_target_free:
  assumes "resolve_target millis dst policy d = Inr (Some t)" "policy \<noteq> Overwrite"
    and "policy = Rename \<Longrightarrow> names_left dst d"
  shows "\<not> dk_exists d t"
  using assms unique_target_free [of dst d millis]
  by (cases policy) (auto simp: resolve_target_def split: if_splits)

end
