(* ===== verification/File_Ops.thy ===== *)
theory File_Ops
  imports File_Disk
begin

text \<open>
  The operations of the file module on the local disk (\<open>crates/file-core/src/ops.rs\<close>): what an
  operation asks for, its plan of single files, the byte pump with its pause, cancel and resume, copying,
  moving and deleting, and what the worker reports and keeps for a restart.

  What other threads ask for (pause, cancel) is the list of answers that the successive looks at the
  control flags get; after its end the answer is to go on.  The time of a run is one value.
\<close>

section \<open>Operations\<close>

datatype op_kind = Copy | Move | Delete | Compress | Extract
datatype op_state = Queued | Running | Paused | Done | Failed | Canceled
datatype op_endpoint = Local path | Remote string string
datatype transfer_direction = DirLocal | Upload | Download
datatype resumable = Byte | Whole
datatype fix_policy = FixAsk | AutoRename | FixReject

datatype file_error = RemoteMixed nat nat bool | NoSuchOp string | BadState string | FileIo string

record op_spec =
  os_kind :: op_kind
  os_srcs :: "op_endpoint list"
  os_dst :: op_endpoint
  os_policy :: conflict_policy
  os_recycle :: bool
  os_name_fix :: "fix_policy option"
  os_name_overrides :: "(string \<times> string) list"

record checkpoint =
  cp_file_index :: nat
  cp_bytes_done :: nat

record pending_op =
  po_op_id :: string
  po_kind :: op_kind
  po_srcs :: "op_endpoint list"
  po_dst :: op_endpoint
  po_policy :: conflict_policy
  po_recycle :: bool
  po_file_index :: nat
  po_bytes_done :: nat
  po_created_ms :: int
  po_resumed_from :: "string option"
  po_name_fix :: "fix_policy option"
  po_name_overrides :: "(string \<times> string) list"

record op_progress =
  pg_op_id :: string
  pg_kind :: op_kind
  pg_state :: op_state
  pg_current :: string
  pg_files_done :: nat
  pg_files_total :: nat
  pg_bytes_done :: nat
  pg_bytes_total :: nat
  pg_error :: "string option"
  pg_direction :: transfer_direction
  pg_resumable :: "resumable option"
  pg_resumed_from :: "string option"

fun as_local :: "op_endpoint \<Rightarrow> path option" where
  "as_local (Local p) = Some p"
| "as_local (Remote _ _) = None"

definition is_remote :: "op_endpoint \<Rightarrow> bool" where
  "is_remote e \<longleftrightarrow> as_local e = None"

definition direction_of :: "op_endpoint list \<Rightarrow> op_endpoint \<Rightarrow> file_error + transfer_direction" where
  "direction_of srcs dst =
     (let n = length (filter is_remote srcs) in
      if n = 0 then Inr (if is_remote dst then Upload else DirLocal)
      else if n = length srcs \<and> \<not> is_remote dst then Inr Download
      else Inl (RemoteMixed n (length srcs) (is_remote dst)))"

section \<open>The state of a run\<close>

datatype gate = Go | GPause | GCancel
datatype flow = FDone | FPaused | FCanceled | FFailed string

record op_run =
  or_disk :: disk
  or_gates :: "gate list"
  or_rep :: op_progress
  or_emits :: "op_progress list"
  or_store :: "string \<Rightarrow> pending_op option"
  or_now :: int
  or_millis :: nat

definition look :: "op_run \<Rightarrow> gate \<times> op_run" where
  "look r = (case or_gates r of [] \<Rightarrow> (Go, r) | g # gs \<Rightarrow> (g, r\<lparr>or_gates := gs\<rparr>))"

definition emit :: "op_run \<Rightarrow> op_run" where
  "emit r = r\<lparr>or_emits := or_emits r @ [or_rep r]\<rparr>"

definition on_rep :: "(op_progress \<Rightarrow> op_progress) \<Rightarrow> op_run \<Rightarrow> op_run" where
  "on_rep f r = r\<lparr>or_rep := f (or_rep r)\<rparr>"

definition on_disk :: "(disk \<Rightarrow> disk) \<Rightarrow> op_run \<Rightarrow> op_run" where
  "on_disk f r = r\<lparr>or_disk := f (or_disk r)\<rparr>"

text \<open>\<open>persist_pending\<close> writes a record under the operation's identifier; the pump ignores a failure.\<close>

definition persist_pending :: "disk_port \<Rightarrow> pending_op \<Rightarrow> op_run \<Rightarrow> op_run" where
  "persist_pending dp p r = (if dp_store_ok dp then r\<lparr>or_store := (or_store r)(po_op_id p \<mapsto> p)\<rparr> else r)"

definition pending_of :: "op_spec \<Rightarrow> string \<Rightarrow> string option \<Rightarrow> int \<Rightarrow> nat \<Rightarrow> nat \<Rightarrow> pending_op" where
  "pending_of spec op_id resumed_from now index bytes =
     \<lparr>po_op_id = op_id, po_kind = os_kind spec, po_srcs = os_srcs spec, po_dst = os_dst spec,
      po_policy = os_policy spec, po_recycle = os_recycle spec, po_file_index = index, po_bytes_done = bytes,
      po_created_ms = now, po_resumed_from = resumed_from, po_name_fix = os_name_fix spec,
      po_name_overrides = os_name_overrides spec\<rparr>"

section \<open>The byte pump\<close>

definition op_chunk :: nat where "op_chunk = 4 * 1024 * 1024"
definition checkpoint_every :: nat where "checkpoint_every = 64 * 1024 * 1024"

text \<open>\<open>read_chunk\<close>: single reads until the buffer is full or the file ends.\<close>

function read_chunk :: "(nat \<Rightarrow> nat option) \<Rightarrow> bytes \<Rightarrow> nat \<Rightarrow> nat \<Rightarrow> bytes \<Rightarrow> string + bytes" where
  "read_chunk rd data off room acc =
     (if room = 0 \<or> length data \<le> off then Inr acc
      else case rd off of
        None \<Rightarrow> Inl ''read''
      | Some k \<Rightarrow>
          let n = min (Suc k) (min room (length data - off))
          in read_chunk rd data (off + n) (room - n) (acc @ take n (drop off data)))"
  by pat_completeness auto
termination by (relation "measure (\<lambda>(rd, data, off, room, acc). room)") auto

declare read_chunk.simps [simp del]

lemma read_chunk_all:
  "read_chunk rd data off room acc = Inr bs \<Longrightarrow> bs = acc @ take room (drop off data)"
proof (induction rd data off room acc rule: read_chunk.induct)
  case (1 rd data off room acc)
  show ?case
  proof (cases "room = 0 \<or> length data \<le> off")
    case False
    then obtain k where k: "rd off = Some k" using 1(2) by (subst (asm) read_chunk.simps) (auto split: option.splits)
    let ?n = "min (Suc k) (min room (length data - off))"
    have "read_chunk rd data (off + ?n) (room - ?n) (acc @ take ?n (drop off data)) = Inr bs"
      using 1(2) False k by (subst (asm) read_chunk.simps) (simp add: Let_def)
    from 1(1) [OF False k refl this]
    have "bs = acc @ take ?n (drop off data) @ take (room - ?n) (drop (off + ?n) data)" by simp
    moreover have "take ?n (drop off data) @ take (room - ?n) (drop (off + ?n) data) = take room (drop off data)"
      using take_add [of ?n "room - ?n" "drop off data"] by (simp add: add.commute)
    ultimately show ?thesis by simp
  qed (use 1(2) in \<open>auto simp: read_chunk.simps [of rd data off room acc]\<close>)
qed

lemma read_chunk_total:
  "(\<And>k. rd k \<noteq> None) \<Longrightarrow> \<exists>bs. read_chunk rd data off room acc = Inr bs"
proof (induction rd data off room acc rule: read_chunk.induct)
  case (1 rd data off room acc)
  show ?case
  proof (cases "room = 0 \<or> length data \<le> off")
    case False
    then obtain k where "rd off = Some k" using 1(2) [of off] by blast
    then show ?thesis
      using 1(1) [OF False _ refl 1(2)] False by (subst read_chunk.simps) (simp add: Let_def)
  qed (simp add: read_chunk.simps [of rd data off room acc])
qed

lemma read_chunk_healthy:
  assumes "\<And>k. rd k \<noteq> None"
  shows "read_chunk rd data off room [] = Inr (take room (drop off data))"
  using read_chunk_total [of rd data off room "[]"] read_chunk_all [of rd data off room "[]"] assms by fastforce

lemma write_back_same:
  "off + length bs \<le> length d \<Longrightarrow> bs = take (length bs) (drop off d) \<Longrightarrow> write_at off bs d = d"
  by (simp add: write_at_def) (metis append_take_drop_id drop_drop add.commute)

text \<open>
  The pump over two local files, from \<open>written\<close> bytes on, with the last offset a checkpoint was kept
  for.  \<open>mk\<close> is the record to keep for an offset.
\<close>

function copy_pumped ::
    "disk_port \<Rightarrow> path \<Rightarrow> path \<Rightarrow> (nat \<Rightarrow> pending_op) \<Rightarrow> nat \<Rightarrow> nat \<Rightarrow> op_run \<Rightarrow> flow \<times> op_run" where
  "copy_pumped dp src dst mk written last_ckpt r =
     (case look r of
        (GPause, r1) \<Rightarrow> (FPaused, persist_pending dp (mk written) r1)
      | (GCancel, r1) \<Rightarrow> (FCanceled, on_disk (\<lambda>d. case remove_file dp dst d of None \<Rightarrow> d | Some d' \<Rightarrow> d') r1)
      | (Go, r1) \<Rightarrow>
          (case read_chunk (dp_read dp src) (dk_content (or_disk r1) src) written op_chunk [] of
             Inl e \<Rightarrow> (FFailed e, r1)
           | Inr bs \<Rightarrow>
               if bs = [] then (FDone, r1)
               else case dp_write dp dst written of
                 Some k \<Rightarrow>
                   (FFailed ''write'', on_disk (\<lambda>d. dk_set dst (Some (write_at written (take k bs) (dk_content d dst))) d) r1)
               | None \<Rightarrow>
                   let r2 = emit (on_rep (\<lambda>g. g\<lparr>pg_bytes_done := pg_bytes_done g + length bs\<rparr>)
                       (on_disk (\<lambda>d. dk_set dst (Some (write_at written bs (dk_content d dst))) d) r1));
                     w = written + length bs
                   in if checkpoint_every \<le> w - last_ckpt
                      then copy_pumped dp src dst mk w w (persist_pending dp (mk w) r2)
                      else copy_pumped dp src dst mk w last_ckpt r2))"
  by pat_completeness auto

lemma look_disk: "look r = (g, r1) \<Longrightarrow> or_disk r1 = or_disk r"
  by (auto simp: look_def split: list.splits)

lemma run_simps [simp]:
  "or_disk (emit r) = or_disk r" "or_rep (emit r) = or_rep r" "or_gates (emit r) = or_gates r"
  "or_store (emit r) = or_store r" "or_now (emit r) = or_now r" "or_millis (emit r) = or_millis r"
  "or_disk (on_rep f r) = or_disk r" "or_rep (on_rep f r) = f (or_rep r)" "or_gates (on_rep f r) = or_gates r"
  "or_store (on_rep f r) = or_store r" "or_now (on_rep f r) = or_now r" "or_millis (on_rep f r) = or_millis r"
  "or_disk (on_disk h r) = h (or_disk r)" "or_rep (on_disk h r) = or_rep r" "or_gates (on_disk h r) = or_gates r"
  "or_store (on_disk h r) = or_store r" "or_now (on_disk h r) = or_now r" "or_millis (on_disk h r) = or_millis r"
  "or_disk (persist_pending dp p r) = or_disk r" "or_rep (persist_pending dp p r) = or_rep r"
  "or_gates (persist_pending dp p r) = or_gates r" "or_now (persist_pending dp p r) = or_now r"
  "or_millis (persist_pending dp p r) = or_millis r"
  by (simp_all add: emit_def on_rep_def on_disk_def persist_pending_def)

lemma pump_source_kept:
  assumes "read_chunk rd (dk_content d src) written n [] = Inr bs" "bs \<noteq> []"
  shows "dk_content (dk_set dst (Some (write_at written bs (dk_content d dst))) d) src = dk_content d src"
    and "written + length bs \<le> length (dk_content d src)"
proof -
  have bs: "bs = take n (drop written (dk_content d src))" using read_chunk_all [OF assms(1)] by simp
  then show l: "written + length bs \<le> length (dk_content d src)" using assms(2) by (cases "written \<le> length (dk_content d src)") auto
  have "write_at written bs (dk_content d src) = dk_content d src"
    using l by (intro write_back_same) (simp_all add: bs min_def)
  then show "dk_content (dk_set dst (Some (write_at written bs (dk_content d dst))) d) src = dk_content d src"
    by (auto simp: dk_content_def)
qed

lemma pump_decreases:
  assumes "(Go, ra) = look r" "read_chunk rd (dk_content (or_disk ra) src) written n [] = Inr bs" "bs \<noteq> []"
    and "or_disk rb = dk_set dst (Some (write_at written bs (dk_content (or_disk ra) dst))) (or_disk ra)"
  shows "length (dk_content (or_disk rb) src) - (written + length bs) < length (dk_content (or_disk r) src) - written"
proof -
  have "dk_content (or_disk rb) src = dk_content (or_disk r) src"
    using pump_source_kept(1) [OF assms(2,3), of dst] unfolding assms(4) look_disk [OF assms(1) [symmetric]] .
  moreover have "written + length bs \<le> length (dk_content (or_disk r) src)"
    using pump_source_kept(2) [OF assms(2,3)] unfolding look_disk [OF assms(1) [symmetric]] .
  moreover have "0 < length bs" using assms(3) by simp
  ultimately show ?thesis by (simp del: length_greater_0_conv)
qed

termination copy_pumped
proof (relation "measure (\<lambda>(dp, src, dst, mk, written, last_ckpt, r). length (dk_content (or_disk r) src) - written)", goal_cases)
  case (2 dp src dst mk written last_ckpt r x r1 bs r2 w)
  then show ?case using pump_decreases [where r = r and ra = r1 and rd = "dp_read dp src" and src = src and bs = bs and rb = r2 and dst = dst] by simp
next
  case (3 dp src dst mk written last_ckpt r x r1 bs r2 w)
  then show ?case using pump_decreases [where r = r and ra = r1 and rd = "dp_read dp src" and src = src and bs = bs and rb = r2 and dst = dst] by simp
qed simp

declare copy_pumped.simps [simp del]

text \<open>What the pump leaves, whatever happens: only the target changes, and never the source.\<close>

lemma pump_elsewhere:
  "q \<noteq> dst \<Longrightarrow> dk_files (or_disk (snd (copy_pumped dp src dst mk written last_ckpt r))) q = dk_files (or_disk r) q"
proof (induction dp src dst mk written last_ckpt r rule: copy_pumped.induct)
  case (1 dp src dst mk written last_ckpt r)
  obtain g r1 where l: "look r = (g, r1)" by (cases "look r")
  have d: "or_disk r1 = or_disk r" using look_disk [OF l] .
  show ?case
  proof (cases g)
    case Go
    show ?thesis
    proof (cases "read_chunk (dp_read dp src) (dk_content (or_disk r1) src) written op_chunk []")
      case (Inl e)
      then show ?thesis using l Go d by (subst copy_pumped.simps) simp
    next
      case (Inr bs)
      show ?thesis
      proof (cases "bs = [] \<or> dp_write dp dst written \<noteq> None")
        case True
        then show ?thesis using l Go d Inr 1(3) by (subst copy_pumped.simps) auto
      next
        case False
        then show ?thesis
          using l Go d Inr 1(1) [OF l [symmetric] Go Inr _ _ refl refl] 1(2) [OF l [symmetric] Go Inr _ _ refl refl] 1(3)
          by (subst copy_pumped.simps) (simp add: Let_def)
      qed
    qed
  qed (use l d 1(3) in \<open>subst copy_pumped.simps, simp add: remove_file_def\<close>)+
qed

section \<open>Copying one file\<close>

record copy_item =
  ci_src :: path
  ci_dst :: path
  ci_size :: nat

definition copy_one ::
    "disk_port \<Rightarrow> op_spec \<Rightarrow> copy_item \<Rightarrow> path \<Rightarrow> nat \<Rightarrow> nat \<Rightarrow> op_run \<Rightarrow> flow \<times> op_run" where
  "copy_one dp spec item dst bytes_done file_index r =
     (if \<not> open_file dp (ci_src item) (or_disk r) then (FFailed ''open'', r)
      else
        let again = (0 < bytes_done \<and> dk_exists (or_disk r) dst \<and> length (dk_content (or_disk r) dst) = bytes_done);
            start = (if again then bytes_done else 0);
            mk = pending_of spec (pg_op_id (or_rep r)) (pg_resumed_from (or_rep r)) (or_now r) file_index
        in case (if again then (if open_file dp dst (or_disk r) then Some (or_disk r) else None)
                 else create_file dp dst (or_disk r)) of
             None \<Rightarrow> (FFailed ''create'', r)
           | Some d1 \<Rightarrow>
               (case copy_pumped dp (ci_src item) dst mk start start (on_disk (\<lambda>_. d1) r) of
                  (FDone, r2) \<Rightarrow>
                    if dk_files (or_disk r2) dst = None then (FFailed ''metadata'', r2)
                    else if length (dk_content (or_disk r2) dst) \<noteq> ci_size item then (FFailed ''size'', r2)
                    else (FDone, r2)
                | (f, r2) \<Rightarrow> (f, r2)))"

section \<open>The plan\<close>

definition target_for :: "disk \<Rightarrow> path \<Rightarrow> path \<Rightarrow> path" where
  "target_for d src dst = (if dk_dirs d dst then child dst (file_name_of src) else dst)"

definition item_of :: "disk \<Rightarrow> path \<Rightarrow> path \<Rightarrow> copy_item" where
  "item_of d src dst = \<lparr>ci_src = src, ci_dst = dst, ci_size = length (dk_content d src)\<rparr>"

text \<open>A directory keeps its name below an existing target; otherwise its files go right into the target.\<close>

definition expand_source :: "disk_port \<Rightarrow> disk \<Rightarrow> path \<Rightarrow> path \<Rightarrow> string + copy_item list" where
  "expand_source dp d src dst =
     (if dk_dirs d src then
        if dk_is_file d dst then Inl ''target is a file''
        else
          let base = (if dk_dirs d dst then path_parent src else Some src); (files, readable) = dp_walk dp d src
          in if \<not> readable then Inl ''walk''
             else case base of
               None \<Rightarrow> if files = [] then Inr [] else Inl ''prefix''
             | Some b \<Rightarrow> Inr (map (\<lambda>q. item_of d q (dst @ drop (length b) q)) files)
      else if dk_is_file d src then Inr [item_of d src (target_for d src dst)]
      else Inl ''missing'')"

fun expand_sources :: "disk_port \<Rightarrow> disk \<Rightarrow> op_endpoint list \<Rightarrow> path \<Rightarrow> string + copy_item list" where
  "expand_sources dp d [] dst = Inr []"
| "expand_sources dp d (e # es) dst =
     (case as_local e of
        None \<Rightarrow> Inl ''remote''
      | Some src \<Rightarrow>
          res_bind (expand_source dp d src dst) (\<lambda>is.
            res_bind (expand_sources dp d es dst) (\<lambda>js. Inr (is @ js))))"

definition expand_plan :: "disk_port \<Rightarrow> disk \<Rightarrow> op_spec \<Rightarrow> string + copy_item list" where
  "expand_plan dp d spec =
     (case as_local (os_dst spec) of
        None \<Rightarrow> Inl ''remote''
      | Some dst \<Rightarrow> expand_sources dp d (os_srcs spec) dst)"

section \<open>Copying and moving\<close>

definition make_parent :: "disk_port \<Rightarrow> path \<Rightarrow> disk \<Rightarrow> disk option" where
  "make_parent dp p d = (case path_parent p of None \<Rightarrow> Some d | Some q \<Rightarrow> create_dir_all dp q d)"

text \<open>The shortcut of a move with one source: rename, and done.  A failed rename leaves the new parent.\<close>

definition try_rename :: "disk_port \<Rightarrow> path \<Rightarrow> path \<Rightarrow> op_run \<Rightarrow> bool \<times> op_run" where
  "try_rename dp src dst r =
     (let t = target_for (or_disk r) src dst;
          d1 = (case make_parent dp t (or_disk r) of None \<Rightarrow> or_disk r | Some d \<Rightarrow> d)
      in case rename_to dp src t d1 of
           None \<Rightarrow> (False, on_disk (\<lambda>_. d1) r)
         | Some d2 \<Rightarrow>
             (True, emit (on_rep (\<lambda>g. g\<lparr>pg_files_done := 1, pg_bytes_done := pg_bytes_total g\<rparr>) (on_disk (\<lambda>_. d2) r))))"

definition move_shortcut :: "disk_port \<Rightarrow> op_spec \<Rightarrow> checkpoint option \<Rightarrow> op_run \<Rightarrow> bool \<times> op_run" where
  "move_shortcut dp spec ckpt r =
     (case (os_kind spec, os_srcs spec, ckpt) of
        (Move, [s], None) \<Rightarrow>
          (case (as_local s, as_local (os_dst spec)) of
             (Some src, Some dst) \<Rightarrow> try_rename dp src dst r
           | _ \<Rightarrow> (False, r))
      | _ \<Rightarrow> (False, r))"

fun copy_items ::
    "disk_port \<Rightarrow> op_spec \<Rightarrow> nat \<Rightarrow> nat \<Rightarrow> copy_item list \<Rightarrow> nat \<Rightarrow> op_run \<Rightarrow> flow \<times> op_run" where
  "copy_items dp spec start_index start_bytes [] idx r = (FDone, r)"
| "copy_items dp spec start_index start_bytes (item # items) idx r =
     (if idx < start_index then
        copy_items dp spec start_index start_bytes items (idx + 1)
          (on_rep (\<lambda>g. g\<lparr>pg_files_done := pg_files_done g + 1\<rparr>) r)
      else case look r of
        (GPause, r1) \<Rightarrow> (FPaused, r1)
      | (GCancel, r1) \<Rightarrow> (FCanceled, r1)
      | (Go, r1) \<Rightarrow>
          (case make_parent dp (ci_dst item) (or_disk r1) of
             None \<Rightarrow> (FFailed ''mkdir'', r1)
           | Some d1 \<Rightarrow>
               let r2 = on_disk (\<lambda>_. d1) r1 in
               (case resolve_target (or_millis r2) (ci_dst item) (os_policy spec) d1 of
                  Inl e \<Rightarrow> (FFailed e, r2)
                | Inr None \<Rightarrow>
                    copy_items dp spec start_index start_bytes items (idx + 1)
                      (emit (on_rep (\<lambda>g. g\<lparr>pg_files_done := pg_files_done g + 1,
                          pg_bytes_done := pg_bytes_done g + ci_size item\<rparr>) r2))
                | Inr (Some t) \<Rightarrow>
                    let r3 = on_rep (\<lambda>g. g\<lparr>pg_current := file_name_of (ci_src item)\<rparr>) r2;
                        done = (if idx = start_index then min start_bytes (ci_size item) else 0)
                    in case copy_one dp spec item t done idx r3 of
                         (FDone, r4) \<Rightarrow>
                           let r5 = on_rep (\<lambda>g. g\<lparr>pg_files_done := pg_files_done g + 1\<rparr>) r4 in
                           if os_kind spec = Move then
                             (case remove_file dp (ci_src item) (or_disk r5) of
                                None \<Rightarrow> (FFailed ''remove'', r5)
                              | Some d5 \<Rightarrow> copy_items dp spec start_index start_bytes items (idx + 1) (emit (on_disk (\<lambda>_. d5) r5)))
                           else copy_items dp spec start_index start_bytes items (idx + 1) (emit r5)
                       | (f, r4) \<Rightarrow> (f, r4))))"

text \<open>What a finished move does to its sources.\<close>

fun sweep_sources :: "disk_port \<Rightarrow> op_endpoint list \<Rightarrow> disk \<Rightarrow> disk" where
  "sweep_sources dp [] d = d"
| "sweep_sources dp (e # es) d =
     sweep_sources dp es (case as_local e of
        None \<Rightarrow> d
      | Some p \<Rightarrow> if dk_dirs d p then remove_dir_all dp p d else d)"

definition run_copy_move :: "disk_port \<Rightarrow> op_spec \<Rightarrow> checkpoint option \<Rightarrow> op_run \<Rightarrow> flow \<times> op_run" where
  "run_copy_move dp spec ckpt r =
     (case expand_plan dp (or_disk r) spec of
        Inl e \<Rightarrow> (FFailed e, r)
      | Inr items \<Rightarrow>
          let r1 = on_rep (\<lambda>g. g\<lparr>pg_files_total := length items, pg_bytes_total := sum_list (map ci_size items)\<rparr>) r;
              (moved, r2) = move_shortcut dp spec ckpt r1
          in if moved then (FDone, r2)
             else
               let start_index = (case ckpt of None \<Rightarrow> 0 | Some c \<Rightarrow> min (cp_file_index c) (length items));
                   start_bytes = (case ckpt of None \<Rightarrow> 0 | Some c \<Rightarrow> cp_bytes_done c);
                   r3 = on_rep (\<lambda>g. g\<lparr>pg_bytes_done := max start_bytes (sum_list (map ci_size (take start_index items)))\<rparr>) r2
               in case copy_items dp spec start_index start_bytes items 0 r3 of
                    (FDone, r4) \<Rightarrow>
                      (FDone, if os_kind spec = Move then on_disk (sweep_sources dp (os_srcs spec)) r4 else r4)
                  | (f, r4) \<Rightarrow> (f, r4))"

section \<open>Deleting\<close>

fun locals :: "op_endpoint list \<Rightarrow> path list option" where
  "locals [] = Some []"
| "locals (e # es) =
     (case (as_local e, locals es) of (Some p, Some ps) \<Rightarrow> Some (p # ps) | _ \<Rightarrow> None)"

text \<open>Only the files of directories are counted: for a file the walk starts at its parent and goes no deeper.\<close>

definition counted :: "disk_port \<Rightarrow> disk \<Rightarrow> path \<Rightarrow> path list" where
  "counted dp d src = (if dk_dirs d src then fst (dp_walk dp d src) else [])"

fun delete_each :: "disk_port \<Rightarrow> path list \<Rightarrow> op_run \<Rightarrow> flow \<times> op_run" where
  "delete_each dp [] r = (FDone, r)"
| "delete_each dp (p # ps) r =
     (case look r of
        (GPause, r1) \<Rightarrow> (FPaused, r1)
      | (GCancel, r1) \<Rightarrow> (FCanceled, r1)
      | (Go, r1) \<Rightarrow>
          let r2 = on_rep (\<lambda>g. g\<lparr>pg_current := file_name_of p\<rparr>) r1; d = or_disk r2;
              (ok, d') =
                (if dk_dirs d p then (dp_rmtree_ok dp p, remove_dir_all dp p d)
                 else if dk_is_file d p then
                   (case remove_file dp p d of None \<Rightarrow> (False, d) | Some d1 \<Rightarrow> (True, d1))
                 else (True, d));
              r3 = on_disk (\<lambda>_. d') r2
          in if \<not> ok then (FFailed ''delete'', r3)
             else delete_each dp ps (emit (on_rep (\<lambda>g. g\<lparr>pg_files_done := pg_files_done g + 1\<rparr>) r3)))"

text \<open>The recycle bin takes all sources at once; when it fails the code falls back to deleting for good.\<close>

definition run_delete ::
    "disk_port \<Rightarrow> op_spec \<Rightarrow> (path list \<Rightarrow> disk \<Rightarrow> bool \<times> disk) option \<Rightarrow> op_run \<Rightarrow> flow \<times> op_run" where
  "run_delete dp spec recycle r =
     (case locals (os_srcs spec) of
        None \<Rightarrow> (FFailed ''remote'', r)
      | Some srcs \<Rightarrow>
          let files = concat (map (counted dp (or_disk r)) srcs);
              bytes = sum_list (map (\<lambda>q. length (dk_content (or_disk r) q)) files);
              r1 = on_rep (\<lambda>g. g\<lparr>pg_files_total := length files, pg_bytes_total := bytes\<rparr>) r
          in case (if os_recycle spec then recycle else None) of
               None \<Rightarrow> delete_each dp srcs r1
             | Some port \<Rightarrow>
                 (case port srcs (or_disk r1) of
                    (True, d') \<Rightarrow>
                      (FDone, emit (on_rep (\<lambda>g. g\<lparr>pg_files_done := length files, pg_bytes_done := bytes\<rparr>) (on_disk (\<lambda>_. d') r1)))
                  | (False, d') \<Rightarrow> delete_each dp srcs (on_disk (\<lambda>_. d') r1)))"

end
