(* ===== verification/File_Copy.thy ===== *)
theory File_Copy
  imports File_Ops
begin

text \<open>
  What copying and moving do to the disk: which files a copy leaves alone whatever happens, what a run on
  a healthy disk delivers, that a copy paused and resumed delivers the same, and where moving and
  resuming lose data.
\<close>

section \<open>Files a copy leaves alone\<close>

text \<open>The target as the pump finds it: reopened at the recorded length, or new and empty.\<close>

definition reopened :: "nat \<Rightarrow> path \<Rightarrow> disk \<Rightarrow> bool" where
  "reopened n t d \<longleftrightarrow> 0 < n \<and> dk_exists d t \<and> length (dk_content d t) = n"

definition open_target :: "disk_port \<Rightarrow> nat \<Rightarrow> path \<Rightarrow> disk \<Rightarrow> disk option" where
  "open_target dp n t d =
     (if reopened n t d then (if open_file dp t d then Some d else None) else create_file dp t d)"

lemma copy_one_steps:
  "copy_one dp spec item t n idx r =
     (if \<not> open_file dp (ci_src item) (or_disk r) then (FFailed ''open'', r)
      else case open_target dp n t (or_disk r) of
        None \<Rightarrow> (FFailed ''create'', r)
      | Some d1 \<Rightarrow>
          let start = (if reopened n t (or_disk r) then n else 0);
              (f, r2) = copy_pumped dp (ci_src item) t
                (pending_of spec (pg_op_id (or_rep r)) (pg_resumed_from (or_rep r)) (or_now r) idx) start start (on_disk (\<lambda>_. d1) r)
          in if f \<noteq> FDone then (f, r2)
             else if dk_files (or_disk r2) t = None then (FFailed ''metadata'', r2)
             else if length (dk_content (or_disk r2) t) \<noteq> ci_size item then (FFailed ''size'', r2)
             else (FDone, r2))"
  by (simp add: copy_one_def open_target_def reopened_def Let_def split: option.split flow.split prod.split)

lemma open_target_elsewhere: "open_target dp n t d = Some d1 \<Longrightarrow> q \<noteq> t \<Longrightarrow> dk_files d1 q = dk_files d q"
  by (auto simp: open_target_def create_file_def split: if_splits)

lemma copy_one_elsewhere:
  assumes "q \<noteq> t"
  shows "dk_files (or_disk (snd (copy_one dp spec item t n idx r))) q = dk_files (or_disk r) q"
proof (cases "open_target dp n t (or_disk r)")
  case (Some d1)
  have "dk_files (or_disk (snd (copy_pumped dp src t mk w l (on_disk (\<lambda>_. d1) r)))) q = dk_files (or_disk r) q" for src mk w l
    using pump_elsewhere [OF assms, of dp src mk w l "on_disk (\<lambda>_. d1) r"] open_target_elsewhere [OF Some assms] by simp
  then show ?thesis using Some by (simp add: copy_one_steps Let_def split_beta)
qed (simp add: copy_one_steps)

lemma make_parent_files: "make_parent dp p d = Some d' \<Longrightarrow> dk_files d' = dk_files d"
  by (auto simp: make_parent_def split: option.splits)

lemma resolved_target_new:
  assumes "resolve_target millis dst policy d = Inr (Some t)" "policy = Skip \<or> policy = Ask"
  shows "\<not> dk_exists d t"
  using assms by (auto simp: resolve_target_def split: if_splits)

lemma copy_items_keeps:
  assumes "os_kind spec = Copy" "os_policy spec = Skip \<or> os_policy spec = Ask"
  shows "dk_files (or_disk r) q = Some b \<Longrightarrow> dk_files (or_disk (snd (copy_items dp spec si sb items idx r))) q = Some b"
proof (induction items arbitrary: idx r)
  case (Cons item items)
  obtain g r1 where l: "look r = (g, r1)" by (cases "look r")
  have q1: "dk_files (or_disk r1) q = Some b" using look_disk [OF l] Cons(2) by simp
  show ?case
  proof (cases "idx < si \<or> g \<noteq> Go \<or> make_parent dp (ci_dst item) (or_disk r1) = None")
    case True
    then show ?thesis
      using Cons(1) [of "on_rep (\<lambda>g. g\<lparr>pg_files_done := pg_files_done g + 1\<rparr>) r" "idx + 1"] Cons(2) l q1
      by (cases g) auto
  next
    case False
    then obtain d1 where d1: "make_parent dp (ci_dst item) (or_disk r1) = Some d1" "\<not> idx < si" "g = Go" by blast
    have qd: "dk_files d1 q = Some b" using make_parent_files [OF d1(1)] q1 by simp
    show ?thesis
    proof (cases "resolve_target (or_millis r1) (ci_dst item) (os_policy spec) d1")
      case (Inr x)
      show ?thesis
      proof (cases x)
        case (Some t)
        have "q \<noteq> t" using resolved_target_new [of "or_millis r1" "ci_dst item" "os_policy spec" d1 t] Inr Some assms(2) qd by (auto simp: dk_exists_def)
        define r3 where "r3 = on_rep (\<lambda>g. g\<lparr>pg_current := file_name_of (ci_src item)\<rparr>) (on_disk (\<lambda>_. d1) r1)"
        define n where "n = (if idx = si then min sb (ci_size item) else 0)"
        obtain f r4 where c: "copy_one dp spec item t n idx r3 = (f, r4)" by (cases "copy_one dp spec item t n idx r3")
        then have "dk_files (or_disk r4) q = Some b"
          using copy_one_elsewhere [OF \<open>q \<noteq> t\<close>, of dp spec item n idx r3] qd by (simp add: r3_def)
        then have "dk_files (or_disk (snd (copy_items dp spec si sb items (idx + 1)
            (emit (on_rep (\<lambda>g. g\<lparr>pg_files_done := pg_files_done g + 1\<rparr>) r4))))) q = Some b"
          using Cons(1) by simp
        then show ?thesis
          using l d1 Inr Some c assms(1) \<open>dk_files (or_disk r4) q = Some b\<close>
          by (cases f) (simp_all add: r3_def [symmetric] n_def [symmetric] Let_def)
      next
        case None
        then show ?thesis using l d1 Inr Cons(1) qd by (simp add: Let_def)
      qed
    qed (use l d1 qd in \<open>simp add: Let_def\<close>)
  qed
qed simp

lemma move_shortcut_copy: "os_kind spec \<noteq> Move \<Longrightarrow> move_shortcut dp spec ckpt r = (False, r)"
  by (auto simp: move_shortcut_def split: op_kind.split)

text \<open>C13. A copy that must not overwrite never changes a file that was there: under the policies that skip
  or ask, whatever the system answers to each call, whenever the copy is paused or cancelled, and
  however it ends, every file that existed at the start still has its content.
\<close>

theorem copy_keeps_existing:
  assumes "os_kind spec = Copy" "os_policy spec = Skip \<or> os_policy spec = Ask"
    and "dk_files (or_disk r) q = Some b"
  shows "dk_files (or_disk (snd (run_copy_move dp spec ckpt r))) q = Some b"
proof (cases "expand_plan dp (or_disk r) spec")
  case (Inr items)
  define r1 where "r1 = on_rep (\<lambda>g. g\<lparr>pg_files_total := length items, pg_bytes_total := sum_list (map ci_size items)\<rparr>) r"
  define si where "si = (case ckpt of None \<Rightarrow> 0 | Some c \<Rightarrow> min (cp_file_index c) (length items))"
  define sb where "sb = (case ckpt of None \<Rightarrow> 0 | Some c \<Rightarrow> cp_bytes_done c)"
  define r3 where "r3 = on_rep (\<lambda>g. g\<lparr>pg_bytes_done := max sb (sum_list (map ci_size (take si items)))\<rparr>) r1"
  have "dk_files (or_disk r3) q = Some b" using assms(3) by (simp add: r3_def r1_def)
  from copy_items_keeps [OF assms(1,2) this, of dp si sb items 0]
  show ?thesis
    using Inr assms(1)
    by (cases "copy_items dp spec si sb items 0 r3"; cases "fst (copy_items dp spec si sb items 0 r3)")
      (simp_all add: run_copy_move_def move_shortcut_copy Let_def r1_def [symmetric] si_def [symmetric] sb_def [symmetric] r3_def [symmetric])
qed (simp add: run_copy_move_def assms)

section \<open>The pump on a healthy disk\<close>

definition sound_port :: "disk_port \<Rightarrow> bool" where
  "sound_port dp \<longleftrightarrow>
     (\<forall>p. dp_open dp p \<and> dp_create dp p \<and> dp_mkdir dp p \<and> dp_remove dp p \<and> dp_rmtree_ok dp p)
     \<and> (\<forall>p k. dp_read dp p k \<noteq> None \<and> dp_write dp p k = None) \<and> dp_store_ok dp"

lemma sound_portD:
  assumes "sound_port dp"
  shows "dp_open dp p" "dp_create dp p" "dp_mkdir dp p" "dp_remove dp p" "dp_rmtree_ok dp p"
    "dp_read dp p k \<noteq> None" "dp_write dp p k = None" "dp_store_ok dp"
  using assms by (simp_all add: sound_port_def)

text \<open>
  How a run of the pump towards \<open>t\<close> ends when the file to come is \<open>X\<close>: complete, paused with a prefix of
  it and a record of its length, or cancelled with the target gone.
\<close>

definition pump_end :: "bytes \<Rightarrow> path \<Rightarrow> (nat \<Rightarrow> pending_op) \<Rightarrow> string \<Rightarrow> nat \<Rightarrow> op_run \<Rightarrow> flow \<Rightarrow> op_run \<Rightarrow> bool" where
  "pump_end X t mk oid written r f r' \<longleftrightarrow>
     (\<exists>w. written \<le> w \<and> w \<le> length X
        \<and> (f = FDone \<and> w = length X \<and> or_disk r' = dk_set t (Some X) (or_disk r)
           \<or> f = FPaused \<and> or_disk r' = dk_set t (Some (take w X)) (or_disk r) \<and> or_store r' oid = Some (mk w)
           \<or> f = FCanceled \<and> or_disk r' = dk_set t None (or_disk r))
        \<and> (f \<noteq> FCanceled \<longrightarrow> or_rep r' = (or_rep r)\<lparr>pg_bytes_done := pg_bytes_done (or_rep r) + (w - written)\<rparr>))
     \<and> (or_store r' oid = or_store r oid \<or> (\<exists>w. or_store r' oid = Some (mk w)))
     \<and> (\<forall>i. i \<noteq> oid \<longrightarrow> or_store r' i = or_store r i)
     \<and> or_now r' = or_now r \<and> or_millis r' = or_millis r
     \<and> pg_op_id (or_rep r') = pg_op_id (or_rep r) \<and> pg_resumed_from (or_rep r') = pg_resumed_from (or_rep r)
     \<and> (or_gates r = [] \<longrightarrow> f = FDone \<and> or_gates r' = [])"

lemma look_fields:
  assumes "look r = (g, r1)"
  shows "or_disk r1 = or_disk r" "or_rep r1 = or_rep r" "or_store r1 = or_store r" "or_now r1 = or_now r"
    "or_millis r1 = or_millis r" "or_emits r1 = or_emits r" "or_gates r = [] \<Longrightarrow> g = Go \<and> r1 = r"
  using assms by (auto simp: look_def split: list.splits)

lemma write_prefix:
  "w \<le> length X \<Longrightarrow> write_at w (take n (drop w X)) (take w X) = take (w + n) X"
  by (simp add: write_at_def take_add min_def)

lemma op_chunk_pos: "0 < op_chunk"
  by (simp add: op_chunk_def)

lemma persist_store: "dp_store_ok dp \<Longrightarrow> or_store (persist_pending dp p r) = (or_store r)(po_op_id p \<mapsto> p)"
  by (simp add: persist_pending_def)

lemma pump_ends:
  assumes dp: "sound_port dp" and ne: "src \<noteq> t" and oid: "\<And>w. po_op_id (mk w) = oid"
  shows "dk_files (or_disk r) src = Some X \<Longrightarrow> dk_files (or_disk r) t = Some (take written X) \<Longrightarrow> written \<le> length X
    \<Longrightarrow> case copy_pumped dp src t mk written last_ckpt r of (f, r') \<Rightarrow> pump_end X t mk oid written r f r'"
proof (induction "length X - written" arbitrary: written last_ckpt r rule: less_induct)
  case less
  obtain g ra where l: "look r = (g, ra)" by (cases "look r")
  note la = look_fields [OF l]
  have same: "dk_set t (Some (take written X)) (or_disk r) = or_disk r"
    using less(3) by (simp add: dk_set_def fun_upd_idem)
  show ?case
  proof (cases g)
    case GPause
    then show ?thesis
      using l la less(4) same oid by (subst copy_pumped.simps) (auto simp: pump_end_def persist_store [OF sound_portD(8) [OF dp]])
  next
    case GCancel
    then show ?thesis
      using l la less(3,4) sound_portD(4) [OF dp] by (subst copy_pumped.simps) (auto simp: pump_end_def remove_file_def dk_is_file_def)
  next
    case Go
    have X: "dk_content (or_disk ra) src = X" using la(1) less(2) by (simp add: dk_content_def)
    define bs where "bs = take op_chunk (drop written X)"
    have rd: "read_chunk (dp_read dp src) X written op_chunk [] = Inr bs"
      unfolding bs_def by (rule read_chunk_healthy) (rule sound_portD(6) [OF dp])
    show ?thesis
    proof (cases "written = length X")
      case True
      then show ?thesis
        using l Go X rd la less(3) same by (subst copy_pumped.simps) (auto simp: pump_end_def bs_def)
    next
      case False
      then have nonempty: "bs \<noteq> []" using less(4) op_chunk_pos by (simp add: bs_def)
      define w where "w = written + length bs"
      have w: "written < w" "w \<le> length X" using nonempty less(4) by (auto simp: w_def) (simp add: bs_def)
      have new: "write_at written bs (dk_content (or_disk ra) t) = take w X"
        using write_prefix [OF less(4), of op_chunk] less(3) la(1) less(4) by (simp add: dk_content_def w_def take_add min_def bs_def)
      define rb where "rb = emit (on_rep (\<lambda>g. g\<lparr>pg_bytes_done := pg_bytes_done g + length bs\<rparr>)
          (on_disk (\<lambda>d. dk_set t (Some (write_at written bs (dk_content d t))) d) ra))"
      have rb: "or_disk rb = dk_set t (Some (take w X)) (or_disk r)" "or_store rb = or_store r" "or_now rb = or_now r"
        "or_millis rb = or_millis r" "or_gates rb = or_gates ra"
        "or_rep rb = (or_rep r)\<lparr>pg_bytes_done := pg_bytes_done (or_rep r) + (w - written)\<rparr>"
        using new la by (simp_all add: rb_def w_def)
      define rc where "rc = (if checkpoint_every \<le> w - last_ckpt then persist_pending dp (mk w) rb else rb)"
      define lc where "lc = (if checkpoint_every \<le> w - last_ckpt then w else last_ckpt)"
      have rc: "or_disk rc = or_disk rb" "or_rep rc = or_rep rb" "or_now rc = or_now rb" "or_millis rc = or_millis rb"
        "or_gates rc = or_gates rb" "or_store rc oid = or_store r oid \<or> or_store rc oid = Some (mk w)"
        "i \<noteq> oid \<Longrightarrow> or_store rc i = or_store r i" for i
        using rb oid by (auto simp: rc_def persist_store [OF sound_portD(8) [OF dp]])
      have step: "copy_pumped dp src t mk written last_ckpt r = copy_pumped dp src t mk w lc rc"
        using l Go X rd nonempty sound_portD(7) [OF dp]
        by (subst copy_pumped.simps) (simp add: Let_def rb_def w_def rc_def lc_def)
      obtain f r' where fr: "copy_pumped dp src t mk w lc rc = (f, r')" by fastforce
      have "case copy_pumped dp src t mk w lc rc of (f, r') \<Rightarrow> pump_end X t mk oid w rc f r'"
        using w rc rb less(2,4) ne by (intro less(1)) auto
      then have e: "pump_end X t mk oid w rc f r'" using fr by simp
      have "pump_end X t mk oid written r f r'"
      proof -
        obtain v where v: "w \<le> v" "v \<le> length X"
          "f = FDone \<and> v = length X \<and> or_disk r' = dk_set t (Some X) (or_disk rc)
           \<or> f = FPaused \<and> or_disk r' = dk_set t (Some (take v X)) (or_disk rc) \<and> or_store r' oid = Some (mk v)
           \<or> f = FCanceled \<and> or_disk r' = dk_set t None (or_disk rc)"
          "f \<noteq> FCanceled \<Longrightarrow> or_rep r' = (or_rep rc)\<lparr>pg_bytes_done := pg_bytes_done (or_rep rc) + (v - w)\<rparr>"
          using e unfolding pump_end_def by blast
        have d: "dk_set t x (or_disk rc) = dk_set t x (or_disk r)" for x using rc(1) rb(1) by (simp add: dk_set_def)
        have rep: "f \<noteq> FCanceled \<longrightarrow> or_rep r' = (or_rep r)\<lparr>pg_bytes_done := pg_bytes_done (or_rep r) + (v - written)\<rparr>"
          using v(1,4) rc(2) rb(6) w(1) by simp
        have ends: "f = FDone \<and> v = length X \<and> or_disk r' = dk_set t (Some X) (or_disk r)
           \<or> f = FPaused \<and> or_disk r' = dk_set t (Some (take v X)) (or_disk r) \<and> or_store r' oid = Some (mk v)
           \<or> f = FCanceled \<and> or_disk r' = dk_set t None (or_disk r)"
          using v(3) unfolding d .
        have rest: "or_store r' oid = or_store rc oid \<or> (\<exists>w. or_store r' oid = Some (mk w))"
          "\<And>i. i \<noteq> oid \<Longrightarrow> or_store r' i = or_store rc i" "or_now r' = or_now rc" "or_millis r' = or_millis rc"
          "pg_op_id (or_rep r') = pg_op_id (or_rep rc)" "pg_resumed_from (or_rep r') = pg_resumed_from (or_rep rc)"
          "or_gates rc = [] \<Longrightarrow> f = FDone \<and> or_gates r' = []"
          using e unfolding pump_end_def by blast+
        have store: "or_store r' oid = or_store r oid \<or> (\<exists>w. or_store r' oid = Some (mk w))" using rest(1) rc(6) by auto
        have gates: "or_gates r = [] \<longrightarrow> f = FDone \<and> or_gates r' = []" using rest(7) rc(5) rb(5) la(1,7) by auto
        have ids: "pg_op_id (or_rep r') = pg_op_id (or_rep r)" "pg_resumed_from (or_rep r') = pg_resumed_from (or_rep r)"
          using rest(5,6) rc(2) rb(6) by simp_all
        show ?thesis
          unfolding pump_end_def
          using v(1,2) w(1) rep ends store gates ids rest(2,3,4) rc(3,4,7) rb(3,4) by (intro conjI exI [of _ v]) simp_all
      qed
      then show ?thesis using step fr by simp
    qed
  qed
qed

text \<open>How copying one file \<open>X\<close> to \<open>t\<close> ends, as the \<open>idx\<close>-th of its operation.\<close>

definition copy_end :: "op_spec \<Rightarrow> bytes \<Rightarrow> path \<Rightarrow> nat \<Rightarrow> op_run \<Rightarrow> flow \<Rightarrow> op_run \<Rightarrow> bool" where
  "copy_end spec X t idx r f r' \<longleftrightarrow>
     (let oid = pg_op_id (or_rep r); mk = pending_of spec oid (pg_resumed_from (or_rep r)) (or_now r) idx in
     (f = FDone \<and> or_disk r' = dk_set t (Some X) (or_disk r)
      \<or> f = FPaused \<and> (\<exists>w\<le>length X. or_disk r' = dk_set t (Some (take w X)) (or_disk r) \<and> or_store r' oid = Some (mk w))
      \<or> f = FCanceled \<and> or_disk r' = dk_set t None (or_disk r))
     \<and> (or_store r' oid = or_store r oid \<or> (\<exists>w. or_store r' oid = Some (mk w)))
     \<and> (\<forall>i. i \<noteq> oid \<longrightarrow> or_store r' i = or_store r i)
     \<and> or_now r' = or_now r \<and> or_millis r' = or_millis r
     \<and> pg_op_id (or_rep r') = oid \<and> pg_resumed_from (or_rep r') = pg_resumed_from (or_rep r)
     \<and> (or_gates r = [] \<longrightarrow> f = FDone \<and> or_gates r' = []))"

text \<open>The target is new, or holds a prefix of the file whenever its length is the recorded one.\<close>

definition target_ready :: "bytes \<Rightarrow> nat \<Rightarrow> path \<Rightarrow> disk \<Rightarrow> bool" where
  "target_ready X n t d \<longleftrightarrow> \<not> dk_dirs d t \<and> n \<le> length X
     \<and> (\<forall>Y. 0 < n \<longrightarrow> dk_files d t = Some Y \<longrightarrow> length Y = n \<longrightarrow> Y = take n X)"

lemma dk_set_twice [simp]: "dk_set t x (dk_set t y d) = dk_set t x d"
  by (simp add: dk_set_def)

lemma open_target_ready:
  assumes "sound_port dp" "target_ready X n t d"
  obtains d1 where "open_target dp n t d = Some d1" "dk_files d1 t = Some (take (if reopened n t d then n else 0) X)"
    "\<And>x. dk_set t x d1 = dk_set t x d"
proof (cases "reopened n t d")
  case True
  then obtain Y where "dk_files d t = Some Y" "length Y = n" "0 < n"
    using assms(2) by (auto simp: reopened_def dk_exists_def dk_content_def target_ready_def split: option.splits)
  then have "dk_files d t = Some (take n X)" using assms(2) by (simp add: target_ready_def)
  then show ?thesis
    using that [of d] True sound_portD(1) [OF assms(1)] by (simp add: open_target_def open_file_def dk_is_file_def)
next
  case False
  then show ?thesis
    using that [of "dk_set t (Some []) d"] assms(2) sound_portD(2) [OF assms(1)]
    by (simp add: open_target_def create_file_def target_ready_def)
qed

lemma copy_one_ends:
  assumes dp: "sound_port dp" and src: "dk_files (or_disk r) (ci_src item) = Some X" "ci_size item = length X" "ci_src item \<noteq> t"
    and ready: "target_ready X n t (or_disk r)"
  shows "case copy_one dp spec item t n idx r of (f, r') \<Rightarrow> copy_end spec X t idx r f r'"
proof -
  obtain d1 where d1: "open_target dp n t (or_disk r) = Some d1"
    "dk_files d1 t = Some (take (if reopened n t (or_disk r) then n else 0) X)" "\<And>x. dk_set t x d1 = dk_set t x (or_disk r)"
    using open_target_ready [OF dp ready] by blast
  define start where "start = (if reopened n t (or_disk r) then n else 0)"
  define mk where "mk = pending_of spec (pg_op_id (or_rep r)) (pg_resumed_from (or_rep r)) (or_now r) idx"
  obtain f r' where fr: "copy_pumped dp (ci_src item) t mk start start (on_disk (\<lambda>_. d1) r) = (f, r')" by fastforce
  have "case copy_pumped dp (ci_src item) t mk start start (on_disk (\<lambda>_. d1) r) of
      (f, r') \<Rightarrow> pump_end X t mk (pg_op_id (or_rep r)) start (on_disk (\<lambda>_. d1) r) f r'"
  proof (rule pump_ends [OF dp src(3)])
    show "dk_files (or_disk (on_disk (\<lambda>_. d1) r)) (ci_src item) = Some X"
      using open_target_elsewhere [OF d1(1) src(3)] src(1) by simp
    show "dk_files (or_disk (on_disk (\<lambda>_. d1) r)) t = Some (take start X)" using d1(2) by (simp add: start_def)
    show "start \<le> length X" using ready by (simp add: start_def target_ready_def)
  qed (simp add: mk_def pending_of_def)
  then have e: "pump_end X t mk (pg_op_id (or_rep r)) start (on_disk (\<lambda>_. d1) r) f r'" using fr by simp
  have "or_disk r' = dk_set t (Some X) (or_disk r)" if "f = FDone" using e that d1(3) by (auto simp: pump_end_def)
  then have one: "copy_one dp spec item t n idx r = (f, r')"
    using src d1(1) fr sound_portD(1) [OF dp]
    by (simp add: copy_one_steps open_file_def dk_is_file_def start_def mk_def dk_content_def)
  have "copy_end spec X t idx r f r'"
    using e d1(3) unfolding copy_end_def pump_end_def Let_def mk_def [symmetric] by (elim conjE exE disjE) auto
  then show ?thesis using one by simp
qed

section \<open>A whole plan on a healthy disk\<close>

text \<open>
  A plan that can be carried out: sources are files, no path is a source and a target or twice either,
  targets are no directories, and no file (there or to come) is in the way of a target's parents.
\<close>

definition plan_ok :: "disk \<Rightarrow> copy_item list \<Rightarrow> bool" where
  "plan_ok d items \<longleftrightarrow>
     distinct (map ci_src items) \<and> distinct (map ci_dst items)
     \<and> set (map ci_src items) \<inter> set (map ci_dst items) = {}
     \<and> (\<forall>a\<in>set items. dk_files d (ci_src a) \<noteq> None \<and> ci_size a = length (dk_content d (ci_src a)) \<and> \<not> dk_dirs d (ci_dst a)
          \<and> (\<forall>n<length (ci_dst a). \<not> dk_is_file d (take n (ci_dst a)) \<and> take n (ci_dst a) \<notin> set (map ci_dst items)))"

lemma plan_okD:
  assumes "plan_ok d items" "a \<in> set items"
  shows "\<exists>X. dk_files d (ci_src a) = Some X \<and> ci_size a = length X" "\<not> dk_dirs d (ci_dst a)"
    and "n < length (ci_dst a) \<Longrightarrow> \<not> dk_is_file d (take n (ci_dst a))"
    and "n < length (ci_dst a) \<Longrightarrow> b \<in> set items \<Longrightarrow> take n (ci_dst a) \<noteq> ci_dst b"
    and "b \<in> set items \<Longrightarrow> ci_src a \<noteq> ci_dst b"
proof -
  show "\<exists>X. dk_files d (ci_src a) = Some X \<and> ci_size a = length X" "\<not> dk_dirs d (ci_dst a)"
    "n < length (ci_dst a) \<Longrightarrow> \<not> dk_is_file d (take n (ci_dst a))"
    using assms unfolding plan_ok_def by (auto simp: dk_content_def)
  show "n < length (ci_dst a) \<Longrightarrow> b \<in> set items \<Longrightarrow> take n (ci_dst a) \<noteq> ci_dst b"
    using assms unfolding plan_ok_def by (metis imageI set_map)
  show "b \<in> set items \<Longrightarrow> ci_src a \<noteq> ci_dst b"
    using assms unfolding plan_ok_def by (metis disjoint_iff imageI set_map)
qed

definition policy_free :: "conflict_policy \<Rightarrow> disk \<Rightarrow> copy_item list \<Rightarrow> bool" where
  "policy_free policy d items \<longleftrightarrow>
     policy = Overwrite \<or> policy = Skip \<or> (\<forall>a\<in>set items. \<not> dk_exists d (ci_dst a))"

definition chosen :: "conflict_policy \<Rightarrow> disk \<Rightarrow> copy_item list \<Rightarrow> copy_item list" where
  "chosen policy d items = filter (\<lambda>a. \<not> (policy = Skip \<and> dk_exists d (ci_dst a))) items"

lemma resolve_free:
  assumes "policy_free policy d (a # items)"
  shows "resolve_target millis (ci_dst a) policy d =
    Inr (if policy = Skip \<and> dk_exists d (ci_dst a) then None else Some (ci_dst a))"
  using assms by (cases policy) (auto simp: policy_free_def resolve_target_def unique_target_def)

text \<open>What one step may change, for the rest of the plan to stay as it was.\<close>

definition step_ok :: "copy_item \<Rightarrow> disk \<Rightarrow> disk \<Rightarrow> bool" where
  "step_ok a d d' \<longleftrightarrow>
     (\<forall>q. q \<noteq> ci_dst a \<longrightarrow> q \<noteq> ci_src a \<longrightarrow> dk_files d' q = dk_files d q)
     \<and> (dk_files d' (ci_src a) = dk_files d (ci_src a) \<or> dk_files d' (ci_src a) = None)
     \<and> (\<forall>q. dk_dirs d q \<longrightarrow> dk_dirs d' q) \<and> (\<forall>q. dk_dirs d' q \<longrightarrow> dk_dirs d q \<or> (\<exists>n<length (ci_dst a). q = take n (ci_dst a)))"

lemma step_ok_rest:
  assumes ok: "plan_ok d (a # items)" and st: "step_ok a d d'"
  shows "b \<in> set items \<Longrightarrow> dk_files d' (ci_src b) = dk_files d (ci_src b)"
    and "b \<in> set items \<Longrightarrow> dk_files d' (ci_dst b) = dk_files d (ci_dst b)"
    and "b \<in> set items \<Longrightarrow> dk_exists d' (ci_dst b) = dk_exists d (ci_dst b)"
    and "plan_ok d' items"
    and "policy_free policy d (a # items) \<Longrightarrow> policy_free policy d' items"
    and "chosen policy d' (drop k items) = chosen policy d (drop k items)"
proof -
  have dist: "ci_src b \<noteq> ci_src a \<and> ci_src b \<noteq> ci_dst a \<and> ci_dst b \<noteq> ci_src a \<and> ci_dst b \<noteq> ci_dst a" if "b \<in> set items" for b
  proof -
    have "ci_src b \<in> ci_src ` set items" "ci_dst b \<in> ci_dst ` set items" using that by simp_all
    moreover have "ci_src a \<notin> ci_src ` set items" "ci_src a \<notin> ci_dst ` set items" "ci_dst a \<notin> ci_dst ` set items"
      "ci_dst a \<notin> ci_src ` set items"
      using ok unfolding plan_ok_def by auto
    ultimately show ?thesis by metis
  qed
  show src: "dk_files d' (ci_src b) = dk_files d (ci_src b)" if "b \<in> set items" for b
    using dist [OF that] st by (simp add: step_ok_def)
  show dst: "dk_files d' (ci_dst b) = dk_files d (ci_dst b)" if "b \<in> set items" for b
    using dist [OF that] st by (simp add: step_ok_def)
  have nodir: "\<not> dk_dirs d' (ci_dst b)" if "b \<in> set items" for b
  proof
    assume "dk_dirs d' (ci_dst b)"
    moreover have "\<not> dk_dirs d (ci_dst b)" using plan_okD(2) [OF ok, of b] that by simp
    ultimately obtain n where "n < length (ci_dst a)" "ci_dst b = take n (ci_dst a)"
      using st unfolding step_ok_def by blast
    then show False using plan_okD(4) [OF ok, of a n b] that by simp
  qed
  have nodir0: "\<not> dk_dirs d (ci_dst b)" if "b \<in> set items" for b
    using plan_okD(2) [OF ok, of b] that by simp
  show ex: "dk_exists d' (ci_dst b) = dk_exists d (ci_dst b)" if "b \<in> set items" for b
    using dst [OF that] nodir [OF that] nodir0 [OF that] by (simp add: dk_exists_def)
  have free: "\<not> dk_is_file d' (take n (ci_dst b))" if "b \<in> set items" "n < length (ci_dst b)" for b n
  proof -
    have "\<not> dk_is_file d (take n (ci_dst b))" "take n (ci_dst b) \<noteq> ci_dst a"
      using plan_okD(3,4) [OF ok, of b n] that by auto
    then show ?thesis using st unfolding step_ok_def dk_is_file_def by metis
  qed
  show "plan_ok d' items"
    using ok nodir free src unfolding plan_ok_def by (auto simp: dk_content_def)
  show "policy_free policy d' items" if "policy_free policy d (a # items)"
    using that ex by (auto simp: policy_free_def)
  show "chosen policy d' (drop k items) = chosen policy d (drop k items)"
    unfolding chosen_def using ex by (intro filter_cong refl) (auto dest: in_set_dropD)
qed

lemma make_parent_ok:
  assumes "sound_port dp" "\<And>n. n < length (ci_dst a) \<Longrightarrow> \<not> dk_is_file d (take n (ci_dst a))"
  obtains d1 where "make_parent dp (ci_dst a) d = Some d1" "dk_files d1 = dk_files d"
    "\<And>q. dk_dirs d1 q \<longleftrightarrow> dk_dirs d q \<or> (\<exists>n<length (ci_dst a). q = take n (ci_dst a))"
proof (cases "ci_dst a = []")
  case True
  then show ?thesis using that [of d] by (simp add: make_parent_def path_parent_def)
next
  case False
  have "\<not> dk_is_file d (take n (butlast (ci_dst a)))" if "n < Suc (length (butlast (ci_dst a)))" for n
    using assms(2) [of n] that False by (simp add: take_butlast)
  then have nf: "\<not> list_ex (\<lambda>n. dk_is_file d (take n (butlast (ci_dst a)))) [0..<Suc (length (butlast (ci_dst a)))]"
    by (auto simp: list_ex_iff simp del: upt_Suc)
  have anc: "below q (butlast (ci_dst a)) \<longleftrightarrow> (\<exists>n<length (ci_dst a). q = take n (ci_dst a))" for q
  proof
    assume "below q (butlast (ci_dst a))"
    then obtain r where r: "butlast (ci_dst a) = q @ r" using belowE by blast
    then have "q = take (length q) (butlast (ci_dst a))" by simp
    moreover have "length q < length (ci_dst a)"
    proof -
      have "length q \<le> length (butlast (ci_dst a))" using arg_cong [OF r, of length] by (simp only: length_append)
      then show ?thesis using False by (simp add: Suc_le_eq [symmetric]) (metis Suc_le_mono Suc_pred length_greater_0_conv)
    qed
    ultimately show "\<exists>n<length (ci_dst a). q = take n (ci_dst a)" by (metis take_butlast)
  next
    assume "\<exists>n<length (ci_dst a). q = take n (ci_dst a)"
    then obtain n where "n < length (ci_dst a)" "q = take n (ci_dst a)" by blast
    then have "butlast (ci_dst a) = q @ drop n (butlast (ci_dst a))" by (metis append_take_drop_id take_butlast)
    then show "below q (butlast (ci_dst a))" by (metis below_append)
  qed
  let ?d1 = "d\<lparr>dk_dirs := (\<lambda>q. dk_dirs d q \<or> below q (butlast (ci_dst a)))\<rparr>"
  have "create_dir_all dp (butlast (ci_dst a)) d = Some ?d1"
    unfolding create_dir_all_def using nf sound_portD(3) [OF assms(1)] by (simp only: simp_thms if_False)
  then have "make_parent dp (ci_dst a) d = Some ?d1" using False by (simp add: make_parent_def path_parent_def)
  moreover have "dk_dirs ?d1 q \<longleftrightarrow> dk_dirs d q \<or> (\<exists>n<length (ci_dst a). q = take n (ci_dst a))" for q
  proof -
    have "dk_dirs ?d1 q \<longleftrightarrow> dk_dirs d q \<or> below q (butlast (ci_dst a))" by simp
    then show ?thesis unfolding anc .
  qed
  moreover have "dk_files ?d1 = dk_files d" by simp
  ultimately show ?thesis by (intro that)
qed

definition item_ready :: "disk \<Rightarrow> nat \<Rightarrow> copy_item \<Rightarrow> bool" where
  "item_ready d sb a \<longleftrightarrow> target_ready (dk_content d (ci_src a)) (min sb (ci_size a)) (ci_dst a) d"

definition start_ready :: "disk \<Rightarrow> nat \<Rightarrow> nat \<Rightarrow> copy_item list \<Rightarrow> nat \<Rightarrow> bool" where
  "start_ready d si sb items idx \<longleftrightarrow> idx \<le> si \<longrightarrow> si - idx < length items \<longrightarrow> item_ready d sb (items ! (si - idx))"

text \<open>The disk after the items \<open>A\<close> have been copied, or moved.\<close>

definition placed :: "op_kind \<Rightarrow> copy_item list \<Rightarrow> copy_item list \<Rightarrow> disk \<Rightarrow> disk \<Rightarrow> bool" where
  "placed kind items A d d' \<longleftrightarrow>
     (\<forall>a\<in>set A. dk_files d' (ci_dst a) = dk_files d (ci_src a) \<and> (kind = Move \<longrightarrow> dk_files d' (ci_src a) = None))
     \<and> (\<forall>q. q \<notin> ci_dst ` set A \<longrightarrow> (kind = Move \<longrightarrow> q \<notin> ci_src ` set A) \<longrightarrow> dk_files d' q = dk_files d q)
     \<and> (\<forall>q. dk_dirs d q \<longrightarrow> dk_dirs d' q)
     \<and> (\<forall>q. dk_dirs d' q \<longrightarrow> dk_dirs d q \<or> (\<exists>a\<in>set items. \<exists>n<length (ci_dst a). q = take n (ci_dst a)))"

lemma placed_refl: "placed kind items [] d d"
  by (simp add: placed_def)

lemma placed_step:
  assumes ok: "plan_ok d (a # items)" and st: "step_ok a d d1" and d2: "placed kind items (chosen P d1 (drop k items)) d1 d2"
    and a: "B = [a] \<and> dk_files d1 (ci_dst a) = dk_files d (ci_src a) \<and> (kind = Move \<longrightarrow> dk_files d1 (ci_src a) = None)
        \<and> (kind \<noteq> Move \<longrightarrow> dk_files d1 (ci_src a) = dk_files d (ci_src a))
      \<or> B = [] \<and> dk_files d1 = dk_files d"
  shows "placed kind (a # items) (B @ chosen P d (drop k items)) d d2"
proof -
  let ?A = "chosen P d (drop k items)"
  have A: "chosen P d1 (drop k items) = ?A" by (rule step_ok_rest(6) [OF ok st])
  have sub: "set ?A \<subseteq> set items" by (auto simp: chosen_def dest: in_set_dropD)
  have dist: "ci_dst a \<noteq> ci_dst b" "ci_dst a \<noteq> ci_src b" "ci_src a \<noteq> ci_src b" "ci_src a \<noteq> ci_dst b" if "b \<in> set ?A" for b
  proof -
    have "ci_src b \<in> ci_src ` set items" "ci_dst b \<in> ci_dst ` set items" using that sub by auto
    then show "ci_dst a \<noteq> ci_dst b" "ci_dst a \<noteq> ci_src b" "ci_src a \<noteq> ci_src b" "ci_src a \<noteq> ci_dst b"
      using ok unfolding plan_ok_def by auto
  qed
  have self: "ci_src a \<noteq> ci_dst a" using plan_okD(5) [OF ok, of a a] by simp
  have src: "dk_files d1 (ci_src b) = dk_files d (ci_src b)" if "b \<in> set ?A" for b
    using step_ok_rest(1) [OF ok st] that sub by blast
  have away: "q \<notin> ci_dst ` set ?A \<Longrightarrow> (kind = Move \<longrightarrow> q \<notin> ci_src ` set ?A) \<Longrightarrow> dk_files d2 q = dk_files d1 q" for q
    using d2 unfolding placed_def A by blast
  have there: "b \<in> set ?A \<Longrightarrow> dk_files d2 (ci_dst b) = dk_files d1 (ci_src b) \<and> (kind = Move \<longrightarrow> dk_files d2 (ci_src b) = None)" for b
    using d2 unfolding placed_def A by blast
  have adst: "dk_files d2 (ci_dst a) = dk_files d1 (ci_dst a)" by (rule away) (use dist(1,2) in auto)
  have asrc: "dk_files d2 (ci_src a) = dk_files d1 (ci_src a)" by (rule away) (use dist(3,4) in auto)
  show ?thesis
    unfolding placed_def
  proof (intro conjI ballI allI impI)
    fix b assume b: "b \<in> set (B @ ?A)"
    show "dk_files d2 (ci_dst b) = dk_files d (ci_src b)"
      using b a there [of b] src [of b] adst by auto
    show "dk_files d2 (ci_src b) = None" if "kind = Move" using b a there [of b] asrc that by auto
  next
    fix q assume q: "q \<notin> ci_dst ` set (B @ ?A)" "kind = Move \<longrightarrow> q \<notin> ci_src ` set (B @ ?A)"
    then have "dk_files d2 q = dk_files d1 q" by (intro away) auto
    also have "dk_files d1 q = dk_files d q"
      using q a st unfolding step_ok_def by auto
    finally show "dk_files d2 q = dk_files d q" .
  next
    fix q assume "dk_dirs d q"
    then show "dk_dirs d2 q" using st d2 unfolding step_ok_def placed_def by blast
  next
    fix q assume "dk_dirs d2 q"
    then show "dk_dirs d q \<or> (\<exists>b\<in>set (a # items). \<exists>n<length (ci_dst b). q = take n (ci_dst b))"
      using st d2 unfolding step_ok_def placed_def by (meson list.set_intros)
  qed
qed

lemma start_ready_step:
  assumes ok: "plan_ok d (a # items)" and st: "step_ok a d d1" and "start_ready d si sb (a # items) idx"
  shows "start_ready d1 si sb items (idx + 1)"
  unfolding start_ready_def
proof (intro impI)
  assume i: "idx + 1 \<le> si" "si - (idx + 1) < length items"
  let ?b = "items ! (si - (idx + 1))"
  have b: "?b \<in> set items" using i(2) by simp
  have "item_ready d sb ?b"
  proof -
    have "si - idx = Suc (si - (idx + 1))" using i(1) by simp
    then show ?thesis using assms(3) i unfolding start_ready_def by simp
  qed
  moreover have "\<not> dk_dirs d1 (ci_dst ?b)" using plan_okD(2) [OF step_ok_rest(4) [OF ok st] b] .
  ultimately show "item_ready d1 sb ?b"
    using step_ok_rest(1,2) [OF ok st b] by (simp add: item_ready_def target_ready_def dk_content_def)
qed

text \<open>What a finished run of the items leaves besides the disk.\<close>

definition rest_kept :: "op_run \<Rightarrow> op_run \<Rightarrow> nat \<Rightarrow> bool" where
  "rest_kept r r' n \<longleftrightarrow> or_gates r' = [] \<and> or_now r' = or_now r \<and> or_millis r' = or_millis r
     \<and> pg_op_id (or_rep r') = pg_op_id (or_rep r) \<and> pg_files_done (or_rep r') = pg_files_done (or_rep r) + n"

lemma copy_end_done:
  assumes "case copy_one dp spec item t n idx r of (f, r') \<Rightarrow> copy_end spec X t idx r f r'" "or_gates r = []"
  obtains r' where "copy_one dp spec item t n idx r = (FDone, r')" "or_disk r' = dk_set t (Some X) (or_disk r)"
    "or_gates r' = []" "or_now r' = or_now r" "or_millis r' = or_millis r" "pg_op_id (or_rep r') = pg_op_id (or_rep r)"
proof -
  obtain f r' where fr: "copy_one dp spec item t n idx r = (f, r')" by fastforce
  then have e: "copy_end spec X t idx r f r'" using assms(1) by simp
  then have "f = FDone" using assms(2) by (simp add: copy_end_def Let_def)
  then show ?thesis using that [of r'] fr e assms(2) by (simp add: copy_end_def Let_def)
qed

lemma copy_one_files_done: "pg_files_done (or_rep (snd (copy_one dp spec item t n idx r))) = pg_files_done (or_rep r)"
proof -
  have "pg_files_done (or_rep (snd (copy_pumped dp src t mk w l r))) = pg_files_done (or_rep r)" for src mk w l r
  proof (induction dp src t mk w l r rule: copy_pumped.induct)
    case (1 dp src t mk w l r)
    obtain g ra where lk: "look r = (g, ra)" by (cases "look r")
    note la = look_fields [OF lk]
    show ?case
    proof (cases "g = Go \<and> (\<exists>bs. read_chunk (dp_read dp src) (dk_content (or_disk ra) src) w op_chunk [] = Inr bs \<and> bs \<noteq> [] \<and> dp_write dp t w = None)")
      case True
      then obtain bs where bs: "g = Go" "read_chunk (dp_read dp src) (dk_content (or_disk ra) src) w op_chunk [] = Inr bs" "bs \<noteq> []"
        "dp_write dp t w = None" by blast
      show ?thesis
        using 1(1) [OF lk [symmetric] bs(1,2,3,4) refl refl] 1(2) [OF lk [symmetric] bs(1,2,3,4) refl refl] bs la lk
        by (subst copy_pumped.simps) (simp add: Let_def)
    next
      case False
      then show ?thesis using la lk
        by (subst copy_pumped.simps) (cases g; auto split: sum.split option.split)
    qed
  qed
  then show ?thesis
    by (auto simp: copy_one_steps Let_def split_beta split: option.split)
qed

lemma copy_items_done:
  assumes dp: "sound_port dp"
  shows "plan_ok (or_disk r) items \<Longrightarrow> policy_free (os_policy spec) (or_disk r) items \<Longrightarrow> or_gates r = []
    \<Longrightarrow> start_ready (or_disk r) si sb items idx
    \<Longrightarrow> \<exists>r'. copy_items dp spec si sb items idx r = (FDone, r') \<and> rest_kept r r' (length items)
      \<and> placed (os_kind spec) items (chosen (os_policy spec) (or_disk r) (drop (si - idx) items)) (or_disk r) (or_disk r')"
proof (induction items arbitrary: idx r)
  case Nil
  then show ?case by (simp add: rest_kept_def chosen_def placed_refl)
next
  case (Cons a items)
  note ok = Cons(2)
  have next_item: "\<exists>r'. copy_items dp spec si sb (a # items) idx r = (FDone, r') \<and> rest_kept r r' (length (a # items))
      \<and> placed (os_kind spec) (a # items) (B @ chosen (os_policy spec) (or_disk r) (drop (si - (idx + 1)) items)) (or_disk r) (or_disk r')"
    if eq: "copy_items dp spec si sb (a # items) idx r = copy_items dp spec si sb items (idx + 1) rb"
      and st: "step_ok a (or_disk r) (or_disk rb)"
      and kept: "rest_kept r rb 1"
      and B: "B = [a] \<and> dk_files (or_disk rb) (ci_dst a) = dk_files (or_disk r) (ci_src a)
          \<and> (os_kind spec = Move \<longrightarrow> dk_files (or_disk rb) (ci_src a) = None)
          \<and> (os_kind spec \<noteq> Move \<longrightarrow> dk_files (or_disk rb) (ci_src a) = dk_files (or_disk r) (ci_src a))
        \<or> B = [] \<and> dk_files (or_disk rb) = dk_files (or_disk r)" for rb B
  proof -
    have "\<exists>r'. copy_items dp spec si sb items (idx + 1) rb = (FDone, r') \<and> rest_kept rb r' (length items)
      \<and> placed (os_kind spec) items (chosen (os_policy spec) (or_disk rb) (drop (si - (idx + 1)) items)) (or_disk rb) (or_disk r')"
      by (rule Cons(1) [OF step_ok_rest(4) [OF ok st] step_ok_rest(5) [OF ok st Cons(3)] _ start_ready_step [OF ok st Cons(5)]])
        (use kept in \<open>simp add: rest_kept_def\<close>)
    then obtain r' where r': "copy_items dp spec si sb items (idx + 1) rb = (FDone, r')" "rest_kept rb r' (length items)"
      "placed (os_kind spec) items (chosen (os_policy spec) (or_disk rb) (drop (si - (idx + 1)) items)) (or_disk rb) (or_disk r')" by blast
    have "placed (os_kind spec) (a # items) (B @ chosen (os_policy spec) (or_disk r) (drop (si - (idx + 1)) items)) (or_disk r) (or_disk r')"
      using placed_step [OF ok st r'(3) B] .
    moreover have "rest_kept r r' (length (a # items))" using kept r'(2) by (simp add: rest_kept_def)
    ultimately show ?thesis using eq r'(1) by auto
  qed
  show ?case
  proof (cases "idx < si")
    case True
    have "step_ok a (or_disk r) (or_disk r)" by (simp add: step_ok_def)
    moreover have "rest_kept r (on_rep (\<lambda>g. g\<lparr>pg_files_done := pg_files_done g + 1\<rparr>) r) 1"
      using Cons(4) by (simp add: rest_kept_def)
    moreover have "drop (si - idx) (a # items) = drop (si - (idx + 1)) items" using True by (simp add: Suc_diff_Suc [symmetric])
    ultimately show ?thesis
      using next_item [of "on_rep (\<lambda>g. g\<lparr>pg_files_done := pg_files_done g + 1\<rparr>) r" "[]"] True by simp
  next
    case False
    have drops: "chosen P d (drop (si - idx) (a # items)) = chosen P d [a] @ chosen P d (drop (si - (idx + 1)) items)" for P d
      using False by (simp add: chosen_def)
    have l: "look r = (Go, r)" using Cons(4) by (simp add: look_def)
    obtain d1 where d1: "make_parent dp (ci_dst a) (or_disk r) = Some d1" "dk_files d1 = dk_files (or_disk r)"
      "\<And>q. dk_dirs d1 q \<longleftrightarrow> dk_dirs (or_disk r) q \<or> (\<exists>n<length (ci_dst a). q = take n (ci_dst a))"
      using make_parent_ok [OF dp plan_okD(3) [OF ok list.set_intros(1)]] by blast
    have nodir: "\<not> dk_dirs d1 (ci_dst a)"
      using plan_okD(2,4) [OF ok, of a] d1(3) by (metis list.set_intros(1))
    have ex: "dk_exists d1 (ci_dst a) = dk_exists (or_disk r) (ci_dst a)"
      using nodir plan_okD(2) [OF ok, of a] d1(2) by (simp add: dk_exists_def)
    have free: "policy_free (os_policy spec) d1 [a]" using Cons(3) ex by (auto simp: policy_free_def)
    define r2 where "r2 = on_disk (\<lambda>_. d1) r"
    have r2: "or_disk r2 = d1" "or_gates r2 = []" "or_now r2 = or_now r" "or_millis r2 = or_millis r" "or_rep r2 = or_rep r"
      using Cons(4) by (simp_all add: r2_def)
    note res = resolve_free [OF free, of "or_millis r2"]
    show ?thesis
    proof (cases "os_policy spec = Skip \<and> dk_exists (or_disk r) (ci_dst a)")
      case True
      let ?rb = "emit (on_rep (\<lambda>g. g\<lparr>pg_files_done := pg_files_done g + 1, pg_bytes_done := pg_bytes_done g + ci_size a\<rparr>) r2)"
      have eq: "copy_items dp spec si sb (a # items) idx r = copy_items dp spec si sb items (idx + 1) ?rb"
        using False l d1(1) res True ex by (simp add: r2_def Let_def)
      have st: "step_ok a (or_disk r) (or_disk ?rb)" using d1(2,3) r2 by (auto simp: step_ok_def)
      have kept: "rest_kept r ?rb 1" using r2 by (simp add: rest_kept_def)
      have fs: "dk_files (or_disk ?rb) = dk_files (or_disk r)" using r2 d1(2) by simp
      have "chosen (os_policy spec) (or_disk r) [a] = []" using True by (simp add: chosen_def)
      then show ?thesis using next_item [OF eq st kept disjI2 [OF conjI [OF refl fs]]] unfolding drops by simp
    next
      case skip: False
      obtain X where X: "dk_files (or_disk r) (ci_src a) = Some X" "ci_size a = length X" using plan_okD(1) [OF ok, of a] by auto
      have ne: "ci_src a \<noteq> ci_dst a" using plan_okD(5) [OF ok, of a a] by simp
      define n where "n = (if idx = si then min sb (ci_size a) else 0)"
      define r3 where "r3 = on_rep (\<lambda>g. g\<lparr>pg_current := file_name_of (ci_src a)\<rparr>) r2"
      have ready: "target_ready X n (ci_dst a) d1"
      proof (cases "idx = si")
        case True
        then have "item_ready (or_disk r) sb a" using Cons(5) by (simp add: start_ready_def)
        then show ?thesis using True nodir d1(2) X by (simp add: item_ready_def target_ready_def n_def dk_content_def)
      qed (use nodir in \<open>simp add: n_def target_ready_def\<close>)
      have "case copy_one dp spec a (ci_dst a) n idx r3 of (f, r') \<Rightarrow> copy_end spec X (ci_dst a) idx r3 f r'"
        using X ne ready d1(2) r2 by (intro copy_one_ends [OF dp]) (simp_all add: r3_def)
      then obtain r4 where r4: "copy_one dp spec a (ci_dst a) n idx r3 = (FDone, r4)" "or_disk r4 = dk_set (ci_dst a) (Some X) d1"
          "or_gates r4 = []" "or_now r4 = or_now r" "or_millis r4 = or_millis r" "pg_op_id (or_rep r4) = pg_op_id (or_rep r)"
        using r2 by (elim copy_end_done) (auto simp: r3_def)
      have fd: "pg_files_done (or_rep r4) = pg_files_done (or_rep r)"
        using copy_one_files_done [of dp spec a "ci_dst a" n idx r3] r4(1) r2(5) by (simp add: r3_def)
      define d5 where "d5 = (if os_kind spec = Move then dk_set (ci_src a) None (or_disk r4) else or_disk r4)"
      let ?rb = "emit (on_disk (\<lambda>_. d5) (on_rep (\<lambda>g. g\<lparr>pg_files_done := pg_files_done g + 1\<rparr>) r4))"
      have same: "on_disk (\<lambda>_. dk_set (ci_dst a) (Some X) d1) (on_rep h r4) = on_rep h r4" for h
        using r4(2) by (simp add: on_disk_def on_rep_def)
      have eq: "copy_items dp spec si sb (a # items) idx r = copy_items dp spec si sb items (idx + 1) ?rb"
        using False l d1(1) res skip ex r4(1,2) ne X(1) d1(2) sound_portD(4) [OF dp]
        by (auto simp: r2_def [symmetric] r3_def [symmetric] n_def [symmetric] Let_def d5_def remove_file_def dk_is_file_def same)
      have st: "step_ok a (or_disk r) (or_disk ?rb)" using d1(2,3) r4(2) X(1) ne by (auto simp: step_ok_def d5_def)
      have kept: "rest_kept r ?rb 1" using r4 fd by (simp add: rest_kept_def)
      have fs: "[a] = [a] \<and> dk_files (or_disk ?rb) (ci_dst a) = dk_files (or_disk r) (ci_src a)
          \<and> (os_kind spec = Move \<longrightarrow> dk_files (or_disk ?rb) (ci_src a) = None)
          \<and> (os_kind spec \<noteq> Move \<longrightarrow> dk_files (or_disk ?rb) (ci_src a) = dk_files (or_disk r) (ci_src a))"
        using r4(2) X(1) ne d1(2) by (simp add: d5_def)
      have "chosen (os_policy spec) (or_disk r) [a] = [a]" using skip by (auto simp: chosen_def)
      then show ?thesis using next_item [OF eq st kept disjI1 [OF fs]] unfolding drops by simp
    qed
  qed
qed

section \<open>Directory trees\<close>

definition disk_wf :: "disk \<Rightarrow> bool" where
  "disk_wf d \<longleftrightarrow>
     (\<forall>p. dk_is_file d p \<longrightarrow> \<not> dk_dirs d p \<and> (\<forall>n<length p. dk_dirs d (take n p)))
     \<and> (\<forall>p n. dk_dirs d p \<longrightarrow> dk_dirs d (take n p)) \<and> (\<forall>p. dk_exists d p \<longrightarrow> [] \<notin> set p)
     \<and> finite (dom (dk_files d))"

text \<open>The walk below a directory yields each file there once.\<close>

definition walks :: "disk_port \<Rightarrow> bool" where
  "walks dp \<longleftrightarrow>
     (\<forall>d p. finite (dom (dk_files d)) \<longrightarrow> snd (dp_walk dp d p) \<and> distinct (fst (dp_walk dp d p))
        \<and> set (fst (dp_walk dp d p)) = {q. dk_is_file d q \<and> below p q \<and> q \<noteq> p})"

text \<open>Nothing below \<open>t\<close> is in the way of the files below \<open>src\<close>, and neither path is in the other.\<close>

definition tree_clear :: "disk \<Rightarrow> path \<Rightarrow> path \<Rightarrow> bool" where
  "tree_clear d src t \<longleftrightarrow> \<not> below src t \<and> \<not> below t src
     \<and> (\<forall>n<length t. \<not> dk_is_file d (take n t))
     \<and> (\<forall>rel. dk_is_file d (src @ rel) \<longrightarrow> \<not> dk_dirs d (t @ rel) \<and> (\<forall>n<length rel. \<not> dk_is_file d (t @ take n rel)))"

definition tree_items :: "disk_port \<Rightarrow> disk \<Rightarrow> path \<Rightarrow> path \<Rightarrow> copy_item list" where
  "tree_items dp d src t = map (\<lambda>q. item_of d q (t @ drop (length src) q)) (fst (dp_walk dp d src))"

lemma below_iff: "below p q \<longleftrightarrow> (\<exists>r. q = p @ r)"
  using belowE by auto

lemma walks_set: "walks dp \<Longrightarrow> finite (dom (dk_files d)) \<Longrightarrow> q \<in> set (fst (dp_walk dp d p)) \<longleftrightarrow> (\<exists>r. r \<noteq> [] \<and> q = p @ r \<and> dk_is_file d q)"
  unfolding walks_def by (auto simp: below_iff)

lemma walks_distinct:
  assumes "walks dp" "finite (dom (dk_files d))"
  shows "distinct (fst (dp_walk dp d p))" "snd (dp_walk dp d p)"
  using assms unfolding walks_def by simp_all

lemma disk_wf_finite: "disk_wf d \<Longrightarrow> finite (dom (dk_files d))"
  by (simp add: disk_wf_def)

lemma tree_items_set:
  assumes "walks dp" "finite (dom (dk_files d))"
  shows "a \<in> set (tree_items dp d src t) \<longleftrightarrow> (\<exists>r. r \<noteq> [] \<and> dk_is_file d (src @ r) \<and> a = item_of d (src @ r) (t @ r))"
proof -
  have "a \<in> set (tree_items dp d src t) \<longleftrightarrow>
      (\<exists>q. (\<exists>r. r \<noteq> [] \<and> q = src @ r \<and> dk_is_file d q) \<and> a = item_of d q (t @ drop (length src) q))"
    using walks_set [OF assms, of _ src] by (auto simp: tree_items_def)
  then show ?thesis by auto
qed

lemma item_of_simps [simp]:
  "ci_src (item_of d p q) = p" "ci_dst (item_of d p q) = q" "ci_size (item_of d p q) = length (dk_content d p)"
  by (simp_all add: item_of_def)

lemma file_below_file:
  assumes "disk_wf d" "dk_is_file d (p @ r)" "dk_is_file d (p @ take n r)"
  shows "length r \<le> n"
proof (rule ccontr)
  assume "\<not> length r \<le> n"
  then have "length p + n < length (p @ r)" by simp
  then have "dk_dirs d (take (length p + n) (p @ r))" using assms(1,2) unfolding disk_wf_def by blast
  then show False using assms(1,3) unfolding disk_wf_def by simp
qed

lemma tree_items_ok:
  assumes wf: "disk_wf d" and w: "walks dp" and clear: "tree_clear d src t"
  shows "plan_ok d (tree_items dp d src t)"
proof -
  let ?I = "tree_items dp d src t"
  have mem: "\<exists>r. r \<noteq> [] \<and> dk_is_file d (src @ r) \<and> a = item_of d (src @ r) (t @ r)" if "a \<in> set ?I" for a
    using that tree_items_set [OF w disk_wf_finite [OF wf]] by blast
  have "map ci_src ?I = fst (dp_walk dp d src)" by (simp add: tree_items_def comp_def)
  then have d1: "distinct (map ci_src ?I)" using walks_distinct(1) [OF w disk_wf_finite [OF wf]] by simp
  have "inj_on (\<lambda>q. t @ drop (length src) q) (set (fst (dp_walk dp d src)))"
    by (rule inj_onI) (auto simp: walks_set [OF w disk_wf_finite [OF wf]])
  moreover have "map ci_dst ?I = map (\<lambda>q. t @ drop (length src) q) (fst (dp_walk dp d src))" by (simp add: tree_items_def comp_def)
  ultimately have d2: "distinct (map ci_dst ?I)" using walks_distinct(1) [OF w disk_wf_finite [OF wf]] by (simp add: distinct_map)
  have apart: "src @ r \<noteq> t @ r'" for r r'
    using clear unfolding tree_clear_def below_iff by (metis append_eq_append_conv2)
  have d3: "set (map ci_src ?I) \<inter> set (map ci_dst ?I) = {}"
  proof (rule ccontr)
    assume "set (map ci_src ?I) \<inter> set (map ci_dst ?I) \<noteq> {}"
    then obtain a b where "a \<in> set ?I" "b \<in> set ?I" "ci_src a = ci_dst b" by (auto simp: set_eq_iff)
    then show False using mem [of a] mem [of b] apart by auto
  qed
  have "dk_files d (ci_src a) \<noteq> None \<and> ci_size a = length (dk_content d (ci_src a)) \<and> \<not> dk_dirs d (ci_dst a)
      \<and> (\<forall>n<length (ci_dst a). \<not> dk_is_file d (take n (ci_dst a)) \<and> take n (ci_dst a) \<notin> set (map ci_dst ?I))" if a: "a \<in> set ?I" for a
  proof -
    obtain r where r: "r \<noteq> []" "dk_is_file d (src @ r)" "a = item_of d (src @ r) (t @ r)" using mem [OF a] by blast
    have c: "\<not> dk_dirs d (t @ r)" "\<And>n. n < length r \<Longrightarrow> \<not> dk_is_file d (t @ take n r)" "\<And>n. n < length t \<Longrightarrow> \<not> dk_is_file d (take n t)"
      using clear r(2) unfolding tree_clear_def by blast+
    have nf: "\<not> dk_is_file d (take n (t @ r))" if "n < length (t @ r)" for n
      using c(2) [of "n - length t"] c(3) [of n] that r(1) by (cases "n < length t") auto
    have "take n (t @ r) \<noteq> ci_dst b" if n: "n < length (t @ r)" and b: "b \<in> set ?I" for n b
    proof
      assume e: "take n (t @ r) = ci_dst b"
      obtain r' where r': "r' \<noteq> []" "dk_is_file d (src @ r')" "b = item_of d (src @ r') (t @ r')" using mem [OF b] by blast
      have "length t + length r' \<le> n" using arg_cong [OF e, of length] r'(3) n by simp
      then have "r' = take (n - length t) r" using e r'(3) by simp
      then show False using file_below_file [OF wf r(2), of "n - length t"] r'(2) n \<open>length t + length r' \<le> n\<close> r'(1) by simp
    qed
    then show ?thesis using r c(1) nf by (auto simp: dk_is_file_def)
  qed
  then show ?thesis using d1 d2 d3 unfolding plan_ok_def by blast
qed

text \<open>Where a directory goes: below an existing target, or to the target itself.\<close>

definition tree_target :: "disk \<Rightarrow> path \<Rightarrow> path \<Rightarrow> path" where
  "tree_target d src dst = (if dk_dirs d dst then dst @ [last src] else dst)"

lemma dir_no_file: "disk_wf d \<Longrightarrow> dk_dirs d p \<Longrightarrow> \<not> dk_is_file d p"
  unfolding disk_wf_def by blast

lemma plan_of_tree:
  assumes w: "walks dp" "finite (dom (dk_files d))" and src: "dk_dirs d src" "src \<noteq> []" and nofile: "\<not> dk_is_file d dst"
    and spec: "os_srcs spec = [Local src]" "os_dst spec = Local dst"
  shows "expand_plan dp d spec = Inr (tree_items dp d src (tree_target d src dst))"
proof -
  obtain fs where fs: "dp_walk dp d src = (fs, True)" using walks_distinct(2) [OF w, of src] by (cases "dp_walk dp d src") auto
  have "dst @ drop (length src - Suc 0) q = (dst @ [last src]) @ drop (length src) q" if m: "q \<in> set fs" for q
  proof -
    obtain r where q: "q = src @ r" using m walks_set [OF w, of q src] fs by auto
    have "src = butlast src @ [last src]" using src(2) by simp
    then have "drop (length src - Suc 0) src = [last src]" by (metis append_eq_conv_conj length_butlast One_nat_def)
    then show ?thesis using q by simp
  qed
  then have "map (\<lambda>q. item_of d q (dst @ drop (length src - Suc 0) q)) fs = map (\<lambda>q. item_of d q ((dst @ [last src]) @ drop (length src) q)) fs"
    by (intro map_cong refl) simp
  then show ?thesis
    using spec src nofile fs
    by (simp add: expand_plan_def expand_source_def path_parent_def tree_items_def tree_target_def)
qed

section \<open>Runs of copies and moves\<close>

lemma plan_ok_dirs:
  assumes ok: "plan_ok d items" and fs: "dk_files d1 = dk_files d"
    and ds: "\<And>q. dk_dirs d1 q \<Longrightarrow> dk_dirs d q \<or> (\<exists>a\<in>set items. \<exists>n<length (ci_dst a). q = take n (ci_dst a)) \<or> q \<notin> ci_dst ` set items"
  shows "plan_ok d1 items"
proof -
  have "\<not> dk_dirs d1 (ci_dst a)" if "a \<in> set items" for a
    using ds [of "ci_dst a"] plan_okD(2,4) [OF ok] that by (metis imageI)
  then show ?thesis using ok fs unfolding plan_ok_def by (auto simp: dk_content_def dk_is_file_def)
qed

text \<open>The shortcut was not taken: it is off, or the rename was refused and left \<open>d\<close> with the target's parents.\<close>

definition not_taken :: "disk_port \<Rightarrow> op_spec \<Rightarrow> checkpoint option \<Rightarrow> disk \<Rightarrow> disk \<Rightarrow> bool" where
  "not_taken dp spec ckpt d0 d \<longleftrightarrow>
     (\<forall>x. or_disk x = d0 \<longrightarrow> move_shortcut dp spec ckpt x = (False, on_disk (\<lambda>_. d) x))"

lemma not_taken_off:
  assumes "os_kind spec \<noteq> Move \<or> ckpt \<noteq> None \<or> length (os_srcs spec) \<noteq> 1"
  shows "not_taken dp spec ckpt d d"
proof -
  have "move_shortcut dp spec ckpt x = (False, x)" for x
    using assms by (auto simp: move_shortcut_def split: op_kind.split list.split option.split)
  then show ?thesis by (simp add: not_taken_def on_disk_def)
qed

lemma not_taken_refused:
  assumes "os_srcs spec = [Local src]" "os_dst spec = Local dst" "os_kind spec = Move"
    and "\<And>d'. dk_dirs d' (target_for d src dst) = dk_dirs d (target_for d src dst) \<Longrightarrow> \<not> dp_rename dp d' src (target_for d src dst)"
    and "make_parent dp (target_for d src dst) d = Some d1" "dk_dirs d1 (target_for d src dst) = dk_dirs d (target_for d src dst)"
  shows "not_taken dp spec None d d1"
  using assms by (auto simp: not_taken_def move_shortcut_def try_rename_def rename_to_def Let_def)

definition start_of :: "checkpoint option \<Rightarrow> nat" where
  "start_of ckpt = (case ckpt of None \<Rightarrow> 0 | Some c \<Rightarrow> cp_file_index c)"

definition bytes_of :: "checkpoint option \<Rightarrow> nat" where
  "bytes_of ckpt = (case ckpt of None \<Rightarrow> 0 | Some c \<Rightarrow> cp_bytes_done c)"

definition swept :: "disk_port \<Rightarrow> op_spec \<Rightarrow> disk \<Rightarrow> disk" where
  "swept dp spec d = (if os_kind spec = Move then sweep_sources dp (os_srcs spec) d else d)"

text \<open>Without the shortcut, a run is the run of the items, and the sweep after a move.\<close>

lemma run_without_shortcut:
  assumes "expand_plan dp (or_disk r) spec = Inr items" "not_taken dp spec ckpt (or_disk r) d1"
  shows "\<exists>rep. pg_files_done rep = pg_files_done (or_rep r) \<and> pg_op_id rep = pg_op_id (or_rep r)
      \<and> pg_resumed_from rep = pg_resumed_from (or_rep r) \<and>
    run_copy_move dp spec ckpt r =
      (case copy_items dp spec (min (start_of ckpt) (length items)) (bytes_of ckpt) items 0 (r\<lparr>or_rep := rep, or_disk := d1\<rparr>) of
         (FDone, r4) \<Rightarrow> (FDone, on_disk (swept dp spec) r4)
       | (f, r4) \<Rightarrow> (f, r4))"
proof -
  define si where "si = min (start_of ckpt) (length items)"
  define rep where "rep = (or_rep r)\<lparr>pg_files_total := length items, pg_bytes_total := sum_list (map ci_size items),
      pg_bytes_done := max (bytes_of ckpt) (sum_list (map ci_size (take si items)))\<rparr>"
  define r1 where "r1 = on_rep (\<lambda>g. g\<lparr>pg_files_total := length items, pg_bytes_total := sum_list (map ci_size items)\<rparr>) r"
  have nomove: "move_shortcut dp spec ckpt r1 = (False, on_disk (\<lambda>_. d1) r1)"
    using assms(2) by (simp add: not_taken_def r1_def)
  have si: "(case ckpt of None \<Rightarrow> 0 | Some c \<Rightarrow> min (cp_file_index c) (length items)) = si"
    by (simp add: si_def start_of_def split: option.split)
  have start: "on_rep (\<lambda>g. g\<lparr>pg_bytes_done := max (bytes_of ckpt) (sum_list (map ci_size (take si items)))\<rparr>) (on_disk (\<lambda>_. d1) r1)
      = r\<lparr>or_rep := rep, or_disk := d1\<rparr>"
    by (simp add: on_rep_def on_disk_def r1_def rep_def)
  have sweep: "(if os_kind spec = Move then on_disk (sweep_sources dp (os_srcs spec)) r4 else r4) = on_disk (swept dp spec) r4" for r4
    by (simp add: swept_def on_disk_def)
  have "run_copy_move dp spec ckpt r =
      (case copy_items dp spec si (bytes_of ckpt) items 0 (r\<lparr>or_rep := rep, or_disk := d1\<rparr>) of
         (FDone, r4) \<Rightarrow> (FDone, on_disk (swept dp spec) r4)
       | (f, r4) \<Rightarrow> (f, r4))"
    unfolding run_copy_move_def assms(1) sum.case Let_def r1_def [symmetric] nomove si prod.case if_False bytes_of_def [symmetric] start sweep
    by (rule refl)
  then show ?thesis by (intro exI [of _ rep]) (simp add: si_def rep_def)
qed

lemma run_items_done:
  assumes dp: "sound_port dp" and plan: "expand_plan dp (or_disk r) spec = Inr items" and off: "not_taken dp spec ckpt (or_disk r) d1"
    and ok: "plan_ok d1 items" and free: "policy_free (os_policy spec) d1 items" and "or_gates r = []"
    and ready: "start_ready d1 (start_of ckpt) (bytes_of ckpt) items 0"
  obtains r' d where "run_copy_move dp spec ckpt r = (FDone, r')" "or_disk r' = swept dp spec d"
    "placed (os_kind spec) items (chosen (os_policy spec) d1 (drop (start_of ckpt) items)) d1 d"
    "pg_files_done (or_rep r') = pg_files_done (or_rep r) + length items"
proof -
  obtain rep where rep: "pg_files_done rep = pg_files_done (or_rep r)"
    "run_copy_move dp spec ckpt r =
      (case copy_items dp spec (min (start_of ckpt) (length items)) (bytes_of ckpt) items 0 (r\<lparr>or_rep := rep, or_disk := d1\<rparr>) of
         (FDone, r4) \<Rightarrow> (FDone, on_disk (swept dp spec) r4)
       | (f, r4) \<Rightarrow> (f, r4))"
    using run_without_shortcut [OF plan off] by blast
  have "start_ready d1 (min (start_of ckpt) (length items)) (bytes_of ckpt) items 0"
    using ready by (auto simp: start_ready_def min_def)
  from copy_items_done [OF dp, of "r\<lparr>or_rep := rep, or_disk := d1\<rparr>" items spec "min (start_of ckpt) (length items)" "bytes_of ckpt" 0]
  obtain r' where r': "copy_items dp spec (min (start_of ckpt) (length items)) (bytes_of ckpt) items 0 (r\<lparr>or_rep := rep, or_disk := d1\<rparr>) = (FDone, r')"
    "rest_kept (r\<lparr>or_rep := rep, or_disk := d1\<rparr>) r' (length items)"
    "placed (os_kind spec) items (chosen (os_policy spec) d1 (drop (min (start_of ckpt) (length items)) items)) d1 (or_disk r')"
    using ok free assms(6) \<open>start_ready d1 (min (start_of ckpt) (length items)) (bytes_of ckpt) items 0\<close> by auto
  have "drop (min (start_of ckpt) (length items)) items = drop (start_of ckpt) items" by (simp add: min_def)
  then show ?thesis
    using that [of "on_disk (swept dp spec) r'" "or_disk r'"] rep r' by (simp add: rest_kept_def)
qed

text \<open>C12. A directory is copied whole: on a disk whose calls succeed, when neither path lies in the other,
  nothing is in the way, and either the policy is to overwrite or nothing is there yet, copying a
  directory into an existing one ends well, puts every file below the source at the same place below
  the target's child of the same name, with its content, and changes no other file.
\<close>

theorem copy_tree_delivers:
  assumes "sound_port dp" "walks dp" "disk_wf (or_disk r)" "or_gates r = []"
    and "os_kind spec = Copy" "os_srcs spec = [Local src]" "os_dst spec = Local dst"
    and "src \<noteq> []" "dk_dirs (or_disk r) src" "dk_dirs (or_disk r) dst" "tree_clear (or_disk r) src (dst @ [last src])"
    and "os_policy spec = Overwrite \<or> (\<forall>rel. \<not> dk_exists (or_disk r) (dst @ [last src] @ rel))"
  shows "\<exists>r'. run_copy_move dp spec None r = (FDone, r')
    \<and> (\<forall>rel. dk_is_file (or_disk r) (src @ rel) \<longrightarrow>
         dk_files (or_disk r') (dst @ [last src] @ rel) = dk_files (or_disk r) (src @ rel))
    \<and> (\<forall>q. (\<forall>rel. q = dst @ [last src] @ rel \<longrightarrow> \<not> dk_is_file (or_disk r) (src @ rel)) \<longrightarrow>
         dk_files (or_disk r') q = dk_files (or_disk r) q)"
proof -
  let ?t = "dst @ [last src]" and ?d = "or_disk r"
  let ?I = "tree_items dp ?d src ?t"
  have plan: "expand_plan dp ?d spec = Inr ?I"
    using plan_of_tree [OF assms(2) disk_wf_finite [OF assms(3)] assms(9,8) dir_no_file [OF assms(3,10)] assms(6,7)] assms(10) by (simp add: tree_target_def)
  note ok = tree_items_ok [OF assms(3,2,11)]
  have none: "\<not> dk_exists ?d (ci_dst a)" if "a \<in> set ?I" "os_policy spec \<noteq> Overwrite" for a
    using that assms(12) tree_items_set [OF assms(2) disk_wf_finite [OF assms(3)]] by auto
  then have free: "policy_free (os_policy spec) ?d ?I" and all: "chosen (os_policy spec) ?d (drop 0 ?I) = ?I"
    by (auto simp: policy_free_def chosen_def filter_id_conv)
  have ready: "start_ready ?d (start_of None) (bytes_of None) ?I 0"
    using plan_okD(2) [OF ok] by (auto simp: start_ready_def start_of_def bytes_of_def item_ready_def target_ready_def)
  obtain r' d where r': "run_copy_move dp spec None r = (FDone, r')" "or_disk r' = swept dp spec d"
    "placed Copy ?I ?I ?d d"
    using run_items_done [OF assms(1) plan not_taken_off ok free assms(4) ready] assms(5) all
    by (simp add: start_of_def) blast
  have d: "or_disk r' = d" using r'(2) assms(5) by (simp add: swept_def)
  have "dk_files d (?t @ rel) = dk_files ?d (src @ rel)" if f: "dk_is_file ?d (src @ rel)" for rel
  proof -
    have "rel \<noteq> []" using f assms(3,9) unfolding disk_wf_def by auto
    then have "item_of ?d (src @ rel) (?t @ rel) \<in> set ?I" using f tree_items_set [OF assms(2) disk_wf_finite [OF assms(3)]] by blast
    then show ?thesis using r'(3) unfolding placed_def by fastforce
  qed
  moreover have "dk_files d q = dk_files ?d q" if q: "\<forall>rel. q = ?t @ rel \<longrightarrow> \<not> dk_is_file ?d (src @ rel)" for q
  proof -
    have "q \<notin> ci_dst ` set ?I" using q tree_items_set [OF assms(2) disk_wf_finite [OF assms(3)]] by auto
    then show ?thesis using r'(3) unfolding placed_def by blast
  qed
  ultimately show ?thesis using r'(1) d by auto
qed

section \<open>What moves lose\<close>

lemma tree_parent_made:
  assumes "sound_port dp" "disk_wf d" "dk_dirs d dst"
  obtains d1 where "make_parent dp (dst @ [x]) d = Some d1" "dk_files d1 = dk_files d" "dk_dirs d1 = dk_dirs d"
proof -
  have dirs: "dk_dirs d (take n dst)" for n using assms(2,3) unfolding disk_wf_def by blast
  then have "\<not> dk_is_file d (take n dst)" for n using assms(2) unfolding disk_wf_def by blast
  then have c: "create_dir_all dp dst d = Some (d\<lparr>dk_dirs := (\<lambda>q. dk_dirs d q \<or> below q dst)\<rparr>)"
    using sound_portD(3) [OF assms(1)] by (simp add: create_dir_all_def list_ex_iff del: upt_Suc)
  have eq: "(\<lambda>q. dk_dirs d q \<or> below q dst) = dk_dirs d"
  proof
    fix q
    show "(dk_dirs d q \<or> below q dst) = dk_dirs d q" using dirs [of "length q"] by (auto simp: below_def)
  qed
  have "make_parent dp (dst @ [x]) d = Some d" using c unfolding eq by (simp add: make_parent_def path_parent_def)
  then show ?thesis using that by simp
qed

lemma plan_ok_cong: "dk_files d1 = dk_files d \<Longrightarrow> dk_dirs d1 = dk_dirs d \<Longrightarrow> d1 = (d :: disk)"
  by (cases d; cases d1) auto

lemma sweep_one: "dk_dirs d src \<Longrightarrow> sound_port dp \<Longrightarrow> below src q \<Longrightarrow> dk_files (sweep_sources dp [Local src] d) q = None"
  by (simp add: remove_dir_all_def sound_portD)

lemma sweep_elsewhere: "\<not> below src q \<Longrightarrow> dk_files (sweep_sources dp [Local src] d) q = dk_files d q"
  by (simp add: remove_dir_all_def)

text \<open>C14. Moving a directory into one that has a child of the same name, under the policy that skips what
  exists, loses the skipped files: the system refuses to rename a directory onto another, so the files
  are copied one by one, the skipped ones stay behind, and then the whole source directory is removed.
  The run reports success; of a file that existed on both sides only the target's content is left.
\<close>

theorem move_skip_loses_files:
  assumes "sound_port dp" "walks dp" "disk_wf (or_disk r)" "or_gates r = []"
    and "os_kind spec = Move" "os_srcs spec = [Local src]" "os_dst spec = Local dst" "os_policy spec = Skip"
    and "src \<noteq> []" "dk_dirs (or_disk r) src" "dk_dirs (or_disk r) dst" "tree_clear (or_disk r) src (dst @ [last src])"
    and "dk_dirs (or_disk r) (dst @ [last src])" "\<And>d. dk_dirs d (dst @ [last src]) \<Longrightarrow> \<not> dp_rename dp d src (dst @ [last src])"
  shows "\<exists>r'. run_copy_move dp spec None r = (FDone, r')
    \<and> (\<forall>rel. dk_files (or_disk r') (src @ rel) = None)
    \<and> (\<forall>rel. dk_is_file (or_disk r) (dst @ [last src] @ rel) \<longrightarrow>
         dk_files (or_disk r') (dst @ [last src] @ rel) = dk_files (or_disk r) (dst @ [last src] @ rel))"
proof -
  let ?t = "dst @ [last src]" and ?d = "or_disk r"
  let ?I = "tree_items dp ?d src ?t"
  have plan: "expand_plan dp ?d spec = Inr ?I"
    using plan_of_tree [OF assms(2) disk_wf_finite [OF assms(3)] assms(10,9) dir_no_file [OF assms(3,11)] assms(6,7)] assms(11) by (simp add: tree_target_def)
  have t: "target_for ?d src dst = ?t" 
  proof -
    have "[] \<notin> set src" using assms(3,10) unfolding disk_wf_def by (simp add: dk_exists_def)
    then have "last src \<noteq> []" using assms(9) last_in_set by metis
    then show ?thesis using assms(9,11) by (simp add: target_for_def child_def file_name_of_def)
  qed
  obtain d1 where d1: "make_parent dp ?t ?d = Some d1" "d1 = ?d"
    using tree_parent_made [OF assms(1,3,11), of "last src"] plan_ok_cong by metis
  have off: "not_taken dp spec None ?d ?d"
    by (rule not_taken_refused [OF assms(6,7,5)]) (use t d1 assms(13,14) in auto)
  note ok = tree_items_ok [OF assms(3,2,12)]
  have ready: "start_ready ?d (start_of None) (bytes_of None) ?I 0"
    using plan_okD(2) [OF ok] by (auto simp: start_ready_def start_of_def bytes_of_def item_ready_def target_ready_def)
  have free: "policy_free (os_policy spec) ?d ?I" using assms(8) by (simp add: policy_free_def)
  let ?A = "chosen Skip ?d ?I"
  obtain r' d where r': "run_copy_move dp spec None r = (FDone, r')" "or_disk r' = swept dp spec d" "placed Move ?I ?A ?d d"
    using run_items_done [OF assms(1) plan off ok free assms(4) ready] assms(5,8) by (simp add: start_of_def) blast
  have sw: "or_disk r' = sweep_sources dp [Local src] d" using r'(2) assms(5,6) by (simp add: swept_def)
  have "dk_dirs d src" using r'(3) assms(10) unfolding placed_def by blast
  then have "dk_files (or_disk r') (src @ rel) = None" for rel using sweep_one [OF _ assms(1)] sw by simp
  moreover have "dk_files (or_disk r') (?t @ rel) = dk_files ?d (?t @ rel)" if f: "dk_is_file ?d (?t @ rel)" for rel
  proof -
    have "\<not> below src (?t @ rel)" using assms(12) unfolding tree_clear_def below_iff by (metis append_eq_append_conv2)
    then have "dk_files (or_disk r') (?t @ rel) = dk_files d (?t @ rel)" using sw sweep_elsewhere by simp
    moreover have "?t @ rel \<notin> ci_dst ` set ?A" using f by (auto simp: chosen_def dk_exists_def dk_is_file_def)
    moreover have "?t @ rel \<notin> ci_src ` set ?A"
      using \<open>\<not> below src (?t @ rel)\<close> tree_items_set [OF assms(2) disk_wf_finite [OF assms(3)]] by (auto simp: chosen_def)
    ultimately show ?thesis using r'(3) unfolding placed_def by simp
  qed
  ultimately show ?thesis using r'(1) by auto
qed

section \<open>Pausing and resuming a copy\<close>

text \<open>The first \<open>i\<close> items of the plan are in place, and nothing but targets has changed.\<close>

definition partial :: "disk \<Rightarrow> copy_item list \<Rightarrow> nat \<Rightarrow> disk \<Rightarrow> bool" where
  "partial d0 items i d \<longleftrightarrow>
     (\<forall>k<min i (length items). dk_files d (ci_dst (items ! k)) = dk_files d0 (ci_src (items ! k)))
     \<and> (\<forall>q. q \<notin> ci_dst ` set items \<longrightarrow> dk_files d q = dk_files d0 q)
     \<and> (\<forall>q. dk_dirs d0 q \<longrightarrow> dk_dirs d q)
     \<and> (\<forall>q. dk_dirs d q \<longrightarrow> dk_dirs d0 q \<or> (\<exists>a\<in>set items. \<exists>n<length (ci_dst a). q = take n (ci_dst a)))"

definition spec_of :: "pending_op \<Rightarrow> op_spec" where
  "spec_of p = \<lparr>os_kind = po_kind p, os_srcs = po_srcs p, os_dst = po_dst p, os_policy = po_policy p,
     os_recycle = po_recycle p, os_name_fix = po_name_fix p, os_name_overrides = po_name_overrides p\<rparr>"

definition checkpoint_of :: "pending_op \<Rightarrow> checkpoint option" where
  "checkpoint_of p =
     (if 0 < po_file_index p \<or> 0 < po_bytes_done p
      then Some \<lparr>cp_file_index = po_file_index p, cp_bytes_done = po_bytes_done p\<rparr> else None)"

text \<open>A record from which the operation can go on.\<close>

definition saved_ok :: "op_spec \<Rightarrow> disk \<Rightarrow> copy_item list \<Rightarrow> disk \<Rightarrow> pending_op \<Rightarrow> bool" where
  "saved_ok spec d0 items d p \<longleftrightarrow> spec_of p = spec \<and> po_file_index p \<le> length items \<and> partial d0 items (po_file_index p) d
     \<and> (po_file_index p < length items \<longrightarrow> item_ready d (po_bytes_done p) (items ! po_file_index p))"

lemma pending_of_simps [simp]:
  "po_op_id (pending_of spec oid rf now i b) = oid" "po_file_index (pending_of spec oid rf now i b) = i"
  "po_bytes_done (pending_of spec oid rf now i b) = b" "spec_of (pending_of spec oid rf now i b) = spec"
  by (simp_all add: pending_of_def spec_of_def)

lemma partial_mono: "partial d0 items j d \<Longrightarrow> i \<le> j \<Longrightarrow> partial d0 items i d"
  by (simp add: partial_def)

lemma partial_refl: "partial d0 items 0 d0"
  by (simp add: partial_def)

lemma partial_source:
  assumes "plan_ok d0 items" "partial d0 items i d" "a \<in> set items"
  shows "dk_files d (ci_src a) = dk_files d0 (ci_src a)"
proof -
  have "ci_src a \<notin> ci_dst ` set items" using plan_okD(5) [OF assms(1,3)] by auto
  then show ?thesis using assms(2) by (simp add: partial_def)
qed

lemma partial_plan_ok:
  assumes ok: "plan_ok d0 items" and p: "partial d0 items i d"
  shows "plan_ok d items"
proof -
  have src: "dk_files d (ci_src a) = dk_files d0 (ci_src a)" if "a \<in> set items" for a
    using partial_source [OF ok p that] .
  have dir: "\<not> dk_dirs d (ci_dst a)" if "a \<in> set items" for a
    using p plan_okD(2,4) [OF ok] that unfolding partial_def by metis
  have anc: "\<not> dk_is_file d (take n (ci_dst a)) \<and> take n (ci_dst a) \<notin> set (map ci_dst items)" if "a \<in> set items" "n < length (ci_dst a)" for a n
  proof -
    have "take n (ci_dst a) \<notin> ci_dst ` set items" using plan_okD(4) [OF ok that(1,2)] by auto
    then show ?thesis using p plan_okD(3) [OF ok that] by (simp add: partial_def dk_is_file_def)
  qed
  have "dk_files d (ci_src a) \<noteq> None \<and> ci_size a = length (dk_content d (ci_src a)) \<and> \<not> dk_dirs d (ci_dst a)
      \<and> (\<forall>n<length (ci_dst a). \<not> dk_is_file d (take n (ci_dst a)) \<and> take n (ci_dst a) \<notin> set (map ci_dst items))"
    if a: "a \<in> set items" for a
    using src [OF a] dir [OF a] anc [OF a] plan_okD(1) [OF ok a] by (auto simp: dk_content_def)
  then show ?thesis using ok unfolding plan_ok_def by blast
qed

text \<open>One item's target changes, to what its source has or to a prefix of it.\<close>

lemma partial_step:
  assumes ok: "plan_ok d0 items" and p: "partial d0 items i d" and a: "items ! j = a" "j < length items"
    and d1: "dk_files d1 = dk_files d" "\<And>q. dk_dirs d1 q \<longleftrightarrow> dk_dirs d q \<or> (\<exists>n<length (ci_dst a). q = take n (ci_dst a))"
    and ij: "i \<le> j \<or> x = dk_files d0 (ci_src a)"
  shows "partial d0 items i (dk_set (ci_dst a) x d1)"
    and "x = dk_files d0 (ci_src a) \<Longrightarrow> i = j \<Longrightarrow> partial d0 items (j + 1) (dk_set (ci_dst a) x d1)"
proof -
  have mem: "a \<in> set items" using a by auto
  have dist: "ci_dst (items ! k) \<noteq> ci_dst a" if "k < length items" "k \<noteq> j" for k
    using ok that a unfolding plan_ok_def by (auto simp: distinct_conv_nth)
  have other: "q \<notin> ci_dst ` set items \<Longrightarrow> dk_files (dk_set (ci_dst a) x d1) q = dk_files d0 q" for q
    using p mem d1(1) unfolding partial_def by auto
  have dirs: "(dk_dirs d0 q \<longrightarrow> dk_dirs (dk_set (ci_dst a) x d1) q) \<and> (dk_dirs (dk_set (ci_dst a) x d1) q \<longrightarrow>
      dk_dirs d0 q \<or> (\<exists>a\<in>set items. \<exists>n<length (ci_dst a). q = take n (ci_dst a)))" for q
    using p mem d1(2) unfolding partial_def by auto
  have fs: "dk_files (dk_set (ci_dst a) x d1) (ci_dst (items ! k)) = dk_files d0 (ci_src (items ! k))"
    if k: "k < length items" "k < i \<or> k = j" "k = j \<Longrightarrow> x = dk_files d0 (ci_src a)" for k
  proof (cases "k = j")
    case True
    then show ?thesis using k(3) a(1) by simp
  next
    case False
    then show ?thesis using dist [OF k(1) False] p d1(1) k(1,2) unfolding partial_def by simp
  qed
  show "partial d0 items i (dk_set (ci_dst a) x d1)"
  proof -
    have "\<forall>k<min i (length items). dk_files (dk_set (ci_dst a) x d1) (ci_dst (items ! k)) = dk_files d0 (ci_src (items ! k))"
    proof (intro allI impI)
      fix k assume "k < min i (length items)"
      then show "dk_files (dk_set (ci_dst a) x d1) (ci_dst (items ! k)) = dk_files d0 (ci_src (items ! k))"
        by (intro fs) (use ij in auto)
    qed
    then show ?thesis unfolding partial_def using other dirs by blast
  qed
  show "partial d0 items (j + 1) (dk_set (ci_dst a) x d1)" if "x = dk_files d0 (ci_src a)" "i = j"
  proof -
    have "\<forall>k<min (j + 1) (length items). dk_files (dk_set (ci_dst a) x d1) (ci_dst (items ! k)) = dk_files d0 (ci_src (items ! k))"
      using fs that by (metis less_Suc_eq min_less_iff_conj Suc_eq_plus1)
    then show ?thesis unfolding partial_def using other dirs by blast
  qed
qed

text \<open>The record stays good while an item is copied, and a new one for the item is good.\<close>

lemma item_ready_prefix:
  assumes "plan_ok d items" "a \<in> set items" "dk_files d (ci_dst a) = Some (take w (dk_content d (ci_src a)))"
    and "w = b \<or> ci_size a \<le> w"
  shows "item_ready d b a"
proof -
  obtain X where X: "dk_files d (ci_src a) = Some X" "ci_size a = length X" using plan_okD(1) [OF assms(1,2)] by blast
  then show ?thesis
    using assms(3,4) plan_okD(2) [OF assms(1,2)] by (auto simp: item_ready_def target_ready_def dk_content_def min_def)
qed

lemma item_ready_none:
  assumes "plan_ok d items" "a \<in> set items" "dk_files d (ci_dst a) = None"
  shows "item_ready d b a"
proof -
  obtain X where X: "dk_files d (ci_src a) = Some X" "ci_size a = length X" using plan_okD(1) [OF assms(1,2)] by blast
  then show ?thesis using assms(3) plan_okD(2) [OF assms(1,2)] by (simp add: item_ready_def target_ready_def dk_content_def)
qed

lemma item_ready_other:
  assumes "dk_files d1 (ci_src b) = dk_files d (ci_src b)" "dk_files d1 (ci_dst b) = dk_files d (ci_dst b)"
    and "\<not> dk_dirs d1 (ci_dst b)" "item_ready d n b"
  shows "item_ready d1 n b"
  using assms by (simp add: item_ready_def target_ready_def dk_content_def)

definition no_cancel :: "op_run \<Rightarrow> bool" where
  "no_cancel r \<longleftrightarrow> GCancel \<notin> set (or_gates r)"

lemma look_no_cancel: "look r = (g, r1) \<Longrightarrow> no_cancel r \<Longrightarrow> g \<noteq> GCancel \<and> no_cancel r1"
  by (auto simp: look_def no_cancel_def split: list.splits)

lemma pump_no_cancel: "no_cancel r \<Longrightarrow> fst (copy_pumped dp src t mk w l r) \<noteq> FCanceled \<and> no_cancel (snd (copy_pumped dp src t mk w l r))"
proof (induction dp src t mk w l r rule: copy_pumped.induct)
  case (1 dp src t mk w l r)
  obtain g ra where lk: "look r = (g, ra)" by (cases "look r")
  note nc = look_no_cancel [OF lk 1(3)]
  show ?case
  proof (cases "g = Go \<and> (\<exists>bs. read_chunk (dp_read dp src) (dk_content (or_disk ra) src) w op_chunk [] = Inr bs \<and> bs \<noteq> [] \<and> dp_write dp t w = None)")
    case True
    then obtain bs where bs: "g = Go" "read_chunk (dp_read dp src) (dk_content (or_disk ra) src) w op_chunk [] = Inr bs" "bs \<noteq> []"
      "dp_write dp t w = None" by blast
    show ?thesis
      using 1(1) [OF lk [symmetric] bs(1,2,3,4) refl refl] 1(2) [OF lk [symmetric] bs(1,2,3,4) refl refl] bs nc lk
      by (subst (1 2) copy_pumped.simps) (simp add: Let_def no_cancel_def)
  next
    case False
    then show ?thesis using nc lk
      by (subst (1 2) copy_pumped.simps) (cases g; auto simp: no_cancel_def split: sum.split option.split)
  qed
qed

lemma copy_one_no_cancel:
  assumes "no_cancel r"
  shows "fst (copy_one dp spec item t n idx r) \<noteq> FCanceled \<and> no_cancel (snd (copy_one dp spec item t n idx r))"
proof (cases "open_target dp n t (or_disk r)")
  case (Some d1)
  have "no_cancel (on_disk (\<lambda>_. d1) r)" using assms by (simp add: no_cancel_def)
  then show ?thesis using pump_no_cancel assms Some by (simp add: copy_one_steps Let_def split_beta)
qed (use assms in \<open>simp add: copy_one_steps\<close>)

definition goes_on :: "op_spec \<Rightarrow> disk \<Rightarrow> copy_item list \<Rightarrow> op_run \<Rightarrow> flow \<Rightarrow> op_run \<Rightarrow> bool" where
  "goes_on spec d0 items r f r' \<longleftrightarrow>
     (f = FDone \<and> partial d0 items (length items) (or_disk r')
      \<or> f = FPaused \<and> (\<exists>p. or_store r' (pg_op_id (or_rep r')) = Some p \<and> saved_ok spec d0 items (or_disk r') p))
     \<and> pg_op_id (or_rep r') = pg_op_id (or_rep r) \<and> (or_gates r = [] \<longrightarrow> f = FDone)"

lemma saved_ok_step:
  assumes ok: "plan_ok d0 items" and j: "j < length items" "items ! j = a" and p: "saved_ok spec d0 items d p" "po_file_index p \<le> j"
    and d1: "dk_files d1 = dk_files d" "\<And>q. dk_dirs d1 q \<longleftrightarrow> dk_dirs d q \<or> (\<exists>n<length (ci_dst a). q = take n (ci_dst a))"
    and full: "x = dk_files d0 (ci_src a)"
  shows "saved_ok spec d0 items (dk_set (ci_dst a) x d1) p"
proof -
  let ?d = "dk_set (ci_dst a) x d1" and ?i = "po_file_index p"
  have part: "partial d0 items ?i ?d"
    using partial_step(1) [OF ok _ j(2,1) d1] p full unfolding saved_ok_def by blast
  note ok' = partial_plan_ok [OF ok part]
  have a: "a \<in> set items" using j by auto
  have "item_ready ?d (po_bytes_done p) (items ! ?i)" if i: "?i < length items"
  proof (cases "?i = j")
    case True
    obtain X where X: "dk_files ?d (ci_src a) = Some X" "ci_size a = length X" using plan_okD(1) [OF ok' a] by blast
    have X0: "dk_files d0 (ci_src a) = Some X" using partial_source [OF ok part a] X(1) by (simp only:)
    have "dk_content ?d (ci_src a) = X" unfolding dk_content_def X(1) by simp
    then have "dk_files ?d (ci_dst a) = Some (take (length X) (dk_content ?d (ci_src a)))"
      using full X0 by simp
    then have "item_ready ?d (po_bytes_done p) a" 
      by (rule item_ready_prefix [OF ok' a]) (use X(2) in simp)
    then show ?thesis using True j(2) by simp
  next
    case False
    let ?b = "items ! ?i"
    have b: "?b \<in> set items" using i by simp
    have "ci_dst ?b \<noteq> ci_dst a" using ok False i j unfolding plan_ok_def by (auto simp: distinct_conv_nth)
    moreover have "ci_src ?b \<noteq> ci_dst a" using plan_okD(5) [OF ok b a] .
    moreover have "item_ready d (po_bytes_done p) ?b" using p(1) i unfolding saved_ok_def by blast
    moreover have "dk_files ?d (ci_src ?b) = dk_files d (ci_src ?b)" "dk_files ?d (ci_dst ?b) = dk_files d (ci_dst ?b)"
      using calculation d1(1) by simp_all
    ultimately show ?thesis using plan_okD(2) [OF ok' b] by (intro item_ready_other [of ?d ?b d])
  qed
  then show ?thesis using part p(1) unfolding saved_ok_def by blast
qed

lemma copy_items_resumable:
  assumes dp: "sound_port dp" and spec: "os_kind spec = Copy" "os_policy spec = Overwrite" and ok: "plan_ok d0 items"
  shows "items = pre @ its \<Longrightarrow> length pre = idx \<Longrightarrow> no_cancel r \<Longrightarrow> partial d0 items (max idx si) (or_disk r)
    \<Longrightarrow> (idx \<le> si \<longrightarrow> si < length items \<longrightarrow> item_ready (or_disk r) sb (items ! si))
    \<Longrightarrow> or_store r (pg_op_id (or_rep r)) = Some p \<Longrightarrow> saved_ok spec d0 items (or_disk r) p \<Longrightarrow> po_file_index p \<le> max idx si
    \<Longrightarrow> case copy_items dp spec si sb its idx r of (f, r') \<Rightarrow> goes_on spec d0 items r f r'"
proof (induction its arbitrary: pre idx r p)
  case Nil
  then show ?case by (auto simp: goes_on_def partial_def)
next
  case (Cons a its)
  have a: "items ! idx = a" "idx < length items" "a \<in> set items" using Cons(2,3) by (auto simp: nth_append)
  have next_pre: "items = (pre @ [a]) @ its" "length (pre @ [a]) = idx + 1" using Cons(2,3) by simp_all
  show ?case
  proof (cases "idx < si")
    case True
    let ?r = "on_rep (\<lambda>g. g\<lparr>pg_files_done := pg_files_done g + 1\<rparr>) r"
    have "case copy_items dp spec si sb its (idx + 1) ?r of (f, r') \<Rightarrow> goes_on spec d0 items ?r f r'"
      using Cons(4-9) True by (intro Cons(1) [OF next_pre]) (simp_all add: no_cancel_def max_def)
    moreover obtain f r' where "copy_items dp spec si sb its (idx + 1) ?r = (f, r')" by fastforce
    ultimately show ?thesis using True by (auto simp: goes_on_def)
  next
    case False
    then have m: "max idx si = idx" by simp
    obtain g r1 where l: "look r = (g, r1)" by (cases "look r")
    note la = look_fields [OF l]
    note nc = look_no_cancel [OF l Cons(4)]
    show ?thesis
    proof (cases g)
      case GPause
      then show ?thesis using l la False Cons(7,8) by (auto simp: goes_on_def)
    next
      case GCancel
      then show ?thesis using nc by simp
    next
      case Go
      have part: "partial d0 items idx (or_disk r)" using Cons(5) m by simp
      note okr = partial_plan_ok [OF ok part]
      obtain d1 where d1: "make_parent dp (ci_dst a) (or_disk r) = Some d1" "dk_files d1 = dk_files (or_disk r)"
        "\<And>q. dk_dirs d1 q \<longleftrightarrow> dk_dirs (or_disk r) q \<or> (\<exists>n<length (ci_dst a). q = take n (ci_dst a))"
        using make_parent_ok [OF dp plan_okD(3) [OF okr a(3)]] by blast
      have nodir: "\<not> dk_dirs d1 (ci_dst a)"
        using plan_okD(2,4) [OF okr a(3)] d1(3) a(3) by metis
      obtain X where X: "dk_files (or_disk r) (ci_src a) = Some X" "ci_size a = length X" using plan_okD(1) [OF okr a(3)] by auto
      have X0: "dk_files d0 (ci_src a) = Some X" using partial_source [OF ok part a(3)] X(1) by simp
      have ne: "ci_src a \<noteq> ci_dst a" using plan_okD(5) [OF ok a(3) a(3)] .
      define n where "n = (if idx = si then min sb (ci_size a) else 0)"
      define r3 where "r3 = on_rep (\<lambda>g. g\<lparr>pg_current := file_name_of (ci_src a)\<rparr>) (on_disk (\<lambda>_. d1) r1)"
      have r3: "or_disk r3 = d1" "or_gates r3 = or_gates r1" "pg_op_id (or_rep r3) = pg_op_id (or_rep r)"
          "or_store r3 = or_store r" "no_cancel r3"
        using la nc by (simp_all add: r3_def no_cancel_def)
      have ready: "target_ready X n (ci_dst a) d1"
      proof (cases "idx = si")
        case True
        then have "item_ready (or_disk r) sb a" using Cons(6) a by simp
        then show ?thesis using True nodir d1(2) X by (simp add: item_ready_def target_ready_def n_def dk_content_def)
      qed (use nodir in \<open>simp add: n_def target_ready_def\<close>)
      have e0: "case copy_one dp spec a (ci_dst a) n idx r3 of (f, r') \<Rightarrow> copy_end spec X (ci_dst a) idx r3 f r'"
        using X ne ready d1(2) r3(1) by (intro copy_one_ends [OF dp]) simp_all
      obtain f r4 where r4: "copy_one dp spec a (ci_dst a) n idx r3 = (f, r4)" by fastforce
      have e: "copy_end spec X (ci_dst a) idx r3 f r4" using e0 r4 by simp
      have nc4: "f \<noteq> FCanceled" "no_cancel r4" using copy_one_no_cancel [OF r3(5), of dp spec a "ci_dst a" n idx] r4 by simp_all
      have oid: "pg_op_id (or_rep r4) = pg_op_id (or_rep r)" using e r3(3) by (simp add: copy_end_def Let_def)
      have step: "copy_items dp spec si sb (a # its) idx r =
          (case (f, r4) of
             (FDone, r4) \<Rightarrow> copy_items dp spec si sb its (idx + 1) (emit (on_rep (\<lambda>g. g\<lparr>pg_files_done := pg_files_done g + 1\<rparr>) r4))
           | (f, r4) \<Rightarrow> (f, r4))"
        using False l la Go d1(1) spec r4
        by (simp add: resolve_target_def Let_def r3_def [symmetric] n_def [symmetric] split: flow.split)
      consider "f = FDone" | "f = FPaused" using e nc4(1) by (auto simp: copy_end_def Let_def)
      then show ?thesis
      proof cases
        case 1
        then have d4: "or_disk r4 = dk_set (ci_dst a) (Some X) d1" using e r3(1) by (simp add: copy_end_def Let_def)
        have part4: "partial d0 items (idx + 1) (or_disk r4)"
          unfolding d4 using partial_step(2) [OF ok part a(1,2) d1(2,3)] X0 by simp
        have old: "saved_ok spec d0 items (or_disk r4) p"
          unfolding d4 using saved_ok_step [OF ok a(2,1) Cons(8) _ d1(2,3)] Cons(9) m X0 by simp
        have new: "saved_ok spec d0 items (or_disk r4) (pending_of spec oid rf now idx w)" for oid rf now w
        proof -
          have okd: "plan_ok (or_disk r4) items" using partial_plan_ok [OF ok part4] .
          have "dk_files (or_disk r4) (ci_dst a) = Some (take (length X) (dk_content (or_disk r4) (ci_src a)))"
            using d4 X d1(2) ne by (simp add: dk_content_def)
          then show ?thesis
            using item_ready_prefix [OF okd a(3)] X(2) a(1,2) partial_mono [OF part4, of idx] by (simp add: saved_ok_def)
        qed
        obtain p4 where p4: "or_store r4 (pg_op_id (or_rep r)) = Some p4" "saved_ok spec d0 items (or_disk r4) p4" "po_file_index p4 \<le> idx + 1"
        proof (cases "or_store r4 (pg_op_id (or_rep r)) = or_store r (pg_op_id (or_rep r))")
          case True
          then show ?thesis using that [of p] Cons(7,9) old m by simp
        next
          case False
          then obtain w where "or_store r4 (pg_op_id (or_rep r)) = Some (pending_of spec (pg_op_id (or_rep r3)) (pg_resumed_from (or_rep r3)) (or_now r3) idx w)"
            using e r3(3,4) unfolding copy_end_def Let_def by auto
          then show ?thesis using that new by simp
        qed
        let ?r = "emit (on_rep (\<lambda>g. g\<lparr>pg_files_done := pg_files_done g + 1\<rparr>) r4)"
        have "case copy_items dp spec si sb its (idx + 1) ?r of (f, r') \<Rightarrow> goes_on spec d0 items ?r f r'"
          using nc4(2) part4 p4 False oid by (intro Cons(1) [OF next_pre, of _ p4]) (simp_all add: no_cancel_def max_def)
        moreover obtain f' r' where "copy_items dp spec si sb its (idx + 1) ?r = (f', r')" by fastforce
        moreover have "or_gates r = [] \<Longrightarrow> or_gates r4 = []" using e r3(2) la(7) by (simp add: copy_end_def Let_def)
        ultimately show ?thesis using step 1 oid by (auto simp: goes_on_def)
      next
        case 2
        then obtain w where w: "w \<le> length X" "or_disk r4 = dk_set (ci_dst a) (Some (take w X)) d1"
          "or_store r4 (pg_op_id (or_rep r3)) = Some (pending_of spec (pg_op_id (or_rep r3)) (pg_resumed_from (or_rep r3)) (or_now r3) idx w)"
          using e r3(1) by (auto simp: copy_end_def Let_def)
        have part4: "partial d0 items idx (or_disk r4)"
          unfolding w(2) using partial_step(1) [OF ok part a(1,2) d1(2,3)] by simp
        have okd: "plan_ok (or_disk r4) items" using partial_plan_ok [OF ok part4] .
        have "dk_files (or_disk r4) (ci_dst a) = Some (take w (dk_content (or_disk r4) (ci_src a)))"
          using w(2) X d1(2) ne by (simp add: dk_content_def)
        then have "item_ready (or_disk r4) w a" using item_ready_prefix [OF okd a(3)] by blast
        then have "saved_ok spec d0 items (or_disk r4) (pending_of spec oid rf now idx w)" for oid rf now
          using part4 a(1,2) by (simp add: saved_ok_def)
        moreover have "or_gates r \<noteq> []" using 2 e r3(2) la(7) by (auto simp: copy_end_def Let_def)
        ultimately show ?thesis using step 2 oid w(3) r3(3) by (simp add: goes_on_def)
      qed
    qed
  qed
qed

text \<open>\<open>OpQueue::resume\<close>: the record moves to a new identifier and a fresh job starts from its checkpoint.\<close>

definition fresh_progress :: "string \<Rightarrow> op_kind \<Rightarrow> transfer_direction \<Rightarrow> string option \<Rightarrow> op_state \<Rightarrow> op_progress" where
  "fresh_progress oid kind dir resumed_from st =
     \<lparr>pg_op_id = oid, pg_kind = kind, pg_state = st, pg_current = [], pg_files_done = 0, pg_files_total = 0,
      pg_bytes_done = 0, pg_bytes_total = 0, pg_error = None, pg_direction = dir, pg_resumable = None,
      pg_resumed_from = resumed_from\<rparr>"

definition requeued :: "string \<Rightarrow> pending_op \<Rightarrow> op_run \<Rightarrow> op_run" where
  "requeued nid p r =
     r\<lparr>or_store := (or_store r)(nid \<mapsto> p\<lparr>po_op_id := nid, po_resumed_from := Some (po_op_id p)\<rparr>),
       or_rep := fresh_progress nid (po_kind p) (pg_direction (or_rep r)) (Some (po_op_id p)) Running\<rparr>"

fun resumed_runs :: "disk_port \<Rightarrow> (string \<times> gate list) list \<Rightarrow> flow \<times> op_run \<Rightarrow> flow \<times> op_run" where
  "resumed_runs dp [] x = x"
| "resumed_runs dp ((nid, gs) # rs) (f, r) =
     (case (f, or_store r (pg_op_id (or_rep r))) of
        (FPaused, Some p) \<Rightarrow>
          resumed_runs dp rs (run_copy_move dp (spec_of p) (checkpoint_of p) ((requeued nid p r)\<lparr>or_gates := gs\<rparr>))
      | _ \<Rightarrow> (f, r))"

text \<open>The order of the walk below a directory depends on nothing but the files there.\<close>

definition walk_stable :: "disk_port \<Rightarrow> bool" where
  "walk_stable dp \<longleftrightarrow> (\<forall>d d' p. (\<forall>r. dk_files d (p @ r) = dk_files d' (p @ r)) \<longrightarrow> dp_walk dp d p = dp_walk dp d' p)"

lemma checkpoint_of_simps [simp]:
  "start_of (checkpoint_of p) = po_file_index p" "bytes_of (checkpoint_of p) = po_bytes_done p"
  by (auto simp: checkpoint_of_def start_of_def bytes_of_def)

lemma resumable_run:
  assumes dp: "sound_port dp" and spec: "os_kind spec = Copy" "os_policy spec = Overwrite" and ok: "plan_ok d0 items"
    and plan: "expand_plan dp (or_disk r) spec = Inr items" and "no_cancel r"
    and p: "or_store r (pg_op_id (or_rep r)) = Some p" "saved_ok spec d0 items (or_disk r) p"
  shows "case run_copy_move dp spec (checkpoint_of p) r of (f, r') \<Rightarrow> goes_on spec d0 items r f r'"
proof -
  have i: "min (po_file_index p) (length items) = po_file_index p" using p(2) by (simp add: saved_ok_def)
  have "not_taken dp spec (checkpoint_of p) (or_disk r) (or_disk r)" by (rule not_taken_off) (simp add: spec)
  from run_without_shortcut [OF plan this] obtain rep where rep: "pg_op_id rep = pg_op_id (or_rep r)"
    "run_copy_move dp spec (checkpoint_of p) r =
      (case copy_items dp spec (po_file_index p) (po_bytes_done p) items 0 (r\<lparr>or_rep := rep, or_disk := or_disk r\<rparr>) of
         (FDone, r4) \<Rightarrow> (FDone, on_disk (swept dp spec) r4)
       | (f, r4) \<Rightarrow> (f, r4))"
    unfolding checkpoint_of_simps i by blast
  have r: "r\<lparr>or_rep := rep, or_disk := or_disk r\<rparr> = r\<lparr>or_rep := rep\<rparr>" by simp
  obtain f r' where fr: "copy_items dp spec (po_file_index p) (po_bytes_done p) items 0 (r\<lparr>or_rep := rep\<rparr>) = (f, r')"
    by fastforce
  have "case copy_items dp spec (po_file_index p) (po_bytes_done p) items 0 (r\<lparr>or_rep := rep\<rparr>) of
      (f, r') \<Rightarrow> goes_on spec d0 items (r\<lparr>or_rep := rep\<rparr>) f r'"
    by (rule copy_items_resumable [OF dp spec ok, where pre = "[]" and p = p])
      (use assms(6) p rep(1) in \<open>simp_all add: no_cancel_def saved_ok_def\<close>)
  then have "goes_on spec d0 items r f r'" using fr rep(1) by (auto simp: goes_on_def)
  moreover have "on_disk (swept dp spec) r' = r'" using spec by (simp add: swept_def on_disk_def)
  ultimately show ?thesis using rep(2) r fr by (cases f) auto
qed

lemma partial_finite:
  assumes "partial d0 items i d" "finite (dom (dk_files d0))"
  shows "finite (dom (dk_files d))"
proof (rule finite_subset)
  show "dom (dk_files d) \<subseteq> dom (dk_files d0) \<union> ci_dst ` set items"
    using assms(1) unfolding partial_def by (metis (no_types, lifting) Un_iff domIff subsetI)
  show "finite (dom (dk_files d0) \<union> ci_dst ` set items)" using assms(2) by simp
qed

lemma partial_same_plan:
  assumes w: "walks dp" "walk_stable dp" and wf: "disk_wf d0" and clear: "tree_clear d0 src (dst @ [last src])"
    and src: "src \<noteq> []" "dk_dirs d0 src" "dk_dirs d0 dst" and spec: "os_srcs spec = [Local src]" "os_dst spec = Local dst"
    and part: "partial d0 (tree_items dp d0 src (dst @ [last src])) i d"
  shows "expand_plan dp d spec = Inr (tree_items dp d0 src (dst @ [last src]))"
proof -
  let ?t = "dst @ [last src]"
  have apart: "src @ r \<noteq> ?t @ r'" for r r'
    using clear unfolding tree_clear_def below_iff by (metis append_eq_append_conv2)
  have dsts: "q \<in> ci_dst ` set (tree_items dp d0 src ?t) \<Longrightarrow> \<exists>r. q = ?t @ r" for q
    using tree_items_set [OF w(1) disk_wf_finite [OF wf]] by auto
  have same: "dk_files d (src @ r) = dk_files d0 (src @ r)" for r
  proof -
    have "src @ r \<notin> ci_dst ` set (tree_items dp d0 src ?t)" using dsts apart by blast
    then show ?thesis using part unfolding partial_def by blast
  qed
  then have walk: "dp_walk dp d src = dp_walk dp d0 src" using w(2) unfolding walk_stable_def by blast
  have "item_of d q x = item_of d0 q x" if q: "q \<in> set (fst (dp_walk dp d0 src))" for q x
  proof -
    obtain r where "q = src @ r" using q walks_set [OF w(1) disk_wf_finite [OF wf], of q src] by auto
    then show ?thesis using same [of r] by (simp add: item_of_def dk_content_def)
  qed
  then have items: "tree_items dp d src ?t = tree_items dp d0 src ?t" unfolding tree_items_def walk by (intro map_cong refl)
  have "dst \<notin> ci_dst ` set (tree_items dp d0 src ?t)"
  proof
    assume "dst \<in> ci_dst ` set (tree_items dp d0 src ?t)"
    then obtain r where "dst = ?t @ r" using dsts by blast
    from arg_cong [OF this, of length] show False by simp
  qed
  then have "\<not> dk_is_file d dst" using part dir_no_file [OF wf src(3)] unfolding partial_def dk_is_file_def by metis
  moreover have "dk_dirs d src" "dk_dirs d dst" using part src unfolding partial_def by blast+
  ultimately show ?thesis
    using plan_of_tree [OF w(1) partial_finite [OF part disk_wf_finite [OF wf]] _ src(1) _ spec] items by (simp add: tree_target_def)
qed

lemma partial_delivers:
  assumes w: "walks dp" and wf: "disk_wf d0" "dk_dirs d0 src"
    and part: "partial d0 (tree_items dp d0 src t) (length (tree_items dp d0 src t)) d"
  shows "dk_is_file d0 (src @ rel) \<Longrightarrow> dk_files d (t @ rel) = dk_files d0 (src @ rel)"
    and "(\<forall>rel. q = t @ rel \<longrightarrow> \<not> dk_is_file d0 (src @ rel)) \<Longrightarrow> dk_files d q = dk_files d0 q"
proof -
  let ?I = "tree_items dp d0 src t"
  show "dk_files d (t @ rel) = dk_files d0 (src @ rel)" if f: "dk_is_file d0 (src @ rel)"
  proof -
    have "rel \<noteq> []" using f dir_no_file [OF wf] by auto
    then have "item_of d0 (src @ rel) (t @ rel) \<in> set ?I" using f tree_items_set [OF w disk_wf_finite [OF wf(1)]] by blast
    then obtain k where "k < length ?I" "?I ! k = item_of d0 (src @ rel) (t @ rel)" by (auto simp: in_set_conv_nth)
    then show ?thesis using part unfolding partial_def by (metis item_of_simps(1,2) min.idem)
  qed
  show "dk_files d q = dk_files d0 q" if q: "\<forall>rel. q = t @ rel \<longrightarrow> \<not> dk_is_file d0 (src @ rel)"
  proof -
    have "q \<notin> ci_dst ` set ?I" using q tree_items_set [OF w disk_wf_finite [OF wf(1)]] by auto
    then show ?thesis using part unfolding partial_def by blast
  qed
qed

text \<open>C11. Pausing does not change the outcome.  A directory that is not the root is copied into an existing one
  under the policy to overwrite, on a sound disk on which every call succeeds and whose walk of a directory
  lists each file once, in an order that depends on these files alone; neither path lies in the
  other, and nothing of another kind is in the way (no directory where a file goes, no file where a
  directory goes).  The run starts with a fresh record of its request, is paused any number of times, at any of its looks at the control flags,
  and resumed each time from the record it kept, and never cancelled.  Then it ends with every file
  of the source in its place and no other file changed.\<close>

theorem copy_survives_pauses:
  assumes "sound_port dp" "walks dp" "walk_stable dp" "disk_wf (or_disk r)"
    and "os_kind spec = Copy" "os_policy spec = Overwrite" "os_srcs spec = [Local src]" "os_dst spec = Local dst"
    and "src \<noteq> []" "dk_dirs (or_disk r) src" "dk_dirs (or_disk r) dst" "tree_clear (or_disk r) src (dst @ [last src])"
    and "or_store r (pg_op_id (or_rep r)) = Some p" "spec_of p = spec" "po_file_index p = 0" "po_bytes_done p = 0"
    and "GCancel \<notin> set (or_gates r)" "\<forall>x\<in>set resumes. GCancel \<notin> set (snd x)"
  shows "case resumed_runs dp (resumes @ [(nid, [])]) (run_copy_move dp spec None r) of (f, r') \<Rightarrow>
    f = FDone
    \<and> (\<forall>rel. dk_is_file (or_disk r) (src @ rel) \<longrightarrow>
         dk_files (or_disk r') (dst @ [last src] @ rel) = dk_files (or_disk r) (src @ rel))
    \<and> (\<forall>q. (\<forall>rel. q = dst @ [last src] @ rel \<longrightarrow> \<not> dk_is_file (or_disk r) (src @ rel)) \<longrightarrow>
         dk_files (or_disk r') q = dk_files (or_disk r) q)"
proof -
  let ?t = "dst @ [last src]" and ?d = "or_disk r"
  let ?I = "tree_items dp ?d src ?t"
  note ok = tree_items_ok [OF assms(4,2,12)]
  have plan: "expand_plan dp d spec = Inr ?I" if "partial ?d ?I i d" for d i
    by (rule partial_same_plan [OF assms(2,3,4,12,9,10,11,7,8) that])
  have runs: "case resumed_runs dp (rs @ [(nid, [])]) (f, q) of (f', r') \<Rightarrow> f' = FDone \<and> partial ?d ?I (length ?I) (or_disk r')"
    if "\<forall>x\<in>set rs. GCancel \<notin> set (snd x)" "goes_on spec ?d ?I q0 f q" for rs q0 f q
    using that
  proof (induction rs arbitrary: f q q0)
    case Nil
    show ?case
    proof (cases "f = FDone")
      case True
      then show ?thesis using Nil(2) by (simp add: goes_on_def)
    next
      case False
      then obtain p' where p': "f = FPaused" "or_store q (pg_op_id (or_rep q)) = Some p'" "saved_ok spec ?d ?I (or_disk q) p'"
        using Nil(2) by (auto simp: goes_on_def)
      let ?q = "(requeued nid p' q)\<lparr>or_gates := []\<rparr>" and ?p = "p'\<lparr>po_op_id := nid, po_resumed_from := Some (po_op_id p')\<rparr>"
      have sp: "spec_of p' = spec" "checkpoint_of ?p = checkpoint_of p'" using p'(3) by (auto simp: saved_ok_def checkpoint_of_def)
      have "case run_copy_move dp spec (checkpoint_of ?p) ?q of (f, r') \<Rightarrow> goes_on spec ?d ?I ?q f r'"
        using plan p'(3)
        by (intro resumable_run [OF assms(1,5,6) ok])
          (auto simp: requeued_def fresh_progress_def no_cancel_def saved_ok_def spec_of_def)
      then show ?thesis using p'(1,2) sp by (auto simp: goes_on_def split_beta)
    qed
  next
    case (Cons x rs)
    obtain nid' gs where x: "x = (nid', gs)" by (cases x)
    show ?case
    proof (cases "f = FDone")
      case True
      then show ?thesis using Cons(3) x by (simp add: goes_on_def)
    next
      case False
      then obtain p' where p': "f = FPaused" "or_store q (pg_op_id (or_rep q)) = Some p'" "saved_ok spec ?d ?I (or_disk q) p'"
        using Cons(3) by (auto simp: goes_on_def)
      let ?q = "(requeued nid' p' q)\<lparr>or_gates := gs\<rparr>" and ?p = "p'\<lparr>po_op_id := nid', po_resumed_from := Some (po_op_id p')\<rparr>"
      have sp: "spec_of p' = spec" "checkpoint_of ?p = checkpoint_of p'" using p'(3) by (auto simp: saved_ok_def checkpoint_of_def)
      have run: "case run_copy_move dp spec (checkpoint_of ?p) ?q of (f, r') \<Rightarrow> goes_on spec ?d ?I ?q f r'"
        using plan p'(3) Cons(2) x
        by (intro resumable_run [OF assms(1,5,6) ok])
          (auto simp: requeued_def fresh_progress_def no_cancel_def saved_ok_def spec_of_def)
      obtain f' q' where "run_copy_move dp spec (checkpoint_of ?p) ?q = (f', q')" by fastforce
      then show ?thesis using Cons(1) [of ?q f' q'] Cons(2) run p'(1,2) sp x by simp
    qed
  qed
  have p0: "saved_ok spec ?d ?I ?d p"
    using assms(14,15,16) plan_okD(2) [OF ok] by (auto simp: saved_ok_def partial_refl item_ready_def target_ready_def)
  have "checkpoint_of p = None" using assms(15,16) by (simp add: checkpoint_of_def)
  then have "case run_copy_move dp spec None r of (f, r') \<Rightarrow> goes_on spec ?d ?I r f r'"
    using resumable_run [OF assms(1,5,6) ok plan [OF partial_refl] _ assms(13) p0] assms(17) by (simp add: no_cancel_def)
  moreover obtain f q where fq: "run_copy_move dp spec None r = (f, q)" by fastforce
  ultimately have "case resumed_runs dp (resumes @ [(nid, [])]) (f, q) of (f', r') \<Rightarrow> f' = FDone \<and> partial ?d ?I (length ?I) (or_disk r')"
    using runs assms(18) by simp
  moreover obtain f' r' where "resumed_runs dp (resumes @ [(nid, [])]) (f, q) = (f', r')" by fastforce
  ultimately have "f' = FDone" "partial ?d ?I (length ?I) (or_disk r')" "resumed_runs dp (resumes @ [(nid, [])]) (run_copy_move dp spec None r) = (f', r')"
    using fq by simp_all
  then show ?thesis
    using partial_delivers [OF assms(2,4,10), of ?t "or_disk r'"] by (simp del: append.simps)
qed

section \<open>Examples\<close>

text \<open>A disk from lists of files and directories, a system that lists by name and never fails, a run at its start.\<close>

definition listed :: "disk \<Rightarrow> path \<Rightarrow> path list" where
  "listed d p = sorted_list_of_set {q. dk_is_file d q \<and> below p q \<and> q \<noteq> p}"

definition plain_port :: "(disk \<Rightarrow> path \<Rightarrow> path \<Rightarrow> bool) \<Rightarrow> disk_port" where
  "plain_port ren =
     \<lparr>dp_walk = (\<lambda>d p. (listed d p, True)), dp_open = (\<lambda>_. True), dp_create = (\<lambda>_. True), dp_mkdir = (\<lambda>_. True),
      dp_remove = (\<lambda>_. True), dp_read = (\<lambda>_ _. Some 4095), dp_write = (\<lambda>_ _. None), dp_rename = ren,
      dp_keeps = (\<lambda>_ _. False), dp_rmtree_ok = (\<lambda>_. True), dp_store_ok = True\<rparr>"

definition disk_of :: "(path \<times> bytes) list \<Rightarrow> path list \<Rightarrow> disk" where
  "disk_of fs ds = \<lparr>dk_files = map_of fs, dk_dirs = (\<lambda>q. q \<in> set ds)\<rparr>"

definition plain_spec :: "op_kind \<Rightarrow> conflict_policy \<Rightarrow> path \<Rightarrow> path \<Rightarrow> op_spec" where
  "plain_spec kind policy src dst =
     \<lparr>os_kind = kind, os_srcs = [Local src], os_dst = Local dst, os_policy = policy, os_recycle = False,
      os_name_fix = None, os_name_overrides = []\<rparr>"

definition plain_run :: "op_spec \<Rightarrow> gate list \<Rightarrow> disk \<Rightarrow> op_run" where
  "plain_run spec gs d =
     \<lparr>or_disk = d, or_gates = gs, or_rep = fresh_progress ''op'' (os_kind spec) DirLocal None Running, or_emits = [],
      or_store = [''op'' \<mapsto> pending_of spec ''op'' None 0 0 0], or_now = 0, or_millis = 0\<rparr>"

lemma plain_simps [simp]:
  "or_disk (plain_run spec gs d) = d" "or_gates (plain_run spec gs d) = gs" "pg_op_id (or_rep (plain_run spec gs d)) = ''op''"
  "or_store (plain_run spec gs d) ''op'' = Some (pending_of spec ''op'' None 0 0 0)"
  "os_kind (plain_spec k pol src dst) = k" "os_policy (plain_spec k pol src dst) = pol"
  "os_srcs (plain_spec k pol src dst) = [Local src]" "os_dst (plain_spec k pol src dst) = Local dst"
  "dk_files (disk_of fs ds) = map_of fs" "dk_dirs (disk_of fs ds) q = (q \<in> set ds)"
  "dp_rename (plain_port ren) = ren"
  by (simp_all add: plain_run_def plain_spec_def disk_of_def fresh_progress_def plain_port_def)

lemma plain_sound [simp]: "sound_port (plain_port ren)"
  by (simp add: sound_port_def plain_port_def)

lemma listed_finite: "finite (dom (dk_files d)) \<Longrightarrow> finite {q. dk_is_file d q \<and> below p q \<and> q \<noteq> p}"
  by (rule finite_subset [of _ "dom (dk_files d)"]) (auto simp: dk_is_file_def)

lemma plain_walks [simp]: "walks (plain_port ren)"
  by (simp add: walks_def plain_port_def listed_def listed_finite)

lemma plain_walk_stable [simp]: "walk_stable (plain_port ren)"
  unfolding walk_stable_def
proof (intro allI impI)
  fix d d' :: disk and p
  assume "\<forall>r. dk_files d (p @ r) = dk_files d' (p @ r)"
  then have "{q. dk_is_file d q \<and> below p q \<and> q \<noteq> p} = {q. dk_is_file d' q \<and> below p q \<and> q \<noteq> p}"
    unfolding dk_is_file_def below_iff by auto
  then show "dp_walk (plain_port ren) d p = dp_walk (plain_port ren) d' p" by (simp add: plain_port_def listed_def)
qed

lemma disk_of_wf:
  assumes "list_all (\<lambda>p. p \<notin> set ds \<and> list_all (\<lambda>n. take n p \<in> set ds) [0..<length p] \<and> [] \<notin> set p) (map fst fs)"
    and "list_all (\<lambda>p. list_all (\<lambda>n. take n p \<in> set ds) [0..<length p] \<and> [] \<notin> set p) ds"
  shows "disk_wf (disk_of fs ds)"
proof -
  have isf: "p \<in> fst ` set fs" if "map_of fs p = Some b" for p b using map_of_SomeD [OF that] by force
  have "dk_dirs (disk_of fs ds) (take n p)" if "p \<in> set ds" for p n
    using assms(2) that by (cases "n < length p") (auto simp: list_all_iff)
  then show ?thesis
    using assms unfolding disk_wf_def dk_is_file_def dk_exists_def
    by (auto simp: list_all_iff finite_dom_map_of dest!: isf)
qed

lemma disk_of_clear:
  assumes "\<not> below src t" "\<not> below t src" "list_all (\<lambda>n. take n t \<notin> fst ` set fs) [0..<length t]"
    and "list_all (\<lambda>p. below src p \<longrightarrow> t @ drop (length src) p \<notin> set ds
        \<and> list_all (\<lambda>n. t @ take n (drop (length src) p) \<notin> fst ` set fs) [0..<length p - length src]) (map fst fs)"
  shows "tree_clear (disk_of fs ds) src t"
proof -
  have isf: "dk_is_file (disk_of fs ds) p \<longleftrightarrow> p \<in> fst ` set fs" for p by (simp add: dk_is_file_def map_of_eq_None_iff)
  have "t @ rel \<notin> set ds \<and> (\<forall>n<length rel. t @ take n rel \<notin> fst ` set fs)" if "src @ rel \<in> fst ` set fs" for rel
  proof -
    have "\<forall>p\<in>fst ` set fs. below src p \<longrightarrow> t @ drop (length src) p \<notin> set ds
        \<and> (\<forall>n<length p - length src. t @ take n (drop (length src) p) \<notin> fst ` set fs)"
      using assms(4) by (simp add: list_all_iff)
    from bspec [OF this that] show ?thesis by simp
  qed
  then show ?thesis using assms(1,2,3) unfolding tree_clear_def isf by (auto simp: list_all_iff)
qed

definition two_files :: disk where
  "two_files = disk_of [([''s'', ''a''], [1, 2]), ([''s'', ''b''], [3])] [[], [''s''], [''d'']]"

lemma two_files_wf: "disk_wf two_files"
  unfolding two_files_def by (rule disk_of_wf) simp_all

lemma two_files_clear: "tree_clear two_files [''s''] [''d'', ''s'']"
  unfolding two_files_def by (rule disk_of_clear) (simp_all add: below_def)

theorem copy_keeps_existing_witness:
  "dk_files (or_disk (snd (run_copy_move (plain_port (\<lambda>_ _ _. True)) (plain_spec Copy Skip [''s''] [''d'']) None
     (plain_run (plain_spec Copy Skip [''s''] [''d'']) [Go, GCancel] two_files)))) [''s'', ''b''] = Some [3]"
  by (rule copy_keeps_existing) (simp_all add: two_files_def)

theorem copy_tree_delivers_witness:
  "\<exists>r'. run_copy_move (plain_port (\<lambda>_ _ _. True)) (plain_spec Copy Overwrite [''s''] [''d'']) None
     (plain_run (plain_spec Copy Overwrite [''s''] [''d'']) [] two_files) = (FDone, r')
   \<and> dk_files (or_disk r') [''d'', ''s'', ''a''] = Some [1, 2] \<and> dk_files (or_disk r') [''d'', ''s'', ''b''] = Some [3]"
proof -
  let ?spec = "plain_spec Copy Overwrite [''s''] [''d'']"
  obtain r' where r': "run_copy_move (plain_port (\<lambda>_ _ _. True)) ?spec None (plain_run ?spec [] two_files) = (FDone, r')"
    "\<And>rel. dk_is_file two_files ([''s''] @ rel) \<Longrightarrow> dk_files (or_disk r') ([''d'', ''s''] @ rel) = dk_files two_files ([''s''] @ rel)"
    using copy_tree_delivers [of "plain_port (\<lambda>_ _ _. True)" "plain_run ?spec [] two_files" ?spec "[''s'']" "[''d'']"]
      two_files_wf two_files_clear by (auto simp: two_files_def)
  show ?thesis using r'(1) r'(2) [of "[''a'']"] r'(2) [of "[''b'']"] by (auto simp: two_files_def dk_is_file_def)
qed

definition both_sides :: disk where
  "both_sides = disk_of [([''s'', ''a''], [1, 2]), ([''s'', ''b''], [3]), ([''d'', ''s'', ''a''], [9])] [[], [''s''], [''d''], [''d'', ''s'']]"

lemma both_sides_wf: "disk_wf both_sides"
  unfolding both_sides_def by (rule disk_of_wf) simp_all

lemma both_sides_clear: "tree_clear both_sides [''s''] [''d'', ''s'']"
  unfolding both_sides_def by (rule disk_of_clear) (simp_all add: below_def)

theorem move_skip_loses_files_witness:
  "\<exists>r'. run_copy_move (plain_port (\<lambda>d p q. \<not> dk_dirs d q)) (plain_spec Move Skip [''s''] [''d'']) None
     (plain_run (plain_spec Move Skip [''s''] [''d'']) [] both_sides) = (FDone, r')
   \<and> dk_files (or_disk r') [''s'', ''a''] = None \<and> dk_files (or_disk r') [''d'', ''s'', ''a''] = Some [9]"
proof -
  let ?spec = "plain_spec Move Skip [''s''] [''d'']" and ?dp = "plain_port (\<lambda>d p q. \<not> dk_dirs d q)"
  obtain r' where r': "run_copy_move ?dp ?spec None (plain_run ?spec [] both_sides) = (FDone, r')"
    "\<And>rel. dk_files (or_disk r') ([''s''] @ rel) = None"
    "\<And>rel. dk_is_file both_sides ([''d'', ''s''] @ rel) \<Longrightarrow> dk_files (or_disk r') ([''d'', ''s''] @ rel) = dk_files both_sides ([''d'', ''s''] @ rel)"
    using move_skip_loses_files [of ?dp "plain_run ?spec [] both_sides" ?spec "[''s'']" "[''d'']"]
      both_sides_wf both_sides_clear by (auto simp: both_sides_def)
  show ?thesis using r'(1) r'(2) [of "[''a'']"] r'(3) [of "[''a'']"] by (auto simp: both_sides_def dk_is_file_def)
qed

theorem copy_survives_pauses_witness:
  "case resumed_runs (plain_port (\<lambda>_ _ _. True)) ([(''op2'', [Go, GPause])] @ [(''op3'', [])])
      (run_copy_move (plain_port (\<lambda>_ _ _. True)) (plain_spec Copy Overwrite [''s''] [''d'']) None
        (plain_run (plain_spec Copy Overwrite [''s''] [''d'']) [Go, Go, GPause] two_files)) of (f, r') \<Rightarrow>
     f = FDone \<and> dk_files (or_disk r') [''d'', ''s'', ''b''] = Some [3]"
proof -
  let ?spec = "plain_spec Copy Overwrite [''s''] [''d'']" and ?dp = "plain_port (\<lambda>_ _ _. True)"
  define x where "x = resumed_runs ?dp ([(''op2'', [Go, GPause])] @ [(''op3'', [])]) (run_copy_move ?dp ?spec None (plain_run ?spec [Go, Go, GPause] two_files))"
  have "case x of (f, r') \<Rightarrow> f = FDone
      \<and> (\<forall>rel. dk_is_file two_files ([''s''] @ rel) \<longrightarrow> dk_files (or_disk r') ([''d''] @ [''s''] @ rel) = dk_files two_files ([''s''] @ rel))"
    using copy_survives_pauses [of ?dp "plain_run ?spec [Go, Go, GPause] two_files" ?spec "[''s'']" "[''d'']"
        "pending_of ?spec ''op'' None 0 0 0" "[(''op2'', [Go, GPause])]" "''op3''"] two_files_wf two_files_clear
    unfolding x_def [symmetric] by (auto simp: two_files_def)
  then show ?thesis unfolding x_def [symmetric] by (auto simp: two_files_def dk_is_file_def split: prod.splits)
qed

end
