(* ===== verification/File_Hazards.thy ===== *)
theory File_Hazards
  imports File_Copy
begin

text \<open>
  Where the file operations of \<open>crates/file-core/src/ops.rs\<close> lose or misplace data, each as a run of the
  model: the shortcut of a move replaces what is in the way whatever the policy says, a file copied onto
  itself is emptied, and an operation resumed after a pause takes its own partial file for a conflict,
  its shrunken plan for the old one, or its new directory for one that was there before.
\<close>

section \<open>The shortcut of a move\<close>

lemma dir_name:
  assumes "disk_wf d" "dk_exists d src" "src \<noteq> []" "dk_dirs d dst"
  shows "target_for d src dst = dst @ [last src]"
proof -
  have "[] \<notin> set src" using assms(1,2) unfolding disk_wf_def by blast
  then have "last src \<noteq> []" using last_in_set [OF assms(3)] by metis
  then show ?thesis using assms(3,4) by (simp add: target_for_def child_def file_name_of_def)
qed

text \<open>Moving a file ignores the conflict policy: when the system agrees to rename the file, a file of the
  same name in the target directory is replaced and lost, also under the policies that skip, rename or
  ask, which are only looked at when files are copied one by one.
\<close>

lemma move_shortcut_overwrites:
  assumes "sound_port dp" "disk_wf (or_disk r)"
    and "os_kind spec = Move" "os_srcs spec = [Local src]" "os_dst spec = Local dst"
    and "dk_files (or_disk r) src = Some X" "src \<noteq> []" "dk_dirs (or_disk r) dst" "\<not> below (dst @ [last src]) src"
    and "dk_files (or_disk r) (dst @ [last src]) = Some Y" "\<And>d. dp_rename dp d src (dst @ [last src])"
  shows "\<exists>r'. run_copy_move dp spec None r = (FDone, r')
    \<and> dk_files (or_disk r') (dst @ [last src]) = Some X \<and> dk_files (or_disk r') src = None"
proof -
  let ?d = "or_disk r" and ?t = "dst @ [last src]"
  have src: "dk_is_file ?d src" "dk_exists ?d src" using assms(6) by (simp_all add: dk_is_file_def dk_exists_def)
  have nodir: "\<not> dk_dirs ?d src" using src(1) assms(2) unfolding disk_wf_def by blast
  have t: "target_for ?d src dst = ?t" by (rule dir_name [OF assms(2) src(2) assms(7,8)])
  have plan: "expand_plan dp ?d spec = Inr [item_of ?d src ?t]"
    using assms(4,5) src(1) nodir t by (simp add: expand_plan_def expand_source_def)
  obtain d1 where d1: "make_parent dp ?t ?d = Some d1" "dk_files d1 = dk_files ?d"
    using tree_parent_made [OF assms(1,2,8), of "last src"] by blast
  define x where "x = on_rep (\<lambda>g. g\<lparr>pg_files_total := 1, pg_bytes_total := length (dk_content ?d src)\<rparr>) r"
  have x: "or_disk x = ?d" by (simp add: x_def)
  obtain r' where r': "move_shortcut dp spec None x = (True, r')" "dk_files (or_disk r') ?t = Some X" "dk_files (or_disk r') src = None"
    using assms(3,4,5,6,9,11) t d1
    by (simp add: move_shortcut_def try_rename_def x rename_to_def Let_def)
  have "run_copy_move dp spec None r = (FDone, r')"
    using r'(1) by (simp add: run_copy_move_def plan Let_def x_def)
  then show ?thesis using r'(2,3) by blast
qed

lemma take_not_longer: "take n dst \<noteq> dst @ [x]"
proof
  assume "take n dst = dst @ [x]"
  from arg_cong [OF this, of length] show False by simp
qed

section \<open>A file copied onto itself\<close>

text \<open>Copying a file into its own directory under the policy to overwrite destroys it: the target is
  opened for writing, and emptied, before the source is read, so the copy finds nothing to read, fails
  its check of sizes, and leaves the file empty.
\<close>

lemma copy_onto_itself_empties:
  assumes "sound_port dp" "disk_wf (or_disk r)" "or_gates r = []"
    and "os_kind spec = Copy" "os_policy spec = Overwrite" "os_srcs spec = [Local src]" "os_dst spec = Local (butlast src)"
    and "dk_files (or_disk r) src = Some X" "src \<noteq> []" "X \<noteq> []"
  shows "\<exists>r'. run_copy_move dp spec None r = (FFailed ''size'', r') \<and> dk_files (or_disk r') src = Some []"
proof -
  let ?d = "or_disk r"
  have src: "dk_is_file ?d src" "dk_exists ?d src" using assms(8) by (simp_all add: dk_is_file_def dk_exists_def)
  have nodir: "\<not> dk_dirs ?d src" using src(1) assms(2) unfolding disk_wf_def by blast
  have parent: "dk_dirs ?d (butlast src)"
  proof -
    have "dk_dirs ?d (take (length src - 1) src)" using src(1) assms(2,9) unfolding disk_wf_def by simp
    then show ?thesis by (simp add: butlast_conv_take)
  qed
  have t: "target_for ?d src (butlast src) = src" using dir_name [OF assms(2) src(2) assms(9) parent] assms(9) by simp
  have plan: "expand_plan dp ?d spec = Inr [item_of ?d src src]"
    using assms(6,7) src(1) nodir t by (simp add: expand_plan_def expand_source_def)
  obtain d1 where d1: "make_parent dp src ?d = Some d1" "dk_files d1 = dk_files ?d" "dk_dirs d1 = dk_dirs ?d"
    using tree_parent_made [OF assms(1,2) parent, of "last src"] assms(9) by auto
  have "not_taken dp spec None ?d ?d" by (rule not_taken_off) (simp add: assms(4))
  from run_without_shortcut [OF plan this] obtain rep where
    run: "run_copy_move dp spec None r =
      (case copy_items dp spec 0 0 [item_of ?d src src] 0 (r\<lparr>or_rep := rep, or_disk := ?d\<rparr>) of
         (FDone, r4) \<Rightarrow> (FDone, on_disk (swept dp spec) r4)
       | (f, r4) \<Rightarrow> (f, r4))"
    by (auto simp: start_of_def bytes_of_def)
  define q where "q = on_rep (\<lambda>g. g\<lparr>pg_current := file_name_of src\<rparr>) (on_disk (\<lambda>_. d1) (r\<lparr>or_rep := rep\<rparr>))"
  have q: "or_disk q = d1" "or_gates q = []" by (simp_all add: q_def assms(3))
  have pump: "copy_pumped dp src src mk 0 0 (on_disk (\<lambda>_. dk_set src (Some []) d1) q) = (FDone, on_disk (\<lambda>_. dk_set src (Some []) d1) q)" for mk
    using q(2) by (subst copy_pumped.simps) (simp add: look_def dk_content_def read_chunk.simps [of _ "[]"])
  have one: "copy_one dp spec (item_of ?d src src) src 0 0 q = (FFailed ''size'', on_disk (\<lambda>_. dk_set src (Some []) d1) q)"
    using q(1) pump assms(8,10) d1(2,3) nodir sound_portD(1,2) [OF assms(1)]
    by (simp add: copy_one_steps open_file_def dk_is_file_def open_target_def reopened_def create_file_def Let_def dk_content_def)
  have "copy_items dp spec 0 0 [item_of ?d src src] 0 (r\<lparr>or_rep := rep\<rparr>) = (FFailed ''size'', on_disk (\<lambda>_. dk_set src (Some []) d1) q)"
    using one d1(1) assms(3,5) by (simp add: look_def resolve_target_def Let_def q_def)
  then show ?thesis using run by simp
qed

section \<open>A partial file taken for a conflict\<close>

text \<open>Resuming a copy that skips conflicts can leave half a file and report success: a file longer than
  one block, paused inside, has its first block in the target; the resumed run finds the target in the
  way, skips the file and ends well.
\<close>

lemma resumed_skip_truncates:
  assumes "sound_port dp" "disk_wf (or_disk r)" "or_gates r = [Go, Go, GPause]"
    and "os_kind spec = Copy" "os_policy spec = Skip" "os_srcs spec = [Local src]" "os_dst spec = Local dst"
    and "dk_files (or_disk r) src = Some X" "src \<noteq> []" "op_chunk < length X" "dk_dirs (or_disk r) dst"
    and "\<not> dk_exists (or_disk r) (dst @ [last src])"
  shows "case resumed_runs dp [(nid, [])] (run_copy_move dp spec None r) of (f, r') \<Rightarrow>
    f = FDone \<and> dk_files (or_disk r') (dst @ [last src]) = Some (take op_chunk X)"
proof -
  let ?d = "or_disk r" and ?t = "dst @ [last src]"
  have src: "dk_is_file ?d src" "dk_exists ?d src" using assms(8) by (simp_all add: dk_is_file_def dk_exists_def)
  have nodir: "\<not> dk_dirs ?d src" using src(1) assms(2) unfolding disk_wf_def by blast
  have ne: "src \<noteq> ?t" using assms(12) src(2) by auto
  have tnew: "dk_files ?d ?t = None" "\<not> dk_dirs ?d ?t" using assms(12) by (auto simp: dk_exists_def)
  have t: "target_for ?d src dst = ?t" by (rule dir_name [OF assms(2) src(2) assms(9,11)])
  have plan: "expand_plan dp ?d spec = Inr [item_of ?d src ?t]"
    using assms(6,7) src(1) nodir t by (simp add: expand_plan_def expand_source_def)
  obtain d1 where d1: "make_parent dp ?t ?d = Some d1" "d1 = ?d"
    using tree_parent_made [OF assms(1,2,11), of "last src"] plan_ok_cong by metis
  have off: "not_taken dp s c d d" if "os_kind s = Copy" for s c d by (rule not_taken_off) (simp add: that)
  from run_without_shortcut [OF plan off [OF assms(4)], of None] obtain rep where
    run: "run_copy_move dp spec None r =
      (case copy_items dp spec 0 0 [item_of ?d src ?t] 0 (r\<lparr>or_rep := rep, or_disk := ?d\<rparr>) of
         (FDone, r4) \<Rightarrow> (FDone, on_disk (swept dp spec) r4)
       | (f, r4) \<Rightarrow> (f, r4))"
    by (auto simp: start_of_def bytes_of_def)
  define q where "q = on_rep (\<lambda>g. g\<lparr>pg_current := file_name_of src\<rparr>) (on_disk (\<lambda>_. ?d) (r\<lparr>or_rep := rep, or_gates := [Go, GPause]\<rparr>))"
  define q1 where "q1 = on_disk (\<lambda>_. dk_set ?t (Some []) ?d) q"
  have q1: "or_gates q1 = [Go, GPause]" "or_disk q1 = dk_set ?t (Some []) ?d" "or_rep q1 = rep\<lparr>pg_current := file_name_of src\<rparr>"
    by (simp_all add: q1_def q_def)
  have rd: "read_chunk (dp_read dp src) X 0 op_chunk [] = Inr (take op_chunk X)"
    using read_chunk_healthy [of "dp_read dp src" X 0 op_chunk] sound_portD(6) [OF assms(1)] by simp
  have big: "take op_chunk X \<noteq> []" using assms(10) op_chunk_pos by (cases X) auto
  have small: "\<not> checkpoint_every \<le> op_chunk" by (simp add: checkpoint_every_def op_chunk_def)
  define mk where "mk = pending_of spec (pg_op_id rep) (pg_resumed_from rep) (or_now q) 0"
  obtain r1 where pump: "copy_pumped dp src ?t mk 0 0 q1 = (FPaused, r1)" "or_disk r1 = dk_set ?t (Some (take op_chunk X)) ?d"
    "or_store r1 (pg_op_id rep) = Some (mk op_chunk)" "pg_op_id (or_rep r1) = pg_op_id rep"
  proof -
    define q2 where "q2 = emit (on_rep (\<lambda>g. g\<lparr>pg_bytes_done := pg_bytes_done g + op_chunk\<rparr>)
        (on_disk (\<lambda>d. dk_set ?t (Some (take op_chunk X)) d) (q1\<lparr>or_gates := [GPause]\<rparr>)))"
    have step1: "copy_pumped dp src ?t mk 0 0 q1 = copy_pumped dp src ?t mk op_chunk 0 q2"
      using q1 assms(8,10) ne rd big small sound_portD(7) [OF assms(1)]
      by (subst copy_pumped.simps) (simp add: look_def dk_content_def Let_def q2_def write_at_def on_disk_def)
    have step2: "copy_pumped dp src ?t mk op_chunk 0 q2 = (FPaused, persist_pending dp (mk op_chunk) (q2\<lparr>or_gates := []\<rparr>))"
      by (subst copy_pumped.simps) (simp add: look_def q2_def)
    show ?thesis
      by (rule that [OF step1 [unfolded step2]])
        (simp_all add: persist_store [OF sound_portD(8) [OF assms(1)]] q2_def q1 mk_def)
  qed
  have one: "copy_one dp spec (item_of ?d src ?t) ?t 0 0 q = (FPaused, r1)"
    using pump(1) assms(8) tnew sound_portD(1,2) [OF assms(1)]
    by (simp add: copy_one_steps open_file_def dk_is_file_def open_target_def reopened_def create_file_def Let_def q_def mk_def q1_def)
  have "copy_items dp spec 0 0 [item_of ?d src ?t] 0 (r\<lparr>or_rep := rep\<rparr>) = (FPaused, r1)"
    using one d1 assms(3,5,12) by (simp add: look_def resolve_target_def Let_def q_def)
  then have first: "run_copy_move dp spec None r = (FPaused, r1)" using run by simp
  let ?p = "mk op_chunk"
  have p: "spec_of ?p = spec" "checkpoint_of ?p = Some \<lparr>cp_file_index = 0, cp_bytes_done = op_chunk\<rparr>"
    using op_chunk_pos by (simp_all add: mk_def checkpoint_of_def)
  define r2 where "r2 = (requeued nid ?p r1)\<lparr>or_gates := []\<rparr>"
  have r: "or_disk r2 = dk_set ?t (Some (take op_chunk X)) ?d" by (simp add: r2_def requeued_def pump(2))
  have t2: "target_for (or_disk r2) src dst = ?t" using t by (simp add: r target_for_def)
  have plan2: "expand_plan dp (or_disk r2) spec = Inr [item_of (or_disk r2) src ?t]"
    using assms(6,7,8) nodir t2 ne by (simp add: expand_plan_def expand_source_def r dk_is_file_def)
  have anc: "\<not> dk_is_file (or_disk r2) (take n ?t)" if "n < length ?t" for n
  proof -
    have "take n ?t = take n dst" using that by simp
    moreover have "dk_dirs ?d (take n dst)" using assms(2,11) unfolding disk_wf_def by blast
    ultimately show ?thesis using assms(2) tnew(2) unfolding disk_wf_def by (auto simp: r dk_is_file_def)
  qed
  have ok: "plan_ok (or_disk r2) [item_of (or_disk r2) src ?t]"
    using ne assms(8) tnew(2) anc unfolding plan_ok_def by (auto simp: r take_not_longer)
  have ready: "start_ready (or_disk r2) (start_of (checkpoint_of ?p)) (bytes_of (checkpoint_of ?p)) [item_of (or_disk r2) src ?t] 0"
    using assms(8,10) ne tnew(2) by (simp add: start_ready_def item_ready_def target_ready_def r mk_def dk_content_def)
  obtain r' d where r': "run_copy_move dp spec (checkpoint_of ?p) r2 = (FDone, r')" "or_disk r' = swept dp spec d"
    "placed Copy [item_of (or_disk r2) src ?t] (chosen Skip (or_disk r2) (drop 0 [item_of (or_disk r2) src ?t])) (or_disk r2) d"
    by (rule run_items_done [OF assms(1) plan2 off [OF assms(4)] ok _ _ ready])
      (auto simp: policy_free_def assms(4,5) r2_def mk_def)
  have "chosen Skip (or_disk r2) (drop 0 [item_of (or_disk r2) src ?t]) = []" by (simp add: chosen_def r dk_exists_def)
  then have "dk_files d ?t = Some (take op_chunk X)" using r'(3) by (simp add: placed_def r)
  then show ?thesis
    using first r'(1,2) pump(3,4) p assms(4) by (simp add: swept_def r2_def)
qed

section \<open>A run paused in its second file\<close>

lemma pump_small:
  assumes dp: "sound_port dp" and r: "or_gates r = Go # Go # gs" "dk_files (or_disk r) src = Some A" "src \<noteq> t"
      "dk_files (or_disk r) t = Some []" and A: "A \<noteq> []" "length A \<le> op_chunk"
  obtains r' where "copy_pumped dp src t mk 0 0 r = (FDone, r')" "or_disk r' = dk_set t (Some A) (or_disk r)" "or_gates r' = gs"
    "or_store r' = or_store r" "or_now r' = or_now r" "or_millis r' = or_millis r" "pg_op_id (or_rep r') = pg_op_id (or_rep r)"
    "pg_resumed_from (or_rep r') = pg_resumed_from (or_rep r)"
proof -
  define q where "q = emit (on_rep (\<lambda>g. g\<lparr>pg_bytes_done := pg_bytes_done g + length A\<rparr>)
      (on_disk (\<lambda>d. dk_set t (Some A) d) (r\<lparr>or_gates := Go # gs\<rparr>)))"
  have rd: "read_chunk (dp_read dp src) A 0 op_chunk [] = Inr A" "read_chunk (dp_read dp src) A (length A) op_chunk [] = Inr []"
    using read_chunk_healthy [of "dp_read dp src" A 0 op_chunk] read_chunk_healthy [of "dp_read dp src" A "length A" op_chunk]
      sound_portD(6) [OF dp] A(2) by simp_all
  have small: "\<not> checkpoint_every \<le> length A" using A(2) by (simp add: checkpoint_every_def op_chunk_def)
  have step1: "copy_pumped dp src t mk 0 0 r = copy_pumped dp src t mk (length A) 0 q"
    using r rd(1) A(1) small sound_portD(7) [OF dp]
    by (subst copy_pumped.simps) (simp add: look_def dk_content_def Let_def q_def write_at_def on_disk_def)
  have step2: "copy_pumped dp src t mk (length A) 0 q = (FDone, q\<lparr>or_gates := gs\<rparr>)"
    using r(2,3) rd(2) by (subst copy_pumped.simps) (simp add: look_def q_def dk_content_def)
  show ?thesis by (rule that [OF step1 [unfolded step2]]) (simp_all add: q_def)
qed

lemma pump_stopped: "or_gates r = [GPause] \<Longrightarrow> copy_pumped dp src t mk 0 0 r = (FPaused, persist_pending dp (mk 0) (r\<lparr>or_gates := []\<rparr>))"
  by (subst copy_pumped.simps) (simp add: look_def)

lemma resolve_new: "\<not> dk_exists d t \<Longrightarrow> resolve_target millis t policy d = Inr (Some t)"
  by (cases policy) (simp_all add: resolve_target_def unique_target_def)

lemma paused_at_second:
  assumes dp: "sound_port dp" and ok: "plan_ok (or_disk r) (a # b # its)" and g: "or_gates r = [Go, Go, Go, Go, GPause]"
    and new: "\<not> dk_exists (or_disk r) (ci_dst a)" "\<not> dk_exists (or_disk r) (ci_dst b)"
    and A: "dk_files (or_disk r) (ci_src a) = Some A" "A \<noteq> []" "length A \<le> op_chunk"
  obtains r' where "copy_items dp spec 0 0 (a # b # its) 0 r = (FPaused, r')" "plan_ok (or_disk r') (b # its)" "pg_op_id (or_rep r') = pg_op_id (or_rep r)"
    "or_store r' (pg_op_id (or_rep r)) = Some (pending_of spec (pg_op_id (or_rep r)) (pg_resumed_from (or_rep r)) (or_now r) 1 0)"
    "dk_files (or_disk r') = (dk_files (or_disk r))(ci_dst a \<mapsto> A, ci_src a := (if os_kind spec = Move then None else Some A), ci_dst b \<mapsto> [])"
    "\<And>q. dk_dirs (or_disk r') q \<longleftrightarrow> dk_dirs (or_disk r) q \<or> (\<exists>n<length (ci_dst a). q = take n (ci_dst a)) \<or> (\<exists>n<length (ci_dst b). q = take n (ci_dst b))"
proof -
  let ?d = "or_disk r"
  have size: "ci_size a = length A" and ne: "ci_src a \<noteq> ci_dst a" using plan_okD(1) [OF ok, of a] plan_okD(5) [OF ok, of a a] A(1) by auto
  obtain d1 where d1: "make_parent dp (ci_dst a) ?d = Some d1" "dk_files d1 = dk_files ?d"
    "\<And>q. dk_dirs d1 q \<longleftrightarrow> dk_dirs ?d q \<or> (\<exists>n<length (ci_dst a). q = take n (ci_dst a))"
    using make_parent_ok [OF dp plan_okD(3) [OF ok, of a]] by (auto simp del: One_nat_def)
  have adir: "\<not> dk_dirs d1 (ci_dst a)" using d1(3) plan_okD(2,4) [OF ok, of a] by (metis list.set_intros(1))
  have anew: "dk_files d1 (ci_dst a) = None" "\<not> dk_exists d1 (ci_dst a)" using new(1) adir d1(2) by (auto simp: dk_exists_def)
  define q where "q = on_rep (\<lambda>g. g\<lparr>pg_current := file_name_of (ci_src a)\<rparr>) (on_disk (\<lambda>_. d1) (r\<lparr>or_gates := [Go, Go, Go, GPause]\<rparr>))"
  define q1 where "q1 = on_disk (\<lambda>_. dk_set (ci_dst a) (Some []) d1) q"
  define mk where "mk i = pending_of spec (pg_op_id (or_rep r)) (pg_resumed_from (or_rep r)) (or_now r) i" for i
  have fields: "or_store (on_disk f x) = or_store x" "or_store (on_rep h x) = or_store x" for f h x by simp_all
  obtain r1 where r1: "copy_pumped dp (ci_src a) (ci_dst a) (mk 0) 0 0 q1 = (FDone, r1)" "or_disk r1 = dk_set (ci_dst a) (Some A) d1"
    "or_gates r1 = [Go, GPause]" "or_store r1 = or_store r" "or_now r1 = or_now r" "or_millis r1 = or_millis r"
    "pg_op_id (or_rep r1) = pg_op_id (or_rep r)" "pg_resumed_from (or_rep r1) = pg_resumed_from (or_rep r)"
    by (rule pump_small [OF dp, of q1 "[Go, GPause]" "ci_src a" A "ci_dst a" "mk 0"])
      (use A ne d1(2) in \<open>simp_all add: q1_def q_def\<close>)
  have one: "copy_one dp spec a (ci_dst a) 0 0 q = (FDone, r1)"
    using r1(1,2) A(1) size anew(1) adir d1(2) sound_portD(1,2) [OF dp]
    by (simp add: copy_one_steps open_file_def dk_is_file_def open_target_def reopened_def create_file_def Let_def q_def q1_def mk_def dk_content_def)
  define d2 where "d2 = (if os_kind spec = Move then dk_set (ci_src a) None (or_disk r1) else or_disk r1)"
  define rb where "rb = emit (on_disk (\<lambda>_. d2) (on_rep (\<lambda>g. g\<lparr>pg_files_done := pg_files_done g + 1\<rparr>) r1))"
  have same: "on_disk (\<lambda>_. dk_set (ci_dst a) (Some A) d1) (on_rep h r1) = on_rep h r1" for h
    using r1(2) by (simp add: on_disk_def on_rep_def)
  have step: "copy_items dp spec 0 0 (a # more) 0 r = copy_items dp spec 0 0 more 1 rb" for more
    using g d1(1) resolve_new [OF anew(2)] one r1(2) A(1) ne d1(2) sound_portD(4) [OF dp]
    by (auto simp: look_def Let_def q_def [symmetric] rb_def d2_def remove_file_def dk_is_file_def same)
  have st: "step_ok a ?d d2" using d1(2,3) r1(2) A(1) ne by (auto simp: step_ok_def d2_def)
  have ok2: "plan_ok d2 (b # its)" by (rule step_ok_rest(4) [OF ok st])
  have bnew2: "\<not> dk_exists d2 (ci_dst b)" using step_ok_rest(3) [OF ok st, of b] new(2) by simp
  have bsrc: "dk_is_file d2 (ci_src b)" using plan_okD(1) [OF ok2, of b] by (auto simp: dk_is_file_def)
  obtain d3 where d3: "make_parent dp (ci_dst b) d2 = Some d3" "dk_files d3 = dk_files d2"
    "\<And>q. dk_dirs d3 q \<longleftrightarrow> dk_dirs d2 q \<or> (\<exists>n<length (ci_dst b). q = take n (ci_dst b))"
    using make_parent_ok [OF dp plan_okD(3) [OF ok2, of b]] by (auto simp del: One_nat_def)
  have bdir: "\<not> dk_dirs d3 (ci_dst b)" using d3(3) plan_okD(2,4) [OF ok2, of b] by (metis list.set_intros(1))
  have bnew: "dk_files d3 (ci_dst b) = None" "\<not> dk_exists d3 (ci_dst b)" using bnew2 bdir d3(2) by (auto simp: dk_exists_def)
  define p where "p = on_rep (\<lambda>g. g\<lparr>pg_current := file_name_of (ci_src b)\<rparr>) (on_disk (\<lambda>_. d3) (rb\<lparr>or_gates := [GPause]\<rparr>))"
  define r' where "r' = persist_pending dp (mk 1 0) ((on_disk (\<lambda>_. dk_set (ci_dst b) (Some []) d3) p)\<lparr>or_gates := []\<rparr>)"
  have two: "copy_one dp spec b (ci_dst b) 0 1 p = (FPaused, r')"
    using bsrc bnew(1) bdir d3(2) sound_portD(1,2) [OF dp] r1(5,7,8)
      pump_stopped [of "on_disk (\<lambda>_. dk_set (ci_dst b) (Some []) d3) p" dp "ci_src b" "ci_dst b" "mk 1"]
    by (simp add: copy_one_steps open_file_def dk_is_file_def open_target_def reopened_def create_file_def Let_def p_def rb_def r'_def mk_def)
  have "copy_items dp spec 0 0 (b # its) 1 rb = (FPaused, r')"
    using r1(3) d3(1) resolve_new [OF bnew(2)] two by (simp add: look_def Let_def rb_def p_def)
  then show ?thesis
    using step
  proof (rule that [OF trans [rotated]])
    show "plan_ok (or_disk r') (b # its)"
    proof (rule partial_plan_ok [OF ok2])
      show "partial d2 (b # its) 0 (or_disk r')" using d3(2,3) by (auto simp: partial_def r'_def)
    qed
    show "pg_op_id (or_rep r') = pg_op_id (or_rep r)" using r1(7) by (simp add: r'_def p_def rb_def)
    show "or_store r' (pg_op_id (or_rep r)) = Some (pending_of spec (pg_op_id (or_rep r)) (pg_resumed_from (or_rep r)) (or_now r) 1 0)"
      by (simp add: r'_def persist_store [OF sound_portD(8) [OF dp]] mk_def)
    show "dk_files (or_disk r') = (dk_files ?d)(ci_dst a \<mapsto> A, ci_src a := (if os_kind spec = Move then None else Some A), ci_dst b \<mapsto> [])"
      using d3(2) d1(2) r1(2) A(1) ne by (auto simp: r'_def d2_def fun_eq_iff)
    show "dk_dirs (or_disk r') q \<longleftrightarrow> dk_dirs ?d q \<or> (\<exists>n<length (ci_dst a). q = take n (ci_dst a)) \<or> (\<exists>n<length (ci_dst b). q = take n (ci_dst b))" for q
      using d3(3) d1(3) r1(2) by (auto simp: r'_def d2_def)
  qed
qed

lemma requeued_disk [simp]: "or_disk (requeued nid p r) = or_disk r"
  by (simp add: requeued_def)

text \<open>So the operation is resumed with one file done, and nothing of the second.\<close>

lemma resumed_at_second:
  assumes "sound_port dp" "expand_plan dp (or_disk r) spec = Inr (a # b # its)" "not_taken dp spec None (or_disk r) (or_disk r)"
    and ok: "plan_ok (or_disk r) (a # b # its)" and "or_gates r = [Go, Go, Go, Go, GPause]"
    and "\<not> dk_exists (or_disk r) (ci_dst a)" "\<not> dk_exists (or_disk r) (ci_dst b)"
    and "dk_files (or_disk r) (ci_src a) = Some A" "A \<noteq> []" "length A \<le> op_chunk"
  obtains rb where
    "resumed_runs dp [(nid, [])] (run_copy_move dp spec None r)
      = run_copy_move dp spec (Some \<lparr>cp_file_index = 1, cp_bytes_done = 0\<rparr>) rb"
    "or_gates rb = []" "plan_ok (or_disk rb) (b # its)"
    "dk_files (or_disk rb) = (dk_files (or_disk r))(ci_dst a \<mapsto> A, ci_src a := (if os_kind spec = Move then None else Some A), ci_dst b \<mapsto> [])"
    "\<And>q. dk_dirs (or_disk rb) q \<longleftrightarrow> dk_dirs (or_disk r) q \<or> (\<exists>n<length (ci_dst a). q = take n (ci_dst a)) \<or> (\<exists>n<length (ci_dst b). q = take n (ci_dst b))"
proof -
  note copy_items.simps(2) [simp del]
  from run_without_shortcut [OF assms(2,3)] obtain rep where rep: "pg_op_id rep = pg_op_id (or_rep r)"
    "run_copy_move dp spec None r =
      (case copy_items dp spec 0 0 (a # b # its) 0 (r\<lparr>or_rep := rep\<rparr>) of
         (FDone, r4) \<Rightarrow> (FDone, on_disk (swept dp spec) r4)
       | (f, r4) \<Rightarrow> (f, r4))"
    by (auto simp: start_of_def bytes_of_def)
  have pre: "plan_ok (or_disk (r\<lparr>or_rep := rep\<rparr>)) (a # b # its)" using ok by simp
  obtain ra where ra: "copy_items dp spec 0 0 (a # b # its) 0 (r\<lparr>or_rep := rep\<rparr>) = (FPaused, ra)"
    "plan_ok (or_disk ra) (b # its)" "pg_op_id (or_rep ra) = pg_op_id rep"
    "or_store ra (pg_op_id rep) = Some (pending_of spec (pg_op_id rep) (pg_resumed_from rep) (or_now r) 1 0)"
    "dk_files (or_disk ra) = (dk_files (or_disk r))(ci_dst a \<mapsto> A, ci_src a := (if os_kind spec = Move then None else Some A), ci_dst b \<mapsto> [])"
    "\<And>q. dk_dirs (or_disk ra) q \<longleftrightarrow> dk_dirs (or_disk r) q \<or> (\<exists>n<length (ci_dst a). q = take n (ci_dst a)) \<or> (\<exists>n<length (ci_dst b). q = take n (ci_dst b))"
    by (rule paused_at_second [OF assms(1) pre, where spec = spec]) (use assms(5-10) in auto)
  let ?p = "pending_of spec (pg_op_id rep) (pg_resumed_from rep) (or_now r) 1 0"
  have "resumed_runs dp [(nid, [])] (run_copy_move dp spec None r) =
      run_copy_move dp spec (checkpoint_of ?p) ((requeued nid ?p ra)\<lparr>or_gates := []\<rparr>)"
    using rep(2) ra(1,3,4) by simp
  moreover have "checkpoint_of ?p = Some \<lparr>cp_file_index = 1, cp_bytes_done = 0\<rparr>" by (simp add: checkpoint_of_def)
  ultimately show ?thesis using ra(2,5,6) by (intro that [of "(requeued nid ?p ra)\<lparr>or_gates := []\<rparr>"]) simp_all
qed

text \<open>The walk yields the files below a directory in an order that does not depend on what else is there.\<close>

definition walk_ordered :: "disk_port \<Rightarrow> bool" where
  "walk_ordered dp \<longleftrightarrow>
     (\<forall>d d' p. finite (dom (dk_files d)) \<longrightarrow> (\<forall>q. dk_is_file d' q \<longrightarrow> below p q \<longrightarrow> dk_is_file d q) \<longrightarrow>
        fst (dp_walk dp d' p) = filter (dk_is_file d') (fst (dp_walk dp d p)))"

lemma walk_stableD:
  assumes "walk_stable dp" "\<And>u. dk_files d' (p @ u) = dk_files d (p @ u)"
  shows "dp_walk dp d' p = dp_walk dp d p"
  using assms unfolding walk_stable_def by (metis (no_types))

lemma walk_orderedD:
  assumes "walk_ordered dp" "finite (dom (dk_files d))" "\<And>u. dk_is_file d' (p @ u) \<Longrightarrow> dk_is_file d (p @ u)"
  shows "fst (dp_walk dp d' p) = filter (dk_is_file d') (fst (dp_walk dp d p))"
  using assms unfolding walk_ordered_def below_iff by blast

lemma tree_items_cons:
  assumes "fst (dp_walk dp d src) = (src @ x) # ws"
  shows "tree_items dp d src t = item_of d (src @ x) (t @ x) # map (\<lambda>q. item_of d q (t @ drop (length src) q)) ws"
  using assms by (simp add: tree_items_def)

text \<open>A move resumed after a pause loses a file: the system does not rename the directory, so its files
  are moved one by one, and the move is paused when the first file has gone over and the second has just
  been opened.  The record says that one file is done; the resumed run plans the files that are left,
  passes over the first of them, which is the second of the old plan, and at the end removes the source
  directory with it.  The run reports success and the target holds an empty file.
\<close>

lemma resumed_move_loses_files:
  assumes "sound_port dp" "walks dp" "walk_ordered dp" "disk_wf (or_disk r)" "or_gates r = [Go, Go, Go, Go, GPause]"
    and "os_kind spec = Move" "os_policy spec = Overwrite" "os_srcs spec = [Local src]" "os_dst spec = Local dst"
    and "src \<noteq> []" "dk_dirs (or_disk r) src" "dk_dirs (or_disk r) dst" "tree_clear (or_disk r) src (dst @ [last src])"
    and "\<And>rel. \<not> dk_exists (or_disk r) (dst @ [last src] @ rel)" "\<And>d. \<not> dp_rename dp d src (dst @ [last src])"
    and "fst (dp_walk dp (or_disk r) src) = (src @ x) # (src @ y) # ws"
    and "dk_files (or_disk r) (src @ x) = Some A" "A \<noteq> []" "length A \<le> op_chunk"
  shows "case resumed_runs dp [(nid, [])] (run_copy_move dp spec None r) of (f, r') \<Rightarrow>
    f = FDone \<and> dk_files (or_disk r') (src @ y) = None \<and> dk_files (or_disk r') (dst @ [last src] @ y) = Some []"
proof -
  let ?d = "or_disk r" and ?t = "dst @ [last src]"
  define its where "its = map (\<lambda>q. item_of ?d q (?t @ drop (length src) q)) ws"
  let ?a = "item_of ?d (src @ x) (?t @ x)" and ?b = "item_of ?d (src @ y) (?t @ y)"
  have I: "tree_items dp ?d src ?t = ?a # ?b # its" using tree_items_cons [OF assms(16)] by (simp add: its_def)
  have plan: "expand_plan dp ?d spec = Inr (?a # ?b # its)"
    using plan_of_tree [OF assms(2) disk_wf_finite [OF assms(4)] assms(11,10) dir_no_file [OF assms(4,12)] assms(8,9)] assms(12) I by (simp add: tree_target_def)
  have ok: "plan_ok ?d (?a # ?b # its)" using tree_items_ok [OF assms(4,2,13)] I by simp
  have t: "target_for ?d src dst = ?t" using dir_name [OF assms(4) _ assms(10,12)] assms(11) by (simp add: dk_exists_def)
  obtain d1 where d1: "make_parent dp ?t ?d = Some d1" "d1 = ?d"
    using tree_parent_made [OF assms(1,4,12), of "last src"] plan_ok_cong by metis
  have off: "not_taken dp spec None ?d ?d"
    by (rule not_taken_refused [OF assms(8,9,6)]) (use t d1 assms(15) in auto)
  obtain rb where rb: "resumed_runs dp [(nid, [])] (run_copy_move dp spec None r)
      = run_copy_move dp spec (Some \<lparr>cp_file_index = 1, cp_bytes_done = 0\<rparr>) rb"
    "or_gates rb = []" "plan_ok (or_disk rb) (?b # its)"
    "dk_files (or_disk rb) = (dk_files ?d)(?t @ x \<mapsto> A, src @ x := None, ?t @ y \<mapsto> [])"
    "\<And>q. dk_dirs ?d q \<Longrightarrow> dk_dirs (or_disk rb) q"
    by (rule resumed_at_second [OF assms(1) plan off ok assms(5), where nid = nid]) (use assms(6,14,17,18,19) in auto)
  have apart: "src @ u \<noteq> ?t @ v" for u v
    using assms(13) unfolding tree_clear_def below_iff by (metis append_eq_append_conv2)
  have dist: "src @ x \<notin> set ((src @ y) # ws)" using walks_distinct(1) [OF assms(2) disk_wf_finite [OF assms(4)], of src] assms(16) by simp
  have files: "dk_files (or_disk rb) (src @ u) = (if u = x then None else dk_files ?d (src @ u))" for u
    using apart rb(4) by auto
  have listed: "\<exists>u. u \<noteq> x \<and> q = src @ u \<and> dk_is_file ?d q" if "q \<in> set ((src @ y) # ws)" for q
    using walks_set [OF assms(2) disk_wf_finite [OF assms(4)], of q src] that dist assms(16) by auto
  have "fst (dp_walk dp (or_disk rb) src) = filter (dk_is_file (or_disk rb)) ((src @ x) # (src @ y) # ws)"
    unfolding assms(16) [symmetric]
    by (rule walk_orderedD [OF assms(3) disk_wf_finite [OF assms(4)]]) (auto simp: dk_is_file_def files split: if_splits)
  also have "\<dots> = (src @ y) # ws"
  proof -
    have "dk_is_file (or_disk rb) q" if "q \<in> set ((src @ y) # ws)" for q
      using listed [OF that] files by (auto simp: dk_is_file_def)
    then have "filter (dk_is_file (or_disk rb)) ((src @ y) # ws) = (src @ y) # ws" by (simp add: filter_id_conv)
    moreover have "\<not> dk_is_file (or_disk rb) (src @ x)" using files [of x] by (simp add: dk_is_file_def)
    ultimately show ?thesis by simp
  qed
  finally have walk2: "fst (dp_walk dp (or_disk rb) src) = (src @ y) # ws" .
  have "item_of (or_disk rb) q z = item_of ?d q z" if "q \<in> set ((src @ y) # ws)" for q z
    using listed [OF that] files by (auto simp: item_of_def dk_content_def)
  then have I2: "tree_items dp (or_disk rb) src ?t = ?b # its"
    unfolding tree_items_cons [OF walk2] its_def by (intro arg_cong2 [where f = Cons] map_cong refl) simp_all
  have "\<not> dk_is_file (or_disk rb) dst"
  proof -
    have "dst \<noteq> ?t @ u" for u by (metis append_assoc append_self_conv list.distinct(1) append_is_Nil_conv)
    then show ?thesis using rb(4) dir_no_file [OF assms(4,12)] by (auto simp: dk_is_file_def)
  qed
  moreover have fin: "finite (dom (dk_files (or_disk rb)))" using disk_wf_finite [OF assms(4)] rb(4) by simp
  ultimately have plan2: "expand_plan dp (or_disk rb) spec = Inr (?b # its)"
    using plan_of_tree [OF assms(2) fin rb(5) [OF assms(11)] assms(10) _ assms(8,9)] rb(5) [OF assms(12)] I2
    by (simp add: tree_target_def)
  let ?c = "Some \<lparr>cp_file_index = 1, cp_bytes_done = 0\<rparr>"
  have off2: "not_taken dp spec ?c (or_disk rb) (or_disk rb)" by (rule not_taken_off) simp
  have ready: "start_ready (or_disk rb) (start_of ?c) (bytes_of ?c) (?b # its) 0"
    using plan_okD(2) [OF rb(3)] by (auto simp: start_ready_def start_of_def bytes_of_def item_ready_def target_ready_def)
  obtain r' d where r': "run_copy_move dp spec ?c rb = (FDone, r')" "or_disk r' = swept dp spec d"
    "placed Move (?b # its) its (or_disk rb) d"
    by (rule run_items_done [OF assms(1) plan2 off2 rb(3) _ rb(2) ready])
      (auto simp: policy_free_def assms(6,7) chosen_def start_of_def)
  have "dk_dirs d src" using r'(3) rb(5) [OF assms(11)] unfolding placed_def by simp
  then have "dk_files (or_disk r') (src @ y) = None"
    using sweep_one [OF _ assms(1)] r'(2) assms(6,8) by (simp add: swept_def)
  moreover have "dk_files (or_disk r') (?t @ y) = Some []"
  proof -
    have "\<not> below src (?t @ y)" using apart unfolding below_iff by metis
    then have "dk_files (or_disk r') (?t @ y) = dk_files d (?t @ y)"
      using sweep_elsewhere r'(2) assms(6,8) by (simp add: swept_def)
    also have "\<dots> = dk_files (or_disk rb) (?t @ y)"
    proof -
      have "?t @ y \<notin> ci_dst ` set its" "?t @ y \<notin> ci_src ` set its"
        using rb(3) unfolding plan_ok_def by auto
      then show ?thesis using r'(3) unfolding placed_def by metis
    qed
    finally show ?thesis using rb(4) by simp
  qed
  ultimately show ?thesis unfolding rb(1) r'(1) by simp
qed

text \<open>The disk when a copy to a new directory has made two files right in it.\<close>

lemma dir_filled_wf:
  assumes wf: "disk_wf d" and free: "\<And>rel. \<not> dk_exists d (dst @ rel)" and way: "\<And>n. \<not> dk_is_file d (take n dst)"
    and names: "[] \<notin> set (dst @ [x, y])"
    and isf: "\<And>q. dk_is_file d2 q \<longleftrightarrow> dk_is_file d q \<or> q = dst @ [x] \<or> q = dst @ [y]"
    and dir: "\<And>q. dk_dirs d2 q \<longleftrightarrow> dk_dirs d q \<or> (\<exists>n. q = take n dst)"
  shows "disk_wf d2"
  unfolding disk_wf_def
proof (intro conjI allI impI)
  have wfD: "dk_is_file d p \<Longrightarrow> \<not> dk_dirs d p" "dk_is_file d p \<Longrightarrow> n < length p \<Longrightarrow> dk_dirs d (take n p)"
    "dk_dirs d p \<Longrightarrow> dk_dirs d (take n p)" "dk_exists d p \<Longrightarrow> [] \<notin> set p" for p n
    using wf unfolding disk_wf_def by blast+
  have nodir: "\<not> dk_dirs d (dst @ [z])" for z using free by (simp add: dk_exists_def)
  have inside: "n < length (dst @ [z]) \<Longrightarrow> \<exists>m. take n (dst @ [z]) = take m dst" for n z by (intro exI [of _ n]) simp
  fix p n
  show "\<not> dk_dirs d2 p" if "dk_is_file d2 p"
    using that wfD(1) nodir way unfolding isf dir by (metis take_not_longer)
  show "dk_dirs d2 (take n p)" if "dk_is_file d2 p" "n < length p"
    using that wfD(2) inside unfolding isf dir by blast
  show "dk_dirs d2 (take n p)" if "dk_dirs d2 p"
    using that wfD(3) unfolding dir by (metis take_take)
  have "[] \<notin> set (take n dst)" for n using names by (auto dest: in_set_takeD)
  moreover have "dk_exists d2 p \<Longrightarrow> dk_exists d p \<or> p = dst @ [x] \<or> p = dst @ [y] \<or> (\<exists>n. p = take n dst)"
    using isf [of p] dir [of p] by (auto simp: dk_exists_def dk_is_file_def)
  moreover have "[] \<notin> set (dst @ [x])" "[] \<notin> set (dst @ [y])" using names by auto
  moreover have "dom (dk_files d2) = insert (dst @ [x]) (insert (dst @ [y]) (dom (dk_files d)))"
    using isf by (auto simp: dk_is_file_def)
  then show "finite (dom (dk_files d2))" using wf unfolding disk_wf_def by simp
  ultimately show "[] \<notin> set p" if "dk_exists d2 p" using that wfD(4) by metis
qed

lemma dir_filled_clear:
  assumes clear: "tree_clear d src dst" and src: "dk_dirs d src" and free: "\<And>rel. \<not> dk_exists d (dst @ rel)"
    and way: "\<And>n. \<not> dk_is_file d (take n dst)" and names: "x \<noteq> last src" "y \<noteq> last src"
    and isf: "\<And>q. dk_is_file d2 q \<longleftrightarrow> dk_is_file d q \<or> q = dst @ [x] \<or> q = dst @ [y]"
    and dir: "\<And>q. dk_dirs d2 q \<longleftrightarrow> dk_dirs d q \<or> (\<exists>n. q = take n dst)"
  shows "tree_clear d2 src (dst @ [last src])"
  unfolding tree_clear_def
proof (intro conjI allI impI)
  let ?t = "dst @ [last src]"
  have apart: "src @ u \<noteq> dst @ v" for u v
    using clear unfolding tree_clear_def below_iff by (metis append_eq_append_conv2)
  show "\<not> below src ?t"
  proof
    assume "below src ?t"
    then obtain u where "?t = src @ u" unfolding below_iff by blast
    then show False using apart [of u "[last src]"] by simp
  qed
  show "\<not> below ?t src" using apart [of "[]"] unfolding below_iff by auto
  show "\<not> dk_is_file d2 (take n ?t)" if "n < length ?t" for n
  proof -
    have "take n ?t = take n dst" using that by simp
    then show ?thesis using way unfolding isf by (metis take_not_longer)
  qed
  fix rel
  have ne: "?t @ u \<noteq> dst @ [x]" "?t @ u \<noteq> dst @ [y]" "?t @ u \<noteq> take n dst" "\<not> dk_exists d (?t @ u)" for u n
    using free [of "last src # u"] names by (auto dest: arg_cong [where f = length])
  show "\<not> dk_dirs d2 (?t @ rel)" using ne unfolding dir dk_exists_def by blast
  show "\<not> dk_is_file d2 (?t @ take n rel)" for n
    using ne(1,2,4) [of "take n rel"] isf by (auto simp: dk_exists_def dk_is_file_def)
qed

text \<open>A directory copied under a new name and resumed after a pause is split: before the pause the files
  go into the new directory, which then exists, so the resumed run takes it for the place to put the
  source into and continues one level deeper.  The file that was open at the pause stays behind empty,
  and the first file never gets below the second root.
\<close>

lemma resume_splits_tree:
  assumes "sound_port dp" "walks dp" "walk_stable dp" "disk_wf (or_disk r)" "or_gates r = [Go, Go, Go, Go, GPause]"
    and "os_kind spec = Copy" "os_policy spec = Overwrite" "os_srcs spec = [Local src]" "os_dst spec = Local dst"
    and "src \<noteq> []" "dk_dirs (or_disk r) src" "[] \<notin> set dst" "tree_clear (or_disk r) src dst"
    and "\<And>rel. \<not> dk_exists (or_disk r) (dst @ rel)"
    and "fst (dp_walk dp (or_disk r) src) = (src @ [x]) # (src @ [y]) # ws" "x \<noteq> last src" "y \<noteq> last src"
    and "dk_files (or_disk r) (src @ [x]) = Some A" "A \<noteq> []" "length A \<le> op_chunk"
  shows "case resumed_runs dp [(nid, [])] (run_copy_move dp spec None r) of (f, r') \<Rightarrow>
    f = FDone \<and> dk_files (or_disk r') (dst @ [x]) = Some A \<and> dk_files (or_disk r') (dst @ [y]) = Some []
    \<and> dk_files (or_disk r') (dst @ [last src] @ [x]) = None
    \<and> (\<forall>rel. dk_is_file (or_disk r) (src @ rel) \<longrightarrow> rel \<noteq> [x] \<longrightarrow>
         dk_files (or_disk r') (dst @ [last src] @ rel) = dk_files (or_disk r) (src @ rel))"
proof -
  let ?d = "or_disk r" and ?t = "dst @ [last src]"
  let ?rest = "\<lambda>t. map (\<lambda>q. item_of ?d q (t @ drop (length src) q)) ws"
  let ?a = "item_of ?d (src @ [x]) (dst @ [x])" and ?b = "item_of ?d (src @ [y]) (dst @ [y])"
  have nofile: "\<not> dk_is_file ?d dst" "\<not> dk_dirs ?d dst" using assms(14) [of "[]"] by (auto simp: dk_exists_def dk_is_file_def)
  have I: "tree_items dp ?d src t = item_of ?d (src @ [x]) (t @ [x]) # item_of ?d (src @ [y]) (t @ [y]) # ?rest t" for t
    using tree_items_cons [OF assms(15)] by simp
  have plan: "expand_plan dp ?d spec = Inr (?a # ?b # ?rest dst)"
    using plan_of_tree [OF assms(2) disk_wf_finite [OF assms(4)] assms(11,10) nofile(1) assms(8,9)] nofile(2) I by (simp add: tree_target_def)
  have ok: "plan_ok ?d (?a # ?b # ?rest dst)" using tree_items_ok [OF assms(4,2,13)] I by simp
  have off: "not_taken dp spec c q q" for c q by (rule not_taken_off) (simp add: assms(6))
  let ?c = "Some \<lparr>cp_file_index = 1, cp_bytes_done = 0\<rparr>"
  obtain rb where rb: "resumed_runs dp [(nid, [])] (run_copy_move dp spec None r) = run_copy_move dp spec ?c rb"
    "or_gates rb = []" "dk_files (or_disk rb) = (dk_files ?d)(dst @ [x] \<mapsto> A, dst @ [y] \<mapsto> [])"
    "\<And>q. dk_dirs (or_disk rb) q \<longleftrightarrow> dk_dirs ?d q \<or> (\<exists>n\<le>length dst. q = take n dst)"
  proof (rule resumed_at_second [OF assms(1) plan off ok assms(5), where nid = nid])
    show "\<not> dk_exists ?d (ci_dst ?a)" "\<not> dk_exists ?d (ci_dst ?b)" "dk_files ?d (ci_src ?a) = Some A" "A \<noteq> []" "length A \<le> op_chunk"
      using assms(14,18,19,20) by simp_all
    fix q
    assume q: "resumed_runs dp [(nid, [])] (run_copy_move dp spec None r) = run_copy_move dp spec ?c q" "or_gates q = []"
      "dk_files (or_disk q) = (dk_files ?d)(ci_dst ?a \<mapsto> A, ci_src ?a := (if os_kind spec = Move then None else Some A), ci_dst ?b \<mapsto> [])"
      "\<And>z. dk_dirs (or_disk q) z = (dk_dirs ?d z \<or> (\<exists>n<length (ci_dst ?a). z = take n (ci_dst ?a)) \<or> (\<exists>n<length (ci_dst ?b). z = take n (ci_dst ?b)))"
    have "dk_files ?d (dst @ [x]) = None" using assms(14) by (simp add: dk_exists_def)
    then have "src @ [x] \<noteq> dst @ [x]" using assms(18) by auto
    then have "dk_files (or_disk q) = (dk_files ?d)(dst @ [x] \<mapsto> A, dst @ [y] \<mapsto> [])"
      unfolding q(3) using assms(6,18) by (auto simp: fun_eq_iff)
    moreover have "dk_dirs (or_disk q) z \<longleftrightarrow> dk_dirs ?d z \<or> (\<exists>n\<le>length dst. z = take n dst)" for z
      unfolding q(4) by (auto simp: less_Suc_eq_le)
    ultimately show thesis using q(1,2) by (intro that)
  qed
  have apart: "src @ u \<noteq> dst @ v" for u v
    using assms(13) unfolding tree_clear_def below_iff by (metis append_eq_append_conv2)
  have files: "dk_files (or_disk rb) (src @ u) = dk_files ?d (src @ u)" for u using apart rb(3) by simp
  have isf: "dk_is_file (or_disk rb) q \<longleftrightarrow> dk_is_file ?d q \<or> q = dst @ [x] \<or> q = dst @ [y]" for q
    using rb(3) by (auto simp: dk_is_file_def)
  have "dp_walk dp (or_disk rb) src = dp_walk dp ?d src" by (rule walk_stableD [OF assms(3) files])
  moreover have "item_of (or_disk rb) q z = item_of ?d q z" if m: "q \<in> set (fst (dp_walk dp ?d src))" for q z
  proof -
    obtain u where u: "q = src @ u" using m unfolding walks_set [OF assms(2) disk_wf_finite [OF assms(4)]] by (elim exE conjE)
    show ?thesis unfolding u item_of_def dk_content_def files by (rule refl)
  qed
  ultimately have I2: "tree_items dp (or_disk rb) src ?t = tree_items dp ?d src ?t" by (simp add: tree_items_def)
  have way: "\<not> dk_is_file ?d (take n dst)" for n
    using assms(13) nofile(1) unfolding tree_clear_def by (cases "n < length dst") auto
  have dir: "dk_dirs (or_disk rb) q \<longleftrightarrow> dk_dirs ?d q \<or> (\<exists>n. q = take n dst)" for q
  proof -
    have "(\<exists>n\<le>length dst. q = take n dst) \<longleftrightarrow> (\<exists>n. q = take n dst)"
    proof
      assume "\<exists>n. q = take n dst"
      then obtain n where "q = take n dst" by blast
      then have "q = take (min n (length dst)) dst" by (simp add: min_def)
      then show "\<exists>n\<le>length dst. q = take n dst" by (intro exI [of _ "min n (length dst)"]) simp
    qed blast
    then show ?thesis unfolding rb(4) by simp
  qed
  have here: "dk_exists ?d (src @ [x])" "dk_exists ?d (src @ [y])"
    using walks_set [OF assms(2) disk_wf_finite [OF assms(4)], of "src @ [x]" src] walks_set [OF assms(2) disk_wf_finite [OF assms(4)], of "src @ [y]" src] assms(15)
    by (simp_all add: dk_exists_def dk_is_file_def)
  have "[] \<notin> set (dst @ [x, y])" using here assms(4,12) unfolding disk_wf_def by auto
  then have wf: "disk_wf (or_disk rb)" by (rule dir_filled_wf [OF assms(4,14) way _ isf dir])
  have clear: "tree_clear (or_disk rb) src ?t" by (rule dir_filled_clear [OF assms(13,11,14) way assms(16,17) isf dir])
  have "\<not> dk_is_file (or_disk rb) dst" using nofile(1) unfolding isf by auto
  moreover have dirs: "dk_dirs (or_disk rb) dst" "dk_dirs (or_disk rb) src" using rb(4) assms(11) by auto
  ultimately have plan2: "expand_plan dp (or_disk rb) spec = Inr (tree_items dp ?d src ?t)"
    using plan_of_tree [OF assms(2) disk_wf_finite [OF wf] dirs(2) assms(10) _ assms(8,9)] I2 by (simp add: tree_target_def)
  have ok2: "plan_ok (or_disk rb) (tree_items dp ?d src ?t)" using tree_items_ok [OF wf assms(2) clear] I2 by simp
  have ready: "start_ready (or_disk rb) (start_of ?c) (bytes_of ?c) (tree_items dp ?d src ?t) 0"
    using plan_okD(2) [OF ok2] by (auto simp: start_ready_def start_of_def bytes_of_def item_ready_def target_ready_def)
  obtain r' d where r': "run_copy_move dp spec ?c rb = (FDone, r')" "or_disk r' = swept dp spec d"
    "placed Copy (tree_items dp ?d src ?t) (drop 1 (tree_items dp ?d src ?t)) (or_disk rb) d"
    by (rule run_items_done [OF assms(1) plan2 off ok2 _ rb(2) ready])
      (auto simp: policy_free_def assms(6,7) chosen_def start_of_def)
  have d: "or_disk r' = d" using r'(2) assms(6) by (simp add: swept_def)
  let ?J = "drop 1 (tree_items dp ?d src ?t)"
  have J: "set ?J \<subseteq> set (tree_items dp ?d src ?t)" by (rule set_drop_subset)
  have other: "dk_files d q = dk_files (or_disk rb) q" if "q \<notin> ci_dst ` set ?J" for q
    using r'(3) that unfolding placed_def by blast
  have deep: "\<exists>u. q = ?t @ u" if m: "q \<in> ci_dst ` set ?J" for q
  proof -
    obtain i where i: "i \<in> set (tree_items dp ?d src ?t)" "q = ci_dst i" using m J by blast
    then show ?thesis unfolding tree_items_set [OF assms(2) disk_wf_finite [OF assms(4)]] by auto
  qed
  have "dst @ [x] \<notin> ci_dst ` set ?J" "dst @ [y] \<notin> ci_dst ` set ?J" using deep assms(16,17) by force+
  moreover have "x \<noteq> y" using walks_distinct(1) [OF assms(2) disk_wf_finite [OF assms(4)], of src] assms(15) by simp
  ultimately have shallow: "dk_files d (dst @ [x]) = Some A" "dk_files d (dst @ [y]) = Some []" using other rb(3) by simp_all
  have "?t @ [x] \<notin> ci_dst ` set ?J"
  proof -
    obtain a' J' where h: "tree_items dp ?d src ?t = a' # J'" "ci_dst a' = ?t @ [x]" using I by simp
    then show ?thesis using ok2 unfolding plan_ok_def by auto
  qed
  then have "dk_files d (?t @ [x]) = None"
    using other rb(3) assms(14) [of "[last src, x]"] by (simp add: dk_exists_def)
  moreover have "dk_files d (?t @ rel) = dk_files ?d (src @ rel)" if f: "dk_is_file ?d (src @ rel)" "rel \<noteq> [x]" for rel
  proof -
    have "rel \<noteq> []" using f(1) dir_no_file [OF assms(4,11)] by auto
    then have "item_of ?d (src @ rel) (?t @ rel) \<in> set (tree_items dp ?d src ?t)" using f(1) tree_items_set [OF assms(2) disk_wf_finite [OF assms(4)]] by blast
    then have "item_of ?d (src @ rel) (?t @ rel) \<in> set ?J" using f(2) unfolding I by (auto simp: item_of_def)
    then have "dk_files d (ci_dst (item_of ?d (src @ rel) (?t @ rel))) = dk_files (or_disk rb) (ci_src (item_of ?d (src @ rel) (?t @ rel)))"
      using r'(3) unfolding placed_def by blast
    then show ?thesis using files by simp
  qed
  ultimately show ?thesis unfolding rb(1) r'(1) prod.case d using shallow by simp
qed

section \<open>The hazards on concrete disks\<close>

definition same_name :: disk where
  "same_name = disk_of [([''s'', ''a''], [1, 2]), ([''d'', ''a''], [9])] [[], [''s''], [''d'']]"

lemma same_name_wf: "disk_wf same_name"
  unfolding same_name_def by (rule disk_of_wf) simp_all

lemma move_shortcut_overwrites_witness:
  "\<exists>r'. run_copy_move (plain_port (\<lambda>_ _ _. True)) (plain_spec Move Skip [''s'', ''a''] [''d'']) None
     (plain_run (plain_spec Move Skip [''s'', ''a''] [''d'']) [] same_name) = (FDone, r')
   \<and> dk_files (or_disk r') [''d'', ''a''] = Some [1, 2] \<and> dk_files (or_disk r') [''s'', ''a''] = None"
  using move_shortcut_overwrites [of "plain_port (\<lambda>_ _ _. True)"
      "plain_run (plain_spec Move Skip [''s'', ''a''] [''d'']) [] same_name" "plain_spec Move Skip [''s'', ''a''] [''d'']"
      "[''s'', ''a'']" "[''d'']" "[1, 2]" "[9]"] same_name_wf
  by (simp add: same_name_def below_def)

lemma copy_onto_itself_empties_witness:
  "\<exists>r'. run_copy_move (plain_port (\<lambda>_ _ _. True)) (plain_spec Copy Overwrite [''s'', ''a''] [''s'']) None
     (plain_run (plain_spec Copy Overwrite [''s'', ''a''] [''s'']) [] same_name) = (FFailed ''size'', r')
   \<and> dk_files (or_disk r') [''s'', ''a''] = Some []"
  using copy_onto_itself_empties [of "plain_port (\<lambda>_ _ _. True)"
      "plain_run (plain_spec Copy Overwrite [''s'', ''a''] [''s'']) [] same_name" "plain_spec Copy Overwrite [''s'', ''a''] [''s'']"
      "[''s'', ''a'']" "[1, 2]"] same_name_wf
  by (simp add: same_name_def)

definition large_file :: disk where
  "large_file = disk_of [([''s'', ''a''], replicate (op_chunk + 1) 7)] [[], [''s''], [''d'']]"

lemma large_file_wf: "disk_wf large_file"
  unfolding large_file_def by (rule disk_of_wf) simp_all

lemma resumed_skip_truncates_witness:
  "case resumed_runs (plain_port (\<lambda>_ _ _. True)) [(''op2'', [])]
      (run_copy_move (plain_port (\<lambda>_ _ _. True)) (plain_spec Copy Skip [''s'', ''a''] [''d'']) None
        (plain_run (plain_spec Copy Skip [''s'', ''a''] [''d'']) [Go, Go, GPause] large_file)) of (f, r') \<Rightarrow>
     f = FDone \<and> dk_files (or_disk r') ([''d''] @ [last [''s'', ''a'']]) = Some (take op_chunk (replicate (op_chunk + 1) 7))"
  by (rule resumed_skip_truncates) (use large_file_wf in \<open>simp_all add: large_file_def dk_exists_def\<close>)

lemma plain_walk_ordered [simp]: "walk_ordered (plain_port ren)"
  unfolding walk_ordered_def
proof (intro allI impI)
  fix d d' :: disk and p
  assume fin: "finite (dom (dk_files d))" and sub: "\<forall>q. dk_is_file d' q \<longrightarrow> below p q \<longrightarrow> dk_is_file d q"
  let ?A = "{q. dk_is_file d q \<and> below p q \<and> q \<noteq> p}" and ?B = "{q. dk_is_file d' q \<and> below p q \<and> q \<noteq> p}"
  have "?B = set (filter (dk_is_file d') (sorted_list_of_set ?A))" using listed_finite [OF fin] sub by auto
  moreover have "sorted (filter (dk_is_file d') (sorted_list_of_set ?A))" "distinct (filter (dk_is_file d') (sorted_list_of_set ?A))"
    by (simp_all add: sorted_filter [where f = "\<lambda>x. x", simplified])
  ultimately have "sorted_list_of_set ?B = filter (dk_is_file d') (sorted_list_of_set ?A)"
    by (simp only: sorted_list_of_set.idem_if_sorted_distinct)
  then show "fst (dp_walk (plain_port ren) d' p) = filter (dk_is_file d') (fst (dp_walk (plain_port ren) d p))"
    by (simp add: plain_port_def listed_def)
qed

lemma two_files_walk: "fst (dp_walk (plain_port ren) two_files [''s'']) = [[''s'', ''a''], [''s'', ''b'']]"
proof -
  have "{q. dk_is_file two_files q \<and> below [''s''] q \<and> q \<noteq> [''s'']} = {[''s'', ''a''], [''s'', ''b'']}"
    by (auto simp: two_files_def dk_is_file_def below_def split: if_splits)
  then show ?thesis by (simp add: plain_port_def listed_def)
qed

lemma resumed_move_loses_files_witness:
  "case resumed_runs (plain_port (\<lambda>_ _ _. False)) [(''op2'', [])]
      (run_copy_move (plain_port (\<lambda>_ _ _. False)) (plain_spec Move Overwrite [''s''] [''d'']) None
        (plain_run (plain_spec Move Overwrite [''s''] [''d'']) [Go, Go, Go, Go, GPause] two_files)) of (f, r') \<Rightarrow>
     f = FDone \<and> dk_files (or_disk r') ([''s''] @ [''b'']) = None \<and> dk_files (or_disk r') ([''d''] @ [last [''s'']] @ [''b'']) = Some []"
  by (rule resumed_move_loses_files [where x = "[''a'']" and ws = "[]" and A = "[1, 2]"])
    (use two_files_wf two_files_clear two_files_walk in \<open>simp_all add: op_chunk_def, simp_all add: two_files_def dk_exists_def\<close>)

lemma two_files_clear_new: "tree_clear two_files [''s''] [''n'']"
  unfolding two_files_def by (rule disk_of_clear) (simp_all add: below_def)

lemma resume_splits_tree_witness:
  "case resumed_runs (plain_port (\<lambda>_ _ _. False)) [(''op2'', [])]
      (run_copy_move (plain_port (\<lambda>_ _ _. False)) (plain_spec Copy Overwrite [''s''] [''n'']) None
        (plain_run (plain_spec Copy Overwrite [''s''] [''n'']) [Go, Go, Go, Go, GPause] two_files)) of (f, r') \<Rightarrow>
     f = FDone \<and> dk_files (or_disk r') [''n'', ''a''] = Some [1, 2] \<and> dk_files (or_disk r') [''n'', ''b''] = Some []
     \<and> dk_files (or_disk r') [''n'', ''s'', ''b''] = Some [3]"
proof -
  let ?spec = "plain_spec Copy Overwrite [''s''] [''n'']" and ?dp = "plain_port (\<lambda>_ _ _. False)"
  let ?r = "plain_run ?spec [Go, Go, Go, Go, GPause] two_files"
  define res where "res = resumed_runs ?dp [(''op2'', [])] (run_copy_move ?dp ?spec None ?r)"
  have "case res of (f, r') \<Rightarrow> f = FDone \<and> dk_files (or_disk r') ([''n''] @ [''a'']) = Some [1, 2] \<and> dk_files (or_disk r') ([''n''] @ [''b'']) = Some []
     \<and> dk_files (or_disk r') ([''n''] @ [last [''s'']] @ [''a'']) = None
     \<and> (\<forall>rel. dk_is_file (or_disk ?r) ([''s''] @ rel) \<longrightarrow> rel \<noteq> [''a''] \<longrightarrow>
          dk_files (or_disk r') ([''n''] @ [last [''s'']] @ rel) = dk_files (or_disk ?r) ([''s''] @ rel))"
    unfolding res_def
    by (rule resume_splits_tree [where ws = "[]"])
      (use two_files_wf two_files_clear_new two_files_walk in \<open>simp_all add: op_chunk_def, simp_all add: two_files_def dk_exists_def\<close>)
  then show ?thesis unfolding res_def [symmetric] by (auto simp: two_files_def dk_is_file_def split: prod.splits)
qed

end
