(* ===== verification/File_Queue.thy ===== *)
theory File_Queue
  imports File_Copy "HOL-Library.AList" "HOL-Library.Multiset"
begin

text \<open>
  The queue of file operations (\<open>OpQueue\<close> of \<open>crates/file-core/src/ops.rs\<close>): what enters it, the control
  flags, the worker's handling of a job, the records kept for a restart and the rows kept for the panel.
  Rows are a list of keys and values with distinct keys; the channel is the list of jobs in it; jobs a
  worker has taken wait at the admission gate or run.  Identifiers are arguments: fresh ones are the
  caller's promise.
\<close>

section \<open>The queue\<close>

record op_control =
  oc_paused :: bool
  oc_canceled :: bool

definition gate_of :: "op_control \<Rightarrow> gate" where
  "gate_of c = (if oc_canceled c then GCancel else if oc_paused c then GPause else Go)"

record op_job =
  jb_op_id :: string
  jb_spec :: op_spec
  jb_direction :: transfer_direction
  jb_checkpoint :: "checkpoint option"
  jb_resumed_from :: "string option"

record op_queue =
  oq_jobs :: "op_job list"
  oq_open :: bool
  oq_held :: "op_job list"
  oq_running :: "op_job list"
  oq_workers :: nat
  oq_limit :: nat
  oq_ctls :: "string \<Rightarrow> op_control option"
  oq_latest :: "(string \<times> op_progress) list"
  oq_store :: "string \<Rightarrow> pending_op option"
  oq_sent :: "op_progress list"

definition queue_new :: "nat \<Rightarrow> (string \<Rightarrow> pending_op option) \<Rightarrow> op_queue" where
  "queue_new workers store =
     \<lparr>oq_jobs = [], oq_open = True, oq_held = [], oq_running = [], oq_workers = max workers 1, oq_limit = max workers 1,
      oq_ctls = Map.empty, oq_latest = [], oq_store = store, oq_sent = []\<rparr>"

definition set_max_concurrent :: "nat \<Rightarrow> op_queue \<Rightarrow> op_queue" where
  "set_max_concurrent n q = q\<lparr>oq_limit := max 1 (min n (oq_workers q))\<rparr>"

text \<open>The worker's sink keeps the row and calls back; the one who enqueues does both as well.\<close>

definition report :: "op_progress \<Rightarrow> op_queue \<Rightarrow> op_queue" where
  "report g q = q\<lparr>oq_latest := AList.update (pg_op_id g) g (oq_latest q), oq_sent := oq_sent q @ [g]\<rparr>"

definition row :: "op_queue \<Rightarrow> string \<Rightarrow> op_progress option" where
  "row q op_id = map_of (oq_latest q) op_id"

definition enqueue_with_checkpoint ::
    "bool \<Rightarrow> string \<Rightarrow> int \<Rightarrow> op_spec \<Rightarrow> checkpoint option \<Rightarrow> string option \<Rightarrow> op_queue \<Rightarrow> (file_error + string) \<times> op_queue" where
  "enqueue_with_checkpoint store_ok nid now spec ckpt resumed_from q =
     (case direction_of (os_srcs spec) (os_dst spec) of
        Inl e \<Rightarrow> (Inl e, q)
      | Inr dir \<Rightarrow>
          if os_kind spec = Delete \<and> os_recycle spec \<and> list_ex is_remote (os_srcs spec) then (Inl (BadState ''recycle''), q)
          else if \<not> store_ok then (Inl (FileIo ''persist''), q)
          else
            let p = pending_of spec nid resumed_from now
                  (case ckpt of None \<Rightarrow> 0 | Some c \<Rightarrow> cp_file_index c) (case ckpt of None \<Rightarrow> 0 | Some c \<Rightarrow> cp_bytes_done c);
                q1 = q\<lparr>oq_store := (oq_store q)(nid \<mapsto> p), oq_ctls := (oq_ctls q)(nid \<mapsto> \<lparr>oc_paused = False, oc_canceled = False\<rparr>)\<rparr>;
                q2 = report (fresh_progress nid (os_kind spec) dir resumed_from Queued) q1
            in if \<not> oq_open q then (Inl (BadState ''closed''), q2)
               else (Inr nid, q2\<lparr>oq_jobs := oq_jobs q2 @
                  [\<lparr>jb_op_id = nid, jb_spec = spec, jb_direction = dir, jb_checkpoint = ckpt, jb_resumed_from = resumed_from\<rparr>]\<rparr>))"

definition enqueue :: "bool \<Rightarrow> string \<Rightarrow> int \<Rightarrow> op_spec \<Rightarrow> op_queue \<Rightarrow> (file_error + string) \<times> op_queue" where
  "enqueue store_ok nid now spec q = enqueue_with_checkpoint store_ok nid now spec None None q"

definition on_ctl :: "(op_control \<Rightarrow> op_control) \<Rightarrow> string \<Rightarrow> op_queue \<Rightarrow> (file_error + unit) \<times> op_queue" where
  "on_ctl f op_id q =
     (case oq_ctls q op_id of
        None \<Rightarrow> (Inl (NoSuchOp op_id), q)
      | Some c \<Rightarrow> (Inr (), q\<lparr>oq_ctls := (oq_ctls q)(op_id \<mapsto> f c)\<rparr>))"

definition pause_op :: "string \<Rightarrow> op_queue \<Rightarrow> (file_error + unit) \<times> op_queue" where
  "pause_op = on_ctl (\<lambda>c. c\<lparr>oc_paused := True\<rparr>)"

definition cancel_op :: "string \<Rightarrow> op_queue \<Rightarrow> (file_error + unit) \<times> op_queue" where
  "cancel_op = on_ctl (\<lambda>c. c\<lparr>oc_canceled := True, oc_paused := False\<rparr>)"

definition remove_pending :: "string \<Rightarrow> op_queue \<Rightarrow> op_queue" where
  "remove_pending op_id q = q\<lparr>oq_store := (oq_store q)(op_id := None)\<rparr>"

definition drop_pending :: "string \<Rightarrow> op_queue \<Rightarrow> bool \<times> op_queue" where
  "drop_pending op_id q = (oq_store q op_id \<noteq> None, remove_pending op_id q)"

definition resume_op :: "bool \<Rightarrow> string \<Rightarrow> int \<Rightarrow> string \<Rightarrow> op_queue \<Rightarrow> (file_error + string) \<times> op_queue" where
  "resume_op store_ok nid now op_id q =
     (case oq_store q op_id of
        None \<Rightarrow> (Inl (NoSuchOp op_id), q)
      | Some p \<Rightarrow>
          if po_op_id p \<noteq> op_id then (Inl (BadState ''mismatch''), q)
          else case enqueue_with_checkpoint store_ok nid now (spec_of p) (checkpoint_of p) (Some op_id) q of
            (Inl e, q1) \<Rightarrow> (Inl e, q1)
          | (Inr n, q1) \<Rightarrow> (Inr n, (remove_pending op_id q1)\<lparr>oq_latest := AList.delete op_id (oq_latest q1)\<rparr>))"

fun terminal :: "op_state \<Rightarrow> bool" where
  "terminal st = (st = Done \<or> st = Failed \<or> st = Canceled)"

definition prune_finished :: "nat \<Rightarrow> op_queue \<Rightarrow> nat \<times> op_queue" where
  "prune_finished keep q =
     (let finished = sort (map fst (filter (\<lambda>(i, g). terminal (pg_state g)) (oq_latest q))) in
      if length finished \<le> keep then (0, q)
      else let old = take (length finished - keep) finished in
        (length (filter (\<lambda>i. row q i \<noteq> None) old), q\<lparr>oq_latest := fold AList.delete old (oq_latest q)\<rparr>))"

definition finished_rows_kept :: nat where "finished_rows_kept = 50"

definition active :: "op_queue \<Rightarrow> op_progress list \<times> op_queue" where
  "active q =
     (let q1 = snd (prune_finished finished_rows_kept q) in (sort_key pg_op_id (map snd (oq_latest q1)), q1))"

definition status :: "string \<Rightarrow> op_queue \<Rightarrow> op_progress option" where
  "status op_id q = row q op_id"

text \<open>The records on disk in the order of their creation; \<open>names\<close> is the listing of the directory.\<close>

definition read_pending :: "string list \<Rightarrow> (string \<Rightarrow> pending_op option) \<Rightarrow> pending_op list" where
  "read_pending names store = sort_key po_created_ms (List.map_filter store names)"

definition close_queue :: "op_queue \<Rightarrow> op_queue" where
  "close_queue q = q\<lparr>oq_open := False\<rparr>"

section \<open>Workers\<close>

text \<open>A worker that is free takes the next job, and starts it when the gate lets it through.\<close>

definition take_job :: "op_queue \<Rightarrow> op_queue option" where
  "take_job q =
     (case oq_jobs q of
        [] \<Rightarrow> None
      | j # js \<Rightarrow>
          if length (oq_held q) + length (oq_running q) < oq_workers q
          then Some (q\<lparr>oq_jobs := js, oq_held := oq_held q @ [j]\<rparr>) else None)"

definition start_job :: "op_job \<Rightarrow> op_queue \<Rightarrow> op_queue option" where
  "start_job j q =
     (if j \<in> set (oq_held q) \<and> length (oq_running q) < oq_limit q
      then Some (report (fresh_progress (jb_op_id j) (os_kind (jb_spec j)) (jb_direction j) (jb_resumed_from j) Running)
        (q\<lparr>oq_held := remove1 j (oq_held q), oq_running := oq_running q @ [j]\<rparr>))
      else None)"

text \<open>
  What a run does to the queue while it goes on: rows, and records under its own identifier.  At the end
  the record goes unless the run was paused, and the last row tells the outcome; the text of a remote
  failure is masked first.
\<close>

definition settle :: "(string \<Rightarrow> string) \<Rightarrow> op_job \<Rightarrow> flow \<Rightarrow> op_progress \<Rightarrow> op_queue \<Rightarrow> op_queue" where
  "settle cover j f g q =
     (let q1 = q\<lparr>oq_running := remove1 j (oq_running q)\<rparr> in
      case f of
        FDone \<Rightarrow> report (g\<lparr>pg_state := Done\<rparr>) (remove_pending (pg_op_id g) q1)
      | FPaused \<Rightarrow> report (g\<lparr>pg_state := Paused\<rparr>) q1
      | FCanceled \<Rightarrow> report (g\<lparr>pg_state := Canceled\<rparr>) (remove_pending (pg_op_id g) q1)
      | FFailed e \<Rightarrow>
          report (g\<lparr>pg_error := Some (if jb_direction j = DirLocal then e else cover e), pg_state := Failed\<rparr>)
            (remove_pending (pg_op_id g) q1))"

text \<open>
  The run of a job: the local arms for copying, moving and deleting, the others given.  The row a run
  starts from is the one \<open>start_job\<close> reported; the rows it emits are reported in turn.
\<close>

record op_arms =
  ar_recycle :: "(path list \<Rightarrow> disk \<Rightarrow> bool \<times> disk) option"
  ar_compress :: "op_spec \<Rightarrow> op_run \<Rightarrow> flow \<times> op_run"
  ar_extract :: "op_spec \<Rightarrow> op_run \<Rightarrow> flow \<times> op_run"
  ar_transfer :: "(op_spec \<Rightarrow> transfer_direction \<Rightarrow> checkpoint option \<Rightarrow> op_run \<Rightarrow> flow \<times> op_run) option"
  ar_remote_delete :: "op_spec \<Rightarrow> op_run \<Rightarrow> flow \<times> op_run"

definition dispatch :: "disk_port \<Rightarrow> op_arms \<Rightarrow> op_job \<Rightarrow> op_run \<Rightarrow> flow \<times> op_run" where
  "dispatch dp arms j r =
     (let spec = jb_spec j in
      if jb_direction j \<noteq> DirLocal then
        (case ar_transfer arms of
           None \<Rightarrow> (FFailed ''no drivers'', r)
         | Some transfer \<Rightarrow>
             (case os_kind spec of
                Delete \<Rightarrow> ar_remote_delete arms spec r
              | Compress \<Rightarrow> (FFailed ''unsupported'', r)
              | Extract \<Rightarrow> (FFailed ''unsupported'', r)
              | _ \<Rightarrow> transfer spec (jb_direction j) (jb_checkpoint j) r))
      else case os_kind spec of
        Delete \<Rightarrow> run_delete dp spec (ar_recycle arms) r
      | Compress \<Rightarrow> ar_compress arms spec r
      | Extract \<Rightarrow> ar_extract arms spec r
      | _ \<Rightarrow> run_copy_move dp spec (jb_checkpoint j) r)"

definition run_of :: "op_job \<Rightarrow> gate list \<Rightarrow> int \<Rightarrow> nat \<Rightarrow> op_queue \<Rightarrow> disk \<Rightarrow> op_run" where
  "run_of j gs now millis q d =
     \<lparr>or_disk = d, or_gates = gs,
      or_rep = fresh_progress (jb_op_id j) (os_kind (jb_spec j)) (jb_direction j) (jb_resumed_from j) Running,
      or_emits = [], or_store = oq_store q, or_now = now, or_millis = millis\<rparr>"

definition run_job ::
    "disk_port \<Rightarrow> op_arms \<Rightarrow> (string \<Rightarrow> string) \<Rightarrow> op_job \<Rightarrow> gate list \<Rightarrow> int \<Rightarrow> nat \<Rightarrow> op_queue \<Rightarrow> disk \<Rightarrow> op_queue \<times> disk" where
  "run_job dp arms cover j gs now millis q d =
     (let (f, r) = dispatch dp arms j (run_of j gs now millis q d);
          q1 = fold report (or_emits r) (q\<lparr>oq_store := or_store r\<rparr>)
      in (settle cover j f (or_rep r) q1, or_disk r))"

text \<open>At the start of the module every record is resumed; \<open>nids\<close> are the identifiers handed out.\<close>

fun resume_pending :: "bool \<Rightarrow> int \<Rightarrow> string list \<Rightarrow> pending_op list \<Rightarrow> op_queue \<Rightarrow> nat \<times> op_queue" where
  "resume_pending store_ok now (nid # nids) (p # ps) q =
     (case resume_op store_ok nid now (po_op_id p) q of
        (Inr _, q1) \<Rightarrow> (let (n, q2) = resume_pending store_ok now nids ps q1 in (n + 1, q2))
      | (Inl _, q1) \<Rightarrow> resume_pending store_ok now nids ps q1)"
| "resume_pending store_ok now nids ps q = (0, q)"

section \<open>Rows and records under the operations\<close>

lemma report_simps [simp]:
  "oq_jobs (report g q) = oq_jobs q" "oq_open (report g q) = oq_open q" "oq_held (report g q) = oq_held q"
  "oq_running (report g q) = oq_running q" "oq_workers (report g q) = oq_workers q" "oq_limit (report g q) = oq_limit q"
  "oq_ctls (report g q) = oq_ctls q" "oq_store (report g q) = oq_store q"
  "oq_latest (report g q) = AList.update (pg_op_id g) g (oq_latest q)"
  by (simp_all add: report_def)

lemma row_report [simp]: "row (report g q) i = (if i = pg_op_id g then Some g else row q i)"
  by (simp add: row_def update_conv')

lemma remove_pending_simps [simp]:
  "oq_jobs (remove_pending i q) = oq_jobs q" "oq_open (remove_pending i q) = oq_open q" "oq_held (remove_pending i q) = oq_held q"
  "oq_running (remove_pending i q) = oq_running q" "oq_workers (remove_pending i q) = oq_workers q"
  "oq_limit (remove_pending i q) = oq_limit q" "oq_ctls (remove_pending i q) = oq_ctls q"
  "oq_latest (remove_pending i q) = oq_latest q" "oq_store (remove_pending i q) = (oq_store q)(i := None)"
  by (simp_all add: remove_pending_def)

lemma row_same: "oq_latest q' = oq_latest q \<Longrightarrow> row q' = row q"
  by (simp add: row_def fun_eq_iff)

lemma row_remove_pending [simp]: "row (remove_pending i q) = row q"
  by (rule row_same) simp

lemma fresh_progress_simps [simp]:
  "pg_op_id (fresh_progress i k dr rf st) = i" "pg_state (fresh_progress i k dr rf st) = st"
  "pg_resumed_from (fresh_progress i k dr rf st) = rf"
  by (simp_all add: fresh_progress_def)

definition all_jobs :: "op_queue \<Rightarrow> op_job list" where
  "all_jobs q = oq_jobs q @ oq_held q @ oq_running q"

definition accepted :: "op_spec \<Rightarrow> transfer_direction \<Rightarrow> bool" where
  "accepted spec dir \<longleftrightarrow> direction_of (os_srcs spec) (os_dst spec) = Inr dir
     \<and> \<not> (os_kind spec = Delete \<and> os_recycle spec \<and> list_ex is_remote (os_srcs spec))"

definition unfinished :: "op_state \<Rightarrow> bool" where
  "unfinished st \<longleftrightarrow> st = Queued \<or> st = Running"

text \<open>What a job in the queue relies on: its record, its row, and that it was accepted.\<close>

definition job_ok :: "op_queue \<Rightarrow> op_job \<Rightarrow> bool" where
  "job_ok q j \<longleftrightarrow> accepted (jb_spec j) (jb_direction j)
     \<and> (\<exists>p. oq_store q (jb_op_id j) = Some p \<and> po_op_id p = jb_op_id j \<and> spec_of p = jb_spec j)
     \<and> (\<exists>g. row q (jb_op_id j) = Some g \<and> unfinished (pg_state g))"

definition row_ok :: "op_queue \<Rightarrow> string \<Rightarrow> op_progress \<Rightarrow> bool" where
  "row_ok q i g \<longleftrightarrow> pg_op_id g = i
     \<and> (unfinished (pg_state g) \<longrightarrow> i \<in> jb_op_id ` set (all_jobs q))
     \<and> (pg_state g = Paused \<longrightarrow> (\<exists>p dir. oq_store q i = Some p \<and> po_op_id p = i \<and> accepted (spec_of p) dir))"

definition queue_ok :: "op_queue \<Rightarrow> bool" where
  "queue_ok q \<longleftrightarrow> oq_open q \<and> distinct (map fst (oq_latest q)) \<and> distinct (map jb_op_id (all_jobs q))
     \<and> (\<forall>j\<in>set (all_jobs q). job_ok q j) \<and> (\<forall>i g. row q i = Some g \<longrightarrow> row_ok q i g)
     \<and> length (oq_held q) + length (oq_running q) \<le> oq_workers q \<and> 1 \<le> oq_limit q \<and> oq_limit q \<le> oq_workers q"

lemma queue_okD:
  assumes "queue_ok q"
  shows "j \<in> set (all_jobs q) \<Longrightarrow> job_ok q j" "row q i = Some g \<Longrightarrow> row_ok q i g"
  using assms by (auto simp: queue_ok_def)

definition fresh_id :: "string \<Rightarrow> op_queue \<Rightarrow> bool" where
  "fresh_id nid q \<longleftrightarrow> oq_store q nid = None \<and> row q nid = None \<and> nid \<notin> jb_op_id ` set (all_jobs q)"

section \<open>Steps\<close>

inductive queue_step :: "op_queue \<Rightarrow> op_queue \<Rightarrow> bool" where
  enqueued: "fresh_id nid q \<Longrightarrow> queue_step q (snd (enqueue ok nid now spec q))"
| paused: "queue_step q (snd (pause_op i q))"
| canceled: "queue_step q (snd (cancel_op i q))"
| resumed: "row q i = Some g \<Longrightarrow> pg_state g = Paused \<Longrightarrow> fresh_id nid q \<Longrightarrow> queue_step q (snd (resume_op ok nid now i q))"
| listed: "queue_step q (snd (active q))"
| limited: "queue_step q (set_max_concurrent n q)"
| taken: "take_job q = Some q' \<Longrightarrow> queue_step q q'"
| started: "start_job j q = Some q' \<Longrightarrow> queue_step q q'"
| reported: "j \<in> set (oq_running q) \<Longrightarrow> pg_op_id g = jb_op_id j \<Longrightarrow> pg_state g = Running \<Longrightarrow> queue_step q (report g q)"
| recorded: "j \<in> set (oq_running q) \<Longrightarrow> po_op_id p = jb_op_id j \<Longrightarrow> spec_of p = jb_spec j \<Longrightarrow>
    queue_step q (q\<lparr>oq_store := (oq_store q)(jb_op_id j \<mapsto> p)\<rparr>)"
| settled: "j \<in> set (oq_running q) \<Longrightarrow> pg_op_id g = jb_op_id j \<Longrightarrow> queue_step q (settle cover j f g q)"

inductive_cases queue_stepE: "queue_step q q'"

text \<open>A new job, and its row and its record, leave the invariant in place.\<close>

definition admitted :: "string \<Rightarrow> int \<Rightarrow> op_spec \<Rightarrow> checkpoint option \<Rightarrow> string option \<Rightarrow> transfer_direction \<Rightarrow> op_queue \<Rightarrow> op_queue" where
  "admitted nid now spec ckpt rf dir q =
     (report (fresh_progress nid (os_kind spec) dir rf Queued)
       (q\<lparr>oq_store := (oq_store q)(nid \<mapsto> pending_of spec nid rf now
            (case ckpt of None \<Rightarrow> 0 | Some c \<Rightarrow> cp_file_index c) (case ckpt of None \<Rightarrow> 0 | Some c \<Rightarrow> cp_bytes_done c)),
          oq_ctls := (oq_ctls q)(nid \<mapsto> \<lparr>oc_paused = False, oc_canceled = False\<rparr>)\<rparr>))
     \<lparr>oq_jobs := oq_jobs q @ [\<lparr>jb_op_id = nid, jb_spec = spec, jb_direction = dir, jb_checkpoint = ckpt, jb_resumed_from = rf\<rparr>]\<rparr>"

lemma enqueue_cases:
  assumes "oq_open q"
  shows "enqueue_with_checkpoint ok nid now spec ckpt rf q =
    (case direction_of (os_srcs spec) (os_dst spec) of
       Inl e \<Rightarrow> (Inl e, q)
     | Inr dir \<Rightarrow>
         if \<not> accepted spec dir then (Inl (BadState ''recycle''), q)
         else if \<not> ok then (Inl (FileIo ''persist''), q)
         else (Inr nid, admitted nid now spec ckpt rf dir q))"
  using assms by (auto simp: enqueue_with_checkpoint_def accepted_def admitted_def Let_def split: sum.split)

lemma enqueue_accepted:
  "oq_open q \<Longrightarrow> accepted spec dir \<Longrightarrow>
    enqueue_with_checkpoint True nid now spec ckpt rf q = (Inr nid, admitted nid now spec ckpt rf dir q)"
  by (simp add: enqueue_cases) (simp add: accepted_def)

lemma admitted_simps [simp]:
  "oq_jobs (admitted nid now spec ckpt rf dir q) = oq_jobs q @ [\<lparr>jb_op_id = nid, jb_spec = spec, jb_direction = dir, jb_checkpoint = ckpt, jb_resumed_from = rf\<rparr>]"
  "oq_held (admitted nid now spec ckpt rf dir q) = oq_held q" "oq_running (admitted nid now spec ckpt rf dir q) = oq_running q"
  "oq_open (admitted nid now spec ckpt rf dir q) = oq_open q" "oq_workers (admitted nid now spec ckpt rf dir q) = oq_workers q"
  "oq_limit (admitted nid now spec ckpt rf dir q) = oq_limit q"
  "oq_latest (admitted nid now spec ckpt rf dir q) = AList.update nid (fresh_progress nid (os_kind spec) dir rf Queued) (oq_latest q)"
  "oq_store (admitted nid now spec ckpt rf dir q) = (oq_store q)(nid \<mapsto> pending_of spec nid rf now
            (case ckpt of None \<Rightarrow> 0 | Some c \<Rightarrow> cp_file_index c) (case ckpt of None \<Rightarrow> 0 | Some c \<Rightarrow> cp_bytes_done c))"
  "oq_ctls (admitted nid now spec ckpt rf dir q) = (oq_ctls q)(nid \<mapsto> \<lparr>oc_paused = False, oc_canceled = False\<rparr>)"
  by (simp_all add: admitted_def)

lemma row_admitted [simp]:
  "row (admitted nid now spec ckpt rf dir q) i = (if i = nid then Some (fresh_progress nid (os_kind spec) dir rf Queued) else row q i)"
  by (simp add: row_def update_conv')

lemma admitted_ok:
  assumes ok: "queue_ok q" and acc: "accepted spec dir" and new: "fresh_id nid q"
  shows "queue_ok (admitted nid now spec ckpt rf dir q)"
proof -
  let ?q = "admitted nid now spec ckpt rf dir q"
  have jobs: "set (all_jobs ?q) = insert \<lparr>jb_op_id = nid, jb_spec = spec, jb_direction = dir, jb_checkpoint = ckpt, jb_resumed_from = rf\<rparr> (set (all_jobs q))"
    by (auto simp: all_jobs_def)
  have other: "jb_op_id j \<noteq> nid" if "j \<in> set (all_jobs q)" for j using new that by (auto simp: fresh_id_def)
  have "distinct (map jb_op_id (all_jobs ?q))"
    using ok new by (auto simp: queue_ok_def all_jobs_def fresh_id_def)
  moreover have "job_ok ?q j" if "j \<in> set (all_jobs ?q)" for j
    using that ok acc other unfolding jobs by (auto simp: queue_ok_def job_ok_def unfinished_def)
  moreover have "row_ok ?q i g" if "row ?q i = Some g" for i g
    using that ok jobs unfolding row_ok_def by (auto simp: queue_ok_def row_ok_def unfinished_def split: if_splits)
  ultimately show ?thesis
    using ok by (simp add: queue_ok_def distinct_update)
qed

text \<open>The flags, and the limit, are of no account for it.\<close>

lemma queue_ok_flags:
  assumes "queue_ok q" "oq_jobs q' = oq_jobs q" "oq_held q' = oq_held q" "oq_running q' = oq_running q" "oq_open q' = oq_open q"
    "oq_latest q' = oq_latest q" "oq_store q' = oq_store q" "oq_workers q' = oq_workers q" "1 \<le> oq_limit q'" "oq_limit q' \<le> oq_workers q'"
  shows "queue_ok q'"
proof -
  have "row q' = row q" by (rule row_same) (rule assms(6))
  moreover have "all_jobs q' = all_jobs q" by (simp add: all_jobs_def assms)
  ultimately show ?thesis using assms unfolding queue_ok_def job_ok_def row_ok_def by simp
qed

lemma on_ctl_ok: "queue_ok q \<Longrightarrow> queue_ok (snd (on_ctl f i q))"
  by (rule queue_ok_flags [where q = q]) (auto simp: on_ctl_def queue_ok_def split: option.split)

lemma limit_ok: "queue_ok q \<Longrightarrow> queue_ok (set_max_concurrent n q)"
  by (rule queue_ok_flags [where q = q]) (auto simp: set_max_concurrent_def queue_ok_def)

text \<open>Rows and records of no job may go.\<close>

lemma row_deleted: "row (q\<lparr>oq_latest := AList.delete i (oq_latest q)\<rparr>) k = (if k = i then None else row q k)"
  by (simp add: row_def delete_conv')

lemma dropped_ok:
  assumes ok: "queue_ok q" and i: "i \<notin> jb_op_id ` set (all_jobs q)"
  shows "queue_ok ((remove_pending i q)\<lparr>oq_latest := AList.delete i (oq_latest q)\<rparr>)" (is "queue_ok ?q")
proof -
  have jobs: "all_jobs ?q = all_jobs q" by (simp add: all_jobs_def)
  have row: "row ?q k = (if k = i then None else row q k)" for k
    using row_deleted [where q = "remove_pending i q" and i = i and k = k] by simp
  have "job_ok ?q j" if "j \<in> set (all_jobs q)" for j
  proof -
    have "jb_op_id j \<noteq> i" using i that by auto
    then show ?thesis using ok that by (auto simp: queue_ok_def job_ok_def row)
  qed
  moreover have "row_ok ?q k g" if "row ?q k = Some g" for k g
    using that ok unfolding row_ok_def jobs by (auto simp: row queue_ok_def row_ok_def split: if_splits)
  ultimately show ?thesis using ok jobs by (simp add: queue_ok_def distinct_delete)
qed

lemma finished_no_job:
  assumes "queue_ok q" "row q i = Some g" "\<not> unfinished (pg_state g)"
  shows "i \<notin> jb_op_id ` set (all_jobs q)"
  using assms by (auto simp: queue_ok_def job_ok_def)

lemma resume_ok:
  assumes ok: "queue_ok q" and i: "row q i = Some g" "pg_state g = Paused" and new: "fresh_id nid q"
  shows "queue_ok (snd (resume_op b nid now i q))"
proof -
  obtain p where p: "oq_store q i = Some p" "po_op_id p = i" using queue_okD(2) [OF ok i(1)] i(2) by (auto simp: row_ok_def)
  have nid: "nid \<noteq> i" using new p by (auto simp: fresh_id_def)
  have no: "i \<notin> jb_op_id ` set (all_jobs q)" using finished_no_job [OF ok i(1)] i(2) by (simp add: unfinished_def)
  have "oq_open q" using ok by (simp add: queue_ok_def)
  note e = enqueue_cases [OF this, of b nid now "spec_of p" "checkpoint_of p" "Some i"]
  show ?thesis
  proof (cases "\<exists>dir. direction_of (os_srcs (spec_of p)) (os_dst (spec_of p)) = Inr dir \<and> accepted (spec_of p) dir \<and> b")
    case True
    then obtain dir where dir: "direction_of (os_srcs (spec_of p)) (os_dst (spec_of p)) = Inr dir" "accepted (spec_of p) dir" b by blast
    let ?a = "admitted nid now (spec_of p) (checkpoint_of p) (Some i) dir q"
    have "i \<notin> jb_op_id ` set (all_jobs ?a)" using no nid by (auto simp: all_jobs_def)
    from dropped_ok [OF admitted_ok [OF ok dir(2) new] this] show ?thesis
      using p dir e by (simp add: resume_op_def)
  next
    case False
    then show ?thesis using p e ok by (auto simp: resume_op_def split: sum.splits)
  qed
qed

lemma row_fold_delete: "map_of (fold AList.delete is xs) k = (if k \<in> set is then None else map_of xs k)"
  by (induction "is" arbitrary: xs) (auto simp: delete_conv')

lemma distinct_fold_delete: "distinct (map fst xs) \<Longrightarrow> distinct (map fst (fold AList.delete is xs))"
  by (induction "is" arbitrary: xs) (simp_all add: distinct_delete)

definition finished_ids :: "op_queue \<Rightarrow> string list" where
  "finished_ids q = sort (map fst (filter (\<lambda>(i, g). terminal (pg_state g)) (oq_latest q)))"

lemma finished_ids_set:
  "distinct (map fst (oq_latest q)) \<Longrightarrow> i \<in> set (finished_ids q) \<longleftrightarrow> (\<exists>g. row q i = Some g \<and> terminal (pg_state g))"
  by (force simp: finished_ids_def row_def)

lemma prune_latest:
  "snd (prune_finished keep q) = q\<lparr>oq_latest := fold AList.delete (take (length (finished_ids q) - keep) (finished_ids q)) (oq_latest q)\<rparr>"
  unfolding prune_finished_def finished_ids_def [symmetric] Let_def by (cases "length (finished_ids q) \<le> keep") simp_all

lemma row_prune: "row (snd (prune_finished keep q)) k = (if k \<in> set (take (length (finished_ids q) - keep) (finished_ids q)) then None else row q k)"
  unfolding prune_latest by (simp add: row_def row_fold_delete)

lemma prune_ok:
  assumes ok: "queue_ok q"
  shows "queue_ok (snd (prune_finished keep q))" (is "queue_ok ?q")
proof -
  let ?old = "take (length (finished_ids q) - keep) (finished_ids q)"
  have old: "\<exists>g. row q i = Some g \<and> terminal (pg_state g)" if "i \<in> set ?old" for i
    using finished_ids_set [of q i] ok in_set_takeD [OF that] by (auto simp: queue_ok_def)
  have jobs: "all_jobs ?q = all_jobs q" by (simp add: all_jobs_def prune_latest)
  have store: "oq_store ?q = oq_store q" by (simp add: prune_latest)
  have "job_ok ?q j" if m: "j \<in> set (all_jobs q)" for j
  proof -
    have "jb_op_id j \<notin> set ?old"
    proof
      assume "jb_op_id j \<in> set ?old"
      from old [OF this] show False using ok m by (auto simp: queue_ok_def job_ok_def unfinished_def)
    qed
    then show ?thesis using ok m by (simp add: queue_ok_def job_ok_def row_prune store)
  qed
  moreover have "row_ok ?q k g" if "row ?q k = Some g" for k g
    using that ok unfolding row_ok_def jobs store row_prune by (auto simp: queue_ok_def row_ok_def split: if_splits)
  ultimately show ?thesis using ok jobs by (simp add: queue_ok_def prune_latest distinct_fold_delete)
qed

lemma taken_ok: "queue_ok q \<Longrightarrow> take_job q = Some q' \<Longrightarrow> queue_ok q'"
proof -
  assume ok: "queue_ok q" and "take_job q = Some q'"
  then obtain j js where j: "oq_jobs q = j # js" "q' = q\<lparr>oq_jobs := js, oq_held := oq_held q @ [j]\<rparr>"
    "length (oq_held q) + length (oq_running q) < oq_workers q"
    by (auto simp: take_job_def split: list.splits if_splits)
  have jobs: "set (all_jobs q') = set (all_jobs q)" using j by (auto simp: all_jobs_def)
  have "distinct (map jb_op_id (all_jobs q'))" using ok j by (auto simp: queue_ok_def all_jobs_def)
  moreover have "row q' = row q" by (rule row_same) (simp add: j)
  ultimately show "queue_ok q'" using ok j jobs by (simp add: queue_ok_def job_ok_def row_ok_def)
qed

text \<open>A report of a job that is under way.\<close>

lemma reported_ok:
  assumes ok: "queue_ok q" and j: "jb_op_id j = pg_op_id g" "j \<in> set (all_jobs q)" and g: "unfinished (pg_state g)"
  shows "queue_ok (report g q)"
proof -
  have jobs: "all_jobs (report g q) = all_jobs q" by (simp add: all_jobs_def)
  have mem: "pg_op_id g \<in> jb_op_id ` set (all_jobs q)" using j by (metis imageI)
  have "job_ok (report g q) k" if "k \<in> set (all_jobs q)" for k
    using queue_okD(1) [OF ok that] g by (auto simp: job_ok_def)
  moreover have "row_ok (report g q) i h" if h: "row (report g q) i = Some h" for i h
  proof (cases "i = pg_op_id g")
    case True
    then show ?thesis using h g mem unfolding row_ok_def jobs by (auto simp: unfinished_def)
  next
    case False
    then show ?thesis using queue_okD(2) [OF ok, of i h] h by (simp add: row_ok_def jobs)
  qed
  ultimately show ?thesis using ok jobs by (simp add: queue_ok_def distinct_update)
qed

lemma started_ok:
  assumes ok: "queue_ok q" and st: "start_job j q = Some q'"
  shows "queue_ok q'" "j \<in> set (oq_running q')" "oq_jobs q' = oq_jobs q" "oq_store q' = oq_store q"
    "mset (oq_held q) = add_mset j (mset (oq_held q'))" "oq_running q' = oq_running q @ [j]"
proof -
  define q1 where "q1 = q\<lparr>oq_held := remove1 j (oq_held q), oq_running := oq_running q @ [j]\<rparr>"
  have j: "j \<in> set (oq_held q)" "q' = report (fresh_progress (jb_op_id j) (os_kind (jb_spec j)) (jb_direction j) (jb_resumed_from j) Running) q1"
    using st by (auto simp: start_job_def q1_def split: if_splits)
  have held: "mset (oq_held q) = add_mset j (mset (remove1 j (oq_held q)))" using j(1) by simp
  have m: "mset (all_jobs q1) = mset (all_jobs q)" unfolding all_jobs_def q1_def mset_append held by simp
  have "distinct (map jb_op_id (all_jobs q1))"
    using ok m unfolding queue_ok_def by (metis mset_eq_imp_distinct_iff mset_map)
  moreover have "set (all_jobs q1) = set (all_jobs q)" using m by (rule mset_eq_setD)
  moreover have "row q1 = row q" by (rule row_same) (simp add: q1_def)
  moreover have "length (remove1 j (oq_held q)) + Suc (length (oq_running q)) = length (oq_held q) + length (oq_running q)"
    using arg_cong [OF held, of size] by (simp del: mset_remove1)
  ultimately have ok1: "queue_ok q1" using ok by (auto simp: queue_ok_def job_ok_def row_ok_def q1_def)
  show "queue_ok q'" unfolding j(2) by (rule reported_ok [OF ok1, of j]) (simp_all add: all_jobs_def q1_def unfinished_def)
  show "j \<in> set (oq_running q')" "oq_jobs q' = oq_jobs q" "oq_store q' = oq_store q" "oq_running q' = oq_running q @ [j]"
    by (simp_all add: j(2) q1_def)
  show "mset (oq_held q) = add_mset j (mset (oq_held q'))" using j(1) by (simp add: j(2) q1_def)
qed

text \<open>A job is determined by its identifier.\<close>

lemma job_unique:
  assumes "queue_ok q" "j \<in> set (all_jobs q)" "k \<in> set (all_jobs q)" "jb_op_id k = jb_op_id j"
  shows "k = j"
proof -
  have "inj_on jb_op_id (set (all_jobs q))" using assms(1) by (simp add: queue_ok_def distinct_map)
  then show ?thesis by (rule inj_onD) (use assms in simp_all)
qed

lemma recorded_ok:
  assumes ok: "queue_ok q" and j: "j \<in> set (all_jobs q)" and p: "po_op_id p = jb_op_id j" "spec_of p = jb_spec j"
  shows "queue_ok (q\<lparr>oq_store := (oq_store q)(jb_op_id j \<mapsto> p)\<rparr>)" (is "queue_ok ?q")
proof -
  have jobs: "all_jobs ?q = all_jobs q" by (simp add: all_jobs_def)
  have row: "row ?q = row q" by (rule row_same) simp
  have "job_ok ?q k" if "k \<in> set (all_jobs q)" for k
  proof (cases "jb_op_id k = jb_op_id j")
    case True
    then have "k = j" by (rule job_unique [OF ok j that])
    then show ?thesis using queue_okD(1) [OF ok j] p by (auto simp: job_ok_def row)
  next
    case False
    then show ?thesis using queue_okD(1) [OF ok that] by (auto simp: job_ok_def row)
  qed
  moreover have "row_ok ?q i h" if "row q i = Some h" for i h
    using queue_okD(2) [OF ok that] queue_okD(1) [OF ok j] p by (auto simp: row_ok_def job_ok_def jobs)
  ultimately show ?thesis using ok jobs row by (simp add: queue_ok_def)
qed

text \<open>The end of a run: the job is gone, and so is the record unless it is paused.\<close>

lemma settled_ok:
  assumes ok: "queue_ok q" and j: "j \<in> set (oq_running q)" and g: "pg_op_id g = jb_op_id j"
  shows "queue_ok (settle cover j f g q)" "oq_jobs (settle cover j f g q) = oq_jobs q" "oq_held (settle cover j f g q) = oq_held q"
    "oq_running (settle cover j f g q) = remove1 j (oq_running q)"
proof -
  define q1 where "q1 = q\<lparr>oq_running := remove1 j (oq_running q)\<rparr>"
  define keep where "keep = (if f = FPaused then q1 else remove_pending (pg_op_id g) q1)"
  define h where "h = (case f of FDone \<Rightarrow> g\<lparr>pg_state := Done\<rparr> | FPaused \<Rightarrow> g\<lparr>pg_state := Paused\<rparr> | FCanceled \<Rightarrow> g\<lparr>pg_state := Canceled\<rparr>
    | FFailed e \<Rightarrow> g\<lparr>pg_error := Some (if jb_direction j = DirLocal then e else cover e), pg_state := Failed\<rparr>)"
  have "settle cover j f g q = report h keep \<and> pg_op_id h = pg_op_id g \<and> \<not> unfinished (pg_state h)
      \<and> (pg_state h = Paused \<longrightarrow> f = FPaused)"
    by (cases f) (simp_all add: settle_def Let_def q1_def keep_def unfinished_def h_def)
  then have h: "settle cover j f g q = report h keep" "pg_op_id h = pg_op_id g" "\<not> unfinished (pg_state h)"
    "pg_state h = Paused \<Longrightarrow> f = FPaused" by simp_all
  have m: "mset (all_jobs q) = add_mset j (mset (all_jobs keep))" using j by (simp add: all_jobs_def keep_def q1_def)
  have d: "distinct (map jb_op_id (j # all_jobs keep))"
  proof -
    have "mset (map jb_op_id (j # all_jobs keep)) = mset (map jb_op_id (all_jobs q))" using m by simp
    then show ?thesis using ok unfolding queue_ok_def by (metis mset_eq_imp_distinct_iff)
  qed
  have sets: "set (all_jobs q) = insert j (set (all_jobs keep))" using arg_cong [OF m, of set_mset] by simp
  have jobs: "all_jobs (report h keep) = all_jobs keep" by (simp add: all_jobs_def)
  have other: "jb_op_id k \<noteq> jb_op_id j" if m: "k \<in> set (all_jobs keep)" for k
  proof
    assume "jb_op_id k = jb_op_id j"
    then have "jb_op_id j \<in> jb_op_id ` set (all_jobs keep)" using imageI [OF m, of jb_op_id] by simp
    then show False using d by simp
  qed
  have row: "row keep = row q" by (rule row_same) (simp add: keep_def q1_def)
  have store: "i \<noteq> jb_op_id j \<Longrightarrow> oq_store keep i = oq_store q i" "f = FPaused \<Longrightarrow> oq_store keep = oq_store q" for i
    using g by (simp_all add: keep_def q1_def)
  have "job_ok (report h keep) k" if k: "k \<in> set (all_jobs keep)" for k
    using queue_okD(1) [OF ok, of k] k sets other [OF k] store(1) h(2) g by (auto simp: job_ok_def row)
  moreover have "row_ok (report h keep) i x" if x: "row (report h keep) i = Some x" for i x
  proof (cases "i = jb_op_id j")
    case True
    then have "x = h" "i = pg_op_id h" using x h(2) g by simp_all
    moreover have "\<exists>p dir. oq_store q (jb_op_id j) = Some p \<and> po_op_id p = jb_op_id j \<and> accepted (spec_of p) dir"
      using queue_okD(1) [OF ok, of j] sets by (auto simp: job_ok_def)
    ultimately show ?thesis using True h(3,4) store(2) by (auto simp: row_ok_def)
  next
    case False
    then have "row_ok q i x" using queue_okD(2) [OF ok, of i x] x h(2) g row by simp
    then show ?thesis using False sets store(1) unfolding row_ok_def jobs by auto
  qed
  moreover have "length (oq_held keep) + length (oq_running keep) \<le> oq_workers keep"
    using ok by (auto simp: queue_ok_def keep_def q1_def length_remove1)
  ultimately show "queue_ok (settle cover j f g q)"
    using ok d unfolding h(1) queue_ok_def jobs by (simp add: distinct_update keep_def q1_def)
  show "oq_jobs (settle cover j f g q) = oq_jobs q" "oq_held (settle cover j f g q) = oq_held q"
    "oq_running (settle cover j f g q) = remove1 j (oq_running q)"
    unfolding h(1) by (simp_all add: keep_def q1_def)
qed

lemma enqueue_ok:
  assumes ok: "queue_ok q" and "fresh_id nid q"
  shows "queue_ok (snd (enqueue b nid now spec q))"
proof -
  have "oq_open q" using ok by (simp add: queue_ok_def)
  note e = enqueue_cases [OF this, of b nid now spec None None]
  show ?thesis
  proof (cases "direction_of (os_srcs spec) (os_dst spec)")
    case (Inr dir)
    have "snd (enqueue b nid now spec q) = q \<or>
        accepted spec dir \<and> snd (enqueue b nid now spec q) = admitted nid now spec None None dir q"
      unfolding enqueue_def e Inr by simp
    then show ?thesis using ok admitted_ok [OF ok _ assms(2), of spec dir now None None] by metis
  next
    case (Inl e')
    then show ?thesis unfolding enqueue_def e using ok by simp
  qed
qed

lemma step_keeps_queue: "queue_step q q' \<Longrightarrow> queue_ok q \<Longrightarrow> queue_ok q'"
proof (induction rule: queue_step.induct)
  case enqueued
  then show ?case by (rule enqueue_ok [rotated])
next
  case (resumed q i g)
  show ?case by (rule resume_ok [OF resumed(4,1,2,3)])
next
  case taken
  then show ?case by (rule taken_ok [rotated])
next
  case started
  then show ?case by (rule started_ok(1) [rotated])
next
  case (recorded j q p)
  then show ?case by (intro recorded_ok [of q j p]) (simp_all add: all_jobs_def)
next
  case (reported j q g)
  then show ?case by (intro reported_ok [of q j g]) (simp_all add: all_jobs_def unfinished_def)
next
  case (settled j q g)
  show ?case by (rule settled_ok(1) [OF settled(3,1,2)])
next
  case listed
  then show ?case using prune_ok by (simp add: active_def Let_def)
qed (simp_all add: pause_op_def cancel_op_def on_ctl_ok limit_ok)

lemma queue_new_ok: "queue_ok (queue_new n store)"
  by (simp add: queue_new_def queue_ok_def all_jobs_def row_def)

lemma reachable_queue_ok: "queue_step\<^sup>*\<^sup>* (queue_new n store) q \<Longrightarrow> queue_ok q"
  by (induction rule: rtranclp_induct) (auto intro: queue_new_ok step_keeps_queue)

text \<open>C10. The queue never loses an operation: however enqueuing, pausing, cancelling, resuming what is
  paused, listing, limiting and the workers' steps interleave, an operation whose row is not in a final
  state has its record on disk under its own identifier, and exactly one job in the queue carries it
  unless it is paused.
\<close>

theorem queue_keeps_operations:
  assumes "queue_step\<^sup>*\<^sup>* (queue_new n store) q" "row q i = Some g" "\<not> terminal (pg_state g)"
  shows "\<exists>p. oq_store q i = Some p \<and> po_op_id p = i
    \<and> (pg_state g = Paused \<or> (\<exists>!j. j \<in> set (all_jobs q) \<and> jb_op_id j = i \<and> spec_of p = jb_spec j))"
proof -
  have ok: "queue_ok q" using reachable_queue_ok [OF assms(1)] .
  have r: "row_ok q i g" using queue_okD(2) [OF ok assms(2)] .
  show ?thesis
  proof (cases "pg_state g = Paused")
    case False
    then have "unfinished (pg_state g)" using assms(3) by (cases "pg_state g") (auto simp: unfinished_def)
    then obtain j where j: "j \<in> set (all_jobs q)" "jb_op_id j = i" using r by (auto simp: row_ok_def)
    obtain p where p: "oq_store q i = Some p" "po_op_id p = i" "spec_of p = jb_spec j"
      using queue_okD(1) [OF ok j(1)] j(2) by (auto simp: job_ok_def)
    have "\<exists>!k. k \<in> set (all_jobs q) \<and> jb_op_id k = i \<and> spec_of p = jb_spec k"
    proof (rule ex1I [of _ j])
      show "j \<in> set (all_jobs q) \<and> jb_op_id j = i \<and> spec_of p = jb_spec j" using j p by simp
      fix k assume "k \<in> set (all_jobs q) \<and> jb_op_id k = i \<and> spec_of p = jb_spec k"
      then show "k = j" using job_unique [OF ok j(1), of k] j(2) by simp
    qed
    then show ?thesis using p by blast
  qed (use r in \<open>auto simp: row_ok_def\<close>)
qed

definition one_copy :: op_queue where
  "one_copy = snd (enqueue True ''op1'' 0 (plain_spec Copy Skip [''s''] [''d'']) (queue_new 2 Map.empty))"

lemma one_copy_reachable: "queue_step\<^sup>*\<^sup>* (queue_new 2 Map.empty) one_copy"
  unfolding one_copy_def
  by (rule r_into_rtranclp, rule queue_step.enqueued) (simp add: fresh_id_def queue_new_def row_def all_jobs_def)

lemma one_copy_admitted: "one_copy = admitted ''op1'' 0 (plain_spec Copy Skip [''s''] [''d'']) None None DirLocal (queue_new 2 Map.empty)"
  unfolding one_copy_def enqueue_def
  by (subst enqueue_accepted [of _ _ DirLocal]) (simp_all add: queue_new_def accepted_def direction_of_def is_remote_def)

theorem queue_keeps_operations_witness:
  "\<exists>p. oq_store one_copy ''op1'' = Some p \<and> po_op_id p = ''op1''
    \<and> (pg_state (fresh_progress ''op1'' Copy DirLocal None Queued) = Paused
       \<or> (\<exists>!j. j \<in> set (all_jobs one_copy) \<and> jb_op_id j = ''op1'' \<and> spec_of p = jb_spec j))"
  by (rule queue_keeps_operations [OF one_copy_reachable]) (simp_all add: one_copy_admitted)

end
