(* ===== verification/File_Worker.thy ===== *)
theory File_Worker
  imports File_Queue
begin

text \<open>
  The worker's side of the queue: what a run of an operation may do to rows and records, that a whole job
  is a sequence of steps of the queue, that a worker empties the queue, and what a restart does with the
  records it finds.
\<close>

section \<open>What an arm may touch\<close>

text \<open>
  A run under way for the operation \<open>i\<close>: its rows are its own and say that it runs, and of the records
  (\<open>st\<close> at the start) only its own may have changed, to another of the same request.
\<close>

definition own :: "string \<Rightarrow> op_spec \<Rightarrow> (string \<Rightarrow> pending_op option) \<Rightarrow> op_run \<Rightarrow> bool" where
  "own i spec st r \<longleftrightarrow> pg_op_id (or_rep r) = i \<and> pg_state (or_rep r) = Running
     \<and> (\<forall>g\<in>set (or_emits r). pg_op_id g = i \<and> pg_state g = Running)
     \<and> (\<forall>k. k \<noteq> i \<longrightarrow> or_store r k = st k)
     \<and> (or_store r i = st i \<or> (\<exists>p. or_store r i = Some p \<and> po_op_id p = i \<and> spec_of p = spec))"

named_theorems own_intros

lemma own_look: "own i spec st r \<Longrightarrow> look r = (g, ra) \<Longrightarrow> own i spec st ra"
  using look_fields [of r g ra] by (simp add: own_def)

lemma own_emit [own_intros]: "own i spec st r \<Longrightarrow> own i spec st (emit r)"
  by (auto simp: own_def emit_def)

lemma own_on_disk [own_intros]: "own i spec st r \<Longrightarrow> own i spec st (on_disk f r)"
  by (simp add: own_def on_disk_def)

lemma own_on_rep [own_intros]:
  "own i spec st r \<Longrightarrow> (\<And>g. pg_op_id (f g) = pg_op_id g \<and> pg_state (f g) = pg_state g) \<Longrightarrow> own i spec st (on_rep f r)"
  by (simp add: own_def on_rep_def)

lemma own_persist [own_intros]:
  "own i spec st r \<Longrightarrow> po_op_id p = i \<Longrightarrow> spec_of p = spec \<Longrightarrow> own i spec st (persist_pending dp p r)"
  by (simp add: own_def persist_pending_def)

lemma own_pump:
  "own i spec st r \<Longrightarrow> (\<And>w. po_op_id (mk w) = i \<and> spec_of (mk w) = spec) \<Longrightarrow>
    own i spec st (snd (copy_pumped dp src dst mk written last_ckpt r))"
proof (induction dp src dst mk written last_ckpt r rule: copy_pumped.induct)
  case (1 dp src dst mk written last_ckpt r)
  obtain g ra where l: "look r = (g, ra)" by (cases "look r")
  have o: "own i spec st ra" by (rule own_look [OF 1(3) l])
  show ?case
  proof (cases g)
    case Go
    show ?thesis
    proof (cases "read_chunk (dp_read dp src) (dk_content (or_disk ra) src) written op_chunk []")
      case (Inl e)
      then show ?thesis using l Go o by (subst copy_pumped.simps) simp
    next
      case (Inr bs)
      show ?thesis
      proof (cases "bs = [] \<or> dp_write dp dst written \<noteq> None")
        case True
        then show ?thesis using l Go o Inr by (subst copy_pumped.simps) (auto intro: own_intros)
      next
        case False
        define rb where "rb = emit (on_rep (\<lambda>g. g\<lparr>pg_bytes_done := pg_bytes_done g + length bs\<rparr>)
          (on_disk (\<lambda>d. dk_set dst (Some (write_at written bs (dk_content d dst))) d) ra))"
        have ob: "own i spec st rb" unfolding rb_def by (intro own_intros o) simp
        have op: "own i spec st (persist_pending dp (mk (written + length bs)) rb)"
          using 1(4) by (intro own_intros ob) simp_all
        show ?thesis
          using l Go Inr False rb_def
            1(1) [OF l [symmetric] Go Inr _ _ refl refl _ _ 1(4)] 1(2) [OF l [symmetric] Go Inr _ _ refl refl _ _ 1(4)] ob op
          by (subst copy_pumped.simps) (simp add: Let_def)
      qed
    qed
  next
    case GPause
    then show ?thesis using l o 1(4) by (subst copy_pumped.simps) (simp add: own_persist)
  next
    case GCancel
    then show ?thesis using l o by (subst copy_pumped.simps) (simp add: own_on_disk)
  qed
qed

lemma own_copy_one:
  assumes "own i spec st r"
  shows "own i spec st (snd (copy_one dp spec item t n idx r))"
proof -
  let ?mk = "pending_of spec (pg_op_id (or_rep r)) (pg_resumed_from (or_rep r)) (or_now r) idx"
  have "own i spec st (snd (copy_pumped dp src t ?mk w w (on_disk f r)))" for src w f
    using assms by (intro own_pump own_on_disk) (simp_all add: own_def)
  then show ?thesis using assms by (simp add: copy_one_steps Let_def split_beta split: option.split)
qed

lemma own_copy_items:
  "own i spec st r \<Longrightarrow> own i spec st (snd (copy_items dp spec si sb items idx r))"
proof (induction items arbitrary: idx r)
  case (Cons item items)
  obtain g ra where l: "look r = (g, ra)" by (cases "look r")
  have o: "own i spec st ra" by (rule own_look [OF Cons(2) l])
  show ?case
  proof (cases "idx < si \<or> g \<noteq> Go \<or> make_parent dp (ci_dst item) (or_disk ra) = None")
    case True
    have "own i spec st (on_rep (\<lambda>g. g\<lparr>pg_files_done := pg_files_done g + 1\<rparr>) r)" by (intro own_intros Cons(2)) simp
    then show ?thesis using Cons(1) True l o by (cases g) auto
  next
    case False
    then obtain d1 where d1: "make_parent dp (ci_dst item) (or_disk ra) = Some d1" "\<not> idx < si" "g = Go" by blast
    define rb where "rb = on_disk (\<lambda>_. d1) ra"
    have ob: "own i spec st rb" unfolding rb_def by (intro own_intros o)
    show ?thesis
    proof (cases "resolve_target (or_millis rb) (ci_dst item) (os_policy spec) d1")
      case (Inl e)
      then show ?thesis using l d1 ob by (simp add: Let_def rb_def)
    next
      case (Inr x)
      show ?thesis
      proof (cases x)
        case None
        have "own i spec st (emit (on_rep (\<lambda>g. g\<lparr>pg_files_done := pg_files_done g + 1, pg_bytes_done := pg_bytes_done g + ci_size item\<rparr>) rb))"
          by (intro own_intros ob) simp
        then show ?thesis using l d1 Inr None Cons(1) by (simp add: Let_def rb_def)
      next
        case (Some t)
        define rc where "rc = on_rep (\<lambda>g. g\<lparr>pg_current := file_name_of (ci_src item)\<rparr>) rb"
        define n where "n = (if idx = si then min sb (ci_size item) else 0)"
        obtain f rd where c: "copy_one dp spec item t n idx rc = (f, rd)" by fastforce
        have "own i spec st rc" unfolding rc_def by (intro own_intros ob) simp
        from own_copy_one [OF this, of dp item t n idx] have od: "own i spec st rd" using c by simp
        define re where "re = on_rep (\<lambda>g. g\<lparr>pg_files_done := pg_files_done g + 1\<rparr>) rd"
        have oe: "own i spec st re" "own i spec st (emit (on_disk h re))" "own i spec st (emit re)" for h
          unfolding re_def by (intro own_intros od; simp)+
        have step: "copy_items dp spec si sb (item # items) idx r =
            (case f of
               FDone \<Rightarrow>
                 if os_kind spec = Move then
                   (case remove_file dp (ci_src item) (or_disk re) of
                      None \<Rightarrow> (FFailed ''remove'', re)
                    | Some d5 \<Rightarrow> copy_items dp spec si sb items (idx + 1) (emit (on_disk (\<lambda>_. d5) re)))
                 else copy_items dp spec si sb items (idx + 1) (emit re)
             | _ \<Rightarrow> (f, rd))"
          using l d1 Inr Some c by (simp add: Let_def rb_def [symmetric] rc_def [symmetric] n_def [symmetric] re_def split: flow.split option.split)
        show ?thesis unfolding step using od oe Cons(1) by (simp split: flow.split option.split)
      qed
    qed
  qed
qed simp

lemma own_move_shortcut: "own i spec st r \<Longrightarrow> own i spec st (snd (move_shortcut dp spec ckpt r))"
  by (auto simp: move_shortcut_def try_rename_def Let_def split: op_kind.split list.split option.split intro!: own_intros)

lemma own_run_copy_move:
  assumes o: "own i spec st r"
  shows "own i spec st (snd (run_copy_move dp spec ckpt r))"
proof (cases "expand_plan dp (or_disk r) spec")
  case (Inr items)
  define ra where "ra = on_rep (\<lambda>g. g\<lparr>pg_files_total := length items, pg_bytes_total := sum_list (map ci_size items)\<rparr>) r"
  have oa: "own i spec st ra" unfolding ra_def by (intro own_intros o) simp
  obtain moved rb where m: "move_shortcut dp spec ckpt ra = (moved, rb)" by fastforce
  have ob: "own i spec st rb" using own_move_shortcut [OF oa, of dp ckpt] m by simp
  define si where "si = (case ckpt of None \<Rightarrow> 0 | Some c \<Rightarrow> min (cp_file_index c) (length items))"
  define sb where "sb = (case ckpt of None \<Rightarrow> 0 | Some c \<Rightarrow> cp_bytes_done c)"
  define rc where "rc = on_rep (\<lambda>g. g\<lparr>pg_bytes_done := max sb (sum_list (map ci_size (take si items)))\<rparr>) rb"
  have "own i spec st rc" unfolding rc_def by (intro own_intros ob) simp
  from own_copy_items [OF this, of dp si sb items 0]
  have "own i spec st (snd (copy_items dp spec si sb items 0 rc))" .
  then show ?thesis
    using Inr m ob
    by (simp add: run_copy_move_def Let_def ra_def [symmetric] si_def [symmetric] sb_def [symmetric] rc_def [symmetric]
        split_beta own_on_disk split: flow.split)
qed (use o in \<open>simp add: run_copy_move_def\<close>)

lemma own_delete_each: "own i spec st r \<Longrightarrow> own i spec st (snd (delete_each dp ps r))"
proof (induction ps arbitrary: r)
  case (Cons p ps)
  obtain g ra where l: "look r = (g, ra)" by (cases "look r")
  have o: "own i spec st ra" by (rule own_look [OF Cons(2) l])
  have o1: "own i spec st (on_disk f (on_rep (\<lambda>g. g\<lparr>pg_current := n\<rparr>) ra))" for f n by (intro own_intros o) simp
  have o2: "own i spec st (emit (on_rep (\<lambda>g. g\<lparr>pg_files_done := pg_files_done g + 1\<rparr>) (on_disk f (on_rep (\<lambda>g. g\<lparr>pg_current := n\<rparr>) ra))))" for f n
    by (intro own_emit own_on_rep o1) simp
  show ?case using l o o1 o2 Cons(1) by (cases g) (simp_all add: Let_def split_beta)
qed simp

lemma own_run_delete:
  assumes o: "own i spec st r"
  shows "own i spec st (snd (run_delete dp spec recycle r))"
proof (cases "locals (os_srcs spec)")
  case (Some srcs)
  define files where "files = concat (map (counted dp (or_disk r)) srcs)"
  define bytes where "bytes = sum_list (map (\<lambda>q. length (dk_content (or_disk r) q)) files)"
  define ra where "ra = on_rep (\<lambda>g. g\<lparr>pg_files_total := length files, pg_bytes_total := bytes\<rparr>) r"
  have oa: "own i spec st ra" unfolding ra_def by (intro own_intros o) simp
  have "own i spec st (emit (on_rep (\<lambda>g. g\<lparr>pg_files_done := length files, pg_bytes_done := bytes\<rparr>) (on_disk f ra)))" for f
    by (intro own_intros oa) simp
  then show ?thesis
    using Some oa
    by (simp add: run_delete_def Let_def files_def [symmetric] bytes_def [symmetric] ra_def [symmetric] own_delete_each own_on_disk
        split: option.split prod.split bool.split)
qed (use o in \<open>simp add: run_delete_def\<close>)

section \<open>The contract of an arm\<close>

locale op_arm =
  fixes arm :: "op_run \<Rightarrow> flow \<times> op_run" and spec :: op_spec
  assumes keeps_own: "own i spec st r \<Longrightarrow> own i spec st (snd (arm r))"
begin

text \<open>What such an arm does for a job under way, and the end of the job, are steps of the queue.\<close>

lemma arm_steps:
  assumes j: "j \<in> set (oq_running q)" "jb_spec j = spec" and r: "own (jb_op_id j) spec (oq_store q) r" and a: "arm r = (f, ra)"
  shows "queue_step\<^sup>*\<^sup>* q (settle cover j f (or_rep ra) (fold report (or_emits ra) (q\<lparr>oq_store := or_store ra\<rparr>)))"
proof -
  have o: "own (jb_op_id j) spec (oq_store q) ra" using keeps_own [OF r] a by simp
  let ?q1 = "q\<lparr>oq_store := or_store ra\<rparr>"
  have store: "queue_step\<^sup>*\<^sup>* q ?q1"
  proof (cases "or_store ra (jb_op_id j) = oq_store q (jb_op_id j)")
    case True
    then have "or_store ra = oq_store q" using o unfolding own_def by (intro ext) metis
    then show ?thesis by simp
  next
    case False
    then obtain p where p: "or_store ra (jb_op_id j) = Some p" "po_op_id p = jb_op_id j" "spec_of p = spec"
      using o by (auto simp: own_def)
    then have "or_store ra = (oq_store q)(jb_op_id j \<mapsto> p)" using o unfolding own_def by (intro ext) auto
    then show ?thesis using queue_step.recorded [of j q p] j p by auto
  qed
  have reports: "queue_step\<^sup>*\<^sup>* x (fold report es x) \<and> oq_running (fold report es x) = oq_running x"
    if "j \<in> set (oq_running x)" "\<forall>g\<in>set es. pg_op_id g = jb_op_id j \<and> pg_state g = Running" for x es
    using that
  proof (induction es arbitrary: x)
    case (Cons g es)
    have "queue_step x (report g x)" using Cons(2,3) by (intro queue_step.reported [of j]) simp_all
    then show ?case using Cons(1) [of "report g x"] Cons(2,3) by (auto intro: converse_rtranclp_into_rtranclp)
  qed simp
  have "queue_step\<^sup>*\<^sup>* ?q1 (fold report (or_emits ra) ?q1) \<and> oq_running (fold report (or_emits ra) ?q1) = oq_running ?q1"
    using j o by (intro reports) (simp_all add: own_def)
  moreover from this have "queue_step (fold report (or_emits ra) ?q1) (settle cover j f (or_rep ra) (fold report (or_emits ra) ?q1))"
    using j o by (intro queue_step.settled) (simp_all add: own_def)
  ultimately show ?thesis using store by (meson rtranclp.rtrancl_into_rtrancl rtranclp_trans)
qed

end

interpretation copy_arm: op_arm "run_copy_move dp spec ckpt" spec for dp spec ckpt
  by unfold_locales (rule own_run_copy_move)

interpretation delete_arm: op_arm "run_delete dp spec recycle" spec for dp spec recycle
  by unfold_locales (rule own_run_delete)

lemma run_of_own: "own (jb_op_id j) (jb_spec j) (oq_store q) (run_of j gs now millis q d)"
  by (simp add: own_def run_of_def)

lemma run_job_refines:
  assumes "op_arm (dispatch dp arms j) (jb_spec j)" "j \<in> set (oq_running q)"
  shows "queue_step\<^sup>*\<^sup>* q (fst (run_job dp arms cover j gs now millis q d))"
proof -
  obtain f ra where a: "dispatch dp arms j (run_of j gs now millis q d) = (f, ra)" by fastforce
  show ?thesis
    using op_arm.arm_steps [OF assms refl run_of_own a] a
    by (simp add: run_job_def Let_def)
qed

lemma fold_report_simps [simp]:
  "oq_jobs (fold report es q) = oq_jobs q" "oq_held (fold report es q) = oq_held q" "oq_running (fold report es q) = oq_running q"
  "oq_workers (fold report es q) = oq_workers q" "oq_limit (fold report es q) = oq_limit q"
  by (induction es arbitrary: q) simp_all

lemma settle_simps [simp]:
  "oq_jobs (settle cover j f g q) = oq_jobs q" "oq_held (settle cover j f g q) = oq_held q"
  "oq_running (settle cover j f g q) = remove1 j (oq_running q)"
  by (simp_all add: settle_def Let_def split: flow.split)

lemma run_job_simps [simp]:
  "oq_jobs (fst (run_job dp arms cover j gs now millis q d)) = oq_jobs q"
  "oq_held (fst (run_job dp arms cover j gs now millis q d)) = oq_held q"
  "oq_running (fst (run_job dp arms cover j gs now millis q d)) = remove1 j (oq_running q)"
  by (simp_all add: run_job_def Let_def split_beta)

section \<open>A worker\<close>

text \<open>
  The loop of a worker, on its own: it takes a job, passes the gate, runs it, and takes the next.  Where
  the thread comes to rest is the value: it waits in \<open>recv\<close> while the channel is empty and open, it
  waits at the gate with the job in its hands, or it has left its loop, because the channel is empty
  and its sender is gone; \<open>Occupied\<close> is a queue all of whose workers hold or run a job, so that none
  is free to loop.  What a run meets (the answers of its control flags, the time) is a function
  of the job.
\<close>

datatype worker_rest = WaitsForJob | WaitsAtGate | LeftLoop | Occupied

lemma take_job_jobs: "take_job q = Some qa \<Longrightarrow> length (oq_jobs q) = Suc (length (oq_jobs qa))"
  by (auto simp: take_job_def split: list.splits if_splits)

lemma start_job_jobs: "start_job j q = Some qa \<Longrightarrow> oq_jobs qa = oq_jobs q"
  by (auto simp: start_job_def split: if_splits)

function worker_loop ::
    "disk_port \<Rightarrow> op_arms \<Rightarrow> (string \<Rightarrow> string) \<Rightarrow> (op_job \<Rightarrow> gate list \<times> int \<times> nat) \<Rightarrow> op_queue \<Rightarrow> disk \<Rightarrow> worker_rest \<times> op_queue \<times> disk" where
  "worker_loop dp arms cover meets q d =
     (case take_job q of
        None \<Rightarrow> (if oq_jobs q \<noteq> [] then Occupied else if oq_open q then WaitsForJob else LeftLoop, q, d)
      | Some qa \<Rightarrow>
          let j = hd (oq_jobs q) in
          (case start_job j qa of
             None \<Rightarrow> (WaitsAtGate, qa, d)
           | Some qb \<Rightarrow>
               let (gs, now, millis) = meets j; x = run_job dp arms cover j gs now millis qb d
               in worker_loop dp arms cover meets (fst x) (snd x)))"
  by pat_completeness auto
termination worker_loop
proof (relation "measure (\<lambda>(dp, arms, cover, meets, q, d). length (oq_jobs q))", goal_cases)
  case (2 dp arms cover meets q d qa j qb y gs z now millis x)
  then show ?case using take_job_jobs [of q qa] start_job_jobs [of j qa qb] by (simp add: case_prod_unfold)
qed simp

declare worker_loop.simps [simp del]

text \<open>The jobs whose arm is local copying, moving or deleting.\<close>

definition built_in :: "op_job \<Rightarrow> bool" where
  "built_in j \<longleftrightarrow> jb_direction j = DirLocal \<and> os_kind (jb_spec j) \<in> {Copy, Move, Delete}"

lemma built_in_arm: "built_in j \<Longrightarrow> op_arm (dispatch dp arms j) (jb_spec j)"
proof unfold_locales
  fix i st r
  assume "built_in j" "own i (jb_spec j) st r"
  then show "own i (jb_spec j) st (snd (dispatch dp arms j r))"
    using copy_arm.keeps_own delete_arm.keeps_own
    by (auto simp: dispatch_def Let_def built_in_def split: op_kind.split)
qed

text \<open>A queue whose sender is gone is worked off in the same way.\<close>

lemma report_close: "report g (close_queue q) = close_queue (report g q)"
  by (simp add: report_def close_queue_def)

lemma fold_report_close: "fold report gs (close_queue q) = close_queue (fold report gs q)"
  by (induction gs arbitrary: q) (simp_all add: report_close)

lemma settle_close: "settle cover j f g (close_queue q) = close_queue (settle cover j f g q)"
  by (cases f) (simp_all add: settle_def Let_def report_def remove_pending_def close_queue_def)

lemma run_job_close:
  "run_job dp arms cover j gs now millis (close_queue q) d =
    (close_queue (fst (run_job dp arms cover j gs now millis q d)), snd (run_job dp arms cover j gs now millis q d))"
proof -
  have "run_of j gs now millis (close_queue q) d = run_of j gs now millis q d" by (simp add: run_of_def close_queue_def)
  moreover have "(close_queue q)\<lparr>oq_store := x\<rparr> = close_queue (q\<lparr>oq_store := x\<rparr>)" for x by (simp add: close_queue_def)
  ultimately show ?thesis by (simp add: run_job_def Let_def split_beta fold_report_close settle_close)
qed

lemma take_job_close: "take_job (close_queue q) = map_option close_queue (take_job q)"
  by (simp add: take_job_def close_queue_def split: list.split)

lemma start_job_close: "start_job j (close_queue q) = map_option close_queue (start_job j q)"
  by (simp add: start_job_def close_queue_def report_def)

lemma close_queue_jobs [simp]: "oq_jobs (close_queue q) = oq_jobs q" "oq_open (close_queue q) = False"
  by (simp_all add: close_queue_def)

lemma worker_loop_drains:
  "queue_ok q \<Longrightarrow> oq_held q = [] \<Longrightarrow> oq_running q = [] \<Longrightarrow> list_all built_in (oq_jobs q) \<Longrightarrow>
    case worker_loop dp arms cover meets q d of (w, qz, dz) \<Rightarrow> w = WaitsForJob \<and> queue_step\<^sup>*\<^sup>* q qz \<and> all_jobs qz = []
      \<and> worker_loop dp arms cover meets (close_queue q) d = (LeftLoop, close_queue qz, dz)"
proof (induction dp arms cover meets q d rule: worker_loop.induct)
  case (1 dp arms cover meets q d)
  show ?case
  proof (cases "oq_jobs q")
    case Nil
    then have none: "take_job q = None" "take_job (close_queue q) = None" by (simp_all add: take_job_def)
    have "oq_open q" using 1(2) by (simp add: queue_ok_def)
    then show ?thesis using 1(3,4) Nil none
      by (subst (1 2) worker_loop.simps) (simp add: all_jobs_def)
  next
    case (Cons j js)
    define qa where "qa = q\<lparr>oq_jobs := js, oq_held := [j]\<rparr>"
    have workers: "1 \<le> oq_limit q" "oq_limit q \<le> oq_workers q" using 1(2) by (simp_all add: queue_ok_def)
    then have qa: "take_job q = Some qa" using Cons 1(3,4) by (simp add: take_job_def qa_def)
    define qb where "qb = report (fresh_progress (jb_op_id j) (os_kind (jb_spec j)) (jb_direction j) (jb_resumed_from j) Running)
        (qa\<lparr>oq_held := [], oq_running := [j]\<rparr>)"
    have qb: "start_job j qa = Some qb" using workers 1(4) by (simp add: start_job_def qa_def qb_def)
    have hd: "hd (oq_jobs q) = j" using Cons by simp
    obtain gs now millis where m: "meets j = (gs, now, millis)" by (cases "meets j")
    define x where "x = run_job dp arms cover j gs now millis qb d"
    have oka: "queue_ok qa" by (rule taken_ok [OF 1(2) qa])
    have okb: "queue_ok qb" by (rule started_ok(1) [OF oka qb])
    have j: "j \<in> set (oq_running qb)" by (simp add: qb_def)
    have built: "built_in j" using 1(5) Cons by simp
    have run: "queue_step\<^sup>*\<^sup>* qb (fst x)" unfolding x_def by (rule run_job_refines [OF built_in_arm [OF built] j])
    have okx: "queue_ok (fst x)" using run okb by (induction rule: rtranclp_induct) (auto intro: step_keeps_queue)
    have idle: "oq_held (fst x) = []" "oq_running (fst x) = []" "list_all built_in (oq_jobs (fst x))"
      using 1(5) Cons by (simp_all add: x_def qb_def qa_def)
    have steps: "queue_step\<^sup>*\<^sup>* q (fst x)"
      using queue_step.taken [OF qa] queue_step.started [OF qb] run by (meson converse_rtranclp_into_rtranclp)
    have open_loop: "worker_loop dp arms cover meets q d = worker_loop dp arms cover meets (fst x) (snd x)"
      using qa qb m Cons by (subst worker_loop.simps) (simp add: Let_def x_def)
    have closed_loop: "worker_loop dp arms cover meets (close_queue q) d = worker_loop dp arms cover meets (close_queue (fst x)) (snd x)"
      using qa qb m Cons
      by (subst worker_loop.simps) (simp add: Let_def x_def take_job_close start_job_close run_job_close)
    note IH = 1(1) [OF qa refl, unfolded hd, OF qb refl m [symmetric] refl x_def okx idle]
    show ?thesis unfolding open_loop closed_loop using IH steps by (auto intro: rtranclp_trans split: prod.splits)
  qed
qed

text \<open>C15. A worker leaves nothing waiting.  On a queue that can be reached, with no job held or under way elsewhere and
  only local copies, moves and deletions in it, a worker on its own runs every job to its end, all by
  steps of the queue, and comes to rest waiting for the next job, when no row says any more that an
  operation waits or runs; if the sender of the channel is gone, it does the same and then leaves its
  loop.\<close>

theorem worker_drains_queue:
  assumes "queue_step\<^sup>*\<^sup>* (queue_new n store) q" "oq_held q = []" "oq_running q = []" "list_all built_in (oq_jobs q)"
  shows "case worker_loop dp arms cover meets q d of (w, qz, dz) \<Rightarrow>
    w = WaitsForJob \<and> queue_step\<^sup>*\<^sup>* q qz \<and> all_jobs qz = []
    \<and> (\<forall>i g. row qz i = Some g \<longrightarrow> terminal (pg_state g) \<or> pg_state g = Paused)
    \<and> worker_loop dp arms cover meets (close_queue q) d = (LeftLoop, close_queue qz, dz)"
proof -
  obtain w qz dz where z: "worker_loop dp arms cover meets q d = (w, qz, dz)" by (cases "worker_loop dp arms cover meets q d")
  have steps: "w = WaitsForJob" "queue_step\<^sup>*\<^sup>* q qz" "all_jobs qz = []"
    "worker_loop dp arms cover meets (close_queue q) d = (LeftLoop, close_queue qz, dz)"
    using worker_loop_drains [OF reachable_queue_ok [OF assms(1)] assms(2-4), of dp arms cover meets d] z by simp_all
  have "queue_ok qz" by (rule reachable_queue_ok [OF rtranclp_trans [OF assms(1) steps(2)]])
  then have "\<not> unfinished (pg_state g)" if "row qz i = Some g" for i g
    using queue_okD(2) [OF _ that] steps(3) by (auto simp: row_ok_def)
  then have "terminal (pg_state g) \<or> pg_state g = Paused" if "row qz i = Some g" for i g
    using that by (cases "pg_state g") (auto simp: unfinished_def)
  then show ?thesis using steps by (simp add: z)
qed

section \<open>Restart\<close>

text \<open>What a record becomes when it is resumed: a job, and a record under the new identifier.\<close>

definition carries :: "op_job \<Rightarrow> pending_op \<Rightarrow> bool" where
  "carries j p \<longleftrightarrow> jb_spec j = spec_of p \<and> jb_checkpoint j = checkpoint_of p \<and> jb_resumed_from j = Some (po_op_id p)"

definition renewed :: "int \<Rightarrow> string \<Rightarrow> pending_op \<Rightarrow> pending_op" where
  "renewed now nid p = pending_of (spec_of p) nid (Some (po_op_id p)) now (po_file_index p) (po_bytes_done p)"

lemma resume_accepted:
  assumes "oq_open q" "oq_store q i = Some p" "po_op_id p = i" "accepted (spec_of p) dir"
  shows "resume_op True nid now i q =
    (Inr nid, (remove_pending i (admitted nid now (spec_of p) (checkpoint_of p) (Some i) dir q))
      \<lparr>oq_latest := AList.delete i (AList.update nid (fresh_progress nid (os_kind (spec_of p)) dir (Some i) Queued) (oq_latest q))\<rparr>)"
  using assms by (simp add: resume_op_def enqueue_accepted)

lemma resume_pending_all:
  "oq_open q \<Longrightarrow> length nids = length ps \<Longrightarrow> distinct (map po_op_id ps @ nids) \<Longrightarrow>
    (\<forall>p\<in>set ps. oq_store q (po_op_id p) = Some p \<and> (\<exists>dir. accepted (spec_of p) dir)) \<Longrightarrow>
    \<exists>js qz. resume_pending True now nids ps q = (length ps, qz) \<and> oq_jobs qz = oq_jobs q @ js
      \<and> map jb_op_id js = nids \<and> list_all2 carries js ps
      \<and> (\<forall>i. oq_store qz i = (case map_of (zip nids ps) i of Some p \<Rightarrow> Some (renewed now i p)
           | None \<Rightarrow> if i \<in> po_op_id ` set ps then None else oq_store q i))"
proof (induction ps arbitrary: nids q)
  case (Cons p ps)
  obtain nid ns where n: "nids = nid # ns" using Cons(3) by (cases nids) auto
  obtain dir where p: "oq_store q (po_op_id p) = Some p" "accepted (spec_of p) dir" using Cons(5) by auto
  define qa where "qa = snd (resume_op True nid now (po_op_id p) q)"
  have ra: "resume_op True nid now (po_op_id p) q = (Inr nid, qa)"
    using resume_accepted [OF Cons(2) p(1) refl p(2)] by (simp add: qa_def)
  have qa: "oq_open qa" "oq_store qa = (oq_store q)(nid \<mapsto> renewed now nid p, po_op_id p := None)"
    "oq_jobs qa = oq_jobs q @ [\<lparr>jb_op_id = nid, jb_spec = spec_of p, jb_direction = dir, jb_checkpoint = checkpoint_of p, jb_resumed_from = Some (po_op_id p)\<rparr>]"
    using resume_accepted [OF Cons(2) p(1) refl p(2)] Cons(2)
    by (simp_all add: qa_def renewed_def start_of_def [symmetric] bytes_of_def [symmetric])
  have dist: "po_op_id p \<notin> po_op_id ` set ps" "po_op_id p \<noteq> nid" "po_op_id p \<notin> set ns" "nid \<notin> set ns" "nid \<notin> po_op_id ` set ps"
    using Cons(4) n by auto
  have "\<exists>js qz. resume_pending True now ns ps qa = (length ps, qz) \<and> oq_jobs qz = oq_jobs qa @ js
      \<and> map jb_op_id js = ns \<and> list_all2 carries js ps
      \<and> (\<forall>i. oq_store qz i = (case map_of (zip ns ps) i of Some p \<Rightarrow> Some (renewed now i p)
           | None \<Rightarrow> if i \<in> po_op_id ` set ps then None else oq_store qa i))"
  proof (rule Cons(1) [OF qa(1)])
    show "length ns = length ps" "distinct (map po_op_id ps @ ns)" using Cons(3,4) n by auto
    show "\<forall>p\<in>set ps. oq_store qa (po_op_id p) = Some p \<and> (\<exists>dir. accepted (spec_of p) dir)"
    proof
      fix x assume x: "x \<in> set ps"
      then have "po_op_id x \<noteq> nid" "po_op_id x \<noteq> po_op_id p" using dist(1,5) by (metis imageI)+
      then show "oq_store qa (po_op_id x) = Some x \<and> (\<exists>dir. accepted (spec_of x) dir)" using Cons(5) x by (simp add: qa(2))
    qed
  qed
  then obtain js qz where z: "resume_pending True now ns ps qa = (length ps, qz)" "oq_jobs qz = oq_jobs qa @ js"
    "map jb_op_id js = ns" "list_all2 carries js ps"
    "\<And>i. oq_store qz i = (case map_of (zip ns ps) i of Some p \<Rightarrow> Some (renewed now i p)
           | None \<Rightarrow> if i \<in> po_op_id ` set ps then None else oq_store qa i)" by blast
  let ?j = "\<lparr>jb_op_id = nid, jb_spec = spec_of p, jb_direction = dir, jb_checkpoint = checkpoint_of p, jb_resumed_from = Some (po_op_id p)\<rparr>"
  have none: "map_of (zip ns ps) i = None" if "i \<notin> set ns" for i using that by (auto simp: map_of_eq_None_iff dest: set_zip_leftD)
  have "oq_store qz i = (case map_of (zip nids (p # ps)) i of Some p \<Rightarrow> Some (renewed now i p)
           | None \<Rightarrow> if i \<in> po_op_id ` set (p # ps) then None else oq_store q i)" for i
    using dist none [of nid] none [of "po_op_id p"] unfolding z(5) n qa(2) by (auto split: option.split)
  moreover have "carries ?j p" by (simp add: carries_def)
  ultimately show ?case
    using ra z(1,2,3,4) qa(3) n by (intro exI [of _ "?j # js"] exI [of _ qz]) simp
qed simp

lemma read_pending_set:
  assumes "distinct names" "set names = dom store" "\<And>i p. store i = Some p \<Longrightarrow> po_op_id p = i"
  shows "set (read_pending names store) = ran store" "length (read_pending names store) = length names"
    and "distinct (map po_op_id (read_pending names store))"
proof -
  have m: "List.map_filter store ns = map (the \<circ> store) ns" if "set ns \<subseteq> dom store" for ns
    using that by (induction ns) (auto simp: List.map_filter_simps)
  show "set (read_pending names store) = ran store"
    using assms(2) by (auto simp: read_pending_def m ran_def dom_def image_iff) (metis (mono_tags) domI mem_Collect_eq option.sel)
  show "length (read_pending names store) = length names" using assms(2) by (simp add: read_pending_def m)
  have "map po_op_id (map (the \<circ> store) names) = names"
    unfolding map_map by (rule map_idI) (use assms(2,3) in auto)
  then have "distinct (map po_op_id (map (the \<circ> store) names))" using assms(1) by simp
  moreover have "mset (map po_op_id (sort_key po_created_ms xs)) = mset (map po_op_id xs)" for xs by simp
  ultimately show "distinct (map po_op_id (read_pending names store))"
    unfolding read_pending_def m [OF equalityD1 [OF assms(2)]] using mset_eq_imp_distinct_iff by blast
qed

text \<open>C16. A restart loses no operation and runs none twice: from a directory with any records, each under its
  own name and accepted before, resuming what is pending hands out one job per record, in the order in
  which the records were written, with the request and the progress of the record; afterwards the
  directory holds exactly the new records, which point back to the old ones.\<close>

theorem restart_requeues_every_record:
  assumes "distinct names" "set names = dom store" "\<And>i p. store i = Some p \<Longrightarrow> po_op_id p = i \<and> (\<exists>dir. accepted (spec_of p) dir)"
    and "distinct nids" "set nids \<inter> set names = {}" "length nids = length names"
  shows "case resume_pending True now nids (read_pending names store) (queue_new n store) of (k, q) \<Rightarrow>
    k = length names \<and> sorted (map po_created_ms (read_pending names store)) \<and> set (read_pending names store) = ran store
    \<and> map jb_op_id (oq_jobs q) = nids \<and> list_all2 carries (oq_jobs q) (read_pending names store)
    \<and> dom (oq_store q) = set nids
    \<and> (\<forall>m<length nids. oq_store q (nids ! m) = Some (renewed now (nids ! m) (read_pending names store ! m)))"
proof -
  let ?ps = "read_pending names store" and ?q = "queue_new n store"
  have own: "po_op_id p = i" if "store i = Some p" for i p using assms(3) [OF that] by simp
  note rp = read_pending_set [OF assms(1,2) own]
  have ids: "po_op_id ` set ?ps = set names" using rp(1) own assms(2) by (force simp: ran_def dom_def)
  have new: "oq_open ?q" "oq_store ?q = store" "oq_jobs ?q = []" by (simp_all add: queue_new_def)
  have "distinct (map po_op_id ?ps @ nids)" using rp(3) assms(4,5) ids by auto
  moreover have "\<forall>p\<in>set ?ps. oq_store ?q (po_op_id p) = Some p \<and> (\<exists>dir. accepted (spec_of p) dir)"
    using rp(1) assms(3) new(2) by (auto simp: ran_def)
  moreover have len: "length nids = length ?ps" using assms(6) rp(2) by simp
  ultimately obtain js q where z0: "resume_pending True now nids ?ps ?q = (length ?ps, q)" "oq_jobs q = oq_jobs ?q @ js"
    "map jb_op_id js = nids" "list_all2 carries js ?ps"
    "\<forall>i. oq_store q i = (case map_of (zip nids ?ps) i of Some p \<Rightarrow> Some (renewed now i p)
           | None \<Rightarrow> if i \<in> po_op_id ` set ?ps then None else oq_store ?q i)"
    using resume_pending_all [OF new(1) len, of now] by blast
  have z: "resume_pending True now nids ?ps ?q = (length ?ps, q)" "oq_jobs q = js" "map jb_op_id js = nids" "list_all2 carries js ?ps"
    "\<And>i. oq_store q i = (case map_of (zip nids ?ps) i of Some p \<Rightarrow> Some (renewed now i p)
           | None \<Rightarrow> if i \<in> po_op_id ` set ?ps then None else store i)"
    using z0 unfolding new(2,3) by simp_all
  have at: "map_of (zip nids ?ps) (nids ! m) = Some (?ps ! m)" if "m < length nids" for m
    using map_of_zip_nth [OF len assms(4)] that len by simp
  have "oq_store q i = None \<longleftrightarrow> i \<notin> set nids" for i
  proof (cases "i \<in> set nids")
    case True
    then obtain m where "m < length nids" "i = nids ! m" by (auto simp: in_set_conv_nth)
    then show ?thesis using at True by (simp add: z(5))
  next
    case False
    then have "map_of (zip nids ?ps) i = None" by (auto simp: map_of_eq_None_iff dest: set_zip_leftD)
    then show ?thesis using False ids assms(2) by (auto simp: z(5))
  qed
  then have "dom (oq_store q) = set nids" by (auto simp: dom_def)
  moreover have "sorted (map po_created_ms ?ps)" by (simp add: read_pending_def)
  ultimately show ?thesis using z(1,2,3,4) rp(1,2) at by (simp add: z(5))
qed

section \<open>Where control is lost\<close>

text \<open>Cancelling a paused operation does nothing: the call succeeds, but the worker that would look at
  the flag has left; the row still says paused, the record stays, and resuming it (as every start of the
  module does) runs the operation with fresh flags.\<close>

lemma cancel_of_paused_forgotten:
  assumes "queue_step\<^sup>*\<^sup>* (queue_new n store) q" "row q i = Some g" "pg_state g = Paused" "oq_ctls q i = Some c" "fresh_id nid q"
  shows "case cancel_op i q of (res, qa) \<Rightarrow>
    res = Inr () \<and> row qa i = Some g \<and> all_jobs qa = all_jobs q \<and> oq_store qa = oq_store q
    \<and> (case resume_op True nid now i qa of (res', qb) \<Rightarrow>
         res' = Inr nid \<and> (\<exists>j\<in>set (oq_jobs qb). jb_op_id j = nid \<and> Some (jb_spec j) = map_option spec_of (oq_store q i))
         \<and> map_option gate_of (oq_ctls qb nid) = Some Go)"
proof -
  obtain p dir where p: "oq_store q i = Some p" "po_op_id p = i" "accepted (spec_of p) dir"
    using queue_okD(2) [OF reachable_queue_ok [OF assms(1)] assms(2)] assms(3) by (auto simp: row_ok_def)
  have op: "oq_open q" using reachable_queue_ok [OF assms(1)] by (simp add: queue_ok_def)
  define qa where "qa = q\<lparr>oq_ctls := (oq_ctls q)(i \<mapsto> c\<lparr>oc_canceled := True, oc_paused := False\<rparr>)\<rparr>"
  have c: "cancel_op i q = (Inr (), qa)" using assms(4) by (simp add: cancel_op_def on_ctl_def qa_def)
  have qa: "oq_open qa" "oq_store qa = oq_store q" "row qa = row q" "all_jobs qa = all_jobs q"
    using op by (simp_all add: qa_def row_def all_jobs_def fun_eq_iff)
  have "resume_op True nid now i qa = (Inr nid, (remove_pending i (admitted nid now (spec_of p) (checkpoint_of p) (Some i) dir qa))
      \<lparr>oq_latest := AList.delete i (AList.update nid (fresh_progress nid (os_kind (spec_of p)) dir (Some i) Queued) (oq_latest qa))\<rparr>)"
    using qa(1,2) p by (intro resume_accepted) simp_all
  then show ?thesis using c qa(2,3,4) p(1) assms(2) by (simp add: gate_of_def)
qed

text \<open>Resuming does not look whether the operation is paused: for one that is still under way it hands
  out a second job for the same request and takes the first one's record and row away, so two workers
  may write the same files and the first can no longer be resumed.\<close>

lemma resume_of_running_starts_second:
  assumes "queue_step\<^sup>*\<^sup>* (queue_new n store) q" "j \<in> set (oq_running q)" "fresh_id nid q"
  shows "case resume_op True nid now (jb_op_id j) q of (res, qa) \<Rightarrow>
    res = Inr nid \<and> j \<in> set (oq_running qa) \<and> (\<exists>k\<in>set (oq_jobs qa). jb_op_id k = nid \<and> jb_spec k = jb_spec j)
    \<and> oq_store qa (jb_op_id j) = None \<and> row qa (jb_op_id j) = None"
proof -
  have ok: "queue_ok q" by (rule reachable_queue_ok [OF assms(1)])
  have "j \<in> set (all_jobs q)" using assms(2) by (simp add: all_jobs_def)
  then obtain p where p: "oq_store q (jb_op_id j) = Some p" "po_op_id p = jb_op_id j" "spec_of p = jb_spec j"
    "accepted (spec_of p) (jb_direction j)" "nid \<noteq> jb_op_id j"
    using queue_okD(1) [OF ok, of j] assms(3) by (auto simp: job_ok_def fresh_id_def)
  have "oq_open q" using ok by (simp add: queue_ok_def)
  note r = resume_accepted [OF this p(1,2,4), of nid now]
  show ?thesis unfolding r prod.case using assms(2) p(3,5) by (simp add: row_def delete_conv' update_conv')
qed

section \<open>The panel's rows\<close>

text \<open>Pruning keeps what can still be acted on and the newest of the rest: of the rows in a final state
  all but the given number go, those with the smallest identifiers first; no other row goes.\<close>

lemma prune_keeps_newest:
  assumes "distinct (map fst (oq_latest q))"
  shows "case prune_finished keep q of (n, qa) \<Rightarrow>
    n = length (finished_ids q) - keep \<and> length (finished_ids qa) = min keep (length (finished_ids q))
    \<and> (\<forall>i g. row q i = Some g \<longrightarrow> \<not> terminal (pg_state g) \<longrightarrow> row qa i = Some g)
    \<and> (\<forall>i k. i \<in> set (finished_ids q) \<longrightarrow> row qa i = None \<longrightarrow> k \<in> set (finished_ids qa) \<longrightarrow> i < k)"
proof -
  let ?F = "finished_ids q" and ?qa = "snd (prune_finished keep q)"
  define d where "d = length ?F - keep"
  have row: "row ?qa k = (if k \<in> set (take d ?F) then None else row q k)" for k unfolding d_def by (rule row_prune)
  have dist: "distinct ?F" using assms by (simp add: finished_ids_def distinct_map_filter)
  have sorted: "sorted ?F" by (simp add: finished_ids_def)
  have dqa: "distinct (map fst (oq_latest ?qa))" unfolding prune_latest using assms by (simp add: distinct_fold_delete)
  have split: "set (take d ?F) \<inter> set (drop d ?F) = {}"
    using dist by (metis append_take_drop_id distinct_append)
  have fset: "set (finished_ids ?qa) = set (drop d ?F)"
  proof (intro set_eqI)
    fix k
    have "k \<in> set ?F \<longleftrightarrow> k \<in> set (take d ?F) \<or> k \<in> set (drop d ?F)" by (metis Un_iff append_take_drop_id set_append)
    then show "k \<in> set (finished_ids ?qa) \<longleftrightarrow> k \<in> set (drop d ?F)"
      unfolding finished_ids_set [OF dqa] row using split finished_ids_set [OF assms, of k] by (auto simp del: terminal.simps)
  qed
  have len: "length (finished_ids ?qa) = length (drop d ?F)"
  proof -
    have "distinct (finished_ids ?qa)" using dqa by (simp add: finished_ids_def distinct_map_filter)
    then show ?thesis using fset dist by (metis distinct_card distinct_drop)
  qed
  have n: "fst (prune_finished keep q) = d"
  proof (cases "length ?F \<le> keep")
    case False
    have "filter (\<lambda>i. row q i \<noteq> None) (take d ?F) = take d ?F"
      using finished_ids_set [OF assms] by (auto simp: filter_id_conv dest!: in_set_takeD)
    then show ?thesis
      using False unfolding prune_finished_def finished_ids_def [symmetric] Let_def d_def by simp
  next
    case True
    then show ?thesis unfolding prune_finished_def finished_ids_def [symmetric] Let_def d_def by simp
  qed
  have keepers: "row ?qa i = Some g" if "row q i = Some g" "\<not> terminal (pg_state g)" for i g
    using that finished_ids_set [OF assms, of i] row in_set_takeD [of i d ?F] by auto
  have order: "i < k" if "i \<in> set ?F" "row ?qa i = None" "k \<in> set (drop d ?F)" for i k
  proof -
    have "i \<in> set (take d ?F)" using that(1,2) finished_ids_set [OF assms, of i] row by (auto split: if_splits)
    then have "i \<le> k" using sorted that(3) by (metis append_take_drop_id sorted_append)
    moreover have "i \<noteq> k" using split that(3) \<open>i \<in> set (take d ?F)\<close> by auto
    ultimately show ?thesis by simp
  qed
  show ?thesis
    using n len keepers order unfolding fset [symmetric] by (simp add: split_beta d_def min_def)
qed

section \<open>The worker on concrete queues\<close>

definition plain_arms :: op_arms where
  "plain_arms = \<lparr>ar_recycle = None, ar_compress = (\<lambda>_ r. (FDone, r)), ar_extract = (\<lambda>_ r. (FDone, r)),
     ar_transfer = None, ar_remote_delete = (\<lambda>_ r. (FDone, r))\<rparr>"

theorem worker_drains_queue_witness:
  "all_jobs (fst (snd (worker_loop (plain_port (\<lambda>_ _ _. True)) plain_arms id (\<lambda>_. ([Go, GPause], 5, 5)) one_copy two_files))) = []"
  using worker_drains_queue [OF one_copy_reachable, of "plain_port (\<lambda>_ _ _. True)" plain_arms id "\<lambda>_. ([Go, GPause], 5, 5)" two_files]
  by (simp add: one_copy_admitted queue_new_def split_beta built_in_def plain_spec_def)

definition one_record :: "string \<Rightarrow> pending_op option" where
  "one_record = [''op1'' \<mapsto> pending_of (plain_spec Copy Skip [''s''] [''d'']) ''op1'' None 3 1 7]"

lemma plain_accepted: "accepted (plain_spec Copy Skip [''s''] [''d'']) DirLocal"
  by (simp add: accepted_def direction_of_def is_remote_def)

theorem restart_requeues_every_record_witness:
  "case resume_pending True 9 [''op2''] (read_pending [''op1''] one_record) (queue_new 2 one_record) of (k, q) \<Rightarrow>
    k = 1 \<and> map jb_op_id (oq_jobs q) = [''op2''] \<and> dom (oq_store q) = {''op2''}"
proof -
  have h: "po_op_id p = i \<and> (\<exists>dir. accepted (spec_of p) dir)" if "one_record i = Some p" for i p
    using that plain_accepted by (auto simp: one_record_def split: if_splits)
  have "set [''op1''] = dom one_record" by (simp add: one_record_def)
  note r = restart_requeues_every_record [OF _ this h, where nids = "[''op2'']" and now = 9 and n = 2]
  show ?thesis using r by (auto split: prod.splits)
qed

definition copy_running :: op_queue where
  "copy_running = the (start_job (hd (oq_jobs one_copy)) (the (take_job one_copy)))"

lemma one_copy_taken:
  "take_job one_copy = Some (one_copy\<lparr>oq_jobs := [], oq_held := oq_jobs one_copy\<rparr>)"
  "start_job (hd (oq_jobs one_copy)) (one_copy\<lparr>oq_jobs := [], oq_held := oq_jobs one_copy\<rparr>) = Some copy_running"
  by (simp_all add: copy_running_def take_job_def start_job_def one_copy_admitted queue_new_def)

lemma copy_running_reachable: "queue_step\<^sup>*\<^sup>* (queue_new 2 Map.empty) copy_running"
  using one_copy_reachable queue_step.taken [OF one_copy_taken(1)] queue_step.started [OF one_copy_taken(2)]
  by (meson rtranclp.rtrancl_into_rtrancl)

lemma copy_running_eq: "oq_running copy_running = oq_jobs one_copy" "oq_jobs copy_running = []" "oq_held copy_running = []"
  "oq_store copy_running = oq_store one_copy" "row copy_running i = (if i = ''op1'' then Some (fresh_progress ''op1'' Copy DirLocal None Running) else None)"
  "oq_ctls copy_running = oq_ctls one_copy"
  by (simp_all add: copy_running_def take_job_def start_job_def one_copy_admitted queue_new_def row_def update_conv')

lemma copy_running_fresh: "fresh_id ''op2'' copy_running"
  by (simp add: fresh_id_def all_jobs_def copy_running_eq one_copy_admitted queue_new_def)

lemma resume_of_running_starts_second_witness:
  "case resume_op True ''op2'' 9 (jb_op_id (hd (oq_running copy_running))) copy_running of (res, qa) \<Rightarrow>
    res = Inr ''op2'' \<and> hd (oq_running copy_running) \<in> set (oq_running qa)
    \<and> (\<exists>k\<in>set (oq_jobs qa). jb_op_id k = ''op2'' \<and> jb_spec k = jb_spec (hd (oq_running copy_running)))
    \<and> oq_store qa (jb_op_id (hd (oq_running copy_running))) = None \<and> row qa (jb_op_id (hd (oq_running copy_running))) = None"
  by (rule resume_of_running_starts_second [OF copy_running_reachable _ copy_running_fresh])
    (simp add: copy_running_eq one_copy_admitted queue_new_def)

definition copy_paused :: op_queue where
  "copy_paused = settle id (hd (oq_running copy_running)) FPaused (fresh_progress ''op1'' Copy DirLocal None Running) copy_running"

lemma copy_paused_reachable: "queue_step\<^sup>*\<^sup>* (queue_new 2 Map.empty) copy_paused"
  unfolding copy_paused_def
  by (rule rtranclp.rtrancl_into_rtrancl [OF copy_running_reachable], rule queue_step.settled)
    (simp_all add: copy_running_eq one_copy_admitted queue_new_def)

lemma copy_paused_eq: "oq_jobs copy_paused = []" "oq_held copy_paused = []" "oq_running copy_paused = []"
  "oq_store copy_paused = oq_store one_copy" "oq_ctls copy_paused = oq_ctls one_copy"
  "row copy_paused i = (if i = ''op1'' then Some ((fresh_progress ''op1'' Copy DirLocal None Running)\<lparr>pg_state := Paused\<rparr>) else None)"
proof -
  have "row (q\<lparr>oq_running := x\<rparr>) = row q" for q x by (simp add: row_def fun_eq_iff)
  then show "oq_jobs copy_paused = []" "oq_held copy_paused = []" "oq_running copy_paused = []"
    "oq_store copy_paused = oq_store one_copy" "oq_ctls copy_paused = oq_ctls one_copy"
    "row copy_paused i = (if i = ''op1'' then Some ((fresh_progress ''op1'' Copy DirLocal None Running)\<lparr>pg_state := Paused\<rparr>) else None)"
    by (simp_all add: copy_paused_def settle_def copy_running_eq one_copy_admitted queue_new_def)
qed

lemma cancel_of_paused_forgotten_witness:
  "case cancel_op ''op1'' copy_paused of (res, qa) \<Rightarrow>
    res = Inr () \<and> oq_store qa = oq_store copy_paused
    \<and> (case resume_op True ''op2'' 9 ''op1'' qa of (res', qb) \<Rightarrow> res' = Inr ''op2'' \<and> map_option gate_of (oq_ctls qb ''op2'') = Some Go)"
  using cancel_of_paused_forgotten [OF copy_paused_reachable, of "''op1''" _ _ "''op2''" 9]
  by (auto simp: copy_paused_eq fresh_id_def all_jobs_def one_copy_admitted queue_new_def split: prod.splits)

definition three_done :: op_queue where
  "three_done = (queue_new 2 Map.empty)\<lparr>oq_latest := [(''a'', fresh_progress ''a'' Copy DirLocal None Done),
     (''b'', fresh_progress ''b'' Copy DirLocal None Paused), (''c'', fresh_progress ''c'' Copy DirLocal None Failed)]\<rparr>"

lemma prune_keeps_newest_witness:
  "fst (prune_finished 1 three_done) = 1 \<and> length (finished_ids (snd (prune_finished 1 three_done))) = 1
    \<and> row (snd (prune_finished 1 three_done)) ''b'' = row three_done ''b''"
proof -
  have d: "distinct (map fst (oq_latest three_done))" by (simp add: three_done_def)
  have f: "length (finished_ids three_done) = 2" by (simp add: finished_ids_def three_done_def)
  have b: "row three_done ''b'' = Some (fresh_progress ''b'' Copy DirLocal None Paused)" by (simp add: row_def three_done_def)
  show ?thesis using prune_keeps_newest [OF d, of 1] f b by (simp add: split_beta)
qed

end
