(* ===== verification/File_Browse.thy ===== *)
theory File_Browse
  imports File_Disk "HOL-Library.List_Lexorder" "HOL-Library.Char_ord" "HOL-Library.Multiset"
begin

text \<open>
  Browsing (\<open>crates/file-core/src/browse.rs\<close>): long and displayed forms of a path, the check of relative
  paths that come from outside, and the listing of a directory with its order.  Paths are strings here;
  the Unicode lower case is an argument.
\<close>

section \<open>Long paths\<close>

definition verbatim_mark :: string where
  "verbatim_mark = [bslash, bslash, CHR ''?'', bslash]"

definition unc_mark :: string where
  "unc_mark = ''UNC'' @ [bslash]"

definition to_long_path :: "string \<Rightarrow> string" where
  "to_long_path s =
     (if starts_with s verbatim_mark \<or> length s < 248 then s
      else case strip_prefix_of s [bslash, bslash] of
        Some rest \<Rightarrow> verbatim_mark @ unc_mark @ rest
      | None \<Rightarrow> verbatim_mark @ s)"

definition display_path :: "string \<Rightarrow> string" where
  "display_path s =
     (case strip_prefix_of s (verbatim_mark @ unc_mark) of
        Some rest \<Rightarrow> [bslash, bslash] @ rest
      | None \<Rightarrow> (case strip_prefix_of s verbatim_mark of Some rest \<Rightarrow> rest | None \<Rightarrow> s))"

lemma strip_prefix_of_append [simp]: "strip_prefix_of (p @ s) p = Some s"
  by (simp add: strip_prefix_of_def)

lemma strip_prefix_of_None: "strip_prefix_of s p = None \<longleftrightarrow> \<not> starts_with s p"
  by (simp add: strip_prefix_of_def starts_with_def)

lemma strip_prefix_of_Some: "strip_prefix_of s p = Some r \<longleftrightarrow> s = p @ r"
  by (auto simp: strip_prefix_of_def prefix_def)

lemma display_verbatim: "\<not> starts_with s unc_mark \<Longrightarrow> display_path (verbatim_mark @ s) = s"
  using strip_prefix_of_append [of verbatim_mark s]
  by (auto simp: display_path_def strip_prefix_of_def starts_with_def split: option.splits)

text \<open>What is displayed for the long form of a path is the path.\<close>

lemma display_long_path:
  assumes "\<not> starts_with s verbatim_mark" "\<not> starts_with s unc_mark"
  shows "display_path (to_long_path s) = s"
proof (cases "length s < 248")
  case True
  have "\<not> prefix (verbatim_mark @ unc_mark) s" using assms(1) by (auto simp: starts_with_def prefix_def)
  then show ?thesis
    using True assms(1) by (simp add: to_long_path_def display_path_def strip_prefix_of_def starts_with_def)
next
  case False
  show ?thesis
  proof (cases "strip_prefix_of s [bslash, bslash]")
    case None
    then show ?thesis using False assms by (simp add: to_long_path_def display_verbatim)
  next
    case (Some rest)
    have "display_path ((verbatim_mark @ unc_mark) @ rest) = [bslash, bslash] @ rest"
      unfolding display_path_def strip_prefix_of_append by simp
    moreover have "s = [bslash, bslash] @ rest" using Some by (simp only: strip_prefix_of_Some)
    moreover have "to_long_path s = verbatim_mark @ unc_mark @ rest" using Some False assms(1) by (simp add: to_long_path_def)
    ultimately show ?thesis by simp
  qed
qed

text \<open>
  The long form is verbatim, and a verbatim path knows no slash: a long path written with slashes
  becomes the path of another file.
\<close>

lemma long_path_keeps_slashes:
  "path_components (''C:/d/'' @ replicate 250 (CHR ''x'')) = [''d'', replicate 250 (CHR ''x'')]
   \<and> path_components (to_long_path (''C:/d/'' @ replicate 250 (CHR ''x''))) = [''/d/'' @ replicate 250 (CHR ''x'')]"
  by code_simp

section \<open>Relative paths from outside\<close>

fun rel_segments :: "string list \<Rightarrow> string list option" where
  "rel_segments [] = Some []"
| "rel_segments (s # ss) =
     (if s = [] \<or> s = ''.'' \<or> s = ''..'' \<or> CHR '':'' \<in> set s then None else map_option ((#) s) (rel_segments ss))"

definition safe_rel_path :: "string \<Rightarrow> string list option" where
  "safe_rel_path name =
     (if CHR 0x00 \<in> set name then None
      else case rel_segments (split_on (\<lambda>c. c = CHR ''/'' \<or> c = bslash) name) of
        None \<Rightarrow> None
      | Some ss \<Rightarrow> if ss = [] then None else Some ss)"

lemma rel_segments_Some:
  "rel_segments ss = Some rs \<longleftrightarrow> rs = ss \<and> (\<forall>s\<in>set ss. s \<noteq> [] \<and> s \<noteq> ''.'' \<and> s \<noteq> ''..'' \<and> CHR '':'' \<notin> set s)"
  by (induction ss arbitrary: rs) auto

lemma no_colon_no_drive: "CHR '':'' \<notin> set s \<Longrightarrow> \<not> has_drive s"
  by (cases s rule: has_drive.cases) auto

text \<open>Every segment of an accepted path is a plain name, so joining them stays below the root.\<close>

lemma safe_rel_plain:
  assumes "safe_rel_path name = Some ss"
  shows "ss \<noteq> [] \<and> list_all plain_name ss"
proof -
  let ?p = "\<lambda>c. c = CHR ''/'' \<or> c = bslash"
  have ss: "ss = split_on ?p name" "\<forall>s\<in>set ss. s \<noteq> [] \<and> s \<noteq> ''.'' \<and> s \<noteq> ''..'' \<and> CHR '':'' \<notin> set s"
    using assms by (auto simp: safe_rel_path_def rel_segments_Some split: if_splits option.splits)
  have "bslash \<notin> set s \<and> CHR ''/'' \<notin> set s" if "s \<in> set ss" for s
    using split_on_pieces [of s ?p name] that ss(1) by blast
  then show ?thesis using ss(2) no_colon_no_drive unfolding ss(1) by (simp add: list_all_iff plain_name_def)
qed

lemma safe_rel_joined:
  assumes "safe_rel_path name = Some ss"
  shows "fold (\<lambda>s root. path_join root s) ss root = root @ concat (map (\<lambda>s. bslash # s) ss)"
proof -
  have "list_all plain_name ss" using safe_rel_plain [OF assms] by simp
  then show ?thesis by (induction ss arbitrary: root) (simp_all add: path_join_plain)
qed

section \<open>Listing a directory\<close>

datatype sort_key_of = ByName | BySize | ByModified | ByType

record file_entry =
  fe_name :: string
  fe_path :: string
  fe_is_dir :: bool
  fe_size :: nat
  fe_modified_ms :: int
  fe_ext :: string
  fe_hidden :: bool
  fe_mode :: "nat option"
  fe_symlink_target :: "string option"

record metadata =
  md_is_dir :: bool
  md_len :: nat
  md_modified :: "int option"
  md_attributes :: "32 word"
  md_link :: "string option"

definition entry_from_metadata :: "(string \<Rightarrow> string) \<Rightarrow> string \<Rightarrow> metadata \<Rightarrow> file_entry" where
  "entry_from_metadata lower p md =
     (let name = unwrap_or p (path_file_name p);
          ext = (case path_file_name p of None \<Rightarrow> [] | Some n \<Rightarrow> (case snd (stem_and_ext n) of None \<Rightarrow> [] | Some e \<Rightarrow> lower e))
      in \<lparr>fe_name = name, fe_path = display_path p, fe_is_dir = md_is_dir md,
          fe_size = (if md_is_dir md then 0 else md_len md), fe_modified_ms = unwrap_or 0 (md_modified md),
          fe_ext = (if md_is_dir md then [] else ext), fe_hidden = (and (md_attributes md) 2 \<noteq> 0), fe_mode = None,
          fe_symlink_target = map_option display_path (md_link md)\<rparr>)"

definition dir_rank :: "file_entry \<Rightarrow> nat" where
  "dir_rank e = (if fe_is_dir e then 0 else 1)"

definition directed :: "bool \<Rightarrow> ('a :: linorder) \<Rightarrow> 'a \<Rightarrow> bool" where
  "directed asc a b = (if asc then a \<le> b else b \<le> a)"

definition entry_le :: "(string \<Rightarrow> string) \<Rightarrow> sort_key_of \<Rightarrow> bool \<Rightarrow> file_entry \<Rightarrow> file_entry \<Rightarrow> bool" where
  "entry_le lower k asc a b =
     (dir_rank a < dir_rank b \<or> dir_rank a = dir_rank b \<and>
       (case k of
          BySize \<Rightarrow> directed asc (fe_size a) (fe_size b)
        | ByModified \<Rightarrow> directed asc (fe_modified_ms a) (fe_modified_ms b)
        | _ \<Rightarrow> directed asc (lower (fe_name a)) (lower (fe_name b))))"

fun insert_by :: "('a \<Rightarrow> 'a \<Rightarrow> bool) \<Rightarrow> 'a \<Rightarrow> 'a list \<Rightarrow> 'a list" where
  "insert_by le x [] = [x]"
| "insert_by le x (y # ys) = (if le x y then x # y # ys else y # insert_by le x ys)"

text \<open>The stable sort of the standard library.\<close>

definition stable_sort :: "('a \<Rightarrow> 'a \<Rightarrow> bool) \<Rightarrow> 'a list \<Rightarrow> 'a list" where
  "stable_sort le xs = foldr (insert_by le) xs []"

definition sort_entries :: "(string \<Rightarrow> string) \<Rightarrow> sort_key_of \<Rightarrow> bool \<Rightarrow> file_entry list \<Rightarrow> file_entry list" where
  "sort_entries lower k asc = stable_sort (entry_le lower k asc)"

text \<open>
  \<open>rd\<close> is the answer to \<open>read_dir\<close>: for every entry its path and metadata, or that they could not be
  read, in which case the entry is passed over.
\<close>

definition list_dir ::
    "(string \<Rightarrow> string) \<Rightarrow> (string \<Rightarrow> bool) \<Rightarrow> (string \<Rightarrow> string + (string \<times> metadata) option list) \<Rightarrow>
     string \<Rightarrow> sort_key_of \<Rightarrow> bool \<Rightarrow> string + file_entry list" where
  "list_dir lower there rd p k asc =
     (let io = to_long_path p in
      if \<not> there io then Inl (''not found: '' @ display_path p)
      else res_bind (rd io) (\<lambda>items.
        Inr (sort_entries lower k asc (map (\<lambda>(q, md). entry_from_metadata lower q md) (List.map_filter id items)))))"

lemma mset_stable_sort [simp]: "mset (stable_sort le xs) = mset xs"
proof -
  have "mset (insert_by le x ys) = add_mset x (mset ys)" for x ys by (induction ys) auto
  then show ?thesis by (induction xs) (simp_all add: stable_sort_def)
qed

lemma set_insert_by [simp]: "set (insert_by le x ys) = insert x (set ys)"
  by (induction ys) auto

lemma insert_by_sorted:
  assumes total: "\<And>a b. le a b \<or> le b a" and trans: "\<And>a b c. le a b \<Longrightarrow> le b c \<Longrightarrow> le a c"
  shows "sorted_wrt le ys \<Longrightarrow> sorted_wrt le (insert_by le x ys)"
proof (induction ys)
  case (Cons y ys)
  then show ?case using total [of x y] by (auto intro: trans)
qed simp

lemma stable_sort_sorted:
  assumes "\<And>a b. le a b \<or> le b a" and "\<And>a b c. le a b \<Longrightarrow> le b c \<Longrightarrow> le a c"
  shows "sorted_wrt le (stable_sort le xs)"
  by (induction xs) (simp_all add: stable_sort_def insert_by_sorted [OF assms])

text \<open>Elements that are equal in the order keep the order they came in.\<close>

lemma stable_sort_stable:
  assumes same: "\<And>a b. P a \<Longrightarrow> P b \<Longrightarrow> le a b"
  shows "filter P (stable_sort le xs) = filter P xs"
proof -
  have "filter P (insert_by le x ys) = (if P x then x # filter P ys else filter P ys)" for x ys
    by (induction ys) (auto simp: same)
  then show ?thesis by (induction xs) (simp_all add: stable_sort_def)
qed

lemma directed_laws:
  "directed asc a b \<or> directed asc b a" "directed asc a b \<Longrightarrow> directed asc b c \<Longrightarrow> directed asc a c"
  by (auto simp: directed_def)

lemma entry_le_total: "entry_le lower k asc a b \<or> entry_le lower k asc b a"
  by (cases k) (auto simp: entry_le_def directed_def)

lemma entry_le_trans: "entry_le lower k asc a b \<Longrightarrow> entry_le lower k asc b c \<Longrightarrow> entry_le lower k asc a c"
  by (cases k) (auto simp: entry_le_def dest: directed_laws(2))

text \<open>A listing is a permutation of what was read, directories first, in the order asked for.\<close>

lemma list_dir_ok:
  assumes "list_dir lower there rd p k asc = Inr es"
  obtains items where "rd (to_long_path p) = Inr items"
    "mset es = mset (map (\<lambda>(q, md). entry_from_metadata lower q md) (List.map_filter id items))"
    "sorted_wrt (entry_le lower k asc) es"
proof -
  obtain items where i: "rd (to_long_path p) = Inr items"
    "es = sort_entries lower k asc (map (\<lambda>(q, md). entry_from_metadata lower q md) (List.map_filter id items))"
    using assms by (auto simp: list_dir_def Let_def res_bind_eq_Inr split: if_splits)
  show ?thesis
  proof (rule that [OF i(1)])
    show "sorted_wrt (entry_le lower k asc) es"
      unfolding i(2) sort_entries_def by (rule stable_sort_sorted) (rule entry_le_total, erule (1) entry_le_trans)
  qed (simp add: i(2) sort_entries_def)
qed

lemma listing_dirs_first: "sorted_wrt (entry_le lower k asc) es \<Longrightarrow> sorted (map dir_rank es)"
  by (auto simp: sorted_wrt_map entry_le_def elim!: sorted_wrt_mono_rel [rotated])

lemma sort_entries_stable:
  "filter (\<lambda>x. entry_le lower k asc x e \<and> entry_le lower k asc e x) (sort_entries lower k asc es)
    = filter (\<lambda>x. entry_le lower k asc x e \<and> entry_le lower k asc e x) es"
  unfolding sort_entries_def by (rule stable_sort_stable) (blast intro: entry_le_trans)

end
