(* ===== verification/File_Names.thy ===== *)
theory File_Names
  imports File_Queue
begin

text \<open>
  Names for remote storage (\<open>crates/file-core/src/namefix.rs\<close>), the gate of
  \<open>crates/file-core/src/service.rs\<close> that decides them before an operation enters the queue, and the
  rewriting of names by the executor (\<open>apply_name_override\<close> of \<open>ops.rs\<close>).  The tables come from two
  data files whose JSON decoding is an argument; the reasons attached to characters are shortened to
  their gist.
\<close>

section \<open>Tables\<close>

record name_issue =
  ni_char :: string
  ni_reason :: string

record name_fix_item =
  nx_name :: string
  nx_bad :: "name_issue list"
  nx_suggested :: "string option"

record name_fix_tables =
  nt_ftp_banned :: "name_issue list"
  nt_char_map :: "(string \<times> string) list"

definition single_char :: "string \<Rightarrow> string option" where
  "single_char s = (case chars_of s of [c] \<Rightarrow> Some c | _ \<Rightarrow> None)"

definition nul :: char where "nul = CHR 0x00"
definition cr :: char where "cr = CHR 0x0D"
definition lf :: char where "lf = CHR 0x0A"
definition dquote :: char where "dquote = CHR 0x22"
definition backquote :: char where "backquote = CHR 0x60"

text \<open>The full width forms, at U+FF00 + (code - 0x20).\<close>

definition full_width :: "nat \<Rightarrow> string" where
  "full_width k = (if k < 0x60 then [CHR 0xEF, CHR 0xBC, char_of (0x60 + k)] else [CHR 0xEF, CHR 0xBD, char_of (0x20 + k)])"

definition embedded :: name_fix_tables where
  "embedded =
     \<lparr>nt_ftp_banned = [],
      nt_char_map = map (\<lambda>c. ([c], full_width (of_char c)))
        [CHR ''?'', CHR ''*'', CHR '':'', CHR ''<'', CHR ''>'', dquote, CHR ''|'', bslash, CHR ''/'']\<rparr>"

definition map_char :: "name_fix_tables \<Rightarrow> string \<Rightarrow> string option" where
  "map_char t c = map_of (nt_char_map t) c"

text \<open>The data files: absent, unreadable, or their bytes.\<close>

datatype read_answer = Absent | Unreadable string | Content bytes

definition read_segment :: "string \<Rightarrow> read_answer \<Rightarrow> (bytes \<Rightarrow> string + 'a) \<Rightarrow> string + 'a option" where
  "read_segment name answer parse =
     (case answer of
        Absent \<Rightarrow> Inr None
      | Unreadable e \<Rightarrow> Inl (name @ '' unreadable: '' @ e)
      | Content raw \<Rightarrow> (case parse raw of Inl why \<Rightarrow> Inl (name @ '' rejected: '' @ why) | Inr x \<Rightarrow> Inr (Some x)))"

fun ban_entries :: "(string \<times> string) list \<Rightarrow> string + name_issue list" where
  "ban_entries [] = Inr []"
| "ban_entries ((c, reason) # es) =
     (if single_char c = None then Inl ''char''
      else res_bind (ban_entries es) (\<lambda>is. Inr (\<lparr>ni_char = c, ni_reason = reason\<rparr> # is)))"

fun map_entries :: "(string \<times> string) list \<Rightarrow> (string \<times> string) list \<Rightarrow> string + (string \<times> string) list" where
  "map_entries [] m = Inr m"
| "map_entries ((from_c, to_c) # es) m =
     (case (single_char from_c, single_char to_c) of
        (Some f, Some t) \<Rightarrow> map_entries es (AList.update f t m)
      | _ \<Rightarrow> Inl ''from/to'')"

definition load_tables ::
    "(bytes \<Rightarrow> string + (string \<times> string) list) \<Rightarrow> read_answer \<Rightarrow> read_answer \<Rightarrow> string + name_fix_tables" where
  "load_tables json bans_file map_file =
     res_bind (read_segment ''ftp_banned.json'' bans_file (\<lambda>raw. res_bind (json raw) ban_entries)) (\<lambda>bans.
     res_bind (read_segment ''char_map.json'' map_file (\<lambda>raw. res_bind (json raw) (\<lambda>es. map_entries es []))) (\<lambda>cm.
     Inr \<lparr>nt_ftp_banned = unwrap_or (nt_ftp_banned embedded) bans, nt_char_map = unwrap_or (nt_char_map embedded) cm\<rparr>))"

section \<open>What a protocol forbids\<close>

datatype remote_protocol = WebDav | Https | Sftp | Ftp

definition issue :: "string \<Rightarrow> char \<Rightarrow> name_issue" where
  "issue reason c = \<lparr>ni_char = [c], ni_reason = reason\<rparr>"

definition uri_segment_bans :: "name_issue list" where
  "uri_segment_bans =
     [issue ''separates segments'' (CHR ''/''), issue ''begins the query'' (CHR ''?''), issue ''begins the fragment'' (CHR ''#''),
      issue ''reserved'' (CHR ''[''), issue ''reserved'' (CHR '']'')]
     @ map (issue ''excluded'') [CHR ''<'', CHR ''>'', dquote, CHR ''{'', CHR ''}'', CHR ''|'', bslash, CHR ''^'', backquote]
     @ [issue ''ends the request line'' cr, issue ''ends the request line'' lf, issue ''in no path'' nul]"

fun forbidden :: "name_fix_tables \<Rightarrow> remote_protocol \<Rightarrow> name_issue list" where
  "forbidden t Sftp = [issue ''separates the path'' (CHR ''/''), issue ''ends the path'' nul]"
| "forbidden t WebDav = uri_segment_bans"
| "forbidden t Https = uri_segment_bans @ [issue ''in no path'' nul]"
| "forbidden t Ftp = [issue ''ends the command'' cr, issue ''ends the command'' lf, issue ''ends the command'' nul] @ nt_ftp_banned t"

definition hit :: "name_issue list \<Rightarrow> string \<Rightarrow> name_issue option" where
  "hit banned c = find (\<lambda>b. starts_with (ni_char b) c) banned"

fun probe_chars :: "name_issue list \<Rightarrow> string list \<Rightarrow> name_issue list \<Rightarrow> name_issue list" where
  "probe_chars banned [] out = out"
| "probe_chars banned (c # cs) out =
     probe_chars banned cs
       (case hit banned c of
          None \<Rightarrow> out
        | Some b \<Rightarrow> if list_ex (\<lambda>i. ni_char i = ni_char b) out then out else out @ [b])"

definition probe_remote_name :: "string \<Rightarrow> remote_protocol \<Rightarrow> name_fix_tables \<Rightarrow> name_issue list" where
  "probe_remote_name name proto t = probe_chars (forbidden t proto) (chars_of name) []"

fun mapped_chars :: "name_issue list \<Rightarrow> name_fix_tables \<Rightarrow> string list \<Rightarrow> string option" where
  "mapped_chars is t [] = Some []"
| "mapped_chars is t (c # cs) =
     (if list_ex (\<lambda>i. starts_with (ni_char i) c) is then
        (case map_char t c of None \<Rightarrow> None | Some m \<Rightarrow> map_option ((@) m) (mapped_chars is t cs))
      else map_option ((@) c) (mapped_chars is t cs))"

definition suggest_rename :: "string \<Rightarrow> remote_protocol \<Rightarrow> name_fix_tables \<Rightarrow> string option" where
  "suggest_rename name proto t =
     (let issues = probe_remote_name name proto t in
      if issues = [] then None
      else case mapped_chars issues t (chars_of name) of
        None \<Rightarrow> None
      | Some mapped \<Rightarrow> if probe_remote_name mapped proto t = [] then Some mapped else None)"

section \<open>Probing and suggesting\<close>

definition banned_in :: "name_fix_tables \<Rightarrow> remote_protocol \<Rightarrow> string \<Rightarrow> bool" where
  "banned_in t proto c \<longleftrightarrow> c \<in> ni_char ` set (forbidden t proto)"

text \<open>Tables as the loader and the built-in ones give them: every entry is one character.\<close>

definition tables_ok :: "name_fix_tables \<Rightarrow> bool" where
  "tables_ok t \<longleftrightarrow> (\<forall>b\<in>set (nt_ftp_banned t). one_char (ni_char b))
     \<and> (\<forall>(c, m)\<in>set (nt_char_map t). one_char m)"

lemma one_ascii: "of_char c \<le> (0x7F :: nat) \<Longrightarrow> one_char [c]"
  by (simp add: utf8_len_def)

lemma uri_bans_one: "list_all (\<lambda>b. one_char (ni_char b)) uri_segment_bans"
  by code_simp

lemma forbidden_one: "tables_ok t \<Longrightarrow> b \<in> set (forbidden t proto) \<Longrightarrow> one_char (ni_char b)"
proof (cases proto)
  case Ftp
  assume "tables_ok t" "b \<in> set (forbidden t proto)"
  then show ?thesis using Ftp by (auto simp: tables_ok_def issue_def cr_def lf_def nul_def utf8_len_def)
qed (use uri_bans_one in \<open>auto simp: issue_def nul_def utf8_len_def list_all_iff\<close>)

lemma hit_iff:
  assumes "tables_ok t" "one_char c"
  shows "hit (forbidden t proto) c = None \<longleftrightarrow> \<not> banned_in t proto c"
    and "hit (forbidden t proto) c = Some b \<Longrightarrow> ni_char b = c"
proof -
  have pre: "starts_with (ni_char b) c \<longleftrightarrow> ni_char b = c" if "b \<in> set (forbidden t proto)" for b
    using one_char_prefix [OF assms(2) forbidden_one [OF assms(1) that]] by (auto simp: starts_with_def)
  show "hit (forbidden t proto) c = None \<longleftrightarrow> \<not> banned_in t proto c"
    unfolding hit_def find_None_iff banned_in_def using pre by auto
  show "ni_char b = c" if "hit (forbidden t proto) c = Some b"
    using that pre by (auto simp: hit_def find_Some_iff)
qed

lemma probe_chars_set:
  assumes "tables_ok t" "list_all one_char cs"
  shows "ni_char ` set (probe_chars (forbidden t proto) cs out) = ni_char ` set out \<union> {c \<in> set cs. banned_in t proto c}"
  using assms(2)
proof (induction cs arbitrary: out)
  case (Cons c cs)
  have c: "one_char c" using Cons.prems by simp
  have rest: "list_all one_char cs" using Cons.prems by simp
  show ?case
  proof (cases "hit (forbidden t proto) c")
    case None
    then have "\<not> banned_in t proto c" using hit_iff(1) [OF assms(1) c] by blast
    then show ?thesis using Cons.IH [OF rest] None by auto
  next
    case (Some b)
    then have b: "ni_char b = c" "banned_in t proto c"
      using hit_iff [OF assms(1) c, where proto = proto] by (metis, metis option.distinct(1))
    let ?o = "if list_ex (\<lambda>i. ni_char i = ni_char b) out then out else out @ [b]"
    have o: "ni_char ` set ?o = ni_char ` set out \<union> {c}"
    proof (cases "c \<in> ni_char ` set out")
      case True
      then show ?thesis using b(1) by (auto simp: list_ex_iff insert_absorb)
    next
      case False
      then have "\<not> list_ex (\<lambda>i. ni_char i = ni_char b) out" using b(1) unfolding list_ex_iff by (metis imageI)
      then show ?thesis using b(1) by simp
    qed
    have "probe_chars (forbidden t proto) (c # cs) out = probe_chars (forbidden t proto) cs ?o" by (simp add: Some)
    moreover have "{d \<in> set (c # cs). banned_in t proto d} = insert c {d \<in> set cs. banned_in t proto d}" using b(2) by auto
    ultimately show ?thesis unfolding Cons.IH [OF rest] o by (simp only: Cons.IH [OF rest] o) simp
  qed
qed simp

lemma probe_chars_distinct: "distinct (map ni_char out) \<Longrightarrow> distinct (map ni_char (probe_chars banned cs out))"
proof (induction cs arbitrary: out)
  case (Cons c cs)
  have "distinct (map ni_char (out @ [b]))" if "\<not> list_ex (\<lambda>i. ni_char i = ni_char b) out" for b
    using that Cons.prems by (auto simp: list_ex_iff)
  then show ?case using Cons by (auto split: option.splits simp del: map_append)
qed simp

lemma probe_set:
  assumes "tables_ok t" "whole_chars name"
  shows "ni_char ` set (probe_remote_name name proto t) = {c \<in> set (chars_of name). banned_in t proto c}"
  using probe_chars_set [OF assms(1), of "chars_of name" proto "[]"] assms(2)
  by (simp add: probe_remote_name_def whole_chars_def)

lemma probe_clean:
  assumes "tables_ok t" "whole_chars name"
  shows "probe_remote_name name proto t = [] \<longleftrightarrow> (\<forall>c\<in>set (chars_of name). \<not> banned_in t proto c)"
  using probe_set [OF assms, of proto] by (metis (mono_tags, lifting) Collect_empty_eq image_is_empty set_empty)

definition repaired :: "name_fix_tables \<Rightarrow> remote_protocol \<Rightarrow> string \<Rightarrow> string" where
  "repaired t proto c = (if banned_in t proto c then unwrap_or c (map_char t c) else c)"

lemma mapped_chars_iff:
  assumes "\<And>c. c \<in> set cs \<Longrightarrow> list_ex (\<lambda>i. starts_with (ni_char i) c) is \<longleftrightarrow> banned_in t proto c"
  shows "mapped_chars is t cs =
    (if \<exists>c\<in>set cs. banned_in t proto c \<and> map_char t c = None then None else Some (concat (map (repaired t proto) cs)))"
  using assms by (induction cs) (auto simp: repaired_def split: option.splits)

lemma repaired_one: "tables_ok t \<Longrightarrow> one_char c \<Longrightarrow> one_char (repaired t proto c)"
  by (auto simp: repaired_def tables_ok_def map_char_def dest: map_of_SomeD split: option.splits)
    (metis (no_types, lifting) case_prodD map_of_SomeD not_None_eq unwrap_or_simps)

lemma chars_of_repaired:
  assumes "tables_ok t" "whole_chars name"
  shows "chars_of (concat (map (repaired t proto) (chars_of name))) = map (repaired t proto) (chars_of name)"
  using assms(2) by (intro chars_of_concat) (auto simp: whole_chars_def list_all_iff intro: repaired_one [OF assms(1)])

text \<open>
  The suggestion is the name with every forbidden character replaced, and there is one exactly when
  each of them can be replaced by a character that is allowed.
\<close>

lemma suggest_exact:
  assumes t: "tables_ok t" and name: "whole_chars name"
  shows "suggest_rename name proto t =
    (let bad = {c \<in> set (chars_of name). banned_in t proto c} in
     if bad \<noteq> {} \<and> (\<forall>c\<in>bad. \<exists>m. map_char t c = Some m \<and> \<not> banned_in t proto m)
     then Some (concat (map (repaired t proto) (chars_of name))) else None)"
proof -
  let ?cs = "chars_of name" and ?is = "probe_remote_name name proto t"
  let ?new = "concat (map (repaired t proto) ?cs)"
  have one: "one_char c" if "c \<in> set ?cs" for c using name that by (simp add: whole_chars_def list_all_iff)
  have flag: "list_ex (\<lambda>i. starts_with (ni_char i) c) ?is \<longleftrightarrow> banned_in t proto c" if c: "c \<in> set ?cs" for c
  proof -
    have "starts_with (ni_char i) c \<longleftrightarrow> ni_char i = c" if "i \<in> set ?is" for i
    proof -
      have "ni_char i \<in> set ?cs" using probe_set [OF t name, of proto] that by blast
      then show ?thesis using one_char_prefix [OF one [OF c] one] by (auto simp: starts_with_def)
    qed
    then have "list_ex (\<lambda>i. starts_with (ni_char i) c) ?is \<longleftrightarrow> c \<in> ni_char ` set ?is"
      unfolding list_ex_iff by (simp add: image_iff) blast
    then show ?thesis unfolding probe_set [OF t name] using c by simp
  qed
  have m: "mapped_chars ?is t ?cs =
      (if \<exists>c\<in>set ?cs. banned_in t proto c \<and> map_char t c = None then None else Some ?new)"
    by (rule mapped_chars_iff) (rule flag)
  have new: "whole_chars ?new"
    unfolding whole_chars_def chars_of_repaired [OF t name] by (simp add: list_all_iff one repaired_one [OF t])
  have clean: "probe_remote_name ?new proto t = [] \<longleftrightarrow> (\<forall>c\<in>set ?cs. \<not> banned_in t proto (repaired t proto c))"
    using probe_clean [OF t new, of proto] by (simp add: chars_of_repaired [OF t name])
  show ?thesis
  proof (cases "\<exists>c\<in>set ?cs. banned_in t proto c \<and> map_char t c = None")
    case True
    then have "suggest_rename name proto t = None" by (auto simp: suggest_rename_def m Let_def)
    then show ?thesis using True by auto
  next
    case False
    then have "(\<forall>c\<in>set ?cs. \<not> banned_in t proto (repaired t proto c)) \<longleftrightarrow>
        (\<forall>c\<in>set ?cs. banned_in t proto c \<longrightarrow> (\<exists>m. map_char t c = Some m \<and> \<not> banned_in t proto m))"
      by (fastforce simp: repaired_def)
    moreover have "mapped_chars ?is t ?cs = Some ?new" using False m by simp
    ultimately show ?thesis unfolding suggest_rename_def Let_def by (auto simp: clean probe_clean [OF t name])
  qed
qed

text \<open>The built-in tables hold single characters.\<close>

lemma embedded_ok: "tables_ok embedded"
proof -
  have "list_all (\<lambda>(c, m). one_char m) (nt_char_map embedded)" by code_simp
  then show ?thesis by (simp add: tables_ok_def list_all_iff) (simp add: embedded_def)
qed

text \<open>
  What the loader accepts are single characters; a file that is there and broken stops the loading
  instead of leaving the built-in table in its place.
\<close>

lemma single_char_one: "whole_chars s \<Longrightarrow> single_char s = Some c \<Longrightarrow> one_char c \<and> c = s"
proof -
  assume s: "whole_chars s" "single_char s = Some c"
  then have cs: "chars_of s = [c]" by (auto simp: single_char_def split: list.splits)
  have "concat (chars_of s) = s" by (rule concat_chars_of)
  then show ?thesis using s(1) cs by (simp add: whole_chars_def del: concat_chars_of)
qed

lemma ban_entries_one:
  "ban_entries es = Inr is \<Longrightarrow> \<forall>(c, r)\<in>set es. whole_chars c \<Longrightarrow> \<forall>b\<in>set is. one_char (ni_char b)"
proof (induction es arbitrary: "is" rule: ban_entries.induct)
  case (2 c reason es)
  then obtain js where "ban_entries es = Inr js" "is = \<lparr>ni_char = c, ni_reason = reason\<rparr> # js" "single_char c \<noteq> None"
    by (auto simp: res_bind_eq_Inr split: if_splits)
  then show ?case using 2 single_char_one [of c] by auto
qed simp

lemma map_entries_one:
  "map_entries es m = Inr m' \<Longrightarrow> \<forall>(a, b)\<in>set es. whole_chars b \<Longrightarrow> \<forall>(a, b)\<in>set m. one_char b \<Longrightarrow> \<forall>(a, b)\<in>set m'. one_char b"
proof (induction es m arbitrary: m' rule: map_entries.induct)
  case (2 a b es m)
  from 2(2) obtain f g where fg: "single_char a = Some f" "single_char b = Some g" by (auto split: option.splits)
  have "set (AList.update f g m) \<subseteq> insert (f, g) (set m)"
    by (induction m) (auto split: if_splits)
  moreover have "one_char g" using single_char_one [OF _ fg(2)] 2(3) by auto
  ultimately have m: "\<forall>(a, b)\<in>set (AList.update f g m). one_char b" using 2(4) by blast
  have "map_entries es (AList.update f g m) = Inr m'" using 2(2) fg by simp
  from 2(1) [OF refl fg this _ m] show ?case using 2(3) by simp
qed simp

lemma load_tables_ok:
  assumes json: "\<And>raw es. json raw = Inr es \<Longrightarrow> \<forall>(a, b)\<in>set es. whole_chars a \<and> whole_chars b"
    and "load_tables json bans_file map_file = Inr t"
  shows "tables_ok t"
proof -
  obtain bans cm where r: "read_segment ''ftp_banned.json'' bans_file (\<lambda>raw. res_bind (json raw) ban_entries) = Inr bans"
    "read_segment ''char_map.json'' map_file (\<lambda>raw. res_bind (json raw) (\<lambda>es. map_entries es [])) = Inr cm"
    "t = \<lparr>nt_ftp_banned = unwrap_or (nt_ftp_banned embedded) bans, nt_char_map = unwrap_or (nt_char_map embedded) cm\<rparr>"
    using assms(2) unfolding load_tables_def by (auto simp: res_bind_eq_Inr)
  have e: "\<forall>b\<in>set (nt_ftp_banned embedded). one_char (ni_char b)" "\<forall>(c, m)\<in>set (nt_char_map embedded). one_char m"
    using embedded_ok by (simp_all add: tables_ok_def)
  have "\<forall>b\<in>set (unwrap_or (nt_ftp_banned embedded) bans). one_char (ni_char b)"
  proof (cases bans)
    case (Some x)
    then obtain raw es where "json raw = Inr es" "ban_entries es = Inr x"
      using r(1) by (auto simp: read_segment_def res_bind_eq_Inr split: read_answer.splits sum.splits)
    then show ?thesis using Some json ban_entries_one [of es x] by fastforce
  qed (use e in simp)
  moreover have "\<forall>(c, m)\<in>set (unwrap_or (nt_char_map embedded) cm). one_char m"
  proof (cases cm)
    case (Some x)
    then obtain raw es where "json raw = Inr es" "map_entries es [] = Inr x"
      using r(2) by (auto simp: read_segment_def res_bind_eq_Inr split: read_answer.splits sum.splits)
    then show ?thesis using Some json map_entries_one [of es "[]" x] by fastforce
  qed (use e in simp)
  ultimately show ?thesis using r(3) by (simp add: tables_ok_def)
qed

lemma broken_table_refused:
  "load_tables json (Unreadable e) m = Inl (''ftp_banned.json'' @ '' unreadable: '' @ e)"
  "json raw = Inl why \<Longrightarrow> load_tables json Absent (Content raw) = Inl (''char_map.json'' @ '' rejected: '' @ why)"
  by (simp_all add: load_tables_def read_segment_def)

section \<open>The gate before the queue\<close>

record file_config =
  fc_default_conflict_policy :: conflict_policy
  fc_delete_to_recycle :: bool
  fc_insecure_plaintext :: bool
  fc_download_kbps :: nat
  fc_upload_kbps :: nat
  fc_max_concurrent :: nat
  fc_remote_name_fix :: fix_policy

definition apply_config_to_spec :: "file_config \<Rightarrow> op_spec \<Rightarrow> op_spec" where
  "apply_config_to_spec cfg spec =
     (let s1 = (if os_kind spec = Delete \<and> \<not> fc_delete_to_recycle cfg then spec\<lparr>os_recycle := False\<rparr> else spec)
      in if os_policy s1 = Ask \<and> fc_default_conflict_policy cfg \<noteq> Ask
         then s1\<lparr>os_policy := fc_default_conflict_policy cfg\<rparr> else s1)"

definition protocol_for_driver :: "(string \<Rightarrow> remote_protocol option) \<Rightarrow> string \<Rightarrow> remote_protocol option" where
  "protocol_for_driver profiles driver_id =
     (case profiles driver_id of
        Some p \<Rightarrow> Some p
      | None \<Rightarrow> (case strip_prefix_of driver_id ''remote:'' of None \<Rightarrow> None | Some bare \<Rightarrow> profiles bare))"

datatype gate_outcome = Pass op_spec "name_fix_item list" | Preview "name_fix_item list"
datatype gate_error = TablesPoisoned string | NamesRefused "name_fix_item list"

definition source_name :: "op_endpoint \<Rightarrow> string option" where
  "source_name e =
     (case e of
        Local p \<Rightarrow> if p = [] \<or> last p = ''..'' then None else Some (last p)
      | Remote _ _ \<Rightarrow> None)"

definition name_items :: "remote_protocol \<Rightarrow> name_fix_tables \<Rightarrow> op_endpoint list \<Rightarrow> name_fix_item list" where
  "name_items proto t srcs =
     List.map_filter (\<lambda>e. case source_name e of
         None \<Rightarrow> None
       | Some n \<Rightarrow> (let bad = probe_remote_name n proto t in
           if bad = [] then None else Some \<lparr>nx_name = n, nx_bad = bad, nx_suggested = None\<rparr>)) srcs"

definition suggest_item :: "remote_protocol \<Rightarrow> name_fix_tables \<Rightarrow> name_fix_item \<Rightarrow> name_fix_item" where
  "suggest_item proto t i = i\<lparr>nx_suggested := suggest_rename (nx_name i) proto t\<rparr>"

fun auto_rename ::
    "remote_protocol \<Rightarrow> name_fix_tables \<Rightarrow> name_fix_item list \<Rightarrow> op_spec \<Rightarrow> gate_error + op_spec \<times> name_fix_item list" where
  "auto_rename proto t [] spec = Inr (spec, [])"
| "auto_rename proto t (i # is) spec =
     (case suggest_rename (nx_name i) proto t of
        None \<Rightarrow> Inl (NamesRefused [i])
      | Some new \<Rightarrow>
          res_bind (auto_rename proto t is (spec\<lparr>os_name_overrides := AList.update (nx_name i) new (os_name_overrides spec)\<rparr>))
            (\<lambda>(spec', is'). Inr (spec', i\<lparr>nx_suggested := Some new\<rparr> # is')))"

definition gate_remote_names ::
    "(string \<Rightarrow> remote_protocol option) \<Rightarrow> string + name_fix_tables \<Rightarrow> file_config \<Rightarrow> op_spec \<Rightarrow> gate_error + gate_outcome" where
  "gate_remote_names profiles tables cfg spec =
     (if os_kind spec \<noteq> Copy \<and> os_kind spec \<noteq> Move then Inr (Pass spec [])
      else case os_dst spec of
        Local _ \<Rightarrow> Inr (Pass spec [])
      | Remote driver_id _ \<Rightarrow>
          (case protocol_for_driver profiles driver_id of
             None \<Rightarrow> Inr (Pass spec [])
           | Some proto \<Rightarrow>
               (case tables of
                  Inl why \<Rightarrow> Inl (TablesPoisoned why)
                | Inr t \<Rightarrow>
                    let policy = unwrap_or (fc_remote_name_fix cfg) (os_name_fix spec); items = name_items proto t (os_srcs spec) in
                    if items = [] then Inr (Pass spec [])
                    else case policy of
                      FixReject \<Rightarrow> Inl (NamesRefused items)
                    | FixAsk \<Rightarrow> Inr (Preview (map (suggest_item proto t) items))
                    | AutoRename \<Rightarrow> res_bind (auto_rename proto t items spec) (\<lambda>(spec', is'). Inr (Pass spec' is')))))"

record enqueue_outcome =
  eo_op_id :: "string option"
  eo_conflicts :: "(string \<times> path) list"
  eo_name_fix :: "name_fix_item list"

datatype enqueue_error = GateError gate_error | QueueError file_error

definition service_enqueue ::
    "(string \<Rightarrow> remote_protocol option) \<Rightarrow> string + name_fix_tables \<Rightarrow> file_config \<Rightarrow> disk \<Rightarrow>
     bool \<Rightarrow> string \<Rightarrow> int \<Rightarrow> op_spec \<Rightarrow> op_queue \<Rightarrow> (enqueue_error + enqueue_outcome) \<times> op_queue" where
  "service_enqueue profiles tables cfg d store_ok nid now spec0 q =
     (case gate_remote_names profiles tables cfg (apply_config_to_spec cfg spec0) of
        Inl e \<Rightarrow> (Inl (GateError e), q)
      | Inr (Preview items) \<Rightarrow> (Inr \<lparr>eo_op_id = None, eo_conflicts = [], eo_name_fix = items\<rparr>, q)
      | Inr (Pass spec items) \<Rightarrow>
          (let conflicts =
             (if os_kind spec = Copy \<or> os_kind spec = Move then
                (case (locals (os_srcs spec), as_local (os_dst spec)) of
                   (Some srcs, Some dst) \<Rightarrow>
                     scan_conflicts srcs (if dk_dirs d dst then dst else unwrap_or [''.''] (path_parent dst)) d
                 | _ \<Rightarrow> [])
              else [])
           in if conflicts \<noteq> [] \<and> os_policy spec = Ask
              then (Inr \<lparr>eo_op_id = None, eo_conflicts = conflicts, eo_name_fix = items\<rparr>, q)
              else case enqueue store_ok nid now spec q of
                (Inl e, q1) \<Rightarrow> (Inl (QueueError e), q1)
              | (Inr i, q1) \<Rightarrow> (Inr \<lparr>eo_op_id = Some i, eo_conflicts = [], eo_name_fix = items\<rparr>, q1)))"

text \<open>What the executor sends: the first segment of the relative path is renamed.\<close>

definition apply_name_override :: "string \<Rightarrow> (string \<times> string) list \<Rightarrow> string" where
  "apply_name_override rel ov =
     (let (head, rest) = (case split_once_char (CHR ''/'') rel of None \<Rightarrow> (rel, '''') | Some (a, b) \<Rightarrow> (a, CHR ''/'' # b))
      in case map_of ov head of None \<Rightarrow> rel | Some new \<Rightarrow> new @ rest)"

section \<open>No name is changed behind the caller's back\<close>

lemma auto_rename_result:
  assumes "auto_rename proto t is spec = Inr (spec', is')"
  shows "is' = map (suggest_item proto t) is"
    and "\<forall>i\<in>set is. suggest_rename (nx_name i) proto t \<noteq> None"
    and "map_of (os_name_overrides spec') n =
      (if n \<in> nx_name ` set is then suggest_rename n proto t else map_of (os_name_overrides spec) n)"
    and "spec'\<lparr>os_name_overrides := ov\<rparr> = spec\<lparr>os_name_overrides := ov\<rparr>"
  using assms
proof (induction "is" arbitrary: spec is')
  case (Cons i "is")
  {
    case 1
    then show ?case using Cons.IH(1) by (force simp: suggest_item_def res_bind_eq_Inr split: option.splits)
  next
    case 2
    then show ?case using Cons.IH(2) by (force simp: res_bind_eq_Inr split: option.splits)
  next
    case 3
    then show ?case using Cons.IH(3) by (force simp: res_bind_eq_Inr update_conv' split: option.splits)
  next
    case 4
    then show ?case using Cons.IH(4) by (force simp: res_bind_eq_Inr split: option.splits)
  }
qed auto

lemma name_items_set:
  "i \<in> set (name_items proto t srcs) \<longleftrightarrow>
    (\<exists>e\<in>set srcs. \<exists>n. source_name e = Some n \<and> probe_remote_name n proto t \<noteq> []
      \<and> i = \<lparr>nx_name = n, nx_bad = probe_remote_name n proto t, nx_suggested = None\<rparr>)"
proof -
  let ?f = "\<lambda>e. case source_name e of None \<Rightarrow> None
    | Some n \<Rightarrow> (let bad = probe_remote_name n proto t in
        if bad = [] then None else Some \<lparr>nx_name = n, nx_bad = bad, nx_suggested = None\<rparr>)"
  have "i \<in> set (name_items proto t srcs) \<longleftrightarrow> (\<exists>e\<in>set srcs. ?f e = Some i)"
    by (force simp: name_items_def map_filter_def image_iff)
  moreover have "?f e = Some i \<longleftrightarrow> (\<exists>n. source_name e = Some n \<and> probe_remote_name n proto t \<noteq> []
      \<and> i = \<lparr>nx_name = n, nx_bad = probe_remote_name n proto t, nx_suggested = None\<rparr>)" for e
    by (auto simp: Let_def split: option.splits)
  ultimately show ?thesis by blast
qed

lemma suggest_clean: "suggest_rename n proto t = Some m \<Longrightarrow> probe_remote_name m proto t = [] \<and> m \<noteq> n"
  by (auto simp: suggest_rename_def Let_def split: if_splits option.splits)

text \<open>When the gate lets an upload pass, every source name is clean after its renaming.\<close>

lemma gate_pass:
  assumes "gate_remote_names profiles (Inr t) cfg spec = Inr (Pass spec' items)"
    and "os_kind spec = Copy \<or> os_kind spec = Move" "os_dst spec = Remote driver_id path"
    and "protocol_for_driver profiles driver_id = Some proto" "os_name_overrides spec = []"
    and src: "e \<in> set (os_srcs spec)" "source_name e = Some n"
  shows "spec'\<lparr>os_name_overrides := []\<rparr> = spec"
    and "map_of (os_name_overrides spec') n = (if probe_remote_name n proto t = [] then None else suggest_rename n proto t)"
    and "probe_remote_name n proto t \<noteq> [] \<Longrightarrow>
      \<exists>new. suggest_rename n proto t = Some new \<and> (\<exists>i\<in>set items. nx_name i = n \<and> nx_suggested i = Some new)"
proof -
  let ?items = "name_items proto t (os_srcs spec)"
  have mem: "n \<in> nx_name ` set ?items \<longleftrightarrow> probe_remote_name n proto t \<noteq> []"
    using src by (force simp: name_items_set)
  have ov: "spec\<lparr>os_name_overrides := []\<rparr> = spec" using assms(5) by simp
  have "spec'\<lparr>os_name_overrides := []\<rparr> = spec
    \<and> map_of (os_name_overrides spec') n = (if probe_remote_name n proto t = [] then None else suggest_rename n proto t)
    \<and> (probe_remote_name n proto t \<noteq> [] \<longrightarrow>
      (\<exists>new. suggest_rename n proto t = Some new \<and> (\<exists>i\<in>set items. nx_name i = n \<and> nx_suggested i = Some new)))"
  proof (cases "?items = []")
    case True
    then have "probe_remote_name n proto t = []" using mem by simp
    then show ?thesis using assms(1-5) True ov by (auto simp: gate_remote_names_def)
  next
    case False
    then obtain is' where a: "auto_rename proto t ?items spec = Inr (spec', is')" "items = is'"
      using assms(1-4)
      by (auto simp: gate_remote_names_def Let_def res_bind_eq_Inr split: fix_policy.splits)
    have "\<exists>i\<in>set is'. nx_name i = n \<and> nx_suggested i = suggest_rename n proto t" if "n \<in> nx_name ` set ?items"
      using that auto_rename_result(1) [OF a(1)] by (auto simp: suggest_item_def)
    moreover have "suggest_rename n proto t \<noteq> None" if "n \<in> nx_name ` set ?items"
      using that auto_rename_result(2) [OF a(1)] by auto
    ultimately show ?thesis
      using mem auto_rename_result(3) [OF a(1), of n] auto_rename_result(4) [OF a(1), of "[]"] ov assms(5) a(2)
      by (cases "n \<in> nx_name ` set ?items") auto
  qed
  then show "spec'\<lparr>os_name_overrides := []\<rparr> = spec"
    "map_of (os_name_overrides spec') n = (if probe_remote_name n proto t = [] then None else suggest_rename n proto t)"
    "probe_remote_name n proto t \<noteq> [] \<Longrightarrow>
      \<exists>new. suggest_rename n proto t = Some new \<and> (\<exists>i\<in>set items. nx_name i = n \<and> nx_suggested i = Some new)"
    by blast+
qed

lemma apply_override_plain:
  "CHR ''/'' \<notin> set n \<Longrightarrow> apply_name_override n ov = unwrap_or n (map_of ov n)"
proof -
  assume "CHR ''/'' \<notin> set n"
  then have "split_once_char (CHR ''/'') n = None" by simp
  then show ?thesis unfolding apply_name_override_def by (simp del: split_once_char_None split: option.split)
qed

lemma apply_override_inside:
  "CHR ''/'' \<notin> set n \<Longrightarrow>
    apply_name_override (n @ CHR ''/'' # rest) ov = apply_name_override n ov @ CHR ''/'' # rest"
  by (cases "map_of ov n") (simp_all add: apply_override_plain, simp_all add: apply_name_override_def split_once_char_append)

lemma apply_config_keeps:
  "os_kind (apply_config_to_spec cfg spec) = os_kind spec" "os_dst (apply_config_to_spec cfg spec) = os_dst spec"
  "os_srcs (apply_config_to_spec cfg spec) = os_srcs spec"
  "os_name_overrides (apply_config_to_spec cfg spec) = os_name_overrides spec"
  by (simp_all add: apply_config_to_spec_def Let_def)

text \<open>Names of uploads are decided before the queue: when an upload by copying or moving is accepted
  for a known remote profile, the job in the queue has the sources of the request, and the name each
  source is sent under has no character the protocol forbids; a name that differs from the source's is
  in the receipt, with that suggestion.\<close>
lemma upload_names_decided:
  assumes "tables_ok t" "protocol_for_driver profiles driver_id = Some proto"
    and "os_kind spec = Copy \<or> os_kind spec = Move" "os_dst spec = Remote driver_id path" "os_name_overrides spec = []"
    and "e \<in> set (os_srcs spec)" "source_name e = Some n" "CHR ''/'' \<notin> set n" "oq_open q"
    and "service_enqueue profiles (Inr t) cfg d store_ok nid now spec q = (Inr out, q')" "eo_op_id out = Some i"
  shows "\<exists>j. oq_jobs q' = oq_jobs q @ [j] \<and> jb_op_id j = i \<and> os_srcs (jb_spec j) = os_srcs spec
    \<and> probe_remote_name (apply_name_override n (os_name_overrides (jb_spec j))) proto t = []
    \<and> (apply_name_override n (os_name_overrides (jb_spec j)) = n
       \<or> (\<exists>x\<in>set (eo_name_fix out). nx_name x = n \<and> nx_suggested x = Some (apply_name_override n (os_name_overrides (jb_spec j)))))"
proof -
  let ?spec = "apply_config_to_spec cfg spec"
  obtain spec' items where g: "gate_remote_names profiles (Inr t) cfg ?spec = Inr (Pass spec' items)"
    and fx: "eo_name_fix out = items" and e: "enqueue store_ok nid now spec' q = (Inr i, q')"
    using assms(10,11)
    by (auto simp: service_enqueue_def Let_def split: sum.splits gate_outcome.splits if_splits prod.splits)
  note gp = gate_pass [OF g, unfolded apply_config_keeps, OF assms(3,4,2,5,6,7)]
  have "os_srcs spec' = os_srcs (spec'\<lparr>os_name_overrides := []\<rparr>)" by simp
  then have srcs: "os_srcs spec' = os_srcs spec" using gp(1) by (simp add: apply_config_keeps)
  obtain dir where "q' = admitted i now spec' None None dir q"
    using e enqueue_cases [OF assms(9), of store_ok nid now spec' None None]
    by (auto simp: enqueue_def split: sum.splits if_splits)
  then have jobs: "oq_jobs q' = oq_jobs q @
      [\<lparr>jb_op_id = i, jb_spec = spec', jb_direction = dir, jb_checkpoint = None, jb_resumed_from = None\<rparr>]"
    by simp
  show ?thesis
  proof (cases "probe_remote_name n proto t = []")
    case True
    then show ?thesis using jobs srcs gp(2) assms(8) by (simp add: apply_override_plain)
  next
    case False
    then obtain new where "suggest_rename n proto t = Some new" "\<exists>x\<in>set items. nx_name x = n \<and> nx_suggested x = Some new"
      using gp(3) by blast
    then show ?thesis using jobs srcs gp(2) assms(8) suggest_clean [of n proto t new] False fx
      by (simp add: apply_override_plain)
  qed
qed

definition hash_tables :: name_fix_tables where
  "hash_tables = \<lparr>nt_ftp_banned = [], nt_char_map = [(''#'', full_width 0x23)]\<rparr>"

definition upload_of :: "string list \<Rightarrow> (string \<times> string) list \<Rightarrow> op_spec" where
  "upload_of names ov =
     \<lparr>os_kind = Copy, os_srcs = map (\<lambda>n. Local [''C:'', n]) names, os_dst = Remote ''remote:dav'' ''/up'',
      os_policy = Overwrite, os_recycle = False, os_name_fix = Some AutoRename, os_name_overrides = ov\<rparr>"

definition ask_config :: file_config where
  "ask_config = \<lparr>fc_default_conflict_policy = Ask, fc_delete_to_recycle = True, fc_insecure_plaintext = False,
     fc_download_kbps = 0, fc_upload_kbps = 0, fc_max_concurrent = 3, fc_remote_name_fix = FixAsk\<rparr>"

definition dav_profile :: "string \<Rightarrow> remote_protocol option" where
  "dav_profile s = (if s = ''remote:dav'' then Some WebDav else None)"

definition upload_result :: "name_fix_tables \<Rightarrow> op_spec \<Rightarrow> (enqueue_error + enqueue_outcome) \<times> op_queue" where
  "upload_result t spec =
     service_enqueue dav_profile (Inr t) ask_config (disk_of [] []) True ''n1'' 0 spec (queue_new 1 (\<lambda>_. None))"

lemma hash_tables_ok: "tables_ok hash_tables"
  by (simp add: tables_ok_def hash_tables_def full_width_def utf8_len_def)

lemma upload_result_value:
  "case upload_result hash_tables (upload_of [''a#b''] []) of
     (Inr out, q) \<Rightarrow> eo_op_id out = Some ''n1'' \<and> map nx_suggested (eo_name_fix out) = [Some (''a'' @ full_width 0x23 @ ''b'')]
   | _ \<Rightarrow> False"
  by code_simp

lemma upload_names_decided_witness:
  "\<exists>j. oq_jobs (snd (upload_result hash_tables (upload_of [''a#b''] []))) = [j]
    \<and> probe_remote_name (apply_name_override ''a#b'' (os_name_overrides (jb_spec j))) WebDav hash_tables = []"
proof -
  obtain out q' where r: "upload_result hash_tables (upload_of [''a#b''] []) = (Inr out, q')" "eo_op_id out = Some ''n1''"
    using upload_result_value by (auto split: prod.splits sum.splits)
  have "\<exists>j. oq_jobs q' = oq_jobs (queue_new 1 (\<lambda>_. None)) @ [j] \<and> jb_op_id j = ''n1'' \<and> os_srcs (jb_spec j) = os_srcs (upload_of [''a#b''] [])
    \<and> probe_remote_name (apply_name_override ''a#b'' (os_name_overrides (jb_spec j))) WebDav hash_tables = []
    \<and> (apply_name_override ''a#b'' (os_name_overrides (jb_spec j)) = ''a#b''
       \<or> (\<exists>x\<in>set (eo_name_fix out). nx_name x = ''a#b'' \<and> nx_suggested x = Some (apply_name_override ''a#b'' (os_name_overrides (jb_spec j)))))"
    using r unfolding upload_result_def
    by (intro upload_names_decided [where driver_id = "''remote:dav''" and path = "''/up''" and e = "Local [''C:'', ''a#b'']"
          and spec = "upload_of [''a#b''] []" and profiles = dav_profile])
      (auto simp: hash_tables_ok protocol_for_driver_def dav_profile_def upload_of_def source_name_def queue_new_def)
  then show ?thesis using r by (auto simp: queue_new_def)
qed

section \<open>What the built-in table can repair\<close>

text \<open>The characters Windows allows in a file name.\<close>

definition windows_name :: "string \<Rightarrow> bool" where
  "windows_name s \<longleftrightarrow> list_all (\<lambda>c. (32 :: nat) \<le> of_char c
     \<and> c \<notin> set [CHR ''<'', CHR ''>'', CHR '':'', dquote, CHR ''/'', bslash, CHR ''|'', CHR ''?'', CHR ''*'']) s"

text \<open>The built-in character map repairs no name that a file on Windows can have: its nine characters
  are the ones Windows forbids.  For such a name there is never a suggestion, and renaming on upload
  refuses every name with a forbidden character.\<close>
lemma builtin_map_repairs_nothing:
  assumes "windows_name name" "whole_chars name"
  shows "suggest_rename name proto embedded = None
    \<and> auto_rename proto embedded [\<lparr>nx_name = name, nx_bad = probe_remote_name name proto embedded, nx_suggested = None\<rparr>] spec
      = Inl (NamesRefused [\<lparr>nx_name = name, nx_bad = probe_remote_name name proto embedded, nx_suggested = None\<rparr>])"
proof -
  have "map_char embedded c = None" if c: "c \<in> set (chars_of name)" for c
  proof (rule ccontr)
    assume "map_char embedded c \<noteq> None"
    then obtain x where x: "c = [x]" "x \<in> set [CHR ''?'', CHR ''*'', CHR '':'', CHR ''<'', CHR ''>'', dquote, CHR ''|'', bslash, CHR ''/'']"
      by (auto simp: map_char_def embedded_def split: if_splits)
    have "x \<in> set (concat (chars_of name))" using c x(1) unfolding set_concat by force
    then have "x \<in> set name" by (simp only: concat_chars_of)
    then show False using assms(1) x(2) by (auto simp: windows_name_def list_all_iff)
  qed
  then have none: "suggest_rename name proto embedded = None"
    unfolding suggest_exact [OF embedded_ok assms(2)] Let_def by auto
  show ?thesis by (simp add: none)
qed

lemma builtin_map_repairs_nothing_witness:
  "suggest_rename ''a#b[1]'' WebDav embedded = None \<and> probe_remote_name ''a#b[1]'' WebDav embedded \<noteq> []"
proof -
  have "windows_name ''a#b[1]''" "whole_chars ''a#b[1]''" by code_simp+
  moreover have "probe_remote_name ''a#b[1]'' WebDav embedded \<noteq> []" by code_simp
  ultimately show ?thesis using builtin_map_repairs_nothing by blast
qed

section \<open>Two gaps of the gate\<close>

text \<open>Two sources may be given the same name: the suggestion is not compared with the other names.\<close>

lemma repaired_names_collide:
  "map (\<lambda>j. map (\<lambda>n. apply_name_override n (os_name_overrides (jb_spec j))) [''a#b'', ''a'' @ full_width 0x23 @ ''b''])
      (oq_jobs (snd (upload_result hash_tables (upload_of [''a#b'', ''a'' @ full_width 0x23 @ ''b''] []))))
    = [[''a'' @ full_width 0x23 @ ''b'', ''a'' @ full_width 0x23 @ ''b'']]"
  by code_simp

text \<open>Overrides the request brings along are used as they are, also for names the gate finds clean.\<close>

lemma supplied_override_unprobed:
  "map (\<lambda>j. apply_name_override ''a'' (os_name_overrides (jb_spec j)))
      (oq_jobs (snd (upload_result hash_tables (upload_of [''a''] [(''a'', ''../x?y'')]))))
    = [''../x?y'']"
  by code_simp

end
