(* ===== verification/File_Rename.thy ===== *)
theory File_Rename
  imports File_Browse File_Names
begin

text \<open>
  Batch renaming (\<open>crates/file-core/src/rename.rs\<close>): the template language, the plan with its conflicts
  and its execution.  Regular expressions and the Unicode case conversions are arguments.  The disk
  finds a name whatever its case: \<open>cf_key\<close> is the form of a name by which the file system compares it,
  and the paths of the disk are made of such forms.
\<close>

section \<open>Rules and templates\<close>

datatype case_mode = CaseNone | CaseLower | CaseUpper

record rename_rule =
  rr_template :: string
  rr_regex :: "string option"
  rr_replacement :: string
  rr_case :: case_mode
  rr_start :: "32 word"

definition default_rule :: rename_rule where
  "default_rule = \<lparr>rr_template = ''{name}{ext}'', rr_regex = None, rr_replacement = '''', rr_case = CaseNone, rr_start = 1\<rparr>"

record rename_plan =
  rp_from :: path
  rp_to :: path
  rp_conflict :: bool

datatype rename_error = Rule string | Listing string | RenameIo path path

text \<open>\<open>te_regex\<close> compiles a pattern to the function that replaces all its matches.\<close>

record text_env =
  te_lower :: "string \<Rightarrow> string"
  te_upper :: "string \<Rightarrow> string"
  te_regex :: "string \<Rightarrow> string + (string \<Rightarrow> string \<Rightarrow> string)"

definition zero_padded :: "nat \<Rightarrow> nat \<Rightarrow> string" where
  "zero_padded width n = (let s = show_nat n in replicate (width - length s) (CHR ''0'') @ s)"

definition render_token :: "string \<Rightarrow> string \<Rightarrow> 32 word \<Rightarrow> string \<Rightarrow> rename_error + string" where
  "render_token name ext n token =
     (if token = ''name'' then Inr name
      else if token = ''ext'' then Inr ext
      else if token = ''n'' then Inr (show_nat (unat n))
      else if starts_with token ''n:'' then
        (case parse_uint (2 ^ 64) (drop 2 token) of
           None \<Rightarrow> Inl (Rule (''width: '' @ token))
         | Some width \<Rightarrow> if 10 < width then Inl (Rule (''too wide: '' @ token)) else Inr (zero_padded width (unat n)))
      else Inl (Rule (''unknown: '' @ token)))"

function render :: "string \<Rightarrow> string \<Rightarrow> string \<Rightarrow> 32 word \<Rightarrow> rename_error + string" where
  "render [] name ext n = Inr []"
| "render (c # s) name ext n =
     (if c = CHR ''{'' then
        (case split_once_char (CHR ''}'') s of
           None \<Rightarrow> Inl (Rule ''unclosed'')
         | Some (token, rest) \<Rightarrow>
             res_bind (render_token name ext n token) (\<lambda>t. res_bind (render rest name ext n) (\<lambda>r. Inr (t @ r))))
      else res_bind (render (drop (utf8_len c - 1) s) name ext n) (\<lambda>r. Inr (c # take (utf8_len c - 1) s @ r)))"
  by pat_completeness auto
termination render
  by (relation "measure (\<lambda>(t, _). length t)") (auto dest: split_once_char_SomeD)

section \<open>Plans\<close>

text \<open>\<open>Path::join\<close> on the components of a path.\<close>

definition join_name :: "path \<Rightarrow> string \<Rightarrow> path" where
  "join_name dir s =
     (let p = parse_prefix s in
      if p \<noteq> NoPrefix then take (prefix_len p) s # path_components s
      else case s of
        c # _ \<Rightarrow> if path_sep False c then take 1 dir @ path_components s else dir @ path_components s
      | [] \<Rightarrow> dir)"

lemma join_name_plain: "plain_name s \<Longrightarrow> join_name dir s = dir @ [s]"
  by (cases s) (auto simp: join_name_def parse_prefix_plain path_components_plain path_sep_def plain_name_def)

definition stem_of :: "string \<Rightarrow> string" where
  "stem_of name = (case path_file_name name of None \<Rightarrow> [] | Some f \<Rightarrow> fst (stem_and_ext f))"

definition ext_of :: "string \<Rightarrow> string" where
  "ext_of name = (case path_file_name name of None \<Rightarrow> [] | Some f \<Rightarrow>
     (case snd (stem_and_ext f) of None \<Rightarrow> [] | Some e \<Rightarrow> ''.'' @ e))"

definition new_name ::
    "text_env \<Rightarrow> (string \<Rightarrow> string \<Rightarrow> string) option \<Rightarrow> rename_rule \<Rightarrow> nat \<Rightarrow> string \<Rightarrow> rename_error + string" where
  "new_name env re rule i name =
     (let s1 = (case re of Some r \<Rightarrow> r (stem_of name) (rr_replacement rule) | None \<Rightarrow> stem_of name);
          s2 = (case rr_case rule of CaseLower \<Rightarrow> te_lower env s1 | CaseUpper \<Rightarrow> te_upper env s1 | CaseNone \<Rightarrow> s1)
      in render (rr_template rule) s2 (ext_of name) (rr_start rule + of_nat i))"

fun plan_names ::
    "text_env \<Rightarrow> (string \<Rightarrow> string \<Rightarrow> string) option \<Rightarrow> rename_rule \<Rightarrow> path \<Rightarrow> nat \<Rightarrow> string list \<Rightarrow>
     rename_error + rename_plan list" where
  "plan_names env re rule dir i [] = Inr []"
| "plan_names env re rule dir i (name # names) =
     res_bind (new_name env re rule i name) (\<lambda>out.
       if out = [] \<or> out = name then
         res_bind (plan_names env re rule dir (Suc i) names) (\<lambda>ps.
           Inr (\<lparr>rp_from = join_name dir name, rp_to = join_name dir name, rp_conflict = False\<rparr> # ps))
       else if CHR ''/'' \<in> set out \<or> bslash \<in> set out \<or> str_contains out ''..'' then Inl (Rule (''separator: '' @ out))
       else res_bind (plan_names env re rule dir (Suc i) names) (\<lambda>ps.
           Inr (\<lparr>rp_from = join_name dir name, rp_to = join_name dir out, rp_conflict = False\<rparr> # ps)))"

record case_fs =
  cf_key :: "string \<Rightarrow> string"
  cf_canonical :: "path \<Rightarrow> bool"

definition disk_key :: "case_fs \<Rightarrow> path \<Rightarrow> path" where
  "disk_key fs p = map (cf_key fs) p"

definition path_exists :: "case_fs \<Rightarrow> disk \<Rightarrow> path \<Rightarrow> bool" where
  "path_exists fs d p = dk_exists d (disk_key fs p)"

text \<open>\<open>canonicalize\<close> succeeds on what exists and can be opened, and gives one answer per file.\<close>

definition same_file :: "case_fs \<Rightarrow> disk \<Rightarrow> path \<Rightarrow> path \<Rightarrow> bool" where
  "same_file fs d a b \<longleftrightarrow> path_exists fs d a \<and> path_exists fs d b \<and> cf_canonical fs a \<and> cf_canonical fs b
     \<and> disk_key fs a = disk_key fs b"

definition changes :: "rename_plan \<Rightarrow> bool" where
  "changes p \<longleftrightarrow> rp_from p \<noteq> rp_to p"

definition target_count :: "text_env \<Rightarrow> rename_plan list \<Rightarrow> path \<Rightarrow> nat" where
  "target_count env plans k = length (filter (\<lambda>p. changes p \<and> map (te_lower env) (rp_to p) = k) plans)"

definition mark_conflicts :: "text_env \<Rightarrow> case_fs \<Rightarrow> disk \<Rightarrow> rename_plan list \<Rightarrow> rename_plan list" where
  "mark_conflicts env fs d plans =
     map (\<lambda>p. if \<not> changes p then p
       else p\<lparr>rp_conflict := path_exists fs d (rp_to p) \<and> \<not> same_file fs d (rp_from p) (rp_to p)
              \<or> 1 < target_count env plans (map (te_lower env) (rp_to p))\<rparr>) plans"

definition build_plan ::
    "text_env \<Rightarrow> case_fs \<Rightarrow> disk \<Rightarrow> (path \<Rightarrow> string + file_entry list) \<Rightarrow> path \<Rightarrow> string list \<Rightarrow> rename_rule \<Rightarrow>
     rename_error + rename_plan list" where
  "build_plan env fs d listing dir names rule =
     res_bind (case rr_regex rule of
         None \<Rightarrow> Inr None
       | Some r \<Rightarrow> if r = [] then Inr None
           else (case te_regex env r of Inl e \<Rightarrow> Inl (Rule e) | Inr f \<Rightarrow> Inr (Some f))) (\<lambda>re.
     res_bind (if names = [] then
         (case listing dir of Inl e \<Rightarrow> Inl (Listing e) | Inr es \<Rightarrow> Inr (map fe_name (filter (\<lambda>e. \<not> fe_is_dir e) es)))
       else Inr names) (\<lambda>targets.
     res_bind (plan_names env re rule dir 0 targets) (\<lambda>plans. Inr (mark_conflicts env fs d plans))))"

section \<open>Applying a plan\<close>

definition active_plan :: "rename_plan \<Rightarrow> bool" where
  "active_plan p \<longleftrightarrow> \<not> rp_conflict p \<and> rp_from p \<noteq> rp_to p"

fun apply_plan :: "case_fs \<Rightarrow> disk_port \<Rightarrow> rename_plan list \<Rightarrow> nat \<Rightarrow> disk \<Rightarrow> (rename_error + nat) \<times> disk" where
  "apply_plan fs dp [] ok d = (Inr ok, d)"
| "apply_plan fs dp (p # ps) ok d =
     (if rp_conflict p \<or> rp_from p = rp_to p then apply_plan fs dp ps ok d
      else case rename_to dp (disk_key fs (rp_from p)) (disk_key fs (rp_to p)) d of
        None \<Rightarrow> (Inl (RenameIo (rp_from p) (rp_to p)), d)
      | Some d1 \<Rightarrow> apply_plan fs dp ps (ok + 1) d1)"

section \<open>Renaming siblings\<close>

text \<open>\<open>carries g d d'\<close>: the files of \<open>d'\<close> are those of \<open>d\<close>, each moved by \<open>g\<close>, no two to the same place.\<close>

definition carries :: "(path \<Rightarrow> path) \<Rightarrow> disk \<Rightarrow> disk \<Rightarrow> bool" where
  "carries g d d' \<longleftrightarrow> inj_on g (dom (dk_files d)) \<and> dom (dk_files d') = g ` dom (dk_files d)
     \<and> (\<forall>x\<in>dom (dk_files d). dk_files d' (g x) = dk_files d x)"

lemma carries_id [simp]: "carries id d d"
  by (simp add: carries_def)

lemma carries_trans: "carries g d d1 \<Longrightarrow> carries h d1 d2 \<Longrightarrow> carries (h \<circ> g) d d2"
  unfolding carries_def by (auto simp: comp_inj_on image_comp)

definition free_at :: "disk \<Rightarrow> path \<Rightarrow> bool" where
  "free_at d q \<longleftrightarrow> (\<forall>r. \<not> dk_exists d (q @ r))"

lemma free_atI:
  assumes "disk_wf d" "\<not> dk_exists d q"
  shows "free_at d q"
  unfolding free_at_def
proof
  fix r
  show "\<not> dk_exists d (q @ r)"
  proof (cases "r = []")
    case False
    have "take (length q) (q @ r) = q" "length q < length (q @ r)" using False by simp_all
    then show ?thesis using assms unfolding disk_wf_def dk_exists_def dk_is_file_def by metis
  qed (use assms in simp)
qed

definition moved :: "path \<Rightarrow> path \<Rightarrow> path \<Rightarrow> path" where
  "moved p q x = (if below p x then q @ drop (length p) x else x)"

lemma below_siblings: "below (b @ [s]) x \<Longrightarrow> below (b @ [t]) x \<Longrightarrow> s = t"
  by (auto simp: below_def dest!: belowE)

lemma rename_to_files:
  assumes "rename_to dp (b @ [s]) (b @ [t]) d = Some d'" "s \<noteq> t" "free_at d (b @ [t])"
  shows "dk_files d' (b @ t # r) = dk_files d (b @ s # r)" "dk_files d' (b @ s # r) = None"
    and "\<not> below (b @ [s]) x \<Longrightarrow> \<not> below (b @ [t]) x \<Longrightarrow> dk_files d' x = dk_files d x"
    and "\<not> below (b @ [s]) x \<Longrightarrow> \<not> below (b @ [t]) x \<Longrightarrow> dk_dirs d' x = dk_dirs d x"
  using assms below_siblings [of b s _ t]
  by (auto simp: rename_to_def below_def split: if_splits)

lemma rename_to_carries:
  assumes ren: "rename_to dp (b @ [s]) (b @ [t]) d = Some d'" and st: "s \<noteq> t" and free: "free_at d (b @ [t])"
  shows "carries (moved (b @ [s]) (b @ [t])) d d'"
proof -
  let ?m = "moved (b @ [s]) (b @ [t])"
  note f = rename_to_files [OF ren st free]
  have no: "dk_files d x = None" if "below (b @ [t]) x" for x
    using free that by (auto simp: free_at_def dk_exists_def dest: belowE)
  have at: "dk_files d' (?m x) = dk_files d x" if x: "x \<in> dom (dk_files d)" for x
  proof (cases "below (b @ [s]) x")
    case True
    then obtain r where "x = b @ s # r" using belowE by fastforce
    then show ?thesis using f(1) by (simp add: moved_def below_def)
  next
    case False
    moreover have "\<not> below (b @ [t]) x" using no x by auto
    ultimately show ?thesis using f(3) by (simp add: moved_def)
  qed
  have "inj_on ?m (dom (dk_files d))"
  proof (rule inj_onI)
    fix x y assume xy: "x \<in> dom (dk_files d)" "y \<in> dom (dk_files d)" "?m x = ?m y"
    have "\<not> below (b @ [t]) x" "\<not> below (b @ [t]) y" using no xy by auto
    then show "x = y" using xy(3)
      by (auto simp: moved_def below_def split: if_splits dest!: belowE) (metis append_take_drop_id)
  qed
  moreover have "dom (dk_files d') = ?m ` dom (dk_files d)"
  proof
    show "?m ` dom (dk_files d) \<subseteq> dom (dk_files d')" using at by (auto simp: dom_def)
    show "dom (dk_files d') \<subseteq> ?m ` dom (dk_files d)"
    proof
      fix y assume y: "y \<in> dom (dk_files d')"
      consider r where "y = b @ s # r" | r where "y = b @ t # r" | "\<not> below (b @ [s]) y" "\<not> below (b @ [t]) y"
        using belowE by fastforce
      then show "y \<in> ?m ` dom (dk_files d)"
      proof cases
        case (1 r)
        then show ?thesis using y f(2) [of r] by auto
      next
        case (2 r)
        then have "?m (b @ s # r) = y" "b @ s # r \<in> dom (dk_files d)" using y f(1) by (auto simp: moved_def below_def)
        then show ?thesis by (metis imageI)
      next
        case 3
        then have "?m y = y" "y \<in> dom (dk_files d)" using y f(3) by (auto simp: moved_def)
        then show ?thesis by (metis imageI)
      qed
    qed
  qed
  ultimately show ?thesis using at by (simp add: carries_def)
qed

lemma rename_to_same: "rename_to dp p p d = Some d' \<Longrightarrow> d' = d"
  by (auto simp: rename_to_def below_def split: if_splits dest!: belowE intro!: disk.equality ext) (metis append_take_drop_id)+

section \<open>Plans free of conflicts\<close>

text \<open>
  What the execution relies on: active plans move a name within a folder, onto a free place or onto
  itself in another case, and no two of them onto the same place.
\<close>

definition plan_safe :: "case_fs \<Rightarrow> path \<Rightarrow> disk \<Rightarrow> rename_plan list \<Rightarrow> bool" where
  "plan_safe fs b d plans \<longleftrightarrow>
     (\<forall>p\<in>set (filter active_plan plans). \<exists>s t. disk_key fs (rp_from p) = b @ [s] \<and> disk_key fs (rp_to p) = b @ [t]
       \<and> (s = t \<or> free_at d (b @ [t])))
     \<and> distinct (map (\<lambda>p. disk_key fs (rp_to p)) (filter active_plan plans))"

text \<open>Renaming succeeds only on what is there.\<close>

definition renames_existing :: "disk_port \<Rightarrow> bool" where
  "renames_existing dp \<longleftrightarrow> (\<forall>d p q. dp_rename dp d p q \<longrightarrow> dk_exists d p)"

lemma plan_safe_Cons:
  assumes "plan_safe fs b d (p # ps)"
  shows "\<not> active_plan p \<Longrightarrow> plan_safe fs b d ps"
    and "active_plan p \<Longrightarrow> \<exists>s t. disk_key fs (rp_from p) = b @ [s] \<and> disk_key fs (rp_to p) = b @ [t]
      \<and> (s = t \<or> free_at d (b @ [t])) \<and> plan_safe fs b d ps
      \<and> (\<forall>p'\<in>set (filter active_plan ps). disk_key fs (rp_to p') \<noteq> b @ [t])"
  using assms by (force simp: plan_safe_def)+

lemma free_after:
  assumes ren: "rename_to dp (b @ [s]) (b @ [t]) d = Some d'" and st: "s \<noteq> t" and free: "free_at d (b @ [t])"
    and u: "free_at d (b @ [u])" "u \<noteq> t" and ex: "dk_exists d (b @ [s])"
  shows "free_at d' (b @ [u])"
proof -
  have "u \<noteq> s" using u(1) ex unfolding free_at_def by (metis append_Nil2)
  then have "\<not> below (b @ [s]) (b @ u # r) \<and> \<not> below (b @ [t]) (b @ u # r)" for r
    using u(2) by (auto simp: below_def)
  then have "dk_files d' (b @ u # r) = dk_files d (b @ u # r) \<and> dk_dirs d' (b @ u # r) = dk_dirs d (b @ u # r)" for r
    using rename_to_files(3,4) [OF ren st free] by blast
  then show ?thesis using u(1) by (simp add: free_at_def dk_exists_def)
qed

lemma plan_safe_after:
  assumes dp: "renames_existing dp" and ren: "rename_to dp (b @ [s]) (b @ [t]) d = Some d'" and st: "s \<noteq> t"
    and free: "free_at d (b @ [t])" and safe: "plan_safe fs b d ps"
    and other: "\<forall>p\<in>set (filter active_plan ps). disk_key fs (rp_to p) \<noteq> b @ [t]"
  shows "plan_safe fs b d' ps"
proof -
  have ex: "dk_exists d (b @ [s])" using dp ren by (auto simp: renames_existing_def rename_to_def split: if_splits)
  show ?thesis
    unfolding plan_safe_def
  proof (intro conjI ballI)
    fix p assume p: "p \<in> set (filter active_plan ps)"
    then obtain s' t' where "disk_key fs (rp_from p) = b @ [s']" "disk_key fs (rp_to p) = b @ [t']" "s' = t' \<or> free_at d (b @ [t'])"
      using safe unfolding plan_safe_def by blast
    then show "\<exists>s t. disk_key fs (rp_from p) = b @ [s] \<and> disk_key fs (rp_to p) = b @ [t] \<and> (s = t \<or> free_at d' (b @ [t]))"
      using free_after [OF ren st free _ _ ex, of t'] other p by auto
  qed (use safe in \<open>simp add: plan_safe_def\<close>)
qed

lemma apply_skip: "\<not> active_plan p \<Longrightarrow> apply_plan fs dp (p # ps) ok d = apply_plan fs dp ps ok d"
  by (auto simp: active_plan_def)

text \<open>Whatever happens on the way, the files that were there are all there afterwards, some of them moved.\<close>

lemma apply_carries:
  assumes dp: "renames_existing dp" and "plan_safe fs b d plans" and "apply_plan fs dp plans ok d = (res, d')"
  shows "\<exists>g. carries g d d'"
  using assms(2,3)
proof (induction plans arbitrary: ok d)
  case Nil
  then have "d' = d" by simp
  then show ?case using carries_id by blast
next
  case (Cons p ps)
  show ?case
  proof (cases "active_plan p")
    case False
    then show ?thesis using Cons.IH [OF plan_safe_Cons(1) [OF Cons.prems(1) False]] Cons.prems(2) apply_skip [OF False] by metis
  next
    case True
    then obtain s t where st: "disk_key fs (rp_from p) = b @ [s]" "disk_key fs (rp_to p) = b @ [t]"
      "s = t \<or> free_at d (b @ [t])" "plan_safe fs b d ps" "\<forall>p'\<in>set (filter active_plan ps). disk_key fs (rp_to p') \<noteq> b @ [t]"
      using plan_safe_Cons(2) [OF Cons.prems(1)] by blast
    show ?thesis
    proof (cases "rename_to dp (b @ [s]) (b @ [t]) d")
      case None
      then have "d' = d" using Cons.prems(2) True st(1,2) by (auto simp: active_plan_def)
      then show ?thesis using carries_id by blast
    next
      case (Some d1)
      have rest: "apply_plan fs dp ps (ok + 1) d1 = (res, d')" using Cons.prems(2) True st(1,2) Some by (simp add: active_plan_def)
      show ?thesis
      proof (cases "s = t")
        case True
        then have "d1 = d" using Some rename_to_same by blast
        then show ?thesis using Cons.IH [OF st(4)] rest by simp
      next
        case False
        then have free: "free_at d (b @ [t])" using st(3) by simp
        obtain h where "carries h d1 d'"
          using Cons.IH [OF plan_safe_after [OF dp Some False free st(4,5)] rest] by blast
        then show ?thesis using carries_trans rename_to_carries [OF Some False free] by blast
      qed
    qed
  qed
qed

text \<open>When all of it succeeds, each target has the files of its source, and nothing else changed.\<close>

lemma apply_delivers:
  assumes dp: "renames_existing dp" and "plan_safe fs b d plans" and "apply_plan fs dp plans ok d = (Inr n, d')"
    and "distinct (map (\<lambda>p. disk_key fs (rp_from p)) (filter active_plan plans))"
    and "\<forall>p\<in>set (filter active_plan plans). dk_exists d (disk_key fs (rp_from p))"
  shows "n = ok + length (filter active_plan plans)
    \<and> (\<forall>p\<in>set (filter active_plan plans). \<forall>r. dk_files d' (disk_key fs (rp_to p) @ r) = dk_files d (disk_key fs (rp_from p) @ r))
    \<and> (\<forall>x. (\<forall>p\<in>set (filter active_plan plans). \<not> below (disk_key fs (rp_from p)) x \<and> \<not> below (disk_key fs (rp_to p)) x)
        \<longrightarrow> dk_files d' x = dk_files d x \<and> dk_dirs d' x = dk_dirs d x)"
  using assms(2-)
proof (induction plans arbitrary: ok d)
  case (Cons p ps)
  show ?case
  proof (cases "active_plan p")
    case False
    then have "filter active_plan (p # ps) = filter active_plan ps" by simp
    then show ?thesis
      using Cons.IH [OF plan_safe_Cons(1) [OF Cons.prems(1) False] Cons.prems(2) [unfolded apply_skip [OF False]]] Cons.prems(3,4)
      by (simp only:) blast
  next
    case True
    then obtain s t where st: "disk_key fs (rp_from p) = b @ [s]" "disk_key fs (rp_to p) = b @ [t]"
      "s = t \<or> free_at d (b @ [t])" "plan_safe fs b d ps" "\<forall>p'\<in>set (filter active_plan ps). disk_key fs (rp_to p') \<noteq> b @ [t]"
      using plan_safe_Cons(2) [OF Cons.prems(1)] by blast
    obtain d1 where ren: "rename_to dp (b @ [s]) (b @ [t]) d = Some d1" and rest: "apply_plan fs dp ps (ok + 1) d1 = (Inr n, d')"
      using Cons.prems(2) True st(1,2) by (auto simp: active_plan_def split: option.splits)
    let ?act = "set (filter active_plan ps)"
    have sources: "\<forall>p'\<in>?act. disk_key fs (rp_from p') \<noteq> b @ [s]" using Cons.prems(3) True st(1) by (auto simp: image_iff)
    have sib: "\<exists>s' t'. disk_key fs (rp_from p') = b @ [s'] \<and> disk_key fs (rp_to p') = b @ [t'] \<and> s' \<noteq> s \<and> t' \<noteq> t
        \<and> (s' = t' \<or> free_at d (b @ [t'])) \<and> dk_exists d (b @ [s'])" if "p' \<in> ?act" for p'
      using that st(4,5) sources Cons.prems(4) True unfolding plan_safe_def by fastforce
    have dist: "distinct (map (\<lambda>p. disk_key fs (rp_from p)) (filter active_plan ps))" using Cons.prems(3) True by simp
    have ex: "dk_exists d (b @ [s])" using dp ren by (auto simp: renames_existing_def rename_to_def split: if_splits)
    show ?thesis
    proof (cases "s = t")
      case True
      then have d1: "d1 = d" using ren rename_to_same by blast
      have "\<forall>r. dk_files d' (b @ s # r) = dk_files d (b @ s # r)"
      proof
        fix r
        have "\<not> below (disk_key fs (rp_from p')) (b @ s # r) \<and> \<not> below (disk_key fs (rp_to p')) (b @ s # r)" if "p' \<in> ?act" for p'
          using sib [OF that] True by (auto simp: below_def)
        then show "dk_files d' (b @ s # r) = dk_files d (b @ s # r)"
          using Cons.IH [OF st(4), of "ok + 1"] rest d1 dist Cons.prems(4) by auto
      qed
      then show ?thesis using Cons.IH [OF st(4), of "ok + 1"] rest d1 dist Cons.prems(4) True \<open>active_plan p\<close> st(1,2) by auto
    next
      case False
      then have free: "free_at d (b @ [t])" using st(3) by simp
      note f = rename_to_files [OF ren False free]
      have far: "\<not> below (b @ [s]) x \<and> \<not> below (b @ [t]) x" if "below (b @ [u]) x" "u \<noteq> s" "u \<noteq> t" for u x
        using that below_siblings by blast
      have apart: "s' \<noteq> t" if "dk_exists d (b @ [s'])" for s'
        using that free unfolding free_at_def by (metis append_Nil2)
      have ex1: "\<forall>p'\<in>?act. dk_exists d1 (disk_key fs (rp_from p'))"
      proof
        fix p' assume "p' \<in> ?act"
        then obtain s' where s': "disk_key fs (rp_from p') = b @ [s']" "s' \<noteq> s" "dk_exists d (b @ [s'])" using sib by blast
        then have "\<not> below (b @ [s]) (b @ [s']) \<and> \<not> below (b @ [t]) (b @ [s'])" using apart [OF s'(3)] by (auto simp: below_def)
        then show "dk_exists d1 (disk_key fs (rp_from p'))" using f(3,4) s'(1,3) by (simp add: dk_exists_def)
      qed
      note ih = Cons.IH [OF plan_safe_after [OF dp ren False free st(4,5)] rest dist ex1]
      have none: "\<not> below (disk_key fs (rp_from p')) x \<and> \<not> below (disk_key fs (rp_to p')) x"
        if m: "p' \<in> ?act" "below (b @ [t]) x" for p' x
      proof -
        obtain s' t' where st': "disk_key fs (rp_from p') = b @ [s']" "disk_key fs (rp_to p') = b @ [t']" "t' \<noteq> t" "s' \<noteq> t"
          using sib [OF m(1)] apart by blast
        then show ?thesis using below_siblings [OF _ m(2)] by (metis (no_types))
      qed
      have "dk_files d' (b @ t # r) = dk_files d (b @ s # r)" for r
        using ih none [of _ "b @ t # r"] f(1) [of r] by (simp add: below_def)
      moreover have "dk_files d' (disk_key fs (rp_to p') @ r) = dk_files d (disk_key fs (rp_from p') @ r)" if p': "p' \<in> ?act" for p' r
      proof -
        obtain s' where s': "disk_key fs (rp_from p') = b @ [s']" "s' \<noteq> s" "dk_exists d (b @ [s'])" using sib [OF p'] by blast
        then have "\<not> below (b @ [s]) (b @ s' # r) \<and> \<not> below (b @ [t]) (b @ s' # r)" using apart [OF s'(3)] by (auto simp: below_def)
        then show ?thesis using ih p' s'(1) f(3) by simp
      qed
      moreover have "dk_files d' x = dk_files d x \<and> dk_dirs d' x = dk_dirs d x"
        if "\<forall>p'\<in>set (filter active_plan (p # ps)). \<not> below (disk_key fs (rp_from p')) x \<and> \<not> below (disk_key fs (rp_to p')) x" for x
        using that ih f(3,4) [of x] True st(1,2) \<open>active_plan p\<close> by simp
      ultimately show ?thesis using ih \<open>active_plan p\<close> st(1,2) by simp
    qed
  qed
qed simp

section \<open>What a built plan guarantees\<close>

lemma distinct_of_counts:
  assumes "\<forall>x\<in>set xs. P x \<longrightarrow> length (filter (\<lambda>y. Q y \<and> k y = k x) xs) \<le> 1"
    and "\<And>x. P x \<Longrightarrow> Q x" and "\<And>x y. f x = f y \<Longrightarrow> k x = k y"
  shows "distinct (map f (filter P xs))"
  using assms(1)
proof (induction xs)
  case (Cons x xs)
  have "\<forall>y\<in>set xs. P y \<longrightarrow> length (filter (\<lambda>z. Q z \<and> k z = k y) xs) \<le> 1"
    using Cons.prems by (auto split: if_splits)
  moreover have "f y \<noteq> f x" if x: "P x" and y: "y \<in> set xs" "P y" for y
  proof
    assume "f y = f x"
    then have "y \<in> set (filter (\<lambda>z. Q z \<and> k z = k x) xs)" using y assms(2) [OF y(2)] assms(3) [of y x] by simp
    then have "0 < length (filter (\<lambda>z. Q z \<and> k z = k x) xs)" by (metis length_greater_0_conv list.set(1) empty_iff)
    then show False using Cons.prems x assms(2) by simp
  qed
  ultimately have "distinct (map f (filter P xs))" "P x \<Longrightarrow> f x \<notin> f ` set (filter P xs)" using Cons.IH by (simp, force)
  then show ?case by simp
qed simp

text \<open>The plan names folder \<open>b\<close>'s own entries, as sources and as targets.\<close>

definition in_folder :: "path \<Rightarrow> rename_plan list \<Rightarrow> bool" where
  "in_folder b plans \<longleftrightarrow> (\<forall>p\<in>set plans. \<exists>s t. rp_from p = b @ [s] \<and> rp_to p = b @ [t])"

lemma mark_changes [simp]:
  "target_count env (mark_conflicts env fs d plans) k = target_count env plans k"
proof -
  have "filter (\<lambda>p. changes p \<and> map (te_lower env) (rp_to p) = k) (mark_conflicts env fs d plans)
      = map (\<lambda>p. if \<not> changes p then p
       else p\<lparr>rp_conflict := path_exists fs d (rp_to p) \<and> \<not> same_file fs d (rp_from p) (rp_to p)
              \<or> 1 < target_count env plans (map (te_lower env) (rp_to p))\<rparr>)
        (filter (\<lambda>p. changes p \<and> map (te_lower env) (rp_to p) = k) plans)"
    unfolding mark_conflicts_def filter_map comp_def
    by (intro arg_cong2 [where f = map] refl filter_cong) (auto simp: changes_def)
  then show ?thesis by (simp add: target_count_def)
qed

lemma marked_active:
  assumes "p \<in> set (mark_conflicts env fs d plans)" "active_plan p"
  shows "changes p" "path_exists fs d (rp_to p) \<Longrightarrow> same_file fs d (rp_from p) (rp_to p)"
    and "target_count env plans (map (te_lower env) (rp_to p)) \<le> 1"
  using assms by (auto simp: mark_conflicts_def active_plan_def changes_def split: if_splits)

text \<open>\<open>keys_agree\<close>: names the file system takes for one are also one in lower case.\<close>

definition keys_agree :: "text_env \<Rightarrow> case_fs \<Rightarrow> bool" where
  "keys_agree env fs \<longleftrightarrow> (\<forall>x y. cf_key fs x = cf_key fs y \<longrightarrow> te_lower env x = te_lower env y)"

lemma keys_agree_paths:
  assumes "keys_agree env fs" "disk_key fs p = disk_key fs q"
  shows "map (te_lower env) p = map (te_lower env) q"
proof -
  have "length p = length q" using assms(2) unfolding disk_key_def by (metis length_map)
  then show ?thesis using assms(2) unfolding disk_key_def
  proof (induction p q rule: list_induct2)
    case (Cons x xs y ys)
    then have "cf_key fs x = cf_key fs y" by simp
    then have "te_lower env x = te_lower env y" using assms(1) unfolding keys_agree_def by blast
    then show ?case using Cons by simp
  qed simp
qed

lemma build_plan_safe:
  assumes build: "build_plan env fs d listing dir names rule = Inr plans"
    and agree: "keys_agree env fs" and wf: "disk_wf d" and inb: "in_folder dir plans"
  shows "plan_safe fs (disk_key fs dir) d plans"
proof -
  obtain raw where plans: "plans = mark_conflicts env fs d raw"
    using build by (auto simp: build_plan_def res_bind_eq_Inr)
  have "\<exists>s t. disk_key fs (rp_from p) = disk_key fs dir @ [s] \<and> disk_key fs (rp_to p) = disk_key fs dir @ [t]
      \<and> (s = t \<or> free_at d (disk_key fs dir @ [t]))" if p: "p \<in> set plans" "active_plan p" for p
  proof -
    obtain s t where st: "rp_from p = dir @ [s]" "rp_to p = dir @ [t]" using inb p(1) by (auto simp: in_folder_def)
    have "cf_key fs s = cf_key fs t \<or> free_at d (disk_key fs (rp_to p))"
    proof (cases "path_exists fs d (rp_to p)")
      case True
      then have "same_file fs d (rp_from p) (rp_to p)" using marked_active(2) p unfolding plans by blast
      then show ?thesis by (simp add: same_file_def st disk_key_def)
    next
      case False
      then show ?thesis using free_atI [OF wf] by (simp add: path_exists_def)
    qed
    then show ?thesis by (auto simp: st disk_key_def)
  qed
  moreover have "distinct (map (\<lambda>p. disk_key fs (rp_to p)) (filter active_plan plans))"
  proof (rule distinct_of_counts [where Q = changes and k = "\<lambda>p. map (te_lower env) (rp_to p)"])
    show "\<forall>x\<in>set plans. active_plan x \<longrightarrow> length (filter (\<lambda>y. changes y \<and> map (te_lower env) (rp_to y) = map (te_lower env) (rp_to x)) plans) \<le> 1"
      using marked_active(3) mark_changes unfolding plans target_count_def by metis
  qed (auto simp: active_plan_def changes_def intro: keys_agree_paths [OF agree])
  ultimately show ?thesis by (simp add: plan_safe_def)
qed

text \<open>
  The names of a folder stay in it: a result has no separator, so it leaves the folder only by naming a
  drive, or is the folder itself.
\<close>

lemma plan_names_shape:
  assumes "plan_names env re rule dir i names = Inr plans" "list_all plain_name names" "p \<in> set plans"
  shows "\<exists>n\<in>set names. rp_from p = dir @ [n] \<and>
    (rp_to p = dir @ [n] \<or> (\<exists>out. rp_to p = join_name dir out \<and> CHR ''/'' \<notin> set out \<and> bslash \<notin> set out \<and>
       (plain_name out \<and> rp_to p = dir @ [out] \<or> out = ''.'' \<or> has_drive out)))"
  using assms
proof (induction names arbitrary: i plans)
  case (Cons n names)
  obtain out ps where out: "new_name env re rule i n = Inr out" and ps: "plan_names env re rule dir (Suc i) names = Inr ps"
    and plans: "plans = \<lparr>rp_from = join_name dir n, rp_to = join_name dir (if out = [] \<or> out = n then n else out), rp_conflict = False\<rparr> # ps"
    and seps: "out = [] \<or> out = n \<or> CHR ''/'' \<notin> set out \<and> bslash \<notin> set out \<and> \<not> str_contains out ''..''"
    using Cons.prems(1) by (auto simp: res_bind_eq_Inr split: if_splits)
  show ?case
  proof (cases "p \<in> set ps")
    case True
    then show ?thesis using Cons.IH [OF ps] Cons.prems(2) by auto
  next
    case False
    then have p: "rp_from p = dir @ [n]" "rp_to p = join_name dir (if out = [] \<or> out = n then n else out)"
      using Cons.prems(2,3) plans by (auto simp: join_name_plain)
    show ?thesis
    proof (cases "out = [] \<or> out = n")
      case True
      then show ?thesis using p Cons.prems(2) by (auto simp: join_name_plain)
    next
      case F: False
      then have s: "CHR ''/'' \<notin> set out" "bslash \<notin> set out" "\<not> str_contains out ''..''" using seps by auto
      have "out \<noteq> ''..''" using s(3) by auto
      then have "plain_name out \<or> out = ''.'' \<or> has_drive out" using F s(1,2) by (auto simp: plain_name_def)
      then show ?thesis using p F s(1,2) join_name_plain [of out dir] by auto
    qed
  qed
qed simp

text \<open>C29. Batch renaming loses no file where the file system takes two names for one only if they are equal in
  lower case: when a plan built for a folder of a sound disk, whose targets are names in that folder, is
  applied right away, then afterwards, also when a rename fails half way, every file that was on the disk
  is there with its content, no two at the same place, and there are no others.  Windows also takes names
  for one that differ in lower case (dots and spaces at the end, the two small sigmas); there a file can
  be lost (\<open>folded_targets_collide\<close>).\<close>
theorem rename_loses_nothing:
  assumes "build_plan env fs d listing dir names rule = Inr plans"
    and "keys_agree env fs" "disk_wf d" "in_folder dir plans" "renames_existing dp"
    and "apply_plan fs dp plans 0 d = (res, d')"
  shows "\<exists>g. inj_on g (dom (dk_files d)) \<and> dom (dk_files d') = g ` dom (dk_files d)
    \<and> (\<forall>x\<in>dom (dk_files d). dk_files d' (g x) = dk_files d x)"
  using apply_carries [OF assms(5) build_plan_safe [OF assms(1-4)] assms(6)] by (simp add: carries_def)

text \<open>Batch renaming does what its plan says: when all renames of a plan succeed and its sources exist
  and are different files, the count is the number of plans without a conflict, each target has what its
  source had, and everything else is as before.\<close>
lemma rename_follows_plan:
  assumes "build_plan env fs d listing dir names rule = Inr plans"
    and "keys_agree env fs" "disk_wf d" "in_folder dir plans" "renames_existing dp"
    and "apply_plan fs dp plans 0 d = (Inr n, d')"
    and "distinct (map (\<lambda>p. disk_key fs (rp_from p)) (filter active_plan plans))"
    and "\<forall>p\<in>set (filter active_plan plans). dk_exists d (disk_key fs (rp_from p))"
  shows "n = length (filter active_plan plans)
    \<and> (\<forall>p\<in>set (filter active_plan plans). \<forall>r. dk_files d' (disk_key fs (rp_to p) @ r) = dk_files d (disk_key fs (rp_from p) @ r))
    \<and> (\<forall>x. (\<forall>p\<in>set (filter active_plan plans). \<not> below (disk_key fs (rp_from p)) x \<and> \<not> below (disk_key fs (rp_to p)) x)
        \<longrightarrow> dk_files d' x = dk_files d x)"
  using apply_delivers [OF assms(5) build_plan_safe [OF assms(1-4)] assms(6-8)] by auto

section \<open>Examples\<close>

definition plain_env :: text_env where
  "plain_env = \<lparr>te_lower = to_ascii_lowercase, te_upper = id, te_regex = (\<lambda>_. Inl ''none'')\<rparr>"

definition plain_fs :: case_fs where
  "plain_fs = \<lparr>cf_key = to_ascii_lowercase, cf_canonical = (\<lambda>_. True)\<rparr>"

definition rule_of :: "string \<Rightarrow> 32 word \<Rightarrow> rename_rule" where
  "rule_of template start = default_rule\<lparr>rr_template := template, rr_start := start\<rparr>"

definition photo_disk :: disk where
  "photo_disk = disk_of [([''p'', ''a.txt''], [1]), ([''p'', ''b.txt''], [2]), ([''p'', ''x_1.txt''], [3])] [[], [''p'']]"

definition existing_only :: "disk \<Rightarrow> path \<Rightarrow> path \<Rightarrow> bool" where
  "existing_only d p q \<longleftrightarrow> dk_exists d p"

definition photo_plan :: "string list \<Rightarrow> string \<Rightarrow> 32 word \<Rightarrow> rename_error + rename_plan list" where
  "photo_plan names template start =
     build_plan plain_env plain_fs photo_disk (\<lambda>_. Inr []) [''p''] names (rule_of template start)"

definition example_plans :: "rename_plan list" where
  "example_plans =
     [\<lparr>rp_from = [''p'', ''a.txt''], rp_to = [''p'', ''x_1.txt''], rp_conflict = True\<rparr>,
      \<lparr>rp_from = [''p'', ''b.txt''], rp_to = [''p'', ''x_2.txt''], rp_conflict = False\<rparr>]"

lemma example_plans_built: "photo_plan [''a.txt'', ''b.txt''] ''x_{n}{ext}'' 1 = Inr example_plans"
  by code_simp

lemma photo_wf: "disk_wf photo_disk"
  unfolding photo_disk_def by (rule disk_of_wf) code_simp+

lemma plain_agree: "keys_agree plain_env plain_fs"
  by (simp add: keys_agree_def plain_env_def plain_fs_def)

definition quiet_port :: "(disk \<Rightarrow> path \<Rightarrow> path \<Rightarrow> bool) \<Rightarrow> disk_port" where
  "quiet_port ren =
     \<lparr>dp_walk = (\<lambda>_ _. ([], True)), dp_open = (\<lambda>_. True), dp_create = (\<lambda>_. True), dp_mkdir = (\<lambda>_. True),
      dp_remove = (\<lambda>_. True), dp_read = (\<lambda>_ _. Some 4095), dp_write = (\<lambda>_ _. None), dp_rename = ren,
      dp_keeps = (\<lambda>_ _. False), dp_rmtree_ok = (\<lambda>_. True), dp_store_ok = True\<rparr>"

lemma existing_only_port: "renames_existing (quiet_port existing_only)"
  by (simp add: renames_existing_def existing_only_def quiet_port_def)

lemma example_in_folder: "in_folder [''p''] example_plans"
  by (simp add: in_folder_def example_plans_def)

lemma example_applied:
  "fst (apply_plan plain_fs (quiet_port existing_only) example_plans 0 photo_disk) = Inr 1"
  by code_simp

theorem rename_loses_nothing_witness:
  "\<exists>g. inj_on g (dom (dk_files photo_disk))
    \<and> dom (dk_files (snd (apply_plan plain_fs (quiet_port existing_only) example_plans 0 photo_disk))) = g ` dom (dk_files photo_disk)"
proof -
  obtain res d' where a: "apply_plan plain_fs (quiet_port existing_only) example_plans 0 photo_disk = (res, d')" by fastforce
  show ?thesis
    using rename_loses_nothing [OF example_plans_built [unfolded photo_plan_def] plain_agree photo_wf example_in_folder existing_only_port a] a
    by auto
qed

lemma rename_follows_plan_witness:
  "dk_files (snd (apply_plan plain_fs (quiet_port existing_only) example_plans 0 photo_disk)) [''p'', ''x_2.txt''] = Some [2]"
proof -
  obtain d' where a: "apply_plan plain_fs (quiet_port existing_only) example_plans 0 photo_disk = (Inr 1, d')"
    using example_applied by (cases "apply_plan plain_fs (quiet_port existing_only) example_plans 0 photo_disk") auto
  have act: "filter active_plan example_plans = [\<lparr>rp_from = [''p'', ''b.txt''], rp_to = [''p'', ''x_2.txt''], rp_conflict = False\<rparr>]"
    by code_simp
  have keys: "disk_key plain_fs [''p'', ''b.txt''] = [''p'', ''b.txt'']" "disk_key plain_fs [''p'', ''x_2.txt''] = [''p'', ''x_2.txt'']"
    by code_simp+
  have "dk_exists photo_disk [''p'', ''b.txt'']" "dk_files photo_disk [''p'', ''b.txt''] = Some [2]" by code_simp+
  then show ?thesis
    using rename_follows_plan [OF example_plans_built [unfolded photo_plan_def] plain_agree photo_wf example_in_folder existing_only_port a] a act keys
    by (auto dest!: spec [of _ "[] :: path"])
qed

text \<open>Names that end in the drive of a path leave the folder; the check looks for separators and \<open>..\<close> only.\<close>

lemma rename_leaves_folder:
  "photo_plan [''b.txt''] ''c:{name}{ext}'' 1
    = Inr [\<lparr>rp_from = [''p'', ''b.txt''], rp_to = [''c:'', ''b.txt''], rp_conflict = False\<rparr>]"
  by code_simp

text \<open>A file system that drops the dots at the end of a name takes two targets of one plan for the same
  name; the plan, which compares them in lower case, sees no conflict, and the second file replaces the first.\<close>

definition dot_fs :: case_fs where
  "dot_fs = \<lparr>cf_key = (\<lambda>s. rev (dropWhile (\<lambda>c. c = CHR ''.'') (rev s))), cf_canonical = (\<lambda>_. True)\<rparr>"

definition dotted_disk :: disk where
  "dotted_disk = disk_of [([''p'', ''x.1''], [1]), ([''p'', ''x..2''], [2])] [[], [''p'']]"

lemma folded_targets_collide:
  "case build_plan plain_env dot_fs dotted_disk (\<lambda>_. Inr []) [''p''] [''x.1'', ''x..2''] (rule_of ''{name}'' 1) of
     Inl _ \<Rightarrow> False
   | Inr plans \<Rightarrow>
       map rp_conflict plans = [False, False]
       \<and> (case apply_plan dot_fs (quiet_port existing_only) plans 0 dotted_disk of (res, d') \<Rightarrow>
            res = Inr 2 \<and> map (dk_files d') [[''p'', ''x.1''], [''p'', ''x..2''], [''p'', ''x'']] = [None, None, Some [2]])"
  by code_simp

text \<open>The number of a file is computed in 32 bits and starts over at zero.\<close>

lemma number_wraps:
  "new_name plain_env None (rule_of ''{n}{ext}'' 4294967295) 1 ''b.txt'' = Inr ''0.txt''"
  by code_simp

text \<open>When a rename fails, the answer does not tell that earlier ones were carried out.\<close>

lemma failed_apply_hides_done:
  "case apply_plan plain_fs (quiet_port existing_only)
      [\<lparr>rp_from = [''p'', ''b.txt''], rp_to = [''p'', ''c.txt''], rp_conflict = False\<rparr>,
       \<lparr>rp_from = [''p'', ''b.txt''], rp_to = [''p'', ''d.txt''], rp_conflict = False\<rparr>] 0 photo_disk of
     (Inl e, d') \<Rightarrow> e = RenameIo [''p'', ''b.txt''] [''p'', ''d.txt''] \<and> dk_files d' [''p'', ''c.txt''] = Some [2]
   | _ \<Rightarrow> False"
  by code_simp

end
