(* ===== verification/Automation_Rules.thy ===== *)
theory Automation_Rules
  imports Str Complex_Main
begin

text \<open>
  The rules of the automation engine (\<open>crates/automation-core/src/rule.rs\<close>): triggers, the
  restricted expressions over an event's payload, actions and the validation of a rule.  A JSON
  number's \<open>as_f64\<close> is the argument \<open>num\<close>; the object of a JSON value lists its entries in the
  map's order, so structural equality is serde's.
\<close>

datatype trigger = Event string | Startup | Schedule string

datatype cmp_op = Eq | Ne | Gt | Lt | Contains

datatype expr =
    Cmp string cmp_op json
  | And "expr list"
  | Or "expr list"
  | Neg expr

fun is_number :: "json \<Rightarrow> bool" where
  "is_number (JInt _) \<longleftrightarrow> True"
| "is_number (JFloat _) \<longleftrightarrow> True"
| "is_number _ \<longleftrightarrow> False"

fun get_segs :: "json \<Rightarrow> string list \<Rightarrow> json option" where
  "get_segs v [] = Some v"
| "get_segs v (seg # segs) =
     (case v of
        JObj kvs \<Rightarrow> (case map_of kvs seg of None \<Rightarrow> None | Some n \<Rightarrow> get_segs n segs)
      | JArr items \<Rightarrow>
          (case parse_uint (2 ^ 64) seg of
             None \<Rightarrow> None
           | Some i \<Rightarrow> if i < length items then get_segs (items ! i) segs else None)
      | _ \<Rightarrow> None)"

definition get_path :: "json \<Rightarrow> string \<Rightarrow> json option" where
  "get_path v path = get_segs v (split_on (\<lambda>c. c = CHR ''.'') path)"

definition json_eq :: "(json \<Rightarrow> real) \<Rightarrow> json \<Rightarrow> json \<Rightarrow> bool" where
  "json_eq num a b = (if is_number a \<and> is_number b then num a = num b else a = b)"

definition compare_values :: "(json \<Rightarrow> real) \<Rightarrow> json option \<Rightarrow> cmp_op \<Rightarrow> json \<Rightarrow> bool" where
  "compare_values num actual cmp expect =
     (case actual of
        None \<Rightarrow> cmp = Ne
      | Some a \<Rightarrow>
          (case cmp of
             Eq \<Rightarrow> json_eq num a expect
           | Ne \<Rightarrow> \<not> json_eq num a expect
           | Gt \<Rightarrow>
               if is_number a \<and> is_number expect then num expect < num a
               else (case (a, expect) of (JStr x, JStr y) \<Rightarrow> y < x | _ \<Rightarrow> False)
           | Lt \<Rightarrow>
               if is_number a \<and> is_number expect then num a < num expect
               else (case (a, expect) of (JStr x, JStr y) \<Rightarrow> x < y | _ \<Rightarrow> False)
           | Contains \<Rightarrow>
               (case a of
                  JStr h \<Rightarrow> (case expect of JStr n \<Rightarrow> str_contains h n | _ \<Rightarrow> False)
                | JArr items \<Rightarrow> list_ex (\<lambda>i. json_eq num i expect) items
                | _ \<Rightarrow> False)))"

fun expr_eval :: "(json \<Rightarrow> real) \<Rightarrow> json \<Rightarrow> expr \<Rightarrow> bool" where
  "expr_eval num payload (Cmp path cmp v) = compare_values num (get_path payload path) cmp v"
| "expr_eval num payload (And es) = list_all (expr_eval num payload) es"
| "expr_eval num payload (Or es) = list_ex (expr_eval num payload) es"
| "expr_eval num payload (Neg e) = (\<not> expr_eval num payload e)"

datatype action =
    Publish string json
  | Notify string string
  | OpenUrl string
  | IpcCommand string string json
  | RunScript string string

record rule =
  ru_id :: string
  ru_name :: string
  ru_on :: trigger
  ru_when :: "expr option"
  ru_then :: "action list"
  ru_cooldown_secs :: nat
  ru_enabled :: bool

datatype rule_error = EmptyTopic | UnknownTopic string | BadTime string | NoActions | EmptyName

definition time_ok :: "string \<Rightarrow> bool" where
  "time_ok time =
     (case split_on (\<lambda>c. c = CHR '':'') time of
        [h, m] \<Rightarrow>
          length h = 2 \<and> length m = 2
          \<and> unwrap_or False (map_option (\<lambda>v. v < 24) (parse_uint 256 h))
          \<and> unwrap_or False (map_option (\<lambda>v. v < 60) (parse_uint 256 m))
      | _ \<Rightarrow> False)"

definition rule_validate :: "string list \<Rightarrow> rule \<Rightarrow> rule_error + unit" where
  "rule_validate topics r =
     res_bind
       (case ru_on r of
          Event topic \<Rightarrow>
            if str_trim topic = [] then Inl EmptyTopic
            else if topic \<notin> set topics then Inl (UnknownTopic topic) else Inr ()
        | Schedule time \<Rightarrow> if time_ok time then Inr () else Inl (BadTime time)
        | Startup \<Rightarrow> Inr ())
       (\<lambda>_. if ru_then r = [] then Inl NoActions
            else if str_trim (ru_name r) = [] then Inl EmptyName else Inr ())"

definition matches_event :: "rule \<Rightarrow> string \<Rightarrow> bool" where
  "matches_event r topic = (ru_on r = Event topic)"

definition when_passes :: "(json \<Rightarrow> real) \<Rightarrow> rule \<Rightarrow> json \<Rightarrow> bool" where
  "when_passes num r payload = unwrap_or True (map_option (expr_eval num payload) (ru_when r))"

section \<open>Facts about expressions\<close>

text \<open>The negation normal form: negations pushed to the comparisons, where they stay unless the
  comparison is an equality or its negation.\<close>

fun nnf :: "bool \<Rightarrow> expr \<Rightarrow> expr" where
  "nnf neg (Cmp p c v) =
     (if \<not> neg then Cmp p c v
      else if c = Eq then Cmp p Ne v else if c = Ne then Cmp p Eq v else Neg (Cmp p c v))"
| "nnf neg (And es) = (if neg then Or (map (nnf True) es) else And (map (nnf False) es))"
| "nnf neg (Or es) = (if neg then And (map (nnf True) es) else Or (map (nnf False) es))"
| "nnf neg (Neg e) = nnf (\<not> neg) e"

lemma compare_Eq_Ne: "compare_values num a Ne v = (\<not> compare_values num a Eq v)"
  by (cases a) (simp_all add: compare_values_def)

text \<open>Conditions obey the laws of logic even for missing paths: pushing every negation inwards by
  De Morgan's rules, turning a negated equality into an inequality and the reverse, never changes
  when a rule fires, on any payload.\<close>

lemma conditions_obey_de_morgan:
  "expr_eval num payload (nnf neg e) = (expr_eval num payload e \<noteq> neg)"
proof (induction neg e rule: nnf.induct)
  case (1 neg p c v)
  then show ?case using compare_Eq_Ne [of num "get_path payload p" v] by simp
qed (auto simp: list_all_iff list_ex_iff)

definition hhmm :: "nat \<Rightarrow> nat \<Rightarrow> string" where
  "hhmm h m = [digit_char (h div 10), digit_char (h mod 10), CHR '':'', digit_char (m div 10), digit_char (m mod 10)]"

text \<open>Validation accepts a time that no clock shows: the hour may be written with a plus sign, the
  rule is stored, and the text the scheduler compares it with is never equal to it.\<close>

lemma plus_time_accepted:
  "rule_validate topics (r\<lparr>ru_on := Schedule ''+5:30'', ru_then := [a], ru_name := ''x''\<rparr>) = Inr ()
   \<and> hhmm (h mod 24) (m mod 60) \<noteq> ''+5:30''"
proof
  have "time_ok ''+5:30''" "str_trim ''x'' \<noteq> []" by code_simp+
  then show "rule_validate topics (r\<lparr>ru_on := Schedule ''+5:30'', ru_then := [a], ru_name := ''x''\<rparr>) = Inr ()"
    by (simp add: rule_validate_def)
  have "h mod 24 div 10 < 10" by simp
  then show "hhmm (h mod 24) (m mod 60) \<noteq> ''+5:30''"
    using digit_char_props(3) by (auto simp: hhmm_def)
qed

end
