(* ===== verification/Automation_Engine.thy ===== *)
theory Automation_Engine
  imports Automation_Rules
begin

text \<open>
  Running the rules (\<open>engine.rs\<close>, \<open>history.rs\<close> and the scheduling and storage of \<open>module.rs\<close> in
  \<open>crates/automation-core\<close>): the cooldown table, an action with its retries, a fired rule with its
  dead letters and its history record, replay, the history ring with its file, the rule store and
  the daily schedule.  The action handler, which reaches the rest of the host, is an argument with
  its own state; so is the supply of identifiers.
\<close>

section \<open>Cooldown\<close>

definition default_cooldown_secs :: nat where "default_cooldown_secs = 5"
definition action_retries :: nat where "action_retries = 2"
definition dead_letter_cap :: nat where "dead_letter_cap = 100"
definition history_cap :: nat where "history_cap = 500"

record cooldown_table =
  ct_last :: "string \<Rightarrow> int option"
  ct_suppressed :: nat

definition cooldown_new :: cooldown_table where
  "cooldown_new = \<lparr>ct_last = Map.empty, ct_suppressed = 0\<rparr>"

text \<open>The gate in milliseconds: a 64-bit product, read as a signed number.\<close>

definition gate_ms :: "nat \<Rightarrow> int" where
  "gate_ms secs = wrap_i64 (int (((if secs = 0 then default_cooldown_secs else secs) * 1000) mod 2 ^ 64))"

definition try_fire :: "cooldown_table \<Rightarrow> string \<Rightarrow> nat \<Rightarrow> int \<Rightarrow> bool \<times> cooldown_table" where
  "try_fire ct rid secs now =
     (case ct_last ct rid of
        Some prev \<Rightarrow>
          if wrap_i64 (now - prev) < gate_ms secs
          then (False, ct\<lparr>ct_suppressed := ct_suppressed ct + 1\<rparr>)
          else (True, ct\<lparr>ct_last := (ct_last ct)(rid \<mapsto> now)\<rparr>)
      | None \<Rightarrow> (True, ct\<lparr>ct_last := (ct_last ct)(rid \<mapsto> now)\<rparr>))"

section \<open>Actions\<close>

record 'h action_handler =
  ah_open_url :: "string \<Rightarrow> 'h \<Rightarrow> (string + unit) \<times> 'h"
  ah_publish :: "string \<Rightarrow> json \<Rightarrow> 'h \<Rightarrow> (string + unit) \<times> 'h"
  ah_ipc_command :: "string \<Rightarrow> string \<Rightarrow> json \<Rightarrow> 'h \<Rightarrow> (string + unit) \<times> 'h"
  ah_run_wasm :: "string \<Rightarrow> string \<Rightarrow> 'h \<Rightarrow> (string + unit) \<times> 'h"

definition exec_action :: "'h action_handler \<Rightarrow> rule \<Rightarrow> action \<Rightarrow> 'h \<Rightarrow> (string + unit) \<times> 'h" where
  "exec_action ah r a =
     (case a of
        Publish topic payload \<Rightarrow> ah_publish ah topic payload
      | Notify title body \<Rightarrow>
          ah_publish ah ''automation.notify''
            (JObj [(''rule_id'', JStr (ru_id r)), (''title'', JStr title), (''body'', JStr body)])
      | OpenUrl url \<Rightarrow> ah_open_url ah url
      | IpcCommand m c args \<Rightarrow> ah_ipc_command ah m c args
      | RunScript path func \<Rightarrow> ah_run_wasm ah path func)"

text \<open>The attempts: the result of the last one, and how many were made.\<close>

fun attempts :: "('h \<Rightarrow> (string + unit) \<times> 'h) \<Rightarrow> nat \<Rightarrow> 'h \<Rightarrow> (string + unit) \<times> nat \<times> 'h" where
  "attempts exec 0 h = (case exec h of (res, h1) \<Rightarrow> (res, 1, h1))"
| "attempts exec (Suc n) h =
     (case exec h of
        (Inr u, h1) \<Rightarrow> (Inr u, 1, h1)
      | (Inl _, h1) \<Rightarrow> (case attempts exec n h1 of (res, k, h2) \<Rightarrow> (res, Suc k, h2)))"

record dead_letter =
  dl_id :: string
  dl_rule_id :: string
  dl_rule_name :: string
  dl_action :: action
  dl_error :: string
  dl_at_ms :: int

text \<open>One action: what it returned, the dead letter of a failure, the handler afterwards.  \<open>uid\<close> is
  the identifier a dead letter gets.\<close>

definition run_action ::
    "'h action_handler \<Rightarrow> string \<Rightarrow> action \<Rightarrow> rule \<Rightarrow> int \<Rightarrow> 'h \<Rightarrow> (string \<times> dead_letter) option \<times> 'h" where
  "run_action ah uid a r now h =
     (case attempts (exec_action ah r a) action_retries h of
        (Inr _, _, h1) \<Rightarrow>
          (None, snd (ah_publish ah ''automation.rule_fired''
             (JObj [(''rule_id'', JStr (ru_id r)), (''rule_name'', JStr (ru_name r))]) h1))
      | (Inl e, _, h1) \<Rightarrow>
          (Some (e, \<lparr>dl_id = uid, dl_rule_id = ru_id r, dl_rule_name = ru_name r, dl_action = a,
             dl_error = e, dl_at_ms = now\<rparr>), h1))"

text \<open>All actions of a rule in their order, with the index of each.\<close>

fun run_actions ::
    "'h action_handler \<Rightarrow> (nat \<Rightarrow> string) \<Rightarrow> rule \<Rightarrow> int \<Rightarrow> nat \<Rightarrow> action list \<Rightarrow> 'h
       \<Rightarrow> (nat \<times> string \<times> dead_letter) list \<times> 'h" where
  "run_actions ah uid r now i [] h = ([], h)"
| "run_actions ah uid r now i (a # as) h =
     (case run_action ah (uid i) a r now h of
        (f, h1) \<Rightarrow>
          (case run_actions ah uid r now (Suc i) as h1 of
             (fs, h2) \<Rightarrow> ((case f of None \<Rightarrow> fs | Some (e, d) \<Rightarrow> (i, e, d) # fs), h2)))"

section \<open>History\<close>

datatype run_outcome = Success | Partial "nat list" | Failure

record run_record =
  rr_rule_id :: string
  rr_fired_ms :: int
  rr_outcome :: run_outcome
  rr_actions_executed :: nat
  rr_duration_ms :: nat
  rr_error :: "string option"

text \<open>A file holds a value or bytes that do not parse.\<close>

datatype 'v stored = Absent | Broken | Stored 'v

record history =
  hi_records :: "run_record list"
  hi_file :: "run_record list stored"
  hi_corrupt_renamed :: bool
  hi_write_ok :: bool

definition history_open :: "run_record list stored \<Rightarrow> bool \<Rightarrow> bool \<Rightarrow> history" where
  "history_open file rename_ok write_ok =
     (case file of
        Absent \<Rightarrow> \<lparr>hi_records = [], hi_file = Absent, hi_corrupt_renamed = False, hi_write_ok = write_ok\<rparr>
      | Stored v \<Rightarrow> \<lparr>hi_records = v, hi_file = Stored v, hi_corrupt_renamed = False, hi_write_ok = write_ok\<rparr>
      | Broken \<Rightarrow>
          \<lparr>hi_records = [], hi_file = (if rename_ok then Absent else Broken),
           hi_corrupt_renamed = rename_ok, hi_write_ok = write_ok\<rparr>)"

definition history_push :: "history \<Rightarrow> run_record \<Rightarrow> history" where
  "history_push hi rec =
     (let v = hi_records hi @ [rec]; snapshot = drop (length v - history_cap) v in
      hi\<lparr>hi_records := snapshot, hi_file := (if hi_write_ok hi then Stored snapshot else hi_file hi)\<rparr>)"

definition history_runs :: "history \<Rightarrow> nat option \<Rightarrow> run_record list" where
  "history_runs hi limit =
     (let want = min (unwrap_or history_cap limit) history_cap; v = hi_records hi in
      if length v \<le> want then v else drop (length v - want) v)"

section \<open>The engine\<close>

record rule_engine =
  re_dead :: "dead_letter list"
  re_cooldown :: cooldown_table
  re_history :: history
  re_dead_file :: "dead_letter list stored"
  re_dead_write_ok :: bool

definition persist_dead :: "rule_engine \<Rightarrow> rule_engine" where
  "persist_dead en =
     (if re_dead_write_ok en then en\<lparr>re_dead_file := Stored (re_dead en)\<rparr> else en)"

definition load_dead :: "dead_letter list stored \<Rightarrow> bool \<Rightarrow> dead_letter list \<times> dead_letter list stored" where
  "load_dead file rename_ok =
     (case file of
        Absent \<Rightarrow> ([], Absent)
      | Stored v \<Rightarrow> (v, Stored v)
      | Broken \<Rightarrow> ([], if rename_ok then Absent else Broken))"

definition engine_new :: "history \<Rightarrow> dead_letter list stored \<Rightarrow> bool \<Rightarrow> bool \<Rightarrow> rule_engine" where
  "engine_new hi file rename_ok write_ok =
     (case load_dead file rename_ok of
        (dead, file1) \<Rightarrow>
          \<lparr>re_dead = dead, re_cooldown = cooldown_new, re_history = hi, re_dead_file = file1,
           re_dead_write_ok = write_ok\<rparr>)"

definition outcome_of :: "nat \<Rightarrow> nat list \<Rightarrow> run_outcome" where
  "outcome_of n failed =
     (if failed = [] then Success else if length failed = n then Failure else Partial failed)"

definition fire ::
    "(json \<Rightarrow> real) \<Rightarrow> 'h action_handler \<Rightarrow> (nat \<Rightarrow> string) \<Rightarrow> nat \<Rightarrow> rule_engine \<Rightarrow> rule \<Rightarrow> json \<Rightarrow> int \<Rightarrow> 'h
       \<Rightarrow> rule_engine \<times> 'h" where
  "fire num ah uid duration en r payload now h =
     (if \<not> when_passes num r payload then (en, h)
      else
        (case try_fire (re_cooldown en) (ru_id r) (ru_cooldown_secs r) now of
           (False, ct) \<Rightarrow> (en\<lparr>re_cooldown := ct\<rparr>, h)
         | (True, ct) \<Rightarrow>
             (case run_actions ah uid r now 0 (ru_then r) h of
                (fs, h1) \<Rightarrow>
                  let rec = \<lparr>rr_rule_id = ru_id r, rr_fired_ms = now,
                        rr_outcome = outcome_of (length (ru_then r)) (map fst fs),
                        rr_actions_executed = length (ru_then r), rr_duration_ms = duration,
                        rr_error = (case fs of [] \<Rightarrow> None | (_, e, _) # _ \<Rightarrow> Some e)\<rparr>;
                      en1 = en\<lparr>re_cooldown := ct, re_history := history_push (re_history en) rec\<rparr>
                  in if fs = [] then (en1, h1)
                     else
                       let q = re_dead en @ map (snd \<circ> snd) fs in
                       (persist_dead (en1\<lparr>re_dead := drop (length q - dead_letter_cap) q\<rparr>), h1))))"

definition replay ::
    "'h action_handler \<Rightarrow> string \<Rightarrow> rule_engine \<Rightarrow> string \<Rightarrow> rule \<Rightarrow> int \<Rightarrow> 'h
       \<Rightarrow> (string + unit) \<times> rule_engine \<times> 'h" where
  "replay ah uid en dead_id r now h =
     (case find (\<lambda>d. dl_id d = dead_id) (re_dead en) of
        None \<Rightarrow> (Inl dead_id, en, h)
      | Some d \<Rightarrow>
          (case run_action ah uid (dl_action d) r now h of
             (f, h1) \<Rightarrow>
               let kept = filter (\<lambda>d. dl_id d \<noteq> dead_id) (re_dead en) in
               (Inr (), persist_dead (en\<lparr>re_dead := kept @ (case f of None \<Rightarrow> [] | Some (_, d') \<Rightarrow> [d'])\<rparr>), h1)))"

definition clear_dead :: "rule_engine \<Rightarrow> rule_engine" where
  "clear_dead en = persist_dead (en\<lparr>re_dead := []\<rparr>)"

section \<open>Properties of the engine\<close>

lemma attempts_bound: "attempts exec n h = (res, k, h') \<Longrightarrow> k \<le> Suc n \<and> (\<forall>e. res = Inl e \<longrightarrow> k = Suc n)"
  by (induction n arbitrary: h res k h') (fastforce split: prod.splits sum.splits)+

lemma run_actions_index:
  "run_actions ah uid r now i as h = (fs, h') \<Longrightarrow>
     sorted_wrt (<) (map fst fs) \<and> (\<forall>(j, e, d)\<in>set fs. i \<le> j \<and> j < i + length as
       \<and> dl_action d = as ! (j - i) \<and> dl_error d = e \<and> dl_rule_id d = ru_id r \<and> dl_id d = uid j \<and> dl_at_ms d = now)"
proof (induction "as" arbitrary: i h fs h')
  case (Cons a as)
  obtain f h1 where f: "run_action ah (uid i) a r now h = (f, h1)" by (cases "run_action ah (uid i) a r now h")
  obtain gs h2 where gs: "run_actions ah uid r now (Suc i) as h1 = (gs, h2)"
    by (cases "run_actions ah uid r now (Suc i) as h1")
  have fs: "fs = (case f of None \<Rightarrow> gs | Some (e, d) \<Rightarrow> (i, e, d) # gs)"
    using Cons.prems f gs by simp
  have head: "dl_action d = a \<and> dl_error d = e \<and> dl_rule_id d = ru_id r \<and> dl_id d = uid i \<and> dl_at_ms d = now"
    if "f = Some (e, d)" for e d
    using f that by (auto simp: run_action_def split: prod.splits sum.splits)
  have tail: "sorted_wrt (<) (map fst gs)" "\<forall>(j, e, d)\<in>set gs. Suc i \<le> j \<and> j < Suc i + length as
       \<and> dl_action d = as ! (j - Suc i) \<and> dl_error d = e \<and> dl_rule_id d = ru_id r \<and> dl_id d = uid j \<and> dl_at_ms d = now"
    using Cons.IH [OF gs] by simp_all
  have shift: "as ! (j - Suc i) = (a # as) ! (j - i)" if "Suc i \<le> j" for j
  proof -
    have "j - i = Suc (j - Suc i)" using that by arith
    then show ?thesis by simp
  qed
  have tail': "\<forall>(j, e, d)\<in>set gs. i \<le> j \<and> j < i + length (a # as)
       \<and> dl_action d = (a # as) ! (j - i) \<and> dl_error d = e \<and> dl_rule_id d = ru_id r \<and> dl_id d = uid j \<and> dl_at_ms d = now"
    using tail(2) shift by (auto split: prod.splits)
  show ?case
  proof (cases f)
    case None
    then show ?thesis using fs tail(1) tail' by simp
  next
    case (Some p)
    then obtain e d where p: "f = Some (e, d)" by (cases p) auto
    have "\<forall>j\<in>set (map fst gs). i < j" using tail(2) by auto
    then show ?thesis using fs tail(1) tail' head [OF p] p by simp
  qed
qed simp

text \<open>What running an action means: executions up to the first that succeeds, which is announced, or as many
  failures in a row as are allowed, the last of which gives the error.\<close>

inductive fails :: "('h \<Rightarrow> (string + unit) \<times> 'h) \<Rightarrow> nat \<Rightarrow> 'h \<Rightarrow> string \<Rightarrow> 'h \<Rightarrow> bool" where
  fails_last: "exec h = (Inl e, h1) \<Longrightarrow> fails exec 1 h e h1"
| fails_more: "exec h = (Inl e', h1) \<Longrightarrow> fails exec k h1 e h2 \<Longrightarrow> fails exec (Suc k) h e h2"

definition announced :: "'h action_handler \<Rightarrow> rule \<Rightarrow> 'h \<Rightarrow> 'h" where
  "announced ah r h =
     snd (ah_publish ah ''automation.rule_fired'' (JObj [(''rule_id'', JStr (ru_id r)), (''rule_name'', JStr (ru_name r))]) h)"

inductive action_run :: "'h action_handler \<Rightarrow> rule \<Rightarrow> action \<Rightarrow> 'h \<Rightarrow> string + unit \<Rightarrow> 'h \<Rightarrow> bool" where
  ran: "exec_action ah r a h = (Inr u, h1) \<Longrightarrow> action_run ah r a h (Inr ()) (announced ah r h1)"
| ran_again: "fails (exec_action ah r a) k h e h1 \<Longrightarrow> k \<le> action_retries \<Longrightarrow> exec_action ah r a h1 = (Inr u, h2) \<Longrightarrow>
    action_run ah r a h (Inr ()) (announced ah r h2)"
| gave_up: "fails (exec_action ah r a) (Suc action_retries) h e h1 \<Longrightarrow> action_run ah r a h (Inl e) h1"

inductive actions_run :: "'h action_handler \<Rightarrow> rule \<Rightarrow> action list \<Rightarrow> 'h \<Rightarrow> (string + unit) list \<Rightarrow> 'h \<Rightarrow> bool" where
  no_action: "actions_run ah r [] h [] h"
| next_action: "action_run ah r a h res h1 \<Longrightarrow> actions_run ah r as h1 ress h2 \<Longrightarrow> actions_run ah r (a # as) h (res # ress) h2"

definition failed_at :: "(string + unit) list \<Rightarrow> nat list" where
  "failed_at ress = filter (\<lambda>i. \<exists>e. ress ! i = Inl e) [0..<length ress]"

fun errors_of :: "(string + unit) list \<Rightarrow> string list" where
  "errors_of [] = []"
| "errors_of (Inl e # ress) = e # errors_of ress"
| "errors_of (Inr _ # ress) = errors_of ress"

lemma failed_at_Cons:
  "failed_at (res # ress) = (case res of Inl e \<Rightarrow> [0] | Inr _ \<Rightarrow> []) @ map Suc (failed_at ress)"
proof -
  have "[0..<length (res # ress)] = 0 # map Suc [0..<length ress]" by (simp add: upt_conv_Cons map_Suc_upt del: upt_Suc)
  then show ?thesis by (simp add: failed_at_def filter_map comp_def split: sum.splits)
qed

lemma attempts_failed: "attempts exec n h = (Inl e, k, h') \<Longrightarrow> fails exec (Suc n) h e h'"
  by (induction n arbitrary: h k) (auto intro: fails.intros fails_last [unfolded One_nat_def] split: prod.splits sum.splits)

lemma attempts_succeeded:
  "attempts exec n h = (Inr u, k, h') \<Longrightarrow>
     exec h = (Inr u, h') \<or> (\<exists>m e h1. m \<le> n \<and> fails exec m h e h1 \<and> exec h1 = (Inr u, h'))"
proof (induction n arbitrary: h k)
  case (Suc n)
  obtain x h1 where x: "exec h = (x, h1)" by (cases "exec h")
  show ?case
  proof (cases x)
    case (Inl e)
    then obtain k' where "attempts exec n h1 = (Inr u, k', h')" using Suc.prems x by (auto split: prod.splits)
    from Suc.IH [OF this] show ?thesis
    proof (elim disjE exE conjE)
      assume "exec h1 = (Inr u, h')"
      then show ?thesis using x Inl fails_last [of exec h e h1] by (intro disjI2) (metis One_nat_def Suc_le_mono le0)
    next
      fix m e' h2 assume "m \<le> n" "fails exec m h1 e' h2" "exec h2 = (Inr u, h')"
      then show ?thesis using x Inl fails_more [of exec h e h1 m e' h2] by (intro disjI2) (metis Suc_le_mono)
    qed
  qed (use Suc.prems x in auto)
qed (auto split: prod.splits)

lemma run_action_runs:
  assumes "run_action ah i a r now h = (f, h1)"
  shows "action_run ah r a h (case f of None \<Rightarrow> Inr () | Some (e, d) \<Rightarrow> Inl e) h1"
proof -
  obtain x k h2 where x: "attempts (exec_action ah r a) action_retries h = (x, k, h2)" by (cases "attempts (exec_action ah r a) action_retries h")
  show ?thesis
  proof (cases x)
    case (Inl e)
    then show ?thesis using assms x gave_up [OF attempts_failed] by (auto simp: run_action_def)
  next
    case (Inr u)
    then have f: "f = None" "h1 = announced ah r h2" using assms x by (simp_all add: run_action_def announced_def)
    show ?thesis using attempts_succeeded [OF x [unfolded Inr]] f by (auto intro: ran ran_again)
  qed
qed

lemma run_actions_run:
  "run_actions ah uid r now i as h = (fs, h') \<Longrightarrow>
     \<exists>ress. actions_run ah r as h ress h' \<and> map fst fs = map ((+) i) (failed_at ress)
       \<and> map (\<lambda>f. fst (snd f)) fs = errors_of ress"
proof (induction "as" arbitrary: i h fs h')
  case Nil
  then show ?case by (intro exI [of _ "[]"]) (auto intro: no_action simp: failed_at_def)
next
  case (Cons a as)
  obtain f h1 where f: "run_action ah (uid i) a r now h = (f, h1)" by (cases "run_action ah (uid i) a r now h")
  obtain gs h2 where gs: "run_actions ah uid r now (Suc i) as h1 = (gs, h2)" by (cases "run_actions ah uid r now (Suc i) as h1")
  have fs: "fs = (case f of None \<Rightarrow> gs | Some (e, d) \<Rightarrow> (i, e, d) # gs)" "h' = h2" using Cons.prems f gs by simp_all
  obtain ress where ress: "actions_run ah r as h1 ress h2" "map fst gs = map ((+) (Suc i)) (failed_at ress)"
    "map (\<lambda>f. fst (snd f)) gs = errors_of ress"
    using Cons.IH [OF gs] by blast
  have "map ((+) (Suc i)) (failed_at ress) = map ((+) i) (map Suc (failed_at ress))" by simp
  with ress next_action [OF run_action_runs [OF f] ress(1)] fs show ?case
    by (intro exI [of _ "(case f of None \<Rightarrow> Inr () | Some (e, d) \<Rightarrow> Inl e) # ress"])
       (auto simp: failed_at_Cons List.map_filter_simps split: option.splits)
qed

text \<open>C31. A fired rule is accounted for exactly.  Its actions run one after the other, each of them, the handler of
  one where the one before left it: up to three executions, until one succeeds, which is then
  announced.  The history gets one record, whose outcome is success, failure, or the list of the
  actions whose executions all failed, with the error of the first of these; the dead letters gain
  exactly one letter for each of them, in order, with the action and the error of its last execution,
  and if there were no more than the cap before, the oldest give way so that there are no more after.\<close>

theorem fire_accounts_for_every_action:
  assumes "when_passes num r payload"
    and "try_fire (re_cooldown en) (ru_id r) (ru_cooldown_secs r) now = (True, ct)"
    and "length (re_dead en) \<le> dead_letter_cap"
    and "fire num ah uid duration en r payload now h = (en', h')"
  shows "\<exists>ress letters. actions_run ah r (ru_then r) h ress h'
    \<and> map dl_action letters = map ((!) (ru_then r)) (failed_at ress) \<and> (\<forall>d\<in>set letters. dl_rule_id d = ru_id r)
    \<and> map dl_error letters = errors_of ress
    \<and> re_dead en' = drop (length (re_dead en @ letters) - dead_letter_cap) (re_dead en @ letters)
    \<and> length (re_dead en') \<le> dead_letter_cap
    \<and> (\<exists>rec. re_history en' = history_push (re_history en) rec \<and> rr_rule_id rec = ru_id r \<and> rr_fired_ms rec = now
         \<and> rr_actions_executed rec = length (ru_then r)
         \<and> rr_outcome rec = outcome_of (length (ru_then r)) (failed_at ress)
         \<and> rr_error rec = (case letters of [] \<Rightarrow> None | d # _ \<Rightarrow> Some (dl_error d)))"
proof -
  obtain fs h1 where fs: "run_actions ah uid r now 0 (ru_then r) h = (fs, h1)"
    by (cases "run_actions ah uid r now 0 (ru_then r) h")
  note idx = run_actions_index [OF fs]
  obtain ress where ress: "actions_run ah r (ru_then r) h ress h1" "map fst fs = failed_at ress"
    "map (\<lambda>f. fst (snd f)) fs = errors_of ress"
    using run_actions_run [OF fs] by (auto simp: map_idI)
  define letters where "letters = map (snd \<circ> snd) fs"
  have m: "map dl_action letters = map ((!) (ru_then r)) (failed_at ress)" "\<forall>d\<in>set letters. dl_rule_id d = ru_id r"
    "map dl_error letters = errors_of ress"
    unfolding ress(2,3) [symmetric] using idx by (auto simp: letters_def split: prod.splits)
  have err: "(case fs of [] \<Rightarrow> None | (_, e, _) # _ \<Rightarrow> Some e)
      = (case letters of [] \<Rightarrow> None | d # _ \<Rightarrow> Some (dl_error d))"
    using idx by (cases fs) (auto simp: letters_def)
  have e: "fs = [] \<longleftrightarrow> letters = []" by (simp add: letters_def)
  let ?rec = "\<lparr>rr_rule_id = ru_id r, rr_fired_ms = now, rr_outcome = outcome_of (length (ru_then r)) (failed_at ress),
      rr_actions_executed = length (ru_then r), rr_duration_ms = duration,
      rr_error = (case letters of [] \<Rightarrow> None | d # _ \<Rightarrow> Some (dl_error d))\<rparr>"
  have dead: "re_dead en' = drop (length (re_dead en @ letters) - dead_letter_cap) (re_dead en @ letters)"
    and hist: "re_history en' = history_push (re_history en) ?rec" and h: "h' = h1"
    using assms e
    by (auto simp: fire_def fs Let_def persist_dead_def err ress(2) [symmetric] letters_def [symmetric] split: if_splits)
  have "length (re_dead en') \<le> dead_letter_cap" unfolding dead by simp
  then show ?thesis using m ress(1) dead hist h by (intro exI [of _ ress] exI [of _ letters]) auto
qed

section \<open>The cooldown is enforced\<close>

fun fire_times :: "(string \<Rightarrow> nat) \<Rightarrow> cooldown_table \<Rightarrow> string \<Rightarrow> (string \<times> int) list \<Rightarrow> int list" where
  "fire_times secs ct rid [] = []"
| "fire_times secs ct rid ((i, t) # es) =
     (case try_fire ct i (secs i) t of
        (b, ct') \<Rightarrow> (if b \<and> i = rid then [t] else []) @ fire_times secs ct' rid es)"

lemma gate_exact: "secs * 1000 < 2 ^ 63 \<Longrightarrow> gate_ms secs = int (if secs = 0 then 5 else secs) * 1000"
  by (simp add: gate_ms_def wrap_i64_def default_cooldown_secs_def)

text \<open>C8. A rule never fires twice within its cooldown: in any sequence of firing attempts of any rules,
  two successive firings of one rule are at least its cooldown apart (five seconds when it has
  none), while the product fits the 63 bits of the comparison and the times are sane.\<close>

theorem cooldown_enforced:
  assumes "\<forall>(i, t)\<in>set es. 0 \<le> t \<and> t < 2 ^ 62" and "secs rid * 1000 < 2 ^ 63"
  shows "sorted_wrt (\<lambda>s t. s + int (if secs rid = 0 then 5 else secs rid) * 1000 \<le> t)
    (fire_times secs cooldown_new rid es)"
proof -
  let ?g = "gate_ms (secs rid)" and ?c = "int (if secs rid = 0 then 5 else secs rid) * 1000"
  have g: "?g = ?c" using gate_exact [OF assms(2)] .
  have "(\<forall>t. ct_last ct rid = Some t \<longrightarrow> 0 \<le> t \<and> t < 2 ^ 62) \<Longrightarrow> \<forall>(i, t)\<in>set es. 0 \<le> t \<and> t < 2 ^ 62 \<Longrightarrow>
      sorted_wrt (\<lambda>s t. s + ?g \<le> t) (fire_times secs ct rid es)
      \<and> (\<forall>t0. ct_last ct rid = Some t0 \<longrightarrow> (\<forall>t\<in>set (fire_times secs ct rid es). t0 + ?g \<le> t))" for ct
  proof (induction es arbitrary: ct)
    case (Cons e es)
    obtain i t where e: "e = (i, t)" by (cases e)
    obtain b ct' where f: "try_fire ct i (secs i) t = (b, ct')" by (cases "try_fire ct i (secs i) t")
    have t: "0 \<le> t" "t < 2 ^ 62" using Cons.prems(2) e by auto
    have keep: "ct_last ct' rid = ct_last ct rid" if "\<not> (b \<and> i = rid)"
      using f that by (auto simp: try_fire_def split: option.splits if_splits)
    have fresh: "ct_last ct' rid = Some t" if "b" "i = rid"
      using f that by (auto simp: try_fire_def split: option.splits if_splits)
    have late: "t0 + ?g \<le> t" if "b" "i = rid" "ct_last ct rid = Some t0" for t0
    proof -
      have "wrap_i64 (t - t0) = t - t0"
        using Cons.prems(1) that(3) t by (intro wrap_i64_id) auto
      then show ?thesis using f that by (auto simp: try_fire_def split: if_splits)
    qed
    have ih: "sorted_wrt (\<lambda>s t. s + ?g \<le> t) (fire_times secs ct' rid es)
      \<and> (\<forall>t0. ct_last ct' rid = Some t0 \<longrightarrow> (\<forall>t\<in>set (fire_times secs ct' rid es). t0 + ?g \<le> t))"
    proof (rule Cons.IH)
      show "\<forall>t. ct_last ct' rid = Some t \<longrightarrow> 0 \<le> t \<and> t < 2 ^ 62"
        using Cons.prems(1) keep fresh t by (cases "b \<and> i = rid") auto
    qed (use Cons.prems(2) in auto)
    have ft: "fire_times secs ct rid (e # es) = (if b \<and> i = rid then [t] else []) @ fire_times secs ct' rid es"
      by (simp add: e f)
    show ?case
    proof (cases "b \<and> i = rid")
      case True
      have "0 \<le> ?g" by (simp add: g)
      then have "\<forall>t0. ct_last ct rid = Some t0 \<longrightarrow> (\<forall>u\<in>set (fire_times secs ct' rid es). t0 + ?g \<le> u)"
        using ih late fresh True by force
      then show ?thesis using ih late fresh True unfolding ft by simp
    next
      case False
      then show ?thesis using ih keep unfolding ft by auto
    qed
  qed simp
  from this [of cooldown_new] show ?thesis using assms(1) by (simp add: g cooldown_new_def)
qed

text \<open>A cooldown whose product passes 64 bits wraps to a small gate.\<close>

lemma gate_wraps: "gate_ms 18446744073709552 = 384"
  by (simp add: gate_ms_def wrap_i64_def)

definition demo_handler :: "(string \<Rightarrow> bool) \<Rightarrow> string list action_handler" where
  "demo_handler ok =
     \<lparr>ah_open_url = (\<lambda>u h. (if ok u then Inr () else Inl u, h @ [u])),
      ah_publish = (\<lambda>topic payload h. (Inr (), h)),
      ah_ipc_command = (\<lambda>m c args h. (Inr (), h)),
      ah_run_wasm = (\<lambda>p f h. (Inr (), h))\<rparr>"

definition demo_rule :: rule where
  "demo_rule = \<lparr>ru_id = ''r'', ru_name = ''n'', ru_on = Startup, ru_when = None,
     ru_then = [OpenUrl ''a'', OpenUrl ''b''], ru_cooldown_secs = 0, ru_enabled = True\<rparr>"

definition demo_engine :: rule_engine where
  "demo_engine = engine_new (history_open Absent True True) Absent True True"

definition demo_fired :: "rule_engine \<times> string list" where
  "demo_fired = fire (\<lambda>_. 0) (demo_handler (\<lambda>u. u = ''b'')) (\<lambda>i. show_nat i) 7 demo_engine demo_rule JNull 1000 []"

theorem fire_accounts_for_every_action_witness:
  "map dl_action (re_dead (fst demo_fired)) = [OpenUrl ''a'']
   \<and> map rr_outcome (hi_records (re_history (fst demo_fired))) = [Partial [0]]
   \<and> snd demo_fired = [''a'', ''a'', ''a'', ''b'']
   \<and> length (re_dead (fst demo_fired)) \<le> dead_letter_cap"
proof -
  have f: "fire (\<lambda>_. 0) (demo_handler (\<lambda>u. u = ''b'')) (\<lambda>i. show_nat i) 7 demo_engine demo_rule JNull 1000 []
      = (fst demo_fired, snd demo_fired)"
    by (simp add: demo_fired_def)
  have ct: "try_fire (re_cooldown demo_engine) (ru_id demo_rule) (ru_cooldown_secs demo_rule) 1000
      = (True, snd (try_fire (re_cooldown demo_engine) (ru_id demo_rule) (ru_cooldown_secs demo_rule) 1000))"
    by (simp add: try_fire_def demo_engine_def engine_new_def load_dead_def cooldown_new_def)
  have "length (re_dead (fst demo_fired)) \<le> dead_letter_cap"
    using fire_accounts_for_every_action [OF _ ct _ f]
    by (auto simp: when_passes_def demo_rule_def demo_engine_def engine_new_def load_dead_def)
  moreover have "map dl_action (re_dead (fst demo_fired)) = [OpenUrl ''a'']"
    "map rr_outcome (hi_records (re_history (fst demo_fired))) = [Partial [0]]"
    "snd demo_fired = [''a'', ''a'', ''a'', ''b'']"
    by (simp_all add: demo_fired_def fire_def when_passes_def demo_rule_def demo_engine_def engine_new_def
        load_dead_def cooldown_new_def try_fire_def history_open_def history_push_def run_action_def
        action_retries_def exec_action_def demo_handler_def numeral_2_eq_2 Let_def persist_dead_def
        outcome_of_def history_cap_def dead_letter_cap_def)
  ultimately show ?thesis by blast
qed

theorem cooldown_enforced_witness:
  "fire_times (\<lambda>_. 2) cooldown_new ''r'' [(''r'', 0), (''q'', 500), (''r'', 1999), (''r'', 2000), (''r'', 5000)]
     = [0, 2000, 5000]
   \<and> sorted_wrt (\<lambda>s t. s + 2000 \<le> t) (fire_times (\<lambda>_. 2) cooldown_new ''r''
       [(''r'', 0), (''q'', 500), (''r'', 1999), (''r'', 2000), (''r'', 5000)])"
proof
  show "fire_times (\<lambda>_. 2) cooldown_new ''r'' [(''r'', 0), (''q'', 500), (''r'', 1999), (''r'', 2000), (''r'', 5000)]
     = [0, 2000, 5000]"
    by (simp add: try_fire_def cooldown_new_def gate_ms_def wrap_i64_def)
  show "sorted_wrt (\<lambda>s t. s + 2000 \<le> t) (fire_times (\<lambda>_. 2) cooldown_new ''r''
       [(''r'', 0), (''q'', 500), (''r'', 1999), (''r'', 2000), (''r'', 5000)])"
    using cooldown_enforced [of "[(''r'', 0), (''q'', 500), (''r'', 1999), (''r'', 2000), (''r'', 5000)]"
        "\<lambda>_. 2" "''r''"] by simp
qed

text \<open>A history file that does not parse is overwritten: when putting it aside fails, the engine
  starts with an empty ring as announced, but the next record replaces the file, so nothing of it
  is left.\<close>

lemma broken_history_overwritten:
  "hi_file (history_open Broken False True) = Broken
   \<and> hi_file (history_push (history_open Broken False True) rec) = Stored [rec]"
  by (simp add: history_open_def history_push_def history_cap_def Let_def)

section \<open>The rule store and its scheduled tasks\<close>

record rule_store =
  st_rules :: "rule list"
  st_file :: "rule list option"
  st_write_ok :: bool
  st_tasks :: "string \<Rightarrow> string option"
  st_tasks_ok :: bool

definition task_name_for :: "string \<Rightarrow> string" where
  "task_name_for rid = ''NexusForge_rule_'' @ rid"

definition sync_task :: "rule_store \<Rightarrow> rule \<Rightarrow> rule_store" where
  "sync_task s r =
     (if \<not> st_tasks_ok s then s
      else
        s\<lparr>st_tasks := (st_tasks s)(task_name_for (ru_id r) :=
           (if ru_enabled r then (case ru_on r of Schedule time \<Rightarrow> Some time | _ \<Rightarrow> None) else None))\<rparr>)"

definition store_persist :: "rule_store \<Rightarrow> (rule_error option + unit) \<times> rule_store" where
  "store_persist s = (if st_write_ok s then (Inr (), s\<lparr>st_file := Some (st_rules s)\<rparr>) else (Inl None, s))"

definition save_rule :: "string list \<Rightarrow> rule_store \<Rightarrow> rule \<Rightarrow> (rule_error option + unit) \<times> rule_store" where
  "save_rule topics s r =
     (case rule_validate topics r of
        Inl e \<Rightarrow> (Inl (Some e), s)
      | Inr _ \<Rightarrow>
          (case store_persist (s\<lparr>st_rules := filter (\<lambda>q. ru_id q \<noteq> ru_id r) (st_rules s) @ [r]\<rparr>) of
             (Inl e, s1) \<Rightarrow> (Inl e, s1)
           | (Inr _, s1) \<Rightarrow> (Inr (), sync_task s1 r)))"

definition delete_rule :: "rule_store \<Rightarrow> string \<Rightarrow> (rule_error option + bool) \<times> rule_store" where
  "delete_rule s rid =
     (let s1 = s\<lparr>st_rules := filter (\<lambda>q. ru_id q \<noteq> rid) (st_rules s)\<rparr>;
          removed = (length (st_rules s1) < length (st_rules s))
      in if \<not> removed then (Inr False, s1)
         else
           (case store_persist s1 of
              (Inl e, s2) \<Rightarrow> (Inl e, s2)
            | (Inr _, s2) \<Rightarrow>
                (Inr True, if st_tasks_ok s2 then s2\<lparr>st_tasks := (st_tasks s2)(task_name_for rid := None)\<rparr> else s2)))"

definition toggle_rule :: "rule_store \<Rightarrow> string \<Rightarrow> bool \<Rightarrow> (rule_error option + bool) \<times> rule_store" where
  "toggle_rule s rid enabled =
     (let changed = list_ex (\<lambda>q. ru_id q = rid) (st_rules s);
          s1 = s\<lparr>st_rules := map (\<lambda>q. if ru_id q = rid then q\<lparr>ru_enabled := enabled\<rparr> else q) (st_rules s)\<rparr>
      in if \<not> changed then (Inr False, s1)
         else
           (case store_persist s1 of
              (Inl e, s2) \<Rightarrow> (Inl e, s2)
            | (Inr _, s2) \<Rightarrow>
                (Inr True,
                 case find (\<lambda>q. ru_id q = rid) (st_rules s2) of None \<Rightarrow> s2 | Some r \<Rightarrow> sync_task s2 r)))"

datatype store_op = SaveRule rule | DeleteRule string | ToggleRule string bool

definition store_step :: "string list \<Rightarrow> rule_store \<Rightarrow> store_op \<Rightarrow> rule_store" where
  "store_step topics s op =
     (case op of
        SaveRule r \<Rightarrow> snd (save_rule topics s r)
      | DeleteRule i \<Rightarrow> snd (delete_rule s i)
      | ToggleRule i b \<Rightarrow> snd (toggle_rule s i b))"

definition wanted_task :: "rule_store \<Rightarrow> string \<Rightarrow> string option" where
  "wanted_task s rid =
     (case find (\<lambda>q. ru_id q = rid) (st_rules s) of
        None \<Rightarrow> None
      | Some r \<Rightarrow> if ru_enabled r then (case ru_on r of Schedule time \<Rightarrow> Some time | _ \<Rightarrow> None) else None)"

definition store_ok :: "rule_store \<Rightarrow> bool" where
  "store_ok s \<longleftrightarrow>
     st_write_ok s \<and> st_tasks_ok s \<and> distinct (map ru_id (st_rules s))
     \<and> (\<forall>rid. st_tasks s (task_name_for rid) = wanted_task s rid)
     \<and> (st_file s = Some (st_rules s) \<or> st_file s = None \<and> st_rules s = [])"

lemma find_filter_id:
  "find (\<lambda>q. ru_id q = rid) (filter (\<lambda>q. ru_id q \<noteq> k) rs)
     = (if rid = k then None else find (\<lambda>q. ru_id q = rid) rs)"
  by (induction rs) auto

lemma find_append_id:
  "find P (xs @ [r]) = (case find P xs of Some q \<Rightarrow> Some q | None \<Rightarrow> if P r then Some r else None)"
  by (induction xs) auto

lemma find_toggle:
  "find (\<lambda>q. ru_id q = rid) (map (\<lambda>q. if ru_id q = k then q\<lparr>ru_enabled := b\<rparr> else q) rs)
     = map_option (\<lambda>q. if rid = k then q\<lparr>ru_enabled := b\<rparr> else q) (find (\<lambda>q. ru_id q = rid) rs)"
  by (induction rs) auto

lemma task_name_inj [simp]: "task_name_for a = task_name_for b \<longleftrightarrow> a = b"
  by (simp add: task_name_for_def)

lemma save_rule_ok:
  assumes "store_ok s"
  shows "store_ok (snd (save_rule topics s r))"
proof (cases "rule_validate topics r")
  case (Inr u)
  have d: "distinct (map ru_id (filter (\<lambda>q. ru_id q \<noteq> ru_id r) (st_rules s)))"
    using assms by (simp add: store_ok_def distinct_map_filter)
  show ?thesis
    using assms Inr d
    by (auto simp: store_ok_def save_rule_def store_persist_def sync_task_def wanted_task_def
        find_append_id find_filter_id split: option.splits)
qed (use assms in \<open>simp add: save_rule_def\<close>)

lemma delete_rule_ok:
  assumes "store_ok s"
  shows "store_ok (snd (delete_rule s rid))"
proof -
  let ?rs = "filter (\<lambda>q. ru_id q \<noteq> rid) (st_rules s)"
  have d: "distinct (map ru_id ?rs)"
    using assms by (simp add: store_ok_def distinct_map_filter)
  have same: "?rs = st_rules s" if "\<not> length ?rs < length (st_rules s)"
    using that length_filter_less by (metis (no_types, lifting) filter_True)
  show ?thesis
  proof (cases "length ?rs < length (st_rules s)")
    case True
    then show ?thesis
      using assms d
      by (auto simp: store_ok_def delete_rule_def store_persist_def wanted_task_def find_filter_id Let_def)
  next
    case False
    then show ?thesis using assms same by (simp add: delete_rule_def Let_def)
  qed
qed

lemma toggle_rule_ok:
  assumes "store_ok s"
  shows "store_ok (snd (toggle_rule s rid b))"
proof -
  let ?rs = "map (\<lambda>q. if ru_id q = rid then q\<lparr>ru_enabled := b\<rparr> else q) (st_rules s)"
  have ids: "ru_id \<circ> (\<lambda>q. if ru_id q = rid then q\<lparr>ru_enabled := b\<rparr> else q) = ru_id" by auto
  show ?thesis
  proof (cases "list_ex (\<lambda>q. ru_id q = rid) (st_rules s)")
    case False
    then have "?rs = st_rules s" by (intro map_idI) (auto simp: list_ex_iff)
    then show ?thesis using assms False by (simp add: toggle_rule_def Let_def)
  next
    case True
    then obtain r where r: "find (\<lambda>q. ru_id q = rid) (st_rules s) = Some r"
      by (cases "find (\<lambda>q. ru_id q = rid) (st_rules s)") (auto simp: list_ex_iff find_None_iff)
    then have rid: "ru_id r = rid" by (auto simp: find_Some_iff)
    let ?t = "snd (toggle_rule s rid b)"
    have t: "?t = sync_task (s\<lparr>st_rules := ?rs, st_file := Some ?rs\<rparr>) (r\<lparr>ru_enabled := b\<rparr>)"
      using assms True r
      by (simp add: toggle_rule_def store_persist_def store_ok_def find_toggle Let_def)
    have d: "distinct (map ru_id ?rs)"
      using assms unfolding map_map ids by (simp add: store_ok_def)
    show ?thesis
      unfolding t using assms r rid d
      by (auto simp: store_ok_def sync_task_def wanted_task_def find_toggle simp del: map_map
          split: option.split)
  qed
qed

definition store_empty :: rule_store where
  "store_empty =
     \<lparr>st_rules = [], st_file = None, st_write_ok = True, st_tasks = Map.empty, st_tasks_ok = True\<rparr>"

text \<open>The scheduled tasks follow the rules: after any sequence of saving, deleting and toggling rules,
  valid or not, with a working disk and task scheduler, no two rules share an identifier, the file
  holds the rules, and a daily task is registered for a rule, at its time, exactly when the rule is
  enabled and has a schedule.\<close>

lemma tasks_follow_rules:
  "let s = foldl (store_step topics) store_empty ops in
     distinct (map ru_id (st_rules s)) \<and> st_tasks s (task_name_for rid) = wanted_task s rid
     \<and> (st_file s = Some (st_rules s) \<or> st_file s = None \<and> st_rules s = [])"
proof -
  have step: "store_ok s \<Longrightarrow> store_ok (store_step topics s op)" for s op
    by (cases op) (simp_all add: store_step_def save_rule_ok delete_rule_ok toggle_rule_ok)
  have "store_ok s \<Longrightarrow> store_ok (foldl (store_step topics) s ops)" for s
    by (induction ops arbitrary: s) (simp_all add: step)
  moreover have "store_ok store_empty" by (simp add: store_ok_def store_empty_def wanted_task_def)
  ultimately have "store_ok (foldl (store_step topics) store_empty ops)" by blast
  then show ?thesis by (simp add: store_ok_def Let_def)
qed

section \<open>Events and the daily schedule\<close>

text \<open>An event fires the enabled rules of its topic whose condition holds; events of the engine itself
  fire none.\<close>

definition fire_each ::
    "(json \<Rightarrow> real) \<Rightarrow> 'h action_handler \<Rightarrow> (nat \<Rightarrow> string) \<Rightarrow> nat \<Rightarrow> json \<Rightarrow> int \<Rightarrow> rule list
       \<Rightarrow> rule_engine \<times> 'h \<Rightarrow> rule_engine \<times> 'h" where
  "fire_each num ah uid duration payload now rs st =
     foldl (\<lambda>(en, h) r. fire num ah uid duration en r payload now h) st rs"

definition on_event ::
    "(json \<Rightarrow> real) \<Rightarrow> 'h action_handler \<Rightarrow> (nat \<Rightarrow> string) \<Rightarrow> nat \<Rightarrow> rule list \<Rightarrow> string \<Rightarrow> string \<Rightarrow> json \<Rightarrow> int
       \<Rightarrow> rule_engine \<times> 'h \<Rightarrow> rule_engine \<times> 'h" where
  "on_event num ah uid duration rules source topic payload ts st =
     (if source = ''automation'' then st
      else
        fire_each num ah uid duration payload ts
          (filter (\<lambda>r. ru_enabled r \<and> matches_event r topic \<and> when_passes num r payload) rules) st)"

text \<open>One turn of the polling thread: the time of day, the date, and the date of the last firing.\<close>

definition schedule_due :: "rule list \<Rightarrow> string \<Rightarrow> rule list" where
  "schedule_due rules time = filter (\<lambda>r. ru_enabled r \<and> ru_on r = Schedule time) rules"

definition schedule_tick ::
    "(json \<Rightarrow> real) \<Rightarrow> 'h action_handler \<Rightarrow> (nat \<Rightarrow> string) \<Rightarrow> nat \<Rightarrow> rule list
       \<Rightarrow> string \<times> rule_engine \<times> 'h \<Rightarrow> string \<times> string \<times> int \<Rightarrow> string \<times> rule_engine \<times> 'h" where
  "schedule_tick num ah uid duration rules st tick =
     (case (st, tick) of
        ((last_date, en, h), (time, date, now)) \<Rightarrow>
          if date = last_date then st
          else
            let due = schedule_due rules time in
            if due = [] then st
            else (date, fire_each num ah uid duration (JObj [(''date'', JStr date)]) now due (en, h)))"

lemma tick_same_date:
  "schedule_tick num ah uid dur rules (date, en, h) (time, date, now) = (date, en, h)"
  by (simp add: schedule_tick_def)

text \<open>Only one time of day fires per day: once a scheduled rule was due on a date, no later poll of
  that date fires anything, so an enabled rule scheduled for a later time of the same day is
  silently skipped.\<close>

lemma second_schedule_skipped:
  assumes "date \<noteq> last_date" and "schedule_due rules time1 \<noteq> []"
    and "\<forall>(time, d, now)\<in>set ticks. d = date"
  shows "foldl (schedule_tick num ah uid dur rules)
      (schedule_tick num ah uid dur rules (last_date, en, h) (time1, date, now1)) ticks
    = schedule_tick num ah uid dur rules (last_date, en, h) (time1, date, now1)"
proof -
  obtain en1 h1 where "schedule_tick num ah uid dur rules (last_date, en, h) (time1, date, now1) = (date, en1, h1)"
    using assms(1,2) by (cases "fire_each num ah uid dur (JObj [(''date'', JStr date)]) now1 (schedule_due rules time1) (en, h)")
      (simp add: schedule_tick_def Let_def)
  moreover have "foldl (schedule_tick num ah uid dur rules) (date, en1, h1) ticks = (date, en1, h1)"
    using assms(3) by (induction ticks) (auto simp: tick_same_date)
  ultimately show ?thesis by simp
qed

lemma second_schedule_skipped_witness:
  "let early = demo_rule\<lparr>ru_id := ''e'', ru_on := Schedule ''09:00'', ru_then := [OpenUrl ''b'']\<rparr>;
       late = demo_rule\<lparr>ru_id := ''l'', ru_on := Schedule ''17:30'', ru_then := [OpenUrl ''late'']\<rparr>;
       tick = schedule_tick (\<lambda>_. 0) (demo_handler (\<lambda>_. True)) (\<lambda>i. []) 0 [early, late]
   in snd (snd (foldl tick (tick ([], demo_engine, []) (''09:00'', ''2026-01-05'', 10)) [(''17:30'', ''2026-01-05'', 20)]))
      = snd (snd (tick ([], demo_engine, []) (''09:00'', ''2026-01-05'', 10)))
      \<and> schedule_due [early, late] ''17:30'' = [late]"
proof -
  let ?early = "demo_rule\<lparr>ru_id := ''e'', ru_on := Schedule ''09:00'', ru_then := [OpenUrl ''b'']\<rparr>"
  let ?late = "demo_rule\<lparr>ru_id := ''l'', ru_on := Schedule ''17:30'', ru_then := [OpenUrl ''late'']\<rparr>"
  have "schedule_due [?early, ?late] ''09:00'' \<noteq> []" by (simp add: schedule_due_def demo_rule_def)
  moreover have "schedule_due [?early, ?late] ''17:30'' = [?late]" by (simp add: schedule_due_def demo_rule_def)
  ultimately show ?thesis
    using second_schedule_skipped [of "''2026-01-05''" "[]" "[?early, ?late]" "''09:00''"
        "[(''17:30'', ''2026-01-05'', 20)]" "\<lambda>_. 0" "demo_handler (\<lambda>_. True)" "\<lambda>i. []" 0 demo_engine "[]" 10]
    unfolding Let_def by simp
qed

end
