(* ===== verification/Vault.thy ===== *)
theory Vault
  imports Str "HOL-Library.Multiset"
begin

text \<open>
  The pure parts of the password vault (\<open>crates/vault-core\<close>): the auto-lock policy
  (\<open>autolock.rs\<close>), time-based one-time codes (\<open>totp.rs\<close>) and the password generator
  (\<open>generator.rs\<close>).  HMAC-SHA1, the random source and its shuffle are arguments.
\<close>

section \<open>Auto-lock\<close>

definition warn_window_secs :: nat where "warn_window_secs = 30"

record autolock_policy =
  al_idle_secs :: nat
  al_blur_secs :: nat

datatype autolock_action = Lock | Warn nat

text \<open>One line of the policy: what it decides, and the warning kept so far.\<close>

definition al_check :: "nat option \<Rightarrow> nat \<Rightarrow> nat \<Rightarrow> autolock_action option \<times> nat option" where
  "al_check warn elapsed limit =
     (if limit = 0 then (None, warn)
      else if limit \<le> elapsed then (Some Lock, warn)
      else if warn_window_secs < limit \<and> limit - warn_window_secs \<le> elapsed
      then (None, Some (case warn of None \<Rightarrow> limit - elapsed | Some w \<Rightarrow> min w (limit - elapsed)))
      else (None, warn))"

definition autolock_evaluate ::
    "nat \<Rightarrow> nat \<Rightarrow> nat option \<Rightarrow> autolock_policy \<Rightarrow> autolock_action option" where
  "autolock_evaluate now last_touch blur_since p =
     (case al_check None (now - last_touch) (al_idle_secs p) of
        (Some a, _) \<Rightarrow> Some a
      | (None, warn) \<Rightarrow>
          (case blur_since of
             None \<Rightarrow> map_option Warn warn
           | Some b \<Rightarrow>
               (case al_check warn (now - b) (al_blur_secs p) of
                  (Some a, _) \<Rightarrow> Some a
                | (None, warn') \<Rightarrow> map_option Warn warn')))"

definition clipboard_clear_due :: "string option \<Rightarrow> string \<Rightarrow> bool" where
  "clipboard_clear_due current secret = (current = Some secret)"

text \<open>The reference: the seconds left on each enabled line.\<close>

definition lines_left :: "nat \<Rightarrow> nat \<Rightarrow> nat option \<Rightarrow> autolock_policy \<Rightarrow> (nat \<times> nat) list" where
  "lines_left now last_touch blur_since p =
     filter (\<lambda>(limit, elapsed). limit \<noteq> 0)
       ((al_idle_secs p, now - last_touch)
        # (case blur_since of None \<Rightarrow> [] | Some b \<Rightarrow> [(al_blur_secs p, now - b)]))"

definition warnings :: "(nat \<times> nat) list \<Rightarrow> nat list" where
  "warnings ls = map (\<lambda>(limit, elapsed). limit - elapsed)
     (filter (\<lambda>(limit, elapsed). warn_window_secs < limit \<and> limit - elapsed \<le> warn_window_secs) ls)"

text \<open>The vault locks exactly when some enabled line, idle or out of focus, has run out; otherwise it
  warns exactly when some line longer than the 30 second window is within it, with the least time
  left, between 1 and 30 seconds; disabled lines have no effect.\<close>

lemma autolock_correct:
  "autolock_evaluate now last_touch blur_since p =
     (let ls = lines_left now last_touch blur_since p in
      if list_ex (\<lambda>(limit, elapsed). limit \<le> elapsed) ls then Some Lock
      else case warnings ls of [] \<Rightarrow> None | w # ws \<Rightarrow> Some (Warn (foldl min w ws)))"
  by (cases blur_since)
    (auto simp: autolock_evaluate_def al_check_def lines_left_def warnings_def warn_window_secs_def Let_def)

section \<open>One-time codes\<close>

definition step_secs :: nat where "step_secs = 30"

definition b32_alphabet :: string where
  "b32_alphabet = ''ABCDEFGHIJKLMNOPQRSTUVWXYZ234567''"

definition ascii_upper :: "char \<Rightarrow> char" where
  "ascii_upper c = (if CHR ''a'' \<le> c \<and> c \<le> CHR ''z'' then char_of (of_char c - (32::nat)) else c)"

fun position :: "'a \<Rightarrow> 'a list \<Rightarrow> nat option" where
  "position x [] = None"
| "position x (y # ys) = (if y = x then Some 0 else map_option Suc (position x ys))"

text \<open>The decoder's loop: the bits held, the accumulator, the bytes so far.\<close>

fun b32_loop :: "nat \<Rightarrow> 32 word \<Rightarrow> bytes \<Rightarrow> string \<Rightarrow> bytes option" where
  "b32_loop bits acc out [] = Some out"
| "b32_loop bits acc out (ch # s) =
     (let c = ascii_upper ch in
      if c = CHR ''='' \<or> c = CHR '' '' \<or> c = CHR ''-'' then b32_loop bits acc out s
      else
        (case position c b32_alphabet of
           None \<Rightarrow> None
         | Some v \<Rightarrow>
             let acc' = push_bit 5 acc OR of_nat v; bits' = bits + 5 in
             if 8 \<le> bits'
             then b32_loop (bits' - 8) acc' (out @ [ucast (drop_bit (bits' - 8) acc')]) s
             else b32_loop bits' acc' out s))"

definition b32_decode :: "string \<Rightarrow> bytes option" where
  "b32_decode s =
     (case b32_loop 0 0 [] s of None \<Rightarrow> None | Some out \<Rightarrow> if out = [] then None else Some out)"

definition u64_to_be :: "64 word \<Rightarrow> bytes" where
  "u64_to_be w = rev (le_bytes 8 w)"

definition totp_at :: "(bytes \<Rightarrow> bytes \<Rightarrow> bytes) \<Rightarrow> string \<Rightarrow> nat \<Rightarrow> (string \<times> nat) option" where
  "totp_at hmac secret_b32 unix_secs =
     (case b32_decode secret_b32 of
        None \<Rightarrow> None
      | Some key \<Rightarrow>
          let digest = hmac key (u64_to_be (of_nat (unix_secs div step_secs)));
              offset = unat (digest ! 19 AND 0x0f);
              code = u32_from_be (digest ! offset) (digest ! (offset + 1)) (digest ! (offset + 2))
                       (digest ! (offset + 3)) AND 0x7fffffff
          in Some (show6 (unat code mod 1000000), step_secs - unix_secs mod step_secs))"

text \<open>A one-time code is always six digits, is the same for every second of a 30 second step, and the
  remaining time counts down from 30 to 1 within it: a valid secret never fails, and a code shown
  with \<open>r\<close> seconds left is the code of each of the next \<open>r - 1\<close> seconds.\<close>

lemma totp_stable_within_step:
  assumes "totp_at hmac secret t = Some (code, r)"
  shows "length code = 6 \<and> list_all is_digit code \<and> 0 < r \<and> r \<le> 30
    \<and> (d < r \<longrightarrow> totp_at hmac secret (t + d) = Some (code, r - d))"
proof -
  obtain key where key: "b32_decode secret = Some key" and r: "r = 30 - t mod 30"
    using assms by (auto simp: totp_at_def step_secs_def Let_def split: option.splits)
  obtain n where code: "code = show6 (n mod 1000000)"
    using assms key by (auto simp: totp_at_def Let_def)
  have step: "(t + d) div 30 = t div 30" "(t + d) mod 30 = t mod 30 + d" if "d < r"
  proof -
    have lt: "t mod 30 + d < 30" using that r by simp
    have "t + d = 30 * (t div 30) + (t mod 30 + d)" by simp
    then show "(t + d) div 30 = t div 30" "(t + d) mod 30 = t mod 30 + d"
      using lt by (metis div_mult_self4 div_less add.commute add_0 zero_neq_numeral,
          metis mod_mult_self4 mod_less)
  qed
  have "t mod 30 < 30" by simp
  then show ?thesis
    using assms show6_digits [of "n mod 1000000"] step
    by (auto simp: r code totp_at_def key step_secs_def Let_def)
qed

definition demo_hmac :: "bytes \<Rightarrow> bytes \<Rightarrow> bytes" where
  "demo_hmac key m = take 20 (key @ m @ replicate 20 7)"

lemma totp_stable_within_step_witness:
  "b32_decode ''jbsw y3dp'' = Some (str_bytes ''Hello'')
   \<and> (\<exists>code r. totp_at demo_hmac ''JBSWY3DP'' 65 = Some (code, r) \<and> r = 25 \<and> length code = 6
        \<and> totp_at demo_hmac ''JBSWY3DP'' 75 = Some (code, 15))"
proof
  show "b32_decode ''jbsw y3dp'' = Some (str_bytes ''Hello'')" by code_simp
  have "b32_decode ''JBSWY3DP'' = Some (str_bytes ''Hello'')" by code_simp
  then obtain code r where c: "totp_at demo_hmac ''JBSWY3DP'' 65 = Some (code, r)"
    by (simp add: totp_at_def Let_def)
  have r: "r = 25" using c by (auto simp: totp_at_def step_secs_def Let_def split: option.splits)
  from totp_stable_within_step [OF c, of 10] have "length code = 6" "totp_at demo_hmac ''JBSWY3DP'' 75 = Some (code, 15)"
    by (simp_all add: r)
  with c r show "\<exists>code r. totp_at demo_hmac ''JBSWY3DP'' 65 = Some (code, r) \<and> r = 25 \<and> length code = 6
        \<and> totp_at demo_hmac ''JBSWY3DP'' 75 = Some (code, 15)" by blast
qed

section \<open>Generated passwords\<close>

definition pool_upper :: string where "pool_upper = ''ABCDEFGHIJKLMNOPQRSTUVWXYZ''"
definition pool_lower :: string where "pool_lower = ''abcdefghijklmnopqrstuvwxyz''"
definition pool_digits :: string where "pool_digits = ''0123456789''"
definition pool_symbols :: string where "pool_symbols = ''!@#$%^&*()-_=+[]{};:,.<>?/''"

definition ambiguous :: string where
  "ambiguous = ''0O1lI|'' @ [CHR 0x27, CHR 0x60, CHR 0x22]"

record password_policy =
  pw_length :: nat
  pw_upper :: bool
  pw_lower :: bool
  pw_digits :: bool
  pw_symbols :: bool
  pw_avoid_ambiguous :: bool

definition policy_default :: password_policy where
  "policy_default =
     \<lparr>pw_length = 16, pw_upper = True, pw_lower = True, pw_digits = True, pw_symbols = True,
      pw_avoid_ambiguous = False\<rparr>"

definition strip_pool :: "password_policy \<Rightarrow> string \<Rightarrow> string" where
  "strip_pool p pool = (if pw_avoid_ambiguous p then filter (\<lambda>c. c \<notin> set ambiguous) pool else pool)"

definition pools :: "password_policy \<Rightarrow> string list" where
  "pools p =
     filter (\<lambda>q. q \<noteq> [])
       (map (\<lambda>(on, base). strip_pool p base)
          (filter fst [(pw_upper p, pool_upper), (pw_lower p, pool_lower), (pw_digits p, pool_digits),
             (pw_symbols p, pool_symbols)]))"

text \<open>The random source: a number below a bound, and a shuffle.\<close>

record 'g rng =
  rng_below :: "nat \<Rightarrow> 'g \<Rightarrow> nat \<times> 'g"
  rng_shuffle :: "string \<Rightarrow> 'g \<Rightarrow> string \<times> 'g"

definition rng_ok :: "'g rng \<Rightarrow> bool" where
  "rng_ok r \<longleftrightarrow> (\<forall>n g. 0 < n \<longrightarrow> fst (rng_below r n g) < n) \<and> (\<forall>s g. mset (fst (rng_shuffle r s g)) = mset s)"

definition pick :: "'g rng \<Rightarrow> string \<Rightarrow> 'g \<Rightarrow> char \<times> 'g" where
  "pick r pool g = (case rng_below r (length pool) g of (i, g1) \<Rightarrow> (pool ! i, g1))"

fun pick_each :: "'g rng \<Rightarrow> string list \<Rightarrow> 'g \<Rightarrow> string \<times> 'g" where
  "pick_each r [] g = ([], g)"
| "pick_each r (p # ps) g =
     (case pick r p g of (c, g1) \<Rightarrow> case pick_each r ps g1 of (cs, g2) \<Rightarrow> (c # cs, g2))"

definition generate_password :: "'g rng \<Rightarrow> password_policy \<Rightarrow> 'g \<Rightarrow> string option \<times> 'g" where
  "generate_password r p g =
     (let ps = pools p in
      if ps = [] \<or> pw_length p < length ps then (None, g)
      else
        (case pick_each r ps g of
           (cs, g1) \<Rightarrow>
             (case pick_each r (replicate (pw_length p - length cs) (concat ps)) g1 of
                (ds, g2) \<Rightarrow> (case rng_shuffle r (cs @ ds) g2 of (s, g3) \<Rightarrow> (Some s, g3)))))"

lemma pick_each_in:
  assumes "rng_ok r"
  shows "\<forall>p\<in>set ps. p \<noteq> [] \<Longrightarrow> pick_each r ps g = (cs, g') \<Longrightarrow> list_all2 (\<lambda>c p. c \<in> set p) cs ps"
proof (induction ps arbitrary: g g' cs)
  case (Cons p ps)
  obtain i g1 where i: "rng_below r (length p) g = (i, g1)" by (cases "rng_below r (length p) g")
  then have "i < length p" using assms Cons.prems(1) by (metis fst_conv length_greater_0_conv list.set_intros(1) rng_ok_def)
  moreover obtain ds g2 where ds: "pick_each r ps g1 = (ds, g2)" by (cases "pick_each r ps g1")
  moreover have "cs = p ! i # ds" using Cons.prems(2) i ds by (simp add: pick_def)
  ultimately show ?case using Cons.IH [OF _ ds] Cons.prems(1) by simp
qed simp

lemma pools_nonempty: "p \<in> set (pools pol) \<Longrightarrow> p \<noteq> []"
  by (simp add: pools_def)

lemma pools_clean: "pw_avoid_ambiguous pol \<Longrightarrow> p \<in> set (pools pol) \<Longrightarrow> set p \<inter> set ambiguous = {}"
  by (auto simp: pools_def strip_pool_def split: if_splits)

text \<open>A generated password keeps its policy: with a source that stays in range and a shuffle that
  permutes, generation succeeds exactly when some class is enabled and the length is at least the
  number of enabled classes, and the password then has the requested length, contains a character
  of every enabled class, only characters of enabled classes, and no ambiguous one when these are
  to be avoided.\<close>

lemma password_keeps_policy:
  assumes "rng_ok r"
  shows "case fst (generate_password r p g) of
      None \<Rightarrow> pools p = [] \<or> pw_length p < length (pools p)
    | Some s \<Rightarrow> pools p \<noteq> [] \<and> length (pools p) \<le> pw_length p \<and> length s = pw_length p
        \<and> (\<forall>q\<in>set (pools p). set s \<inter> set q \<noteq> {}) \<and> set s \<subseteq> set (concat (pools p))
        \<and> (pw_avoid_ambiguous p \<longrightarrow> set s \<inter> set ambiguous = {})"
proof (cases "pools p = [] \<or> pw_length p < length (pools p)")
  case False
  let ?ps = "pools p"
  obtain cs g1 where cs: "pick_each r ?ps g = (cs, g1)" by (cases "pick_each r ?ps g")
  have a: "list_all2 (\<lambda>c q. c \<in> set q) cs ?ps"
    using pick_each_in [OF assms _ cs] pools_nonempty by blast
  let ?rep = "replicate (pw_length p - length cs) (concat ?ps)"
  obtain ds g2 where ds: "pick_each r ?rep g1 = (ds, g2)" by (cases "pick_each r ?rep g1")
  have "hd ?ps \<in> set ?ps" "hd ?ps \<noteq> []" using False pools_nonempty [of "hd ?ps" p] by auto
  then have "concat ?ps \<noteq> []" by auto
  then have b: "list_all2 (\<lambda>c q. c \<in> set q) ds ?rep" using pick_each_in [OF assms _ ds] by simp
  obtain s g3 where s: "rng_shuffle r (cs @ ds) g2 = (s, g3)" by (cases "rng_shuffle r (cs @ ds) g2")
  have m: "mset s = mset (cs @ ds)" using assms s by (metis fst_conv rng_ok_def)
  have set_s: "set s = set cs \<union> set ds" using arg_cong [OF m, of set_mset] by simp
  have "length cs = length ?ps" using a by (rule list_all2_lengthD)
  moreover have "length s = length cs + length ds" using arg_cong [OF m, of size] by simp
  moreover have "length ds = pw_length p - length cs" using list_all2_lengthD [OF b] by simp
  ultimately have len: "length s = pw_length p" using False by simp
  have cover: "set s \<inter> set q \<noteq> {}" if q: "q \<in> set ?ps" for q
  proof -
    obtain i where "i < length ?ps" "q = ?ps ! i" using q by (auto simp: in_set_conv_nth)
    then have "cs ! i \<in> set q" "cs ! i \<in> set cs"
      using a by (auto simp: list_all2_conv_all_nth)
    then show ?thesis using set_s by blast
  qed
  have "set cs \<subseteq> set (concat ?ps)"
    using a by (fastforce simp: list_all2_conv_all_nth in_set_conv_nth [of _ cs])
  moreover have "set ds \<subseteq> set (concat ?ps)"
    using b by (fastforce simp: list_all2_conv_all_nth in_set_conv_nth [of _ ds])
  ultimately have sub: "set s \<subseteq> set (concat ?ps)" using set_s by blast
  moreover have "pw_avoid_ambiguous p \<longrightarrow> set s \<inter> set ambiguous = {}"
    using sub pools_clean [of p] by fastforce
  moreover have "fst (generate_password r p g) = Some s"
    using False cs ds s by (simp add: generate_password_def Let_def)
  ultimately show ?thesis using False len cover by simp
qed (simp add: generate_password_def)

definition demo_rng :: "nat rng" where
  "demo_rng = \<lparr>rng_below = (\<lambda>n g. (g mod n, g + 7)), rng_shuffle = (\<lambda>s g. (rev s, g))\<rparr>"

lemma password_keeps_policy_witness:
  "let p = policy_default\<lparr>pw_length := 6, pw_avoid_ambiguous := True\<rparr>;
       s = the (fst (generate_password demo_rng p 3))
   in fst (generate_password demo_rng p 3) \<noteq> None \<and> length s = 6 \<and> set s \<inter> set ambiguous = {}"
proof -
  let ?p = "policy_default\<lparr>pw_length := 6, pw_avoid_ambiguous := True\<rparr>"
  have ok: "rng_ok demo_rng" by (simp add: rng_ok_def demo_rng_def)
  have some: "fst (generate_password demo_rng ?p 3) \<noteq> None" by code_simp
  with password_keeps_policy [OF ok, of ?p 3] show ?thesis
    by (auto simp: Let_def policy_default_def)
qed

end
