(* ===== verification/Vault_Crypto.thy ===== *)
theory Vault_Crypto
  imports Vault
begin

text \<open>
  The envelope of the vault (\<open>crates/vault-core/src/crypto.rs\<close>): the key derived from the master
  password wraps the data key, the data key seals the fields.  The key derivation, the AEAD and the
  base64 codec are a record of functions; \<open>crypto_laws\<close> states what is documented of them.  Random bytes
  (salt, nonces, keys, identifiers) are arguments.  A key is its bytes; wiping a key and locking its page
  have no effect that a later call could observe.
\<close>

section \<open>The functions from outside\<close>

record vault_crypto =
  vc_argon2 :: "nat \<Rightarrow> nat \<Rightarrow> nat \<Rightarrow> bytes \<Rightarrow> bytes \<Rightarrow> bytes option"
  vc_params_ok :: "nat \<Rightarrow> nat \<Rightarrow> nat \<Rightarrow> bool"
  vc_seal :: "bytes \<Rightarrow> bytes \<Rightarrow> bytes \<Rightarrow> bytes \<Rightarrow> bytes"
  vc_open :: "bytes \<Rightarrow> bytes \<Rightarrow> bytes \<Rightarrow> bytes \<Rightarrow> bytes option"
  vc_b64 :: "bytes \<Rightarrow> string"
  vc_unb64 :: "string \<Rightarrow> bytes option"

text \<open>Decryption undoes encryption, under the same key, nonce and associated data; a decoded text is the one encoded.\<close>

definition crypto_laws :: "vault_crypto \<Rightarrow> bool" where
  "crypto_laws c \<longleftrightarrow>
     (\<forall>k n a m. vc_open c k n a (vc_seal c k n a m) = Some m)
     \<and> (\<forall>b. vc_unb64 c (vc_b64 c b) = Some b)"

text \<open>Authenticity: what one key sealed, no other key opens, nor the same key with other associated data.\<close>

definition authentic :: "vault_crypto \<Rightarrow> bool" where
  "authentic c \<longleftrightarrow> (\<forall>k n a m k' a'. vc_open c k' n a' (vc_seal c k n a m) \<noteq> None \<longrightarrow> k' = k \<and> a' = a)"

lemma crypto_lawsD:
  assumes "crypto_laws c"
  shows "vc_open c k n a (vc_seal c k n a m) = Some m" "vc_unb64 c (vc_b64 c b) = Some b"
  using assms by (simp_all add: crypto_laws_def)

section \<open>Headers\<close>

definition vault_nonce_len :: nat where "vault_nonce_len = 12"
definition vault_key_len :: nat where "vault_key_len = 32"

record kdf_params =
  kp_algo :: string
  kp_m_cost_kib :: nat
  kp_t_cost :: nat
  kp_p_cost :: nat
  kp_salt_b64 :: string

record wrapped_key =
  wk_nonce_b64 :: string
  wk_ct_b64 :: string

record hello_envelope =
  he_wrapped_dek_b64 :: string
  he_verifier :: wrapped_key

record vault_header =
  vh_version :: nat
  vh_vault_id :: string
  vh_kdf :: kdf_params
  vh_wrapped_dek :: wrapped_key
  vh_hello :: "hello_envelope option"

definition default_kdf :: kdf_params where
  "default_kdf = \<lparr>kp_algo = ''argon2id'', kp_m_cost_kib = 64 * 1024, kp_t_cost = 3, kp_p_cost = 4, kp_salt_b64 = ''''\<rparr>"

definition hello_verifier :: bytes where
  "hello_verifier = str_bytes ''nf-vault-hello-v1''"

definition unb64 :: "vault_crypto \<Rightarrow> string \<Rightarrow> string + bytes" where
  "unb64 c s = ok_or ''VAULT_CRYPTO_004'' (vc_unb64 c s)"

definition derive_kek :: "vault_crypto \<Rightarrow> string \<Rightarrow> kdf_params \<Rightarrow> string + bytes" where
  "derive_kek c password kdf =
     (if kp_algo kdf \<noteq> ''argon2id'' then Inl ''VAULT_CRYPTO_005''
      else res_bind (unb64 c (kp_salt_b64 kdf)) (\<lambda>salt.
        if \<not> vc_params_ok c (kp_m_cost_kib kdf) (kp_t_cost kdf) (kp_p_cost kdf) then Inl ''VAULT_CRYPTO_006''
        else ok_or ''VAULT_CRYPTO_001''
          (vc_argon2 c (kp_m_cost_kib kdf) (kp_t_cost kdf) (kp_p_cost kdf) (str_bytes password) salt)))"

definition open_raw :: "vault_crypto \<Rightarrow> bytes \<Rightarrow> bytes \<Rightarrow> bytes \<Rightarrow> bytes \<Rightarrow> string + bytes" where
  "open_raw c key nonce ct aad = ok_or ''VAULT_UNLOCK_001'' (vc_open c key nonce aad ct)"

definition wrap :: "vault_crypto \<Rightarrow> bytes \<Rightarrow> bytes \<Rightarrow> bytes \<Rightarrow> string \<Rightarrow> wrapped_key" where
  "wrap c key nonce plain vault_id =
     \<lparr>wk_nonce_b64 = vc_b64 c nonce, wk_ct_b64 = vc_b64 c (vc_seal c key nonce (str_bytes vault_id) plain)\<rparr>"

definition create_vault_with ::
    "vault_crypto \<Rightarrow> string \<Rightarrow> kdf_params \<Rightarrow> bytes \<Rightarrow> string \<Rightarrow> bytes \<Rightarrow> bytes \<Rightarrow> string + vault_header \<times> bytes" where
  "create_vault_with c password kdf0 salt vault_id dek nonce =
     (let kdf = (if kp_salt_b64 kdf0 = [] then kdf0\<lparr>kp_salt_b64 := vc_b64 c salt\<rparr> else kdf0)
      in res_bind (derive_kek c password kdf) (\<lambda>kek.
        Inr (\<lparr>vh_version = 1, vh_vault_id = vault_id, vh_kdf = kdf, vh_wrapped_dek = wrap c kek nonce dek vault_id, vh_hello = None\<rparr>,
             dek)))"

definition unwrap_dek :: "vault_crypto \<Rightarrow> vault_header \<Rightarrow> string \<Rightarrow> string + bytes" where
  "unwrap_dek c h password =
     res_bind (derive_kek c password (vh_kdf h)) (\<lambda>kek.
     res_bind (unb64 c (wk_nonce_b64 (vh_wrapped_dek h))) (\<lambda>nonce.
     res_bind (unb64 c (wk_ct_b64 (vh_wrapped_dek h))) (\<lambda>ct.
     if length nonce \<noteq> vault_nonce_len then Inl ''VAULT_CRYPTO_007''
     else res_bind (open_raw c kek nonce ct (str_bytes (vh_vault_id h))) (\<lambda>dek.
       if length dek \<noteq> vault_key_len then Inl ''VAULT_CRYPTO_008'' else Inr dek))))"

definition rewrap_header :: "vault_crypto \<Rightarrow> vault_header \<Rightarrow> string \<Rightarrow> string \<Rightarrow> bytes \<Rightarrow> bytes \<Rightarrow> string + vault_header" where
  "rewrap_header c h old_password new_password salt nonce =
     res_bind (unwrap_dek c h old_password) (\<lambda>dek.
       let kdf = (vh_kdf h)\<lparr>kp_salt_b64 := vc_b64 c salt\<rparr> in
       res_bind (derive_kek c new_password kdf) (\<lambda>kek.
         Inr (h\<lparr>vh_kdf := kdf, vh_wrapped_dek := wrap c kek nonce dek (vh_vault_id h)\<rparr>)))"

definition seal_hello_verifier :: "vault_crypto \<Rightarrow> bytes \<Rightarrow> string \<Rightarrow> bytes \<Rightarrow> wrapped_key" where
  "seal_hello_verifier c dek vault_id nonce = wrap c dek nonce hello_verifier vault_id"

definition open_hello_verifier :: "vault_crypto \<Rightarrow> bytes \<Rightarrow> string \<Rightarrow> wrapped_key \<Rightarrow> string + unit" where
  "open_hello_verifier c dek vault_id env =
     res_bind (unb64 c (wk_nonce_b64 env)) (\<lambda>nonce.
     res_bind (unb64 c (wk_ct_b64 env)) (\<lambda>ct.
     if length nonce \<noteq> vault_nonce_len then Inl ''VAULT_CRYPTO_010''
     else res_bind (open_raw c dek nonce ct (str_bytes vault_id)) (\<lambda>plain.
       if plain \<noteq> hello_verifier then Inl ''VAULT_CRYPTO_011'' else Inr ())))"

definition seal_field :: "vault_crypto \<Rightarrow> bytes \<Rightarrow> string \<Rightarrow> bytes \<Rightarrow> bytes \<Rightarrow> string" where
  "seal_field c dek entry_id nonce plain = vc_b64 c (nonce @ vc_seal c dek nonce (str_bytes entry_id) plain)"

definition open_field :: "vault_crypto \<Rightarrow> bytes \<Rightarrow> string \<Rightarrow> string \<Rightarrow> string + bytes" where
  "open_field c dek entry_id blob_b64 =
     res_bind (unb64 c blob_b64) (\<lambda>blob.
       if length blob < vault_nonce_len then Inl ''VAULT_CRYPTO_009''
       else open_raw c dek (take vault_nonce_len blob) (drop vault_nonce_len blob) (str_bytes entry_id))"

section \<open>What the envelope guarantees\<close>

text \<open>A header holds a data key under a password.\<close>

definition holds_key :: "vault_crypto \<Rightarrow> vault_header \<Rightarrow> string \<Rightarrow> bytes \<Rightarrow> bool" where
  "holds_key c h password dek \<longleftrightarrow>
     (\<exists>kek nonce. derive_kek c password (vh_kdf h) = Inr kek \<and> length nonce = vault_nonce_len \<and> length dek = vault_key_len
       \<and> vh_wrapped_dek h = wrap c kek nonce dek (vh_vault_id h))"

lemma unwrap_wrapped:
  assumes "crypto_laws c" "derive_kek c password (vh_kdf h) = Inr kek" "length nonce = vault_nonce_len" "length dek = vault_key_len"
    and "vh_wrapped_dek h = wrap c kek nonce dek (vh_vault_id h)"
  shows "unwrap_dek c h password = Inr dek"
  using assms by (simp add: unwrap_dek_def wrap_def unb64_def crypto_lawsD open_raw_def)

lemma unwrap_held: "crypto_laws c \<Longrightarrow> holds_key c h password dek \<Longrightarrow> unwrap_dek c h password = Inr dek"
  by (auto simp: holds_key_def intro: unwrap_wrapped)

text \<open>Only a password from which the same key is derived opens the header, and it gives the same data key.\<close>

lemma unwrap_only_held:
  assumes "crypto_laws c" "authentic c" "holds_key c h password dek" "unwrap_dek c h guess = Inr x"
  shows "derive_kek c guess (vh_kdf h) = derive_kek c password (vh_kdf h) \<and> x = dek"
proof -
  obtain kek nonce where h: "derive_kek c password (vh_kdf h) = Inr kek" "length nonce = vault_nonce_len" "length dek = vault_key_len"
    "vh_wrapped_dek h = wrap c kek nonce dek (vh_vault_id h)"
    using assms(3) by (auto simp: holds_key_def)
  then obtain kek' where k: "derive_kek c guess (vh_kdf h) = Inr kek'"
    "vc_open c kek' nonce (str_bytes (vh_vault_id h)) (vc_seal c kek nonce (str_bytes (vh_vault_id h)) dek) = Some x"
    using assms(4) crypto_lawsD [OF assms(1)]
    by (auto simp: unwrap_dek_def wrap_def unb64_def res_bind_eq_Inr open_raw_def split: if_splits)
  then have "kek' = kek" using assms(2) unfolding authentic_def by (metis option.distinct(1))
  then show ?thesis using k h crypto_lawsD(1) [OF assms(1)] by simp
qed

lemma created_holds:
  assumes "create_vault_with c password kdf salt vault_id dek nonce = Inr (h, k)" "length nonce = vault_nonce_len" "length dek = vault_key_len"
  shows "k = dek \<and> vh_vault_id h = vault_id \<and> vh_hello h = None \<and> holds_key c h password dek"
  using assms by (fastforce simp: create_vault_with_def Let_def res_bind_eq_Inr holds_key_def)

text \<open>Changing the password keeps the data key, the identity and the envelope of the other unlocking path.\<close>

lemma rewrapped_holds:
  assumes "rewrap_header c h old new salt nonce = Inr h'" "crypto_laws c" "authentic c" "holds_key c h password dek" "length nonce = vault_nonce_len"
  shows "holds_key c h' new dek \<and> vh_vault_id h' = vh_vault_id h \<and> vh_hello h' = vh_hello h
    \<and> derive_kek c old (vh_kdf h) = derive_kek c password (vh_kdf h)"
proof -
  obtain x kek where r: "unwrap_dek c h old = Inr x" "derive_kek c new ((vh_kdf h)\<lparr>kp_salt_b64 := vc_b64 c salt\<rparr>) = Inr kek"
    "h' = h\<lparr>vh_kdf := (vh_kdf h)\<lparr>kp_salt_b64 := vc_b64 c salt\<rparr>, vh_wrapped_dek := wrap c kek nonce x (vh_vault_id h)\<rparr>"
    using assms(1) by (auto simp: rewrap_header_def Let_def res_bind_eq_Inr)
  have x: "derive_kek c old (vh_kdf h) = derive_kek c password (vh_kdf h)" "x = dek"
    using unwrap_only_held [OF assms(2-4) r(1)] by auto
  have "length dek = vault_key_len" using assms(4) by (auto simp: holds_key_def)
  then show ?thesis using r x assms(5) by (auto simp: holds_key_def)
qed

lemma hello_verified:
  "crypto_laws c \<Longrightarrow> length nonce = vault_nonce_len \<Longrightarrow> open_hello_verifier c dek vid (seal_hello_verifier c dek vid nonce) = Inr ()"
  by (simp add: open_hello_verifier_def seal_hello_verifier_def wrap_def unb64_def crypto_lawsD open_raw_def)

text \<open>The verifier ties an envelope to its vault and its key.\<close>

lemma hello_bound:
  assumes "crypto_laws c" "authentic c" "length nonce = vault_nonce_len"
    and "open_hello_verifier c dek' vid' (seal_hello_verifier c dek vid nonce) = Inr ()"
  shows "dek' = dek \<and> str_bytes vid' = str_bytes vid"
proof -
  have "vc_open c dek' nonce (str_bytes vid') (vc_seal c dek nonce (str_bytes vid) hello_verifier) \<noteq> None"
    using assms(4) crypto_lawsD(2) [OF assms(1)] assms(3)
    by (auto simp: open_hello_verifier_def seal_hello_verifier_def wrap_def unb64_def res_bind_eq_Inr open_raw_def)
  then show ?thesis using assms(2) unfolding authentic_def by blast
qed

lemma field_roundtrip:
  "crypto_laws c \<Longrightarrow> length nonce = vault_nonce_len \<Longrightarrow> open_field c dek i (seal_field c dek i nonce plain) = Inr plain"
  by (simp add: open_field_def seal_field_def unb64_def crypto_lawsD open_raw_def)

text \<open>A sealed field does not open under another entry's identifier.\<close>

lemma field_not_moved:
  assumes "crypto_laws c" "authentic c" "length nonce = vault_nonce_len" "str_bytes j \<noteq> str_bytes i"
  shows "open_field c dek j (seal_field c dek i nonce plain) = Inl ''VAULT_UNLOCK_001''"
proof -
  have "vc_open c dek nonce (str_bytes j) (vc_seal c dek nonce (str_bytes i) plain) = None"
    using assms(2,4) unfolding authentic_def by blast
  then show ?thesis using assms(1,3) by (simp add: open_field_def seal_field_def unb64_def crypto_lawsD open_raw_def)
qed

end
