(* ===== verification/Vault_Store.thy ===== *)
theory Vault_Store
  imports Vault_Crypto
begin

text \<open>
  The tables of the vault (\<open>crates/vault-core/src/model.rs\<close>): folders and entries as lists of rows with
  their keys, the foreign key that empties an entry's folder when the folder goes, and the queries.
  Statements fail only where the tables or the number of bound parameters make them fail.
\<close>

section \<open>Rows\<close>

datatype field_kind = FPassword | FUrl | FNote | FOtp | FText

record entry_field =
  ef_key :: string
  ef_kind :: field_kind
  ef_value :: string

record vault_entry =
  ve_id :: string
  ve_folder_id :: "string option"
  ve_title :: string
  ve_favorite :: bool
  ve_fields :: "entry_field list"
  ve_totp_secret :: "string option"
  ve_created_at :: int
  ve_updated_at :: int

record vault_folder =
  vf_id :: string
  vf_name :: string
  vf_created_at :: int

record entry_row =
  er_id :: string
  er_folder_id :: "string option"
  er_title :: string
  er_favorite :: bool
  er_fields_ct :: string
  er_totp_ct :: "string option"
  er_created_at :: int
  er_updated_at :: int

record vault_store =
  vt_folders :: "vault_folder list"
  vt_entries :: "entry_row list"

section \<open>Statements\<close>

definition folder_known :: "vault_store \<Rightarrow> string option \<Rightarrow> bool" where
  "folder_known st f \<longleftrightarrow> (case f of None \<Rightarrow> True | Some i \<Rightarrow> i \<in> vf_id ` set (vt_folders st))"

definition create_folder :: "string \<Rightarrow> int \<Rightarrow> string \<Rightarrow> vault_store \<Rightarrow> (string + vault_folder) \<times> vault_store" where
  "create_folder nid now name st =
     (let f = \<lparr>vf_id = nid, vf_name = name, vf_created_at = now\<rparr> in
      if nid \<in> vf_id ` set (vt_folders st) then (Inl ''VAULT_DB_004'', st)
      else (Inr f, st\<lparr>vt_folders := vt_folders st @ [f]\<rparr>))"

definition list_folders :: "vault_store \<Rightarrow> vault_folder list" where
  "list_folders st = sort_key vf_created_at (vt_folders st)"

definition rename_folder :: "string \<Rightarrow> string \<Rightarrow> vault_store \<Rightarrow> bool \<times> vault_store" where
  "rename_folder i name st =
     (i \<in> vf_id ` set (vt_folders st),
      st\<lparr>vt_folders := map (\<lambda>f. if vf_id f = i then f\<lparr>vf_name := name\<rparr> else f) (vt_folders st)\<rparr>)"

definition delete_folder :: "string \<Rightarrow> vault_store \<Rightarrow> bool \<times> vault_store" where
  "delete_folder i st =
     (i \<in> vf_id ` set (vt_folders st),
      \<lparr>vt_folders = filter (\<lambda>f. vf_id f \<noteq> i) (vt_folders st),
       vt_entries = map (\<lambda>e. if er_folder_id e = Some i then e\<lparr>er_folder_id := None\<rparr> else e) (vt_entries st)\<rparr>)"

definition insert_entry :: "entry_row \<Rightarrow> vault_store \<Rightarrow> (string + unit) \<times> vault_store" where
  "insert_entry row st =
     (if er_id row \<in> er_id ` set (vt_entries st) \<or> \<not> folder_known st (er_folder_id row) then (Inl ''VAULT_DB_008'', st)
      else (Inr (), st\<lparr>vt_entries := vt_entries st @ [row]\<rparr>))"

definition update_row :: "entry_row \<Rightarrow> vault_store \<Rightarrow> (string + bool) \<times> vault_store" where
  "update_row row st =
     (if er_id row \<notin> er_id ` set (vt_entries st) then (Inr False, st)
      else if \<not> folder_known st (er_folder_id row) then (Inl ''VAULT_DB_009'', st)
      else (Inr True, st\<lparr>vt_entries := map (\<lambda>e. if er_id e = er_id row then row\<lparr>er_created_at := er_created_at e\<rparr> else e) (vt_entries st)\<rparr>))"

definition delete_row :: "string \<Rightarrow> vault_store \<Rightarrow> bool \<times> vault_store" where
  "delete_row i st =
     (i \<in> er_id ` set (vt_entries st), st\<lparr>vt_entries := filter (\<lambda>e. er_id e \<noteq> i) (vt_entries st)\<rparr>)"

text \<open>\<open>LIKE\<close>: \<open>%\<close> for any text, \<open>_\<close> for one character, letters of ASCII in either case.\<close>

fun sql_like :: "string list \<Rightarrow> string list \<Rightarrow> bool" where
  "sql_like [] cs = (cs = [])"
| "sql_like (p # ps) [] = (p = ''%'' \<and> sql_like ps [])"
| "sql_like (p # ps) (c # cs) =
     (if p = ''%'' then sql_like ps (c # cs) \<or> sql_like (p # ps) cs
      else (p = ''_'' \<or> eq_ignore_ascii_case p c) \<and> sql_like ps cs)"

definition title_matches :: "string \<Rightarrow> string \<Rightarrow> bool" where
  "title_matches search title = sql_like (chars_of (''%'' @ search @ ''%'')) (chars_of title)"

text \<open>
  The conditions of the query and the parameters bound to it are counted apart, as the code does: a
  statement with another number of parameters than placeholders is refused.
\<close>

definition list_rows :: "string option \<Rightarrow> string option \<Rightarrow> vault_store \<Rightarrow> string + entry_row list" where
  "list_rows folder search st =
     (let marks = (of_bool (folder \<noteq> None) :: nat) + of_bool (search \<noteq> None \<and> search \<noteq> Some []);
          params = (of_bool (folder \<noteq> None) :: nat) + of_bool (search \<noteq> None)
      in if marks \<noteq> params then Inl ''VAULT_DB_011''
         else Inr (sort_key (\<lambda>e. - er_updated_at e)
           (filter (\<lambda>e. (folder = None \<or> er_folder_id e = folder) \<and> (case search of None \<Rightarrow> True | Some s \<Rightarrow> title_matches s (er_title e)))
             (vt_entries st))))"

definition get_row :: "string \<Rightarrow> vault_store \<Rightarrow> entry_row option" where
  "get_row i st = find (\<lambda>e. er_id e = i) (vt_entries st)"

section \<open>The tables stay consistent\<close>

definition store_ok :: "vault_store \<Rightarrow> bool" where
  "store_ok st \<longleftrightarrow> distinct (map vf_id (vt_folders st)) \<and> distinct (map er_id (vt_entries st))
     \<and> (\<forall>e\<in>set (vt_entries st). folder_known st (er_folder_id e))"

lemma folder_known_ids: "vf_id ` set (vt_folders st') = vf_id ` set (vt_folders st) \<Longrightarrow> folder_known st' = folder_known st"
  by (simp add: folder_known_def fun_eq_iff split: option.split)

lemma map_same_key: "(\<And>x. k (f x) = k x) \<Longrightarrow> map k (map f xs) = map k xs"
  by simp

lemma create_folder_ok: "store_ok st \<Longrightarrow> store_ok (snd (create_folder nid now name st))"
  by (auto simp: store_ok_def create_folder_def Let_def folder_known_def split: option.splits)

lemma rename_folder_ok:
  assumes ok: "store_ok st"
  shows "store_ok (snd (rename_folder i name st))"
proof -
  have ids: "map vf_id (vt_folders (snd (rename_folder i name st))) = map vf_id (vt_folders st)"
    unfolding rename_folder_def by (simp add: map_same_key)
  then have "folder_known (snd (rename_folder i name st)) = folder_known st"
    by (intro folder_known_ids) (metis list.set_map)
  then show ?thesis using ok ids by (simp add: store_ok_def) (simp add: rename_folder_def)
qed

lemma delete_folder_ok:
  assumes ok: "store_ok st"
  shows "store_ok (snd (delete_folder i st))"
proof -
  let ?f = "\<lambda>e. if er_folder_id e = Some i then e\<lparr>er_folder_id := None\<rparr> else e"
  have known: "folder_known (snd (delete_folder i st)) (er_folder_id (?f e))" if "folder_known st (er_folder_id e)" for e
    using that by (auto simp: folder_known_def delete_folder_def split: option.splits)
  have "map er_id (map ?f (vt_entries st)) = map er_id (vt_entries st)" by (rule map_same_key) simp
  then have "distinct (map er_id (vt_entries (snd (delete_folder i st))))" using ok by (simp add: store_ok_def delete_folder_def del: map_map)
  moreover have "distinct (map vf_id (vt_folders (snd (delete_folder i st))))"
    using ok by (simp add: store_ok_def delete_folder_def distinct_map_filter)
  moreover have "\<forall>e\<in>set (vt_entries (snd (delete_folder i st))). folder_known (snd (delete_folder i st)) (er_folder_id e)"
  proof
    fix e' assume "e' \<in> set (vt_entries (snd (delete_folder i st)))"
    then obtain e where "e \<in> set (vt_entries st)" "e' = ?f e" unfolding delete_folder_def by auto
    then show "folder_known (snd (delete_folder i st)) (er_folder_id e')" using known [of e] ok unfolding store_ok_def by blast
  qed
  ultimately show ?thesis by (simp add: store_ok_def)
qed

lemma insert_entry_ok: "store_ok st \<Longrightarrow> store_ok (snd (insert_entry row st))"
  by (auto simp: store_ok_def insert_entry_def folder_known_def split: option.splits)

lemma update_row_ok:
  assumes ok: "store_ok st"
  shows "store_ok (snd (update_row row st))"
proof -
  let ?f = "\<lambda>e. if er_id e = er_id row then row\<lparr>er_created_at := er_created_at e\<rparr> else e"
  have "map er_id (map ?f (vt_entries st)) = map er_id (vt_entries st)" by (rule map_same_key) simp
  then have d: "distinct (map er_id (map ?f (vt_entries st)))" using ok by (simp only: store_ok_def)
  have f: "\<forall>e\<in>set (map ?f (vt_entries st)). folder_known st (er_folder_id e)" if "folder_known st (er_folder_id row)"
    using ok that by (auto simp: store_ok_def)
  have k: "folder_known (st\<lparr>vt_entries := es\<rparr>) = folder_known st" for es by (rule folder_known_ids) simp
  show ?thesis
  proof (cases "er_id row \<in> er_id ` set (vt_entries st) \<and> folder_known st (er_folder_id row)")
    case True
    then show ?thesis using ok d f by (simp add: update_row_def store_ok_def k del: map_map set_map)
  next
    case False
    then have "snd (update_row row st) = st" by (auto simp: update_row_def)
    then show ?thesis using ok by simp
  qed
qed

lemma delete_row_ok: "store_ok st \<Longrightarrow> store_ok (snd (delete_row i st))"
  by (auto simp: store_ok_def delete_row_def folder_known_def distinct_map_filter split: option.splits)

lemmas store_ops_ok = create_folder_ok rename_folder_ok delete_folder_ok insert_entry_ok update_row_ok delete_row_ok

lemma get_row_inserted:
  "insert_entry row st = (Inr (), st') \<Longrightarrow> get_row (er_id row) st' = Some row \<and> (j \<noteq> er_id row \<longrightarrow> get_row j st' = get_row j st)"
proof -
  assume i: "insert_entry row st = (Inr (), st')"
  then have e: "vt_entries st' = vt_entries st @ [row]" "er_id row \<notin> er_id ` set (vt_entries st)"
    by (auto simp: insert_entry_def split: if_splits)
  have app: "find P (xs @ [row]) = (case find P xs of None \<Rightarrow> if P row then Some row else None | Some x \<Rightarrow> Some x)" for P xs
    by (induction xs) auto
  have "find (\<lambda>e. er_id e = er_id row) (vt_entries st) = None" using e(2) unfolding find_None_iff by (metis imageI)
  then show ?thesis by (auto simp: get_row_def e(1) app split: option.split)
qed

text \<open>An empty search text is bound but not asked for: the list is refused.\<close>

lemma empty_search_refused: "list_rows folder (Some []) st = Inl ''VAULT_DB_011''"
  by (simp add: list_rows_def)

lemma list_rows_all:
  "list_rows None None st = Inr rows \<Longrightarrow> mset rows = mset (vt_entries st)"
  by (auto simp: list_rows_def)

end
