(* ===== verification/Vault_Service.thy ===== *)
theory Vault_Service
  imports Vault_Store
begin

text \<open>
  The vault service (\<open>crates/vault-core/src/vault.rs\<close>) and the watchdog's tick (\<open>module.rs\<close>): creating,
  unlocking and locking, the password change, the second unlocking path over Windows Hello, the
  footprint of activity and the operations on entries.  Instants are milliseconds.  Unlocking derives
  a key without holding the lock, so it is two steps with a snapshot between them; \<open>vault_act\<close> runs any
  interleaving of such attempts with the other operations.  The other unlocking path is one step.
\<close>

section \<open>State\<close>

definition vault_max_attempts :: nat where "vault_max_attempts = 5"
definition lockout_ms :: nat where "lockout_ms = 300000"

datatype vault_state = Uninitialized | VaultLocked | VaultUnlocked

datatype vault_inner = VUninit | VLocked | VUnlocked bytes | VCooling nat

record vault_service =
  vs_header :: "vault_header option"
  vs_inner :: vault_inner
  vs_attempts :: nat
  vs_epoch :: nat
  vs_touch :: nat
  vs_blur :: "nat option"
  vs_hello_failures :: nat
  vs_hello_forced :: bool
  vs_store :: vault_store
  vs_meta :: "vault_header option"

text \<open>\<open>meta\<close>: what the header file holds, if it is there and can be decoded.\<close>

definition vault_open :: "nat \<Rightarrow> (string + vault_header) option \<Rightarrow> vault_store \<Rightarrow> string + vault_service" where
  "vault_open now meta st =
     res_bind (case meta of None \<Rightarrow> Inr None | Some (Inl code) \<Rightarrow> Inl code | Some (Inr h) \<Rightarrow> Inr (Some h)) (\<lambda>header.
       Inr \<lparr>vs_header = header, vs_inner = (if header = None then VUninit else VLocked), vs_attempts = 0, vs_epoch = now,
            vs_touch = now, vs_blur = None, vs_hello_failures = 0, vs_hello_forced = False, vs_store = st, vs_meta = header\<rparr>)"

definition vault_state_of :: "vault_service \<Rightarrow> vault_state" where
  "vault_state_of s =
     (case vs_inner s of VUninit \<Rightarrow> Uninitialized | VLocked \<Rightarrow> VaultLocked | VCooling _ \<Rightarrow> VaultLocked | VUnlocked _ \<Rightarrow> VaultUnlocked)"

definition lockout_remaining_secs :: "nat \<Rightarrow> vault_service \<Rightarrow> nat" where
  "lockout_remaining_secs now s = (case vs_inner s of VCooling until \<Rightarrow> (until - now) div 1000 | _ \<Rightarrow> 0)"

definition touch :: "nat \<Rightarrow> vault_service \<Rightarrow> vault_service" where
  "touch now s = s\<lparr>vs_touch := now\<rparr>"

definition set_blur :: "nat \<Rightarrow> bool \<Rightarrow> vault_service \<Rightarrow> vault_service" where
  "set_blur now blurred s =
     (if blurred then (if vs_blur s = None then s\<lparr>vs_blur := Some now\<rparr> else s) else s\<lparr>vs_blur := None\<rparr>)"

definition persist_header :: "bool \<Rightarrow> vault_header \<Rightarrow> vault_service \<Rightarrow> string + vault_service" where
  "persist_header io h s = (if io then Inr (s\<lparr>vs_meta := Some h\<rparr>) else Inl ''VAULT_META_004'')"

section \<open>Passwords\<close>

definition vault_create ::
    "vault_crypto \<Rightarrow> bool \<Rightarrow> nat \<Rightarrow> string \<Rightarrow> kdf_params option \<Rightarrow> bytes \<Rightarrow> string \<Rightarrow> bytes \<Rightarrow> bytes \<Rightarrow> vault_service \<Rightarrow>
     (string + vault_header) \<times> vault_service" where
  "vault_create c io now password kdf salt vault_id dek nonce s =
     (if vs_inner s \<noteq> VUninit then (Inl ''VAULT_STATE_001'', s)
      else case res_bind (create_vault_with c password (unwrap_or default_kdf kdf) salt vault_id dek nonce) (\<lambda>(h, k).
             res_bind (persist_header io h s) (\<lambda>s1. Inr (h, touch now (s1\<lparr>vs_header := Some h, vs_inner := VUnlocked k\<rparr>)))) of
        Inl e \<Rightarrow> (Inl e, s)
      | Inr (h, s1) \<Rightarrow> (Inr h, s1))"

text \<open>The look under the lock, with the snapshot of the counter.\<close>

datatype unlock_gate = GateRefused string | GateOpen | GateTry nat

definition unlock_begin :: "nat \<Rightarrow> vault_service \<Rightarrow> unlock_gate" where
  "unlock_begin now s =
     (case vs_inner s of
        VUninit \<Rightarrow> GateRefused ''VAULT_STATE_002''
      | VCooling until \<Rightarrow> if now < until then GateRefused ''VAULT_LOCKED_002'' else GateTry (vs_attempts s)
      | VUnlocked _ \<Rightarrow> GateOpen
      | VLocked \<Rightarrow> GateTry (vs_attempts s))"

definition unlock_finish :: "nat \<Rightarrow> nat \<Rightarrow> string + bytes \<Rightarrow> vault_service \<Rightarrow> (string + unit) \<times> vault_service" where
  "unlock_finish now snapshot result s =
     (case result of
        Inr dek \<Rightarrow>
          (Inr (), touch now (s\<lparr>vs_attempts := 0, vs_hello_failures := 0, vs_hello_forced := False, vs_inner := VUnlocked dek\<rparr>))
      | Inl e \<Rightarrow>
          let attempts = snapshot + 1 in
          if vault_max_attempts \<le> attempts
          then (Inl ''VAULT_LOCKED_002'', s\<lparr>vs_attempts := 0, vs_inner := VCooling (now + lockout_ms)\<rparr>)
          else (Inl e, s\<lparr>vs_attempts := attempts, vs_inner := VLocked\<rparr>))"

text \<open>\<open>now'\<close> is the time when the derivation is done.\<close>

definition unlock :: "vault_crypto \<Rightarrow> nat \<Rightarrow> nat \<Rightarrow> string \<Rightarrow> vault_service \<Rightarrow> (string + unit) \<times> vault_service" where
  "unlock c now now' password s =
     (case unlock_begin now s of
        GateRefused e \<Rightarrow> (Inl e, s)
      | GateOpen \<Rightarrow> (Inr (), s)
      | GateTry snapshot \<Rightarrow>
          (case vs_header s of
             None \<Rightarrow> (Inl ''VAULT_META_003'', s)
           | Some h \<Rightarrow> unlock_finish now' snapshot (unwrap_dek c h password) s))"

definition vault_lock :: "vault_service \<Rightarrow> vault_service" where
  "vault_lock s = (case vs_inner s of VUnlocked _ \<Rightarrow> s\<lparr>vs_inner := VLocked\<rparr> | _ \<Rightarrow> s)"

text \<open>A new header is persisted first, then kept.\<close>

definition keep_header :: "bool \<Rightarrow> vault_header \<Rightarrow> vault_service \<Rightarrow> (string + vault_header) \<times> vault_service" where
  "keep_header io h s =
     (case persist_header io h s of Inl e \<Rightarrow> (Inl e, s) | Inr s1 \<Rightarrow> (Inr h, s1\<lparr>vs_header := Some h\<rparr>))"

definition change_master_password ::
    "vault_crypto \<Rightarrow> bool \<Rightarrow> string \<Rightarrow> string \<Rightarrow> bytes \<Rightarrow> bytes \<Rightarrow> vault_service \<Rightarrow> (string + vault_header) \<times> vault_service" where
  "change_master_password c io old new salt nonce s =
     (if vault_state_of s \<noteq> VaultUnlocked then (Inl ''VAULT_LOCKED_001'', s)
      else case vs_header s of
        None \<Rightarrow> (Inl ''VAULT_META_003'', s)
      | Some h \<Rightarrow> (case rewrap_header c h old new salt nonce of Inl e \<Rightarrow> (Inl e, s) | Inr h' \<Rightarrow> keep_header io h' s))"

definition dek_of :: "vault_service \<Rightarrow> string + bytes" where
  "dek_of s = (case vs_inner s of VUnlocked dek \<Rightarrow> Inr dek | _ \<Rightarrow> Inl ''VAULT_LOCKED_001'')"

section \<open>The second path\<close>

record hello_port =
  hp_verify :: bool
  hp_protect :: "bytes \<Rightarrow> string + bytes"
  hp_unprotect :: "bytes \<Rightarrow> string + bytes"
  hp_unb64_lenient :: "string \<Rightarrow> bytes option"

definition hello_enabled :: "vault_service \<Rightarrow> bool" where
  "hello_enabled s = (case vs_header s of None \<Rightarrow> False | Some h \<Rightarrow> vh_hello h \<noteq> None)"

text \<open>\<open>ports\<close>: the two ports, or the code of the one that is missing.\<close>

definition hello_enable ::
    "vault_crypto \<Rightarrow> bool \<Rightarrow> string + hello_port \<Rightarrow> bytes \<Rightarrow> vault_service \<Rightarrow> (string + vault_header) \<times> vault_service" where
  "hello_enable c io ports nonce s =
     (if vault_state_of s \<noteq> VaultUnlocked then (Inl ''VAULT_LOCKED_001'', s)
      else case res_bind ports (\<lambda>p.
          if \<not> hp_verify p then Inl ''VERIFY'' else
          res_bind (ok_or ''VAULT_META_003'' (vs_header s)) (\<lambda>h.
          res_bind (dek_of s) (\<lambda>dek.
          res_bind (hp_protect p dek) (\<lambda>wrapped.
            Inr (h\<lparr>vh_hello := Some \<lparr>he_wrapped_dek_b64 = vc_b64 c wrapped,
              he_verifier = seal_hello_verifier c dek (vh_vault_id h) nonce\<rparr>\<rparr>))))) of
        Inl e \<Rightarrow> (Inl e, s)
      | Inr h' \<Rightarrow> (case keep_header io h' s of
          (Inl e, s1) \<Rightarrow> (Inl e, s1)
        | (Inr h'', s1) \<Rightarrow> (Inr h'', s1\<lparr>vs_hello_failures := 0\<rparr>)))"

definition hello_disable :: "bool \<Rightarrow> vault_service \<Rightarrow> (string + vault_header) \<times> vault_service" where
  "hello_disable io s =
     (if vault_state_of s \<noteq> VaultUnlocked then (Inl ''VAULT_LOCKED_001'', s)
      else case vs_header s of
        None \<Rightarrow> (Inl ''VAULT_META_003'', s)
      | Some h \<Rightarrow> if vh_hello h = None then (Inr h, s) else keep_header io (h\<lparr>vh_hello := None\<rparr>) s)"

definition count_hello_failure :: "vault_service \<Rightarrow> vault_service" where
  "count_hello_failure s =
     (let f = vs_hello_failures s + 1 in
      if vault_max_attempts \<le> f then s\<lparr>vs_hello_failures := 0, vs_hello_forced := True\<rparr> else s\<lparr>vs_hello_failures := f\<rparr>)"

definition hello_unlock ::
    "vault_crypto \<Rightarrow> nat \<Rightarrow> string + hello_port \<Rightarrow> vault_service \<Rightarrow> (string + unit) \<times> vault_service" where
  "hello_unlock c now ports s =
     (case unlock_begin now s of
        GateRefused e \<Rightarrow> (Inl e, s)
      | GateOpen \<Rightarrow> (Inr (), s)
      | GateTry _ \<Rightarrow>
          if vs_hello_forced s then (Inl ''VAULT_HELLO_003'', s)
          else case vs_header s of
            None \<Rightarrow> (Inl ''VAULT_HELLO_004'', s)
          | Some h \<Rightarrow>
              (case vh_hello h of
                 None \<Rightarrow> (Inl ''VAULT_HELLO_004'', s)
               | Some env \<Rightarrow>
                   (case ports of
                      Inl e \<Rightarrow> (Inl e, s)
                    | Inr p \<Rightarrow>
                        if \<not> hp_verify p then (Inl ''VERIFY'', count_hello_failure s)
                        else case hp_unb64_lenient p (he_wrapped_dek_b64 env) of
                          None \<Rightarrow> (Inl ''VAULT_HELLO_005'', s)
                        | Some wrapped \<Rightarrow>
                            (case hp_unprotect p wrapped of
                               Inl e \<Rightarrow> (Inl ''VAULT_HELLO_006'', count_hello_failure s)
                             | Inr dek \<Rightarrow>
                                 if length dek \<noteq> vault_key_len then (Inl ''VAULT_HELLO_006'', count_hello_failure s)
                                 else case open_hello_verifier c dek (vh_vault_id h) (he_verifier env) of
                                   Inl e \<Rightarrow> (Inl e, count_hello_failure s)
                                 | Inr _ \<Rightarrow> (Inr (), touch now (s\<lparr>vs_hello_failures := 0, vs_inner := VUnlocked dek\<rparr>))))))"

section \<open>The watchdog\<close>

text \<open>What the watchdog asks: the seconds since the vault was opened, and the seconds since the last touch and
  since the window lost the focus.\<close>

definition since :: "nat \<Rightarrow> vault_service \<Rightarrow> nat \<Rightarrow> nat" where
  "since now s t = (now - max (vs_epoch s) t) div 1000"

definition service_autolock :: "nat \<Rightarrow> autolock_policy \<Rightarrow> vault_service \<Rightarrow> autolock_action option" where
  "service_autolock now policy s =
     (if vault_state_of s \<noteq> VaultUnlocked then None
      else autolock_evaluate ((now - vs_epoch s) div 1000) (since now s (vs_touch s)) (map_option (since now s) (vs_blur s)) policy)"

datatype tick_event = LockedEvent | WarningEvent nat

definition run_tick :: "nat \<Rightarrow> autolock_policy \<Rightarrow> bool \<Rightarrow> vault_service \<Rightarrow> tick_event list \<times> bool \<times> vault_service" where
  "run_tick now policy warned s =
     (case service_autolock now policy s of
        Some Lock \<Rightarrow> ([LockedEvent], False, vault_lock s)
      | Some (Warn secs) \<Rightarrow> (if warned then [] else [WarningEvent secs], True, s)
      | None \<Rightarrow> ([], False, s))"

definition policy_from :: "json option \<Rightarrow> autolock_policy" where
  "policy_from cfg =
     (let mins = (\<lambda>key d. unwrap_or d (Option.bind cfg (\<lambda>v. Option.bind (jget v key) jas_u64)))
      in \<lparr>al_idle_secs = mins ''auto_lock_idle_mins'' 15 * 60, al_blur_secs = mins ''auto_lock_blur_mins'' 5 * 60\<rparr>)"

section \<open>Entries\<close>

text \<open>The JSON form of the fields; UTF-8 as the standard library checks it.\<close>

record fields_json =
  fj_encode :: "entry_field list \<Rightarrow> bytes"
  fj_decode :: "bytes \<Rightarrow> entry_field list option"

fun utf8_valid :: "bytes \<Rightarrow> bool" where
  "utf8_valid [] = True"
| "utf8_valid (b # bs) =
     (let n = unat b; cont = (\<lambda>c. 0x80 \<le> unat c \<and> unat c \<le> (0xBF :: nat)) in
      if n \<le> 0x7F then utf8_valid bs
      else if 0xC2 \<le> n \<and> n \<le> 0xDF then (case bs of x # r \<Rightarrow> cont x \<and> utf8_valid r | _ \<Rightarrow> False)
      else if 0xE0 \<le> n \<and> n \<le> 0xEF then
        (case bs of x # y # r \<Rightarrow> cont x \<and> (n = 0xE0 \<longrightarrow> 0xA0 \<le> unat x) \<and> (n = 0xED \<longrightarrow> unat x \<le> 0x9F) \<and> cont y \<and> utf8_valid r
         | _ \<Rightarrow> False)
      else if 0xF0 \<le> n \<and> n \<le> 0xF4 then
        (case bs of x # y # z # r \<Rightarrow>
             cont x \<and> (n = 0xF0 \<longrightarrow> 0x90 \<le> unat x) \<and> (n = 0xF4 \<longrightarrow> unat x \<le> 0x8F) \<and> cont y \<and> cont z \<and> utf8_valid r
         | _ \<Rightarrow> False)
      else False)"

definition from_utf8 :: "bytes \<Rightarrow> string option" where
  "from_utf8 bs = (if utf8_valid bs then Some (map (\<lambda>b. char_of (unat b)) bs) else None)"

definition decrypt_row :: "vault_crypto \<Rightarrow> fields_json \<Rightarrow> bytes \<Rightarrow> entry_row \<Rightarrow> vault_entry" where
  "decrypt_row c fj dek row =
     \<lparr>ve_id = er_id row, ve_folder_id = er_folder_id row, ve_title = er_title row, ve_favorite = er_favorite row,
      ve_fields = (case open_field c dek (er_id row) (er_fields_ct row) of Inl _ \<Rightarrow> [] | Inr b \<Rightarrow> unwrap_or [] (fj_decode fj b)),
      ve_totp_secret = Option.bind (er_totp_ct row) (\<lambda>ct.
        case open_field c dek (er_id row) ct of Inl _ \<Rightarrow> None | Inr b \<Rightarrow> from_utf8 b),
      ve_created_at = er_created_at row, ve_updated_at = er_updated_at row\<rparr>"

definition seal_row :: "vault_crypto \<Rightarrow> fields_json \<Rightarrow> bytes \<Rightarrow> bytes \<Rightarrow> bytes \<Rightarrow> vault_entry \<Rightarrow> entry_row" where
  "seal_row c fj dek n1 n2 e =
     \<lparr>er_id = ve_id e, er_folder_id = ve_folder_id e, er_title = ve_title e, er_favorite = ve_favorite e,
      er_fields_ct = seal_field c dek (ve_id e) n1 (fj_encode fj (ve_fields e)),
      er_totp_ct = map_option (\<lambda>t. seal_field c dek (ve_id e) n2 (str_bytes t)) (ve_totp_secret e),
      er_created_at = ve_created_at e, er_updated_at = ve_updated_at e\<rparr>"

definition on_store :: "vault_store \<Rightarrow> vault_service \<Rightarrow> vault_service" where
  "on_store st s = s\<lparr>vs_store := st\<rparr>"

definition add_entry ::
    "vault_crypto \<Rightarrow> fields_json \<Rightarrow> string \<Rightarrow> int \<Rightarrow> bytes \<Rightarrow> bytes \<Rightarrow> string option \<Rightarrow> string \<Rightarrow> bool \<Rightarrow> entry_field list \<Rightarrow>
     string option \<Rightarrow> vault_service \<Rightarrow> (string + vault_entry) \<times> vault_service" where
  "add_entry c fj nid now n1 n2 folder title favorite flds totp s =
     (case dek_of s of
        Inl e \<Rightarrow> (Inl e, s)
      | Inr dek \<Rightarrow>
          (let row = seal_row c fj dek n1 n2
               \<lparr>ve_id = nid, ve_folder_id = folder, ve_title = title, ve_favorite = favorite, ve_fields = flds,
                ve_totp_secret = totp, ve_created_at = now, ve_updated_at = now\<rparr>
           in case insert_entry row (vs_store s) of
                (Inl e, _) \<Rightarrow> (Inl e, s)
              | (Inr _, st) \<Rightarrow> (Inr (decrypt_row c fj dek row), on_store st s)))"

definition update_entry ::
    "vault_crypto \<Rightarrow> fields_json \<Rightarrow> int \<Rightarrow> bytes \<Rightarrow> bytes \<Rightarrow> vault_entry \<Rightarrow> vault_service \<Rightarrow> (string + vault_entry) \<times> vault_service" where
  "update_entry c fj now n1 n2 e s =
     (case dek_of s of
        Inl er \<Rightarrow> (Inl er, s)
      | Inr dek \<Rightarrow>
          (let row = seal_row c fj dek n1 n2 (e\<lparr>ve_updated_at := now\<rparr>)
           in case update_row row (vs_store s) of
                (Inl er, _) \<Rightarrow> (Inl er, s)
              | (Inr False, _) \<Rightarrow> (Inl ''VAULT_DB_014'', s)
              | (Inr True, st) \<Rightarrow> (Inr (decrypt_row c fj dek row), on_store st s)))"

definition delete_entry :: "string \<Rightarrow> vault_service \<Rightarrow> (string + bool) \<times> vault_service" where
  "delete_entry i s =
     (case dek_of s of
        Inl e \<Rightarrow> (Inl e, s)
      | Inr _ \<Rightarrow> (let (b, st) = delete_row i (vs_store s) in (Inr b, on_store st s)))"

definition list_entries ::
    "vault_crypto \<Rightarrow> fields_json \<Rightarrow> string option \<Rightarrow> string option \<Rightarrow> vault_service \<Rightarrow> string + vault_entry list" where
  "list_entries c fj folder search s =
     res_bind (dek_of s) (\<lambda>dek. res_bind (list_rows folder search (vs_store s)) (\<lambda>rows. Inr (map (decrypt_row c fj dek) rows)))"

definition get_entry :: "vault_crypto \<Rightarrow> fields_json \<Rightarrow> string \<Rightarrow> vault_service \<Rightarrow> string + vault_entry option" where
  "get_entry c fj i s = res_bind (dek_of s) (\<lambda>dek. Inr (map_option (decrypt_row c fj dek) (get_row i (vs_store s))))"

definition vault_create_folder :: "string \<Rightarrow> int \<Rightarrow> string \<Rightarrow> vault_service \<Rightarrow> (string + vault_folder) \<times> vault_service" where
  "vault_create_folder nid now name s = (let (r, st) = create_folder nid now name (vs_store s) in (r, on_store st s))"

definition vault_rename_folder :: "string \<Rightarrow> string \<Rightarrow> vault_service \<Rightarrow> bool \<times> vault_service" where
  "vault_rename_folder i name s = (let (r, st) = rename_folder i name (vs_store s) in (r, on_store st s))"

definition vault_delete_folder :: "string \<Rightarrow> vault_service \<Rightarrow> bool \<times> vault_service" where
  "vault_delete_folder i s = (let (r, st) = delete_folder i (vs_store s) in (r, on_store st s))"

lemma on_store_inner [simp]: "vs_inner (on_store st s) = vs_inner s"
  by (simp add: on_store_def)

section \<open>Sealed rows\<close>

lemma from_utf8_str: "utf8_valid (str_bytes t) \<Longrightarrow> from_utf8 (str_bytes t) = Some t"
proof -
  have "char_of (unat (of_nat (of_char ch) :: byte)) = ch" for ch :: char
    using unat_of_nat_small [where ?'a = 8, of "of_char ch"] by simp
  then show "utf8_valid (str_bytes t) \<Longrightarrow> from_utf8 (str_bytes t) = Some t"
    by (simp add: from_utf8_def str_bytes_def comp_def)
qed

definition json_law :: "fields_json \<Rightarrow> bool" where
  "json_law fj \<longleftrightarrow> (\<forall>fs. fj_decode fj (fj_encode fj fs) = Some fs)"

definition totp_text :: "string option \<Rightarrow> bool" where
  "totp_text t \<longleftrightarrow> (case t of None \<Rightarrow> True | Some s \<Rightarrow> utf8_valid (str_bytes s))"

lemma decrypt_sealed:
  assumes "crypto_laws c" "json_law fj" "length n1 = vault_nonce_len" "length n2 = vault_nonce_len" "totp_text (ve_totp_secret e)"
  shows "decrypt_row c fj dek (seal_row c fj dek n1 n2 e) = e"
  using assms
  by (cases "ve_totp_secret e")
    (simp_all add: decrypt_row_def seal_row_def field_roundtrip json_law_def totp_text_def from_utf8_str)

text \<open>Without the key there is no operation on entries, and nothing changes.\<close>

lemma locked_refuses:
  assumes "vault_state_of s \<noteq> VaultUnlocked"
  shows "add_entry c fj nid now n1 n2 folder title favorite flds totp s = (Inl ''VAULT_LOCKED_001'', s)"
    and "update_entry c fj now n1 n2 e s = (Inl ''VAULT_LOCKED_001'', s)"
    and "delete_entry i s = (Inl ''VAULT_LOCKED_001'', s)"
    and "list_entries c fj f q s = Inl ''VAULT_LOCKED_001''" "get_entry c fj i s = Inl ''VAULT_LOCKED_001''"
  using assms
  by (auto simp: add_entry_def update_entry_def delete_entry_def list_entries_def get_entry_def dek_of_def vault_state_of_def
      split: vault_inner.splits)

lemma add_entry_row:
  assumes "add_entry c fj nid now n1 n2 folder title favorite flds totp s = (Inr e, s1)"
  shows "\<exists>dek row. vs_inner s = VUnlocked dek \<and> s1 = on_store (vs_store s1) s \<and> get_row nid (vs_store s1) = Some row
    \<and> row = seal_row c fj dek n1 n2 \<lparr>ve_id = nid, ve_folder_id = folder, ve_title = title, ve_favorite = favorite,
        ve_fields = flds, ve_totp_secret = totp, ve_created_at = now, ve_updated_at = now\<rparr>
    \<and> e = decrypt_row c fj dek row"
proof -
  let ?e = "\<lparr>ve_id = nid, ve_folder_id = folder, ve_title = title, ve_favorite = favorite,
        ve_fields = flds, ve_totp_secret = totp, ve_created_at = now, ve_updated_at = now\<rparr>"
  obtain dek where dek: "vs_inner s = VUnlocked dek"
    using assms by (auto simp: add_entry_def dek_of_def split: vault_inner.splits)
  let ?row = "seal_row c fj dek n1 n2 ?e"
  obtain st where st: "insert_entry ?row (vs_store s) = (Inr (), st)" "s1 = on_store st s" "e = decrypt_row c fj dek ?row"
    using assms dek by (auto simp: add_entry_def dek_of_def Let_def split: prod.splits sum.splits)
  have "er_id ?row = nid" by (simp add: seal_row_def)
  then show ?thesis using dek st get_row_inserted [OF st(1)] by (simp add: on_store_def)
qed

section \<open>Interleavings\<close>

text \<open>An attempt in flight: the snapshot of the counter, the header it works on, the password.\<close>

type_synonym vault_try = "nat \<times> vault_header \<times> string"

datatype vault_event =
    BeginUnlock nat string | FinishUnlock nat nat | LockVault
  | ChangePassword bool string string bytes bytes
  | EnableHello bool "string + hello_port" bytes | DisableHello bool | HelloUnlock nat "string + hello_port"
  | Touch nat | Blur nat bool | Tick nat autolock_policy | StoreOp vault_store

fun vault_act :: "vault_crypto \<Rightarrow> vault_event \<Rightarrow> vault_service \<times> vault_try list \<Rightarrow> vault_service \<times> vault_try list" where
  "vault_act c (BeginUnlock now pw) (s, ts) =
     (case (unlock_begin now s, vs_header s) of (GateTry a, Some h) \<Rightarrow> (s, ts @ [(a, h, pw)]) | _ \<Rightarrow> (s, ts))"
| "vault_act c (FinishUnlock i now) (s, ts) =
     (if i < length ts
      then (let (a, h, pw) = ts ! i in (snd (unlock_finish now a (unwrap_dek c h pw) s), take i ts @ drop (Suc i) ts))
      else (s, ts))"
| "vault_act c LockVault (s, ts) = (vault_lock s, ts)"
| "vault_act c (ChangePassword io old new salt nonce) (s, ts) = (snd (change_master_password c io old new salt nonce s), ts)"
| "vault_act c (EnableHello io ports nonce) (s, ts) = (snd (hello_enable c io ports nonce s), ts)"
| "vault_act c (DisableHello io) (s, ts) = (snd (hello_disable io s), ts)"
| "vault_act c (HelloUnlock now ports) (s, ts) = (snd (hello_unlock c now ports s), ts)"
| "vault_act c (Touch now) (s, ts) = (touch now s, ts)"
| "vault_act c (Blur now b) (s, ts) = (set_blur now b s, ts)"
| "vault_act c (Tick now policy) (s, ts) = (snd (snd (run_tick now policy False s)), ts)"
| "vault_act c (StoreOp st) (s, ts) = (on_store st s, ts)"

definition vault_run :: "vault_crypto \<Rightarrow> vault_event list \<Rightarrow> vault_service \<times> vault_try list \<Rightarrow> vault_service \<times> vault_try list" where
  "vault_run c evs sys = fold (vault_act c) evs sys"

text \<open>Nonces have the length the library draws.\<close>

fun event_ok :: "vault_event \<Rightarrow> bool" where
  "event_ok (ChangePassword io old new salt nonce) = (length nonce = vault_nonce_len)"
| "event_ok (EnableHello io ports nonce) = (length nonce = vault_nonce_len)"
| "event_ok _ = True"

text \<open>A header of the vault \<open>vid\<close> whose data key is \<open>dek\<close>.\<close>

definition header_of :: "vault_crypto \<Rightarrow> string \<Rightarrow> bytes \<Rightarrow> vault_header \<Rightarrow> bool" where
  "header_of c vid dek h \<longleftrightarrow> vh_vault_id h = vid \<and> (\<exists>pw. holds_key c h pw dek)
     \<and> (\<forall>env. vh_hello h = Some env \<longrightarrow> (\<exists>nonce. length nonce = vault_nonce_len \<and> he_verifier env = seal_hello_verifier c dek vid nonce))"

definition keyed :: "vault_crypto \<Rightarrow> string \<Rightarrow> bytes \<Rightarrow> vault_service \<times> vault_try list \<Rightarrow> bool" where
  "keyed c vid dek sys \<longleftrightarrow>
     (\<exists>h. vs_header (fst sys) = Some h \<and> header_of c vid dek h) \<and> vs_meta (fst sys) = vs_header (fst sys)
     \<and> (\<forall>k. vs_inner (fst sys) = VUnlocked k \<longrightarrow> k = dek) \<and> vs_inner (fst sys) \<noteq> VUninit
     \<and> vs_attempts (fst sys) < vault_max_attempts \<and> vs_hello_failures (fst sys) < vault_max_attempts
     \<and> (\<forall>(a, h, pw)\<in>set (snd sys). header_of c vid dek h \<and> a < vault_max_attempts)"

lemma keyed_service:
  assumes "keyed c vid dek (s, ts)" "vs_header s' = vs_header s" "vs_meta s' = vs_meta s" "vs_attempts s' < vault_max_attempts"
    and "vs_hello_failures s' < vault_max_attempts" "vs_inner s' \<noteq> VUninit" "\<And>k. vs_inner s' = VUnlocked k \<Longrightarrow> k = dek"
  shows "keyed c vid dek (s', ts)"
  using assms by (auto simp: keyed_def)

lemma keyed_header:
  assumes "keyed c vid dek (s, ts)" "header_of c vid dek h"
  shows "keyed c vid dek (snd (keep_header io h s), ts)"
  using assms by (auto simp: keyed_def keep_header_def persist_header_def)

lemma vault_max_attempts_pos [simp]: "0 < vault_max_attempts"
  by (simp add: vault_max_attempts_def)

lemma keyed_finish:
  assumes laws: "crypto_laws c" "authentic c" and k: "keyed c vid dek (s, ts)" and h: "header_of c vid dek h"
  shows "keyed c vid dek (snd (unlock_finish now a (unwrap_dek c h pw) s), ts)"
proof (cases "unwrap_dek c h pw")
  case (Inr x)
  obtain p where "holds_key c h p dek" using h by (auto simp: header_of_def)
  then have "x = dek" using unwrap_only_held [OF laws _ Inr] by blast
  then show ?thesis using Inr by (intro keyed_service [OF k]) (simp_all add: unlock_finish_def touch_def)
next
  case (Inl e)
  have "vs_hello_failures s < vault_max_attempts" using k by (simp add: keyed_def)
  then show ?thesis using Inl by (intro keyed_service [OF k]) (auto simp: unlock_finish_def Let_def split: if_splits)
qed

lemma keyed_lock: "keyed c vid dek (s, ts) \<Longrightarrow> keyed c vid dek (vault_lock s, ts)"
  by (rule keyed_service) (auto simp: keyed_def vault_lock_def split: vault_inner.splits)

lemma keyed_count: "keyed c vid dek (s, ts) \<Longrightarrow> keyed c vid dek (count_hello_failure s, ts)"
  by (rule keyed_service) (auto simp: keyed_def count_hello_failure_def Let_def split: if_splits)

lemma hello_enable_cases:
  assumes "vs_header s = Some h" "vault_state_of s = VaultUnlocked \<Longrightarrow> vs_inner s = VUnlocked dek"
  shows "snd (hello_enable c io ports nonce s) = s \<or> (\<exists>x.
    let w = h\<lparr>vh_hello := Some \<lparr>he_wrapped_dek_b64 = x, he_verifier = seal_hello_verifier c dek (vh_vault_id h) nonce\<rparr>\<rparr> in
    snd (hello_enable c io ports nonce s) = snd (keep_header io w s)
    \<or> snd (hello_enable c io ports nonce s) = (snd (keep_header io w s))\<lparr>vs_hello_failures := 0\<rparr>)"
proof (cases "vault_state_of s = VaultUnlocked")
  case True
  then have dek: "dek_of s = Inr dek" using assms(2) by (simp add: dek_of_def)
  let ?bind = "res_bind ports (\<lambda>p. if \<not> hp_verify p then Inl ''VERIFY'' else
      res_bind (ok_or ''VAULT_META_003'' (vs_header s)) (\<lambda>h. res_bind (dek_of s) (\<lambda>dek. res_bind (hp_protect p dek) (\<lambda>wrapped.
        Inr (h\<lparr>vh_hello := Some \<lparr>he_wrapped_dek_b64 = vc_b64 c wrapped,
          he_verifier = seal_hello_verifier c dek (vh_vault_id h) nonce\<rparr>\<rparr>)))))"
  have e: "hello_enable c io ports nonce s = (case ?bind of Inl e \<Rightarrow> (Inl e, s)
      | Inr h' \<Rightarrow> (case keep_header io h' s of (Inl e, s1) \<Rightarrow> (Inl e, s1) | (Inr h'', s1) \<Rightarrow> (Inr h'', s1\<lparr>vs_hello_failures := 0\<rparr>)))"
    using True by (simp add: hello_enable_def)
  show ?thesis
  proof (cases ?bind)
    case (Inr w)
    then obtain x where w: "w = h\<lparr>vh_hello := Some \<lparr>he_wrapped_dek_b64 = x, he_verifier = seal_hello_verifier c dek (vh_vault_id h) nonce\<rparr>\<rparr>"
      using assms(1) dek by (auto simp: res_bind_eq_Inr split: if_splits)
    have "snd (hello_enable c io ports nonce s) = snd (keep_header io w s)
      \<or> snd (hello_enable c io ports nonce s) = (snd (keep_header io w s))\<lparr>vs_hello_failures := 0\<rparr>"
      unfolding e Inr by (auto split: prod.split sum.split)
    then show ?thesis unfolding w Let_def by blast
  qed (simp add: e)
qed (simp add: hello_enable_def)

lemma keyed_act:
  assumes laws: "crypto_laws c" "authentic c" and k: "keyed c vid dek sys" and ev: "event_ok e"
  shows "keyed c vid dek (vault_act c e sys)"
proof -
  obtain s ts where sys: "sys = (s, ts)" by fastforce
  note k = k [unfolded sys]
  obtain h where h: "vs_header s = Some h" "header_of c vid dek h" using k by (auto simp: keyed_def)
  have un: "vs_inner s = VUnlocked dek" if "vault_state_of s = VaultUnlocked"
    using that k by (auto simp: keyed_def vault_state_of_def split: vault_inner.splits)
  show ?thesis
    unfolding sys
  proof (cases e)
    case (BeginUnlock now pw)
    then show "keyed c vid dek (vault_act c e (s, ts))"
      using k h by (auto simp: keyed_def unlock_begin_def split: unlock_gate.splits vault_inner.splits if_splits)
  next
    case (FinishUnlock i now)
    show "keyed c vid dek (vault_act c e (s, ts))"
    proof (cases "i < length ts")
      case True
      obtain a h' pw where t: "ts ! i = (a, h', pw)" by (cases "ts ! i") auto
      then have "(a, h', pw) \<in> set ts" using True nth_mem by metis
      then have "header_of c vid dek h'" using k by (fastforce simp: keyed_def)
      moreover have "keyed c vid dek (s, take i ts @ drop (Suc i) ts)"
        using k by (auto simp: keyed_def dest: in_set_takeD in_set_dropD)
      ultimately show ?thesis using keyed_finish [OF laws] True FinishUnlock t by simp
    qed (use k FinishUnlock in simp)
  next
    case (ChangePassword io old new salt nonce)
    show "keyed c vid dek (vault_act c e (s, ts))"
    proof (cases "vault_state_of s = VaultUnlocked \<and> (\<exists>h'. rewrap_header c h old new salt nonce = Inr h')")
      case True
      then obtain h' where r: "rewrap_header c h old new salt nonce = Inr h'" by blast
      obtain p where "holds_key c h p dek" using h(2) by (auto simp: header_of_def)
      then have "header_of c vid dek h'"
        using rewrapped_holds [OF r laws] ev ChangePassword h(2) by (auto simp: header_of_def)
      then show ?thesis using keyed_header [OF k] True r h(1) ChangePassword by (simp add: change_master_password_def)
    qed (use k h(1) ChangePassword in \<open>auto simp: change_master_password_def split: sum.splits\<close>)
  next
    case (EnableHello io ports nonce)
    let ?w = "\<lambda>x. h\<lparr>vh_hello := Some \<lparr>he_wrapped_dek_b64 = x, he_verifier = seal_hello_verifier c dek (vh_vault_id h) nonce\<rparr>\<rparr>"
    have w: "header_of c vid dek (?w x)" for x using h(2) ev EnableHello by (auto simp: header_of_def holds_key_def)
    have zero: "keyed c vid dek (s1\<lparr>vs_hello_failures := 0\<rparr>, ts)" if "keyed c vid dek (s1, ts)" for s1
      using that by (intro keyed_service [OF that]) (auto simp: keyed_def)
    have "keyed c vid dek (snd (hello_enable c io ports nonce s), ts)"
    proof (cases "snd (hello_enable c io ports nonce s) = s")
      case False
      then obtain x where "snd (hello_enable c io ports nonce s) = snd (keep_header io (?w x) s)
        \<or> snd (hello_enable c io ports nonce s) = (snd (keep_header io (?w x) s))\<lparr>vs_hello_failures := 0\<rparr>"
        using hello_enable_cases [OF h(1) un, of c io ports nonce] unfolding Let_def by blast
      then show ?thesis using keyed_header [OF k w] zero by metis
    qed (use k in simp)
    then show "keyed c vid dek (vault_act c e (s, ts))" using EnableHello by simp
  next
    case (DisableHello io)
    have "header_of c vid dek (h\<lparr>vh_hello := None\<rparr>)" using h(2) by (auto simp: header_of_def holds_key_def)
    then show "keyed c vid dek (vault_act c e (s, ts))"
      using k keyed_header [OF k] h(1) DisableHello by (simp add: hello_disable_def)
  next
    case (HelloUnlock now ports)
    have "keyed c vid dek (snd (hello_unlock c now ports s), ts)"
    proof (cases "snd (hello_unlock c now ports s) = s \<or> snd (hello_unlock c now ports s) = count_hello_failure s")
      case True
      then show ?thesis using k keyed_count [OF k] by auto
    next
      case False
      then obtain env k' where o: "vh_hello h = Some env" "open_hello_verifier c k' (vh_vault_id h) (he_verifier env) = Inr ()"
        "snd (hello_unlock c now ports s) = touch now (s\<lparr>vs_hello_failures := 0, vs_inner := VUnlocked k'\<rparr>)"
        using h(1) by (auto simp: hello_unlock_def split: unlock_gate.splits option.splits sum.splits if_splits)
      then obtain nonce where "length nonce = vault_nonce_len" "he_verifier env = seal_hello_verifier c dek vid nonce" "vh_vault_id h = vid"
        using h(2) by (auto simp: header_of_def)
      then have "k' = dek" using hello_bound [OF laws] o(2) by metis
      moreover have "vs_attempts s < vault_max_attempts" using k by (simp add: keyed_def)
      ultimately show ?thesis unfolding o(3) by (intro keyed_service [OF k]) (simp_all add: touch_def)
    qed
    then show "keyed c vid dek (vault_act c e (s, ts))" using HelloUnlock by simp
  next
    case (Tick now policy)
    have "snd (snd (run_tick now policy False s)) = s \<or> snd (snd (run_tick now policy False s)) = vault_lock s"
      by (auto simp: run_tick_def split: option.splits autolock_action.splits)
    then show "keyed c vid dek (vault_act c e (s, ts))" using Tick k keyed_lock [OF k] by auto
  qed (use k keyed_lock [OF k] in \<open>auto simp: keyed_def touch_def set_blur_def on_store_def\<close>)
qed

lemma keyed_run:
  assumes "crypto_laws c" "authentic c" "keyed c vid dek sys" "list_all event_ok evs"
  shows "keyed c vid dek (vault_run c evs sys)"
  using assms(3,4) by (induction evs arbitrary: sys) (simp_all add: vault_run_def keyed_act [OF assms(1,2)])

section \<open>What the service guarantees\<close>

lemma created_keyed:
  assumes "vault_create c io now pw kdf salt vid dek nonce s = (Inr h, s')"
    and "length nonce = vault_nonce_len" "length dek = vault_key_len" "vs_attempts s < vault_max_attempts" "vs_hello_failures s < vault_max_attempts"
  shows "keyed c vid dek (s', []) \<and> vs_inner s' = VUnlocked dek"
proof -
  obtain k where cr: "create_vault_with c pw (unwrap_or default_kdf kdf) salt vid dek nonce = Inr (h, k)"
    and s': "s' = touch now (s\<lparr>vs_meta := Some h, vs_header := Some h, vs_inner := VUnlocked k\<rparr>)"
    using assms(1) by (auto simp: vault_create_def persist_header_def res_bind_eq_Inr split: sum.splits if_splits)
  have h: "k = dek" "vh_vault_id h = vid" "vh_hello h = None" "holds_key c h pw dek"
    using created_holds [OF cr assms(2,3)] by auto
  then have "header_of c vid dek h" by (auto simp: header_of_def)
  then show ?thesis using assms(4,5) h(1) s' by (simp add: keyed_def touch_def)
qed

text \<open>C17. An unlocked vault holds the key it was created with: after any interleaving of unlocking attempts
  with locking, password changes, the second unlocking path and the watchdog, a vault that is unlocked has
  the data key drawn at its creation, so no path leaves it open with a key that cannot read its entries;
  the counters stay below their limits.\<close>
theorem unlocked_key_is_created_key:
  assumes "crypto_laws c" "authentic c"
    and "vault_create c io now pw kdf salt vid dek nonce s = (Inr h, s1)" "length nonce = vault_nonce_len" "length dek = vault_key_len"
    and "vs_attempts s < vault_max_attempts" "vs_hello_failures s < vault_max_attempts" "list_all event_ok evs"
    and "vault_run c evs (s1, []) = (s2, ts)"
  shows "(vs_inner s2 = VLocked \<or> vs_inner s2 = VUnlocked dek \<or> (\<exists>t. vs_inner s2 = VCooling t))
    \<and> vs_attempts s2 < vault_max_attempts \<and> vs_hello_failures s2 < vault_max_attempts \<and> vs_meta s2 = vs_header s2"
proof -
  have "keyed c vid dek (s2, ts)"
    using keyed_run [OF assms(1,2) _ assms(8), of vid dek "(s1, [])"] created_keyed [OF assms(3-7)] assms(9) by simp
  then show ?thesis by (cases "vs_inner s2") (auto simp: keyed_def)
qed

text \<open>C18. What was put into the vault comes out of it: an entry that was added is read back as it was given,
  fields and one-time secret included, from any later state of the vault that is unlocked with the same
  key and still has the row, whatever password it was unlocked with.\<close>
theorem added_entry_read_back:
  assumes "crypto_laws c" "json_law fj" "length n1 = vault_nonce_len" "length n2 = vault_nonce_len" "totp_text totp"
    and "add_entry c fj nid now n1 n2 folder title favorite flds totp s = (Inr e, s1)"
    and "vs_inner s2 = vs_inner s" "get_row nid (vs_store s2) = get_row nid (vs_store s1)"
  shows "get_entry c fj nid s2 = Inr (Some e) \<and> ve_id e = nid \<and> ve_title e = title \<and> ve_fields e = flds
    \<and> ve_totp_secret e = totp \<and> ve_folder_id e = folder \<and> ve_favorite e = favorite"
proof -
  obtain dek row where d: "vs_inner s = VUnlocked dek" "get_row nid (vs_store s1) = Some row" "e = decrypt_row c fj dek row"
    "row = seal_row c fj dek n1 n2 \<lparr>ve_id = nid, ve_folder_id = folder, ve_title = title, ve_favorite = favorite,
        ve_fields = flds, ve_totp_secret = totp, ve_created_at = now, ve_updated_at = now\<rparr>"
    using add_entry_row [OF assms(6)] by blast
  have "e = \<lparr>ve_id = nid, ve_folder_id = folder, ve_title = title, ve_favorite = favorite,
        ve_fields = flds, ve_totp_secret = totp, ve_created_at = now, ve_updated_at = now\<rparr>"
    unfolding d(3,4) by (rule decrypt_sealed [OF assms(1-4)]) (simp add: assms(5))
  then show ?thesis using d assms(7,8) by (simp add: get_entry_def dek_of_def)
qed

section \<open>Guessing\<close>

text \<open>Attempts one after the other, each finished before the next begins: how many passwords are tried.\<close>

fun guess_run :: "vault_crypto \<Rightarrow> (nat \<times> string) list \<Rightarrow> vault_service \<Rightarrow> nat \<times> vault_service" where
  "guess_run c [] s = (0, s)"
| "guess_run c ((now, pw) # gs) s =
     (let tried = (case unlock_begin now s of GateTry _ \<Rightarrow> 1 | _ \<Rightarrow> 0);
          (n, s') = guess_run c gs (snd (unlock c now now pw s))
      in (tried + n, s'))"

definition guesses_left :: "nat \<Rightarrow> vault_service \<Rightarrow> nat" where
  "guesses_left end s =
     (case vs_inner s of VCooling until \<Rightarrow> if end \<le> until then 0 else vault_max_attempts - vs_attempts s | _ \<Rightarrow> vault_max_attempts - vs_attempts s)"

lemma wrong_guess:
  assumes "vs_header s = Some h" "unwrap_dek c h pw = Inl e" "vault_state_of s = VaultLocked" "vs_attempts s < vault_max_attempts"
    and "t0 \<le> now" "now < t0 + lockout_ms"
  defines "s' \<equiv> snd (unlock c now now pw s)"
  shows "vs_header s' = Some h \<and> vault_state_of s' = VaultLocked \<and> vs_attempts s' < vault_max_attempts
    \<and> (case unlock_begin now s of GateTry _ \<Rightarrow> 1 | _ \<Rightarrow> 0) + guesses_left (t0 + lockout_ms) s' \<le> guesses_left (t0 + lockout_ms) s"
proof (cases "unlock_begin now s")
  case (GateTry a)
  then have a: "a = vs_attempts s" "guesses_left (t0 + lockout_ms) s = vault_max_attempts - a"
    using assms(3,6) by (auto simp: unlock_begin_def vault_state_of_def guesses_left_def split: vault_inner.splits if_splits)
  have s': "s' = snd (unlock_finish now a (Inl e) s)" using GateTry assms(1,2) by (simp add: s'_def unlock_def)
  show ?thesis using GateTry a s' assms(1,4,5)
    by (auto simp: unlock_finish_def vault_state_of_def guesses_left_def Let_def split: if_splits)
qed (use assms(1,3,4) in \<open>auto simp: s'_def unlock_def unlock_begin_def vault_state_of_def split: vault_inner.splits if_splits\<close>)

text \<open>C19. Guessing one after the other is slow: in any window of the lockout time at most five wrong passwords are
  tried, whatever the counter or a lockout from before; all others are refused without being looked at.\<close>
theorem guesses_per_window:
  assumes "vs_header s = Some h" "vault_state_of s = VaultLocked" "vs_attempts s < vault_max_attempts"
    and "list_all (\<lambda>(now, pw). t0 \<le> now \<and> now < t0 + lockout_ms \<and> (\<exists>e. unwrap_dek c h pw = Inl e)) gs"
  shows "fst (guess_run c gs s) \<le> vault_max_attempts"
proof -
  have "fst (guess_run c gs s) \<le> guesses_left (t0 + lockout_ms) s"
    using assms
  proof (induction gs arbitrary: s)
    case (Cons g gs)
    obtain now pw where g: "g = (now, pw)" by fastforce
    then obtain e where e: "t0 \<le> now" "now < t0 + lockout_ms" "unwrap_dek c h pw = Inl e" using Cons.prems(4) by auto
    note w = wrong_guess [OF Cons.prems(1) e(3) Cons.prems(2,3) e(1,2)]
    have "fst (guess_run c gs (snd (unlock c now now pw s))) \<le> guesses_left (t0 + lockout_ms) (snd (unlock c now now pw s))"
      using w Cons.prems(4) by (intro Cons.IH) auto
    then show ?case using w g by (auto simp: Let_def split: prod.splits)
  qed simp
  also have "\<dots> \<le> vault_max_attempts" by (auto simp: guesses_left_def split: vault_inner.splits)
  finally show ?thesis .
qed

text \<open>C20. Guessing in parallel is not bounded.  With fewer than four failures counted, let one or more wrong
  passwords and then the right one begin before the first of them has finished: all see the same counter, and
  every one of them is tried.  When the wrong ones have finished, one failure is counted and the vault is not
  in its lockout, the right one is still under way, and when it finishes the vault is open.\<close>

theorem parallel_guesses_unbounded:
  assumes "vs_header s = Some h" "vs_inner s = VLocked" "vs_attempts s + 1 < vault_max_attempts"
    and "list_all (\<lambda>pw. \<exists>e. unwrap_dek c h pw = Inl e) pws" "pws \<noteq> []" "unwrap_dek c h right = Inr dek"
  shows "vault_run c (map (BeginUnlock now) (pws @ [right])) (s, [])
      = (s, map (\<lambda>pw. (vs_attempts s, h, pw)) (pws @ [right]))
    \<and> vault_run c (map (BeginUnlock now) (pws @ [right]) @ map (\<lambda>_. FinishUnlock 0 now) pws) (s, [])
      = (s\<lparr>vs_attempts := vs_attempts s + 1, vs_inner := VLocked\<rparr>, [(vs_attempts s, h, right)])
    \<and> vs_inner (fst (vault_run c (map (BeginUnlock now) (pws @ [right]) @ map (\<lambda>_. FinishUnlock 0 now) (pws @ [right])) (s, [])))
      = VUnlocked dek"
proof -
  let ?ts = "map (\<lambda>pw. (vs_attempts s, h, pw))"
  have run_append: "vault_run c (xs @ ys) sys = vault_run c ys (vault_run c xs sys)" for xs ys sys by (simp add: vault_run_def)
  have began: "vault_run c (map (BeginUnlock now) qs) (s, ts) = (s, ts @ ?ts qs)" for qs ts
    using assms(1,2) by (induction qs arbitrary: ts) (simp_all add: vault_run_def unlock_begin_def)
  have step: "vault_act c (FinishUnlock 0 now) (s', (vs_attempts s, h, pw) # ts) = (s'\<lparr>vs_attempts := vs_attempts s + 1, vs_inner := VLocked\<rparr>, ts)"
    if "unwrap_dek c h pw = Inl e" for s' ts pw e
    using that assms(3) by (simp add: unlock_finish_def)
  have finish: "vault_run c (map (\<lambda>_. FinishUnlock 0 now) qs) (s', ?ts qs @ rest) = (s'\<lparr>vs_attempts := vs_attempts s + 1, vs_inner := VLocked\<rparr>, rest)"
    if "list_all (\<lambda>pw. \<exists>e. unwrap_dek c h pw = Inl e) qs" "qs \<noteq> []" for qs s' rest
    using that
  proof (induction qs arbitrary: s')
    case (Cons q qs)
    then obtain e where "unwrap_dek c h q = Inl e" by auto
    note st = step [OF this, of s' "?ts qs @ rest"]
    show ?case
    proof (cases "qs = []")
      case True
      then show ?thesis using st by (simp add: vault_run_def del: vault_act.simps)
    next
      case False
      then show ?thesis using st Cons.IH [of "s'\<lparr>vs_attempts := vs_attempts s + 1, vs_inner := VLocked\<rparr>"] Cons.prems(1)
        by (simp add: vault_run_def del: vault_act.simps)
    qed
  qed simp
  let ?s1 = "s\<lparr>vs_attempts := vs_attempts s + 1, vs_inner := VLocked\<rparr>"
  have all: "vault_run c (map (BeginUnlock now) (pws @ [right])) (s, []) = (s, ?ts pws @ [(vs_attempts s, h, right)])"
    unfolding began by simp
  have wrong: "vault_run c (map (BeginUnlock now) (pws @ [right]) @ map (\<lambda>_. FinishUnlock 0 now) pws) (s, []) = (?s1, [(vs_attempts s, h, right)])"
    unfolding run_append all by (rule finish [OF assms(4,5)])
  have "map (BeginUnlock now) (pws @ [right]) @ map (\<lambda>_. FinishUnlock 0 now) (pws @ [right])
      = (map (BeginUnlock now) (pws @ [right]) @ map (\<lambda>_. FinishUnlock 0 now) pws) @ [FinishUnlock 0 now]" by simp
  then have "vault_run c (map (BeginUnlock now) (pws @ [right]) @ map (\<lambda>_. FinishUnlock 0 now) (pws @ [right])) (s, [])
      = vault_run c [FinishUnlock 0 now] (?s1, [(vs_attempts s, h, right)])"
    using wrong by (simp only: run_append)
  moreover have "vs_inner (fst (vault_run c [FinishUnlock 0 now] (?s1, [(vs_attempts s, h, right)]))) = VUnlocked dek"
    using assms(6) by (simp add: vault_run_def unlock_finish_def touch_def)
  ultimately show ?thesis using all wrong by simp
qed

text \<open>An attempt that ends after the vault was locked opens it again; one that fails late closes it.\<close>

lemma lock_undone:
  assumes "vs_header s = Some h" "vs_inner s = VLocked" "unwrap_dek c h pw = Inr dek"
  shows "vs_inner (fst (vault_run c [BeginUnlock t pw, LockVault, FinishUnlock 0 t'] (s, []))) = VUnlocked dek"
  using assms by (simp add: vault_run_def unlock_begin_def vault_lock_def unlock_finish_def touch_def)

lemma late_failure_locks:
  assumes "vs_header s = Some h" "vs_inner s = VLocked" "unwrap_dek c h pw = Inr dek" "unwrap_dek c h bad = Inl e" "vs_attempts s = 0"
  shows "vs_inner (fst (vault_run c [BeginUnlock t bad, BeginUnlock t pw, FinishUnlock 1 t, FinishUnlock 0 t] (s, []))) = VLocked"
  using assms by (simp add: vault_run_def unlock_begin_def unlock_finish_def touch_def vault_max_attempts_def)

section \<open>The second path\<close>

text \<open>Once it is switched off by failures, only the password switches it on again.\<close>

lemma forced_stays:
  assumes "vs_hello_forced s" "vault_act c e (s, ts) = (s', ts')" "\<not> vs_hello_forced s'"
  shows "\<exists>i now a h pw dek. e = FinishUnlock i now \<and> i < length ts \<and> ts ! i = (a, h, pw) \<and> unwrap_dek c h pw = Inr dek"
proof (cases e)
  case (FinishUnlock i now)
  obtain a h pw where t: "ts ! i = (a, h, pw)" by (cases "ts ! i") auto
  have "i < length ts" using assms FinishUnlock by (auto split: if_splits)
  moreover from this obtain dek where "unwrap_dek c h pw = Inr dek"
    using assms FinishUnlock t by (cases "unwrap_dek c h pw") (auto simp: unlock_finish_def Let_def split: if_splits)
  ultimately show ?thesis using FinishUnlock t by blast
next
  case (HelloUnlock now ports)
  then show ?thesis using assms
    by (auto simp: hello_unlock_def split: unlock_gate.splits)
qed (use assms in \<open>auto simp: vault_lock_def change_master_password_def keep_header_def persist_header_def hello_enable_def hello_disable_def
      touch_def set_blur_def run_tick_def on_store_def
    split: vault_inner.splits option.splits sum.splits if_splits prod.splits autolock_action.splits unlock_gate.splits\<close>)

lemma forced_refuses:
  "vs_hello_forced s \<Longrightarrow> vs_inner s = VLocked \<Longrightarrow> hello_unlock c now ports s = (Inl ''VAULT_HELLO_003'', s)"
  by (simp add: hello_unlock_def unlock_begin_def)

section \<open>Auto-lock\<close>

text \<open>The policy takes points in time, the service hands it durations: what it compares with the limit is how
  long after its opening the vault was last used.\<close>

lemma since_difference:
  assumes "vs_epoch s \<le> t" "t \<le> now"
  shows "(t - vs_epoch s) div 1000 \<le> (now - vs_epoch s) div 1000 - since now s t
    \<and> (now - vs_epoch s) div 1000 - since now s t \<le> (t - vs_epoch s) div 1000 + 1"
proof -
  define x y where "x = t - vs_epoch s" and "y = now - t"
  have s: "since now s t = y div 1000" "now - vs_epoch s = x + y" using assms by (simp_all add: since_def x_def y_def max_def)
  have "(x + y) div 1000 \<le> x div 1000 + y div 1000 + 1" "x div 1000 + y div 1000 \<le> (x + y) div 1000" by linarith+
  then show ?thesis unfolding s x_def [symmetric] by linarith
qed

text \<open>C21. The idle lock does not measure idleness: a vault that was last used within the first seconds of its
  process, fewer than the idle limit less one, is never locked by the watchdog while the window has the
  focus, however long nothing happens.\<close>
theorem idle_vault_never_locks:
  assumes "vs_epoch s \<le> vs_touch s" "vs_touch s \<le> now" "vs_blur s = None"
    and "(vs_touch s - vs_epoch s) div 1000 + 1 < al_idle_secs policy"
  shows "snd (snd (run_tick now policy warned s)) = s"
proof -
  have "service_autolock now policy s \<noteq> Some Lock"
    using since_difference [OF assms(1,2)] assms(3,4)
    by (auto simp: service_autolock_def autolock_evaluate_def al_check_def split: option.splits)
  then show ?thesis by (auto simp: run_tick_def split: option.splits autolock_action.splits)
qed

text \<open>A vault in use is locked: once the process has run for the idle limit, the watchdog locks an unlocked
  vault at its next tick even when it was used at that very moment.\<close>
lemma used_vault_locks:
  assumes "vs_inner s = VUnlocked dek" "vs_touch s = now" "0 < al_idle_secs policy"
    and "vs_epoch s + 1000 * al_idle_secs policy \<le> now"
  shows "run_tick now policy warned s = ([LockedEvent], False, s\<lparr>vs_inner := VLocked\<rparr>)"
proof -
  have "al_idle_secs policy \<le> (now - vs_epoch s) div 1000" using assms(4) by (simp add: less_eq_div_iff_mult_less_eq)
  moreover have "since now s now = 0" by (simp add: since_def)
  ultimately have "service_autolock now policy s = Some Lock"
    using assms(1-3) by (simp add: service_autolock_def vault_state_of_def autolock_evaluate_def al_check_def)
  then show ?thesis using assms(1) by (simp add: run_tick_def vault_lock_def)
qed

section \<open>Unreadable fields\<close>

text \<open>Fields that do not decrypt are shown as none; saving the entry then replaces what could not be read.\<close>

lemma unreadable_fields_replaced:
  assumes "vs_inner s = VUnlocked dek" "get_entry c fj i s = Inr (Some e)" "get_row i (vs_store s) = Some row"
    and "open_field c dek (er_id row) (er_fields_ct row) = Inl er" "crypto_laws c" "json_law fj" "length n1 = vault_nonce_len" "length n2 = vault_nonce_len"
    and "folder_known (vs_store s) (er_folder_id row)"
  shows "ve_fields e = [] \<and> (\<exists>e' s'. update_entry c fj now n1 n2 e s = (Inr e', s') \<and> ve_fields e' = [])"
proof -
  have e: "e = decrypt_row c fj dek row" using assms(1-3) by (simp add: get_entry_def dek_of_def)
  have row: "row \<in> set (vt_entries (vs_store s))" "er_id row = i"
    using assms(3) by (auto simp: get_row_def find_Some_iff)
  let ?row = "seal_row c fj dek n1 n2 (e\<lparr>ve_updated_at := now\<rparr>)"
  have "er_id ?row = er_id row" "er_folder_id ?row = er_folder_id row" by (simp_all add: seal_row_def e decrypt_row_def)
  then have "\<exists>st. update_row ?row (vs_store s) = (Inr True, st)"
    unfolding update_row_def using row(1) assms(9) by simp
  then obtain st where "update_row ?row (vs_store s) = (Inr True, st)" by blast
  then have "update_entry c fj now n1 n2 e s = (Inr (decrypt_row c fj dek ?row), on_store st s)"
    using assms(1) by (simp add: update_entry_def dek_of_def)
  moreover have "ve_fields e = []" by (simp add: e decrypt_row_def assms(4))
  moreover have "ve_fields (decrypt_row c fj dek ?row) = ve_fields e"
    using assms(5-8) by (simp add: decrypt_row_def seal_row_def field_roundtrip json_law_def)
  ultimately show ?thesis by auto
qed

section \<open>Examples\<close>

text \<open>A cipher that writes the key and the associated data before the message, with their lengths in unary.\<close>

definition unary :: "bytes \<Rightarrow> bytes" where
  "unary b = replicate (length b) 1 @ [0]"

definition counted_ones :: "bytes \<Rightarrow> nat" where
  "counted_ones b = length (takeWhile (\<lambda>x. x = 1) b)"

definition plain_crypto :: vault_crypto where
  "plain_crypto =
     \<lparr>vc_argon2 = (\<lambda>m t p pw salt. Some (pw @ salt)), vc_params_ok = (\<lambda>m t p. 0 < t),
      vc_seal = (\<lambda>k n a m. unary k @ unary a @ k @ a @ m),
      vc_open = (\<lambda>k n a ct. if prefix (unary k @ unary a @ k @ a) ct then Some (drop (2 * length k + 2 * length a + 2) ct) else None),
      vc_b64 = map (\<lambda>w. char_of (unat w)), vc_unb64 = (\<lambda>s. Some (str_bytes s))\<rparr>"

lemma counted_replicate: "counted_ones (replicate n 1 @ 0 # r) = n"
  by (induction n) (simp_all add: counted_ones_def)

lemma counted_unary [simp]: "counted_ones (unary k @ r) = length k"
  by (simp add: unary_def counted_replicate)

lemma unary_length [simp]: "length (unary k) = length k + 1"
  by (simp add: unary_def)

lemma plain_crypto_laws: "crypto_laws plain_crypto"
proof -
  have "str_bytes (map (\<lambda>w. char_of (unat w)) b) = b" for b :: bytes
    by (simp add: str_bytes_def comp_def)
  then show ?thesis by (simp add: crypto_laws_def plain_crypto_def)
qed

lemma unary_prefix:
  assumes "prefix (unary k' @ r') (unary k @ r)"
  shows "length k' = length k \<and> prefix r' r"
proof -
  obtain z where z: "unary k @ r = unary k' @ r' @ z" using assms by (auto simp: prefix_def)
  then have "counted_ones (unary k @ r) = counted_ones (unary k' @ r' @ z)" by simp
  then have l: "length k' = length k" by (simp only: counted_unary)
  then have "unary k' = unary k" by (simp add: unary_def)
  then show ?thesis using z l by auto
qed

lemma plain_crypto_authentic: "authentic plain_crypto"
  unfolding authentic_def
proof (intro allI impI)
  fix k n a m k' a'
  assume "vc_open plain_crypto k' n a' (vc_seal plain_crypto k n a m) \<noteq> None"
  then have "prefix (unary k' @ unary a' @ k' @ a') (unary k @ unary a @ k @ a @ m)"
    by (auto simp: plain_crypto_def split: if_splits)
  then have k: "length k' = length k" "prefix (unary a' @ k' @ a') (unary a @ k @ a @ m)" using unary_prefix by blast+
  then have a: "length a' = length a" "prefix (k' @ a') (k @ a @ m)" using unary_prefix by blast+
  then show "k' = k \<and> a' = a" using k(1) by (auto simp: prefix_def append_eq_append_conv)
qed

text \<open>Fields as their number and their texts, each with its length in front.\<close>

fun kind_code :: "field_kind \<Rightarrow> byte" where
  "kind_code FPassword = 0" | "kind_code FUrl = 1" | "kind_code FNote = 2" | "kind_code FOtp = 3" | "kind_code FText = 4"

definition kind_of :: "byte \<Rightarrow> field_kind" where
  "kind_of b = (if b = 0 then FPassword else if b = 1 then FUrl else if b = 2 then FNote else if b = 3 then FOtp else FText)"

definition put_text :: "string \<Rightarrow> bytes" where
  "put_text s = unary (str_bytes s) @ str_bytes s"

definition get_text :: "bytes \<Rightarrow> string \<times> bytes" where
  "get_text b = (let n = counted_ones b in (map (\<lambda>w. char_of (unat w)) (take n (drop (n + 1) b)), drop (2 * n + 1) b))"

definition put_field :: "entry_field \<Rightarrow> bytes" where
  "put_field f = kind_code (ef_kind f) # put_text (ef_key f) @ put_text (ef_value f)"

fun get_fields :: "nat \<Rightarrow> bytes \<Rightarrow> entry_field list" where
  "get_fields 0 b = []"
| "get_fields (Suc n) b =
     (let (key, r) = get_text (drop 1 b); (val, r') = get_text r
      in \<lparr>ef_key = key, ef_kind = kind_of (hd b), ef_value = val\<rparr> # get_fields n r')"

definition plain_json :: fields_json where
  "plain_json = \<lparr>fj_encode = (\<lambda>fs. replicate (length fs) 1 @ [0] @ concat (map put_field fs)),
     fj_decode = (\<lambda>b. Some (get_fields (counted_ones b) (drop (counted_ones b + 1) b)))\<rparr>"

lemma get_put_text [simp]: "get_text (put_text s @ r) = (s, r)"
proof -
  have "counted_ones (put_text s @ r) = length s" by (simp add: put_text_def str_bytes_def)
  moreover have "char_of (unat (of_nat (of_char ch) :: byte)) = ch" for ch :: char
    using unat_of_nat_small [where ?'a = 8, of "of_char ch"] by simp
  ultimately show ?thesis by (simp add: get_text_def put_text_def str_bytes_def comp_def Let_def)
qed

lemma plain_json_law: "json_law plain_json"
proof -
  have kind: "kind_of (kind_code k) = k" for k by (cases k) (simp_all add: kind_of_def)
  have "get_fields (length fs) (concat (map put_field fs)) = fs" for fs
    by (induction fs) (simp_all add: put_field_def kind)
  then show ?thesis by (simp add: json_law_def plain_json_def counted_replicate)
qed

definition fresh_vault :: vault_service where
  "fresh_vault = \<lparr>vs_header = None, vs_inner = VUninit, vs_attempts = 0, vs_epoch = 0, vs_touch = 0, vs_blur = None,
     vs_hello_failures = 0, vs_hello_forced = False, vs_store = \<lparr>vt_folders = [], vt_entries = []\<rparr>, vs_meta = None\<rparr>"

definition sample_key :: bytes where "sample_key = replicate 32 5"
definition sample_nonce :: bytes where "sample_nonce = replicate 12 7"

definition sample_kdf :: kdf_params where
  "sample_kdf = default_kdf\<lparr>kp_m_cost_kib := 8, kp_t_cost := 1, kp_p_cost := 1\<rparr>"

definition sample_create :: "(string + vault_header) \<times> vault_service" where
  "sample_create = vault_create plain_crypto True 1 ''pw'' (Some sample_kdf) [9] ''v1'' sample_key sample_nonce fresh_vault"

definition sample_vault :: vault_service where "sample_vault = snd sample_create"

lemma sample_created:
  obtains h where "sample_create = (Inr h, sample_vault)" "vs_inner sample_vault = VUnlocked sample_key"
    "vs_header sample_vault = Some h" "vs_attempts sample_vault = 0" "vs_store sample_vault = vs_store fresh_vault"
    "holds_key plain_crypto h ''pw'' sample_key" "derive_kek plain_crypto s (vh_kdf h) = Inr (str_bytes s @ [9])"
proof -
  let ?kdf = "sample_kdf\<lparr>kp_salt_b64 := vc_b64 plain_crypto [9]\<rparr>"
  have d: "derive_kek plain_crypto s ?kdf = Inr (str_bytes s @ [9])" for s
    using crypto_lawsD(2) [OF plain_crypto_laws] by (simp add: derive_kek_def unb64_def sample_kdf_def default_kdf_def) (simp add: plain_crypto_def)
  have salt: "kp_salt_b64 sample_kdf = []" by (simp add: sample_kdf_def default_kdf_def)
  obtain h where c: "create_vault_with plain_crypto ''pw'' sample_kdf [9] ''v1'' sample_key sample_nonce = Inr (h, sample_key)" "vh_kdf h = ?kdf"
    by (simp add: create_vault_with_def salt d)
  have e: "sample_create = (Inr h, touch 1 (fresh_vault\<lparr>vs_meta := Some h, vs_header := Some h, vs_inner := VUnlocked sample_key\<rparr>))"
    using c(1) by (simp add: sample_create_def vault_create_def persist_header_def) (simp add: fresh_vault_def)
  have hk: "holds_key plain_crypto h ''pw'' sample_key"
    using created_holds [OF c(1)] by (simp add: sample_nonce_def vault_nonce_len_def sample_key_def vault_key_len_def)
  show ?thesis
    by (rule that [of h]) (simp_all add: sample_vault_def e c(2) d hk touch_def fresh_vault_def)
qed

lemma sample_lengths: "length sample_nonce = vault_nonce_len" "length sample_key = vault_key_len"
  by (simp_all add: sample_nonce_def vault_nonce_len_def sample_key_def vault_key_len_def)

definition relocked :: "vault_service \<times> vault_try list" where
  "relocked = vault_run plain_crypto [LockVault, BeginUnlock 5 ''pw'', FinishUnlock 0 6] (sample_vault, [])"

theorem unlocked_key_is_created_key_witness:
  "vs_inner (fst relocked) = VUnlocked sample_key \<and> vs_meta (fst relocked) = vs_header (fst relocked)"
proof -
  obtain h where h: "sample_create = (Inr h, sample_vault)" "vs_inner sample_vault = VUnlocked sample_key"
    "vs_header sample_vault = Some h" "holds_key plain_crypto h ''pw'' sample_key"
    by (rule sample_created [of undefined])
  obtain s2 ts where r: "relocked = (s2, ts)" by fastforce
  have "\<exists>k. vs_inner s2 = VUnlocked k"
    using r h(2,3) unwrap_held [OF plain_crypto_laws h(4)]
    by (auto simp: relocked_def vault_run_def vault_lock_def unlock_begin_def unlock_finish_def touch_def)
  then have "vs_inner s2 = VUnlocked sample_key \<and> vs_meta s2 = vs_header s2"
    using unlocked_key_is_created_key [OF plain_crypto_laws plain_crypto_authentic h(1) [unfolded sample_create_def] sample_lengths _ _ _
        r [unfolded relocked_def]]
    by (auto simp: fresh_vault_def)
  then show ?thesis unfolding r by simp
qed

definition sample_add :: "(string + vault_entry) \<times> vault_service" where
  "sample_add = add_entry plain_crypto plain_json ''e1'' 3 sample_nonce sample_nonce None ''mail'' True
     [\<lparr>ef_key = ''password'', ef_kind = FPassword, ef_value = ''s3cret''\<rparr>] (Some ''GEZD'') sample_vault"

theorem added_entry_read_back_witness:
  "case get_entry plain_crypto plain_json ''e1'' (snd sample_add) of
     Inr (Some e) \<Rightarrow> ve_fields e = [\<lparr>ef_key = ''password'', ef_kind = FPassword, ef_value = ''s3cret''\<rparr>] \<and> ve_totp_secret e = Some ''GEZD''
   | _ \<Rightarrow> False"
proof -
  obtain h where h: "vs_inner sample_vault = VUnlocked sample_key" "vs_store sample_vault = vs_store fresh_vault"
    by (rule sample_created [of undefined])
  obtain e where a: "sample_add = (Inr e, snd sample_add)"
    using h by (auto simp: sample_add_def add_entry_def dek_of_def insert_entry_def folder_known_def fresh_vault_def seal_row_def Let_def)
  have "vs_inner (snd sample_add) = vs_inner sample_vault"
    using add_entry_row [OF a [unfolded sample_add_def]] unfolding sample_add_def by (metis on_store_inner)
  moreover have "totp_text (Some ''GEZD'')" by code_simp
  ultimately show ?thesis
    using added_entry_read_back [OF plain_crypto_laws plain_json_law sample_lengths(1) sample_lengths(1) _ a [unfolded sample_add_def]]
    by (simp add: sample_add_def)
qed

definition sample_locked :: vault_service where "sample_locked = vault_lock sample_vault"

lemma sample_locked_facts:
  "vs_inner sample_locked = VLocked" "vs_attempts sample_locked = 0"
  "\<exists>h e. vs_header sample_locked = Some h \<and> unwrap_dek plain_crypto h ''no'' = Inl e \<and> unwrap_dek plain_crypto h ''pw'' = Inr sample_key"
proof -
  obtain h where h: "vs_inner sample_vault = VUnlocked sample_key" "vs_header sample_vault = Some h" "vs_attempts sample_vault = 0"
    "holds_key plain_crypto h ''pw'' sample_key"
    by (rule sample_created [of undefined])
  have d: "derive_kek plain_crypto s (vh_kdf h) = Inr (str_bytes s @ [9])" for s
    by (rule sample_created [of s]) (use h(2) in simp)
  show "vs_attempts sample_locked = 0" "vs_inner sample_locked = VLocked" using h by (simp_all add: sample_locked_def vault_lock_def)
  have "str_bytes ''no'' \<noteq> str_bytes ''pw''" by simp
  then have "unwrap_dek plain_crypto h ''no'' \<noteq> Inr x" for x
    using unwrap_only_held [OF plain_crypto_laws plain_crypto_authentic h(4), of "''no''" x] d [of "''no''"] d [of "''pw''"] by auto
  then show "\<exists>h e. vs_header sample_locked = Some h \<and> unwrap_dek plain_crypto h ''no'' = Inl e \<and> unwrap_dek plain_crypto h ''pw'' = Inr sample_key"
    using h(1,2) unwrap_held [OF plain_crypto_laws h(4)] by (cases "unwrap_dek plain_crypto h ''no''") (auto simp: sample_locked_def vault_lock_def)
qed

theorem guesses_per_window_witness:
  "fst (guess_run plain_crypto (replicate 7 (1000, ''no'')) sample_locked) \<le> 5"
proof -
  obtain h e where h: "vs_header sample_locked = Some h" "unwrap_dek plain_crypto h ''no'' = Inl e" using sample_locked_facts(3) by blast
  have "fst (guess_run plain_crypto (replicate 7 (1000, ''no'')) sample_locked) \<le> vault_max_attempts"
    using h sample_locked_facts(1,2)
    by (intro guesses_per_window [where ?t0.0 = 0]) (auto simp: vault_state_of_def list_all_iff lockout_ms_def)
  then show ?thesis by (simp add: vault_max_attempts_def)
qed

theorem parallel_guesses_unbounded_witness:
  "vs_inner (fst (vault_run plain_crypto (map (BeginUnlock 1000) (replicate 100 ''no'' @ [''pw'']) @ map (\<lambda>_. FinishUnlock 0 1000) (replicate 100 ''no'' @ [''pw'']))
     (sample_locked, []))) = VUnlocked sample_key"
proof -
  obtain h e where h: "vs_header sample_locked = Some h" "unwrap_dek plain_crypto h ''no'' = Inl e"
    and right: "unwrap_dek plain_crypto h ''pw'' = Inr sample_key" using sample_locked_facts(3) by blast
  show ?thesis
    using parallel_guesses_unbounded [OF h(1) sample_locked_facts(1) _ _ _ right, of "replicate 100 ''no''" 1000] h(2) sample_locked_facts(2)
    by (auto simp: vault_max_attempts_def list_all_iff)
qed

theorem idle_vault_never_locks_witness:
  "snd (snd (run_tick 900000000 \<lparr>al_idle_secs = 900, al_blur_secs = 300\<rparr> False (fresh_vault\<lparr>vs_inner := VUnlocked sample_key, vs_touch := 5000\<rparr>)))
    = fresh_vault\<lparr>vs_inner := VUnlocked sample_key, vs_touch := 5000\<rparr>"
  by (rule idle_vault_never_locks) (simp_all add: fresh_vault_def)

end
