(* ===== verification/Clip_Store.thy ===== *)
theory Clip_Store
  imports Str
begin

text \<open>
  The clipboard history (\<open>clipboard-core/src/store.rs\<close>, \<open>types.rs\<close>): the table
  \<open>clip_entries\<close>, the table \<open>paste_stack\<close> and the directory of blob files, with every
  operation of \<open>ClipStore\<close>.  Rows are kept in the order of their rowid.  A call takes the
  time, the fresh UUID, the outcome of a file write and the random choice of the envelope
  from \<open>clip_call\<close>; SHA-256, the envelope encryption and base64 are parameters.
  Blob files are written and removed outside the table, so an operation that does both is
  given as its steps where the lock is released between them.
\<close>

section \<open>Rows and tables\<close>

record clip_row =
  ce_id :: string
  ce_type :: string
  ce_content :: "string option"
  ce_hash :: string
  ce_blob :: "string option"
  ce_origin :: string
  ce_source :: "string option"
  ce_pinned :: bool
  ce_group :: "string option"
  ce_secret :: bool
  ce_created :: int
  ce_usage :: nat
  ce_suggested :: "string option"
  ce_confidence :: "nat option"
  ce_dismissed :: bool
  ce_html :: "string option"

record stack_row =
  sr_id :: nat
  sr_entry :: string
  sr_pos :: int

record clip_store =
  cs_rows :: "clip_row list"
  cs_stack :: "stack_row list"
  cs_next :: nat
  cs_blobs :: "string \<Rightarrow> bytes option"

text \<open>\<open>NewClip\<close>; a confidence is kept as the bit pattern of its \<open>f32\<close>, which orders like the
  (positive) number.\<close>

record new_clip =
  nc_text :: string
  nc_group :: "string option"
  nc_suggested :: "(string \<times> nat) option"
  nc_secret :: bool
  nc_source :: "string option"
  nc_origin :: string
  nc_html :: "string option"

definition clip_of :: "string \<Rightarrow> new_clip" where
  "clip_of t =
     \<lparr>nc_text = t, nc_group = None, nc_suggested = None, nc_secret = False, nc_source = None,
      nc_origin = ''local'', nc_html = None\<rparr>"

text \<open>\<open>fs::write\<close> succeeds, or stops after some bytes of the truncated file.\<close>

datatype fs_write = Wrote | Torn nat

record clip_call =
  cl_now :: int
  cl_uuid :: string
  cl_write :: fs_write
  cl_rand :: nat

definition blob_threshold :: nat where "blob_threshold = 65536"

definition preview_chars :: nat where "preview_chars = 512"

definition text_preview :: "string \<Rightarrow> string" where
  "text_preview t = concat (take preview_chars (chars_of t))"

definition clip_open :: clip_store where
  "clip_open = \<lparr>cs_rows = [], cs_stack = [], cs_next = 1, cs_blobs = (\<lambda>_. None)\<rparr>"

section \<open>Inserting\<close>

definition content_hash_bytes :: "(bytes \<Rightarrow> bytes) \<Rightarrow> bytes \<Rightarrow> string" where
  "content_hash_bytes sha bs = hex_lower (sha bs)"

definition content_hash :: "(bytes \<Rightarrow> bytes) \<Rightarrow> string \<Rightarrow> string" where
  "content_hash sha t = content_hash_bytes sha (str_bytes t)"

definition existing :: "string \<Rightarrow> clip_store \<Rightarrow> string option" where
  "existing hash s = map_option ce_id (find (\<lambda>r. ce_hash r = hash) (cs_rows s))"

definition upd_row :: "string \<Rightarrow> (clip_row \<Rightarrow> clip_row) \<Rightarrow> clip_store \<Rightarrow> clip_store" where
  "upd_row i f s = s\<lparr>cs_rows := map (\<lambda>r. if ce_id r = i then f r else r) (cs_rows s)\<rparr>"

definition refresh_row :: "int \<Rightarrow> string \<Rightarrow> clip_row \<Rightarrow> clip_row" where
  "refresh_row now origin r =
     r\<lparr>ce_created := now, ce_usage := Suc (ce_usage r),
       ce_origin := (if origin = ''local'' then ''local'' else ce_origin r)\<rparr>"

definition coalesce_html :: "string option \<Rightarrow> clip_row \<Rightarrow> clip_row" where
  "coalesce_html h r = r\<lparr>ce_html := (case ce_html r of None \<Rightarrow> h | Some x \<Rightarrow> Some x)\<rparr>"

definition add_row :: "clip_row \<Rightarrow> clip_store \<Rightarrow> clip_store" where
  "add_row r s = s\<lparr>cs_rows := cs_rows s @ [r]\<rparr>"

definition write_blob :: "fs_write \<Rightarrow> string \<Rightarrow> bytes \<Rightarrow> clip_store \<Rightarrow> bool \<times> clip_store" where
  "write_blob w name bs s =
     (case w of
        Wrote \<Rightarrow> (True, s\<lparr>cs_blobs := (cs_blobs s)(name \<mapsto> bs)\<rparr>)
      | Torn n \<Rightarrow> (False, s\<lparr>cs_blobs := (cs_blobs s)(name \<mapsto> take n bs)\<rparr>))"

definition blank_row :: "clip_call \<Rightarrow> string \<Rightarrow> string \<Rightarrow> clip_row" where
  "blank_row cl ty hash =
     \<lparr>ce_id = cl_uuid cl, ce_type = ty, ce_content = None, ce_hash = hash, ce_blob = None,
      ce_origin = ''local'', ce_source = None, ce_pinned = False, ce_group = None, ce_secret = False,
      ce_created = cl_now cl, ce_usage = 0, ce_suggested = None, ce_confidence = None,
      ce_dismissed = False, ce_html = None\<rparr>"

definition text_row :: "clip_call \<Rightarrow> new_clip \<Rightarrow> string \<Rightarrow> string \<Rightarrow> string option \<Rightarrow> clip_row" where
  "text_row cl c hash content blob =
     (blank_row cl ''text'' hash)
       \<lparr>ce_content := Some content, ce_blob := blob, ce_origin := nc_origin c, ce_source := nc_source c,
        ce_group := nc_group c, ce_secret := nc_secret c, ce_suggested := map_option fst (nc_suggested c),
        ce_confidence := map_option snd (nc_suggested c), ce_html := nc_html c\<rparr>"

definition insert_row :: "(bytes \<Rightarrow> bytes) \<Rightarrow> clip_call \<Rightarrow> new_clip \<Rightarrow> clip_store \<Rightarrow> (string + string) \<times> clip_store" where
  "insert_row sha cl c s =
     (let hash = content_hash sha (nc_text c)
      in case existing hash s of
           Some i \<Rightarrow> (Inr i, upd_row i (coalesce_html (nc_html c) \<circ> refresh_row (cl_now cl) (nc_origin c)) s)
         | None \<Rightarrow>
             if nc_secret c then (Inr (cl_uuid cl), add_row (text_row cl c hash [] None) s)
             else if blob_threshold < length (nc_text c) then
               (let name = hash @ ''.txt''; (ok, s') = write_blob (cl_write cl) name (str_bytes (nc_text c)) s
                in if ok then (Inr (cl_uuid cl), add_row (text_row cl c hash (text_preview (nc_text c)) (Some name)) s')
                   else (Inl ''CLIPBOARD_STORAGE_002'', s'))
             else (Inr (cl_uuid cl), add_row (text_row cl c hash (nc_text c) None) s))"

definition insert_encrypted ::
    "(bytes \<Rightarrow> bytes) \<Rightarrow> clip_call \<Rightarrow> string \<Rightarrow> string option \<Rightarrow> (string \<times> nat) option \<Rightarrow> string option \<Rightarrow> string \<Rightarrow>
     clip_store \<Rightarrow> (string + string) \<times> clip_store" where
  "insert_encrypted sha cl b64 grp sugg source origin s =
     (let hash = content_hash sha b64;
          c = (clip_of b64)\<lparr>nc_group := grp, nc_suggested := sugg, nc_secret := True, nc_source := source, nc_origin := origin\<rparr>
      in if blob_threshold < length b64 then
           (let name = hash @ ''.enc''; (ok, s') = write_blob (cl_write cl) name (str_bytes b64) s
            in if ok then (Inr (cl_uuid cl), add_row (text_row cl c hash [] (Some name)) s')
               else (Inl ''CLIPBOARD_STORAGE_002'', s'))
         else (Inr (cl_uuid cl), add_row (text_row cl c hash b64 None) s))"

definition insert_image ::
    "(bytes \<Rightarrow> bytes) \<Rightarrow> clip_call \<Rightarrow> string \<Rightarrow> nat \<Rightarrow> nat \<Rightarrow> bytes \<Rightarrow> string option \<Rightarrow> string \<Rightarrow>
     clip_store \<Rightarrow> (string + string) \<times> clip_store" where
  "insert_image sha cl fmt width height bs source origin s =
     (let hash = content_hash_bytes sha bs
      in case existing hash s of
           Some i \<Rightarrow> (Inr i, upd_row i (refresh_row (cl_now cl) origin) s)
         | None \<Rightarrow>
             (let name = hash @ ''.'' @ fmt; (ok, s') = write_blob (cl_write cl) name bs s
              in if ok then
                   (Inr (cl_uuid cl),
                    add_row ((blank_row cl ''image'' hash)
                      \<lparr>ce_content := Some (show_nat width @ ''x'' @ show_nat height), ce_blob := Some name,
                       ce_origin := origin, ce_source := source\<rparr>) s')
                 else (Inl ''CLIPBOARD_STORAGE_002'', s')))"

definition insert_typed ::
    "(bytes \<Rightarrow> bytes) \<Rightarrow> clip_call \<Rightarrow> string \<Rightarrow> string \<Rightarrow> string option \<Rightarrow> string \<Rightarrow>
     clip_store \<Rightarrow> (string + string) \<times> clip_store" where
  "insert_typed sha cl content ty source origin s =
     (let hash = content_hash sha content
      in case existing hash s of
           Some i \<Rightarrow> (Inr i, upd_row i (refresh_row (cl_now cl) origin) s)
         | None \<Rightarrow>
             (Inr (cl_uuid cl),
              add_row ((blank_row cl ty hash)\<lparr>ce_content := Some content, ce_origin := origin, ce_source := source\<rparr>) s))"

definition insert_files ::
    "(bytes \<Rightarrow> bytes) \<Rightarrow> clip_call \<Rightarrow> string list \<Rightarrow> string option \<Rightarrow> string \<Rightarrow> clip_store \<Rightarrow> (string + string) \<times> clip_store" where
  "insert_files sha cl paths source origin s = insert_typed sha cl (join_with [CHR 0x0A] paths) ''files'' source origin s"

section \<open>Reading\<close>

text \<open>\<open>from_utf8_lossy\<close>; the text blobs hold what \<open>str_bytes\<close> gave, on which it is its inverse.\<close>

definition bytes_text :: "bytes \<Rightarrow> string" where
  "bytes_text bs = map (\<lambda>b. char_of (unat b)) bs"

text \<open>\<open>str::lines\<close>.\<close>

definition strip_cr :: "string \<Rightarrow> string" where
  "strip_cr l = (if l \<noteq> [] \<and> last l = CHR 0x0D then butlast l else l)"

definition lines_of :: "string \<Rightarrow> string list" where
  "lines_of t =
     (let ps = split_on (\<lambda>c. c = CHR 0x0A) t
      in map strip_cr (butlast ps) @ (if last ps = [] then [] else [last ps]))"

datatype payload =
    PText string
  | PFiles "string list"
  | PImage string bytes
  | PSecretB64 string

definition row_of :: "string \<Rightarrow> clip_store \<Rightarrow> clip_row option" where
  "row_of i s = find (\<lambda>r. ce_id r = i) (cs_rows s)"

definition read_blob :: "string \<Rightarrow> clip_store \<Rightarrow> string + bytes" where
  "read_blob name s = ok_or ''CLIPBOARD_STORAGE_002'' (cs_blobs s name)"

definition format_of :: "string \<Rightarrow> string" where
  "format_of name = last (split_on (\<lambda>c. c = CHR ''.'') name)"

definition row_payload :: "clip_row \<Rightarrow> clip_store \<Rightarrow> string + payload option" where
  "row_payload r s =
     (if ce_type r = ''image'' then
        (case ce_blob r of
           None \<Rightarrow> Inr None
         | Some b \<Rightarrow> res_bind (read_blob b s) (\<lambda>bs. Inr (Some (PImage (format_of b) bs))))
      else if ce_type r = ''files'' then Inr (Some (PFiles (lines_of (unwrap_or [] (ce_content r)))))
      else
        (case ce_blob r of
           Some b \<Rightarrow> res_bind (read_blob b s) (\<lambda>bs.
             Inr (Some (if ce_secret r then PSecretB64 (bytes_text bs) else PText (bytes_text bs))))
         | None \<Rightarrow>
             (case ce_content r of
                None \<Rightarrow> Inr None
              | Some t \<Rightarrow> Inr (Some (if ce_secret r then PSecretB64 t else PText t)))))"

definition get_payload :: "string \<Rightarrow> clip_store \<Rightarrow> string + payload option" where
  "get_payload i s = (case row_of i s of None \<Rightarrow> Inr None | Some r \<Rightarrow> row_payload r s)"

text \<open>\<open>get_content\<close> reads the column \<open>content\<close> as a string, so a NULL there is an error of the query.\<close>

definition get_content ::
    "(string \<Rightarrow> bytes option) \<Rightarrow> (bytes \<Rightarrow> string + bytes) \<Rightarrow> string \<Rightarrow> clip_store \<Rightarrow> string + string option" where
  "get_content unb64 unprotect i s =
     (case row_of i s of
        None \<Rightarrow> Inr None
      | Some r \<Rightarrow>
          (case ce_content r of
             None \<Rightarrow> Inl ''CLIPBOARD_STORAGE_001''
           | Some t \<Rightarrow>
               (case ce_blob r of
                  Some b \<Rightarrow> res_bind (read_blob b s) (\<lambda>bs. Inr (Some (bytes_text bs)))
                | None \<Rightarrow>
                    if ce_secret r then
                      res_bind (ok_or ''CLIPBOARD_STORAGE_001'' (unb64 t)) (\<lambda>c.
                      res_bind (unprotect c) (\<lambda>p. Inr (Some (bytes_text p))))
                    else Inr (Some t))))"

definition get_html :: "string \<Rightarrow> clip_store \<Rightarrow> string option" where
  "get_html i s = (case row_of i s of None \<Rightarrow> None | Some r \<Rightarrow> ce_html r)"

section \<open>Removing rows and files\<close>

text \<open>A removal ends well, or gets stuck after overwriting some bytes.\<close>

datatype blob_removal = Removed | Stuck nat

definition remove_blob :: "blob_removal \<Rightarrow> bool \<Rightarrow> string \<Rightarrow> clip_store \<Rightarrow> clip_store" where
  "remove_blob rm overwrite name s =
     (case cs_blobs s name of
        None \<Rightarrow> s
      | Some bs \<Rightarrow>
          (case rm of
             Removed \<Rightarrow> s\<lparr>cs_blobs := (cs_blobs s)(name := None)\<rparr>
           | Stuck n \<Rightarrow>
               if overwrite then
                 s\<lparr>cs_blobs := (cs_blobs s)(name \<mapsto> replicate (min n (length bs)) 0 @ drop n bs)\<rparr>
               else s))"

fun remove_blobs :: "(string \<Rightarrow> blob_removal) \<Rightarrow> bool \<Rightarrow> string list \<Rightarrow> clip_store \<Rightarrow> clip_store" where
  "remove_blobs rm overwrite [] s = s"
| "remove_blobs rm overwrite (b # bs) s = remove_blobs rm overwrite bs (remove_blob (rm b) overwrite b s)"

text \<open>Rows that go take their places in the paste stack with them (\<open>ON DELETE CASCADE\<close>).\<close>

definition drop_rows :: "(clip_row \<Rightarrow> bool) \<Rightarrow> clip_store \<Rightarrow> clip_store" where
  "drop_rows P s =
     s\<lparr>cs_rows := filter (Not \<circ> P) (cs_rows s),
       cs_stack := filter (\<lambda>e. \<not> list_ex (\<lambda>r. P r \<and> ce_id r = sr_entry e) (cs_rows s)) (cs_stack s)\<rparr>"

definition blobs_of :: "(clip_row \<Rightarrow> bool) \<Rightarrow> clip_store \<Rightarrow> string list" where
  "blobs_of P s = List.map_filter (\<lambda>r. if P r then ce_blob r else None) (cs_rows s)"

text \<open>\<open>delete\<close> gives the lock back before the file goes: its first half, then the whole.\<close>

definition drop_row :: "string \<Rightarrow> clip_store \<Rightarrow> string option \<times> clip_store" where
  "drop_row i s = (Option.bind (row_of i s) ce_blob, drop_rows (\<lambda>r. ce_id r = i) s)"

definition clip_delete :: "(string \<Rightarrow> blob_removal) \<Rightarrow> string \<Rightarrow> clip_store \<Rightarrow> clip_store" where
  "clip_delete rm i s =
     (let (blob, s') = drop_row i s
      in case blob of None \<Rightarrow> s' | Some b \<Rightarrow> remove_blob (rm b) False b s')"

definition clear_rows :: "bool \<Rightarrow> clip_store \<Rightarrow> (string list \<times> nat) \<times> clip_store" where
  "clear_rows keep_pinned s =
     (let P = (\<lambda>r. \<not> (keep_pinned \<and> ce_pinned r))
      in ((blobs_of P s, length (filter P (cs_rows s))), drop_rows P s))"

definition clear_entries :: "(string \<Rightarrow> blob_removal) \<Rightarrow> bool \<Rightarrow> clip_store \<Rightarrow> nat \<times> clip_store" where
  "clear_entries rm keep_pinned s =
     (let ((bs, n), s') = clear_rows keep_pinned s in (n, remove_blobs rm True bs s'))"

text \<open>\<open>purge\<close>: the rows that are too old, then those beyond the newest \<open>max_entries\<close>.  Rows of
  the same time stand in the order of their rowid, as the index lists them.\<close>

definition clip_day_ms :: int where "clip_day_ms = 86400000"

definition expired :: "int \<Rightarrow> nat \<Rightarrow> clip_row \<Rightarrow> bool" where
  "expired now days r \<longleftrightarrow> 0 < days \<and> \<not> ce_pinned r \<and> ce_created r < now - int days * clip_day_ms"

definition newest_first :: "clip_row list \<Rightarrow> clip_row list" where
  "newest_first rs = sort_key (\<lambda>r. - ce_created r) rs"

definition overflow_ids :: "nat \<Rightarrow> clip_store \<Rightarrow> string list" where
  "overflow_ids cap s = map ce_id (drop cap (newest_first (filter (\<lambda>r. \<not> ce_pinned r) (cs_rows s))))"

definition overflows :: "nat \<Rightarrow> clip_store \<Rightarrow> clip_row \<Rightarrow> bool" where
  "overflows cap s r \<longleftrightarrow> \<not> ce_pinned r \<and> ce_id r \<in> set (overflow_ids cap s)"

definition purge_rows :: "int \<Rightarrow> nat \<Rightarrow> nat \<Rightarrow> clip_store \<Rightarrow> (string list \<times> nat) \<times> clip_store" where
  "purge_rows now days cap s =
     (let blobs_a = blobs_of (expired now days) s;
          n_expired = length (filter (expired now days) (cs_rows s));
          s1 = drop_rows (expired now days) s;
          blobs_b = blobs_of (overflows cap s1) s1;
          n_overflow = length (filter (overflows cap s1) (cs_rows s1))
      in ((blobs_a @ blobs_b, n_expired + n_overflow), drop_rows (overflows cap s1) s1))"

definition purge :: "(string \<Rightarrow> blob_removal) \<Rightarrow> int \<Rightarrow> nat \<Rightarrow> nat \<Rightarrow> clip_store \<Rightarrow> nat \<times> clip_store" where
  "purge rm now days cap s =
     (let ((bs, n), s') = purge_rows now days cap s in (n, remove_blobs rm True bs s'))"

text \<open>The names are those the directory lists.\<close>

fun gc_blobs :: "(string \<Rightarrow> blob_removal) \<Rightarrow> string list \<Rightarrow> string list \<Rightarrow> clip_store \<Rightarrow> nat \<times> clip_store" where
  "gc_blobs rm referenced [] s = (0, s)"
| "gc_blobs rm referenced (name # names) s =
     (if name \<in> set referenced then gc_blobs rm referenced names s
      else
        (let s1 = remove_blob (rm name) True name s; (n, s2) = gc_blobs rm referenced names s1
         in (if cs_blobs s1 name = None then Suc n else n, s2)))"

definition gc_orphan_blobs :: "(string \<Rightarrow> blob_removal) \<Rightarrow> string list \<Rightarrow> clip_store \<Rightarrow> nat \<times> clip_store" where
  "gc_orphan_blobs rm names s = gc_blobs rm (blobs_of (\<lambda>_. True) s) names s"

section \<open>The paste stack\<close>

definition pin_entry :: "string \<Rightarrow> bool \<Rightarrow> clip_store \<Rightarrow> clip_store" where
  "pin_entry i p s = upd_row i (\<lambda>r. r\<lparr>ce_pinned := p\<rparr>) s"

definition next_position :: "stack_row list \<Rightarrow> int" where
  "next_position st = (if st = [] then 0 else Max (sr_pos ` set st)) + 1"

definition stack_push :: "string \<Rightarrow> clip_store \<Rightarrow> (string + nat) \<times> clip_store" where
  "stack_push i s =
     (if row_of i s = None then (Inl ''CLIPBOARD_STACK_001'', s)
      else
        (let s' =
           (if list_ex (\<lambda>e. sr_entry e = i) (cs_stack s) then s
            else s\<lparr>cs_stack := cs_stack s @ [\<lparr>sr_id = cs_next s, sr_entry = i, sr_pos = next_position (cs_stack s)\<rparr>],
                   cs_next := Suc (cs_next s)\<rparr>)
         in (Inr (length (cs_stack s')), s')))"

definition in_order :: "stack_row list \<Rightarrow> stack_row list" where
  "in_order st = sort_key sr_pos st"

definition stack_list :: "clip_store \<Rightarrow> string list" where
  "stack_list s = map sr_entry (in_order (cs_stack s))"

definition stack_take_next :: "clip_store \<Rightarrow> string option \<times> clip_store" where
  "stack_take_next s =
     (case in_order (cs_stack s) of
        [] \<Rightarrow> (None, s)
      | e # _ \<Rightarrow> (Some (sr_entry e), s\<lparr>cs_stack := filter (\<lambda>x. sr_id x \<noteq> sr_id e) (cs_stack s)\<rparr>))"

text \<open>\<open>stack_move\<close> reads the order, then writes the positions in a transaction of its own.\<close>

definition move_to :: "'a \<Rightarrow> nat \<Rightarrow> 'a list \<Rightarrow> 'a list" where
  "move_to x k xs = (let rest = remove1 x xs; k' = min k (length rest) in take k' rest @ x # drop k' rest)"

definition set_position :: "string \<Rightarrow> int \<Rightarrow> clip_store \<Rightarrow> clip_store" where
  "set_position i p s = s\<lparr>cs_stack := map (\<lambda>e. if sr_entry e = i then e\<lparr>sr_pos := p\<rparr> else e) (cs_stack s)\<rparr>"

fun write_order :: "nat \<Rightarrow> string list \<Rightarrow> clip_store \<Rightarrow> clip_store" where
  "write_order k [] s = s"
| "write_order k (i # is) s = write_order (Suc k) is (set_position i (int k) s)"

definition stack_move :: "string \<Rightarrow> nat \<Rightarrow> clip_store \<Rightarrow> (string + unit) \<times> clip_store" where
  "stack_move i k s =
     (let order = stack_list s
      in if i \<notin> set order then (Inl ''CLIPBOARD_STACK_001'', s)
         else (Inr (), write_order 0 (move_to i k order) s))"

definition stack_remove :: "string \<Rightarrow> clip_store \<Rightarrow> bool \<times> clip_store" where
  "stack_remove i s =
     (list_ex (\<lambda>e. sr_entry e = i) (cs_stack s), s\<lparr>cs_stack := filter (\<lambda>e. sr_entry e \<noteq> i) (cs_stack s)\<rparr>)"

definition stack_clear :: "clip_store \<Rightarrow> nat \<times> clip_store" where
  "stack_clear s = (length (cs_stack s), s\<lparr>cs_stack := []\<rparr>)"

section \<open>Groups and suggestions\<close>

definition sanitize_group_name :: "string \<Rightarrow> string + string" where
  "sanitize_group_name name =
     (let t = str_trim name
      in if t = [] then Inl ''CLIPBOARD_GROUP_002''
         else if 64 < length (chars_of t) then Inl ''CLIPBOARD_GROUP_002''
         else Inr t)"

definition set_entry_group :: "string \<Rightarrow> string option \<Rightarrow> clip_store \<Rightarrow> (string + unit) \<times> clip_store" where
  "set_entry_group i g s =
     (case (case g of None \<Rightarrow> Inr None | Some n \<Rightarrow> res_bind (sanitize_group_name n) (\<lambda>t. Inr (Some t))) of
        Inl e \<Rightarrow> (Inl e, s)
      | Inr g' \<Rightarrow>
          if row_of i s = None then (Inl ''CLIPBOARD_GROUP_001'', s)
          else (Inr (), upd_row i (\<lambda>r. r\<lparr>ce_group := g'\<rparr>) s))"

definition regroup :: "string \<Rightarrow> string option \<Rightarrow> clip_store \<Rightarrow> nat \<times> clip_store" where
  "regroup n g s =
     (length (filter (\<lambda>r. ce_group r = Some n) (cs_rows s)),
      s\<lparr>cs_rows := map (\<lambda>r. if ce_group r = Some n then r\<lparr>ce_group := g\<rparr> else r) (cs_rows s)\<rparr>)"

definition rename_group :: "string \<Rightarrow> string \<Rightarrow> clip_store \<Rightarrow> (string + nat) \<times> clip_store" where
  "rename_group n m s =
     (case sanitize_group_name m of
        Inl e \<Rightarrow> (Inl e, s)
      | Inr t \<Rightarrow> (let (k, s') = regroup n (Some t) s in (Inr k, s')))"

definition delete_group :: "string \<Rightarrow> clip_store \<Rightarrow> nat \<times> clip_store" where
  "delete_group n s = regroup n None s"

definition suggestible :: "bool \<Rightarrow> clip_row \<Rightarrow> bool" where
  "suggestible accept r \<longleftrightarrow> (accept \<longrightarrow> ce_suggested r \<noteq> None \<and> ce_group r = None)"

definition settle_suggestion :: "bool \<Rightarrow> clip_row \<Rightarrow> clip_row" where
  "settle_suggestion accept r =
     (if accept then r\<lparr>ce_group := ce_suggested r\<rparr> else r\<lparr>ce_dismissed := True\<rparr>)"

fun apply_suggestion :: "string list \<Rightarrow> bool \<Rightarrow> clip_store \<Rightarrow> nat \<times> clip_store" where
  "apply_suggestion [] accept s = (0, s)"
| "apply_suggestion (i # is) accept s =
     (let hit = (\<lambda>r. ce_id r = i \<and> suggestible accept r);
          n = length (filter hit (cs_rows s));
          s1 = s\<lparr>cs_rows := map (\<lambda>r. if hit r then settle_suggestion accept r else r) (cs_rows s)\<rparr>;
          (m, s2) = apply_suggestion is accept s1
      in (n + m, s2))"

end
