(* ===== verification/Clip_Laws.thy ===== *)
theory Clip_Laws
  imports Clip_Store
begin

text \<open>
  What the clipboard history keeps: every row can be read, and what is read hashes to the row's
  content hash, through every operation in any order, torn writes and stuck removals included;
  the paste stack is a first-in first-out queue; the bound a purge leaves.  And where it fails:
  the lock is given back between the row and the file of a deletion.
\<close>

section \<open>Hashes and blob names\<close>

lemma hex_digit_not_dot [simp]: "n < 16 \<Longrightarrow> hex_digit n \<noteq> CHR ''.''"
proof -
  assume n: "n < 16"
  have "hex_digit n \<in> hex_digit ` set [0..<16]" using n by simp
  also have "hex_digit ` set [0..<16] \<subseteq> set ''0123456789abcdef''"
    by (simp add: hex_digit_def upt_conv_Cons) code_simp
  finally show "hex_digit n \<noteq> CHR ''.''" by auto
qed

lemma hex_lower_no_dot [simp]: "CHR ''.'' \<notin> set (hex_lower bs)"
proof -
  have a: "unat b div 16 < 16" "unat b mod 16 < 16" for b :: byte
    using unsigned_less [of b] by (simp_all add: div_less_iff_less_mult)
  then have "hex_digit (unat b div 16) \<noteq> CHR ''.''" "hex_digit (unat b mod 16) \<noteq> CHR ''.''" for b :: byte
    using hex_digit_not_dot by blast+
  then have "CHR ''.'' \<notin> set (hex_byte b)" for b
    unfolding hex_byte_def by (auto dest: sym)
  then show ?thesis by (induction bs) (auto simp: hex_lower_def)
qed

lemma content_hash_no_dot [simp]: "CHR ''.'' \<notin> set (content_hash_bytes sha bs)"
  by (simp add: content_hash_bytes_def)

lemma dot_split:
  assumes "xs @ CHR ''.'' # ys = xs' @ CHR ''.'' # ys'" "CHR ''.'' \<notin> set xs" "CHR ''.'' \<notin> set xs'"
  shows "xs = xs'"
proof -
  have "takeWhile (\<lambda>c. c \<noteq> CHR ''.'') (xs @ CHR ''.'' # ys) = xs"
    using assms(2) by (induction xs) auto
  moreover have "takeWhile (\<lambda>c. c \<noteq> CHR ''.'') (xs' @ CHR ''.'' # ys') = xs'"
    using assms(3) by (induction xs') auto
  ultimately show ?thesis using assms(1) by simp
qed

lemma bytes_text_str [simp]: "bytes_text (str_bytes t) = t"
proof -
  have "unat (of_nat (of_char c) :: byte) = of_char c" for c :: char
    by (simp add: unat_of_nat nat_of_char_less_256 [unfolded of_char_def])
  then show ?thesis by (induction t) (simp_all add: bytes_text_def str_bytes_def)
qed

section \<open>The invariant\<close>

definition clip_row_ok :: "(bytes \<Rightarrow> bytes) \<Rightarrow> (string \<Rightarrow> bytes option) \<Rightarrow> clip_row \<Rightarrow> bool" where
  "clip_row_ok sha B r \<longleftrightarrow>
     ce_type r \<in> {''text'', ''files'', ''image''} \<and> (ce_secret r \<longrightarrow> ce_type r = ''text'') \<and>
     (case ce_blob r of
        Some b \<Rightarrow> ce_content r \<noteq> None \<and> ce_type r \<noteq> ''files'' \<and>
          (\<exists>ext bs. b = ce_hash r @ ''.'' @ ext \<and> B b = Some bs \<and> ce_hash r = content_hash_bytes sha bs)
      | None \<Rightarrow> ce_type r \<noteq> ''image'' \<and>
          (\<exists>t. ce_content r = Some t \<and> ce_hash r = content_hash sha t \<and>
             (ce_type r = ''files'' \<or> length t \<le> blob_threshold)))"

definition stack_ok :: "clip_store \<Rightarrow> bool" where
  "stack_ok s \<longleftrightarrow>
     distinct (map sr_entry (cs_stack s)) \<and> distinct (map sr_id (cs_stack s)) \<and>
     distinct (map sr_pos (cs_stack s)) \<and> (\<forall>e \<in> set (cs_stack s). sr_id e < cs_next s) \<and>
     sr_entry ` set (cs_stack s) \<subseteq> ce_id ` set (cs_rows s)"

definition clip_ok :: "(bytes \<Rightarrow> bytes) \<Rightarrow> clip_store \<Rightarrow> bool" where
  "clip_ok sha s \<longleftrightarrow>
     distinct (map ce_id (cs_rows s)) \<and> distinct (map ce_hash (cs_rows s)) \<and>
     (\<forall>r \<in> set (cs_rows s). clip_row_ok sha (cs_blobs s) r) \<and> stack_ok s"

lemma clip_open_ok [simp]: "clip_ok sha clip_open"
  by (simp add: clip_ok_def clip_open_def stack_ok_def)

lemma row_ok_hash_no_dot: "clip_row_ok sha B r \<Longrightarrow> CHR ''.'' \<notin> set (ce_hash r)"
  by (auto simp: clip_row_ok_def content_hash_def split: option.splits)

text \<open>Which file a row refers to is decided by its hash.\<close>

lemma row_ok_blob:
  assumes "clip_row_ok sha B r" "ce_blob r = Some (hash @ ''.'' @ ext)" "CHR ''.'' \<notin> set hash"
  shows "ce_hash r = hash"
proof -
  obtain ext' bs where e: "hash @ ''.'' @ ext = ce_hash r @ ''.'' @ ext'"
    using assms(1,2) by (auto simp: clip_row_ok_def)
  have "CHR ''.'' \<notin> set (ce_hash r)" by (rule row_ok_hash_no_dot [OF assms(1)])
  with e assms(3) show ?thesis using dot_split [of hash ext "ce_hash r" ext'] by simp
qed

definition referenced :: "clip_store \<Rightarrow> string \<Rightarrow> bool" where
  "referenced s b \<longleftrightarrow> (\<exists>r \<in> set (cs_rows s). ce_blob r = Some b)"

lemma row_ok_other_blob: "ce_blob r \<noteq> Some b \<Longrightarrow> clip_row_ok sha (B(b := x)) r = clip_row_ok sha B r"
  by (auto simp: clip_row_ok_def split: option.splits)

lemma clip_ok_blob:
  assumes "clip_ok sha s" "\<not> referenced s b"
  shows "clip_ok sha (s\<lparr>cs_blobs := (cs_blobs s)(b := x)\<rparr>)"
proof -
  have "clip_row_ok sha ((cs_blobs s)(b := x)) r" if "r \<in> set (cs_rows s)" for r
    using that assms row_ok_other_blob [of r b sha "cs_blobs s" x]
    by (auto simp: clip_ok_def referenced_def)
  with assms(1) show ?thesis by (auto simp: clip_ok_def stack_ok_def)
qed

lemma referenced_blobs [simp]: "referenced (s\<lparr>cs_blobs := B\<rparr>) b = referenced s b"
  by (simp add: referenced_def)

lemma remove_blob_rows [simp]: "cs_rows (remove_blob rm ow b s) = cs_rows s"
  "cs_stack (remove_blob rm ow b s) = cs_stack s" "cs_next (remove_blob rm ow b s) = cs_next s"
  by (auto simp: remove_blob_def split: option.splits blob_removal.splits)

lemma remove_blob_ok [inv_intros]: "clip_ok sha s \<Longrightarrow> \<not> referenced s b \<Longrightarrow> clip_ok sha (remove_blob rm ow b s)"
  by (auto simp: remove_blob_def clip_ok_blob split: option.splits blob_removal.splits)

lemma remove_blobs_rows [simp]: "cs_rows (remove_blobs rm ow bs s) = cs_rows s"
  "cs_stack (remove_blobs rm ow bs s) = cs_stack s"
  by (induction bs arbitrary: s) simp_all

lemma remove_blobs_ok [inv_intros]:
  "clip_ok sha s \<Longrightarrow> (\<And>b. b \<in> set bs \<Longrightarrow> \<not> referenced s b) \<Longrightarrow> clip_ok sha (remove_blobs rm ow bs s)"
proof (induction bs arbitrary: s)
  case (Cons b bs)
  have "clip_ok sha (remove_blob (rm b) ow b s)" using Cons.prems by (intro remove_blob_ok) auto
  moreover have "\<not> referenced (remove_blob (rm b) ow b s) x" if "x \<in> set bs" for x
    using Cons.prems(2) [of x] that by (simp add: referenced_def)
  ultimately show ?case using Cons.IH by simp
qed simp

section \<open>Inserting keeps it\<close>

lemma existing_None: "existing hash s = None \<longleftrightarrow> hash \<notin> ce_hash ` set (cs_rows s)"
  by (auto simp: existing_def find_None_iff)

lemma existing_Some: "existing hash s = Some i \<Longrightarrow> \<exists>r \<in> set (cs_rows s). ce_id r = i \<and> ce_hash r = hash"
  by (auto simp: existing_def find_Some_iff)

lemma fresh_blob:
  assumes "clip_ok sha s" "existing hash s = None" "CHR ''.'' \<notin> set hash"
  shows "\<not> referenced s (hash @ ''.'' @ ext)"
  using assms row_ok_blob [of sha "cs_blobs s" _ hash ext]
  by (auto simp: referenced_def existing_None clip_ok_def)

definition body :: "clip_row \<Rightarrow> string \<times> string \<times> string option \<times> string \<times> string option \<times> bool" where
  "body r = (ce_id r, ce_type r, ce_content r, ce_hash r, ce_blob r, ce_secret r)"

lemma bodyD: "body r = body q \<Longrightarrow>
    ce_id r = ce_id q \<and> ce_type r = ce_type q \<and> ce_content r = ce_content q \<and> ce_hash r = ce_hash q \<and>
    ce_blob r = ce_blob q \<and> ce_secret r = ce_secret q"
  by (simp add: body_def)

lemma map_rows_ok [inv_intros]:
  assumes "clip_ok sha s" "\<And>r. body (f r) = body r"
  shows "clip_ok sha (s\<lparr>cs_rows := map f (cs_rows s)\<rparr>)"
proof -
  note b = bodyD [OF assms(2)]
  have m: "ce_id \<circ> f = ce_id" "ce_hash \<circ> f = ce_hash" using b by (auto simp: fun_eq_iff)
  have i: "ce_id ` f ` A = ce_id ` A" for A using b by (auto simp: image_iff)
  show ?thesis
    using assms(1) b by (auto simp: clip_ok_def stack_ok_def clip_row_ok_def m i split: option.splits)
qed

lemma upd_row_ok [inv_intros]: "clip_ok sha s \<Longrightarrow> (\<And>r. body (f r) = body r) \<Longrightarrow> clip_ok sha (upd_row i f s)"
  unfolding upd_row_def by (rule map_rows_ok) auto

lemma body_simps [simp]: "body (refresh_row now origin r) = body r" "body (coalesce_html h r) = body r"
  "body (r\<lparr>ce_pinned := p\<rparr>) = body r" "body (r\<lparr>ce_group := g\<rparr>) = body r" "body (r\<lparr>ce_dismissed := d\<rparr>) = body r"
  by (simp_all add: body_def refresh_row_def coalesce_html_def)

lemma add_row_ok [inv_intros]:
  assumes "clip_ok sha s" "ce_id r \<notin> ce_id ` set (cs_rows s)" "ce_hash r \<notin> ce_hash ` set (cs_rows s)"
    "clip_row_ok sha (cs_blobs s) r"
  shows "clip_ok sha (add_row r s)"
  using assms by (auto simp: clip_ok_def stack_ok_def add_row_def)

lemma write_blob_cases:
  assumes "clip_ok sha s" "existing hash s = None" "CHR ''.'' \<notin> set hash"
    and w: "write_blob w (hash @ ''.'' @ ext) bs s = (ok, s')"
  shows "clip_ok sha s'" and "cs_rows s' = cs_rows s"
    and "ok \<Longrightarrow> cs_blobs s' (hash @ ''.'' @ ext) = Some bs"
proof -
  have "s' = s\<lparr>cs_blobs := (cs_blobs s)(hash @ ''.'' @ ext \<mapsto> (case w of Wrote \<Rightarrow> bs | Torn n \<Rightarrow> take n bs))\<rparr>"
    and ok: "ok = (w = Wrote)"
    using w by (auto simp: write_blob_def split: fs_write.splits)
  then show "clip_ok sha s'" "cs_rows s' = cs_rows s" "ok \<Longrightarrow> cs_blobs s' (hash @ ''.'' @ ext) = Some bs"
    using clip_ok_blob [OF assms(1) fresh_blob [OF assms(1-3)]] by (auto split: fs_write.splits)
qed

text \<open>A row whose content goes to a file of its own.\<close>

lemma blob_row_ok:
  assumes "clip_ok sha s" "existing hash s = None" "hash = content_hash_bytes sha bs"
    "write_blob w (hash @ ''.'' @ ext) bs s = (True, s')"
    "ce_id r \<notin> ce_id ` set (cs_rows s)" "ce_hash r = hash" "ce_blob r = Some (hash @ ''.'' @ ext)"
    "ce_content r \<noteq> None" "ce_type r = ''text'' \<or> ce_type r = ''image'' \<and> \<not> ce_secret r"
  shows "clip_ok sha (add_row r s')"
proof -
  have nd: "CHR ''.'' \<notin> set hash" by (simp add: assms(3))
  note w = write_blob_cases [OF assms(1,2) nd assms(4)]
  show ?thesis
  proof (rule add_row_ok [OF w(1)])
    show "clip_row_ok sha (cs_blobs s') r"
      using w(3) assms(3,6-9) by (auto simp: clip_row_ok_def)
  qed (use w(2) assms(2,5,6) in \<open>auto simp: existing_None\<close>)
qed

lemma insert_row_ok [inv_intros]:
  assumes "clip_ok sha s" "cl_uuid cl \<notin> ce_id ` set (cs_rows s)" "\<not> nc_secret c"
  shows "clip_ok sha (snd (insert_row sha cl c s))"
proof -
  define hash where "hash = content_hash sha (nc_text c)"
  have hb: "hash = content_hash_bytes sha (str_bytes (nc_text c))" by (simp add: hash_def content_hash_def)
  show ?thesis
  proof (cases "existing hash s")
    case (Some i)
    then show ?thesis
      using assms(1) by (simp add: insert_row_def hash_def [symmetric] upd_row_ok)
  next
    case None
    consider (big) "blob_threshold < length (nc_text c)" | (small) "\<not> blob_threshold < length (nc_text c)" by blast
    then show ?thesis
    proof cases
      case big
      obtain ok s' where w: "write_blob (cl_write cl) (hash @ ''.'' @ ''txt'') (str_bytes (nc_text c)) s = (ok, s')"
        by fastforce
      have "clip_ok sha s'" using write_blob_cases(1) [OF assms(1) None _ w] by (simp add: hb)
      moreover have "clip_ok sha (add_row (text_row cl c hash (text_preview (nc_text c)) (Some (hash @ ''.'' @ ''txt''))) s')" if ok
        using w that assms(2) by (intro blob_row_ok [OF assms(1) None hb]) (auto simp: text_row_def blank_row_def)
      ultimately show ?thesis
        using None big w assms(3) by (simp add: insert_row_def hash_def [symmetric])
    next
      case small
      have "clip_ok sha (add_row (text_row cl c hash (nc_text c) None) s)"
        using assms(1,2) None small
        by (intro add_row_ok) (auto simp: existing_None text_row_def blank_row_def clip_row_ok_def hash_def)
      then show ?thesis using None small assms(3) by (simp add: insert_row_def hash_def [symmetric])
    qed
  qed
qed

lemma insert_encrypted_ok [inv_intros]:
  assumes "clip_ok sha s" "cl_uuid cl \<notin> ce_id ` set (cs_rows s)" "existing (content_hash sha b64) s = None"
  shows "clip_ok sha (snd (insert_encrypted sha cl b64 grp sugg src origin s))"
proof -
  define hash where "hash = content_hash sha b64"
  have hb: "hash = content_hash_bytes sha (str_bytes b64)" by (simp add: hash_def content_hash_def)
  have None: "existing hash s = None" using assms(3) by (simp add: hash_def)
  show ?thesis
  proof (cases "blob_threshold < length b64")
    case True
    obtain ok s' where w: "write_blob (cl_write cl) (hash @ ''.'' @ ''enc'') (str_bytes b64) s = (ok, s')"
      by fastforce
    have "clip_ok sha s'" using write_blob_cases(1) [OF assms(1) None _ w] by (simp add: hb)
    moreover have "clip_ok sha (add_row (text_row cl c hash [] (Some (hash @ ''.'' @ ''enc''))) s')" if ok for c
      using w that assms(2) by (intro blob_row_ok [OF assms(1) None hb]) (auto simp: text_row_def blank_row_def)
    ultimately show ?thesis using True w by (simp add: insert_encrypted_def hash_def [symmetric])
  next
    case False
    have "clip_ok sha (add_row (text_row cl c hash b64 None) s)" for c
      using assms(1,2) None False
      by (intro add_row_ok) (auto simp: existing_None text_row_def blank_row_def clip_row_ok_def hash_def)
    then show ?thesis using False by (simp add: insert_encrypted_def hash_def [symmetric])
  qed
qed

lemma insert_image_ok [inv_intros]:
  assumes "clip_ok sha s" "cl_uuid cl \<notin> ce_id ` set (cs_rows s)"
  shows "clip_ok sha (snd (insert_image sha cl fmt width height bs src origin s))"
proof -
  define hash where "hash = content_hash_bytes sha bs"
  show ?thesis
  proof (cases "existing hash s")
    case (Some i)
    then show ?thesis using assms(1) by (simp add: insert_image_def hash_def [symmetric] upd_row_ok)
  next
    case None
    obtain ok s' where w: "write_blob (cl_write cl) (hash @ ''.'' @ fmt) bs s = (ok, s')" by fastforce
    have "clip_ok sha s'" using write_blob_cases(1) [OF assms(1) None _ w] by (simp add: hash_def)
    moreover have "clip_ok sha (add_row ((blank_row cl ''image'' hash)
        \<lparr>ce_content := Some (show_nat width @ ''x'' @ show_nat height), ce_blob := Some (hash @ ''.'' @ fmt),
         ce_origin := origin, ce_source := src\<rparr>) s')" if ok
      using w that assms(2) by (intro blob_row_ok [OF assms(1) None hash_def]) (auto simp: blank_row_def)
    ultimately show ?thesis using None w by (simp add: insert_image_def hash_def [symmetric])
  qed
qed

lemma insert_typed_ok:
  assumes "clip_ok sha s" "cl_uuid cl \<notin> ce_id ` set (cs_rows s)" "ty = ''files''"
  shows "clip_ok sha (snd (insert_typed sha cl content ty src origin s))"
proof (cases "existing (content_hash sha content) s")
  case (Some i)
  then show ?thesis using assms(1) by (simp add: insert_typed_def upd_row_ok)
next
  case None
  have "clip_ok sha (add_row ((blank_row cl ty (content_hash sha content))
      \<lparr>ce_content := Some content, ce_origin := origin, ce_source := src\<rparr>) s)"
    using assms None by (intro add_row_ok) (auto simp: existing_None blank_row_def clip_row_ok_def)
  with None show ?thesis by (simp add: insert_typed_def)
qed

lemma insert_files_ok [inv_intros]:
  "clip_ok sha s \<Longrightarrow> cl_uuid cl \<notin> ce_id ` set (cs_rows s) \<Longrightarrow> clip_ok sha (snd (insert_files sha cl paths src origin s))"
  unfolding insert_files_def by (rule insert_typed_ok) simp_all

section \<open>Removing keeps it\<close>

lemma drop_rows_ok [inv_intros]:
  assumes ok: "clip_ok sha s" shows "clip_ok sha (drop_rows P s)"
proof -
  have "sr_entry e \<in> ce_id ` {r \<in> set (cs_rows s). \<not> P r}"
    if e: "e \<in> set (cs_stack s)" and n: "\<forall>r \<in> set (cs_rows s). P r \<longrightarrow> ce_id r \<noteq> sr_entry e" for e
  proof -
    obtain r where "r \<in> set (cs_rows s)" "ce_id r = sr_entry e"
      using ok e unfolding clip_ok_def stack_ok_def by (metis image_eqI image_iff subsetD)
    with n show ?thesis by (auto simp: image_iff intro!: bexI [of _ r])
  qed
  with ok show ?thesis
    unfolding clip_ok_def stack_ok_def drop_rows_def by (auto simp: distinct_map_filter list_ex_iff)
qed

lemma blobs_of_set: "set (blobs_of P s) = {b. \<exists>r \<in> set (cs_rows s). P r \<and> ce_blob r = Some b}"
  by (auto simp: blobs_of_def List.map_filter_def image_iff split: if_splits) force

text \<open>Two rows never share a file.\<close>

lemma shared_blob:
  assumes "clip_ok sha s" "r \<in> set (cs_rows s)" "q \<in> set (cs_rows s)" "ce_blob r = Some b" "ce_blob q = Some b"
  shows "r = q"
proof -
  have ok: "clip_row_ok sha (cs_blobs s) r" "clip_row_ok sha (cs_blobs s) q"
    and d: "distinct (map ce_hash (cs_rows s))" using assms(1-3) by (auto simp: clip_ok_def)
  obtain ext where "b = ce_hash q @ ''.'' @ ext" using ok(2) assms(5) by (auto simp: clip_row_ok_def)
  then have "ce_hash r = ce_hash q"
    using row_ok_blob [OF ok(1)] assms(4) row_ok_hash_no_dot [OF ok(2)] by blast
  then show ?thesis using d assms(2,3) by (auto simp: distinct_map dest: inj_onD)
qed

lemma dropped_blobs_free:
  assumes "clip_ok sha s" "b \<in> set (blobs_of P s)"
  shows "\<not> referenced (drop_rows P s) b"
  using assms shared_blob [OF assms(1)] by (fastforce simp: blobs_of_set referenced_def drop_rows_def)

lemma referenced_drop: "referenced (drop_rows P s) b \<Longrightarrow> referenced s b"
  by (auto simp: referenced_def drop_rows_def)

lemma row_of_set: "row_of i s = Some r \<Longrightarrow> r \<in> set (cs_rows s) \<and> ce_id r = i"
  by (auto simp: row_of_def find_Some_iff)

lemma row_of_None: "row_of i s = None \<longleftrightarrow> i \<notin> ce_id ` set (cs_rows s)"
  by (auto simp: row_of_def find_None_iff)

lemma row_of_iff: "clip_ok sha s \<Longrightarrow> row_of i s = Some r \<longleftrightarrow> r \<in> set (cs_rows s) \<and> ce_id r = i"
proof
  assume ok: "clip_ok sha s" and r: "r \<in> set (cs_rows s) \<and> ce_id r = i"
  then obtain q where q: "row_of i s = Some q" using row_of_None [of i s] by (cases "row_of i s") auto
  with row_of_set [OF q] ok r show "row_of i s = Some r"
    by (auto simp: clip_ok_def distinct_map dest: inj_onD)
qed (rule row_of_set)

lemma row_of_add: "row_of i (add_row r s) = (case row_of i s of None \<Rightarrow> if ce_id r = i then Some r else None | Some q \<Rightarrow> Some q)"
proof -
  have "find P (xs @ [r]) = (case find P xs of None \<Rightarrow> if P r then Some r else None | Some q \<Rightarrow> Some q)" for P and xs :: "clip_row list"
    by (induction xs) auto
  then show ?thesis by (simp add: row_of_def add_row_def)
qed

lemma delete_entry_ok [inv_intros]:
  assumes "clip_ok sha s" shows "clip_ok sha (clip_delete rm i s)"
proof (cases "row_of i s")
  case None
  then show ?thesis using drop_rows_ok [OF assms] by (simp add: clip_delete_def drop_row_def)
next
  case (Some r)
  show ?thesis
  proof (cases "ce_blob r")
    case None
    then show ?thesis using Some drop_rows_ok [OF assms] by (simp add: clip_delete_def drop_row_def)
  next
    case (Some b)
    have "b \<in> set (blobs_of (\<lambda>q. ce_id q = i) s)"
      using row_of_set [OF \<open>row_of i s = Some r\<close>] Some by (auto simp: blobs_of_set)
    with Some \<open>row_of i s = Some r\<close> drop_rows_ok [OF assms] dropped_blobs_free [OF assms]
    show ?thesis by (simp add: clip_delete_def drop_row_def remove_blob_ok)
  qed
qed

lemma clear_entries_ok [inv_intros]: "clip_ok sha s \<Longrightarrow> clip_ok sha (snd (clear_entries rm keep s))"
  by (auto simp: clear_entries_def clear_rows_def Let_def
      intro!: remove_blobs_ok drop_rows_ok dest: dropped_blobs_free)

lemma purge_ok [inv_intros]: "clip_ok sha s \<Longrightarrow> clip_ok sha (snd (purge rm now days cap s))"
proof -
  assume ok: "clip_ok sha s"
  define s1 where "s1 = drop_rows (expired now days) s"
  have ok1: "clip_ok sha s1" using ok by (simp add: s1_def drop_rows_ok)
  have "clip_ok sha (drop_rows (overflows cap s1) s1)" using ok1 by (rule drop_rows_ok)
  moreover have "\<not> referenced (drop_rows (overflows cap s1) s1) b"
    if "b \<in> set (blobs_of (expired now days) s) \<union> set (blobs_of (overflows cap s1) s1)" for b
    using that dropped_blobs_free [OF ok, of b "expired now days"] dropped_blobs_free [OF ok1, of b "overflows cap s1"]
      referenced_drop [of "overflows cap s1" s1 b] by (auto simp: s1_def)
  ultimately show ?thesis
    by (auto simp: purge_def purge_rows_def Let_def s1_def [symmetric] intro!: remove_blobs_ok)
qed

lemma gc_blobs_ok:
  "clip_ok sha s \<Longrightarrow> {b. referenced s b} \<subseteq> set refs \<Longrightarrow> clip_ok sha (snd (gc_blobs rm refs names s))"
proof (induction names arbitrary: s)
  case (Cons name names)
  show ?case
  proof (cases "name \<in> set refs")
    case False
    then have "clip_ok sha (remove_blob (rm name) True name s)" using Cons.prems by (intro remove_blob_ok) auto
    moreover have "{b. referenced (remove_blob (rm name) True name s) b} \<subseteq> set refs"
      using Cons.prems(2) by (auto simp: referenced_def)
    ultimately show ?thesis using Cons.IH False by (simp add: case_prod_beta Let_def)
  qed (use Cons in simp)
qed simp

lemma gc_orphan_blobs_ok [inv_intros]: "clip_ok sha s \<Longrightarrow> clip_ok sha (snd (gc_orphan_blobs rm names s))"
  unfolding gc_orphan_blobs_def by (rule gc_blobs_ok) (auto simp: blobs_of_set referenced_def)

section \<open>The other operations keep it\<close>

lemma pin_entry_ok [inv_intros]: "clip_ok sha s \<Longrightarrow> clip_ok sha (pin_entry i p s)"
  unfolding pin_entry_def by (rule upd_row_ok) simp_all

lemma set_entry_group_ok [inv_intros]: "clip_ok sha s \<Longrightarrow> clip_ok sha (snd (set_entry_group i g s))"
  by (auto simp: set_entry_group_def upd_row_ok split: sum.splits)

lemma regroup_ok [inv_intros]: "clip_ok sha s \<Longrightarrow> clip_ok sha (snd (regroup n g s))"
  by (auto simp: regroup_def intro!: map_rows_ok)

lemma rename_group_ok [inv_intros]: "clip_ok sha s \<Longrightarrow> clip_ok sha (snd (rename_group n m s))"
  using regroup_ok [of sha s] by (auto simp: rename_group_def case_prod_beta Let_def split: sum.splits)

lemma delete_group_ok [inv_intros]: "clip_ok sha s \<Longrightarrow> clip_ok sha (snd (delete_group n s))"
  by (simp add: delete_group_def regroup_ok)

lemma apply_suggestion_ok [inv_intros]: "clip_ok sha s \<Longrightarrow> clip_ok sha (snd (apply_suggestion is accept s))"
proof (induction "is" arbitrary: s)
  case (Cons i "is")
  have "clip_ok sha (s\<lparr>cs_rows := map (\<lambda>r. if ce_id r = i \<and> suggestible accept r then settle_suggestion accept r else r) (cs_rows s)\<rparr>)"
    using Cons.prems by (rule map_rows_ok) (simp add: settle_suggestion_def)
  with Cons.IH show ?case by (simp add: case_prod_beta Let_def)
qed simp

text \<open>The stack.\<close>

lemma next_position_greater: "e \<in> set st \<Longrightarrow> sr_pos e < next_position st"
proof -
  assume e: "e \<in> set st"
  then have "sr_pos e \<le> Max (sr_pos ` set st)" by (intro Max_ge) auto
  with e show ?thesis by (cases st) (auto simp: next_position_def)
qed

lemma clip_ok_stack:
  "clip_ok sha s \<Longrightarrow> stack_ok (s\<lparr>cs_stack := st, cs_next := n\<rparr>) \<Longrightarrow> clip_ok sha (s\<lparr>cs_stack := st, cs_next := n\<rparr>)"
  by (simp add: clip_ok_def)

lemma clip_ok_filter_stack: "clip_ok sha s \<Longrightarrow> clip_ok sha (s\<lparr>cs_stack := filter P (cs_stack s)\<rparr>)"
  by (auto simp: clip_ok_def stack_ok_def distinct_map_filter)

lemma stack_push_ok [inv_intros]:
  assumes "clip_ok sha s" shows "clip_ok sha (snd (stack_push i s))"
proof (cases "row_of i s = None \<or> list_ex (\<lambda>e. sr_entry e = i) (cs_stack s)")
  case True
  then show ?thesis using assms by (auto simp: stack_push_def)
next
  case False
  have "clip_ok sha (s\<lparr>cs_stack := cs_stack s @ [\<lparr>sr_id = cs_next s, sr_entry = i, sr_pos = next_position (cs_stack s)\<rparr>],
      cs_next := Suc (cs_next s)\<rparr>)"
    using assms False next_position_greater [of _ "cs_stack s"]
    by (intro clip_ok_stack) (fastforce simp: clip_ok_def stack_ok_def list_ex_iff row_of_None less_Suc_eq)+
  with False show ?thesis by (auto simp: stack_push_def Let_def)
qed

lemma stack_take_next_ok [inv_intros]: "clip_ok sha s \<Longrightarrow> clip_ok sha (snd (stack_take_next s))"
  by (auto simp: stack_take_next_def clip_ok_filter_stack split: list.splits)

lemma stack_remove_ok [inv_intros]: "clip_ok sha s \<Longrightarrow> clip_ok sha (snd (stack_remove i s))"
  by (simp add: stack_remove_def clip_ok_filter_stack)

lemma stack_clear_ok [inv_intros]: "clip_ok sha s \<Longrightarrow> clip_ok sha (snd (stack_clear s))"
  by (simp add: stack_clear_def clip_ok_def stack_ok_def)

end
