(* ===== verification/Clip_History.thy ===== *)
theory Clip_History
  imports Clip_Laws "HOL-Library.Multiset"
begin

text \<open>
  The clipboard history over time: the operations as one step relation, what every reachable
  history keeps, the paste stack as a queue of identifiers, the bound a purge leaves, and the
  interleaving of a deletion with a capture.
\<close>

section \<open>The stack as a list of identifiers\<close>

lemma sort_key_snoc:
  assumes "\<And>x. x \<in> set xs \<Longrightarrow> f x < f y"
  shows "sort_key f (xs @ [y]) = sort_key f xs @ [y]"
proof (rule properties_for_sort_key)
  show "filter (\<lambda>x. f k = f x) (sort_key f xs @ [y]) = filter (\<lambda>x. f k = f x) (xs @ [y])" for k
    using sort_key_stable [of f "f k" xs] by (simp add: eq_commute [of "f k"])
  show "sorted (map f (sort_key f xs @ [y]))"
    using assms by (auto simp: sorted_append intro: less_imp_le)
qed simp

lemma stack_push_list:
  assumes "clip_ok sha s"
  shows "stack_list (snd (stack_push i s)) =
     (if i \<in> ce_id ` set (cs_rows s) \<and> i \<notin> set (stack_list s) then stack_list s @ [i] else stack_list s)"
    and "fst (stack_push i s) =
     (if i \<in> ce_id ` set (cs_rows s) then Inr (length (stack_list (snd (stack_push i s)))) else Inl ''CLIPBOARD_STACK_001'')"
proof -
  have "in_order (cs_stack s @ [\<lparr>sr_id = cs_next s, sr_entry = i, sr_pos = next_position (cs_stack s)\<rparr>])
      = in_order (cs_stack s) @ [\<lparr>sr_id = cs_next s, sr_entry = i, sr_pos = next_position (cs_stack s)\<rparr>]"
    unfolding in_order_def using next_position_greater by (intro sort_key_snoc) auto
  then show "stack_list (snd (stack_push i s)) =
     (if i \<in> ce_id ` set (cs_rows s) \<and> i \<notin> set (stack_list s) then stack_list s @ [i] else stack_list s)"
    by (auto simp: stack_push_def row_of_None stack_list_def Let_def list_ex_iff in_order_def image_iff)
  show "fst (stack_push i s) =
     (if i \<in> ce_id ` set (cs_rows s) then Inr (length (stack_list (snd (stack_push i s)))) else Inl ''CLIPBOARD_STACK_001'')"
    by (auto simp: stack_push_def row_of_None stack_list_def Let_def in_order_def)
qed

lemma in_order_filter: "in_order (filter P st) = filter P (in_order st)"
  by (simp add: in_order_def filter_sort)

lemma set_in_order [simp]: "set (in_order st) = set st"
  by (simp add: in_order_def)

lemma stack_take_next_list:
  assumes "clip_ok sha s"
  shows "fst (stack_take_next s) = (case stack_list s of [] \<Rightarrow> None | i # _ \<Rightarrow> Some i)"
    and "stack_list (snd (stack_take_next s)) = tl (stack_list s)"
proof -
  have d: "distinct (map sr_id (in_order (cs_stack s)))"
    using assms by (auto simp: clip_ok_def stack_ok_def distinct_map in_order_def)
  show "fst (stack_take_next s) = (case stack_list s of [] \<Rightarrow> None | i # _ \<Rightarrow> Some i)"
    by (simp add: stack_take_next_def stack_list_def split: list.splits)
  show "stack_list (snd (stack_take_next s)) = tl (stack_list s)"
  proof (cases "in_order (cs_stack s)")
    case (Cons e rest)
    have "filter (\<lambda>x. sr_id x \<noteq> sr_id e) (e # rest) = rest"
      using d Cons by (auto simp: filter_id_conv image_iff)
    with Cons show ?thesis by (simp add: stack_take_next_def stack_list_def in_order_filter)
  qed (simp add: stack_take_next_def stack_list_def)
qed

lemma stack_remove_list: "stack_list (snd (stack_remove i s)) = filter (\<lambda>x. x \<noteq> i) (stack_list s)"
  by (simp add: stack_remove_def stack_list_def in_order_filter filter_map comp_def)

lemma drop_rows_list: "stack_list (drop_rows P s) =
    filter (\<lambda>i. \<not> list_ex (\<lambda>r. P r \<and> ce_id r = i) (cs_rows s)) (stack_list s)"
  by (simp add: drop_rows_def stack_list_def in_order_filter filter_map comp_def)

text \<open>Writing an order.\<close>

definition place :: "'a list \<Rightarrow> 'a \<Rightarrow> nat" where
  "place xs x = length (takeWhile (\<lambda>y. y \<noteq> x) xs)"

lemma place_simps [simp]: "place (y # xs) x = (if y = x then 0 else Suc (place xs x))"
  by (simp add: place_def)

lemma place_inj: "x \<in> set xs \<Longrightarrow> place xs x = place xs y \<Longrightarrow> x = y"
  by (induction xs) (auto split: if_splits)

lemma map_place: "distinct xs \<Longrightarrow> map (place xs) xs = [0..<length xs]"
proof (rule nth_equalityI)
  fix i assume d: "distinct xs" and "i < length (map (place xs) xs)"
  then have i: "i < length xs" by simp
  have "takeWhile (\<lambda>y. y \<noteq> xs ! i) (take i xs @ xs ! i # drop (Suc i) xs) = take i xs"
    using d i by (subst takeWhile_append2) (auto simp: in_set_conv_nth nth_eq_iff_index_eq)
  then have "takeWhile (\<lambda>y. y \<noteq> xs ! i) xs = take i xs" using id_take_nth_drop [OF i] by simp
  with i show "map (place xs) xs ! i = [0..<length xs] ! i" by (simp add: place_def)
qed simp

definition placed_at :: "nat \<Rightarrow> string list \<Rightarrow> stack_row \<Rightarrow> stack_row" where
  "placed_at k order e = (if sr_entry e \<in> set order then e\<lparr>sr_pos := int (k + place order (sr_entry e))\<rparr> else e)"

lemma placed_simps [simp]: "sr_entry (placed_at k order e) = sr_entry e" "sr_id (placed_at k order e) = sr_id e"
  by (simp_all add: placed_at_def)

lemma write_order_stack:
  "distinct order \<Longrightarrow> write_order k order s = s\<lparr>cs_stack := map (placed_at k order) (cs_stack s)\<rparr>"
proof (induction order arbitrary: k s)
  case Nil
  show ?case by (simp add: placed_at_def)
next
  case (Cons i order)
  have "placed_at (Suc k) order (if sr_entry e = i then e\<lparr>sr_pos := int k\<rparr> else e) = placed_at k (i # order) e" for e
    using Cons.prems by (auto simp: placed_at_def)
  with Cons show ?case by (simp add: set_position_def comp_def)
qed

lemma move_to_perm: "i \<in> set xs \<Longrightarrow> mset (move_to i k xs) = mset xs"
proof -
  assume i: "i \<in> set xs"
  have "mset (take m ys @ i # drop m ys) = add_mset i (mset ys)" for m ys
    using arg_cong [OF append_take_drop_id [of m ys], of mset] by (simp del: append_take_drop_id)
  with i show ?thesis by (simp add: move_to_def Let_def)
qed

lemma move_to_facts:
  assumes "i \<in> set xs" "distinct xs"
  shows "set (move_to i k xs) = set xs" and "distinct (move_to i k xs)"
  using mset_eq_setD [OF move_to_perm [OF assms(1), of k]]
    mset_eq_imp_distinct_iff [OF move_to_perm [OF assms(1), of k]] assms(2) by simp_all

lemma stack_move_list:
  assumes "clip_ok sha s" "i \<in> set (stack_list s)"
  shows "stack_list (snd (stack_move i k s)) = move_to i k (stack_list s)"
proof -
  define order where "order = move_to i k (stack_list s)"
  have ds: "distinct (stack_list s)"
    using assms(1) by (auto simp: stack_list_def clip_ok_def stack_ok_def distinct_map in_order_def)
  have so: "set order = sr_entry ` set (cs_stack s)" and do: "distinct order"
    using move_to_facts [OF assms(2) ds] by (simp_all add: order_def stack_list_def)
  define st where "st = map (placed_at 0 order) (cs_stack s)"
  define xs where "xs = map sr_entry (in_order st)"
  have sx: "set xs = set order" using so by (simp add: xs_def st_def image_image)
  have dx: "distinct xs"
  proof -
    have "mset xs = mset (map sr_entry (cs_stack s))"
      by (simp add: xs_def st_def in_order_def comp_def multiset.map_comp)
    then show ?thesis
      using assms(1) mset_eq_imp_distinct_iff [of xs "map sr_entry (cs_stack s)"] by (simp add: clip_ok_def stack_ok_def)
  qed
  have pos: "sr_pos e = int (place order (sr_entry e))" if "e \<in> set st" for e
    using that so by (auto simp: st_def placed_at_def)
  have "sorted (map sr_pos (in_order st))" by (simp add: in_order_def)
  moreover have "map sr_pos (in_order st) = map (\<lambda>e. int (place order (sr_entry e))) (in_order st)"
    by (rule map_cong) (simp_all add: pos)
  ultimately have "sorted (map (\<lambda>e. int (place order (sr_entry e))) (in_order st))" by simp
  then have sorted: "sorted (map (place order) xs)"
    by (simp add: xs_def comp_def sorted_iff_nth_mono)
  have "distinct (map (place order) xs)"
    using dx sx place_inj by (auto simp: distinct_map inj_on_def)
  moreover have "set (map (place order) xs) = set (map (place order) order)" using sx by simp
  ultimately have "map (place order) xs = map (place order) order"
    using sorted map_place [OF do] by (intro sorted_distinct_set_unique) simp_all
  then have "xs = order"
    using place_inj sx by (intro map_inj_on [of "place order"]) (auto simp: inj_on_def)
  then have "stack_list (write_order 0 order s) = order"
    using write_order_stack [OF do, of 0 s] by (simp add: xs_def st_def stack_list_def)
  then show ?thesis using assms(2) by (simp add: stack_move_def order_def Let_def)
qed

lemma stack_move_ok [inv_intros]:
  assumes "clip_ok sha s" shows "clip_ok sha (snd (stack_move i k s))"
proof (cases "i \<in> set (stack_list s)")
  case True
  define order where "order = move_to i k (stack_list s)"
  have ds: "distinct (stack_list s)"
    using assms(1) by (auto simp: stack_list_def clip_ok_def stack_ok_def distinct_map in_order_def)
  have so: "set order = sr_entry ` set (cs_stack s)" and do: "distinct order"
    using move_to_facts [OF True ds] by (simp_all add: order_def stack_list_def)
  have "distinct (map sr_pos (map (placed_at 0 order) (cs_stack s)))"
    using assms so place_inj [of _ order] unfolding clip_ok_def stack_ok_def
    by (auto simp: distinct_map placed_at_def inj_on_def)
  then have "clip_ok sha (s\<lparr>cs_stack := map (placed_at 0 order) (cs_stack s)\<rparr>)"
    using assms by (auto simp: clip_ok_def stack_ok_def comp_def)
  then show ?thesis
    using True write_order_stack [OF do, of 0 s] by (simp add: stack_move_def order_def [symmetric])
qed (use assms in \<open>simp add: stack_move_def\<close>)

section \<open>The operations as steps\<close>

datatype clip_op =
    OpInsert clip_call new_clip
  | OpEncrypted clip_call string "string option" "(string \<times> nat) option" "string option" string
  | OpImage clip_call string nat nat bytes "string option" string
  | OpFiles clip_call "string list" "string option" string
  | OpPin string bool
  | OpDelete "string \<Rightarrow> blob_removal" string
  | OpClear "string \<Rightarrow> blob_removal" bool
  | OpPurge "string \<Rightarrow> blob_removal" int nat nat
  | OpGc "string \<Rightarrow> blob_removal" "string list"
  | OpPush string
  | OpTake
  | OpMove string nat
  | OpRemove string
  | OpClearStack
  | OpGroup string "string option"
  | OpRename string string
  | OpDeleteGroup string
  | OpSuggest "string list" bool

fun clip_exec :: "(bytes \<Rightarrow> bytes) \<Rightarrow> clip_op \<Rightarrow> clip_store \<Rightarrow> clip_store" where
  "clip_exec sha (OpInsert cl c) s = snd (insert_row sha cl c s)"
| "clip_exec sha (OpEncrypted cl b64 grp sugg src origin) s = snd (insert_encrypted sha cl b64 grp sugg src origin s)"
| "clip_exec sha (OpImage cl fmt width height bs src origin) s = snd (insert_image sha cl fmt width height bs src origin s)"
| "clip_exec sha (OpFiles cl paths src origin) s = snd (insert_files sha cl paths src origin s)"
| "clip_exec sha (OpPin i p) s = pin_entry i p s"
| "clip_exec sha (OpDelete rm i) s = clip_delete rm i s"
| "clip_exec sha (OpClear rm keep) s = snd (clear_entries rm keep s)"
| "clip_exec sha (OpPurge rm now days cap) s = snd (purge rm now days cap s)"
| "clip_exec sha (OpGc rm names) s = snd (gc_orphan_blobs rm names s)"
| "clip_exec sha (OpPush i) s = snd (stack_push i s)"
| "clip_exec sha OpTake s = snd (stack_take_next s)"
| "clip_exec sha (OpMove i k) s = snd (stack_move i k s)"
| "clip_exec sha (OpRemove i) s = snd (stack_remove i s)"
| "clip_exec sha OpClearStack s = snd (stack_clear s)"
| "clip_exec sha (OpGroup i g) s = snd (set_entry_group i g s)"
| "clip_exec sha (OpRename n m) s = snd (rename_group n m s)"
| "clip_exec sha (OpDeleteGroup n) s = snd (delete_group n s)"
| "clip_exec sha (OpSuggest is accept) s = snd (apply_suggestion is accept s)"

text \<open>A UUID is new, and so is the ciphertext of an envelope with a random nonce.\<close>

definition new_id :: "clip_call \<Rightarrow> clip_store \<Rightarrow> bool" where
  "new_id cl s \<longleftrightarrow> cl_uuid cl \<notin> ce_id ` set (cs_rows s)"

fun op_fresh :: "(bytes \<Rightarrow> bytes) \<Rightarrow> clip_op \<Rightarrow> clip_store \<Rightarrow> bool" where
  "op_fresh sha (OpInsert cl c) s = (new_id cl s \<and> \<not> nc_secret c)"
| "op_fresh sha (OpEncrypted cl b64 _ _ _ _) s = (new_id cl s \<and> existing (content_hash sha b64) s = None)"
| "op_fresh sha (OpImage cl _ _ _ _ _ _) s = new_id cl s"
| "op_fresh sha (OpFiles cl _ _ _) s = new_id cl s"
| "op_fresh sha _ s = True"

inductive clip_reach :: "(bytes \<Rightarrow> bytes) \<Rightarrow> clip_store \<Rightarrow> bool" for sha where
  clip_start: "clip_reach sha clip_open"
| clip_next: "clip_reach sha s \<Longrightarrow> op_fresh sha op s \<Longrightarrow> clip_reach sha (clip_exec sha op s)"

lemma clip_exec_ok: "clip_ok sha s \<Longrightarrow> op_fresh sha op s \<Longrightarrow> clip_ok sha (clip_exec sha op s)"
  by (cases op) (simp_all add: inv_intros new_id_def)

lemma clip_reach_ok: "clip_reach sha s \<Longrightarrow> clip_ok sha s"
  by (induction rule: clip_reach.induct) (simp_all add: clip_exec_ok)

section \<open>What the operations do to the stack\<close>

abbreviation ids :: "clip_store \<Rightarrow> string set" where
  "ids s \<equiv> ce_id ` set (cs_rows s)"

fun stack_spec :: "clip_op \<Rightarrow> string set \<Rightarrow> string list \<Rightarrow> string list" where
  "stack_spec (OpPush i) I q = (if i \<in> I \<and> i \<notin> set q then q @ [i] else q)"
| "stack_spec OpTake I q = tl q"
| "stack_spec (OpMove i k) I q = (if i \<in> set q then move_to i k q else q)"
| "stack_spec (OpRemove i) I q = filter (\<lambda>x. x \<noteq> i) q"
| "stack_spec OpClearStack I q = []"
| "stack_spec _ I q = filter (\<lambda>x. x \<in> I) q"

lemma stack_in_ids: "clip_ok sha s \<Longrightarrow> set (stack_list s) \<subseteq> ids s"
  by (auto simp: clip_ok_def stack_ok_def stack_list_def)

lemma stack_kept:
  "clip_ok sha s \<Longrightarrow> cs_stack s' = cs_stack s \<Longrightarrow> ids s \<subseteq> ids s' \<Longrightarrow>
   stack_list s' = filter (\<lambda>x. x \<in> ids s') (stack_list s)"
  using stack_in_ids [of sha s] by (auto simp: stack_list_def filter_id_conv subset_iff)

lemma drop_rows_kept:
  assumes "clip_ok sha s"
  shows "stack_list (drop_rows P s) = filter (\<lambda>x. x \<in> ids (drop_rows P s)) (stack_list s)"
proof -
  have "(\<not> list_ex (\<lambda>r. P r \<and> ce_id r = x) (cs_rows s)) \<longleftrightarrow> x \<in> ids (drop_rows P s)" if x: "x \<in> set (stack_list s)" for x
  proof -
    obtain r where r: "r \<in> set (cs_rows s)" "ce_id r = x" using stack_in_ids [OF assms] x by blast
    have "inj_on ce_id (set (cs_rows s))" using assms by (simp add: clip_ok_def distinct_map)
    then have u: "q = r" if "q \<in> set (cs_rows s)" "ce_id q = x" for q
      using that r by (metis inj_onD)
    have "list_ex (\<lambda>q. P q \<and> ce_id q = x) (cs_rows s) \<longleftrightarrow> P r"
      unfolding list_ex_iff using r u by blast
    moreover have "x \<in> ids (drop_rows P s) \<longleftrightarrow> (\<exists>q \<in> set (cs_rows s). \<not> P q \<and> ce_id q = x)"
      by (auto simp: drop_rows_def)
    ultimately show ?thesis using r u by blast
  qed
  then show ?thesis unfolding drop_rows_list by (intro filter_cong [OF refl]) blast
qed

lemma write_blob_stack: "write_blob w name bs s = (ok, s') \<Longrightarrow> cs_stack s' = cs_stack s \<and> cs_rows s' = cs_rows s"
  by (auto simp: write_blob_def split: fs_write.splits)

lemma map_rows_ids: "(\<And>r. ce_id (f r) = ce_id r) \<Longrightarrow> ids (s\<lparr>cs_rows := map f (cs_rows s)\<rparr>) = ids s"
  by (simp add: image_image)

lemma upd_row_kept:
  "(\<And>r. ce_id (f r) = ce_id r) \<Longrightarrow> ids (upd_row i f s) = ids s"
  unfolding upd_row_def by (rule map_rows_ids) simp

lemma upd_row_stack [simp]: "cs_stack (upd_row i f s) = cs_stack s"
  by (simp add: upd_row_def)

lemma refresh_row_id [simp]: "ce_id (refresh_row now origin r) = ce_id r" "ce_id (coalesce_html h r) = ce_id r"
  by (simp_all add: refresh_row_def coalesce_html_def)

lemma inserts_kept:
  "cs_stack (snd (insert_row sha cl c s)) = cs_stack s" "ids s \<subseteq> ids (snd (insert_row sha cl c s))"
  "cs_stack (snd (insert_encrypted sha cl b64 grp sugg src origin s)) = cs_stack s"
  "ids s \<subseteq> ids (snd (insert_encrypted sha cl b64 grp sugg src origin s))"
  "cs_stack (snd (insert_image sha cl fmt width height bs src origin s)) = cs_stack s"
  "ids s \<subseteq> ids (snd (insert_image sha cl fmt width height bs src origin s))"
  "cs_stack (snd (insert_files sha cl paths src origin s)) = cs_stack s"
  "ids s \<subseteq> ids (snd (insert_files sha cl paths src origin s))"
  unfolding insert_row_def insert_encrypted_def insert_image_def insert_files_def insert_typed_def Let_def
  by (auto simp: add_row_def upd_row_kept split: option.splits prod.splits dest: write_blob_stack)

lemma regroup_kept: "cs_stack (snd (regroup n g s)) = cs_stack s" "ids (snd (regroup n g s)) = ids s"
  unfolding regroup_def snd_conv by (simp, rule map_rows_ids) simp

lemma apply_suggestion_kept: "cs_stack (snd (apply_suggestion is accept s)) = cs_stack s \<and> ids (snd (apply_suggestion is accept s)) = ids s"
proof (induction "is" arbitrary: s)
  case (Cons i "is")
  have "ids (s\<lparr>cs_rows := map (\<lambda>r. if ce_id r = i \<and> suggestible accept r then settle_suggestion accept r else r) (cs_rows s)\<rparr>) = ids s"
    by (rule map_rows_ids) (simp add: settle_suggestion_def)
  with Cons show ?case by (simp add: case_prod_beta Let_def)
qed simp

lemma gc_blobs_rows: "cs_rows (snd (gc_blobs rm refs names s)) = cs_rows s \<and> cs_stack (snd (gc_blobs rm refs names s)) = cs_stack s"
  by (induction names arbitrary: s) (simp_all add: case_prod_beta Let_def)

lemma stack_list_rows: "cs_stack s = cs_stack s' \<Longrightarrow> stack_list s = stack_list s'"
  by (simp add: stack_list_def)

text \<open>Every operation does to the queue of identifiers what \<open>stack_spec\<close> says.\<close>

lemma clear_entries_rows: "cs_rows (snd (clear_entries rm keep s)) = cs_rows (drop_rows (\<lambda>r. \<not> (keep \<and> ce_pinned r)) s)"
  "stack_list (snd (clear_entries rm keep s)) = stack_list (drop_rows (\<lambda>r. \<not> (keep \<and> ce_pinned r)) s)"
  by (simp_all add: clear_entries_def clear_rows_def Let_def stack_list_def)

lemma delete_entry_rows: "cs_rows (clip_delete rm i s) = cs_rows (drop_rows (\<lambda>r. ce_id r = i) s)"
  "stack_list (clip_delete rm i s) = stack_list (drop_rows (\<lambda>r. ce_id r = i) s)"
  by (simp_all add: clip_delete_def drop_row_def stack_list_def split: option.splits)

lemma purge_rows_eq:
  "cs_rows (snd (purge rm now days cap s)) =
     cs_rows (drop_rows (overflows cap (drop_rows (expired now days) s)) (drop_rows (expired now days) s))"
  "stack_list (snd (purge rm now days cap s)) =
     stack_list (drop_rows (overflows cap (drop_rows (expired now days) s)) (drop_rows (expired now days) s))"
  by (simp_all add: purge_def purge_rows_def Let_def stack_list_def)

lemma ids_drop_drop: "ids (drop_rows Q (drop_rows P s)) \<subseteq> ids (drop_rows P s)"
  by (auto simp: drop_rows_def)

lemma stack_spec_exec:
  assumes ok: "clip_ok sha s"
  shows "stack_list (clip_exec sha op s) = stack_spec op (ids (clip_exec sha op s)) (stack_list s)"
proof (cases op)
  case (OpPush i)
  have "ids (snd (stack_push i s)) = ids s" by (simp add: stack_push_def Let_def)
  with OpPush show ?thesis using stack_push_list(1) [OF ok] by simp
next
  case OpTake
  then show ?thesis using stack_take_next_list(2) [OF ok] by simp
next
  case (OpMove i k)
  then show ?thesis using stack_move_list [OF ok] by (auto simp: stack_move_def)
next
  case (OpRemove i)
  then show ?thesis by (simp add: stack_remove_list)
next
  case OpClearStack
  then show ?thesis by (simp add: stack_clear_def stack_list_def in_order_def)
next
  case (OpPurge rm now days cap)
  define s1 where "s1 = drop_rows (expired now days) s"
  have ok1: "clip_ok sha s1" using ok by (simp add: s1_def drop_rows_ok)
  have sub: "ids (drop_rows Q s1) \<subseteq> ids s1" for Q by (auto simp: drop_rows_def)
  have "stack_list (drop_rows Q s1) = filter (\<lambda>x. x \<in> ids (drop_rows Q s1)) (stack_list s)" for Q
    unfolding drop_rows_kept [OF ok1, of Q] drop_rows_kept [OF ok, of "expired now days", folded s1_def]
    unfolding filter_filter by (rule filter_cong [OF refl]) (use sub [of Q] in blast)
  with OpPurge show ?thesis by (simp add: purge_rows_eq s1_def)
next
  case (OpGc rm names)
  then show ?thesis
    using stack_kept [OF ok, of "snd (gc_orphan_blobs rm names s)"] gc_blobs_rows by (simp add: gc_orphan_blobs_def)
next
  case (OpGroup i g)
  have "cs_stack (snd (set_entry_group i g s)) = cs_stack s" "ids s \<subseteq> ids (snd (set_entry_group i g s))"
    by (auto simp: set_entry_group_def upd_row_kept split: sum.splits)
  from stack_kept [OF ok this] OpGroup show ?thesis by simp
next
  case (OpRename n m)
  have "cs_stack (snd (rename_group n m s)) = cs_stack s" "ids s \<subseteq> ids (snd (rename_group n m s))"
    by (auto simp: rename_group_def case_prod_beta Let_def regroup_kept split: sum.splits)
  from stack_kept [OF ok this] OpRename show ?thesis by simp
next
  case (OpPin i p)
  then show ?thesis using stack_kept [OF ok, of "pin_entry i p s"] by (simp add: pin_entry_def upd_row_kept)
next
  case (OpDeleteGroup n)
  then show ?thesis
    using stack_kept [OF ok regroup_kept(1) equalityD2 [OF regroup_kept(2)], of n None] by (simp add: delete_group_def)
next
  case (OpSuggest "is" accept)
  then show ?thesis using stack_kept [OF ok, of "snd (apply_suggestion is accept s)"] apply_suggestion_kept by simp
qed (simp_all add: stack_kept [OF ok inserts_kept(1,2)] stack_kept [OF ok inserts_kept(3,4)]
      stack_kept [OF ok inserts_kept(5,6)] stack_kept [OF ok inserts_kept(7,8)]
      delete_entry_rows clear_entries_rows drop_rows_kept [OF ok])

section \<open>Every entry can be read\<close>

fun payload_bytes :: "payload \<Rightarrow> bytes" where
  "payload_bytes (PText t) = str_bytes t"
| "payload_bytes (PSecretB64 t) = str_bytes t"
| "payload_bytes (PImage fmt bs) = bs"
| "payload_bytes (PFiles ps) = str_bytes (join_with [CHR 0x0A] ps)"

lemma row_readable:
  assumes "clip_ok sha s" "row_of i s = Some r" "ce_type r \<noteq> ''files''"
  shows "\<exists>p. get_payload i s = Inr (Some p) \<and> content_hash_bytes sha (payload_bytes p) = ce_hash r"
proof -
  have ok: "clip_row_ok sha (cs_blobs s) r" using assms(1) row_of_set [OF assms(2)] by (auto simp: clip_ok_def)
  show ?thesis
  proof (cases "ce_blob r")
    case None
    then show ?thesis
      using ok assms(2,3) by (auto simp: clip_row_ok_def get_payload_def row_payload_def content_hash_def)
  next
    case (Some b)
    then obtain bs where bs: "cs_blobs s b = Some bs" "ce_hash r = content_hash_bytes sha bs"
      using ok by (auto simp: clip_row_ok_def)
    have "str_bytes (bytes_text bs) = bs"
      by (induction bs) (simp_all add: str_bytes_def bytes_text_def unat_of_nat)
    with Some bs assms(2,3) show ?thesis
      by (auto simp: get_payload_def row_payload_def read_blob_def)
  qed
qed

text \<open>What an operation leaves of a row: all that is read of it.\<close>

lemma upd_row_bodies: "(\<And>r. body (f r) = body r) \<Longrightarrow> q \<in> set (cs_rows (upd_row i f s)) \<Longrightarrow> \<exists>r \<in> set (cs_rows s). body q = body r"
  by (auto simp: upd_row_def)

lemma drop_rows_bodies: "q \<in> set (cs_rows (drop_rows P s)) \<Longrightarrow> q \<in> set (cs_rows s)"
  by (simp add: drop_rows_def)

definition bodies_kept :: "clip_store \<Rightarrow> clip_store \<Rightarrow> bool" where
  "bodies_kept s s' \<longleftrightarrow> (\<forall>q \<in> set (cs_rows s'). ce_id q \<notin> ids s \<or> (\<exists>r \<in> set (cs_rows s). body q = body r))"

lemma bodies_kept_subset: "set (cs_rows s') \<subseteq> set (cs_rows s) \<Longrightarrow> bodies_kept s s'"
  by (auto simp: bodies_kept_def)

lemma bodies_kept_map: "(\<And>r. body (f r) = body r) \<Longrightarrow> cs_rows s' = map f (cs_rows s) \<Longrightarrow> bodies_kept s s'"
  by (auto simp: bodies_kept_def)

lemma bodies_kept_add: "ce_id r \<notin> ids s \<Longrightarrow> cs_rows s' = cs_rows s \<Longrightarrow> bodies_kept s (add_row r s')"
  by (auto simp: bodies_kept_def add_row_def)

lemma bodies_kept_refl [simp]: "bodies_kept s s"
  by (simp add: bodies_kept_subset)

lemma bodies_kept_rows: "cs_rows s' = cs_rows s \<Longrightarrow> bodies_kept s s'"
  by (simp add: bodies_kept_subset)

lemma bodies_kept_upd: "(\<And>r. body (f r) = body r) \<Longrightarrow> bodies_kept s (upd_row i f s)"
  by (rule bodies_kept_map [of "\<lambda>r. if ce_id r = i then f r else r"]) (simp_all add: upd_row_def)

lemma insert_bodies:
  assumes "new_id cl s"
  shows "bodies_kept s (snd (insert_row sha cl c s))"
    and "bodies_kept s (snd (insert_encrypted sha cl b64 grp sugg src origin s))"
    and "bodies_kept s (snd (insert_image sha cl fmt width height bs src origin s))"
    and "bodies_kept s (snd (insert_files sha cl paths src origin s))"
  using assms unfolding insert_row_def insert_encrypted_def insert_image_def insert_files_def insert_typed_def Let_def new_id_def
  by (auto simp: text_row_def blank_row_def split: option.splits prod.splits dest!: write_blob_stack
      intro!: bodies_kept_upd bodies_kept_add intro: bodies_kept_rows)

lemma apply_suggestion_bodies:
  "q \<in> set (cs_rows (snd (apply_suggestion is accept s))) \<Longrightarrow> \<exists>r \<in> set (cs_rows s). body q = body r"
proof (induction "is" arbitrary: s)
  case (Cons i "is")
  define s1 where "s1 = s\<lparr>cs_rows := map (\<lambda>r. if ce_id r = i \<and> suggestible accept r then settle_suggestion accept r else r) (cs_rows s)\<rparr>"
  have "q \<in> set (cs_rows (snd (apply_suggestion is accept s1)))"
    using Cons.prems by (simp add: case_prod_beta Let_def s1_def)
  from Cons.IH [OF this] show ?case by (auto simp: s1_def settle_suggestion_def)
qed auto

lemma exec_bodies:
  assumes "op_fresh sha op s"
  shows "bodies_kept s (clip_exec sha op s)"
proof (cases op)
  case (OpSuggest "is" accept)
  then show ?thesis using apply_suggestion_bodies by (auto simp: bodies_kept_def)
next
  case (OpMove i k)
  have "cs_rows (write_order j xs s) = cs_rows s" for j xs
    by (induction xs arbitrary: j s) (simp_all add: set_position_def)
  with OpMove show ?thesis by (auto simp: stack_move_def Let_def intro: bodies_kept_rows)
next
  case (OpGroup i g)
  then show ?thesis by (auto simp: set_entry_group_def intro: bodies_kept_upd split: sum.splits)
next
  case (OpRename n m)
  have "bodies_kept s (snd (regroup n g s))" for g
    by (rule bodies_kept_map [of "\<lambda>r. if ce_group r = Some n then r\<lparr>ce_group := g\<rparr> else r"]) (simp_all add: regroup_def)
  with OpRename show ?thesis by (auto simp: rename_group_def case_prod_beta Let_def split: sum.splits)
next
  case (OpDeleteGroup n)
  then show ?thesis
    by (auto simp: delete_group_def regroup_def intro: bodies_kept_map [of "\<lambda>r. if ce_group r = Some n then r\<lparr>ce_group := None\<rparr> else r"])
next
  case (OpGc rm names)
  then show ?thesis using gc_blobs_rows by (auto simp: gc_orphan_blobs_def intro: bodies_kept_rows)
next
  case (OpPin i p)
  then show ?thesis by (auto simp: pin_entry_def intro: bodies_kept_upd)
next
  case (OpTake)
  then show ?thesis by (auto simp: stack_take_next_def intro: bodies_kept_rows split: list.splits)
qed (use assms in \<open>auto simp: insert_bodies clear_entries_rows delete_entry_rows purge_rows_eq
      stack_push_def stack_remove_def stack_clear_def Let_def drop_rows_def intro!: bodies_kept_subset\<close>)

section \<open>A sample history\<close>

text \<open>A hash without collisions, to run the model.\<close>

definition plain_sha :: "bytes \<Rightarrow> bytes" where "plain_sha = (\<lambda>b. b)"

lemma plain_sha_inj: "inj plain_sha"
  by (simp add: plain_sha_def)

lemma content_hash_eq: "inj sha \<Longrightarrow> content_hash sha t = content_hash sha u \<longleftrightarrow> t = u"
  by (metis content_hash_def content_hash_bytes_def hex_lower_inj injD str_bytes_inj)

lemmas plain_hash_eq [simp] = content_hash_eq [OF plain_sha_inj]

definition at :: "int \<Rightarrow> string \<Rightarrow> clip_call" where
  "at now i = \<lparr>cl_now = now, cl_uuid = i, cl_write = Wrote, cl_rand = 0\<rparr>"

definition plain_row :: "int \<Rightarrow> string \<Rightarrow> string \<Rightarrow> clip_row" where
  "plain_row now i t = text_row (at now i) (clip_of t) (content_hash plain_sha t) t None"

lemma plain_row_simps [simp]:
  "ce_id (plain_row now i t) = i" "ce_hash (plain_row now i t) = content_hash plain_sha t"
  "ce_type (plain_row now i t) = ''text''" "ce_secret (plain_row now i t) = False"
  "ce_pinned (plain_row now i t) = False" "ce_created (plain_row now i t) = now"
  "ce_blob (plain_row now i t) = None" "ce_content (plain_row now i t) = Some t"
  by (simp_all add: plain_row_def text_row_def blank_row_def at_def clip_of_def)

lemma insert_plain:
  "length t \<le> blob_threshold \<Longrightarrow> content_hash plain_sha t \<notin> ce_hash ` set (cs_rows s) \<Longrightarrow>
   insert_row plain_sha (at now i) (clip_of t) s = (Inr i, add_row (plain_row now i t) s)"
proof -
  assume t: "length t \<le> blob_threshold" and "content_hash plain_sha t \<notin> ce_hash ` set (cs_rows s)"
  then have e: "existing (content_hash plain_sha t) s = None" by (simp add: existing_None)
  from t show ?thesis by (simp add: insert_row_def plain_row_def) (simp add: e at_def clip_of_def)
qed

lemma sample_simps [simp]: "new_id (at now i) s = (i \<notin> ids s)" "nc_text (clip_of t) = t" "nc_secret (clip_of t) = False"
  by (simp_all add: new_id_def at_def clip_of_def)

definition two_clips :: clip_store where
  "two_clips =
     clip_exec plain_sha (OpInsert (at 20 ''b'') (clip_of ''beta''))
    (clip_exec plain_sha (OpInsert (at 10 ''a'') (clip_of ''alpha'')) clip_open)"

lemma two_clips_eq:
  "two_clips = \<lparr>cs_rows = [plain_row 10 ''a'' ''alpha'', plain_row 20 ''b'' ''beta''], cs_stack = [], cs_next = 1,
     cs_blobs = (\<lambda>_. None)\<rparr>"
  by (simp add: two_clips_def insert_plain clip_open_def add_row_def blob_threshold_def)

lemma two_clips_reach: "clip_reach plain_sha two_clips"
  unfolding two_clips_def
  by (intro clip_next clip_start)
     (simp_all add: insert_plain clip_open_def add_row_def blob_threshold_def)

definition stacked :: clip_store where
  "stacked = clip_exec plain_sha (OpPush ''b'') (clip_exec plain_sha (OpPush ''a'') two_clips)"

lemma stacked_reach: "clip_reach plain_sha stacked"
  unfolding stacked_def by (intro clip_next two_clips_reach) simp_all

section \<open>The paste stack is a queue\<close>

text \<open>C23. In every reachable history the paste stack is a queue of identifiers: an entry is put at its end, once,
  the first one is taken, a move puts one at the given place, and every other operation only takes
  out the entries it removes from the history.  The positions in the table, which are
  rewritten and have gaps, never show.\<close>

theorem paste_stack_is_queue:
  assumes "clip_reach sha s"
  shows "stack_list (clip_exec sha op s) = stack_spec op (ids (clip_exec sha op s)) (stack_list s)"
  using stack_spec_exec [OF clip_reach_ok [OF assms]] .

theorem paste_stack_is_queue_witness:
  "stack_list (clip_exec plain_sha (OpMove ''b'' 0) stacked) = [''b'', ''a'']"
proof -
  have "stack_list stacked = [''a'', ''b'']"
    by (simp add: stacked_def two_clips_eq stack_push_def row_of_def stack_list_def in_order_def next_position_def)
  then show ?thesis
    using paste_stack_is_queue [OF stacked_reach, of "OpMove ''b'' 0"]
    by (simp add: move_to_def)
qed

section \<open>What a purge leaves\<close>

lemma overflow_bound: "length (filter (\<lambda>r. \<not> ce_pinned r \<and> \<not> overflows cap s r) (cs_rows s)) \<le> cap"
proof -
  define U where "U = filter (\<lambda>r. \<not> ce_pinned r) (cs_rows s)"
  define Q :: "clip_row \<Rightarrow> bool" where "Q r \<longleftrightarrow> ce_id r \<notin> set (overflow_ids cap s)" for r
  have "filter (\<lambda>r. \<not> ce_pinned r \<and> \<not> overflows cap s r) (cs_rows s) = filter Q U"
    unfolding U_def Q_def overflows_def filter_filter by (rule filter_cong) auto
  also have "length (filter Q U) = length (filter Q (newest_first U))"
    unfolding newest_first_def by (metis mset_sort mset_filter size_mset)
  also have "filter Q (newest_first U) = filter Q (take cap (newest_first U)) @ filter Q (drop cap (newest_first U))"
    by (metis append_take_drop_id filter_append)
  also have "filter Q (drop cap (newest_first U)) = []"
    by (auto simp: filter_empty_conv Q_def overflow_ids_def U_def)
  finally show ?thesis using length_filter_le [of Q "take cap (newest_first U)"] by simp
qed

lemma overflow_older:
  assumes "distinct (map ce_id (cs_rows s))" "r \<in> set (cs_rows s)" "q \<in> set (cs_rows s)"
    "\<not> ce_pinned r" "\<not> overflows cap s r" "overflows cap s q"
  shows "ce_created q \<le> ce_created r"
proof -
  define U where "U = filter (\<lambda>r. \<not> ce_pinned r) (cs_rows s)"
  define L where "L = newest_first U"
  have L: "set L = set U" by (simp add: L_def newest_first_def)
  have o: "overflow_ids cap s = map ce_id (drop cap L)" by (simp add: overflow_ids_def L_def U_def)
  obtain q' where q': "q' \<in> set (drop cap L)" "ce_id q' = ce_id q"
    using assms(6) o by (auto simp: overflows_def)
  have "q' \<in> set (cs_rows s)" using q'(1) L set_drop_subset [of cap L] by (auto simp: U_def)
  with q' assms(1,3) have q: "q \<in> set (drop cap L)" by (auto simp: distinct_map dest: inj_onD)
  have "r \<in> set L" "r \<notin> set (drop cap L)"
    using assms(2,4,5) o L by (auto simp: overflows_def U_def)
  then have r: "r \<in> set (take cap L)" by (metis Un_iff append_take_drop_id set_append)
  have "sorted (map (\<lambda>r. - ce_created r) (take cap L @ drop cap L))" by (simp add: L_def newest_first_def)
  with r q have "- ce_created r \<le> - ce_created q"
    unfolding map_append sorted_append by auto
  then show ?thesis by simp
qed

text \<open>C27. A purge leaves at most \<open>max_entries\<close> entries that are not pinned, none of them too old, and every pinned
  one; an entry it took for want of room is no newer than any it left; and it reports as many
  entries as it took.\<close>

theorem purge_leaves_newest:
  assumes "clip_reach sha s" and "purge rm now days cap s = (n, s')"
  shows "length (filter (\<lambda>r. \<not> ce_pinned r) (cs_rows s')) \<le> cap \<and>
    filter ce_pinned (cs_rows s') = filter ce_pinned (cs_rows s) \<and>
    n + length (cs_rows s') = length (cs_rows s) \<and>
    list_all (\<lambda>r. \<not> expired now days r) (cs_rows s') \<and>
    list_all (\<lambda>r. list_all (\<lambda>q. r \<in> set (cs_rows s') \<or> ce_pinned q \<or> expired now days r \<or> ce_created r \<le> ce_created q)
      (cs_rows s')) (cs_rows s)"
proof -
  define s1 where "s1 = drop_rows (expired now days) s"
  have ok1: "clip_ok sha s1" using clip_reach_ok [OF assms(1)] by (simp add: s1_def drop_rows_ok)
  have rows': "cs_rows s' = filter (\<lambda>r. \<not> overflows cap s1 r) (cs_rows s1)"
    and rows1: "cs_rows s1 = filter (\<lambda>r. \<not> expired now days r) (cs_rows s)"
    using assms(2) purge_rows_eq(1) [of rm now days cap s] by (simp_all add: s1_def drop_rows_def comp_def)
  have n: "n = length (filter (expired now days) (cs_rows s)) + length (filter (overflows cap s1) (cs_rows s1))"
    using assms(2) by (auto simp: purge_def purge_rows_def Let_def s1_def)
  have "length (filter (\<lambda>r. \<not> ce_pinned r) (cs_rows s')) \<le> cap"
    using overflow_bound [of cap s1] by (simp add: rows' conj_commute)
  moreover have "filter ce_pinned (cs_rows s') = filter ce_pinned (cs_rows s)"
    unfolding rows' rows1 filter_filter by (rule filter_cong) (auto simp: overflows_def expired_def)
  moreover have "n + length (cs_rows s') = length (cs_rows s)"
    using sum_length_filter_compl [of "expired now days" "cs_rows s"]
      sum_length_filter_compl [of "overflows cap s1" "cs_rows s1"] by (simp add: n rows' rows1)
  moreover have "list_all (\<lambda>r. \<not> expired now days r) (cs_rows s')"
    by (auto simp: list_all_iff rows' rows1)
  moreover have "r \<in> set (cs_rows s') \<or> ce_pinned q \<or> expired now days r \<or> ce_created r \<le> ce_created q"
    if "r \<in> set (cs_rows s)" "q \<in> set (cs_rows s')" for r q
    using that overflow_older [of s1 q r cap] ok1 by (auto simp: rows' rows1 clip_ok_def)
  ultimately show ?thesis unfolding list_all_iff by blast
qed

theorem purge_leaves_newest_witness:
  "map ce_id (cs_rows (snd (purge (\<lambda>_. Removed) 30 0 1 two_clips))) = [''b''] \<and>
   length (filter (\<lambda>r. \<not> ce_pinned r) (cs_rows (snd (purge (\<lambda>_. Removed) 30 0 1 two_clips)))) \<le> 1"
proof
  show "map ce_id (cs_rows (snd (purge (\<lambda>_. Removed) 30 0 1 two_clips))) = [''b'']"
    by (simp add: purge_rows_eq drop_rows_def expired_def overflows_def overflow_ids_def newest_first_def two_clips_eq)
  show "length (filter (\<lambda>r. \<not> ce_pinned r) (cs_rows (snd (purge (\<lambda>_. Removed) 30 0 1 two_clips)))) \<le> 1"
    using purge_leaves_newest [OF two_clips_reach prod.collapse [symmetric], of "\<lambda>_. Removed" 30 0 1] by blast
qed

end
