(* ===== verification/Clip_Capture.thy ===== *)
theory Clip_Capture
  imports Clip_History
begin

text \<open>
  Capturing the clipboard (\<open>clipboard-core/src/pipeline.rs\<close>, \<open>secrets.rs\<close>, the configuration of
  \<open>types.rs\<close> and \<open>module.rs\<close>): which content is recorded, what is encrypted, when the history is
  cleaned.  The regular expressions are the \<open>regex\<close> crate's (\<open>rx_ok\<close>, \<open>rx_match\<close>), the envelope is
  the port's, and the group a text is sorted into is an argument.
\<close>

section \<open>Sensitive content\<close>

text \<open>\<open>luhn_valid\<close>: the digits from the right, every second one doubled.\<close>

definition luhn_double :: "nat \<Rightarrow> nat" where
  "luhn_double d = (if 9 < 2 * d then 2 * d - 9 else 2 * d)"

fun luhn_sum :: "bool \<Rightarrow> string \<Rightarrow> nat option" where
  "luhn_sum dbl [] = Some 0"
| "luhn_sum dbl (c # cs) =
     (if is_digit c then
        map_option (\<lambda>n. (if dbl then luhn_double (digit_val c) else digit_val c) + n) (luhn_sum (\<not> dbl) cs)
      else None)"

definition luhn_valid :: "string \<Rightarrow> bool" where
  "luhn_valid digits \<longleftrightarrow>
     \<not> length digits < 13 \<and> (case luhn_sum False (rev digits) of None \<Rightarrow> False | Some n \<Rightarrow> n mod 10 = 0)"

definition id_weights :: "nat list" where
  "id_weights = [7, 9, 10, 5, 8, 4, 2, 1, 6, 3, 7, 9, 10, 5, 8, 4, 2]"

definition id_check :: string where "id_check = ''10X98765432''"

definition to_digit :: "string \<Rightarrow> nat" where
  "to_digit c = (case c of [d] \<Rightarrow> if is_digit d then digit_val d else 0 | _ \<Rightarrow> 0)"

definition id_sum :: "string list \<Rightarrow> nat" where
  "id_sum cs = sum_list (map (\<lambda>(c, w). to_digit c * w) (zip cs id_weights))"

definition id_checksum_valid :: "string \<Rightarrow> bool" where
  "id_checksum_valid i =
     (let cs = chars_of i
      in if length cs \<noteq> 18 then False
         else eq_ignore_ascii_case [id_check ! (id_sum (take 17 cs) mod 11)] (cs ! 17))"

datatype secret_kind = PrivateKey | Jwt | ApiKey | CreditCard | IdNumber | PhoneNumber

record regex_engine =
  rx_ok :: "string \<Rightarrow> bool"
  rx_match :: "string \<Rightarrow> string \<Rightarrow> bool"

definition bsl :: string where "bsl = [CHR 0x5C]"

definition secret_rules :: "(secret_kind \<times> string) list" where
  "secret_rules =
     [(PrivateKey, ''-----BEGIN [A-Z ]*PRIVATE KEY-----''),
      (Jwt, ''^eyJ[A-Za-z0-9_-]+'' @ bsl @ ''.[A-Za-z0-9_-]+'' @ bsl @ ''.''),
      (ApiKey, ''sk-[A-Za-z0-9]{20,}''),
      (ApiKey, ''ghp_[A-Za-z0-9]{36}''),
      (ApiKey, ''AKIA[0-9A-Z]{16}''),
      (PhoneNumber, ''^1[3-9]'' @ bsl @ ''d{9}$''),
      (IdNumber, ''^'' @ bsl @ ''d{17}['' @ bsl @ ''dXx]$''),
      (CreditCard, ''^'' @ bsl @ ''d{13,19}$'')]"

fun secret_hit :: "secret_kind \<Rightarrow> string \<Rightarrow> bool" where
  "secret_hit CreditCard t = luhn_valid (filter is_digit t)"
| "secret_hit IdNumber t = id_checksum_valid t"
| "secret_hit _ t = True"

fun inspect_rules :: "regex_engine \<Rightarrow> (secret_kind \<times> string) list \<Rightarrow> string \<Rightarrow> secret_kind option" where
  "inspect_rules rx [] t = None"
| "inspect_rules rx ((k, p) # rules) t =
     (if rx_ok rx p \<and> rx_match rx p t \<and> secret_hit k t then Some k else inspect_rules rx rules t)"

definition inspect :: "regex_engine \<Rightarrow> string \<Rightarrow> secret_kind option" where
  "inspect rx t = inspect_rules rx secret_rules (str_trim t)"

section \<open>The configuration and the gates\<close>

record clip_config =
  cg_max_entries :: nat
  cg_retention_days :: nat
  cg_capture_images :: bool
  cg_capture_files :: bool
  cg_sensitive_filter :: bool
  cg_auto_group :: bool
  cg_excluded_apps :: "string list"
  cg_capture_paused :: bool
  cg_block_patterns :: "string list"

definition default_config :: clip_config where
  "default_config =
     \<lparr>cg_max_entries = 5000, cg_retention_days = 30, cg_capture_images = True, cg_capture_files = True,
      cg_sensitive_filter = True, cg_auto_group = True, cg_excluded_apps = [], cg_capture_paused = False,
      cg_block_patterns = []\<rparr>"

definition should_skip_capture :: "bool \<Rightarrow> bool \<Rightarrow> bool" where
  "should_skip_capture marker_present within_window \<longleftrightarrow> marker_present \<or> within_window"

definition block_reason :: "regex_engine \<Rightarrow> clip_config \<Rightarrow> string \<Rightarrow> string option" where
  "block_reason rx cfg t = find (\<lambda>p. rx_ok rx p \<and> rx_match rx p t) (cg_block_patterns cfg)"

datatype clip_content =
    CText string "string option"
  | CImage string nat nat bytes
  | CFiles "string list"

text \<open>What the pipeline works with: the envelope and base64, the classifier's answer, and the history
  with its counters and the notifications it sent (an identifier, and whether the entry is secret).\<close>

record clip_crypto =
  cc_protect :: "nat \<Rightarrow> bytes \<Rightarrow> string + bytes"
  cc_unprotect :: "bytes \<Rightarrow> string + bytes"
  cc_b64 :: "bytes \<Rightarrow> string"
  cc_unb64 :: "string \<Rightarrow> bytes option"

record pipeline =
  pl_store :: clip_store
  pl_paused :: bool
  pl_skipped :: nat
  pl_blocked :: nat
  pl_inserted :: nat
  pl_events :: "(string \<times> bool) list"

record capture_env =
  cv_sha :: "bytes \<Rightarrow> bytes"
  cv_rx :: regex_engine
  cv_crypto :: clip_crypto
  cv_classify :: "string \<Rightarrow> (string \<times> nat) option"
  cv_removal :: "string \<Rightarrow> blob_removal"

definition announce :: "string \<Rightarrow> bool \<Rightarrow> pipeline \<Rightarrow> pipeline" where
  "announce i secret p = p\<lparr>pl_events := pl_events p @ [(i, secret)]\<rparr>"

definition clean_sometimes :: "capture_env \<Rightarrow> clip_call \<Rightarrow> clip_config \<Rightarrow> pipeline \<Rightarrow> pipeline" where
  "clean_sometimes env cl cfg p =
     (let p' = p\<lparr>pl_inserted := Suc (pl_inserted p)\<rparr>
      in if pl_inserted p mod 50 = 0 then
           p'\<lparr>pl_store := snd (purge (cv_removal env) (cl_now cl) (cg_retention_days cfg) (cg_max_entries cfg) (pl_store p'))\<rparr>
         else p')"

definition process_text ::
    "capture_env \<Rightarrow> clip_call \<Rightarrow> clip_config \<Rightarrow> string \<Rightarrow> string option \<Rightarrow> string option \<Rightarrow> string \<Rightarrow> pipeline \<Rightarrow> pipeline" where
  "process_text env cl cfg t html source origin p =
     (if str_trim t = [] then p
      else
        (let kind = (if cg_sensitive_filter cfg then inspect (cv_rx env) t else None);
             sugg = cv_classify env t;
             grp = (if cg_auto_group cfg then map_option fst sugg else None);
             (r, s') =
               (case kind of
                  Some _ \<Rightarrow>
                    (case cc_protect (cv_crypto env) (cl_rand cl) (str_bytes t) of
                       Inl e \<Rightarrow> (Inl e, pl_store p)
                     | Inr cipher \<Rightarrow>
                         insert_encrypted (cv_sha env) cl (cc_b64 (cv_crypto env) cipher) grp sugg source origin (pl_store p))
                | None \<Rightarrow>
                    insert_row (cv_sha env) cl
                      \<lparr>nc_text = t, nc_group = grp, nc_suggested = sugg, nc_secret = False, nc_source = source,
                       nc_origin = origin, nc_html = html\<rparr> (pl_store p));
             p1 = p\<lparr>pl_store := s'\<rparr>
         in case r of
              Inl e \<Rightarrow> p1
            | Inr i \<Rightarrow> announce i (kind \<noteq> None) (clean_sometimes env cl cfg p1)))"

definition process_image ::
    "capture_env \<Rightarrow> clip_call \<Rightarrow> string \<Rightarrow> nat \<Rightarrow> nat \<Rightarrow> bytes \<Rightarrow> string option \<Rightarrow> string \<Rightarrow> pipeline \<Rightarrow> pipeline" where
  "process_image env cl fmt width height bs source origin p =
     (let (r, s') = insert_image (cv_sha env) cl fmt width height bs source origin (pl_store p); p1 = p\<lparr>pl_store := s'\<rparr>
      in case r of Inl e \<Rightarrow> p1 | Inr i \<Rightarrow> announce i False p1)"

definition process_files ::
    "capture_env \<Rightarrow> clip_call \<Rightarrow> string list \<Rightarrow> string option \<Rightarrow> string \<Rightarrow> pipeline \<Rightarrow> pipeline" where
  "process_files env cl paths source origin p =
     (if paths = [] then p
      else
        (let (r, s') = insert_files (cv_sha env) cl paths source origin (pl_store p); p1 = p\<lparr>pl_store := s'\<rparr>
         in case r of Inl e \<Rightarrow> p1 | Inr i \<Rightarrow> announce i False p1))"

text \<open>\<open>futures_now\<close>: the configuration, or the defaults while its lock is held elsewhere.\<close>

definition futures_now :: "clip_config option \<Rightarrow> clip_config" where
  "futures_now locked = unwrap_or default_config locked"

definition ingest ::
    "capture_env \<Rightarrow> clip_call \<Rightarrow> clip_config option \<Rightarrow> clip_content \<Rightarrow> string option \<Rightarrow> string \<Rightarrow> bool \<Rightarrow> pipeline \<Rightarrow> pipeline" where
  "ingest env cl lock content source origin apply_blacklist p =
     (if pl_paused p then p\<lparr>pl_skipped := Suc (pl_skipped p)\<rparr>
      else
        (let cfg = futures_now lock
         in if apply_blacklist \<and>
               (case source of None \<Rightarrow> False | Some app \<Rightarrow> list_ex (\<lambda>x. eq_ignore_ascii_case x app) (cg_excluded_apps cfg))
            then p
            else if (case content of CText t _ \<Rightarrow> block_reason (cv_rx env) cfg t \<noteq> None | _ \<Rightarrow> False)
            then p\<lparr>pl_blocked := Suc (pl_blocked p)\<rparr>
            else
              (case content of
                 CText t html \<Rightarrow> process_text env cl cfg t html source origin p
               | CImage fmt width height bs \<Rightarrow>
                   if cg_capture_images cfg then process_image env cl fmt width height bs source origin p else p
               | CFiles paths \<Rightarrow>
                   if cg_capture_files cfg then process_files env cl paths source origin p else p)))"

definition capture_local :: "capture_env \<Rightarrow> clip_call \<Rightarrow> clip_config option \<Rightarrow> clip_content \<times> string option \<Rightarrow> pipeline \<Rightarrow> pipeline" where
  "capture_local env cl lock item p = ingest env cl lock (fst item) (snd item) ''local'' True p"

text \<open>\<open>ingest_remote\<close>: the write window is opened and the system clipboard written whatever comes of it.\<close>

definition ingest_remote ::
    "capture_env \<Rightarrow> clip_call \<Rightarrow> clip_config option \<Rightarrow> clip_content \<Rightarrow> string \<Rightarrow> int option \<times> clip_content list \<times> pipeline \<Rightarrow>
     int option \<times> clip_content list \<times> pipeline" where
  "ingest_remote env cl lock content device st =
     (case st of (window, written, p) \<Rightarrow>
        (Some (cl_now cl), written @ [content], ingest env cl lock content (Some (''kvm:'' @ device)) ''remote'' False p))"

text \<open>\<open>apply_config\<close>: the switch is set, and the rest too unless the lock is held elsewhere.\<close>

definition apply_clip_config :: "clip_config \<Rightarrow> bool \<Rightarrow> clip_config \<times> pipeline \<Rightarrow> clip_config \<times> pipeline" where
  "apply_clip_config cfg lock_free st =
     (case st of (old, p) \<Rightarrow> (if lock_free then cfg else old, p\<lparr>pl_paused := cg_capture_paused cfg\<rparr>))"

section \<open>Typing errors in numbers\<close>

lemma digit_code: "is_digit c \<Longrightarrow> 48 \<le> (of_char c :: nat) \<and> of_char c \<le> (57 :: nat)"
  by (simp add: is_digit_def less_eq_char_def)

lemma digit_val_less [simp]: "is_digit c \<Longrightarrow> digit_val c < 10"
  using digit_code [of c] unfolding digit_val_def by linarith

lemma digit_val_inj: "is_digit c \<Longrightarrow> is_digit d \<Longrightarrow> digit_val c = digit_val d \<Longrightarrow> c = d"
proof -
  assume "is_digit c" "is_digit d" "digit_val c = digit_val d"
  then have "of_char c = (of_char d :: nat)"
    using digit_code [of c] digit_code [of d] unfolding digit_val_def by linarith
  then show "c = d" by simp
qed

text \<open>Doubling with the sum of the digits is a permutation of the ten digits.\<close>

lemma luhn_double_inj: "d < 10 \<Longrightarrow> e < 10 \<Longrightarrow> luhn_double d = luhn_double e \<Longrightarrow> d = e"
  unfolding luhn_double_def by (auto split: if_splits) arith+

lemma luhn_double_less: "d < 10 \<Longrightarrow> luhn_double d < 10"
  by (auto simp: luhn_double_def)

lemma luhn_sum_update:
  assumes "luhn_sum dbl xs = Some n" "i < length xs" "is_digit c" "luhn_sum dbl (xs[i := c]) = Some m" "c \<noteq> xs ! i"
  shows "n mod 10 \<noteq> m mod 10"
  using assms
proof (induction xs arbitrary: dbl i n m)
  case (Cons x xs)
  define f where "f = (\<lambda>d :: char. if dbl then luhn_double (digit_val d) else digit_val d)"
  have f: "f d < 10" if "is_digit d" for d using that luhn_double_less by (simp add: f_def)
  have inj: "f d = f e \<Longrightarrow> d = e" if "is_digit d" "is_digit e" for d e
    using that luhn_double_inj digit_val_inj by (auto simp: f_def split: if_splits)
  from Cons.prems(1) obtain k where x: "is_digit x" and k: "luhn_sum (\<not> dbl) xs = Some k" "n = f x + k"
    by (auto simp: f_def split: if_splits)
  show ?case
  proof (cases i)
    case 0
    then have "m = f c + k" "c \<noteq> x" using Cons.prems(3-5) k(1) by (auto simp: f_def)
    moreover have "f c \<noteq> f x" using inj [OF Cons.prems(3) x] \<open>c \<noteq> x\<close> by blast
    moreover have "f c < 10" "f x < 10" using f x Cons.prems(3) by auto
    ultimately show ?thesis using mod_add_cancel [of k "f x" 10 "f c"] unfolding k(2) by (simp add: add.commute)
  next
    case (Suc j)
    then obtain l where "luhn_sum (\<not> dbl) (xs[j := c]) = Some l" "m = f x + l"
      using Cons.prems(4) x by (auto simp: f_def)
    with Cons.IH [OF k(1), of j l] Cons.prems(2,3,5) Suc k(2) show ?thesis by (simp add: mod_add_cancel)
  qed
qed simp

text \<open>A card number with one digit mistyped is not taken for a card number.\<close>

lemma luhn_detects_typo:
  assumes "luhn_valid ds" "i < length ds" "is_digit c" "c \<noteq> ds ! i"
  shows "\<not> luhn_valid (ds[i := c])"
proof -
  define j where "j = length ds - Suc i"
  have rev: "rev (ds[i := c]) = (rev ds)[j := c]" using assms(2) by (simp add: rev_update j_def)
  have j: "j < length (rev ds)" "rev ds ! j = ds ! i" using assms(2) by (simp_all add: j_def rev_nth)
  obtain n where n: "luhn_sum False (rev ds) = Some n" "n mod 10 = 0"
    using assms(1) by (auto simp: luhn_valid_def split: option.splits)
  show ?thesis
    using luhn_sum_update [OF n(1) j(1) assms(3)] n(2) assms(4) j(2)
    by (auto simp: luhn_valid_def rev split: option.splits)
qed

lemma mod11_times:
  "a < (10 :: nat) \<Longrightarrow> b < 10 \<Longrightarrow> 1 \<le> w \<Longrightarrow> w < 11 \<Longrightarrow> (a * w) mod 11 = (b * w) mod 11 \<Longrightarrow> a = b"
proof -
  assume ab: "a < 10" "b < 10" and w: "1 \<le> w" "w < 11" and e: "(a * w) mod 11 = (b * w) mod 11"
  have "list_all (\<lambda>w. list_all (\<lambda>a. list_all (\<lambda>b. (a * w) mod 11 = (b * w) mod 11 \<longrightarrow> a = b) [0..<10]) [0..<10]) [1..<(11::nat)]"
    by code_simp
  moreover have "a \<in> set [0..<10]" "b \<in> set [0..<10]" "w \<in> set [1..<11]" using ab w unfolding set_upt by simp_all
  ultimately show "a = b" using e unfolding list_all_iff by blast
qed

lemma sum_list_update_nat:
  "i < length xs \<Longrightarrow> sum_list (xs[i := y]) + xs ! i = sum_list xs + (y :: nat)"
  by (induction xs arbitrary: i) (auto split: nat.splits)

text \<open>Nor is an identity number with one of its digits mistyped: no weight is a multiple of 11.\<close>

lemma id_sum_detects_typo:
  assumes "length cs = 17" "i < 17" "cs ! i = [c]" "is_digit c" "is_digit d" "c \<noteq> d"
  shows "id_sum (cs[i := [d]]) mod 11 \<noteq> id_sum cs mod 11"
proof -
  define w where "w = id_weights ! i"
  define ps where "ps = map (\<lambda>(c, w). to_digit c * w) (zip cs id_weights)"
  have len: "length id_weights = 17" by (simp add: id_weights_def)
  have "zip (cs[i := [d]]) id_weights = (zip cs id_weights)[i := ([d], w)]"
    using update_zip [of cs id_weights i "([d], w)"] by (simp add: w_def)
  then have "id_sum (cs[i := [d]]) = sum_list (ps[i := digit_val d * w])"
    using assms(5) by (simp add: id_sum_def ps_def map_update to_digit_def)
  moreover have i: "i < length ps" "ps ! i = digit_val c * w"
    using assms(1-4) len by (simp_all add: ps_def w_def to_digit_def)
  ultimately have eq: "id_sum (cs[i := [d]]) + digit_val c * w = id_sum cs + digit_val d * w"
    using sum_list_update_nat [OF i(1), of "digit_val d * w"] by (simp add: id_sum_def ps_def)
  have "w \<in> set id_weights" using assms(2) len by (simp add: w_def)
  then have w: "1 \<le> w" "w < 11" by (auto simp: id_weights_def)
  show ?thesis
  proof
    assume "id_sum (cs[i := [d]]) mod 11 = id_sum cs mod 11"
    then have "(digit_val c * w + id_sum cs) mod 11 = (digit_val c * w + id_sum (cs[i := [d]])) mod 11"
      by (simp add: mod_add_cancel)
    also have "\<dots> = (digit_val d * w + id_sum cs) mod 11" using eq by (simp add: add.commute)
    finally have "(digit_val c * w) mod 11 = (digit_val d * w) mod 11"
      using mod_add_cancel [of "id_sum cs" "digit_val c * w" 11 "digit_val d * w"] by (simp add: add.commute)
    with mod11_times [OF _ _ w] assms(4,5) have "digit_val c = digit_val d" by simp
    with digit_val_inj assms(4-6) show False by blast
  qed
qed

section \<open>Capturing is a step of the history\<close>

lemma clean_sometimes_reach:
  "clip_reach sha (pl_store p) \<Longrightarrow> clip_reach sha (pl_store (clean_sometimes env cl cfg p))"
  using clip_next [of sha "pl_store p" "OpPurge (cv_removal env) (cl_now cl) (cg_retention_days cfg) (cg_max_entries cfg)"]
  by (simp add: clean_sometimes_def Let_def)

lemma announce_store [simp]: "pl_store (announce i b p) = pl_store p"
  by (simp add: announce_def)

lemma process_text_reach:
  assumes "clip_reach (cv_sha env) (pl_store p)" "new_id cl (pl_store p)"
    and "\<And>c. cc_protect (cv_crypto env) (cl_rand cl) (str_bytes t) = Inr c \<Longrightarrow>
      existing (content_hash (cv_sha env) (cc_b64 (cv_crypto env) c)) (pl_store p) = None"
  shows "clip_reach (cv_sha env) (pl_store (process_text env cl cfg t html source origin p))"
proof -
  have plain: "clip_reach (cv_sha env) s'" if "insert_row (cv_sha env) cl c (pl_store p) = (r, s')" "\<not> nc_secret c" for c r s'
    using clip_next [OF assms(1), of "OpInsert cl c"] assms(2) that by simp
  have enc: "clip_reach (cv_sha env) s'"
    if "cc_protect (cv_crypto env) (cl_rand cl) (str_bytes t) = Inr c"
      "insert_encrypted (cv_sha env) cl (cc_b64 (cv_crypto env) c) grp sugg source origin (pl_store p) = (r, s')" for c grp sugg r s'
    using clip_next [OF assms(1), of "OpEncrypted cl (cc_b64 (cv_crypto env) c) grp sugg source origin"] assms(2,3) that by simp
  show ?thesis
    using assms(1) plain enc
    by (auto simp: process_text_def Let_def intro!: clean_sometimes_reach split: option.splits sum.splits prod.splits)
qed

lemma process_image_reach:
  "clip_reach (cv_sha env) (pl_store p) \<Longrightarrow> new_id cl (pl_store p) \<Longrightarrow>
   clip_reach (cv_sha env) (pl_store (process_image env cl fmt width height bs source origin p))"
  using clip_next [of "cv_sha env" "pl_store p" "OpImage cl fmt width height bs source origin"]
  by (auto simp: process_image_def Let_def split: sum.splits prod.splits)

lemma process_files_reach:
  "clip_reach (cv_sha env) (pl_store p) \<Longrightarrow> new_id cl (pl_store p) \<Longrightarrow>
   clip_reach (cv_sha env) (pl_store (process_files env cl paths source origin p))"
  using clip_next [of "cv_sha env" "pl_store p" "OpFiles cl paths source origin"]
  by (auto simp: process_files_def Let_def split: sum.splits prod.splits)

text \<open>A new identifier, and a new ciphertext where one is made.\<close>

definition capture_fresh :: "capture_env \<Rightarrow> clip_call \<Rightarrow> clip_content \<Rightarrow> clip_store \<Rightarrow> bool" where
  "capture_fresh env cl content s \<longleftrightarrow>
     new_id cl s \<and>
     (case content of
        CText t _ \<Rightarrow>
          (case cc_protect (cv_crypto env) (cl_rand cl) (str_bytes t) of
             Inl e \<Rightarrow> True
           | Inr c \<Rightarrow> existing (content_hash (cv_sha env) (cc_b64 (cv_crypto env) c)) s = None)
      | _ \<Rightarrow> True)"

lemma ingest_reach:
  assumes "clip_reach (cv_sha env) (pl_store p)" "capture_fresh env cl content (pl_store p)"
  shows "clip_reach (cv_sha env) (pl_store (ingest env cl lock content source origin bl p))"
proof (cases content)
  case (CText t html)
  have n: "new_id cl (pl_store p)" using assms(2) by (simp add: capture_fresh_def)
  have "existing (content_hash (cv_sha env) (cc_b64 (cv_crypto env) c)) (pl_store p) = None"
    if "cc_protect (cv_crypto env) (cl_rand cl) (str_bytes t) = Inr c" for c
    using assms(2) CText that by (simp add: capture_fresh_def)
  from process_text_reach [OF assms(1) n this] CText assms(1) show ?thesis by (auto simp: ingest_def Let_def)
qed (use assms process_image_reach [OF assms(1)] process_files_reach [OF assms(1)] in
      \<open>auto simp: ingest_def Let_def capture_fresh_def\<close>)

section \<open>Sensitive text never lies in the history\<close>

text \<open>What is left of some bytes: the first ones, some of them overwritten with zeros.\<close>

definition scrap :: "bytes \<Rightarrow> bytes \<Rightarrow> bool" where
  "scrap x bs \<longleftrightarrow> (\<exists>n m. n \<le> length (take m bs) \<and> x = replicate n 0 @ drop n (take m bs))"

lemma scrap_take [simp]: "scrap (take m bs) bs"
  unfolding scrap_def by (intro exI [of _ 0] exI [of _ m]) simp

lemma scrap_refl [simp]: "scrap bs bs"
  using scrap_take [of "length bs" bs] by simp

lemma scrap_overwrite: "scrap x bs \<Longrightarrow> scrap (replicate (min k (length x)) 0 @ drop k x) bs"
proof -
  assume "scrap x bs"
  then obtain n m where n: "n \<le> length (take m bs)" and x: "x = replicate n 0 @ drop n (take m bs)"
    unfolding scrap_def by blast
  define j where "j = max n (min k (length x))"
  have len: "length x = length (take m bs)" using n x by simp
  have "replicate (min k (length x)) 0 @ drop k x = replicate j 0 @ drop j (take m bs)"
  proof (cases "k \<le> n")
    case True
    then have "k \<le> length x" using n len by simp
    with True show ?thesis
      by (simp add: x j_def min_def max_def flip: append_assoc replicate_add)
  next
    case False
    show ?thesis
    proof (cases "k \<le> length x")
      case True
      with False n show ?thesis by (simp add: x j_def min_def max_def)
    next
      case False
      then have "drop k x = []" by simp
      with False n len show ?thesis by (simp add: j_def min_def max_def)
    qed
  qed
  moreover have "j \<le> length (take m bs)" using n len unfolding j_def by linarith
  ultimately show ?thesis unfolding scrap_def by blast
qed

definition scraps_of :: "(string \<Rightarrow> bytes \<Rightarrow> bool) \<Rightarrow> clip_store \<Rightarrow> bool" where
  "scraps_of P s \<longleftrightarrow> (\<forall>name bs. cs_blobs s name = Some bs \<longrightarrow> (\<exists>old. P name old \<and> scrap bs old))"

lemma scraps_of_remove: "scraps_of P s \<Longrightarrow> scraps_of P (remove_blob rm ow name s)"
  using scrap_overwrite by (fastforce simp: scraps_of_def remove_blob_def split: option.splits blob_removal.splits if_splits)

lemma scraps_of_removes: "scraps_of P s \<Longrightarrow> scraps_of P (remove_blobs rm ow names s)"
  by (induction names arbitrary: s) (simp_all add: scraps_of_remove)

lemma scraps_of_purge: "scraps_of P s \<Longrightarrow> scraps_of P (snd (purge rm now days cap s))"
  by (auto simp: purge_def purge_rows_def Let_def drop_rows_def scraps_of_def intro!: scraps_of_removes [unfolded scraps_of_def])

lemma scraps_of_write: "scraps_of P s \<Longrightarrow> P name bs \<Longrightarrow> write_blob w name bs s = (ok, s') \<Longrightarrow> scraps_of P s'"
  using scrap_refl scrap_take by (fastforce simp: scraps_of_def write_blob_def split: fs_write.splits if_splits)

text \<open>What an encrypted insertion adds.\<close>

definition sealed_row :: "string \<Rightarrow> clip_row \<Rightarrow> bool" where
  "sealed_row b64 q \<longleftrightarrow> ce_secret q \<and> ce_html q = None \<and> (ce_content q = Some [] \<or> ce_content q = Some b64)"

lemma text_row_sealed: "nc_secret c \<Longrightarrow> nc_html c = None \<Longrightarrow> content = [] \<or> content = b64 \<Longrightarrow>
    sealed_row b64 (text_row cl c hash content blob)"
  by (auto simp: sealed_row_def text_row_def)

lemma insert_encrypted_adds:
  assumes "insert_encrypted sha cl b64 grp sugg source origin s = (r, s')"
    and "scraps_of P s" "\<And>name. P name (str_bytes b64)"
  shows "scraps_of P s' \<and> (\<forall>q \<in> set (cs_rows s'). q \<in> set (cs_rows s) \<or> sealed_row b64 q)"
proof (cases "blob_threshold < length b64")
  case True
  obtain ok s1 where w: "write_blob (cl_write cl) (content_hash sha b64 @ ''.enc'') (str_bytes b64) s = (ok, s1)" by fastforce
  have "scraps_of P s1" using scraps_of_write [OF assms(2,3) w] .
  moreover have "cs_rows s1 = cs_rows s" using write_blob_stack [OF w] by simp
  ultimately show ?thesis
    using assms(1) True w
    by (auto simp: insert_encrypted_def Let_def add_row_def scraps_of_def text_row_sealed clip_of_def split: if_splits)
next
  case False
  then show ?thesis
    using assms(1,2) by (auto simp: insert_encrypted_def Let_def add_row_def scraps_of_def text_row_sealed clip_of_def)
qed

lemma purge_rows_subset: "set (cs_rows (snd (purge rm now days cap s))) \<subseteq> set (cs_rows s)"
  by (auto simp: purge_rows_eq drop_rows_def)

text \<open>C24. With the filter on, a text that a rule recognises as sensitive leaves nothing but its envelope in the
  history: every entry that was not there before is marked secret, has no HTML copy and holds the
  ciphertext or nothing, and every file is what is left of a file that was there or of the
  ciphertext; when the envelope cannot be made nothing is added at all.\<close>

theorem sensitive_text_only_sealed:
  assumes "cg_sensitive_filter (futures_now lock)" and "inspect (cv_rx env) t \<noteq> None"
    and "p' = ingest env cl lock (CText t html) source origin bl p"
  shows "(\<forall>q \<in> set (cs_rows (pl_store p')). q \<in> set (cs_rows (pl_store p)) \<or>
      (\<exists>c. cc_protect (cv_crypto env) (cl_rand cl) (str_bytes t) = Inr c \<and> sealed_row (cc_b64 (cv_crypto env) c) q)) \<and>
    scraps_of (\<lambda>name old. cs_blobs (pl_store p) name = Some old \<or>
      (\<exists>c. cc_protect (cv_crypto env) (cl_rand cl) (str_bytes t) = Inr c \<and> old = str_bytes (cc_b64 (cv_crypto env) c)))
      (pl_store p')"
proof -
  define P where "P = (\<lambda>name old. cs_blobs (pl_store p) name = Some old \<or>
      (\<exists>c. cc_protect (cv_crypto env) (cl_rand cl) (str_bytes t) = Inr c \<and> old = str_bytes (cc_b64 (cv_crypto env) c)))"
  define R where "R = (\<lambda>q. q \<in> set (cs_rows (pl_store p)) \<or>
      (\<exists>c. cc_protect (cv_crypto env) (cl_rand cl) (str_bytes t) = Inr c \<and> sealed_row (cc_b64 (cv_crypto env) c) q))"
  define good where "good x \<longleftrightarrow> (\<forall>q \<in> set (cs_rows (pl_store x)). R q) \<and> scraps_of P (pl_store x)" for x :: pipeline
  have start: "scraps_of P (pl_store p)" by (auto simp: scraps_of_def P_def intro: scrap_refl)
  have same: "good x" if "pl_store x = pl_store p" for x using that start by (simp add: good_def R_def)
  have clean: "good (clean_sometimes env cl cfg x)" if "good x" for cfg x
    using that purge_rows_subset scraps_of_purge by (fastforce simp: good_def clean_sometimes_def Let_def)
  have enc: "good (p\<lparr>pl_store := s'\<rparr>)"
    if c: "cc_protect (cv_crypto env) (cl_rand cl) (str_bytes t) = Inr c"
      and i: "insert_encrypted (cv_sha env) cl (cc_b64 (cv_crypto env) c) grp sugg source origin (pl_store p) = (r, s')"
    for c grp sugg r s'
    using insert_encrypted_adds [OF i start] c by (auto simp: good_def R_def P_def)
  have ann: "good (announce i b x)" if "good x" for i b x using that by (simp add: good_def)
  have "good (process_text env cl (futures_now lock) t html source origin p)"
  proof (cases "cc_protect (cv_crypto env) (cl_rand cl) (str_bytes t)")
    case (Inl e)
    then show ?thesis
      using assms(1,2) by (auto simp: process_text_def Let_def intro!: same split: option.splits)
  next
    case (Inr c)
    define cfg where "cfg = futures_now lock"
    define grp where "grp = (if cg_auto_group cfg then map_option fst (cv_classify env t) else None)"
    obtain r s' where i: "insert_encrypted (cv_sha env) cl (cc_b64 (cv_crypto env) c) grp (cv_classify env t)
        source origin (pl_store p) = (r, s')" by fastforce
    have "process_text env cl cfg t html source origin p =
        (if str_trim t = [] then p
         else case r of Inl e \<Rightarrow> p\<lparr>pl_store := s'\<rparr>
              | Inr i \<Rightarrow> announce i True (clean_sometimes env cl cfg (p\<lparr>pl_store := s'\<rparr>)))"
      using assms(1,2) Inr i
      by (auto simp: process_text_def Let_def cfg_def grp_def split: option.splits sum.splits)
    then show ?thesis
      using enc [OF Inr i] by (auto simp: cfg_def intro!: same ann clean split: sum.splits)
  qed
  then have "good p'" unfolding assms(3) by (auto simp: ingest_def Let_def intro!: same)
  then show ?thesis by (simp add: good_def P_def R_def)
qed

text \<open>An envelope, an engine and a capture to run the theorem on.\<close>

definition sample_crypto :: clip_crypto where
  "sample_crypto =
     \<lparr>cc_protect = (\<lambda>r bs. if bs = [] then Inl ''EMPTY'' else Inr (rev bs)), cc_unprotect = (\<lambda>c. Inr (rev c)),
      cc_b64 = hex_lower, cc_unb64 = (\<lambda>_. None)\<rparr>"

definition sample_rx :: regex_engine where
  "sample_rx = \<lparr>rx_ok = (\<lambda>_. True), rx_match = (\<lambda>p t. prefix ''sk-'' p \<and> prefix ''sk-'' t)\<rparr>"

definition sample_env :: capture_env where
  "sample_env =
     \<lparr>cv_sha = plain_sha, cv_rx = sample_rx, cv_crypto = sample_crypto, cv_classify = (\<lambda>_. None), cv_removal = (\<lambda>_. Removed)\<rparr>"

definition pipeline_on :: "clip_store \<Rightarrow> nat \<Rightarrow> pipeline" where
  "pipeline_on s n = \<lparr>pl_store = s, pl_paused = False, pl_skipped = 0, pl_blocked = 0, pl_inserted = n, pl_events = []\<rparr>"

definition key_text :: string where "key_text = ''sk-1234567890abcdefghij''"

lemma length_hex_lower [simp]: "length (hex_lower bs) = 2 * length bs"
  by (induction bs) (simp_all add: hex_lower_def hex_byte_def)

lemma length_str_bytes [simp]: "length (str_bytes t) = length t"
  by (simp add: str_bytes_def)

lemma key_text_facts: "inspect sample_rx key_text = Some ApiKey" "str_trim key_text = key_text" "key_text \<noteq> []"
  "length key_text = 23"
  by code_simp+

definition captured_key :: pipeline where
  "captured_key = ingest sample_env (at 30 ''c'') (Some default_config) (CText key_text (Some key_text)) None ''local'' True
     (pipeline_on two_clips 1)"

theorem sensitive_text_only_sealed_witness:
  "list_all (\<lambda>q. q \<in> set (cs_rows two_clips) \<or> sealed_row (hex_lower (rev (str_bytes key_text))) q) (cs_rows (pl_store captured_key)) \<and>
   pl_events captured_key = [(''c'', True)]"
proof
  have "inspect (cv_rx sample_env) key_text \<noteq> None" by (simp add: sample_env_def key_text_facts)
  from sensitive_text_only_sealed [OF _ this captured_key_def]
  have "\<forall>q \<in> set (cs_rows (pl_store captured_key)). q \<in> set (cs_rows two_clips) \<or>
      (\<exists>c. cc_protect (cv_crypto sample_env) (cl_rand (at 30 ''c'')) (str_bytes key_text) = Inr c \<and> sealed_row (cc_b64 (cv_crypto sample_env) c) q)"
    by (simp add: futures_now_def default_config_def pipeline_on_def)
  then show "list_all (\<lambda>q. q \<in> set (cs_rows two_clips) \<or> sealed_row (hex_lower (rev (str_bytes key_text))) q) (cs_rows (pl_store captured_key))"
    by (auto simp: list_all_iff sample_env_def sample_crypto_def split: if_splits)
  have "str_bytes key_text \<noteq> []" using key_text_facts(4) by (metis length_str_bytes list.size(3) zero_neq_numeral)
  then show "pl_events captured_key = [(''c'', True)]"
    using key_text_facts
    by (simp add: captured_key_def ingest_def pipeline_on_def futures_now_def default_config_def process_text_def
        sample_env_def sample_crypto_def insert_encrypted_def blob_threshold_def block_reason_def announce_def
        clean_sometimes_def Let_def at_def)
qed

section \<open>While the configuration is locked\<close>

text \<open>C28. The applications that must never be recorded are recorded when the lock of the configuration happens to
  be held elsewhere: the worker then goes on with the default configuration, whose lists are
  empty.  With the lock free the same capture leaves the history as it was; with the lock taken
  the text is in it, unencrypted.\<close>

theorem locked_config_records_excluded:
  assumes "list_ex (\<lambda>x. eq_ignore_ascii_case x app) (cg_excluded_apps cfg)" and "\<not> pl_paused p"
    and "str_trim t \<noteq> []" and "inspect (cv_rx env) t = None" and "length t \<le> blob_threshold"
    and "existing (content_hash (cv_sha env) t) (pl_store p) = None" and "pl_inserted p mod 50 \<noteq> 0"
  shows "ingest env cl (Some cfg) (CText t html) (Some app) ''local'' True p = p \<and>
    list_ex (\<lambda>r. ce_content r = Some t \<and> ce_source r = Some app \<and> \<not> ce_secret r)
      (cs_rows (pl_store (ingest env cl None (CText t html) (Some app) ''local'' True p)))"
proof
  show "ingest env cl (Some cfg) (CText t html) (Some app) ''local'' True p = p"
    using assms(1,2) by (simp add: ingest_def futures_now_def)
  have "block_reason (cv_rx env) default_config t = None" by (simp add: block_reason_def default_config_def)
  then have "ingest env cl None (CText t html) (Some app) ''local'' True p =
      process_text env cl default_config t html (Some app) ''local'' p"
    using assms(2) by (simp add: ingest_def futures_now_def) (simp add: default_config_def)
  moreover have "list_ex (\<lambda>r. ce_content r = Some t \<and> ce_source r = Some app \<and> \<not> ce_secret r)
      (cs_rows (pl_store (process_text env cl default_config t html (Some app) ''local'' p)))"
    using assms(3-7)
    by (simp add: process_text_def default_config_def insert_row_def Let_def clean_sometimes_def add_row_def text_row_def)
  ultimately show "list_ex (\<lambda>r. ce_content r = Some t \<and> ce_source r = Some app \<and> \<not> ce_secret r)
      (cs_rows (pl_store (ingest env cl None (CText t html) (Some app) ''local'' True p)))" by simp
qed

theorem locked_config_records_excluded_witness:
  "list_ex (\<lambda>r. ce_content r = Some ''pass word'' \<and> ce_source r = Some ''KeePass.exe'' \<and> \<not> ce_secret r)
     (cs_rows (pl_store (ingest sample_env (at 30 ''c'') None (CText ''pass word'' None) (Some ''KeePass.exe'') ''local'' True
       (pipeline_on two_clips 1))))"
proof -
  define cfg where "cfg = default_config\<lparr>cg_excluded_apps := [''keepass.exe'']\<rparr>"
  have "list_ex (\<lambda>x. eq_ignore_ascii_case x ''KeePass.exe'') (cg_excluded_apps cfg)"
    unfolding cfg_def default_config_def by code_simp
  moreover have "str_trim ''pass word'' \<noteq> []" by code_simp
  moreover have "inspect sample_rx ''pass word'' = None" by code_simp
  moreover have "existing (content_hash plain_sha ''pass word'') two_clips = None"
    by (simp add: existing_None two_clips_eq)
  ultimately show ?thesis
    using locked_config_records_excluded [of "''KeePass.exe''" cfg "pipeline_on two_clips 1" "''pass word''" sample_env "at 30 ''c''" None]
    by (simp add: pipeline_on_def sample_env_def blob_threshold_def)
qed

end
