(* ===== verification/Clip_Module.thy ===== *)
theory Clip_Module
  imports Clip_Capture
begin

text \<open>
  What the clipboard module does with its history (\<open>clipboard-core/src/module.rs\<close>): reading,
  revealing and pasting an entry, delivering the paste stack into another application, one entry
  or all of them.  The clipboard and the injected keys are ports whose answers are given by the
  number of the attempt.  The locale \<open>delivery\<close> is what the delivery of all entries asks of the
  delivery of one.
\<close>

section \<open>Reading an entry\<close>

definition module_get_content :: "clip_crypto \<Rightarrow> string \<Rightarrow> clip_store \<Rightarrow> string + string option" where
  "module_get_content c i s =
     res_bind (get_payload i s) (\<lambda>p.
       case p of
         Some (PSecretB64 _) \<Rightarrow> Inl ''CLIPBOARD_GET_001''
       | _ \<Rightarrow> get_content (cc_unb64 c) (cc_unprotect c) i s)"

definition reveal_secret :: "clip_crypto \<Rightarrow> string \<Rightarrow> clip_store \<Rightarrow> string + string" where
  "reveal_secret c i s =
     res_bind (get_payload i s) (\<lambda>p.
       case p of
         None \<Rightarrow> Inl ''CLIPBOARD_REVEAL_002''
       | Some (PSecretB64 b64) \<Rightarrow>
           res_bind (ok_or ''CLIPBOARD_REVEAL_002'' (cc_unb64 c b64)) (\<lambda>cipher.
             case cc_unprotect c cipher of Inl e \<Rightarrow> Inl ''CLIPBOARD_REVEAL_002'' | Inr plain \<Rightarrow> Inr (bytes_text plain))
       | Some _ \<Rightarrow> Inl ''CLIPBOARD_REVEAL_001'')"

definition paste_content :: "string \<Rightarrow> clip_store \<Rightarrow> string + clip_content" where
  "paste_content i s =
     res_bind (get_payload i s) (\<lambda>p.
       case p of
         None \<Rightarrow> Inl ''CLIPBOARD_PASTE_002''
       | Some (PText t) \<Rightarrow> Inr (CText t None)
       | Some (PFiles ps) \<Rightarrow> Inr (CFiles ps)
       | Some (PImage fmt bs) \<Rightarrow> Inr (CImage fmt 0 0 bs)
       | Some (PSecretB64 _) \<Rightarrow> Inl ''CLIPBOARD_PASTE_004'')"

definition module_get_html :: "string \<Rightarrow> clip_store \<Rightarrow> string + string option" where
  "module_get_html i s =
     res_bind (get_payload i s) (\<lambda>p.
       case p of Some (PSecretB64 _) \<Rightarrow> Inl ''CLIPBOARD_HTML_002'' | _ \<Rightarrow> Inr (get_html i s))"

record paste_payload =
  pp_content :: clip_content
  pp_html :: bool
  pp_degraded :: bool

definition paste_content_format :: "string \<Rightarrow> bool \<Rightarrow> clip_store \<Rightarrow> string + paste_payload" where
  "paste_content_format i want_html s =
     res_bind (paste_content i s) (\<lambda>content.
       if \<not> want_html then Inr \<lparr>pp_content = content, pp_html = False, pp_degraded = False\<rparr>
       else
         (case content of
            CText t _ \<Rightarrow>
              res_bind (module_get_html i s) (\<lambda>h.
                case h of
                  Some rich \<Rightarrow> Inr \<lparr>pp_content = CText t (Some rich), pp_html = True, pp_degraded = False\<rparr>
                | None \<Rightarrow> Inr \<lparr>pp_content = content, pp_html = False, pp_degraded = True\<rparr>)
          | _ \<Rightarrow> Inr \<lparr>pp_content = content, pp_html = False, pp_degraded = True\<rparr>))"

definition module_get_payload :: "clip_crypto \<Rightarrow> string \<Rightarrow> clip_store \<Rightarrow> string + payload option" where
  "module_get_payload c i s =
     res_bind (get_payload i s) (\<lambda>p.
       case p of
         Some (PSecretB64 b64) \<Rightarrow>
           res_bind (ok_or ''CLIPBOARD_QUERY_003'' (cc_unb64 c b64)) (\<lambda>cipher.
           res_bind (cc_unprotect c cipher) (\<lambda>plain. Inr (Some (PText (bytes_text plain)))))
       | _ \<Rightarrow> Inr p)"

section \<open>Delivering the paste stack\<close>

record paste_ports =
  port_write :: "nat \<Rightarrow> bool"
  port_inject :: "nat \<Rightarrow> bool"

record clip_module =
  cm_store :: clip_store
  cm_written :: "clip_content list"
  cm_calls :: nat

text \<open>\<open>stack_deliver_head\<close>: looking at the head, then writing it and taking the head off.\<close>

definition deliver_begin :: "clip_module \<Rightarrow> (string + (string \<times> (string + clip_content)) option)" where
  "deliver_begin m =
     (case stack_list (cm_store m) of
        [] \<Rightarrow> Inr None
      | i # _ \<Rightarrow>
          (case paste_content i (cm_store m) of
             Inr content \<Rightarrow> Inr (Some (i, Inr content))
           | Inl e \<Rightarrow> if e = ''CLIPBOARD_PASTE_004'' then Inr (Some (i, Inl e)) else Inl e))"

definition deliver_end :: "paste_ports \<Rightarrow> string \<Rightarrow> clip_content \<Rightarrow> clip_module \<Rightarrow> (string \<times> bool) \<times> clip_module" where
  "deliver_end ports i content m =
     (let n = cm_calls m; m1 = m\<lparr>cm_calls := Suc n\<rparr>
      in if \<not> port_write ports n then ((i, False), m1)
         else
           ((i, port_inject ports n),
            m1\<lparr>cm_written := cm_written m @ [content], cm_store := snd (stack_take_next (cm_store m))\<rparr>))"

definition stack_deliver_head :: "paste_ports \<Rightarrow> clip_module \<Rightarrow> (string + (string \<times> bool) option) \<times> clip_module" where
  "stack_deliver_head ports m =
     (case deliver_begin m of
        Inl e \<Rightarrow> (Inl e, m)
      | Inr None \<Rightarrow> (Inr None, m)
      | Inr (Some (i, Inl e)) \<Rightarrow> (Inr (Some (i, False)), m)
      | Inr (Some (i, Inr content)) \<Rightarrow> (let (d, m') = deliver_end ports i content m in (Inr (Some d), m')))"

lemma take_next_shorter: "stack_list s \<noteq> [] \<Longrightarrow> length (cs_stack (snd (stack_take_next s))) < length (cs_stack s)"
proof -
  assume "stack_list s \<noteq> []"
  then obtain e rest where e: "in_order (cs_stack s) = e # rest" by (cases "in_order (cs_stack s)") (auto simp: stack_list_def)
  then have "e \<in> set (cs_stack s)" by (metis list.set_intros(1) set_in_order)
  with e show ?thesis by (simp add: stack_take_next_def length_filter_less)
qed

lemma delivered_shorter:
  "stack_deliver_head ports m = (Inr (Some (i, True)), m') \<Longrightarrow> length (cs_stack (cm_store m')) < length (cs_stack (cm_store m))"
  using take_next_shorter [of "cm_store m"]
  by (auto simp: stack_deliver_head_def deliver_begin_def deliver_end_def Let_def
      split: list.splits sum.splits option.splits prod.splits if_splits)

record paste_report =
  pr_delivered :: nat
  pr_failed :: nat
  pr_remaining :: nat

text \<open>\<open>stack_paste_all\<close>: one after the other, up to the first failure.\<close>

function paste_loop :: "paste_ports \<Rightarrow> nat \<Rightarrow> clip_module \<Rightarrow> (string + nat \<times> nat) \<times> clip_module" where
  "paste_loop ports delivered m =
     (case stack_deliver_head ports m of
        (Inl e, m') \<Rightarrow> (Inl e, m')
      | (Inr None, m') \<Rightarrow> (Inr (delivered, 0), m')
      | (Inr (Some (i, ok)), m') \<Rightarrow> if ok then paste_loop ports (Suc delivered) m' else (Inr (delivered, 1), m'))"
  by pat_completeness auto
termination
  by (relation "measure (\<lambda>(_, _, m). length (cs_stack (cm_store m)))") (auto dest: delivered_shorter [OF sym])

declare paste_loop.simps [simp del]

definition stack_paste_all :: "paste_ports \<Rightarrow> clip_module \<Rightarrow> (string + paste_report) \<times> clip_module" where
  "stack_paste_all ports m =
     (let (r, m') = paste_loop ports 0 m
      in (res_bind r (\<lambda>(d, f). Inr \<lparr>pr_delivered = d, pr_failed = f, pr_remaining = length (stack_list (cm_store m'))\<rparr>), m'))"

section \<open>What a delivery must not lose\<close>

text \<open>The delivery of one entry, seen from the loop: what is to be sent and what was sent, in order.\<close>

locale delivery =
  fixes pending :: "'s \<Rightarrow> 'a list" and sent :: "'s \<Rightarrow> 'a list" and sound :: "'s \<Rightarrow> bool"
    and step :: "'s \<Rightarrow> ('e + ('i \<times> bool) option) \<times> 's"
  assumes conserve: "sound m \<Longrightarrow> step m = (r, m') \<Longrightarrow> sound m' \<and> sent m' @ pending m' = sent m @ pending m"
    and drained: "sound m \<Longrightarrow> step m = (Inr None, m') \<Longrightarrow> pending m' = []"
    and one: "sound m \<Longrightarrow> step m = (Inr (Some (i, True)), m') \<Longrightarrow> length (sent m') = Suc (length (sent m))"
begin

text \<open>A run of deliveries, with the number that succeeded.\<close>

inductive run :: "'s \<Rightarrow> nat \<Rightarrow> 's \<Rightarrow> bool" where
  run_nil: "run m 0 m"
| run_step: "run m n m' \<Longrightarrow> step m' = (Inr (Some (i, True)), m'') \<Longrightarrow> run m (Suc n) m''"

lemma run_Cons: "run m' n m'' \<Longrightarrow> step m = (Inr (Some (i, True)), m') \<Longrightarrow> run m (Suc n) m''"
  by (induction rule: run.induct) (auto intro: run.intros)

lemma run_conserve: "run m n m' \<Longrightarrow> sound m \<Longrightarrow> sound m' \<and> sent m' @ pending m' = sent m @ pending m"
  by (induction rule: run.induct) (auto dest: conserve)

lemma run_count: "run m n m' \<Longrightarrow> sound m \<Longrightarrow> length (sent m') = length (sent m) + n"
proof (induction rule: run.induct)
  case (run_step m n m' i m'')
  then have "sound m'" using run_conserve by blast
  with run_step one show ?case by fastforce
qed simp

lemma run_sent:
  assumes "run m n m'" "sound m"
  shows "sent m' = sent m @ take n (pending m)" "pending m' = drop n (pending m)"
proof -
  have e: "sent m' @ pending m' = sent m @ pending m" using run_conserve [OF assms] by blast
  have l: "length (sent m') = length (sent m) + n" by (rule run_count [OF assms])
  show "sent m' = sent m @ take n (pending m)"
    using arg_cong [OF e, of "take (length (sent m'))"] l by simp
  show "pending m' = drop n (pending m)"
    using arg_cong [OF e, of "drop (length (sent m'))"] l by simp
qed

lemma run_to_end:
  assumes "run m n m'" "sound m" "step m' = (Inr None, m'')"
  shows "sent m'' = sent m @ pending m" "pending m'' = []"
proof -
  have s: "sound m'" "sent m' @ pending m' = sent m @ pending m" using run_conserve [OF assms(1,2)] by auto
  have p: "pending m'' = []" by (rule drained [OF s(1) assms(3)])
  then show "pending m'' = []" .
  show "sent m'' = sent m @ pending m" using conserve [OF s(1) assms(3)] s(2) p by simp
qed

end

text \<open>The model's delivery of one entry keeps these promises.\<close>

lemma row_of_stack [simp]: "row_of i (snd (stack_take_next s)) = row_of i s"
  by (simp add: row_of_def stack_take_next_def split: list.splits)

lemma blobs_stack [simp]: "cs_blobs (snd (stack_take_next s)) = cs_blobs s"
  by (simp add: stack_take_next_def split: list.splits)

lemma read_blob_stack [simp]: "read_blob b (snd (stack_take_next s)) = read_blob b s"
  by (simp add: read_blob_def)

lemma paste_content_stack [simp]: "paste_content i (snd (stack_take_next s)) = paste_content i s"
proof -
  have "row_payload r (snd (stack_take_next s)) = row_payload r s" for r
    by (simp add: row_payload_def split: option.split)
  then have "get_payload i (snd (stack_take_next s)) = get_payload i s"
    by (simp add: get_payload_def split: option.split)
  then show ?thesis by (simp add: paste_content_def)
qed

definition to_paste :: "clip_module \<Rightarrow> (string + clip_content) list" where
  "to_paste m = map (\<lambda>i. paste_content i (cm_store m)) (stack_list (cm_store m))"

definition pasted :: "clip_module \<Rightarrow> (string + clip_content) list" where
  "pasted m = map Inr (cm_written m)"

lemma deliver_begin_Some:
  "deliver_begin m = Inr (Some (i, c)) \<Longrightarrow> (\<exists>is. stack_list (cm_store m) = i # is) \<and> paste_content i (cm_store m) = c"
  by (auto simp: deliver_begin_def split: list.splits sum.splits if_splits)

lemma deliver_end_effect:
  assumes ok: "clip_ok sha (cm_store m)" and b: "deliver_begin m = Inr (Some (i, Inr c))"
    and e: "deliver_end ports i c m = (d, m')"
  shows "clip_ok sha (cm_store m') \<and> pasted m' @ to_paste m' = pasted m @ to_paste m \<and>
    (snd d \<longrightarrow> length (pasted m') = Suc (length (pasted m)))"
proof -
  obtain rest where q: "stack_list (cm_store m) = i # rest" and c: "paste_content i (cm_store m) = Inr c"
    using deliver_begin_Some [OF b] by blast
  have "stack_list (snd (stack_take_next (cm_store m))) = rest" using stack_take_next_list(2) [OF ok] q by simp
  then show ?thesis
    using e q c stack_take_next_ok [OF ok] ok
    by (auto simp: deliver_end_def Let_def to_paste_def pasted_def split: if_splits)
qed

lemma deliver_head_cases:
  assumes "clip_ok sha (cm_store m)" "stack_deliver_head ports m = (r, m')"
  shows "clip_ok sha (cm_store m') \<and> pasted m' @ to_paste m' = pasted m @ to_paste m"
    and "r = Inr None \<Longrightarrow> to_paste m' = []"
    and "r = Inr (Some (i, True)) \<Longrightarrow> length (pasted m') = Suc (length (pasted m))"
  using assms deliver_end_effect [OF assms(1)]
  by (auto simp: stack_deliver_head_def deliver_begin_def to_paste_def Let_def
      split: list.splits sum.splits option.splits prod.splits if_splits)

interpretation paste: delivery to_paste pasted "\<lambda>m. clip_ok sha (cm_store m)" "stack_deliver_head ports" for sha ports
  by unfold_locales (use deliver_head_cases in blast)+

text \<open>The loop is a run of deliveries and the one that ends it.\<close>

lemma paste_loop_run:
  "paste_loop ports d m = (r, m') \<Longrightarrow>
   \<exists>n m1 x. delivery.run (stack_deliver_head ports) m n m1 \<and> stack_deliver_head ports m1 = (x, m') \<and>
     ((\<exists>e. x = Inl e \<and> r = Inl e) \<or> (x = Inr None \<and> r = Inr (d + n, 0)) \<or>
      (\<exists>i. x = Inr (Some (i, False)) \<and> r = Inr (d + n, 1)))"
proof (induction "length (cs_stack (cm_store m))" arbitrary: d m r m' rule: less_induct)
  case less
  obtain x m1 where x: "stack_deliver_head ports m = (x, m1)" by fastforce
  have nil: "delivery.run (stack_deliver_head ports) m 0 m" by (rule paste.run_nil)
  consider (err) e where "x = Inl e" | (none) "x = Inr None" | (more) i where "x = Inr (Some (i, True))"
    | (fail) i where "x = Inr (Some (i, False))"
    by (cases x) (auto split: option.splits, metis (full_types) option.exhaust surj_pair)
  then show ?case
  proof cases
    case more
    then have "paste_loop ports (Suc d) m1 = (r, m')" using less.prems x by (simp add: paste_loop.simps [of ports d m])
    from less.hyps [OF delivered_shorter [OF x [unfolded more]] this] obtain n m2 y where
      n: "delivery.run (stack_deliver_head ports) m1 n m2" "stack_deliver_head ports m2 = (y, m')"
      and y: "(\<exists>e. y = Inl e \<and> r = Inl e) \<or> (y = Inr None \<and> r = Inr (Suc d + n, 0)) \<or>
        (\<exists>i. y = Inr (Some (i, False)) \<and> r = Inr (Suc d + n, 1))"
      by blast
    have "delivery.run (stack_deliver_head ports) m (Suc n) m2" using paste.run_Cons [OF n(1)] x more by blast
    with n(2) y show ?thesis by (intro exI [of _ "Suc n"] exI [of _ m2] exI [of _ y]) auto
  qed (use less.prems x nil in \<open>intro exI [of _ 0] exI [of _ m] exI [of _ x], simp add: paste_loop.simps [of ports d m]\<close>)+
qed

text \<open>C25. Pasting the whole stack loses nothing, repeats nothing and keeps the order, whatever the clipboard and the
  injection of keys do: what was written, followed by what still waits, is always what was
  written before followed by what waited before.  When no delivery failed the report counts every
  entry and the stack is empty.\<close>

theorem paste_all_loses_nothing:
  assumes "clip_reach sha (cm_store m)" and "stack_paste_all ports m = (r, m')"
  shows "pasted m' @ to_paste m' = pasted m @ to_paste m \<and>
    (case r of Inl e \<Rightarrow> True
     | Inr rep \<Rightarrow> pr_remaining rep = length (to_paste m') \<and>
         (if pr_failed rep = 0 then pr_delivered rep = length (to_paste m) \<and> to_paste m' = [] else pr_failed rep = 1))"
proof -
  have ok: "clip_ok sha (cm_store m)" by (rule clip_reach_ok [OF assms(1)])
  obtain x where l: "paste_loop ports 0 m = (x, m')"
    and r: "r = res_bind x (\<lambda>(d, f). Inr \<lparr>pr_delivered = d, pr_failed = f, pr_remaining = length (stack_list (cm_store m'))\<rparr>)"
    using assms(2) by (auto simp: stack_paste_all_def Let_def split: prod.splits)
  obtain n m1 y where n: "delivery.run (stack_deliver_head ports) m n m1" "stack_deliver_head ports m1 = (y, m')"
    and y: "(\<exists>e. y = Inl e \<and> x = Inl e) \<or> (y = Inr None \<and> x = Inr (n, 0)) \<or> (\<exists>i. y = Inr (Some (i, False)) \<and> x = Inr (n, 1))"
    using paste_loop_run [OF l] by auto
  have ok1: "clip_ok sha (cm_store m1)" and e1: "pasted m1 @ to_paste m1 = pasted m @ to_paste m"
    using paste.run_conserve [OF n(1) ok] by auto
  have "pasted m' @ to_paste m' = pasted m @ to_paste m" using paste.conserve [OF ok1 n(2)] e1 by simp
  moreover have "n = length (to_paste m) \<and> to_paste m' = []" if "y = Inr None"
  proof -
    have none: "stack_deliver_head ports m1 = (Inr None, m')" using n(2) that by simp
    then have "m' = m1" by (auto simp: stack_deliver_head_def Let_def split: list.splits sum.splits option.splits prod.splits)
    moreover have "to_paste m' = []" by (rule paste.drained [OF ok1 none])
    ultimately show ?thesis using paste.run_sent(2) [OF n(1) ok] paste.run_count [OF n(1) ok] e1 by simp
  qed
  ultimately show ?thesis using r y by (auto simp: to_paste_def)
qed

definition open_ports :: paste_ports where
  "open_ports = \<lparr>port_write = (\<lambda>_. True), port_inject = (\<lambda>_. True)\<rparr>"

definition module_on :: "clip_store \<Rightarrow> clip_module" where
  "module_on s = \<lparr>cm_store = s, cm_written = [], cm_calls = 0\<rparr>"

lemma stacked_eq:
  "stacked = two_clips\<lparr>cs_stack := [\<lparr>sr_id = 1, sr_entry = ''a'', sr_pos = 1\<rparr>, \<lparr>sr_id = 2, sr_entry = ''b'', sr_pos = 2\<rparr>], cs_next := 3\<rparr>"
  by (simp add: stacked_def two_clips_eq stack_push_def row_of_def next_position_def)

lemma stacked_list: "stack_list stacked = [''a'', ''b'']"
  by (simp add: stacked_eq stack_list_def in_order_def)

lemma stacked_content: "paste_content ''a'' stacked = Inr (CText ''alpha'' None)" "paste_content ''b'' stacked = Inr (CText ''beta'' None)"
  by (simp_all add: stacked_eq two_clips_eq paste_content_def get_payload_def row_of_def row_payload_def)

theorem paste_all_loses_nothing_witness:
  "pasted (snd (stack_paste_all open_ports (module_on stacked))) @ to_paste (snd (stack_paste_all open_ports (module_on stacked))) =
     [Inr (CText ''alpha'' None), Inr (CText ''beta'' None)]"
  using paste_all_loses_nothing [OF _ prod.collapse [symmetric], of plain_sha "module_on stacked" open_ports] stacked_reach
  by (simp add: module_on_def pasted_def to_paste_def stacked_list stacked_content)

section \<open>Two deliveries at once\<close>

text \<open>Two deliveries that look at the head at the same time both paste the same entry, and each takes one off:
  the second entry leaves the stack without ever having been pasted.\<close>

lemma parallel_deliveries_drop_entry:
  assumes "clip_reach sha (cm_store m)" and "deliver_begin m = Inr (Some (i, Inr c))"
    and "stack_list (cm_store m) = i # j # rest"
    and "port_write ports (cm_calls m)" and "port_write ports (Suc (cm_calls m))"
    and "m' = snd (deliver_end ports i c (snd (deliver_end ports i c m)))"
  shows "cm_written m' = cm_written m @ [c, c] \<and> stack_list (cm_store m') = rest"
proof -
  define m1 where "m1 = snd (deliver_end ports i c m)"
  have ok: "clip_ok sha (cm_store m)" by (rule clip_reach_ok [OF assms(1)])
  have m1: "cm_written m1 = cm_written m @ [c]" "cm_store m1 = snd (stack_take_next (cm_store m))" "cm_calls m1 = Suc (cm_calls m)"
    using assms(4) by (simp_all add: m1_def deliver_end_def Let_def)
  have ok1: "clip_ok sha (cm_store m1)" using m1(2) stack_take_next_ok [OF ok] by simp
  have "stack_list (cm_store m1) = j # rest" using m1(2) stack_take_next_list(2) [OF ok] assms(3) by simp
  moreover have m': "m' = snd (deliver_end ports i c m1)" unfolding m1_def by (rule assms(6))
  ultimately have "stack_list (cm_store m') = rest"
    using assms(5) stack_take_next_list(2) [OF ok1] m1(3) by (simp add: deliver_end_def Let_def)
  moreover have "cm_written m' = cm_written m @ [c, c]"
    using m' assms(5) m1(1,3) by (simp add: deliver_end_def Let_def)
  ultimately show ?thesis by simp
qed

lemma parallel_deliveries_drop_entry_witness:
  "cm_written (snd (deliver_end open_ports ''a'' (CText ''alpha'' None)
       (snd (deliver_end open_ports ''a'' (CText ''alpha'' None) (module_on stacked))))) =
     [CText ''alpha'' None, CText ''alpha'' None]"
proof -
  have "deliver_begin (module_on stacked) = Inr (Some (''a'', Inr (CText ''alpha'' None)))"
    by (simp add: deliver_begin_def module_on_def stacked_list stacked_content)
  then show ?thesis
    using parallel_deliveries_drop_entry [OF _ _ _ _ _ refl, of plain_sha "module_on stacked" "''a''" "CText ''alpha'' None" "''b''" "[]" open_ports]
      stacked_reach
    by (simp add: module_on_def stacked_list open_ports_def)
qed

section \<open>A deletion and a capture of the same text\<close>

text \<open>\<open>delete\<close> gives the lock of the table back before it removes the file.  A long text that is copied
  again in between gets a new entry and, its file being named after its content, the same file;
  then the deletion goes on and takes the file, and the new entry cannot be read.\<close>

lemma deletion_takes_recopied_file:
  assumes "clip_reach sha s" and "row_of j s = Some q"
    and "ce_blob q = Some (content_hash sha (nc_text c) @ ''.txt'')"
    and "blob_threshold < length (nc_text c)" and "\<not> nc_secret c" and "new_id cl s" and "cl_write cl = Wrote"
    and "s' = remove_blob Removed False (content_hash sha (nc_text c) @ ''.txt'') (snd (insert_row sha cl c (snd (drop_row j s))))"
  shows "row_of (cl_uuid cl) s' \<noteq> None \<and> get_payload (cl_uuid cl) s' = Inl ''CLIPBOARD_STORAGE_002''"
proof -
  define hash where "hash = content_hash sha (nc_text c)"
  define s1 where "s1 = drop_rows (\<lambda>r. ce_id r = j) s"
  have ok: "clip_ok sha s" by (rule clip_reach_ok [OF assms(1)])
  have q: "q \<in> set (cs_rows s)" "ce_id q = j" using row_of_set [OF assms(2)] by auto
  have "ce_hash q = hash"
    using row_ok_blob [of sha "cs_blobs s" q hash "''txt''"] ok q(1) assms(3) by (simp add: clip_ok_def hash_def content_hash_def)
  then have "hash \<notin> ce_hash ` set (cs_rows s1)"
    using ok q by (auto simp: s1_def drop_rows_def clip_ok_def distinct_map dest: inj_onD)
  then have e: "existing hash s1 = None" by (simp add: existing_None)
  have new: "row_of (cl_uuid cl) s1 = None"
    using assms(6) by (auto simp: row_of_None s1_def drop_rows_def new_id_def)
  define r where "r = text_row cl c hash (text_preview (nc_text c)) (Some (hash @ ''.txt''))"
  have "snd (insert_row sha cl c s1) = add_row r (s1\<lparr>cs_blobs := (cs_blobs s1)(hash @ ''.txt'' \<mapsto> str_bytes (nc_text c))\<rparr>)"
    using e assms(4,5,7) by (simp add: insert_row_def hash_def [symmetric] Let_def write_blob_def r_def)
  then have s': "s' = add_row r (s1\<lparr>cs_blobs := (cs_blobs s1)(hash @ ''.txt'' := None)\<rparr>)"
    unfolding assms(8) by (simp add: drop_row_def s1_def [symmetric] hash_def [symmetric] remove_blob_def add_row_def)
  have row: "row_of (cl_uuid cl) s' = Some r"
    using new by (simp add: s' row_of_add) (simp add: row_of_def r_def text_row_def blank_row_def)
  moreover have "read_blob (hash @ ''.txt'') s' = Inl ''CLIPBOARD_STORAGE_002''" by (simp add: read_blob_def s' add_row_def)
  ultimately show ?thesis
    by (simp add: get_payload_def row_payload_def r_def text_row_def blank_row_def)
qed

definition long_text :: string where "long_text = replicate 65537 CHR ''x''"

definition one_long :: clip_store where
  "one_long = clip_exec plain_sha (OpInsert (at 10 ''a'') (clip_of long_text)) clip_open"

lemma one_long_eq:
  "one_long = \<lparr>cs_rows = [text_row (at 10 ''a'') (clip_of long_text) (content_hash plain_sha long_text) (text_preview long_text)
       (Some (content_hash plain_sha long_text @ ''.txt''))], cs_stack = [], cs_next = 1,
     cs_blobs = [content_hash plain_sha long_text @ ''.txt'' \<mapsto> str_bytes long_text]\<rparr>"
proof -
  have "existing (content_hash plain_sha long_text) clip_open = None" by (simp add: existing_None clip_open_def)
  moreover have "blob_threshold < length long_text" by (simp add: long_text_def blob_threshold_def)
  ultimately show ?thesis
    by (simp add: one_long_def insert_row_def Let_def write_blob_def at_def add_row_def)
       (simp add: clip_open_def fun_eq_iff)
qed

lemma deletion_takes_recopied_file_witness:
  "get_payload ''b'' (remove_blob Removed False (content_hash plain_sha long_text @ ''.txt'')
     (snd (insert_row plain_sha (at 20 ''b'') (clip_of long_text) (snd (drop_row ''a'' one_long))))) = Inl ''CLIPBOARD_STORAGE_002''"
proof -
  have r: "clip_reach plain_sha one_long"
    unfolding one_long_def by (intro clip_next clip_start) (simp add: clip_open_def)
  have q: "row_of ''a'' one_long = Some (hd (cs_rows one_long))"
    by (simp add: one_long_eq row_of_def text_row_def blank_row_def at_def)
  have "new_id (at 20 ''b'') one_long" by (simp add: one_long_eq text_row_def blank_row_def) (simp add: at_def)
  then show ?thesis
    using deletion_takes_recopied_file [OF r q _ _ _ _ _ refl, of "clip_of long_text" "at 20 ''b''"]
    by (simp add: one_long_eq text_row_def blank_row_def) (simp add: at_def long_text_def blob_threshold_def)
qed

section \<open>Entries of another kind\<close>

text \<open>A list of files whose paths are a text of the history is not recorded: the text is refreshed, and
  pasting the entry pastes the text.\<close>

lemma files_paste_as_text:
  assumes "clip_ok sha s" "inj sha" "r \<in> set (cs_rows s)" "ce_type r = ''text''" "\<not> ce_secret r"
    "ce_hash r = content_hash sha (join_with [CHR 0x0A] paths)"
    "insert_files sha cl paths source origin s = (x, s')"
  shows "x = Inr (ce_id r) \<and> paste_content (ce_id r) s' = Inr (CText (join_with [CHR 0x0A] paths) None)"
proof -
  define t where "t = join_with [CHR 0x0A] paths"
  have "content_hash sha t \<in> ce_hash ` set (cs_rows s)" using imageI [OF assms(3), of ce_hash] assms(6) by (simp add: t_def)
  then obtain i where e: "existing (content_hash sha t) s = Some i"
    using existing_None [of "content_hash sha t" s] by auto
  then obtain q where q: "q \<in> set (cs_rows s)" "ce_id q = i" "ce_hash q = content_hash sha t" using existing_Some by blast
  have "inj_on ce_hash (set (cs_rows s))" using assms(1) by (simp add: clip_ok_def distinct_map)
  then have "q = r" using q(1,3) assms(3,6) unfolding t_def by (metis inj_onD)
  with q(2) have i: "i = ce_id r" by simp
  have x: "x = Inr i" "s' = upd_row i (refresh_row (cl_now cl) origin) s"
    using assms(7) e by (simp_all add: insert_files_def insert_typed_def t_def [symmetric])
  have ok': "clip_ok sha s'" unfolding x(2) by (rule upd_row_ok [OF assms(1)]) simp
  have "refresh_row (cl_now cl) origin r \<in> set (cs_rows s')" using assms(3) i by (auto simp: x(2) upd_row_def)
  then have row: "row_of i s' = Some (refresh_row (cl_now cl) origin r)" using row_of_iff [OF ok'] i by simp
  obtain p where p: "get_payload i s' = Inr (Some p)" "content_hash_bytes sha (payload_bytes p) = content_hash sha t"
    using row_readable [OF ok' row] assms(4,6) by (auto simp: refresh_row_def t_def)
  have "payload_bytes p = str_bytes t"
    using p(2) assms(2) unfolding content_hash_def content_hash_bytes_def by (metis hex_lower_inj injD)
  moreover have "\<exists>u. p = PText u"
    using p(1) row assms(4,5)
    by (auto simp: get_payload_def row_payload_def refresh_row_def read_blob_def res_bind_eq_Inr split: option.splits)
  ultimately show ?thesis using p(1) x(1) i by (auto simp: paste_content_def t_def)
qed

text \<open>The store's own reading of a secret decrypts it only while it is short: a long one comes back as the
  ciphertext.  (The module asks the payload first and refuses.)\<close>

lemma long_secret_not_opened:
  assumes "blob_threshold < length b64" "cl_write cl = Wrote" "new_id cl s"
    "insert_encrypted sha cl b64 grp sugg source origin s = (Inr i, s')"
  shows "get_content unb64 unprotect i s' = Inr (Some b64)"
proof -
  have new: "row_of (cl_uuid cl) s = None" using assms(3) by (simp add: row_of_None new_id_def)
  then have "row_of (cl_uuid cl) (s\<lparr>cs_blobs := B\<rparr>) = None" for B by (simp add: row_of_def)
  then show ?thesis
    using assms
    by (auto simp: insert_encrypted_def Let_def write_blob_def get_content_def row_of_add read_blob_def)
       (auto simp: text_row_def blank_row_def add_row_def read_blob_def)
qed

end
