(* ===== verification/Clip_Backup.thy ===== *)
theory Clip_Backup
  imports Clip_Module "HOL-Library.Countable"
begin

text \<open>
  The encrypted backup of the clipboard history (\<open>clipboard-core/src/backup.rs\<close>, \<open>export_backup\<close> and
  \<open>import_backup\<close> of \<open>module.rs\<close>, \<open>all_for_export\<close> and \<open>import_rows\<close> of \<open>store.rs\<close>).  Key derivation, the
  cipher and the JSON codecs are parameters with the laws of \<open>backup_laws\<close>; a derivation that is
  refused is \<open>None\<close>, which the code turns into a panic.  Each row of an import has a call of its own.
\<close>

section \<open>Backup files\<close>

record backup_row =
  br_type :: string
  br_text :: string
  br_html :: "string option"
  br_group :: "string option"
  br_secret :: bool
  br_secret_b64 :: "string option"
  br_source :: "string option"
  br_created :: int
  br_pinned :: bool

record export_meta =
  em_entries :: nat
  em_secrets :: nat
  em_images_skipped :: nat
  em_exported_at :: int

record envelope =
  ev_schema :: nat
  ev_algo :: string
  ev_m_kib :: nat
  ev_t_cost :: nat
  ev_p_cost :: nat
  ev_salt :: string
  ev_nonce :: string
  ev_ct :: string
  ev_meta :: export_meta

record import_report =
  ir_imported :: nat
  ir_duplicates :: nat
  ir_secrets :: nat
  ir_images_skipped :: nat

record backup_port =
  bp_kdf :: "string \<Rightarrow> bytes \<Rightarrow> nat \<Rightarrow> nat \<Rightarrow> nat \<Rightarrow> bytes option"
  bp_seal :: "bytes \<Rightarrow> bytes \<Rightarrow> bytes \<Rightarrow> bytes \<Rightarrow> bytes"
  bp_open :: "bytes \<Rightarrow> bytes \<Rightarrow> bytes \<Rightarrow> bytes \<Rightarrow> bytes option"
  bp_rows :: "backup_row list \<Rightarrow> bytes"
  bp_unrows :: "bytes \<Rightarrow> backup_row list option"
  bp_file :: "envelope \<Rightarrow> bytes"
  bp_unfile :: "bytes \<Rightarrow> envelope option"

datatype backup_error = Refused string | Panic

definition export_schema :: nat where "export_schema = 1"
definition export_aad :: bytes where "export_aad = str_bytes ''NFX-CLIP-EXPORT-1''"
definition min_passphrase :: nat where "min_passphrase = 8"
definition backup_nonce_len :: nat where "backup_nonce_len = 12"
definition salt_len :: nat where "salt_len = 16"
definition export_m_kib :: nat where "export_m_kib = 65536"
definition export_t_cost :: nat where "export_t_cost = 3"
definition export_p_cost :: nat where "export_p_cost = 4"

definition check_export_passphrase :: "string \<Rightarrow> bool \<Rightarrow> string + unit" where
  "check_export_passphrase pass include_secrets =
     (if \<not> include_secrets then Inr ()
      else if min_passphrase \<le> length (chars_of pass) then Inr ()
      else Inl ''CLIPBOARD_EXPORT_001'')"

definition seal_with :: "backup_port \<Rightarrow> clip_crypto \<Rightarrow> bytes \<Rightarrow> string \<Rightarrow> bytes \<Rightarrow> bytes \<Rightarrow> export_meta \<Rightarrow> backup_error + envelope" where
  "seal_with b c json pass salt nonce meta =
     (case bp_kdf b pass salt export_m_kib export_t_cost export_p_cost of
        None \<Rightarrow> Inl Panic
      | Some key \<Rightarrow>
          Inr \<lparr>ev_schema = export_schema, ev_algo = ''argon2id'', ev_m_kib = export_m_kib, ev_t_cost = export_t_cost,
               ev_p_cost = export_p_cost, ev_salt = cc_b64 c salt, ev_nonce = cc_b64 c nonce,
               ev_ct = cc_b64 c (bp_seal b key nonce export_aad json), ev_meta = meta\<rparr>)"

definition decode_envelope :: "backup_port \<Rightarrow> bytes \<Rightarrow> backup_error + envelope" where
  "decode_envelope b raw =
     res_bind (ok_or (Refused ''CLIPBOARD_IMPORT_003'') (bp_unfile b raw)) (\<lambda>env.
       if ev_schema env \<noteq> export_schema then Inl (Refused ''CLIPBOARD_IMPORT_003'')
       else if ev_algo env \<noteq> ''argon2id'' then Inl (Refused ''CLIPBOARD_IMPORT_003'')
       else Inr env)"

definition decrypt_backup :: "backup_port \<Rightarrow> clip_crypto \<Rightarrow> envelope \<Rightarrow> string \<Rightarrow> backup_error + bytes" where
  "decrypt_backup b c env pass =
     res_bind (ok_or (Refused ''CLIPBOARD_IMPORT_003'') (cc_unb64 c (ev_salt env))) (\<lambda>salt.
     res_bind (ok_or (Refused ''CLIPBOARD_IMPORT_003'') (cc_unb64 c (ev_nonce env))) (\<lambda>nonce.
     res_bind (ok_or (Refused ''CLIPBOARD_IMPORT_003'') (cc_unb64 c (ev_ct env))) (\<lambda>ct.
       if length nonce \<noteq> backup_nonce_len then Inl (Refused ''CLIPBOARD_IMPORT_003'')
       else
         (case bp_kdf b pass salt (ev_m_kib env) (ev_t_cost env) (ev_p_cost env) of
            None \<Rightarrow> Inl Panic
          | Some key \<Rightarrow> ok_or (Refused ''CLIPBOARD_IMPORT_001'') (bp_open b key nonce export_aad ct)))))"

section \<open>Exporting\<close>

definition exportable :: "clip_row \<Rightarrow> bool" where
  "exportable r \<longleftrightarrow> ce_blob r = None \<and> ce_type r \<noteq> ''image''"

definition export_row :: "clip_crypto \<Rightarrow> clip_row \<Rightarrow> string + backup_row" where
  "export_row c r =
     (let out = (\<lambda>t sec. \<lparr>br_type = ce_type r, br_text = t, br_html = ce_html r, br_group = ce_group r, br_secret = ce_secret r,
                   br_secret_b64 = sec, br_source = ce_source r, br_created = ce_created r, br_pinned = ce_pinned r\<rparr>);
          content = unwrap_or [] (ce_content r)
      in if \<not> ce_secret r then Inr (out content None)
         else
           res_bind (ok_or ''CLIPBOARD_EXPORT_002'' (cc_unb64 c content)) (\<lambda>cipher.
             case cc_unprotect c cipher of
               Inl e \<Rightarrow> Inl ''CLIPBOARD_EXPORT_002''
             | Inr plain \<Rightarrow> Inr (out [] (Some (cc_b64 c plain)))))"

fun export_rows :: "clip_crypto \<Rightarrow> bool \<Rightarrow> clip_row list \<Rightarrow> string + backup_row list \<times> nat" where
  "export_rows c secrets [] = Inr ([], 0)"
| "export_rows c secrets (r # rs) =
     (if \<not> exportable r then res_bind (export_rows c secrets rs) (\<lambda>(bs, n). Inr (bs, Suc n))
      else if ce_secret r \<and> \<not> secrets then export_rows c secrets rs
      else
        res_bind (export_row c r) (\<lambda>b.
        res_bind (export_rows c secrets rs) (\<lambda>(bs, n). Inr (b # bs, n))))"

definition all_for_export :: "clip_store \<Rightarrow> clip_row list" where
  "all_for_export s = newest_first (cs_rows s)"

definition export_backup ::
    "backup_port \<Rightarrow> clip_crypto \<Rightarrow> string \<Rightarrow> bool \<Rightarrow> int \<Rightarrow> bytes \<Rightarrow> bytes \<Rightarrow> clip_store \<Rightarrow> backup_error + bytes \<times> export_meta" where
  "export_backup b c pass secrets now salt nonce s =
     (case check_export_passphrase pass secrets of
        Inl e \<Rightarrow> Inl (Refused e)
      | Inr _ \<Rightarrow>
          (case export_rows c secrets (all_for_export s) of
             Inl e \<Rightarrow> Inl (Refused e)
           | Inr (rows, skipped) \<Rightarrow>
               (let meta = \<lparr>em_entries = length rows, em_secrets = length (filter br_secret rows), em_images_skipped = skipped,
                            em_exported_at = max 0 now\<rparr>
                in res_bind (seal_with b c (bp_rows b rows) pass salt nonce meta) (\<lambda>env. Inr (bp_file b env, meta)))))"

section \<open>Importing\<close>

definition bump :: "bool \<Rightarrow> nat \<Rightarrow> nat" where "bump p n = (if p then Suc n else n)"

definition import_row ::
    "(bytes \<Rightarrow> bytes) \<Rightarrow> clip_crypto \<Rightarrow> clip_call \<Rightarrow> backup_row \<Rightarrow> import_report \<times> clip_store \<Rightarrow> (string + import_report) \<times> clip_store" where
  "import_row sha c cl br st =
     (case st of (rep, s) \<Rightarrow>
        if br_type br = ''image'' then (Inr (rep\<lparr>ir_images_skipped := Suc (ir_images_skipped rep)\<rparr>), s)
        else
          (let fresh = (br_secret br \<or> existing (content_hash sha (br_text br)) s = None);
               (r, s1) =
                 (if br_secret br then
                    (case br_secret_b64 br of
                       None \<Rightarrow> (Inl ''CLIPBOARD_IMPORT_003'', s)
                     | Some x \<Rightarrow>
                         (case cc_unb64 c x of
                            None \<Rightarrow> (Inl ''CLIPBOARD_IMPORT_003'', s)
                          | Some plain \<Rightarrow>
                              (case cc_protect c (cl_rand cl) plain of
                                 Inl e \<Rightarrow> (Inl ''CLIPBOARD_IMPORT_004'', s)
                               | Inr cipher \<Rightarrow>
                                   insert_encrypted sha cl (cc_b64 c cipher) (br_group br) None (br_source br) ''local'' s)))
                  else if br_type br = ''files'' then insert_typed sha cl (br_text br) ''files'' (br_source br) ''local'' s
                  else
                    insert_row sha cl ((clip_of (br_text br))\<lparr>nc_group := br_group br, nc_source := br_source br, nc_html := br_html br\<rparr>) s)
           in case r of
                Inl e \<Rightarrow> (Inl e, s1)
              | Inr i \<Rightarrow>
                  (Inr (rep\<lparr>ir_duplicates := bump (\<not> fresh) (ir_duplicates rep), ir_imported := bump fresh (ir_imported rep),
                            ir_secrets := bump (br_secret br) (ir_secrets rep)\<rparr>),
                   if br_pinned br then pin_entry i True s1 else s1)))"

fun import_loop ::
    "(bytes \<Rightarrow> bytes) \<Rightarrow> clip_crypto \<Rightarrow> (backup_row \<times> clip_call) list \<Rightarrow> import_report \<times> clip_store \<Rightarrow> (string + import_report) \<times> clip_store" where
  "import_loop sha c [] (rep, s) = (Inr rep, s)"
| "import_loop sha c ((br, cl) # items) (rep, s) =
     (case import_row sha c cl br (rep, s) of
        (Inl e, s1) \<Rightarrow> (Inl e, s1)
      | (Inr rep1, s1) \<Rightarrow> import_loop sha c items (rep1, s1))"

definition empty_report :: import_report where
  "empty_report = \<lparr>ir_imported = 0, ir_duplicates = 0, ir_secrets = 0, ir_images_skipped = 0\<rparr>"

text \<open>One transaction: after an error the tables are as before; files already written stay.\<close>

definition import_rows ::
    "(bytes \<Rightarrow> bytes) \<Rightarrow> clip_crypto \<Rightarrow> (backup_row \<times> clip_call) list \<Rightarrow> clip_store \<Rightarrow> (string + import_report) \<times> clip_store" where
  "import_rows sha c items s =
     (case import_loop sha c items (empty_report, s) of
        (Inl e, s1) \<Rightarrow> (Inl e, s\<lparr>cs_blobs := cs_blobs s1\<rparr>)
      | (Inr rep, s1) \<Rightarrow> (Inr rep, s1))"

definition import_backup ::
    "(bytes \<Rightarrow> bytes) \<Rightarrow> backup_port \<Rightarrow> clip_crypto \<Rightarrow> string \<Rightarrow> clip_call list \<Rightarrow> bytes option \<Rightarrow> clip_store \<Rightarrow>
     (backup_error + import_report) \<times> clip_store" where
  "import_backup sha b c pass calls file s =
     (case file of
        None \<Rightarrow> (Inl (Refused ''CLIPBOARD_IMPORT_002''), s)
      | Some raw \<Rightarrow>
          (case res_bind (decode_envelope b raw) (\<lambda>env.
                res_bind (decrypt_backup b c env pass) (\<lambda>json.
                res_bind (ok_or (Refused ''CLIPBOARD_IMPORT_003'') (bp_unrows b json)) (\<lambda>rows.
                  if em_entries (ev_meta env) \<noteq> length rows then Inl (Refused ''CLIPBOARD_IMPORT_003'') else Inr rows))) of
             Inl e \<Rightarrow> (Inl e, s)
           | Inr rows \<Rightarrow>
               (case import_rows sha c (zip rows calls) s of
                  (Inl e, s') \<Rightarrow> (Inl (Refused e), s')
                | (Inr rep, s') \<Rightarrow> (Inr rep, s'))))"

section \<open>What an import puts in the place of a row\<close>

definition sealed_text :: "clip_crypto \<Rightarrow> clip_call \<Rightarrow> backup_row \<Rightarrow> string option" where
  "sealed_text c cl br =
     Option.bind (br_secret_b64 br) (\<lambda>x. Option.bind (cc_unb64 c x) (\<lambda>plain.
       case cc_protect c (cl_rand cl) plain of Inl e \<Rightarrow> None | Inr cipher \<Rightarrow> Some (cc_b64 c cipher)))"

definition restored :: "(bytes \<Rightarrow> bytes) \<Rightarrow> clip_crypto \<Rightarrow> backup_row \<Rightarrow> clip_call \<Rightarrow> clip_row" where
  "restored sha c br cl =
     (if br_secret br then
        (let b64 = unwrap_or [] (sealed_text c cl br)
         in text_row cl ((clip_of b64)\<lparr>nc_group := br_group br, nc_secret := True, nc_source := br_source br\<rparr>)
              (content_hash sha b64) b64 None)
      else if br_type br = ''files'' then
        (blank_row cl ''files'' (content_hash sha (br_text br)))\<lparr>ce_content := Some (br_text br), ce_source := br_source br\<rparr>
      else
        text_row cl ((clip_of (br_text br))\<lparr>nc_group := br_group br, nc_source := br_source br, nc_html := br_html br\<rparr>)
          (content_hash sha (br_text br)) (br_text br) None)\<lparr>ce_pinned := br_pinned br\<rparr>"

text \<open>What the randomness of an import has to give: new identifiers, and ciphertexts that are short enough
  for the table and hash like nothing else.\<close>

fun import_fresh :: "(bytes \<Rightarrow> bytes) \<Rightarrow> clip_crypto \<Rightarrow> string set \<Rightarrow> (backup_row \<times> clip_call) list \<Rightarrow> clip_store \<Rightarrow> bool" where
  "import_fresh sha c T [] s = True"
| "import_fresh sha c T ((br, cl) # items) s =
     (new_id cl s \<and>
      (if br_secret br then
         (case sealed_text c cl br of
            None \<Rightarrow> False
          | Some b64 \<Rightarrow> length b64 \<le> blob_threshold \<and> content_hash sha b64 \<notin> T \<and> content_hash sha b64 \<notin> ce_hash ` set (cs_rows s))
       else True) \<and>
      import_fresh sha c T items (add_row (restored sha c br cl) s))"

lemma pin_added:
  "cl_uuid cl \<notin> ids s \<Longrightarrow> ce_id r = cl_uuid cl \<Longrightarrow> pin_entry (cl_uuid cl) True (add_row r s) = add_row (r\<lparr>ce_pinned := True\<rparr>) s"
proof -
  assume new: "cl_uuid cl \<notin> ids s" and r: "ce_id r = cl_uuid cl"
  have "map (\<lambda>r. if ce_id r = cl_uuid cl then r\<lparr>ce_pinned := True\<rparr> else r) (cs_rows s) = cs_rows s"
    using new by (intro map_idI) (metis imageI)
  with r show ?thesis by (simp add: pin_entry_def upd_row_def add_row_def)
qed

lemma unpinned_rows [simp]: "(text_row cl n hash content blob)\<lparr>ce_pinned := False\<rparr> = text_row cl n hash content blob"
  "(blank_row cl ty hash)\<lparr>ce_content := x, ce_pinned := False, ce_source := y\<rparr> = (blank_row cl ty hash)\<lparr>ce_content := x, ce_source := y\<rparr>"
  "(blank_row cl ty hash)\<lparr>ce_content := x, ce_origin := ''local'', ce_source := y\<rparr> = (blank_row cl ty hash)\<lparr>ce_content := x, ce_source := y\<rparr>"
  by (simp_all add: text_row_def blank_row_def)

lemma restored_id [simp]: "ce_id (restored sha c br cl) = cl_uuid cl"
  by (simp add: restored_def text_row_def blank_row_def Let_def)

lemma restored_hash:
  "ce_hash (restored sha c br cl) =
     content_hash sha (if br_secret br then unwrap_or [] (sealed_text c cl br) else br_text br)"
  by (simp add: restored_def text_row_def blank_row_def Let_def)

text \<open>One row.\<close>

lemma import_row_restores:
  assumes "br_type br \<noteq> ''image''" "new_id cl s"
    and "br_secret br \<Longrightarrow> \<exists>b64. sealed_text c cl br = Some b64 \<and> length b64 \<le> blob_threshold"
    and "\<not> br_secret br \<Longrightarrow> existing (content_hash sha (br_text br)) s = None \<and> (br_type br = ''files'' \<or> length (br_text br) \<le> blob_threshold)"
  shows "import_row sha c cl br (rep, s) =
    (Inr (rep\<lparr>ir_imported := Suc (ir_imported rep), ir_secrets := bump (br_secret br) (ir_secrets rep)\<rparr>),
     add_row (restored sha c br cl) s)"
proof -
  have new: "cl_uuid cl \<notin> ids s" using assms(2) by (simp add: new_id_def)
  show ?thesis
  proof (cases "br_secret br")
    case True
    then obtain b64 where b: "sealed_text c cl br = Some b64" "length b64 \<le> blob_threshold" using assms(3) by blast
    then obtain x plain where "br_secret_b64 br = Some x" "cc_unb64 c x = Some plain"
      by (auto simp: sealed_text_def Option.bind_eq_Some_conv)
    moreover from this b obtain cipher where "cc_protect c (cl_rand cl) plain = Inr cipher" "b64 = cc_b64 c cipher"
      by (cases "cc_protect c (cl_rand cl) plain") (auto simp: sealed_text_def)
    ultimately have x: "br_secret_b64 br = Some x" "cc_unb64 c x = Some plain"
        "cc_protect c (cl_rand cl) plain = Inr cipher" "b64 = cc_b64 c cipher" by auto
    with True b assms(1) new show ?thesis
      by (simp add: import_row_def insert_encrypted_def restored_def Let_def bump_def)
         (simp add: pin_added text_row_def blank_row_def clip_of_def)
  next
    case False
    then have e: "existing (content_hash sha (br_text br)) s = None"
      and len: "br_type br = ''files'' \<or> length (br_text br) \<le> blob_threshold" using assms(4) by auto
    show ?thesis
    proof (cases "br_type br = ''files''")
      case True
      with False e assms(1) new show ?thesis
        by (simp add: import_row_def insert_typed_def restored_def Let_def bump_def)
           (simp add: pin_added blank_row_def)
    next
      case notf: False
      with False e len assms(1) new show ?thesis
        by (simp add: import_row_def insert_row_def restored_def Let_def bump_def clip_of_def)
           (simp add: pin_added text_row_def blank_row_def)
    qed
  qed
qed

definition add_rows :: "clip_row list \<Rightarrow> clip_store \<Rightarrow> clip_store" where
  "add_rows rs s = s\<lparr>cs_rows := cs_rows s @ rs\<rparr>"

definition plain_texts :: "backup_row list \<Rightarrow> string list" where
  "plain_texts brs = map br_text (filter (\<lambda>br. \<not> br_secret br) brs)"

text \<open>All of them.\<close>

lemma import_loop_restores:
  assumes "length brs = length cls"
    and "list_all (\<lambda>br. br_type br \<noteq> ''image'' \<and> (br_secret br \<or> br_type br = ''files'' \<or> length (br_text br) \<le> blob_threshold)) brs"
    and "distinct (map (content_hash sha) (plain_texts brs))"
    and "set (map (content_hash sha) (plain_texts brs)) \<inter> ce_hash ` set (cs_rows s) = {}"
    and "set (map (content_hash sha) (plain_texts brs)) \<subseteq> T"
    and "import_fresh sha c T (zip brs cls) s"
  shows "\<exists>rep'. import_loop sha c (zip brs cls) (rep, s) = (Inr rep', add_rows (map2 (restored sha c) brs cls) s) \<and>
    ir_imported rep' = ir_imported rep + length brs \<and> ir_duplicates rep' = ir_duplicates rep \<and>
    ir_images_skipped rep' = ir_images_skipped rep"
  using assms
proof (induction brs cls arbitrary: rep s rule: list_induct2')
  case (4 br brs cl cls)
  define s1 where "s1 = add_row (restored sha c br cl) s"
  define rep1 where "rep1 = rep\<lparr>ir_imported := Suc (ir_imported rep), ir_secrets := bump (br_secret br) (ir_secrets rep)\<rparr>"
  have fresh: "new_id cl s" "import_fresh sha c T (zip brs cls) s1" using 4(7) by (simp_all add: s1_def)
  have sec: "\<exists>b64. sealed_text c cl br = Some b64 \<and> length b64 \<le> blob_threshold \<and> content_hash sha b64 \<notin> T \<and>
      content_hash sha b64 \<notin> ce_hash ` set (cs_rows s)" if "br_secret br"
    using 4(7) that by (auto split: option.splits)
  have plain: "existing (content_hash sha (br_text br)) s = None \<and> (br_type br = ''files'' \<or> length (br_text br) \<le> blob_threshold)"
    if "\<not> br_secret br"
    using 4(3,5) that by (auto simp: existing_None plain_texts_def)
  have "import_row sha c cl br (rep, s) = (Inr rep1, s1)"
    unfolding rep1_def s1_def using 4(3) fresh(1) sec plain by (intro import_row_restores) auto
  moreover have "set (map (content_hash sha) (plain_texts brs)) \<inter> ce_hash ` set (cs_rows s1) = {}"
  proof -
    have "ce_hash (restored sha c br cl) \<notin> set (map (content_hash sha) (plain_texts brs))"
    proof (cases "br_secret br")
      case True
      then show ?thesis using sec 4(6) by (auto simp: restored_hash plain_texts_def)
    next
      case False
      then show ?thesis using 4(4) by (auto simp: restored_hash plain_texts_def)
    qed
    with 4(5) show ?thesis by (auto simp: s1_def add_row_def plain_texts_def split: if_splits)
  qed
  moreover have "length brs = length cls" using 4(2) by simp
  moreover have "list_all (\<lambda>br. br_type br \<noteq> ''image'' \<and> (br_secret br \<or> br_type br = ''files'' \<or> length (br_text br) \<le> blob_threshold)) brs"
    using 4(3) by simp
  moreover have "distinct (map (content_hash sha) (plain_texts brs))" "set (map (content_hash sha) (plain_texts brs)) \<subseteq> T"
    using 4(4,6) by (auto simp: plain_texts_def split: if_splits)
  ultimately obtain rep' where
    "import_loop sha c (zip brs cls) (rep1, s1) = (Inr rep', add_rows (map2 (restored sha c) brs cls) s1)"
    "ir_imported rep' = ir_imported rep1 + length brs" "ir_duplicates rep' = ir_duplicates rep1"
    "ir_images_skipped rep' = ir_images_skipped rep1"
    using 4(1) fresh(2) by blast
  with \<open>import_row sha c cl br (rep, s) = (Inr rep1, s1)\<close> show ?case
    by (simp add: rep1_def s1_def add_rows_def add_row_def)
qed (simp_all add: add_rows_def)

section \<open>Export and import\<close>

text \<open>The laws of the ports: base64 and JSON come back as they went in, the cipher and the envelope open what
  they sealed, and the derivation takes the parameters the export writes.\<close>

definition backup_laws :: "backup_port \<Rightarrow> clip_crypto \<Rightarrow> bool" where
  "backup_laws b c \<longleftrightarrow>
     (\<forall>x. cc_unb64 c (cc_b64 c x) = Some x) \<and>
     (\<forall>r p x. cc_protect c r p = Inr x \<longrightarrow> cc_unprotect c x = Inr p) \<and>
     (\<forall>k n a m. bp_open b k n a (bp_seal b k n a m) = Some m) \<and>
     (\<forall>rs. bp_unrows b (bp_rows b rs) = Some rs) \<and> (\<forall>e. bp_unfile b (bp_file b e) = Some e)"

lemma backup_lawsD:
  assumes "backup_laws b c"
  shows "cc_unb64 c (cc_b64 c x) = Some x" "cc_protect c r p = Inr y \<Longrightarrow> cc_unprotect c y = Inr p"
    "bp_open b k n a (bp_seal b k n a m) = Some m" "bp_unrows b (bp_rows b rs) = Some rs" "bp_unfile b (bp_file b e) = Some e"
  using assms by (auto simp: backup_laws_def)

text \<open>A backup file opens under its passphrase, to the rows that were put into it.\<close>

lemma sealed_opens:
  assumes "backup_laws b c" "length nonce = backup_nonce_len" "seal_with b c json pass salt nonce meta = Inr env"
  shows "decode_envelope b (bp_file b env) = Inr env \<and> decrypt_backup b c env pass = Inr json \<and> ev_meta env = meta"
  using assms(2,3)
  by (auto simp: seal_with_def decode_envelope_def decrypt_backup_def backup_lawsD [OF assms(1)] export_schema_def
      split: option.splits)

lemma export_rows_all:
  "export_rows c True rs = Inr (brs, n) \<Longrightarrow> list_all2 (\<lambda>r br. export_row c r = Inr br) (filter exportable rs) brs"
  by (induction rs arbitrary: brs n) (auto simp: res_bind_eq_Inr split: if_splits)

definition opened :: "clip_crypto \<Rightarrow> clip_row \<Rightarrow> bytes option" where
  "opened c r = Option.bind (cc_unb64 c (unwrap_or [] (ce_content r))) (\<lambda>x. case cc_unprotect c x of Inl e \<Rightarrow> None | Inr p \<Rightarrow> Some p)"

text \<open>What an entry keeps over a backup.  The group of a list of files is not kept.\<close>

definition same_entry :: "clip_crypto \<Rightarrow> clip_row \<Rightarrow> clip_row \<Rightarrow> bool" where
  "same_entry c r q \<longleftrightarrow>
     ce_type q = ce_type r \<and> ce_pinned q = ce_pinned r \<and> ce_source q = ce_source r \<and> ce_secret q = ce_secret r \<and> ce_blob q = None \<and>
     (if ce_secret r then opened c r \<noteq> None \<and> opened c q = opened c r else ce_content q = ce_content r) \<and>
     (ce_type r = ''files'' \<or> ce_group q = ce_group r \<and> (ce_secret r \<or> ce_html q = ce_html r))"

lemma export_row_fields:
  assumes "export_row c r = Inr br"
  shows "br_type br = ce_type r \<and> br_html br = ce_html r \<and> br_group br = ce_group r \<and> br_secret br = ce_secret r \<and>
    br_source br = ce_source r \<and> br_pinned br = ce_pinned r \<and>
    (if ce_secret r then \<exists>p. opened c r = Some p \<and> br_secret_b64 br = Some (cc_b64 c p)
     else br_text br = unwrap_or [] (ce_content r))"
proof (cases "ce_secret r")
  case True
  then obtain x where x: "cc_unb64 c (unwrap_or [] (ce_content r)) = Some x"
    using assms by (auto simp: export_row_def res_bind_eq_Inr)
  then obtain p where p: "cc_unprotect c x = Inr p"
    using assms True by (cases "cc_unprotect c x") (auto simp: export_row_def)
  show ?thesis using assms True x p by (auto simp: export_row_def opened_def)
next
  case False
  with assms show ?thesis by (auto simp: export_row_def Let_def)
qed

lemma restored_same:
  assumes laws: "backup_laws b c" and e: "export_row c r = Inr br" and ok: "clip_row_ok sha B r" "exportable r"
    and sealed: "br_secret br \<Longrightarrow> sealed_text c cl br \<noteq> None"
  shows "same_entry c r (restored sha c br cl)"
proof (cases "ce_secret r")
  case True
  obtain p where p: "opened c r = Some p" "br_secret_b64 br = Some (cc_b64 c p)" "br_secret br"
    using export_row_fields [OF e] True by auto
  obtain x where x: "cc_protect c (cl_rand cl) p = Inr x" "sealed_text c cl br = Some (cc_b64 c x)"
    using sealed p by (auto simp: sealed_text_def backup_lawsD [OF laws] split: sum.splits)
  have "opened c (restored sha c br cl) = Some p"
    using p(3) x backup_lawsD(2) [OF laws x(1)]
    by (simp add: restored_def Let_def opened_def text_row_def blank_row_def backup_lawsD(1) [OF laws])
  with True p export_row_fields [OF e] ok(1) show ?thesis
    by (auto simp: same_entry_def restored_def Let_def text_row_def blank_row_def clip_row_ok_def)
next
  case False
  have "ce_type r = ''text'' \<or> ce_type r = ''files''" "ce_content r \<noteq> None"
    using ok by (auto simp: clip_row_ok_def exportable_def)
  with False export_row_fields [OF e] show ?thesis
    by (auto simp: same_entry_def restored_def text_row_def blank_row_def clip_of_def)
qed

lemma list_all2_map2:
  "list_all2 P xs ys \<Longrightarrow> length ys = length zs \<Longrightarrow> (\<And>x y z. x \<in> set xs \<Longrightarrow> P x y \<Longrightarrow> (y, z) \<in> set (zip ys zs) \<Longrightarrow> Q x (f y z)) \<Longrightarrow>
   list_all2 Q xs (map2 f ys zs)"
  unfolding list_all2_conv_all_nth by (auto simp: set_zip) (metis nth_mem)

lemma list_all2_right:
  "list_all2 P xs ys \<Longrightarrow> (\<And>x y. x \<in> set xs \<Longrightarrow> P x y \<Longrightarrow> Q y) \<Longrightarrow> list_all Q ys"
  by (induction rule: list_all2_induct) auto

lemma import_fresh_sealed:
  "import_fresh sha c T items s \<Longrightarrow> (br, cl) \<in> set items \<Longrightarrow> br_secret br \<Longrightarrow> sealed_text c cl br \<noteq> None"
  by (induction items arbitrary: s) (auto split: if_splits option.splits)

lemma exported_texts:
  "list_all2 (\<lambda>r br. export_row c r = Inr br) rs brs \<Longrightarrow> list_all (clip_row_ok sha B) rs \<Longrightarrow> list_all exportable rs \<Longrightarrow>
   map (content_hash sha) (plain_texts brs) = map ce_hash (filter (\<lambda>r. \<not> ce_secret r) rs)"
proof (induction rule: list_all2_induct)
  case (Cons r rs br brs)
  have "content_hash sha (br_text br) = ce_hash r" if "\<not> ce_secret r"
    using Cons.prems export_row_fields [OF Cons.hyps(1)] that by (auto simp: clip_row_ok_def exportable_def)
  with Cons export_row_fields [OF Cons.hyps(1)] show ?case by (auto simp: plain_texts_def)
qed (simp add: plain_texts_def)

text \<open>C26. A backup made with the sensitive entries, imported with its passphrase into an empty history, brings back
  every entry that is not kept in a file: its kind, its text or its decrypted text, its HTML, its
  pin, its application and (lists of files apart) its group, in the order of the backup, each
  one counted as imported and none as a duplicate.\<close>

theorem backup_roundtrip:
  assumes "clip_reach sha s" and "backup_laws b c" and "length nonce = backup_nonce_len"
    and "export_backup b c pass True now salt nonce s = Inr (raw, meta)"
    and "length calls = em_entries meta"
    and "import_fresh sha c (ce_hash ` set (cs_rows s)) (zip brs calls) clip_open"
    and "export_rows c True (all_for_export s) = Inr (brs, skipped)"
    and "import_backup sha b c pass calls (Some raw) clip_open = (res, s')"
  shows "(\<exists>rep. res = Inr rep \<and> ir_imported rep = em_entries meta \<and> ir_duplicates rep = 0) \<and>
    list_all2 (same_entry c) (filter exportable (all_for_export s)) (cs_rows s')"
proof -
  define rs where "rs = filter exportable (all_for_export s)"
  have ok: "clip_ok sha s" by (rule clip_reach_ok [OF assms(1)])
  have sub: "set rs \<subseteq> set (cs_rows s)" by (auto simp: rs_def all_for_export_def newest_first_def)
  have rok: "list_all (clip_row_ok sha (cs_blobs s)) rs" "list_all exportable rs"
    using ok sub by (auto simp: list_all_iff clip_ok_def rs_def)
  have ex: "list_all2 (\<lambda>r br. export_row c r = Inr br) rs brs"
    unfolding rs_def by (rule export_rows_all [OF assms(7)])
  have T: "map (content_hash sha) (plain_texts brs) = map ce_hash (filter (\<lambda>r. \<not> ce_secret r) rs)"
    by (rule exported_texts [OF ex rok])
  have "mset (map ce_hash (all_for_export s)) = mset (map ce_hash (cs_rows s))"
    by (simp add: all_for_export_def newest_first_def)
  from mset_eq_imp_distinct_iff [OF this] have "distinct (map ce_hash (all_for_export s))"
    using ok by (simp add: clip_ok_def)
  then have dist: "distinct (map (content_hash sha) (plain_texts brs))"
    unfolding T rs_def by (simp add: distinct_map_filter)
  obtain env where meta: "em_entries meta = length brs" and raw: "raw = bp_file b env"
    and env: "seal_with b c (bp_rows b brs) pass salt nonce meta = Inr env"
    using assms(4,7) by (auto simp: export_backup_def res_bind_eq_Inr Let_def split: sum.splits)
  note fresh = assms(6)
  have len: "length brs = length calls" using assms(5) meta by simp
  have kinds: "list_all (\<lambda>br. br_type br \<noteq> ''image'' \<and> (br_secret br \<or> br_type br = ''files'' \<or> length (br_text br) \<le> blob_threshold)) brs"
  proof -
    have "br_type br \<noteq> ''image'' \<and> (br_secret br \<or> br_type br = ''files'' \<or> length (br_text br) \<le> blob_threshold)"
      if "r \<in> set rs" "export_row c r = Inr br" for r br
      using export_row_fields [OF that(2)] rok that(1) by (auto simp: list_all_iff clip_row_ok_def exportable_def)
    then show ?thesis by (rule list_all2_right [OF ex])
  qed
  have hashes: "set (map (content_hash sha) (plain_texts brs)) \<subseteq> ce_hash ` set (cs_rows s)" unfolding T using sub by auto
  obtain rep where loop: "import_loop sha c (zip brs calls) (empty_report, clip_open) = (Inr rep, add_rows (map2 (restored sha c) brs calls) clip_open)"
    and rep: "ir_imported rep = length brs" "ir_duplicates rep = 0"
    using import_loop_restores [OF len kinds dist _ hashes fresh, of empty_report]
    by (auto simp: clip_open_def empty_report_def)
  have "import_backup sha b c pass calls (Some raw) clip_open = (Inr rep, add_rows (map2 (restored sha c) brs calls) clip_open)"
    using sealed_opens [OF assms(2,3) env] meta loop
    by (simp add: import_backup_def raw backup_lawsD(4) [OF assms(2)] import_rows_def)
  then have res: "res = Inr rep" "cs_rows s' = map2 (restored sha c) brs calls"
    using assms(8) by (auto simp: add_rows_def clip_open_def)
  have "list_all2 (same_entry c) rs (map2 (restored sha c) brs calls)"
  proof (rule list_all2_map2 [OF ex len])
    fix r br cl assume r: "r \<in> set rs" and e: "export_row c r = Inr br" and z: "(br, cl) \<in> set (zip brs calls)"
    show "same_entry c r (restored sha c br cl)"
      using restored_same [OF assms(2) e] rok r import_fresh_sealed [OF fresh z] by (auto simp: list_all_iff)
  qed
  with res rep meta show ?thesis by (auto simp: rs_def)
qed


text \<open>A file format for the theorem to run on: rows and envelopes are written as their number, in unary.\<close>

instance backup_row_ext :: (countable) countable
proof (rule countable_classI)
  let ?f = "\<lambda>r. to_nat (br_type r, br_text r, br_html r, br_group r, br_secret r, br_secret_b64 r, br_source r, br_created r, br_pinned r, backup_row.more r)"
  show "?f x = ?f y \<Longrightarrow> x = y" for x y :: "'a backup_row_scheme" by (cases x; cases y) simp
qed

instance export_meta_ext :: (countable) countable
proof (rule countable_classI)
  let ?f = "\<lambda>r. to_nat (em_entries r, em_secrets r, em_images_skipped r, em_exported_at r, export_meta.more r)"
  show "?f x = ?f y \<Longrightarrow> x = y" for x y :: "'a export_meta_scheme" by (cases x; cases y) simp
qed

instance envelope_ext :: (countable) countable
proof (rule countable_classI)
  let ?f = "\<lambda>r. to_nat (ev_schema r, ev_algo r, ev_m_kib r, ev_t_cost r, ev_p_cost r, ev_salt r, ev_nonce r, ev_ct r, ev_meta r, envelope.more r)"
  show "?f x = ?f y \<Longrightarrow> x = y" for x y :: "'a envelope_scheme" by (cases x; cases y) simp
qed

definition counted_port :: backup_port where
  "counted_port =
     \<lparr>bp_kdf = (\<lambda>pass salt m t p. Some (str_bytes pass @ salt)), bp_seal = (\<lambda>k n a m. k @ m),
      bp_open = (\<lambda>k n a ct. if prefix k ct then Some (drop (length k) ct) else None),
      bp_rows = (\<lambda>rs. replicate (to_nat rs) 0), bp_unrows = (\<lambda>bs. Some (from_nat (length bs))),
      bp_file = (\<lambda>e. replicate (to_nat e) 0), bp_unfile = (\<lambda>bs. Some (from_nat (length bs)))\<rparr>"

definition text_crypto :: clip_crypto where
  "text_crypto =
     \<lparr>cc_protect = (\<lambda>r bs. Inr (rev bs)), cc_unprotect = (\<lambda>c. Inr (rev c)),
      cc_b64 = map (\<lambda>w. char_of (unat w)), cc_unb64 = (\<lambda>s. Some (str_bytes s))\<rparr>"

lemma text_laws: "backup_laws counted_port text_crypto"
  by (auto simp: backup_laws_def counted_port_def text_crypto_def str_bytes_def comp_def)

definition exported :: "(backup_error + bytes \<times> export_meta)" where
  "exported = export_backup counted_port text_crypto ''long enough'' True 50 [1, 2] (replicate backup_nonce_len 7) two_clips"

definition new_calls :: "clip_call list" where "new_calls = [at 60 ''c'', at 70 ''d'']"

theorem backup_roundtrip_witness:
  "list_all2 (same_entry text_crypto) (filter exportable (all_for_export two_clips))
     (cs_rows (snd (import_backup plain_sha counted_port text_crypto ''long enough'' new_calls
        (Some (fst (Sum_Type.projr exported))) clip_open)))"
proof -
  have order: "all_for_export two_clips = [plain_row 20 ''b'' ''beta'', plain_row 10 ''a'' ''alpha'']"
    by (simp add: all_for_export_def newest_first_def two_clips_eq sort_key_def)
  obtain brs where brs: "export_rows text_crypto True (all_for_export two_clips) = Inr (brs, 0)"
    "length brs = 2" "list_all (\<lambda>br. \<not> br_secret br) brs"
    by (simp add: order exportable_def export_row_def Let_def)
  then obtain x y where xy: "brs = [x, y]" by (auto simp: numeral_2_eq_2 length_Suc_conv)
  have "check_export_passphrase ''long enough'' True = Inr ()" by code_simp
  then obtain raw meta where e: "exported = Inr (raw, meta)" "em_entries meta = 2"
    using brs by (auto simp: exported_def export_backup_def seal_with_def counted_port_def Let_def)
  obtain res s' where i: "import_backup plain_sha counted_port text_crypto ''long enough'' new_calls (Some raw) clip_open = (res, s')"
    by (cases "import_backup plain_sha counted_port text_crypto ''long enough'' new_calls (Some raw) clip_open")
  have "import_fresh plain_sha text_crypto (ce_hash ` set (cs_rows two_clips)) (zip brs new_calls) clip_open"
    using brs(3) xy by (simp add: new_calls_def clip_open_def add_row_def new_id_def at_def)
  from backup_roundtrip [OF two_clips_reach text_laws _ e(1) [unfolded exported_def] _ this brs(1) i] e(2)
  have "list_all2 (same_entry text_crypto) (filter exportable (all_for_export two_clips)) (cs_rows s')"
    by (simp add: new_calls_def)
  then show ?thesis by (simp add: e(1) i)
qed


text \<open>The creation times are exported and not read back: a row of an import is as old as its call.  Rows are
  imported from the newest to the oldest, so the imported history is in reverse order, and a
  \<open>purge\<close> keeps its oldest entries.\<close>

lemma restored_created [simp]: "ce_created (restored sha c br cl) = cl_now cl"
  by (simp add: restored_def text_row_def blank_row_def Let_def)

lemma import_reverses:
  assumes "length brs = length cls" "sorted_wrt (<) (map cl_now cls)"
  shows "newest_first (map2 (restored sha c) brs cls) = rev (map2 (restored sha c) brs cls)"
proof -
  have "map ce_created (map2 (restored sha c) brs cls) = map cl_now cls"
    using assms(1) by (induction brs cls rule: list_induct2) simp_all
  with assms(2) have "sorted_wrt (<) (map ce_created (map2 (restored sha c) brs cls))" by simp
  then have "sorted (map (\<lambda>r. - ce_created r) (rev (map2 (restored sha c) brs cls)))"
    by (simp add: sorted_wrt_map sorted_wrt_rev) (erule sorted_wrt_mono_rel [rotated], simp)
  moreover have "inj_on (\<lambda>r. - ce_created r) (set (map2 (restored sha c) brs cls))"
  proof -
    have "distinct (map ce_created (map2 (restored sha c) brs cls))"
      using \<open>sorted_wrt (<) (map ce_created (map2 (restored sha c) brs cls))\<close> by (simp add: strict_sorted_iff)
    then show ?thesis by (auto simp: distinct_map inj_on_def)
  qed
  ultimately show ?thesis
    unfolding newest_first_def by (intro sort_key_inj_key_eq) simp_all
qed

text \<open>The parameters of the key derivation are read from the file and not checked: a file whose parameters
  the derivation refuses ends the import in a panic.\<close>

lemma refused_parameters_panic:
  assumes "backup_laws b c" "length nonce = backup_nonce_len" "bp_kdf b pass salt m t p = None"
  shows "import_backup sha b c pass calls
    (Some (bp_file b \<lparr>ev_schema = export_schema, ev_algo = ''argon2id'', ev_m_kib = m, ev_t_cost = t, ev_p_cost = p,
       ev_salt = cc_b64 c salt, ev_nonce = cc_b64 c nonce, ev_ct = cc_b64 c ct, ev_meta = meta\<rparr>)) s = (Inl Panic, s)"
  using assms(2,3) by (simp add: import_backup_def decode_envelope_def decrypt_backup_def backup_lawsD [OF assms(1)])

end
