(* ===== verification/Clip_Races.thy ===== *)
theory Clip_Races
  imports Clip_History
begin

text \<open>
  The history while calls overlap (\<open>clipboard-core/src/store.rs\<close>).  Most operations hold the lock of the
  table from beginning to end; \<open>delete\<close>, \<open>clear\<close>, \<open>purge\<close> and \<open>gc_orphan_blobs\<close> give it back before they
  remove files.  Here these are taken apart: the rows go, and the names of their files wait to be removed,
  each in a step of its own; a collection notes the names the table refers to, and removes other files
  later.  The steps interleave with everything else.
\<close>

section \<open>The history with removals under way\<close>

record clip_world =
  cw_store :: clip_store
  cw_pending :: "string list"
  cw_scans :: "string list list"

definition quiet_world :: "clip_store \<Rightarrow> clip_world" where
  "quiet_world s = \<lparr>cw_store = s, cw_pending = [], cw_scans = []\<rparr>"

text \<open>\<open>Unlink\<close> is the removal of one waiting name, \<open>ScanUnlink\<close> that of a name a collection found in the
  directory.\<close>

datatype clip_act =
    Whole clip_op
  | DropEntry string
  | DropCleared bool
  | DropPurged int nat nat
  | Unlink nat blob_removal bool
  | ScanStart
  | ScanUnlink nat blob_removal string
  | ScanEnd nat

fun locked :: "clip_op \<Rightarrow> bool" where
  "locked (OpDelete rm i) = False"
| "locked (OpClear rm keep) = False"
| "locked (OpPurge rm now days cap) = False"
| "locked (OpGc rm names) = False"
| "locked _ = True"

definition remove_at :: "nat \<Rightarrow> 'a list \<Rightarrow> 'a list" where
  "remove_at k xs = take k xs @ drop (Suc k) xs"

fun race_exec :: "(bytes \<Rightarrow> bytes) \<Rightarrow> clip_act \<Rightarrow> clip_world \<Rightarrow> clip_world" where
  "race_exec sha (Whole op) w = (if locked op then w\<lparr>cw_store := clip_exec sha op (cw_store w)\<rparr> else w)"
| "race_exec sha (DropEntry i) w =
     (let (blob, s) = drop_row i (cw_store w)
      in w\<lparr>cw_store := s, cw_pending := cw_pending w @ (case blob of None \<Rightarrow> [] | Some b \<Rightarrow> [b])\<rparr>)"
| "race_exec sha (DropCleared keep) w =
     (let ((bs, n), s) = clear_rows keep (cw_store w) in w\<lparr>cw_store := s, cw_pending := cw_pending w @ bs\<rparr>)"
| "race_exec sha (DropPurged now days cap) w =
     (let ((bs, n), s) = purge_rows now days cap (cw_store w) in w\<lparr>cw_store := s, cw_pending := cw_pending w @ bs\<rparr>)"
| "race_exec sha (Unlink k rm overwrite) w =
     (if k < length (cw_pending w)
      then w\<lparr>cw_store := remove_blob rm overwrite (cw_pending w ! k) (cw_store w), cw_pending := remove_at k (cw_pending w)\<rparr>
      else w)"
| "race_exec sha ScanStart w = w\<lparr>cw_scans := cw_scans w @ [blobs_of (\<lambda>_. True) (cw_store w)]\<rparr>"
| "race_exec sha (ScanUnlink k rm name) w =
     (if k < length (cw_scans w) \<and> name \<notin> set (cw_scans w ! k) then w\<lparr>cw_store := remove_blob rm True name (cw_store w)\<rparr> else w)"
| "race_exec sha (ScanEnd k) w = w\<lparr>cw_scans := remove_at k (cw_scans w)\<rparr>"

fun act_fresh :: "(bytes \<Rightarrow> bytes) \<Rightarrow> clip_act \<Rightarrow> clip_world \<Rightarrow> bool" where
  "act_fresh sha (Whole op) w = op_fresh sha op (cw_store w)"
| "act_fresh sha _ w = True"

inductive race_reach :: "(bytes \<Rightarrow> bytes) \<Rightarrow> clip_world \<Rightarrow> bool" for sha where
  race_start: "race_reach sha (quiet_world clip_open)"
| race_next: "race_reach sha w \<Longrightarrow> act_fresh sha act w \<Longrightarrow> race_reach sha (race_exec sha act w)"

text \<open>A deletion that nothing interrupts is the operation of the table.\<close>

lemma drop_then_unlink:
  "cw_pending w = [] \<Longrightarrow> Option.bind (row_of i (cw_store w)) ce_blob = Some b \<Longrightarrow>
   cw_store (race_exec sha (Unlink 0 (rm b) False) (race_exec sha (DropEntry i) w)) = clip_delete rm i (cw_store w)"
  by (simp add: clip_delete_def drop_row_def Let_def)

section \<open>The tables stay sound\<close>

text \<open>Of the invariant, the part that does not speak of the contents of files.\<close>

definition table_ok :: "(bytes \<Rightarrow> bytes) \<Rightarrow> clip_store \<Rightarrow> bool" where
  "table_ok sha s \<longleftrightarrow> (\<exists>B. clip_ok sha (s\<lparr>cs_blobs := B\<rparr>))"

definition same_tables :: "clip_store \<Rightarrow> clip_store \<Rightarrow> bool" where
  "same_tables s t \<longleftrightarrow> cs_rows s = cs_rows t \<and> cs_stack s = cs_stack t \<and> cs_next s = cs_next t"

lemma same_tablesI: "same_tables s t \<Longrightarrow> s\<lparr>cs_blobs := cs_blobs t\<rparr> = t"
  by (simp add: same_tables_def)

lemma table_ok_same: "table_ok sha s \<Longrightarrow> same_tables s t \<Longrightarrow> table_ok sha t"
proof -
  assume "table_ok sha s" "same_tables s t"
  then obtain B where "clip_ok sha (s\<lparr>cs_blobs := B\<rparr>)" by (auto simp: table_ok_def)
  moreover have "s\<lparr>cs_blobs := B\<rparr> = t\<lparr>cs_blobs := B\<rparr>"
    using \<open>same_tables s t\<close> by (cases s; cases t) (simp add: same_tables_def)
  ultimately show ?thesis by (auto simp: table_ok_def)
qed

lemma clip_ok_table: "clip_ok sha s \<Longrightarrow> table_ok sha s"
  unfolding table_ok_def by (rule exI [of _ "cs_blobs s"]) simp

lemma remove_blob_same: "same_tables s (remove_blob rm ow b s)"
  by (simp add: same_tables_def)

lemma write_blob_tables: "same_tables s t \<Longrightarrow> fst (write_blob w n bs s) = fst (write_blob w n bs t) \<and>
    same_tables (snd (write_blob w n bs s)) (snd (write_blob w n bs t))"
  by (simp add: write_blob_def same_tables_def split: fs_write.splits)

lemma existing_tables: "same_tables s t \<Longrightarrow> existing h s = existing h t"
  by (simp add: existing_def same_tables_def)

lemma row_of_tables: "same_tables s t \<Longrightarrow> row_of i s = row_of i t"
  by (simp add: row_of_def same_tables_def)

lemma upd_row_tables: "same_tables s t \<Longrightarrow> same_tables (upd_row i f s) (upd_row i f t)"
  by (simp add: upd_row_def same_tables_def)

lemma add_row_tables: "same_tables s t \<Longrightarrow> same_tables (add_row r s) (add_row r t)"
  by (simp add: add_row_def same_tables_def)

lemma write_order_tables: "same_tables s t \<Longrightarrow> same_tables (write_order k xs s) (write_order k xs t)"
  by (induction xs arbitrary: k s t) (simp_all add: same_tables_def set_position_def)

lemma stack_list_tables: "same_tables s t \<Longrightarrow> stack_list s = stack_list t"
  by (simp add: stack_list_def same_tables_def)

lemma apply_suggestion_tables: "same_tables s t \<Longrightarrow> same_tables (snd (apply_suggestion is a s)) (snd (apply_suggestion is a t))"
proof (induction "is" arbitrary: s t)
  case (Cons i "is")
  let ?f = "\<lambda>s. s\<lparr>cs_rows := map (\<lambda>r. if ce_id r = i \<and> suggestible a r then settle_suggestion a r else r) (cs_rows s)\<rparr>"
  have "same_tables (?f s) (?f t)" using Cons.prems by (simp add: same_tables_def)
  from Cons.IH [OF this] show ?case by (simp add: Let_def case_prod_beta)
qed simp

lemma insert_tables:
  assumes "same_tables s t"
  shows "same_tables (snd (insert_row sha cl c s)) (snd (insert_row sha cl c t))"
    and "same_tables (snd (insert_encrypted sha cl b64 grp sugg src origin s)) (snd (insert_encrypted sha cl b64 grp sugg src origin t))"
    and "same_tables (snd (insert_image sha cl fmt wd ht bs src origin s)) (snd (insert_image sha cl fmt wd ht bs src origin t))"
    and "same_tables (snd (insert_files sha cl ps src origin s)) (snd (insert_files sha cl ps src origin t))"
proof -
  note e = existing_tables [OF assms, symmetric]
  have w: "same_tables (snd (write_blob wr n b s)) (snd (write_blob wr n b t))" "fst (write_blob wr n b t) = fst (write_blob wr n b s)" for wr n b
    using write_blob_tables [OF assms] by simp_all
  note i = upd_row_tables add_row_tables assms w(1)
  show "same_tables (snd (insert_row sha cl c s)) (snd (insert_row sha cl c t))"
    unfolding insert_row_def Let_def case_prod_beta e w(2)
    by (cases "existing (content_hash sha (nc_text c)) s") (simp_all add: i)
  show "same_tables (snd (insert_encrypted sha cl b64 grp sugg src origin s)) (snd (insert_encrypted sha cl b64 grp sugg src origin t))"
    unfolding insert_encrypted_def Let_def case_prod_beta e w(2) by (simp_all add: i)
  show "same_tables (snd (insert_image sha cl fmt wd ht bs src origin s)) (snd (insert_image sha cl fmt wd ht bs src origin t))"
    unfolding insert_image_def Let_def case_prod_beta e w(2)
    by (cases "existing (content_hash_bytes sha bs) s") (simp_all add: i)
  show "same_tables (snd (insert_files sha cl ps src origin s)) (snd (insert_files sha cl ps src origin t))"
    unfolding insert_files_def insert_typed_def Let_def e
    by (cases "existing (content_hash sha (join_with [CHR 0x0A] ps)) s") (simp_all add: i)
qed

lemma exec_tables:
  assumes "locked op" "same_tables s t"
  shows "same_tables (clip_exec sha op s) (clip_exec sha op t)"
proof (cases op)
  case (OpSuggest "is" a)
  then show ?thesis using apply_suggestion_tables [OF assms(2)] by simp
next
  case (OpMove i k)
  then show ?thesis
    using assms(2) stack_list_tables [OF assms(2)] by (simp add: stack_move_def Let_def write_order_tables)
next
  case (OpGroup i g)
  then show ?thesis
    using assms(2) row_of_tables [OF assms(2)] by (auto simp: set_entry_group_def intro: upd_row_tables split: sum.splits)
next
  case (OpRename n m)
  then show ?thesis
    using assms(2) by (auto simp: rename_group_def regroup_def same_tables_def split: sum.splits)
next
  case (OpPush i)
  then show ?thesis using assms(2) row_of_tables [OF assms(2)] by (auto simp: stack_push_def Let_def same_tables_def)
qed (use assms insert_tables [OF assms(2)] upd_row_tables [OF assms(2)] in
    \<open>auto simp: same_tables_def pin_entry_def stack_take_next_def stack_remove_def stack_clear_def delete_group_def regroup_def
      Let_def split: list.splits\<close>)

lemma op_fresh_tables: "same_tables s t \<Longrightarrow> op_fresh sha op s = op_fresh sha op t"
  using existing_tables [of s t] by (cases op) (simp_all add: new_id_def same_tables_def)

lemma blobs_same [simp]: "same_tables s (s\<lparr>cs_blobs := B\<rparr>)" "same_tables (s\<lparr>cs_blobs := B\<rparr>) s"
  by (simp_all add: same_tables_def)

lemma table_ok_exec: "table_ok sha s \<Longrightarrow> locked op \<Longrightarrow> op_fresh sha op s \<Longrightarrow> table_ok sha (clip_exec sha op s)"
proof -
  assume "table_ok sha s" and l: "locked op" and f: "op_fresh sha op s"
  then obtain B where B: "clip_ok sha (s\<lparr>cs_blobs := B\<rparr>)" by (auto simp: table_ok_def)
  have "op_fresh sha op (s\<lparr>cs_blobs := B\<rparr>)" using f op_fresh_tables [of s "s\<lparr>cs_blobs := B\<rparr>"] by simp
  then have "clip_ok sha (clip_exec sha op (s\<lparr>cs_blobs := B\<rparr>))" by (rule clip_exec_ok [OF B])
  then show ?thesis by (rule table_ok_same [OF clip_ok_table]) (rule exec_tables [OF l], simp)
qed

lemma table_ok_drop: "table_ok sha s \<Longrightarrow> table_ok sha (drop_rows P s)"
proof -
  assume "table_ok sha s"
  then obtain B where B: "clip_ok sha (s\<lparr>cs_blobs := B\<rparr>)" by (auto simp: table_ok_def)
  have "drop_rows P (s\<lparr>cs_blobs := B\<rparr>) = (drop_rows P s)\<lparr>cs_blobs := B\<rparr>" by (simp add: drop_rows_def)
  then show ?thesis using drop_rows_ok [OF B, of P] by (auto simp: table_ok_def)
qed

lemma table_row_of: "table_ok sha s \<Longrightarrow> row_of i s = Some r \<longleftrightarrow> r \<in> set (cs_rows s) \<and> ce_id r = i"
proof -
  assume "table_ok sha s"
  then obtain B where "clip_ok sha (s\<lparr>cs_blobs := B\<rparr>)" by (auto simp: table_ok_def)
  from row_of_iff [OF this, of i r] show ?thesis by (simp add: row_of_tables [OF blobs_same(2), of i B s])
qed

lemma table_shared_blob:
  "table_ok sha s \<Longrightarrow> r \<in> set (cs_rows s) \<Longrightarrow> q \<in> set (cs_rows s) \<Longrightarrow> ce_blob r = Some b \<Longrightarrow> ce_blob q = Some b \<Longrightarrow> r = q"
proof -
  assume "table_ok sha s" and q: "r \<in> set (cs_rows s)" "q \<in> set (cs_rows s)" "ce_blob r = Some b" "ce_blob q = Some b"
  then obtain B where B: "clip_ok sha (s\<lparr>cs_blobs := B\<rparr>)" by (auto simp: table_ok_def)
  show "r = q" by (rule shared_blob [OF B _ _ q(3,4)]) (simp_all add: q)
qed

lemma table_fresh_blob:
  "table_ok sha s \<Longrightarrow> existing hash s = None \<Longrightarrow> CHR ''.'' \<notin> set hash \<Longrightarrow> \<not> referenced s (hash @ ''.'' @ ext)"
proof -
  assume "table_ok sha s" and e: "existing hash s = None" "CHR ''.'' \<notin> set hash"
  then obtain B where B: "clip_ok sha (s\<lparr>cs_blobs := B\<rparr>)" by (auto simp: table_ok_def)
  have "existing hash (s\<lparr>cs_blobs := B\<rparr>) = None" using e(1) existing_tables [OF blobs_same(2), of hash B s] by simp
  from fresh_blob [OF B this e(2), of ext] show ?thesis by (simp add: referenced_def)
qed

text \<open>An operation under the lock writes no file that a row refers to.\<close>

lemma write_other: "n \<noteq> b \<Longrightarrow> cs_blobs (snd (write_blob w n bs s)) b = cs_blobs s b"
  by (simp add: write_blob_def split: fs_write.splits)

lemma exec_file_frame:
  assumes ok: "table_ok sha s" and l: "locked op" and f: "op_fresh sha op s" and r: "referenced s b"
  shows "cs_blobs (clip_exec sha op s) b = cs_blobs s b"
proof -
  have w: "cs_blobs (snd (write_blob wr (content_hash_bytes sha x @ ''.'' @ ext) bs s)) b = cs_blobs s b"
    if "existing (content_hash_bytes sha x) s = None" for wr x ext bs
  proof (rule write_other)
    show "content_hash_bytes sha x @ ''.'' @ ext \<noteq> b"
      using table_fresh_blob [OF ok that, of ext] r by (metis content_hash_no_dot)
  qed
  have w2: "cs_blobs (snd (write_blob wr (content_hash sha x @ ''.'' @ ext) bs s)) b = cs_blobs s b"
    if "existing (content_hash sha x) s = None" for wr x ext bs
    using w that by (simp add: content_hash_def)
  have up: "cs_blobs (upd_row i g x) = cs_blobs x" "cs_blobs (add_row q x) = cs_blobs x" for i g q x
    by (simp_all add: upd_row_def add_row_def)
  show ?thesis
  proof (cases op)
    case (OpInsert cl c)
    then show ?thesis
      using w2 [of "nc_text c" _ "''txt''"] by (cases "existing (content_hash sha (nc_text c)) s") (auto simp: insert_row_def up Let_def case_prod_beta)
  next
    case (OpEncrypted cl b64 grp sugg src origin)
    then have "existing (content_hash sha b64) s = None" using f by simp
    with OpEncrypted show ?thesis
      using w2 [of b64 _ "''enc''"] by (simp add: insert_encrypted_def up Let_def case_prod_beta)
  next
    case (OpImage cl fmt wd ht bs src origin)
    then show ?thesis
      using w [of bs _ fmt] by (cases "existing (content_hash_bytes sha bs) s") (auto simp: insert_image_def up Let_def case_prod_beta)
  next
    case (OpFiles cl ps src origin)
    then show ?thesis by (simp add: insert_files_def insert_typed_def up Let_def split: option.split)
  next
    case (OpMove i k)
    have "cs_blobs (write_order j xs x) = cs_blobs x" for j xs x
      by (induction xs arbitrary: j x) (simp_all add: set_position_def)
    with OpMove show ?thesis by (simp add: stack_move_def Let_def)
  next
    case (OpSuggest "is" a)
    have "cs_blobs (snd (apply_suggestion is a x)) = cs_blobs x" for x
      by (induction "is" arbitrary: x) (simp_all add: Let_def case_prod_beta)
    with OpSuggest show ?thesis by simp
  qed (use l in \<open>auto simp: pin_entry_def up stack_push_def stack_take_next_def stack_remove_def stack_clear_def Let_def
      set_entry_group_def rename_group_def delete_group_def regroup_def split: list.splits sum.splits\<close>)
qed

lemma race_reach_ok: "race_reach sha w \<Longrightarrow> table_ok sha (cw_store w)"
proof (induction rule: race_reach.induct)
  case race_start
  then show ?case by (simp add: quiet_world_def clip_ok_table)
next
  case (race_next w act)
  then show ?case
    by (cases act) (auto simp: table_ok_exec table_ok_drop drop_row_def clear_rows_def purge_rows_def Let_def
        intro: table_ok_same [OF _ remove_blob_same] split: option.splits)
qed

section \<open>An entry that stays is read as before\<close>

lemma exec_row_stays:
  assumes "table_ok sha s" "table_ok sha s'" "bodies_kept s s'" "row_of i s = Some r" "i \<in> ids s'"
  shows "\<exists>q. row_of i s' = Some q \<and> body q = body r"
proof -
  obtain q where q: "q \<in> set (cs_rows s')" "ce_id q = i" using assms(5) by auto
  have r: "r \<in> set (cs_rows s)" "ce_id r = i" using assms(4) table_row_of [OF assms(1)] by auto
  then obtain r' where r': "r' \<in> set (cs_rows s)" "body q = body r'"
    using assms(3) q by (force simp: bodies_kept_def)
  then have "row_of i s = Some r'" using table_row_of [OF assms(1), of i r'] bodyD [OF r'(2)] q(2) by simp
  then show ?thesis using q r'(2) assms(4) table_row_of [OF assms(2), of i q] by auto
qed

text \<open>What keeps the row \<open>r\<close> readable: the row is there, its file is as it was, and nothing under way will
  remove it.\<close>

definition held :: "(bytes \<Rightarrow> bytes) \<Rightarrow> clip_row \<Rightarrow> bytes option \<Rightarrow> clip_world \<Rightarrow> bool" where
  "held sha r x w \<longleftrightarrow>
     table_ok sha (cw_store w) \<and> (\<exists>q. row_of (ce_id r) (cw_store w) = Some q \<and> body q = body r) \<and>
     (\<forall>b. ce_blob r = Some b \<longrightarrow>
        cs_blobs (cw_store w) b = x \<and> b \<notin> set (cw_pending w) \<and> (\<forall>names \<in> set (cw_scans w). b \<in> set names))"

lemma held_referenced: "held sha r x w \<Longrightarrow> ce_blob r = Some b \<Longrightarrow> referenced (cw_store w) b"
  unfolding held_def by (metis bodyD referenced_def row_of_set)

lemma held_payload:
  assumes "held sha r x w" "row_of (ce_id r) s = Some r" "\<And>b. ce_blob r = Some b \<Longrightarrow> cs_blobs s b = x"
  shows "get_payload (ce_id r) (cw_store w) = get_payload (ce_id r) s"
proof -
  obtain q where q: "row_of (ce_id r) (cw_store w) = Some q" "body q = body r" using assms(1) by (auto simp: held_def)
  have "read_blob b (cw_store w) = read_blob b s" if "ce_blob r = Some b" for b
    using assms(1,3) that by (simp add: held_def read_blob_def)
  then have "row_payload r (cw_store w) = row_payload r s" by (auto simp: row_payload_def split: option.split)
  moreover have "row_payload q (cw_store w) = row_payload r (cw_store w)"
    using bodyD [OF q(2)] by (simp add: row_payload_def cong: option.case_cong)
  ultimately show ?thesis using q(1) assms(2) by (simp add: get_payload_def)
qed

lemma remove_other: "n \<noteq> b \<Longrightarrow> cs_blobs (remove_blob rm ow n s) b = cs_blobs s b"
  by (simp add: remove_blob_def split: option.splits blob_removal.splits)

lemma remove_at_subset: "set (remove_at k xs) \<subseteq> set xs"
  using set_take_subset set_drop_subset by (fastforce simp: remove_at_def)

lemma held_remove:
  assumes "held sha r x w" "\<And>b. ce_blob r = Some b \<Longrightarrow> n \<noteq> b"
  shows "held sha r x (w\<lparr>cw_store := remove_blob rm ow n (cw_store w), cw_pending := remove_at k (cw_pending w)\<rparr>)"
    and "held sha r x (w\<lparr>cw_store := remove_blob rm ow n (cw_store w)\<rparr>)"
proof -
  have t: "table_ok sha (remove_blob rm ow n (cw_store w))"
    using assms(1) by (auto simp: held_def intro: table_ok_same [OF _ remove_blob_same])
  have "row_of i (remove_blob rm ow n (cw_store w)) = row_of i (cw_store w)" for i
    using row_of_tables [OF remove_blob_same] by metis
  with t show "held sha r x (w\<lparr>cw_store := remove_blob rm ow n (cw_store w)\<rparr>)"
    using assms remove_other by (auto simp: held_def)
  then show "held sha r x (w\<lparr>cw_store := remove_blob rm ow n (cw_store w), cw_pending := remove_at k (cw_pending w)\<rparr>)"
    using remove_at_subset by (fastforce simp: held_def)
qed

text \<open>Rows that go hand over only the names of their own files.\<close>

lemma held_drop:
  assumes h: "held sha r x w" and s: "table_ok sha s'" "cs_blobs s' = cs_blobs (cw_store w)" "set (cs_rows s') \<subseteq> set (cs_rows (cw_store w))"
    and i: "ce_id r \<in> ids s'"
    and bs: "\<And>b. b \<in> set bs \<Longrightarrow> \<exists>q \<in> set (cs_rows (cw_store w)) - set (cs_rows s'). ce_blob q = Some b"
  shows "held sha r x (w\<lparr>cw_store := s', cw_pending := cw_pending w @ bs\<rparr>)"
proof -
  have t: "table_ok sha (cw_store w)" using h by (simp add: held_def)
  obtain p where p: "row_of (ce_id r) (cw_store w) = Some p" "body p = body r" using h by (auto simp: held_def)
  obtain q where q: "row_of (ce_id r) s' = Some q" "body q = body p"
    using exec_row_stays [OF t s(1) bodies_kept_subset [OF s(3)] p(1) i] by blast
  have q': "q \<in> set (cs_rows s')" using q(1) row_of_set by blast
  have "b \<notin> set bs" if "ce_blob r = Some b" for b
  proof
    assume "b \<in> set bs"
    then obtain d where d: "d \<in> set (cs_rows (cw_store w))" "d \<notin> set (cs_rows s')" "ce_blob d = Some b" using bs by blast
    have "ce_blob q = Some b" using that p(2) q(2) bodyD by metis
    then have "d = q" using table_shared_blob [OF t d(1) _ d(3)] q' s(3) by blast
    with d(2) q' show False by simp
  qed
  then show ?thesis using h s q p(2) by (auto simp: held_def)
qed

lemma dropped_blobs: "b \<in> set (blobs_of P s) \<Longrightarrow> \<exists>q \<in> set (cs_rows s) - set (cs_rows (drop_rows P s)). ce_blob q = Some b"
  by (auto simp: blobs_of_set drop_rows_def)

lemma held_step:
  assumes h: "held sha r x w" and f: "act_fresh sha act w" and i: "ce_id r \<in> ids (cw_store (race_exec sha act w))"
  shows "held sha r x (race_exec sha act w)"
proof -
  have t: "table_ok sha (cw_store w)" using h by (simp add: held_def)
  have d: "table_ok sha (drop_rows P s)" if "table_ok sha s" for P s using that by (rule table_ok_drop)
  show ?thesis
  proof (cases act)
    case (Whole op)
    show ?thesis
    proof (cases "locked op")
      case True
      let ?s = "clip_exec sha op (cw_store w)"
      have fr: "op_fresh sha op (cw_store w)" using f Whole by simp
      obtain p where p: "row_of (ce_id r) (cw_store w) = Some p" "body p = body r" using h by (auto simp: held_def)
      obtain q where "row_of (ce_id r) ?s = Some q" "body q = body p"
        using exec_row_stays [OF t table_ok_exec [OF t True fr] exec_bodies [OF fr] p(1)] i Whole True by auto
      moreover have "cs_blobs ?s b = cs_blobs (cw_store w) b" if "ce_blob r = Some b" for b
        using exec_file_frame [OF t True fr held_referenced [OF h that]] .
      ultimately show ?thesis using h p(2) Whole True table_ok_exec [OF t True fr] by (auto simp: held_def)
    qed (use h Whole in simp)
  next
    case (DropEntry j)
    let ?s = "drop_rows (\<lambda>r. ce_id r = j) (cw_store w)"
    let ?bs = "case Option.bind (row_of j (cw_store w)) ce_blob of None \<Rightarrow> [] | Some b \<Rightarrow> [b]"
    have e: "race_exec sha act w = w\<lparr>cw_store := ?s, cw_pending := cw_pending w @ ?bs\<rparr>"
      by (simp add: DropEntry drop_row_def)
    have "\<exists>q \<in> set (cs_rows (cw_store w)) - set (cs_rows ?s). ce_blob q = Some b" if "b \<in> set ?bs" for b
    proof -
      from that obtain q where "row_of j (cw_store w) = Some q" "ce_blob q = Some b"
        by (cases "row_of j (cw_store w)") (auto split: option.splits)
      then show ?thesis using row_of_set [of j "cw_store w" q] by (auto simp: drop_rows_def)
    qed
    with i show ?thesis unfolding e
      by (intro held_drop [OF h d [OF t]]) (auto simp: drop_rows_def)
  next
    case (DropCleared keep)
    let ?P = "\<lambda>r. \<not> (keep \<and> ce_pinned r)"
    have e: "race_exec sha act w = w\<lparr>cw_store := drop_rows ?P (cw_store w), cw_pending := cw_pending w @ blobs_of ?P (cw_store w)\<rparr>"
      by (simp add: DropCleared clear_rows_def Let_def)
    show ?thesis using i dropped_blobs [of _ ?P "cw_store w"] unfolding e
      by (intro held_drop [OF h d [OF t]]) (auto simp: drop_rows_def)
  next
    case (DropPurged now days cap)
    let ?s1 = "drop_rows (expired now days) (cw_store w)"
    let ?s2 = "drop_rows (overflows cap ?s1) ?s1"
    let ?bs = "blobs_of (expired now days) (cw_store w) @ blobs_of (overflows cap ?s1) ?s1"
    have e: "race_exec sha act w = w\<lparr>cw_store := ?s2, cw_pending := cw_pending w @ ?bs\<rparr>"
      by (simp add: DropPurged purge_rows_def Let_def)
    have sub: "set (cs_rows ?s2) \<subseteq> set (cs_rows ?s1)" "set (cs_rows ?s1) \<subseteq> set (cs_rows (cw_store w))"
      by (auto simp: drop_rows_def)
    have b: "\<exists>q \<in> set (cs_rows (cw_store w)) - set (cs_rows ?s2). ce_blob q = Some b" if "b \<in> set ?bs" for b
      using that dropped_blobs [of b "expired now days" "cw_store w"] dropped_blobs [of b "overflows cap ?s1" ?s1] sub
      unfolding set_append by blast
    show ?thesis unfolding e
      by (rule held_drop [OF h d [OF d [OF t]]]) (use i b sub in \<open>auto simp: e drop_rows_def\<close>)
  next
    case (Unlink k rm ow)
    show ?thesis
    proof (cases "k < length (cw_pending w)")
      case True
      have "cw_pending w ! k \<noteq> b" if "ce_blob r = Some b" for b
        using h that True nth_mem [OF True] by (auto simp: held_def)
      then show ?thesis using held_remove(1) [OF h] True Unlink by simp
    qed (use h Unlink in simp)
  next
    case ScanStart
    have "b \<in> set (blobs_of (\<lambda>_. True) (cw_store w))" if "ce_blob r = Some b" for b
      using held_referenced [OF h that] by (simp add: blobs_of_set referenced_def)
    with h ScanStart show ?thesis by (auto simp: held_def)
  next
    case (ScanUnlink k rm name)
    show ?thesis
    proof (cases "k < length (cw_scans w) \<and> name \<notin> set (cw_scans w ! k)")
      case True
      have "name \<noteq> b" if "ce_blob r = Some b" for b using h that True nth_mem [of k "cw_scans w"] by (auto simp: held_def)
      then show ?thesis using held_remove(2) [OF h] True ScanUnlink by simp
    next
      case False
      then have "race_exec sha act w = w" unfolding ScanUnlink by (simp only: race_exec.simps if_False)
      with h show ?thesis by simp
    qed
  next
    case (ScanEnd k)
    with h show ?thesis using remove_at_subset by (fastforce simp: held_def)
  qed
qed

text \<open>Worlds in which the entry \<open>i\<close> has stayed.\<close>

inductive keeps_racing :: "(bytes \<Rightarrow> bytes) \<Rightarrow> string \<Rightarrow> clip_world \<Rightarrow> clip_world \<Rightarrow> bool" for sha i where
  keeps_refl: "keeps_racing sha i w w"
| keeps_step: "keeps_racing sha i w w' \<Longrightarrow> act_fresh sha act w' \<Longrightarrow> i \<in> ids (cw_store (race_exec sha act w')) \<Longrightarrow>
    keeps_racing sha i w (race_exec sha act w')"

lemma held_racing: "keeps_racing sha i w w' \<Longrightarrow> held sha r x w \<Longrightarrow> ce_id r = i \<Longrightarrow> held sha r x w'"
  by (induction rule: keeps_racing.induct) (auto intro: held_step)

lemma new_text_row:
  assumes "existing (content_hash sha (nc_text c)) s = None" "\<not> nc_secret c" "new_id cl s"
    and "insert_row sha cl c s = (Inr i, s1)"
  obtains r where "ce_id r = i" "row_of i s1 = Some r" "get_payload i s1 = Inr (Some (PText (nc_text c)))"
    "ce_blob r = (if blob_threshold < length (nc_text c) then Some (content_hash sha (nc_text c) @ ''.txt'') else None)"
proof -
  let ?name = "content_hash sha (nc_text c) @ ''.txt''"
  have n: "row_of (cl_uuid cl) s = None" using assms(3) by (auto simp: row_of_None new_id_def)
  show thesis
  proof (cases "blob_threshold < length (nc_text c)")
    case True
    let ?r = "text_row cl c (content_hash sha (nc_text c)) (text_preview (nc_text c)) (Some ?name)"
    have "i = cl_uuid cl \<and> s1 = add_row ?r (s\<lparr>cs_blobs := (cs_blobs s)(?name \<mapsto> str_bytes (nc_text c))\<rparr>)"
      using assms(1,2,4) True by (auto simp: insert_row_def Let_def write_blob_def split: fs_write.splits)
    then have i: "i = cl_uuid cl" and s1: "s1 = add_row ?r (s\<lparr>cs_blobs := (cs_blobs s)(?name \<mapsto> str_bytes (nc_text c))\<rparr>)" by auto
    have r: "ce_id ?r = i" "ce_blob ?r = Some ?name" "ce_type ?r = ''text''" "\<not> ce_secret ?r"
      using assms(2) i by (simp_all add: text_row_def blank_row_def)
    have row: "row_of i s1 = Some ?r" using n r(1) i by (simp add: s1 row_of_add) (simp add: row_of_def)
    have "get_payload i s1 = Inr (Some (PText (nc_text c)))"
      using row r by (simp add: get_payload_def row_payload_def read_blob_def s1 add_row_def)
    with that [of ?r] row r True show ?thesis by simp
  next
    case False
    let ?r = "text_row cl c (content_hash sha (nc_text c)) (nc_text c) None"
    have "i = cl_uuid cl \<and> s1 = add_row ?r s" using assms(1,2,4) False by (auto simp: insert_row_def Let_def)
    then have i: "i = cl_uuid cl" and s1: "s1 = add_row ?r s" by auto
    have r: "ce_id ?r = i" "ce_blob ?r = None" "ce_type ?r = ''text''" "\<not> ce_secret ?r" "ce_content ?r = Some (nc_text c)"
      using assms(2) i by (simp_all add: text_row_def blank_row_def)
    have row: "row_of i s1 = Some ?r" using n r(1) i by (simp add: s1 row_of_add)
    have "get_payload i s1 = Inr (Some (PText (nc_text c)))"
      using row r by (simp add: get_payload_def row_payload_def)
    with that [of ?r] row r False show ?thesis by simp
  qed
qed

text \<open>C22. A text new to the history (no row has its hash, its identifier is fresh) that was recorded, and is not
  secret, is pasted exactly as it was, however long it is and whatever interleaves afterwards, as long
  as its entry is not removed: other entries are copied under fresh identifiers (sealed ones with a
  new hash), stacked, deleted, cleared, purged and collected, with the removals of their files running
  late, out of order, or getting stuck.  For a text long enough to have a file of its own it needs
  that, at the moment of copying, no file of that name still waits to be, or is being, removed and no collection
  of orphans is under way; without the former the file is lost (\<open>deletion_takes_recopied_file\<close>).\<close>

theorem copied_text_pasted:
  assumes "race_reach sha w" and "existing (content_hash sha (nc_text c)) (cw_store w) = None"
    and "new_id cl (cw_store w)" and "\<not> nc_secret c"
    and "blob_threshold < length (nc_text c) \<Longrightarrow> content_hash sha (nc_text c) @ ''.txt'' \<notin> set (cw_pending w) \<and> cw_scans w = []"
    and "insert_row sha cl c (cw_store w) = (Inr i, s1)"
    and "keeps_racing sha i (w\<lparr>cw_store := s1\<rparr>) w2"
  shows "get_payload i (cw_store w2) = Inr (Some (PText (nc_text c)))"
proof -
  obtain r where r: "ce_id r = i" "row_of i s1 = Some r" "get_payload i s1 = Inr (Some (PText (nc_text c)))"
    and b: "ce_blob r = (if blob_threshold < length (nc_text c) then Some (content_hash sha (nc_text c) @ ''.txt'') else None)"
    using new_text_row [OF assms(2,4,3,6)] by blast
  have f: "op_fresh sha (OpInsert cl c) (cw_store w)" using assms(3,4) by simp
  have "table_ok sha s1" using table_ok_exec [OF race_reach_ok [OF assms(1)] _ f] assms(6) by simp
  moreover have "ce_blob r = Some n \<Longrightarrow> n \<notin> set (cw_pending w) \<and> cw_scans w = []" for n
    using b assms(5) by (auto split: if_splits)
  ultimately have "held sha r (Option.bind (ce_blob r) (cs_blobs s1)) (w\<lparr>cw_store := s1\<rparr>)"
    using r(1,2) by (auto simp: held_def)
  from held_racing [OF assms(7) this r(1)]
  have "get_payload (ce_id r) (cw_store w2) = get_payload (ce_id r) s1"
    by (rule held_payload) (simp_all add: r)
  with r show ?thesis by simp
qed

section \<open>A sample of calls that overlap\<close>

definition big_text :: string where "big_text = replicate (Suc blob_threshold) CHR ''x''"

definition big_copied :: clip_world where
  "big_copied = (quiet_world two_clips)\<lparr>cw_store := snd (insert_row plain_sha (at 30 ''c'') (clip_of big_text) two_clips)\<rparr>"

lemma two_clips_raced: "race_reach plain_sha (quiet_world two_clips)"
proof -
  have e: "race_exec sha (Whole op) (quiet_world s) = quiet_world (clip_exec sha op s)" if "locked op" for sha op s
    using that by (simp add: quiet_world_def)
  show ?thesis unfolding two_clips_def
    by (subst e [symmetric], simp, subst e [symmetric], simp)
       (intro race_next race_start, simp_all add: quiet_world_def insert_plain clip_open_def add_row_def blob_threshold_def)
qed

theorem copied_text_pasted_witness:
  "get_payload ''c'' (cw_store (race_exec plain_sha (DropEntry ''a'') big_copied)) = Inr (Some (PText big_text))"
proof -
  let ?s = "snd (insert_row plain_sha (at 30 ''c'') (clip_of big_text) two_clips)"
  have l: "blob_threshold < length big_text" by (simp add: big_text_def)
  have "big_text \<noteq> t" if "length t \<le> 5" for t using l that by (auto simp: blob_threshold_def)
  from this [of "''alpha''"] this [of "''beta''"] have n: "big_text \<noteq> ''alpha''" "big_text \<noteq> ''beta''" by simp_all
  then have e: "existing (content_hash plain_sha big_text) two_clips = None"
    using n n [symmetric] by (simp add: existing_None two_clips_eq)
  have i: "insert_row plain_sha (at 30 ''c'') (clip_of big_text) two_clips = (Inr ''c'', ?s)"
    using e l by (simp add: insert_row_def Let_def write_blob_def) (simp add: at_def)
  have r: "''c'' \<in> ids (snd (drop_row ''a'' ?s))"
    using e l by (simp add: insert_row_def Let_def write_blob_def) (simp add: drop_row_def drop_rows_def add_row_def text_row_def blank_row_def at_def)
  have k: "keeps_racing plain_sha ''c'' big_copied (race_exec plain_sha (DropEntry ''a'') big_copied)"
    using r by (intro keeps_step keeps_refl) (simp_all add: big_copied_def case_prod_beta)
  have "get_payload ''c'' (cw_store (race_exec plain_sha (DropEntry ''a'') big_copied)) = Inr (Some (PText (nc_text (clip_of big_text))))"
    using e i k by (intro copied_text_pasted [OF two_clips_raced, of _ "at 30 ''c''"])
      (simp_all add: quiet_world_def big_copied_def, simp add: two_clips_eq)
  then show ?thesis by simp
qed

end
