(* ===== verification/Proxy_Rules.thy ===== *)
theory Proxy_Rules
  imports Str
begin

text \<open>
  The routing rules of the proxy module (\<open>crates/proxy-core/src/rules.rs\<close>, with the rule types of
  \<open>ir.rs\<close>): the table the user edits, its validation, and its projection to the rules that are
  rendered for the proxy kernels, which apply the first rule that matches; and the lines one of the
  kernels, mihomo, gets for them (\<open>mihomo.rs\<close>).
\<close>

section \<open>Data\<close>

definition rule_kinds :: "string list" where
  "rule_kinds = [''domain'', ''suffix'', ''keyword'', ''ip_cidr'', ''process'', ''geo_site'', ''geo_ip'']"

definition rule_targets :: "string list" where "rule_targets = [''direct'', ''proxy'', ''block'']"
definition route_modes :: "string list" where "route_modes = [''global'', ''rule'', ''direct_all'']"

record rule_v2 =
  rv_kind :: string
  rv_pattern :: string
  rv_target :: string
  rv_enabled :: bool

record rules_v2 =
  rs_rules :: "rule_v2 list"
  rs_final_target :: string
  rs_route_mode :: string

datatype ir_field =
    IpIsPrivate | Domain | DomainSuffix | Keyword | IpCidr | Process | GeoSite string | GeoIp string

record ir_rule =
  ir_field_of :: ir_field
  ir_patterns :: "string list"
  ir_target :: string

definition is_geo :: "ir_field \<Rightarrow> bool" where
  "is_geo f = (case f of GeoSite _ \<Rightarrow> True | GeoIp _ \<Rightarrow> True | _ \<Rightarrow> False)"

datatype proxy_error =
    BadRouteMode string | BadFinalTarget string | BadKind string | BadTarget string | EmptyPattern
  | BadDomain string | BadKeyword string | BadCidr string | BadProcess string | BadValue string

definition derive_legacy :: "string list \<Rightarrow> rules_v2" where
  "derive_legacy direct_domains =
     \<lparr>rs_rules = map (\<lambda>d. \<lparr>rv_kind = ''suffix'', rv_pattern = d, rv_target = ''direct'', rv_enabled = True\<rparr>)
        direct_domains,
      rs_final_target = ''proxy'', rs_route_mode = ''rule''\<rparr>"

section \<open>Validation\<close>

definition between :: "char \<Rightarrow> char \<Rightarrow> char \<Rightarrow> bool" where
  "between lo hi c \<longleftrightarrow> lo \<le> c \<and> c \<le> hi"

definition is_alnum :: "char \<Rightarrow> bool" where
  "is_alnum c \<longleftrightarrow> list_ex (\<lambda>r. r c) [is_digit, between (CHR ''a'') (CHR ''z''), between (CHR ''A'') (CHR ''Z'')]"

definition is_hex :: "char \<Rightarrow> bool" where
  "is_hex c \<longleftrightarrow> list_ex (\<lambda>r. r c) [is_digit, between (CHR ''a'') (CHR ''f''), between (CHR ''A'') (CHR ''F'')]"

definition domain_shape :: "string \<Rightarrow> bool" where
  "domain_shape p \<longleftrightarrow> list_all (\<lambda>c. is_alnum c \<or> c \<in> {CHR ''.'', CHR ''-'', CHR ''_''}) p"

text \<open>Control characters of a UTF-8 text: C0, delete, and C1, whose encodings are \<open>C2 80\<close> to \<open>C2 9F\<close>.\<close>

fun has_control :: "string \<Rightarrow> bool" where
  "has_control [] \<longleftrightarrow> False"
| "has_control (c # s) \<longleftrightarrow>
     c < CHR 0x20 \<or> c = CHR 0x7F
     \<or> (c = CHR 0xC2 \<and> (case s of d # _ \<Rightarrow> CHR 0x80 \<le> d \<and> d \<le> CHR 0x9F | [] \<Rightarrow> False))
     \<or> has_control s"

definition ipv4_ok :: "string \<Rightarrow> bool" where
  "ipv4_ok a \<longleftrightarrow>
     (let parts = split_on (\<lambda>c. c = CHR ''.'') a in
      length parts = 4
      \<and> list_all (\<lambda>p. p \<noteq> [] \<and> length p \<le> 3 \<and> list_all is_digit p
           \<and> (case parse_uint (2 ^ 32) p of None \<Rightarrow> False | Some v \<Rightarrow> v \<le> 255)) parts)"

fun split_once_colons :: "string \<Rightarrow> (string \<times> string) option" where
  "split_once_colons (a # b # s) =
     (if a = CHR '':'' \<and> b = CHR '':'' then Some ([], s)
      else map_option (\<lambda>(h, t). (a # h, t)) (split_once_colons (b # s)))"
| "split_once_colons _ = None"

definition ipv6_count :: "string \<Rightarrow> nat option" where
  "ipv6_count s =
     (if s = [] then Some 0
      else
        let groups = split_on (\<lambda>c. c = CHR '':'') s in
        if list_all (\<lambda>g. g \<noteq> [] \<and> length g \<le> 4 \<and> list_all is_hex g) groups then Some (length groups)
        else None)"

definition ipv6_ok :: "string \<Rightarrow> bool" where
  "ipv6_ok a =
     (case split_once_colons a of
        None \<Rightarrow> ipv6_count a = Some 8
      | Some (h, t) \<Rightarrow>
          if str_contains h ''::'' \<or> str_contains t ''::'' then False
          else (case (ipv6_count h, ipv6_count t) of (Some m, Some n) \<Rightarrow> m + n \<le> 7 | _ \<Rightarrow> False))"

definition cidr_ok :: "string \<Rightarrow> bool" where
  "cidr_ok s =
     (case split_once_char (CHR ''/'') s of
        None \<Rightarrow> False
      | Some (addr, pre) \<Rightarrow>
          if pre = [] \<or> 3 < length pre \<or> \<not> list_all is_digit pre then False
          else
            let bits = unwrap_or (2 ^ 32 - 1) (parse_uint (2 ^ 32) pre) in
            if CHR '':'' \<in> set addr then bits \<le> 128 \<and> ipv6_ok addr else bits \<le> 32 \<and> ipv4_ok addr)"

definition path_base :: "string \<Rightarrow> string" where
  "path_base p = rev (takeWhile (\<lambda>c. c \<noteq> CHR ''/'' \<and> c \<noteq> CHR 0x5C) (rev p))"

definition sanitize_pattern :: "string \<Rightarrow> string \<Rightarrow> proxy_error + string" where
  "sanitize_pattern kind pattern =
     (if kind \<in> {''domain'', ''suffix'', ''geo_site'', ''geo_ip''} then
        (if domain_shape pattern then Inr pattern else Inl (BadDomain pattern))
      else if kind = ''keyword'' then
        (if has_control pattern \<or> CHR '','' \<in> set pattern \<or> CHR '';'' \<in> set pattern
         then Inl (BadKeyword pattern) else Inr pattern)
      else if kind = ''ip_cidr'' then (if cidr_ok pattern then Inr pattern else Inl (BadCidr pattern))
      else
        let base = path_base pattern in
        if base = [] \<or> has_control base then Inl (BadProcess pattern) else Inr base)"

fun sanitize_rules :: "rule_v2 list \<Rightarrow> proxy_error + rule_v2 list" where
  "sanitize_rules [] = Inr []"
| "sanitize_rules (r # rs) =
     (if rv_kind r \<notin> set rule_kinds then Inl (BadKind (rv_kind r))
      else if rv_target r \<notin> set rule_targets then Inl (BadTarget (rv_target r))
      else
        let pattern = str_trim (rv_pattern r) in
        if pattern = [] then Inl EmptyPattern
        else
          res_bind (sanitize_pattern (rv_kind r) pattern) (\<lambda>p.
            res_bind (sanitize_rules rs) (\<lambda>rest. Inr (r\<lparr>rv_pattern := p\<rparr> # rest))))"

definition sanitize :: "rules_v2 \<Rightarrow> proxy_error + rules_v2" where
  "sanitize v2 =
     (if rs_route_mode v2 \<notin> set route_modes then Inl (BadRouteMode (rs_route_mode v2))
      else if rs_final_target v2 \<notin> set rule_targets then Inl (BadFinalTarget (rs_final_target v2))
      else
        res_bind (sanitize_rules (rs_rules v2)) (\<lambda>rules. Inr (v2\<lparr>rs_rules := rules\<rparr>)))"

section \<open>Projection\<close>

definition field_of_rule :: "rule_v2 \<Rightarrow> proxy_error + ir_field" where
  "field_of_rule r =
     (if rv_kind r = ''domain'' then Inr Domain
      else if rv_kind r = ''suffix'' then Inr DomainSuffix
      else if rv_kind r = ''keyword'' then Inr Keyword
      else if rv_kind r = ''ip_cidr'' then Inr IpCidr
      else if rv_kind r = ''process'' then Inr Process
      else if rv_kind r = ''geo_site'' then Inr (GeoSite (rv_pattern r))
      else if rv_kind r = ''geo_ip'' then Inr (GeoIp (rv_pattern r))
      else Inl (BadKind (rv_kind r)))"

text \<open>The tags of the outbounds are spelt as the targets.\<close>

definition tag_of_target :: "string \<Rightarrow> proxy_error + string" where
  "tag_of_target t = (if t \<in> set rule_targets then Inr t else Inl (BadTarget t))"

fun bucket_add ::
    "ir_field \<Rightarrow> string \<Rightarrow> string \<Rightarrow> (ir_field \<times> string \<times> string list) list
       \<Rightarrow> (ir_field \<times> string \<times> string list) list" where
  "bucket_add f t p [] = [(f, t, if is_geo f then [] else [p])]"
| "bucket_add f t p ((f', t', ps) # bs) =
     (if f' = f \<and> t' = t then (f', t', if is_geo f then ps else ps @ [p]) # bs
      else (f', t', ps) # bucket_add f t p bs)"

fun to_buckets ::
    "rule_v2 list \<Rightarrow> (ir_field \<times> string \<times> string list) list
       \<Rightarrow> proxy_error + (ir_field \<times> string \<times> string list) list" where
  "to_buckets [] bs = Inr bs"
| "to_buckets (r # rs) bs =
     res_bind (field_of_rule r) (\<lambda>f.
       res_bind (tag_of_target (rv_target r)) (\<lambda>t. to_buckets rs (bucket_add f t (rv_pattern r) bs)))"

definition ir_of_bucket :: "ir_field \<times> string \<times> string list \<Rightarrow> ir_rule" where
  "ir_of_bucket = (\<lambda>(f, t, ps). \<lparr>ir_field_of = f, ir_patterns = ps, ir_target = t\<rparr>)"

definition to_ir :: "rules_v2 \<Rightarrow> proxy_error + ir_rule list \<times> string" where
  "to_ir v2 =
     res_bind
       (if rs_route_mode v2 = ''global'' then Inr ''proxy''
        else if rs_route_mode v2 = ''direct_all'' then Inr ''direct''
        else if rs_route_mode v2 = ''rule'' then
          (if rs_final_target v2 \<in> set rule_targets then Inr (rs_final_target v2)
           else Inl (BadFinalTarget (rs_final_target v2)))
        else Inl (BadRouteMode (rs_route_mode v2)))
       (\<lambda>final_tag.
          if rs_route_mode v2 \<noteq> ''rule'' then Inr ([], final_tag)
          else
            res_bind (to_buckets (filter rv_enabled (rs_rules v2)) []) (\<lambda>bs.
              Inr (map ir_of_bucket bs, final_tag)))"

section \<open>Lines for mihomo\<close>

definition private_cidrs :: "string list" where
  "private_cidrs =
     [''10.0.0.0/8'', ''100.64.0.0/10'', ''127.0.0.0/8'', ''169.254.0.0/16'', ''172.16.0.0/12'', ''192.168.0.0/16'',
      ''::1/128'', ''fc00::/7'']"

definition check_pattern :: "string \<Rightarrow> proxy_error + unit" where
  "check_pattern p = (if CHR '','' \<in> set p \<or> has_control p then Inl (BadValue p) else Inr ())"

definition cidr_kind :: "string \<Rightarrow> string" where
  "cidr_kind p = (if CHR '':'' \<in> set p then ''IP-CIDR6'' else ''IP-CIDR'')"

fun rule_lines :: "(string \<Rightarrow> string) \<Rightarrow> string \<Rightarrow> string list \<Rightarrow> proxy_error + string list" where
  "rule_lines kind target [] = Inr []"
| "rule_lines kind target (p # ps) =
     res_bind (check_pattern p) (\<lambda>_.
       res_bind (rule_lines kind target ps) (\<lambda>rest. Inr ((kind p @ '','' @ p @ '','' @ target) # rest)))"

definition render_rule_lines :: "ir_rule \<Rightarrow> string \<Rightarrow> proxy_error + string list" where
  "render_rule_lines r target =
     (case ir_field_of r of
        IpIsPrivate \<Rightarrow> rule_lines cidr_kind target private_cidrs
      | Domain \<Rightarrow> rule_lines (\<lambda>_. ''DOMAIN'') target (ir_patterns r)
      | DomainSuffix \<Rightarrow> rule_lines (\<lambda>_. ''DOMAIN-SUFFIX'') target (ir_patterns r)
      | Keyword \<Rightarrow> rule_lines (\<lambda>_. ''DOMAIN-KEYWORD'') target (ir_patterns r)
      | IpCidr \<Rightarrow> rule_lines cidr_kind target (ir_patterns r)
      | Process \<Rightarrow> rule_lines (\<lambda>_. ''PROCESS-NAME'') target (ir_patterns r)
      | GeoSite code \<Rightarrow> rule_lines (\<lambda>_. ''GEOSITE'') target [code]
      | GeoIp code \<Rightarrow> rule_lines (\<lambda>_. ''GEOIP'') target [code])"

section \<open>What the rules mean\<close>

text \<open>\<open>hits f p q\<close>: the kernel's test of a request against one pattern of a field; a geo field has its
  code in itself and the empty pattern.\<close>

definition rule_hits :: "(ir_field \<Rightarrow> string \<Rightarrow> 'q \<Rightarrow> bool) \<Rightarrow> rule_v2 \<Rightarrow> 'q \<Rightarrow> bool" where
  "rule_hits hits r q =
     (case field_of_rule r of Inl _ \<Rightarrow> False | Inr f \<Rightarrow> hits f (if is_geo f then [] else rv_pattern r) q)"

definition table_verdict :: "(ir_field \<Rightarrow> string \<Rightarrow> 'q \<Rightarrow> bool) \<Rightarrow> rules_v2 \<Rightarrow> 'q \<Rightarrow> string" where
  "table_verdict hits v2 q =
     (case find (\<lambda>r. rule_hits hits r q) (filter rv_enabled (rs_rules v2)) of
        None \<Rightarrow> rs_final_target v2
      | Some r \<Rightarrow> rv_target r)"

definition ir_hits :: "(ir_field \<Rightarrow> string \<Rightarrow> 'q \<Rightarrow> bool) \<Rightarrow> ir_rule \<Rightarrow> 'q \<Rightarrow> bool" where
  "ir_hits hits r q \<longleftrightarrow>
     (if is_geo (ir_field_of r) then hits (ir_field_of r) [] q
      else list_ex (\<lambda>p. hits (ir_field_of r) p q) (ir_patterns r))"

definition ir_verdict :: "(ir_field \<Rightarrow> string \<Rightarrow> 'q \<Rightarrow> bool) \<Rightarrow> ir_rule list \<Rightarrow> string \<Rightarrow> 'q \<Rightarrow> string" where
  "ir_verdict hits ir final_tag q =
     (case find (\<lambda>r. ir_hits hits r q) ir of None \<Rightarrow> final_tag | Some r \<Rightarrow> ir_target r)"

text \<open>The tests a list of buckets makes, with their targets.\<close>

definition pat_of :: "ir_field \<Rightarrow> string \<Rightarrow> string" where
  "pat_of f p = (if is_geo f then [] else p)"

fun bucket_tests :: "(ir_field \<times> string \<times> string list) list \<Rightarrow> (ir_field \<times> string \<times> string) set" where
  "bucket_tests [] = {}"
| "bucket_tests ((f, t, ps) # bs) =
     (\<lambda>p. (f, p, t)) ` (if is_geo f then {[]} else set ps) \<union> bucket_tests bs"

fun rule_tests :: "rule_v2 list \<Rightarrow> (ir_field \<times> string \<times> string) set" where
  "rule_tests [] = {}"
| "rule_tests (r # rs) =
     (case field_of_rule r of Inl _ \<Rightarrow> {} | Inr f \<Rightarrow> {(f, pat_of f (rv_pattern r), rv_target r)}) \<union> rule_tests rs"

lemma bucket_tests_add:
  "bucket_tests (bucket_add f t p bs) = insert (f, pat_of f p, t) (bucket_tests bs)"
proof (induction f t p bs rule: bucket_add.induct)
  case (1 f t p)
  then show ?case by (simp add: pat_of_def)
next
  case (2 f t p f' t' ps bs)
  show ?case
  proof (cases "f' = f \<and> t' = t")
    case True
    then show ?thesis by (cases "is_geo f") (simp_all add: pat_of_def)
  next
    case False
    then have "bucket_add f t p ((f', t', ps) # bs) = (f', t', ps) # bucket_add f t p bs"
      by (simp only: bucket_add.simps if_False simp_thms)
    then show ?thesis by (simp only: bucket_tests.simps 2 [OF False] Un_insert_right)
  qed
qed

lemma to_buckets_tests:
  "to_buckets rs bs = Inr bs' \<Longrightarrow> bucket_tests bs' = bucket_tests bs \<union> rule_tests rs"
proof (induction rs arbitrary: bs)
  case (Cons r rs)
  then obtain f where f: "field_of_rule r = Inr f" "to_buckets rs (bucket_add f (rv_target r) (rv_pattern r) bs) = Inr bs'"
    by (auto simp: res_bind_eq_Inr tag_of_target_def split: if_splits)
  show ?case by (simp add: Cons.IH [OF f(2)] f(1) bucket_tests_add)
qed simp

lemma bucket_hit_iff:
  "(\<exists>r\<in>set (map ir_of_bucket bs). ir_hits hits r q \<and> ir_target r = t)
     \<longleftrightarrow> (\<exists>f p. (f, p, t) \<in> bucket_tests bs \<and> hits f p q)"
proof (induction bs)
  case (Cons b bs)
  obtain f u ps where b: "b = (f, u, ps)" by (cases b)
  show ?case
    using Cons by (cases "is_geo f") (auto simp: b ir_of_bucket_def ir_hits_def list_ex_iff)
qed simp

lemma rule_hit_iff:
  "(\<exists>r\<in>set rs. rule_hits hits r q \<and> rv_target r = t) \<longleftrightarrow> (\<exists>f p. (f, p, t) \<in> rule_tests rs \<and> hits f p q)"
proof (induction rs)
  case (Cons r rs)
  show ?case
    using Cons by (cases "field_of_rule r") (auto simp: rule_hits_def pat_of_def)
qed simp

lemma find_verdict:
  assumes "\<And>t. (\<exists>r\<in>set xs. P r \<and> tx r = t) \<longleftrightarrow> (\<exists>r\<in>set ys. Q r \<and> ty r = t)"
    and "\<And>r s. r \<in> set ys \<Longrightarrow> s \<in> set ys \<Longrightarrow> Q r \<Longrightarrow> Q s \<Longrightarrow> ty r = ty s"
  shows "(case find P xs of None \<Rightarrow> d | Some r \<Rightarrow> tx r) = (case find Q ys of None \<Rightarrow> d | Some r \<Rightarrow> ty r)"
proof (cases "find P xs")
  case None
  then have no: "\<And>r. r \<in> set xs \<Longrightarrow> \<not> P r" by (simp add: find_None_iff)
  have "find Q ys = None"
    unfolding find_None_iff
  proof
    assume "\<exists>y. y \<in> set ys \<and> Q y"
    then obtain y where "y \<in> set ys" "Q y" by (elim exE conjE)
    then have "\<exists>r\<in>set xs. P r \<and> tx r = ty y" by (subst assms(1)) blast
    then show False using no by (elim bexE conjE) simp
  qed
  with None show ?thesis by simp
next
  case (Some x)
  then have x: "x \<in> set xs" "P x" by (auto simp: find_Some_iff)
  have "\<exists>r\<in>set ys. Q r \<and> ty r = tx x"
    unfolding assms(1) [symmetric] using x by blast
  then obtain y where y: "y \<in> set ys" "Q y" "ty y = tx x" by (elim bexE conjE)
  have "find Q ys \<noteq> None" using y(1,2) by (auto simp only: find_None_iff)
  then obtain z where z: "find Q ys = Some z" by (elim not_None_eq [THEN iffD1, elim_format] exE)
  then have "z \<in> set ys" "Q z" by (auto simp: find_Some_iff)
  then have "ty z = tx x" using assms(2) [OF _ y(1) _ y(2)] y(3) by simp
  then show ?thesis using Some z by simp
qed

lemma to_ir_rule_mode:
  "to_ir v2 = Inr (ir, tag) \<Longrightarrow> rs_route_mode v2 = ''rule'' \<Longrightarrow>
     \<exists>bs. to_buckets (filter rv_enabled (rs_rules v2)) [] = Inr bs \<and> ir = map ir_of_bucket bs \<and> tag = rs_final_target v2"
  by (auto simp: to_ir_def res_bind_eq_Inr split: if_splits)

text \<open>C33. The projection keeps the meaning of a table in route mode \<open>rule\<close> whose rules agree: when no two enabled
  rules that match a request send it to different targets, the rendered rules decide the request as the
  table does, first match first and the final target last.\<close>

theorem projection_keeps_verdict:
  assumes "to_ir v2 = Inr (ir, tag)" and "rs_route_mode v2 = ''rule''"
    and "\<And>r s. r \<in> set (rs_rules v2) \<Longrightarrow> s \<in> set (rs_rules v2) \<Longrightarrow> rv_enabled r \<Longrightarrow> rv_enabled s \<Longrightarrow>
      rule_hits hits r q \<Longrightarrow> rule_hits hits s q \<Longrightarrow> rv_target r = rv_target s"
  shows "ir_verdict hits ir tag q = table_verdict hits v2 q"
proof -
  let ?rs = "filter rv_enabled (rs_rules v2)"
  obtain bs where bs: "to_buckets ?rs [] = Inr bs" and ir: "ir = map ir_of_bucket bs" and tag: "tag = rs_final_target v2"
    using to_ir_rule_mode [OF assms(1,2)] by (elim exE conjE)
  have tests: "bucket_tests bs = rule_tests ?rs" using to_buckets_tests [OF bs] by simp
  have "(\<exists>r\<in>set ir. ir_hits hits r q \<and> ir_target r = t) \<longleftrightarrow> (\<exists>r\<in>set ?rs. rule_hits hits r q \<and> rv_target r = t)" for t
    by (simp only: ir bucket_hit_iff tests rule_hit_iff)
  then show ?thesis
    unfolding ir_verdict_def table_verdict_def tag
    by (rule find_verdict) (use assms(3) in \<open>auto simp only: set_filter mem_Collect_eq\<close>)
qed

theorem projection_keeps_verdict_witness:
  "\<exists>ir tag. to_ir (derive_legacy [''cn'', ''qq.com'']) = Inr (ir, tag)
     \<and> ir_verdict (\<lambda>f p q. f = DomainSuffix \<and> suffix p q) ir tag ''im.qq.com'' = ''direct''"
proof -
  let ?hits = "\<lambda>f p q. f = DomainSuffix \<and> suffix p (q :: string)"
  let ?v = "derive_legacy [''cn'', ''qq.com'']"
  let ?ir = "[\<lparr>ir_field_of = DomainSuffix, ir_patterns = [''cn'', ''qq.com''], ir_target = ''direct''\<rparr>]"
  have ir: "to_ir ?v = Inr (?ir, ''proxy'')"
    by code_simp
  have "ir_verdict ?hits ?ir ''proxy'' ''im.qq.com'' = table_verdict ?hits ?v ''im.qq.com''"
    by (rule projection_keeps_verdict [OF ir]) (auto simp: derive_legacy_def)
  also have "\<dots> = ''direct''" by code_simp
  finally show ?thesis using ir by blast
qed

text \<open>Grouping the rules by kind and target moves a rule in front of an earlier one: with the table
  \<open>suffix a.com direct\<close>, \<open>domain x.b.com block\<close>, \<open>suffix b.com direct\<close>, the third rule joins the first
  one's group, and the domain that the table blocks goes out directly.\<close>

lemma grouping_reorders_rules:
  "let rule = (\<lambda>k p t. \<lparr>rv_kind = k, rv_pattern = p, rv_target = t, rv_enabled = True\<rparr>);
       v2 = \<lparr>rs_rules = [rule ''suffix'' ''a.com'' ''direct'', rule ''domain'' ''x.b.com'' ''block'',
                rule ''suffix'' ''b.com'' ''direct''],
              rs_final_target = ''proxy'', rs_route_mode = ''rule''\<rparr>;
       hits = (\<lambda>f p q. f = Domain \<and> p = q \<or> f = DomainSuffix \<and> suffix p q)
   in sanitize v2 = Inr v2
      \<and> (case to_ir v2 of Inl _ \<Rightarrow> False
          | Inr (ir, tag) \<Rightarrow> ir_verdict hits ir tag ''x.b.com'' = ''direct'' \<and> table_verdict hits v2 ''x.b.com'' = ''block'')"
  by code_simp

section \<open>A sanitised table projects\<close>

lemma path_base_clean: "CHR ''/'' \<notin> set (path_base p) \<and> CHR 0x5C \<notin> set (path_base p)"
  by (auto simp: path_base_def dest: set_takeWhileD)

definition rule_wf :: "rule_v2 \<Rightarrow> bool" where
  "rule_wf r \<longleftrightarrow>
     rv_kind r \<in> set rule_kinds \<and> rv_target r \<in> set rule_targets \<and> rv_pattern r \<noteq> []
     \<and> (rv_kind r \<in> {''domain'', ''suffix'', ''geo_site'', ''geo_ip''} \<longrightarrow> domain_shape (rv_pattern r))
     \<and> (rv_kind r = ''keyword'' \<longrightarrow>
          \<not> has_control (rv_pattern r) \<and> CHR '','' \<notin> set (rv_pattern r) \<and> CHR '';'' \<notin> set (rv_pattern r))
     \<and> (rv_kind r = ''ip_cidr'' \<longrightarrow> cidr_ok (rv_pattern r))
     \<and> (rv_kind r = ''process'' \<longrightarrow>
          \<not> has_control (rv_pattern r) \<and> CHR ''/'' \<notin> set (rv_pattern r) \<and> CHR 0x5C \<notin> set (rv_pattern r))"

lemma sanitize_pattern_wf:
  assumes "sanitize_pattern (rv_kind r) p = Inr p'" and "p \<noteq> []"
    and "rv_kind r \<in> set rule_kinds" and "rv_target r \<in> set rule_targets"
  shows "rule_wf (r\<lparr>rv_pattern := p'\<rparr>)"
  using assms path_base_clean [of p]
  by (auto simp: sanitize_pattern_def rule_wf_def rule_kinds_def Let_def split: if_splits)

lemma sanitize_rules_wf: "sanitize_rules rs = Inr rs' \<Longrightarrow> list_all rule_wf rs' \<and> map rv_target rs' = map rv_target rs"
proof (induction rs arbitrary: rs')
  case (Cons r rs)
  then obtain p rest where p: "sanitize_pattern (rv_kind r) (str_trim (rv_pattern r)) = Inr p"
    "sanitize_rules rs = Inr rest" "rs' = r\<lparr>rv_pattern := p\<rparr> # rest"
    "str_trim (rv_pattern r) \<noteq> []" "rv_kind r \<in> set rule_kinds" "rv_target r \<in> set rule_targets"
    by (auto simp: res_bind_eq_Inr Let_def split: if_splits)
  show ?case using sanitize_pattern_wf [OF p(1,4,5,6)] Cons.IH [OF p(2)] by (simp add: p(3))
qed simp

lemma to_buckets_total:
  "list_all rule_wf rs \<Longrightarrow> \<exists>bs'. to_buckets rs bs = Inr bs'"
proof (induction rs arbitrary: bs)
  case (Cons r rs)
  then have "\<exists>f. field_of_rule r = Inr f" "tag_of_target (rv_target r) = Inr (rv_target r)"
    by (auto simp: rule_wf_def rule_kinds_def field_of_rule_def tag_of_target_def)
  then show ?case using Cons by auto
qed simp

text \<open>Of the patterns that pass validation only a process name can hold what the renderer refuses.\<close>

definition safe_char :: "char \<Rightarrow> bool" where
  "safe_char c \<longleftrightarrow> is_alnum c \<or> c \<in> {CHR ''.'', CHR ''-'', CHR ''_'', CHR '':'', CHR ''/''}"

lemma safe_chars: "list_all safe_char s \<Longrightarrow> CHR '','' \<notin> set s \<and> \<not> has_control s"
  by (induction s) (auto simp: safe_char_def is_alnum_def is_digit_def between_def less_eq_char_def less_char_def)

lemma split_on_covers: "c \<in> set s \<Longrightarrow> p c \<or> (\<exists>x\<in>set (split_on p s). c \<in> set x)"
proof (induction s)
  case (Cons a s)
  then show ?case by (cases "split_on p s") auto
qed simp

lemma hex_safe: "is_hex c \<Longrightarrow> safe_char c" "is_digit c \<Longrightarrow> safe_char c"
  by (auto simp: safe_char_def is_hex_def is_alnum_def between_def less_eq_char_def)

lemma split_once_colons_join: "split_once_colons s = Some (h, t) \<Longrightarrow> s = h @ ''::'' @ t"
  by (induction s arbitrary: h rule: split_once_colons.induct) (auto split: if_splits)

lemma safe_split:
  assumes "\<And>x. x \<in> set (split_on (\<lambda>c. c = d) s) \<Longrightarrow> list_all safe_char x" "safe_char d"
  shows "list_all safe_char s"
  unfolding list_all_iff
proof
  fix c
  assume "c \<in> set s"
  then consider "c = d" | x where "x \<in> set (split_on (\<lambda>c. c = d) s)" "c \<in> set x" using split_on_covers [of c s "\<lambda>c. c = d"] by blast
  then show "safe_char c"
  proof cases
    case 1
    with assms(2) show ?thesis by simp
  next
    case 2
    with assms(1) [OF 2(1)] show ?thesis by (simp add: list_all_iff)
  qed
qed

lemma digits_safe: "list_all is_digit s \<Longrightarrow> list_all safe_char s" "list_all is_hex s \<Longrightarrow> list_all safe_char s"
  by (auto simp: list_all_iff intro: hex_safe)

lemma seps_safe: "safe_char (CHR ''.'')" "safe_char (CHR '':'')" "safe_char (CHR ''/'')"
  by (simp_all add: safe_char_def)

lemma ipv4_safe: "ipv4_ok a \<Longrightarrow> list_all safe_char a"
  by (rule safe_split [OF digits_safe(1) seps_safe(1)]) (simp add: ipv4_ok_def Let_def list_all_iff)

lemma ipv6_count_safe: "ipv6_count a = Some n \<Longrightarrow> list_all safe_char a"
proof (cases "a = []")
  case False
  assume "ipv6_count a = Some n"
  with False have "list_all (list_all is_hex) (split_on (\<lambda>c. c = CHR '':'') a)"
    by (auto simp: ipv6_count_def Let_def list_all_iff split: if_splits)
  then show ?thesis by (intro safe_split [OF digits_safe(2) seps_safe(2)]) (simp add: list_all_iff)
qed simp

lemma ipv6_safe: "ipv6_ok a \<Longrightarrow> list_all safe_char a"
proof (cases "split_once_colons a")
  case None
  assume "ipv6_ok a"
  with None show ?thesis by (auto simp: ipv6_ok_def intro: ipv6_count_safe)
next
  case (Some ht)
  assume ok: "ipv6_ok a"
  obtain h t where ht: "ht = (h, t)" by (cases ht)
  with ok Some obtain m n where "ipv6_count h = Some m" "ipv6_count t = Some n"
    by (auto simp: ipv6_ok_def split: if_splits option.splits)
  then show ?thesis
    using split_once_colons_join [OF Some [unfolded ht]] ipv6_count_safe seps_safe(2) by auto
qed

lemma cidr_safe: "cidr_ok s \<Longrightarrow> list_all safe_char s"
proof -
  assume ok: "cidr_ok s"
  then obtain addr pre where sp: "split_once_char (CHR ''/'') s = Some (addr, pre)" and "list_all is_digit pre"
    and "ipv6_ok addr \<or> ipv4_ok addr"
    by (auto simp: cidr_ok_def Let_def split: option.splits if_splits)
  then have "list_all safe_char addr" "list_all safe_char pre" using ipv4_safe ipv6_safe digits_safe(1) by blast+
  then show ?thesis using split_once_char_SomeD [OF sp] seps_safe(3) by simp
qed

lemma domain_safe: "domain_shape s \<Longrightarrow> list_all safe_char s"
  by (auto simp: domain_shape_def list_all_iff safe_char_def)

lemma rule_lines_ok: "(\<exists>ls. rule_lines kind target ps = Inr ls) \<longleftrightarrow> list_all (\<lambda>p. check_pattern p = Inr ()) ps"
  by (induction ps) (auto simp: res_bind_eq_Inr)

lemma safe_checked: "list_all safe_char p \<Longrightarrow> check_pattern p = Inr ()"
  using safe_chars by (simp add: check_pattern_def)

lemma wf_checked:
  assumes "rule_wf r" "field_of_rule r = Inr f"
  shows "check_pattern (rv_pattern r) = Inr () \<longleftrightarrow> \<not> (f = Process \<and> CHR '','' \<in> set (rv_pattern r))"
proof -
  have "check_pattern (rv_pattern r) = Inr ()" if "domain_shape (rv_pattern r) \<or> cidr_ok (rv_pattern r)"
    using that domain_safe cidr_safe safe_checked by blast
  then show ?thesis
    using assms by (auto simp: rule_wf_def rule_kinds_def field_of_rule_def check_pattern_def split: if_splits)
qed

lemma rule_testsE:
  assumes "(f, p, t) \<in> rule_tests rs"
  obtains r where "r \<in> set rs" "field_of_rule r = Inr f" "p = pat_of f (rv_pattern r)"
proof -
  have "\<exists>r\<in>set rs. field_of_rule r = Inr f \<and> p = pat_of f (rv_pattern r)"
    using assms by (induction rs) (auto split: sum.splits)
  with that show thesis by blast
qed

lemma bucket_member:
  "(f, t, ps) \<in> set bs \<Longrightarrow> p \<in> (if is_geo f then {[]} else set ps) \<Longrightarrow> (f, p, t) \<in> bucket_tests bs"
  by (induction bs rule: bucket_tests.induct) auto

lemma geo_code: "field_of_rule r = Inr (GeoSite c) \<or> field_of_rule r = Inr (GeoIp c) \<Longrightarrow> rv_pattern r = c"
  by (auto simp: field_of_rule_def split: if_splits)

lemma private_checked: "list_all (\<lambda>p. check_pattern p = Inr ()) private_cidrs"
  by code_simp

lemma bucket_rendered:
  assumes bs: "to_buckets rs [] = Inr bs" and wf: "list_all rule_wf rs" and b: "(f, t, ps) \<in> set bs"
  shows "(\<exists>ls. render_rule_lines (ir_of_bucket (f, t, ps)) target = Inr ls)
    \<longleftrightarrow> \<not> (f = Process \<and> (\<exists>p\<in>set ps. CHR '','' \<in> set p))"
proof -
  have from_rule: "\<exists>r\<in>set rs. rule_wf r \<and> field_of_rule r = Inr f \<and> p = pat_of f (rv_pattern r)"
    if "p \<in> (if is_geo f then {[]} else set ps)" for p
  proof -
    have "(f, p, t) \<in> rule_tests rs" using bucket_member [OF b that] to_buckets_tests [OF bs] by simp
    then show ?thesis by (rule rule_testsE) (use wf in \<open>auto simp: list_all_iff\<close>)
  qed
  show ?thesis
  proof (cases "is_geo f")
    case True
    then obtain r where r: "rule_wf r" "field_of_rule r = Inr f" using from_rule [of "[]"] by auto
    have "check_pattern (rv_pattern r) = Inr ()" using wf_checked [OF r] True by (auto simp: is_geo_def)
    with True geo_code [of r] r(2) show ?thesis
      by (cases f) (auto simp: is_geo_def render_rule_lines_def ir_of_bucket_def rule_lines_ok)
  next
    case False
    have c: "check_pattern p = Inr () \<longleftrightarrow> \<not> (f = Process \<and> CHR '','' \<in> set p)" if p: "p \<in> set ps" for p
      using from_rule [of p] p False wf_checked by (auto simp: pat_of_def)
    have "list_all (\<lambda>p. check_pattern p = Inr ()) ps \<longleftrightarrow> \<not> (f = Process \<and> (\<exists>p\<in>set ps. CHR '','' \<in> set p))"
      using c by (auto simp: list_all_iff)
    then show ?thesis
      using False private_checked by (cases f) (simp_all add: is_geo_def render_rule_lines_def ir_of_bucket_def rule_lines_ok)
  qed
qed

text \<open>C39. Validation is the only gate the projection needs, and for lines of mihomo almost the only one: of a
  table that passed it every rule has a known kind and target and a pattern of the shape its kind asks
  for, the projection never fails, and each projected rule is rendered, to any target, unless it lists
  a process name with a comma, which validation lets through and the renderer refuses.\<close>

theorem sanitized_projects:
  assumes "sanitize v2 = Inr w"
  shows "list_all rule_wf (rs_rules w) \<and> (\<exists>ir tag. to_ir w = Inr (ir, tag) \<and> tag \<in> set rule_targets
    \<and> (\<forall>r\<in>set ir. \<forall>target. (\<exists>ls. render_rule_lines r target = Inr ls)
        \<longleftrightarrow> \<not> (ir_field_of r = Process \<and> (\<exists>p\<in>set (ir_patterns r). CHR '','' \<in> set p))))"
proof -
  have wf: "list_all rule_wf (rs_rules w)" and mode: "rs_route_mode w \<in> set route_modes" and final: "rs_final_target w \<in> set rule_targets"
    using assms by (auto simp: sanitize_def res_bind_eq_Inr split: if_splits dest: sanitize_rules_wf)
  have wfs: "list_all rule_wf (filter rv_enabled (rs_rules w))"
    using wf by (auto simp: list_all_iff)
  then obtain bs where bs: "to_buckets (filter rv_enabled (rs_rules w)) [] = Inr bs"
    using to_buckets_total by blast
  then obtain ir tag where ir: "to_ir w = Inr (ir, tag)" "tag \<in> set rule_targets" "ir = [] \<or> ir = map ir_of_bucket bs"
    using mode final by (auto simp: to_ir_def route_modes_def rule_targets_def)
  have "(\<exists>ls. render_rule_lines (ir_of_bucket b) target = Inr ls)
      \<longleftrightarrow> \<not> (ir_field_of (ir_of_bucket b) = Process \<and> (\<exists>p\<in>set (ir_patterns (ir_of_bucket b)). CHR '','' \<in> set p))"
    if "b \<in> set bs" for b target
    using bucket_rendered [OF bs wfs, of "fst b" "fst (snd b)" "snd (snd b)" target] that
    by (simp add: ir_of_bucket_def case_prod_beta)
  then have "\<forall>r\<in>set ir. \<forall>target. (\<exists>ls. render_rule_lines r target = Inr ls)
        \<longleftrightarrow> \<not> (ir_field_of r = Process \<and> (\<exists>p\<in>set (ir_patterns r). CHR '','' \<in> set p))"
    using ir(3) by (elim disjE) simp_all
  with wf ir(1,2) show ?thesis by simp
qed

theorem sanitized_projects_witness:
  "\<exists>w. sanitize \<lparr>rs_rules = [\<lparr>rv_kind = ''process'', rv_pattern = ''/usr/bin/ssh '', rv_target = ''direct'', rv_enabled = True\<rparr>],
       rs_final_target = ''proxy'', rs_route_mode = ''rule''\<rparr> = Inr w
     \<and> map rv_pattern (rs_rules w) = [''ssh''] \<and> (\<exists>ir tag. to_ir w = Inr (ir, tag) \<and> tag \<in> set rule_targets)"
proof -
  let ?r = "\<lambda>p. \<lparr>rv_kind = ''process'', rv_pattern = p, rv_target = ''direct'', rv_enabled = True\<rparr>"
  let ?w = "\<lparr>rs_rules = [?r ''ssh''], rs_final_target = ''proxy'', rs_route_mode = ''rule''\<rparr>"
  have s: "sanitize \<lparr>rs_rules = [?r ''/usr/bin/ssh ''], rs_final_target = ''proxy'', rs_route_mode = ''rule''\<rparr> = Inr ?w"
    by code_simp
  show ?thesis using sanitized_projects [OF s] s by auto
qed

text \<open>A process name with a comma passes validation and projects; rendering it fails.\<close>

lemma comma_process_refused:
  "let v2 = \<lparr>rs_rules = [\<lparr>rv_kind = ''process'', rv_pattern = ''a,b.exe'', rv_target = ''direct'', rv_enabled = True\<rparr>],
         rs_final_target = ''proxy'', rs_route_mode = ''rule''\<rparr>
   in sanitize v2 = Inr v2
      \<and> (case to_ir v2 of Inl _ \<Rightarrow> False
          | Inr (ir, tag) \<Rightarrow> map (\<lambda>r. render_rule_lines r ''DIRECT'') ir = [Inl (BadValue ''a,b.exe'')])"
  by code_simp

end
