(* ===== verification/Spec2Isabelle.thy ===== *)
theory Spec2Isabelle
  imports Sync_Protocol Secure_Session Kvm_Edge Kvm_Pairing Kvm_Transfer Host_Hotkey File_Hazards File_Worker File_Rename
    Automation_Engine Vault_Service Clip_Backup Clip_Races Proxy_Rules
begin

text \<open>
  A verification development for NexusForge, a set of desktop tools for Windows written in Rust.
  Every module of the program is a crate under \<open>crates/\<close>; \<open>src-tauri\<close> assembles them.  The
  development follows the crates that carry the program's own logic, leaves the operating system,
  SQLite, cryptography and serialisation codecs outside (as arguments with named laws), and proves
  the properties the crates rely on.

  Parts and how they interact.
  The synchronisation module (\<open>sync-core\<close>) keeps a log of changes per device, exchanges it with
  paired devices over sessions and applies remote changes through an applier; the one applier the
  program installs writes to the note library (\<open>notes-core\<close>).  The keyboard and mouse sharing
  (\<open>kvm-core\<close>) decides when input crosses a screen edge and sends it over sessions.  Both use the
  wire format, the frame cipher, the device identity and the pairings of \<open>host-core\<close>.  The
  automation module reacts to events of the others, the vault and the proxy stand alone.  The clipboard
  (\<open>clipboard-core\<close>) records what is copied, also what \<open>kvm-core\<close> receives, and pastes it back.

  Theories.
  \<open>Prelude\<close>: results as sums with their bind, JSON values, big and little endian words, 64-bit
  wrap-around, list facts.
  \<open>Str\<close>: the operations of Rust's \<open>str\<close> on UTF-8 bytes (trim, split, parse, case, hexadecimal).
  \<open>Sync_Oplog\<close> (\<open>sync-core/src/oplog.rs\<close>): the tables of the change log; a locale of cursor
  stores, interpreted for both cursor tables, and one of last-writer logs.
  \<open>Sync_Engine\<close> (\<open>engine.rs\<close>): merge of a remote change, recording of a local one, push plans and
  conflict rows; the locale \<open>dataset_applier\<close> is the contract of an applier, under which replicas
  converge.
  \<open>Notes_Review\<close>, \<open>Notes_Library\<close> (\<open>notes-core\<close>): the flash card scheduler; note paths and files.
  \<open>Sync_Datasets\<close> (\<open>sync-core/src/module.rs\<close>, \<open>src-tauri/src/state.rs\<close>): the entity list and the
  note applier, with the interpretation of \<open>dataset_applier\<close>.
  \<open>Sync_Session\<close> (\<open>module.rs\<close>): configuration, batches, both sides of a session, the journal.
  \<open>Sync_Protocol\<close>: what a session achieves; the locale \<open>honest_peer\<close> is what the initiator needs
  of the other side, interpreted by the responder of the same code.
  \<open>Host_Wire\<close>, \<open>Host_Device\<close> (\<open>host-core\<close>): frames and cipher; identity and pairings.
  \<open>Secure_Session\<close> (\<open>kvm-core/src/session.rs\<close>, \<open>sync-core/src/transport.rs\<close>): the handshake, the
  encrypted streams (the locale \<open>message_stream\<close>, interpreted for both), the session registry as
  a step relation.
  \<open>Kvm_Edge\<close> (\<open>edge.rs\<close>, \<open>locksync.rs\<close>): the edge switch and its runs, the lock keys.
  \<open>Kvm_Pairing\<close> (\<open>pairing.rs\<close>): pairing codes, the throttle of addresses, the exchange on both sides.
  \<open>Win_Path\<close>: how Windows reads a path, as far as the receiver of files relies on it.
  \<open>Kvm_Transfer\<close> (\<open>transfer.rs\<close>, the file frames of \<open>module.rs\<close>): sending a file in chunks, receiving
  it into a part file, resuming, verifying and naming it.
  \<open>Host_Hotkey\<close> (\<open>host-core/src/hotkey.rs\<close>): who owns a key combination.
  \<open>File_Disk\<close>, \<open>File_Ops\<close> (\<open>file-core/src/conflict.rs\<close>, \<open>ops.rs\<close>): a disk behind a port, the conflict
  rules; plans, the byte pump, copying, moving and deleting.  \<open>File_Copy\<close>: what a copy leaves alone and
  what it delivers, also over pauses; \<open>File_Hazards\<close>: where moves and resumed runs lose data.
  \<open>File_Queue\<close>, \<open>File_Worker\<close> (\<open>ops.rs\<close>, \<open>service.rs\<close>): the queue of operations as a step relation; the
  locale \<open>op_arm\<close> is what the queue asks of the code that carries out an operation, interpreted for
  copying, moving and deleting; the worker's loop and the restart.
  \<open>File_Browse\<close> (\<open>browse.rs\<close>): long paths, checked relative paths, listings.  \<open>File_Names\<close> (\<open>namefix.rs\<close>,
  \<open>service.rs\<close>): which names a remote protocol takes, suggestions, and the gate before the queue.
  \<open>File_Rename\<close> (\<open>rename.rs\<close>): templates, plans and execution of batch renaming.
  \<open>Automation_Rules\<close>, \<open>Automation_Engine\<close> (\<open>automation-core\<close>): conditions and validation; firing,
  cooldown, retries, dead letters, history, store, schedule.
  \<open>Vault\<close> (\<open>vault-core\<close>): auto lock, one-time codes, generated passwords.  \<open>Vault_Crypto\<close>, \<open>Vault_Store\<close>,
  \<open>Vault_Service\<close> (\<open>crypto.rs\<close>, \<open>model.rs\<close>, \<open>vault.rs\<close>): the envelope of keys, the tables, and the service
  with its attempts to unlock in any interleaving, the second unlocking path and the watchdog's tick.
  \<open>Clip_Store\<close>, \<open>Clip_Laws\<close>, \<open>Clip_History\<close> (\<open>clipboard-core/src/store.rs\<close>): the clipboard's table, paste
  stack and files; the invariant every operation keeps; histories of operations, one after the other, and
  what they keep.  \<open>Clip_Races\<close>: the same while calls overlap, with the removals of files that the code
  makes after giving the lock back as steps of their own.
  \<open>Clip_Capture\<close> (\<open>pipeline.rs\<close>, \<open>secrets.rs\<close>): what is recorded and what is encrypted.  \<open>Clip_Module\<close>
  (\<open>module.rs\<close>): reading, and delivering the stack; the locale \<open>delivery\<close> is what the loop needs of one
  delivery.  \<open>Clip_Backup\<close> (\<open>backup.rs\<close>): the encrypted export and its import.
  \<open>Proxy_Rules\<close> (\<open>proxy-core/src/rules.rs\<close>, \<open>mihomo.rs\<close>): the routing table, its validation and projection, and
  the lines one kernel gets for it.

  How code becomes definitions.
  A struct is a record, an enum a datatype, a table of a database the list of its rows, a map a
  function or association list.  Methods that change their object return it.  \<open>Result\<close> is a sum with
  the error on the left.  Integers are words or carry their wrap-around where the code can reach
  it; elsewhere they are numbers, as are the coordinates of the edge switch, whose 32 bits suffice on
  every desktop of at most 2^29 pixels (\<open>edge_sums_fit\<close>).  Names of notes are compared as they are
  written; what Windows makes of case and of dots and spaces at the end is not part of the note library's
  model.  Clocks, random sources, hash functions, codecs and drivers are
  arguments.  Loops recurse on their data; the session loop takes its number of rounds from the
  length of the pending changes, so it needs no fuel, and the responder is a step per message.  The
  byte pump ends because the file gets shorter, the worker's
  loop because the queue gets shorter: it ends at rest, waiting for a job or at the gate, or leaves when the
  sender of the channel is gone.  What holds a lock from beginning to end is one step, and so is the
  report of a worker whose run has ended (\<open>settle\<close>); the theories on unlocking, pairing, pasting and the
  clipboard's files say what happens when the steps of several calls mix.

  What the lemmas show.
  Convergence of replicas and of a whole session; exactness of the log's queries; framing and
  encryption round trips, freshness of nonces, rejection of replayed, reordered and foreign
  messages; agreement of the handshake; the invariants of the edge switch, the registry and the
  rule store; delivery and verification of files; single use of pairing codes and the bound on guesses;
  agreement of the hotkey tables; delivery and safety of file copies, the queue that loses no operation and
  drains, the restart that resumes each record once; names decided before an upload enters the queue, and
  batch renaming that loses no file; cooldown and accounting of fired rules; policies of the vault, the
  key an unlocked vault holds, entries that are read back as given, the bound on guesses and where it fails; copied texts that are
  pasted as they were also while files are being removed, sensitive ones that are only stored encrypted, the paste stack as a queue, what a purge leaves, the
  round trip of a backup; meaning of the routing
  rules under projection and the lines they give; and a number of places where the code does not do what it means to, each
  stated as a theorem about the code as it is.

  Not modelled: the user interface, the Windows calls of \<open>win-integration\<close>, the screenshot, OCR,
  terminal, editor, desktop and system modules, threads and timers, of the file module the remote
  drivers, archives and previews, of the clipboard its lists and statistics.  Failures of
  SQLite statements are outside the model of every table.
\<close>

end
